(* ===== verification/Prelude.thy ===== *)
theory Prelude
  imports Main "HOL-Library.Word" "HOL-Library.Multiset"
begin

text \<open>
  Shared vocabulary of the development: the collections of rewrite rules the component
  theories fill, the model of the standard library's \<open>std::sort\<close>, and the value of a list of
  bits, least significant bit first.
\<close>

named_theorems refines_rules "rules that derive \<open>refines\<close> facts of the rewriter"
named_theorems bits_simps "values of bit lists and of the circuits over them"

type_synonym u32 = "32 word"
type_synonym u64 = "64 word"

subsection \<open>\<open>std::sort\<close>\<close>

text \<open>
  The source calls \<open>std::sort\<close> with a strict order given as a comparison function. The model
  is insertion sort; for a total order every sorting algorithm returns the same list.
\<close>

fun insert_by :: "('a \<Rightarrow> 'a \<Rightarrow> bool) \<Rightarrow> 'a \<Rightarrow> 'a list \<Rightarrow> 'a list" where
  "insert_by lt x [] = [x]"
| "insert_by lt x (y # ys) = (if lt y x then y # insert_by lt x ys else x # y # ys)"

definition std_sort :: "('a \<Rightarrow> 'a \<Rightarrow> bool) \<Rightarrow> 'a list \<Rightarrow> 'a list" where
  "std_sort lt xs = foldr (insert_by lt) xs []"

lemma std_sort_simps [simp]:
  "std_sort lt [] = []"
  "std_sort lt (x # xs) = insert_by lt x (std_sort lt xs)"
  by (simp_all add: std_sort_def)

lemma mset_insert_by [simp]: "mset (insert_by lt x xs) = add_mset x (mset xs)"
  by (induction xs) auto

lemma mset_std_sort [simp]: "mset (std_sort lt xs) = mset xs"
  by (induction xs) auto

lemma set_std_sort [simp]: "set (std_sort lt xs) = set xs"
  by (metis mset_std_sort set_mset_mset)

lemma length_std_sort [simp]: "length (std_sort lt xs) = length xs"
  by (metis mset_std_sort size_mset)

lemma sum_list_std_sort: "sum_list (map f (std_sort lt xs)) = sum_list (map f xs)"
  for f :: "'a \<Rightarrow> 'b::comm_monoid_add"
  by (metis mset_map mset_std_sort sum_mset_sum_list)

subsection \<open>Lists\<close>

lemma takeWhile_nth_below: "k < length (takeWhile P xs) \<Longrightarrow> P (xs ! k)"
  by (metis nth_mem set_takeWhileD takeWhile_nth)

subsection \<open>The value of a list of bits\<close>

fun bits_to_nat :: "bool list \<Rightarrow> nat" where
  "bits_to_nat [] = 0"
| "bits_to_nat (b # bs) = of_bool b + 2 * bits_to_nat bs"

fun nat_to_bits :: "nat \<Rightarrow> nat \<Rightarrow> bool list" where
  "nat_to_bits 0 v = []"
| "nat_to_bits (Suc n) v = odd v # nat_to_bits n (v div 2)"

lemma bits_to_nat_less: "bits_to_nat bs < 2 ^ length bs"
  by (induction bs) (auto simp: of_bool_def)

lemma length_nat_to_bits [simp]: "length (nat_to_bits n v) = n"
  by (induction n arbitrary: v) auto

lemma bits_to_nat_to_bits [simp]: "bits_to_nat (nat_to_bits n v) = v mod 2 ^ n"
proof (induction n arbitrary: v)
  case 0
  then show ?case by simp
next
  case (Suc n)
  have "v mod 2 ^ Suc n = v mod 2 + 2 * (v div 2 mod 2 ^ n)"
    by (simp add: mod_mult2_eq)
  then show ?case by (simp add: Suc.IH mod_2_eq_odd)
qed

lemma nat_to_bits_to_nat [simp]: "nat_to_bits (length bs) (bits_to_nat bs) = bs"
  by (induction bs) auto

lemma bits_to_nat_inject:
  assumes "length as = length bs"
  shows "bits_to_nat as = bits_to_nat bs \<longleftrightarrow> as = bs"
  by (metis assms nat_to_bits_to_nat)

lemma bits_to_nat_append [bits_simps]:
  "bits_to_nat (as @ bs) = bits_to_nat as + 2 ^ length as * bits_to_nat bs"
  by (induction as) (auto simp: algebra_simps)

lemma bits_to_nat_replicate_False [simp]: "bits_to_nat (replicate n False) = 0"
  by (induction n) auto

lemma bits_to_nat_replicate_True: "bits_to_nat (replicate n True) = 2 ^ n - 1"
proof -
  have "Suc (bits_to_nat (replicate n True)) = 2 ^ n"
    by (induction n) auto
  then show ?thesis by simp
qed

lemma bits_to_nat_zero_iff: "bits_to_nat bs = 0 \<longleftrightarrow> (\<forall>b \<in> set bs. \<not> b)"
  by (induction bs) auto

lemma bits_to_nat_sum: "bits_to_nat bs = (\<Sum>i < length bs. of_bool (bs ! i) * 2 ^ i)"
proof (induction bs rule: rev_induct)
  case (snoc b bs)
  have "(\<Sum>i < length bs. of_bool ((bs @ [b]) ! i) * 2 ^ i)
      = (\<Sum>i < length bs. of_bool (bs ! i) * (2::nat) ^ i)"
    by (intro sum.cong) (simp_all add: nth_append)
  with snoc show ?case by (simp add: bits_to_nat_append nth_append)
qed simp

lemma bits_to_nat_nth: "i < length bs \<Longrightarrow> bs ! i = odd (bits_to_nat bs div 2 ^ i)"
proof (induction bs arbitrary: i)
  case (Cons b bs)
  then show ?case
    by (cases i) (auto simp: div_mult2_eq)
qed simp

lemma bits_to_nat_take: "bits_to_nat (take n bs) = bits_to_nat bs mod 2 ^ n"
proof (cases "n \<le> length bs")
  case True
  have "bits_to_nat bs = bits_to_nat (take n bs) + 2 ^ n * bits_to_nat (drop n bs)"
    using bits_to_nat_append [of "take n bs" "drop n bs"] True by (simp add: min.absorb2)
  moreover have "bits_to_nat (take n bs) < 2 ^ n"
    using bits_to_nat_less [of "take n bs"] True by (simp add: min.absorb2)
  ultimately show ?thesis by simp
next
  case False
  have "bits_to_nat bs < 2 ^ length bs" by (rule bits_to_nat_less)
  also have "(2::nat) ^ length bs \<le> 2 ^ n" using False by (intro power_increasing) auto
  finally show ?thesis using False by simp
qed

lemma bits_to_nat_drop: "bits_to_nat (drop n bs) = bits_to_nat bs div 2 ^ n"
proof (cases "n \<le> length bs")
  case True
  have "bits_to_nat bs = bits_to_nat (take n bs) + 2 ^ n * bits_to_nat (drop n bs)"
    using bits_to_nat_append [of "take n bs" "drop n bs"] True by (simp add: min.absorb2)
  moreover have "bits_to_nat (take n bs) < 2 ^ n"
    using bits_to_nat_less [of "take n bs"] True by (simp add: min.absorb2)
  ultimately show ?thesis by simp
next
  case False
  have "bits_to_nat bs < 2 ^ length bs" by (rule bits_to_nat_less)
  also have "(2::nat) ^ length bs \<le> 2 ^ n" using False by (intro power_increasing) auto
  finally show ?thesis using False by simp
qed

text \<open>The complement of every bit, and the arithmetic of one more bit at the bottom.\<close>

definition flip_bits :: "bool list \<Rightarrow> bool list" where
  "flip_bits bs = map Not bs"

lemma flip_bits_simps [simp]:
  "flip_bits [] = []" "flip_bits (b # bs) = (\<not> b) # flip_bits bs"
  "length (flip_bits bs) = length bs"
  by (simp_all add: flip_bits_def)

lemma bits_to_nat_flip: "bits_to_nat (flip_bits bs) = 2 ^ length bs - 1 - bits_to_nat bs"
proof -
  have "Suc (bits_to_nat (flip_bits bs) + bits_to_nat bs) = 2 ^ length bs"
    by (induction bs) auto
  then show ?thesis by simp
qed

lemma mod_bit_step: "(of_bool b + 2 * m) mod (2 * k) = of_bool b + 2 * (m mod k)" for m k :: nat
proof -
  have "(of_bool b + 2 * m) mod (2 * k)
      = (of_bool b + 2 * m) mod 2 + 2 * ((of_bool b + 2 * m) div 2 mod k)"
    by (subst mod_mult2_eq) (rule add.commute)
  then show ?thesis by (cases b) simp_all
qed

lemma nat_to_bits_mod: "k \<le> n \<Longrightarrow> nat_to_bits k (v mod 2 ^ n) = nat_to_bits k v"
proof (induction k arbitrary: v n)
  case (Suc k)
  then obtain n' where n: "n = Suc n'" by (cases n) auto
  have "v mod 2 ^ n = of_bool (odd v) + 2 * (v div 2 mod 2 ^ n')"
    unfolding n by (simp add: mod_mult2_eq mod_2_eq_odd)
  then have "odd (v mod 2 ^ n) = odd v" "v mod 2 ^ n div 2 = v div 2 mod 2 ^ n'" by simp_all
  then show ?case using Suc.IH [of n' "v div 2"] Suc.prems n by simp
qed simp

lemma nat_to_bits_add: "nat_to_bits (k + l) u = nat_to_bits k u @ nat_to_bits l (u div 2 ^ k)"
  by (induction k arbitrary: u) (simp_all add: div_mult2_eq)

lemma bits_to_nat_nth_le: "i < length bs \<Longrightarrow> bs ! i \<Longrightarrow> 2 ^ i \<le> bits_to_nat bs"
proof (induction bs arbitrary: i)
  case (Cons b bs)
  then show ?case by (cases i) (auto simp: le_SucI)
qed simp

text \<open>The highest bit that is set.\<close>

lemma bits_to_nat_top:
  assumes "bits_to_nat bs \<noteq> 0"
  obtains k where "k < length bs" "bs ! k" "bits_to_nat bs < 2 ^ Suc k"
  using assms
proof (induction bs arbitrary: thesis rule: rev_induct)
  case (snoc b bs)
  show ?case
  proof (cases b)
    case True
    have "bits_to_nat (bs @ [b]) < 2 ^ Suc (length bs)"
      using bits_to_nat_less [of "bs @ [b]"] by simp
    then show ?thesis using snoc.prems(1) [of "length bs"] True by simp
  next
    case False
    then have eq: "bits_to_nat (bs @ [b]) = bits_to_nat bs" by (simp add: bits_to_nat_append)
    then obtain k where "k < length bs" "bs ! k" "bits_to_nat bs < 2 ^ Suc k"
      using snoc.IH snoc.prems(2) by metis
    then show ?thesis using snoc.prems(1) [of k] eq by (simp add: nth_append)
  qed
qed simp

text \<open>
  When a product of two numbers of \<open>n\<close> bits does not fit into \<open>n\<close> bits: bit \<open>n\<close> of the product is
  set, or two bits are set whose weights multiply to \<open>2 ^ n\<close> or more.
\<close>

lemma product_overflow:
  assumes "length as = n" "length bs = n"
  shows "2 ^ n \<le> bits_to_nat as * bits_to_nat bs \<longleftrightarrow>
      odd (bits_to_nat as * bits_to_nat bs mod 2 ^ Suc n div 2 ^ n)
    \<or> (\<exists>i < n. \<exists>k < n. n \<le> i + k \<and> as ! k \<and> bs ! i)"
    (is "?big \<longleftrightarrow> ?bit \<or> ?pair")
proof
  let ?a = "bits_to_nat as" and ?b = "bits_to_nat bs"
  assume big: ?big
  show "?bit \<or> ?pair"
  proof (rule disjCI)
    assume no_pair: "\<not> ?pair"
    have "?a * ?b \<noteq> 0" using big by (metis not_le zero_less_numeral zero_less_power)
    then have "?a \<noteq> 0" "?b \<noteq> 0" by auto
    then obtain k i where k: "k < n" "as ! k" "?a < 2 ^ Suc k" and i: "i < n" "bs ! i" "?b < 2 ^ Suc i"
      using bits_to_nat_top [of as] bits_to_nat_top [of bs] assms by metis
    then have "i + k < n" using no_pair by (meson not_le)
    have "?a * ?b < 2 ^ Suc k * 2 ^ Suc i" by (rule mult_strict_mono) (use k i in auto)
    also have "\<dots> = (2::nat) ^ (Suc k + Suc i)" by (rule power_add [symmetric])
    also have "\<dots> \<le> 2 ^ Suc n" using \<open>i + k < n\<close> by (intro power_increasing) auto
    finally have less: "?a * ?b < 2 ^ Suc n" .
    then have "?a * ?b div 2 ^ n = 1"
      using big by (intro div_nat_eqI) auto
    then show ?bit using less by simp
  qed
next
  let ?a = "bits_to_nat as" and ?b = "bits_to_nat bs"
  assume "?bit \<or> ?pair"
  then show ?big
  proof
    assume ?bit
    then have "?a * ?b mod 2 ^ Suc n div 2 ^ n \<noteq> 0" by (metis even_zero)
    then have "2 ^ n \<le> ?a * ?b mod 2 ^ Suc n" by (metis div_less not_le)
    also have "\<dots> \<le> ?a * ?b" by (rule mod_less_eq_dividend)
    finally show ?big .
  next
    assume ?pair
    then obtain i k where ik: "i < n" "k < n" "n \<le> i + k" "as ! k" "bs ! i" by blast
    have "(2::nat) ^ n \<le> 2 ^ (k + i)" using ik by (intro power_increasing) auto
    also have "\<dots> = 2 ^ k * 2 ^ i" by (rule power_add)
    also have "\<dots> \<le> ?a * ?b"
      by (rule mult_mono) (use ik assms bits_to_nat_nth_le in auto)
    finally show ?big .
  qed
qed

text \<open>The low half of the long multiplication of two numbers in base two.\<close>

lemma truncated_product:
  fixes f g :: "nat \<Rightarrow> nat"
  shows "(\<Sum>i<n. f i * 2 ^ i) * (\<Sum>j<n. g j * 2 ^ j) mod 2 ^ n
    = (\<Sum>c<n. 2 ^ c * (\<Sum>j\<le>c. f j * g (c - j))) mod 2 ^ n"
proof -
  let ?h = "\<lambda>(i, j). f i * g j * 2 ^ (i + j)"
  let ?low = "{(i, j). i + j < n}" and ?all = "{..<n} \<times> {..<n}"
  have fin: "finite ?all" and sub: "?low \<subseteq> ?all" by auto
  have "(\<Sum>i<n. f i * 2 ^ i) * (\<Sum>j<n. g j * 2 ^ j) = (\<Sum>i<n. \<Sum>j<n. f i * g j * 2 ^ (i + j))"
    by (subst sum_product) (intro sum.cong refl, simp add: power_add)
  also have "\<dots> = sum ?h ?all"
    by (rule sum.cartesian_product)
  also have "\<dots> = sum ?h (?all - ?low) + sum ?h ?low"
    by (rule sum.subset_diff [OF sub fin])
  finally have prod: "(\<Sum>i<n. f i * 2 ^ i) * (\<Sum>j<n. g j * 2 ^ j)
    = sum ?h (?all - ?low) + sum ?h ?low" .
  have "2 ^ n dvd sum ?h (?all - ?low)"
  proof (rule dvd_sum)
    fix p assume "p \<in> ?all - ?low"
    then obtain i j where "p = (i, j)" "n \<le> i + j" by (cases p) auto
    then show "2 ^ n dvd ?h p" by (simp add: le_imp_power_dvd)
  qed
  then obtain q where high: "sum ?h (?all - ?low) = 2 ^ n * q" by (rule dvdE)
  have "sum ?h ?low = (\<Sum>c<n. \<Sum>j\<le>c. f j * g (c - j) * 2 ^ (j + (c - j)))"
    by (rule sum.triangle_reindex)
  also have "\<dots> = (\<Sum>c<n. 2 ^ c * (\<Sum>j\<le>c. f j * g (c - j)))"
    by (intro sum.cong refl) (simp add: sum_distrib_left mult.commute)
  finally show ?thesis unfolding prod high by simp
qed

subsection \<open>Two's complement\<close>

definition bits_to_int :: "bool list \<Rightarrow> int" where
  "bits_to_int bs = int (bits_to_nat bs) - (if last bs then 2 ^ length bs else 0)"

end
