(* ===== verification/Ast.thy ===== *)
theory Ast
  imports Prelude
begin

text \<open>
  The expressions of \<open>src/code/infinite_case/lib/z3-master/src/ast/ast.h\<close> that the Boolean
  rewriter and the bit blaster build and take apart, with their sorts and their meaning.
  Nodes are hash-consed in the source, so that pointer equality is structural equality: the
  model's equality of terms. Each constructor is an application of the basic family
  (\<open>OP_TRUE\<close>, ..., \<open>OP_XOR\<close>), of the bit-vector family (\<open>OP_XOR3\<close>, \<open>OP_CARRY\<close>), of the model
  value family (\<open>MVal\<close>) or of an uninterpreted function (\<open>Fun\<close>, also the constants).
\<close>

subsection \<open>Sorts, expressions and the observers of the ast manager\<close>

datatype sort = BoolS | USort nat

datatype expr =
    TrueE | FalseE
  | Not expr | And "expr list" | Or "expr list"
  | Eq expr expr | Ite expr expr expr
  | Implies expr expr | Xor expr expr | Distinct "expr list"
  | Xor3 expr expr expr | Carry expr expr expr
  | MVal nat nat
  | Fun nat sort "expr list"

fun get_sort :: "expr \<Rightarrow> sort" where
  "get_sort (Ite c t e) = get_sort t"
| "get_sort (MVal k i) = USort k"
| "get_sort (Fun f s as) = s"
| "get_sort e = BoolS"

definition is_bool :: "expr \<Rightarrow> bool" where
  "is_bool e = (get_sort e = BoolS)"

fun is_not :: "expr \<Rightarrow> bool" where
  "is_not (Not a) = True" | "is_not e = False"

fun is_and :: "expr \<Rightarrow> bool" where
  "is_and (And as) = True" | "is_and e = False"

fun is_or :: "expr \<Rightarrow> bool" where
  "is_or (Or as) = True" | "is_or e = False"

fun is_eq :: "expr \<Rightarrow> bool" where
  "is_eq (Eq a b) = True" | "is_eq e = False"

fun is_ite :: "expr \<Rightarrow> bool" where
  "is_ite (Ite c t e) = True" | "is_ite e = False"

text \<open>The arguments of an application (\<open>to_app(e)->get_arg(i)\<close>).\<close>

fun get_args :: "expr \<Rightarrow> expr list" where
  "get_args (Not a) = [a]"
| "get_args (And as) = as"
| "get_args (Or as) = as"
| "get_args (Eq a b) = [a, b]"
| "get_args (Ite c t e) = [c, t, e]"
| "get_args (Implies a b) = [a, b]"
| "get_args (Xor a b) = [a, b]"
| "get_args (Distinct as) = as"
| "get_args (Xor3 a b c) = [a, b, c]"
| "get_args (Carry a b c) = [a, b, c]"
| "get_args (Fun f s as) = as"
| "get_args e = []"

text \<open>
  \<open>is_value\<close> dispatches to the plugin of the family: the basic plugin accepts true and false,
  the plugin of the model values every model value, and an uninterpreted function has no plugin.
\<close>

fun is_value :: "expr \<Rightarrow> bool" where
  "is_value TrueE = True"
| "is_value FalseE = True"
| "is_value (MVal k i) = True"
| "is_value e = False"

definition is_unique_value :: "expr \<Rightarrow> bool" where
  "is_unique_value e = is_value e"

definition are_equal :: "expr \<Rightarrow> expr \<Rightarrow> bool" where
  "are_equal a b = (a = b)"

text \<open>
  \<open>are_distinct\<close> asks the plugin of the first argument, which accepts values of its own family
  only: two different Boolean constants, or two different model values.
\<close>

fun are_distinct :: "expr \<Rightarrow> expr \<Rightarrow> bool" where
  "are_distinct (MVal k i) (MVal l j) = (MVal k i \<noteq> MVal l j)"
| "are_distinct TrueE FalseE = True"
| "are_distinct FalseE TrueE = True"
| "are_distinct a b = False"

definition is_complement_core :: "expr \<Rightarrow> expr \<Rightarrow> bool" where
  "is_complement_core n1 n2 = ((n1 = TrueE \<and> n2 = FalseE) \<or> n1 = Not n2)"

definition is_complement :: "expr \<Rightarrow> expr \<Rightarrow> bool" where
  "is_complement n1 n2 = (is_complement_core n1 n2 \<or> is_complement_core n2 n1)"

text \<open>
  What the rewriters ask of the manager and the model does not fix: the structural order, the
  function \<open>lt\<close> of \<open>ast_lt.cpp\<close> (it compares symbols and declaration parameters), and the node
  numbers \<open>get_id\<close>, which depend on the order in which nodes were created. Every theorem holds
  for every choice of them. The functor \<open>ast_lt\<close> of \<open>ast_lt.h\<close>, which the rewriters hand to
  \<open>std::sort\<close>, compares node numbers.
\<close>

record ast_manager =
  struct_lt :: "expr \<Rightarrow> expr \<Rightarrow> bool"
  get_id :: "expr \<Rightarrow> nat"

definition ast_lt :: "ast_manager \<Rightarrow> expr \<Rightarrow> expr \<Rightarrow> bool" where
  "ast_lt m n1 n2 = (get_id m n1 < get_id m n2)"

subsection \<open>Well-sorted expressions\<close>

fun sort_ok :: "expr \<Rightarrow> bool" where
  "sort_ok TrueE = True"
| "sort_ok FalseE = True"
| "sort_ok (Not a) = (sort_ok a \<and> is_bool a)"
| "sort_ok (And as) = (\<forall>a \<in> set as. sort_ok a \<and> is_bool a)"
| "sort_ok (Or as) = (\<forall>a \<in> set as. sort_ok a \<and> is_bool a)"
| "sort_ok (Eq a b) = (sort_ok a \<and> sort_ok b \<and> get_sort a = get_sort b)"
| "sort_ok (Ite c t e) =
     (sort_ok c \<and> is_bool c \<and> sort_ok t \<and> sort_ok e \<and> get_sort t = get_sort e)"
| "sort_ok (Implies a b) = (sort_ok a \<and> is_bool a \<and> sort_ok b \<and> is_bool b)"
| "sort_ok (Xor a b) = (sort_ok a \<and> is_bool a \<and> sort_ok b \<and> is_bool b)"
| "sort_ok (Distinct as) =
     ((\<forall>a \<in> set as. sort_ok a) \<and> (\<forall>a \<in> set as. get_sort a = get_sort (hd as)))"
| "sort_ok (Xor3 a b c) =
     (sort_ok a \<and> is_bool a \<and> sort_ok b \<and> is_bool b \<and> sort_ok c \<and> is_bool c)"
| "sort_ok (Carry a b c) =
     (sort_ok a \<and> is_bool a \<and> sort_ok b \<and> is_bool b \<and> sort_ok c \<and> is_bool c)"
| "sort_ok (MVal k i) = True"
| "sort_ok (Fun f s as) = (\<forall>a \<in> set as. sort_ok a)"

text \<open>A bit: a well-sorted Boolean expression.\<close>

definition is_bit :: "expr \<Rightarrow> bool" where
  "is_bit e = (sort_ok e \<and> is_bool e)"

subsection \<open>Meaning\<close>

text \<open>
  A value is a truth value or the element of a sort. An interpretation gives each function
  symbol its function; \<open>cast\<close> puts the result into the symbol's range.
\<close>

datatype val = VBool bool | VElem nat nat

type_synonym interp = "nat \<Rightarrow> val list \<Rightarrow> val"

fun cast :: "sort \<Rightarrow> val \<Rightarrow> val" where
  "cast BoolS (VBool b) = VBool b"
| "cast BoolS (VElem k i) = VBool False"
| "cast (USort k) (VBool b) = VElem k 0"
| "cast (USort k) (VElem l i) = VElem k i"

fun of_sort :: "sort \<Rightarrow> val \<Rightarrow> bool" where
  "of_sort BoolS (VBool b) = True"
| "of_sort (USort k) (VElem l i) = (k = l)"
| "of_sort s v = False"

fun eval :: "interp \<Rightarrow> expr \<Rightarrow> val" where
  "eval I TrueE = VBool True"
| "eval I FalseE = VBool False"
| "eval I (Not a) = VBool (eval I a \<noteq> VBool True)"
| "eval I (And as) = VBool (\<forall>a \<in> set as. eval I a = VBool True)"
| "eval I (Or as) = VBool (\<exists>a \<in> set as. eval I a = VBool True)"
| "eval I (Eq a b) = VBool (eval I a = eval I b)"
| "eval I (Ite c t e) = (if eval I c = VBool True then eval I t else eval I e)"
| "eval I (Implies a b) = VBool (eval I a = VBool True \<longrightarrow> eval I b = VBool True)"
| "eval I (Xor a b) = VBool ((eval I a = VBool True) \<noteq> (eval I b = VBool True))"
| "eval I (Distinct as) = VBool (distinct (map (eval I) as))"
| "eval I (Xor3 a b c) =
     VBool ((eval I a = VBool True) \<noteq> ((eval I b = VBool True) \<noteq> (eval I c = VBool True)))"
| "eval I (Carry a b c) =
     VBool ((eval I a = VBool True \<and> eval I b = VBool True)
          \<or> (eval I a = VBool True \<and> eval I c = VBool True)
          \<or> (eval I b = VBool True \<and> eval I c = VBool True))"
| "eval I (MVal k i) = VElem k i"
| "eval I (Fun f s as) = cast s (I f (map (eval I) as))"

text \<open>The truth value of a bit.\<close>

definition holds :: "interp \<Rightarrow> expr \<Rightarrow> bool" where
  "holds I e = (eval I e = VBool True)"

lemma of_sort_cast [simp]: "of_sort s (cast s v)"
  by (cases s; cases v) auto

lemma of_sort_BoolS [simp]: "of_sort BoolS v \<longleftrightarrow> (\<exists>b. v = VBool b)"
  by (cases v) auto

text \<open>Evaluation respects sorts.\<close>

lemma eval_of_sort: "sort_ok e \<Longrightarrow> of_sort (get_sort e) (eval I e)"
  by (induction I e rule: eval.induct) (auto simp: is_bool_def)

lemma eval_bool: "sort_ok e \<Longrightarrow> get_sort e = BoolS \<Longrightarrow> \<exists>b. eval I e = VBool b"
  using eval_of_sort [of e I] by simp

lemma eval_holds: "is_bit e \<Longrightarrow> eval I e = VBool (holds I e)"
  using eval_bool [of e I] by (auto simp: is_bit_def is_bool_def holds_def)

lemma holds_simps [simp]:
  "holds I TrueE" "\<not> holds I FalseE"
  "holds I (Not a) \<longleftrightarrow> \<not> holds I a"
  "holds I (And as) \<longleftrightarrow> (\<forall>a \<in> set as. holds I a)"
  "holds I (Or as) \<longleftrightarrow> (\<exists>a \<in> set as. holds I a)"
  "holds I (Ite c t e) \<longleftrightarrow> (if holds I c then holds I t else holds I e)"
  "holds I (Implies a b) \<longleftrightarrow> (holds I a \<longrightarrow> holds I b)"
  "holds I (Xor a b) \<longleftrightarrow> (holds I a \<noteq> holds I b)"
  "holds I (Xor3 a b c) \<longleftrightarrow> (holds I a \<noteq> (holds I b \<noteq> holds I c))"
  "holds I (Carry a b c) \<longleftrightarrow> (holds I a \<and> holds I b \<or> holds I a \<and> holds I c \<or> holds I b \<and> holds I c)"
  "holds I (Eq a b) \<longleftrightarrow> eval I a = eval I b"
  by (simp_all add: holds_def)

lemma is_bit_simps [simp]:
  "is_bit TrueE" "is_bit FalseE"
  "is_bit (Not a) \<longleftrightarrow> is_bit a"
  "is_bit (And as) \<longleftrightarrow> (\<forall>a \<in> set as. is_bit a)"
  "is_bit (Or as) \<longleftrightarrow> (\<forall>a \<in> set as. is_bit a)"
  "is_bit (Implies a b) \<longleftrightarrow> is_bit a \<and> is_bit b"
  "is_bit (Xor a b) \<longleftrightarrow> is_bit a \<and> is_bit b"
  "is_bit (Xor3 a b c) \<longleftrightarrow> is_bit a \<and> is_bit b \<and> is_bit c"
  "is_bit (Carry a b c) \<longleftrightarrow> is_bit a \<and> is_bit b \<and> is_bit c"
  by (auto simp: is_bit_def is_bool_def)

lemma is_bit_Ite [simp]: "is_bit (Ite c t e) \<longleftrightarrow> is_bit c \<and> is_bit t \<and> is_bit e"
  by (auto simp: is_bit_def is_bool_def)

lemma is_bit_Eq: "is_bit a \<Longrightarrow> is_bit b \<Longrightarrow> is_bit (Eq a b)"
  by (auto simp: is_bit_def is_bool_def)

lemma holds_Eq_bits: "is_bit a \<Longrightarrow> is_bit b \<Longrightarrow> holds I (Eq a b) \<longleftrightarrow> holds I a = holds I b"
  by (simp add: eval_holds)

subsection \<open>Refinement of expressions\<close>

text \<open>
  A rewrite step may replace \<open>e\<close> by \<open>e'\<close> when, for a well-sorted \<open>e\<close>, the result is
  well-sorted, of the same sort and of the same value under every interpretation.
\<close>

definition refines :: "expr \<Rightarrow> expr \<Rightarrow> bool" where
  "refines e e' \<longleftrightarrow>
     (sort_ok e \<longrightarrow> sort_ok e' \<and> get_sort e' = get_sort e \<and> (\<forall>I. eval I e' = eval I e))"

lemma refines_refl [simp, refines_rules]: "refines e e"
  by (simp add: refines_def)

lemma refines_trans [trans]: "refines a b \<Longrightarrow> refines b c \<Longrightarrow> refines a c"
  by (simp add: refines_def)

lemma refines_bit: "refines e e' \<Longrightarrow> is_bit e \<Longrightarrow> is_bit e'"
  by (auto simp: refines_def is_bit_def is_bool_def)

lemma refines_holds: "refines e e' \<Longrightarrow> is_bit e \<Longrightarrow> holds I e' = holds I e"
  by (auto simp: refines_def is_bit_def is_bool_def holds_def)

lemma refines_sort_ok: "refines e e' \<Longrightarrow> sort_ok e \<Longrightarrow> sort_ok e'"
  by (simp add: refines_def)

lemma refines_bitI:
  assumes "is_bit e \<Longrightarrow> is_bit e' \<and> (\<forall>I. holds I e' = holds I e)" and "get_sort e = BoolS"
  shows "refines e e'"
  using assms eval_holds unfolding refines_def is_bit_def is_bool_def by auto

lemma refines_Not: "refines a a' \<Longrightarrow> refines (Not a) (Not a')"
  by (auto simp: refines_def is_bool_def)

lemma refines_Eq: "refines a a' \<Longrightarrow> refines b b' \<Longrightarrow> refines (Eq a b) (Eq a' b')"
  by (auto simp: refines_def)

lemma refines_Ite:
  "refines c c' \<Longrightarrow> refines t t' \<Longrightarrow> refines e e' \<Longrightarrow> refines (Ite c t e) (Ite c' t' e')"
  by (auto simp: refines_def is_bool_def)

lemma refines_list:
  assumes "list_all2 refines as bs" and "\<forall>a \<in> set as. is_bit a"
  shows "\<forall>b \<in> set bs. is_bit b"
    and "(\<exists>b \<in> set bs. holds I b) \<longleftrightarrow> (\<exists>a \<in> set as. holds I a)"
    and "(\<forall>b \<in> set bs. holds I b) \<longleftrightarrow> (\<forall>a \<in> set as. holds I a)"
  using assms
  by (induction rule: list_all2_induct) (auto intro: refines_bit simp: refines_holds)

lemma refines_Or: "list_all2 refines as bs \<Longrightarrow> refines (Or as) (Or bs)"
  by (rule refines_bitI) (use refines_list(1,2) [of as bs] in auto)

lemma refines_And: "list_all2 refines as bs \<Longrightarrow> refines (And as) (And bs)"
  by (rule refines_bitI) (use refines_list(1,3) [of as bs] in auto)

subsection \<open>Inputs of the witnesses\<close>

text \<open>An order and a numbering, an interpretation and three Boolean constants.\<close>

definition m0 :: ast_manager where
  "m0 = \<lparr>struct_lt = (\<lambda>a b. False), get_id = size\<rparr>"

definition I0 :: interp where
  "I0 = (\<lambda>f vs. VBool (even f))"

abbreviation v0 :: expr where "v0 \<equiv> Fun 2 BoolS []"
abbreviation v1 :: expr where "v1 \<equiv> Fun 3 BoolS []"
abbreviation v2 :: expr where "v2 \<equiv> Fun 4 BoolS []"

lemma var_bits [simp]: "is_bit v0" "is_bit v1" "is_bit v2"
  by (simp_all add: is_bit_def is_bool_def)

lemma var_holds [simp]: "holds I0 v0" "\<not> holds I0 v1" "holds I0 v2"
  by (simp_all add: holds_def I0_def)

end
