(* ===== verification/Bool_Eq.thy ===== *)
theory Bool_Eq
  imports Ast
begin

text \<open>
  The first part of \<open>ast/rewriter/bool_rewriter.{h,cpp}\<close>: the rewriter's state, negation,
  equality (iff), exclusive or and \<open>try_ite_value\<close>. \<open>mk_not\<close> and \<open>mk_eq\<close> call each other; both
  stop because neither increases the weight of a term, which is also the measure of the local
  context simplifier. None of the operations of this theory writes the state.
\<close>

subsection \<open>State and results\<close>

record bool_rewriter =
  m_flat_and_or :: bool
  m_local_ctx :: bool
  m_elim_and :: bool
  m_blast_distinct :: bool
  m_blast_distinct_threshold :: u32
  m_ite_extra_rules :: bool
  m_local_ctx_limit :: u32
  m_local_ctx_cost :: u32
  m_elim_ite :: bool

datatype br_status = BR_REWRITE1 | BR_REWRITE2 | BR_REWRITE3 | BR_REWRITE_FULL | BR_DONE

text \<open>
  The core methods store the result and return how far it must be rewritten again; \<open>None\<close> is
  \<open>BR_FAILED\<close>, where the result is not set.
\<close>

type_synonym br_result = "(br_status \<times> expr) option"

text \<open>The parameters of \<open>bool_rewriter_params.pyg\<close> when no option is set.\<close>

definition default_bool_rewriter :: bool_rewriter where
  "default_bool_rewriter =
     \<lparr>m_flat_and_or = True, m_local_ctx = False, m_elim_and = False, m_blast_distinct = False,
      m_blast_distinct_threshold = 0xFFFFFFFF, m_ite_extra_rules = False,
      m_local_ctx_limit = 0xFFFFFFFF, m_local_ctx_cost = 0, m_elim_ite = True\<rparr>"

definition or_else :: "br_result \<Rightarrow> expr \<Rightarrow> expr" where
  "or_else r e = (case r of None \<Rightarrow> e | Some (s, e') \<Rightarrow> e')"

lemma or_else_simps [simp]:
  "or_else None e = e" "or_else (Some (s, e')) e = e'"
  by (simp_all add: or_else_def)

subsection \<open>The weight of a term\<close>

text \<open>
  Negations are free, an equality costs one and a conditional three, so that exchanging a
  conditional for connectives, and removing an argument, makes a term lighter.
\<close>

fun weight :: "expr \<Rightarrow> nat" where
  "weight (Not a) = weight a"
| "weight (And as) = Suc (sum_list (map weight as))"
| "weight (Or as) = Suc (sum_list (map weight as))"
| "weight (Eq a b) = Suc (weight a + weight b)"
| "weight (Ite c t e) = 3 + weight c + weight t + weight e"
| "weight (Implies a b) = Suc (weight a + weight b)"
| "weight (Xor a b) = Suc (weight a + weight b)"
| "weight (Distinct as) = Suc (sum_list (map weight as))"
| "weight (Xor3 a b c) = Suc (weight a + weight b + weight c)"
| "weight (Carry a b c) = Suc (weight a + weight b + weight c)"
| "weight (Fun f s as) = Suc (sum_list (map weight as))"
| "weight e = 1"

lemma weight_pos [simp]: "0 < weight e"
  by (induction e) auto

lemma weight_value: "is_value e \<Longrightarrow> weight e = 1"
  by (cases e) auto

subsection \<open>\<open>try_ite_value\<close>\<close>

text \<open>The guard of its two recursive calls: a conditional of two values.\<close>

fun ite_of_values :: "expr \<Rightarrow> bool" where
  "ite_of_values (Ite cond2 t2 e2) = (is_value t2 \<and> is_value e2)"
| "ite_of_values e = False"

fun try_ite_value :: "expr \<Rightarrow> expr \<Rightarrow> br_result" where
  "try_ite_value (Ite cond t e) val =
     (if are_distinct val e then Some (BR_REWRITE2, And [Eq t val, cond])
      else if are_distinct val t then Some (BR_REWRITE2, And [Eq e val, Not cond])
      else if are_equal val t then
        (if are_equal val e then Some (BR_DONE, TrueE)
         else Some (BR_REWRITE2, Or [Eq e val, cond]))
      else if are_equal val e then Some (BR_REWRITE2, Or [Eq t val, Not cond])
      else
        (case (if ite_of_values t then try_ite_value t val else None) of
           Some (s, r) \<Rightarrow> Some (BR_REWRITE2, Ite cond r (Eq e val))
         | None \<Rightarrow>
             (case (if ite_of_values e then try_ite_value e val else None) of
                Some (s, r) \<Rightarrow> Some (BR_REWRITE2, Ite cond (Eq t val) r)
              | None \<Rightarrow> None)))"
| "try_ite_value e val = None"

lemma are_distinct_value: "are_distinct a b \<Longrightarrow> is_value a \<and> is_value b"
  by (cases "(a, b)" rule: are_distinct.cases) auto

text \<open>What a result of \<open>try_ite_value\<close> can be, with the tests that lead to it.\<close>

lemma try_ite_value_elim:
  assumes "try_ite_value (Ite c t e) v = Some (s, r)"
  obtains
    (distinct_else) "are_distinct v e" "r = And [Eq t v, c]"
  | (distinct_then) "are_distinct v t" "r = And [Eq e v, Not c]"
  | (both) "t = v" "e = v" "r = TrueE"
  | (equal_then) "t = v" "r = Or [Eq e v, c]"
  | (equal_else) "e = v" "r = Or [Eq t v, Not c]"
  | (nested_then) s' r' where
      "ite_of_values t" "try_ite_value t v = Some (s', r')" "r = Ite c r' (Eq e v)"
  | (nested_else) s' r' where
      "ite_of_values e" "try_ite_value e v = Some (s', r')" "r = Ite c (Eq t v) r'"
  using assms
  by (simp add: are_equal_def split: if_splits option.splits prod.splits)

declare try_ite_value.simps(1) [simp del]

lemma try_ite_value_leaf_weight:
  assumes "is_value v" "ite_of_values t" "try_ite_value t v = Some (s, r)"
  shows "weight r < weight t"
proof (cases t)
  case (Ite c2 t2 e2)
  then have "weight t2 = 1" "weight e2 = 1" "weight v = 1" "\<not> ite_of_values t2" "\<not> ite_of_values e2"
    using assms(1,2) by (auto simp: weight_value elim: is_value.elims)
  then show ?thesis
    using assms(3) unfolding Ite by (elim try_ite_value_elim) auto
qed (use assms in auto)

lemma try_ite_value_weight:
  assumes "is_value v" "try_ite_value ite v = Some (s, r)"
  shows "weight r \<le> Suc (weight ite)"
proof (cases ite)
  case (Ite c t e)
  show ?thesis
    using assms(2) unfolding Ite
    by (elim try_ite_value_elim)
      (use weight_value [OF assms(1)] weight_pos [of e] weight_pos [of t] in
        \<open>auto dest!: try_ite_value_leaf_weight [OF assms(1)]\<close>)
qed (use assms in auto)

subsection \<open>\<open>mk_not\<close> and \<open>mk_eq\<close>\<close>

text \<open>
  \<open>mk_eq_core\<close> in three parts: the tests for equal and for distinct arguments with the extra
  rules for conditionals, then for Boolean arguments the removal of a negation on both sides,
  and the rules that come after the ones for constants and complements.
\<close>

definition mk_eq_values :: "bool_rewriter \<Rightarrow> expr \<Rightarrow> expr \<Rightarrow> br_result" where
  "mk_eq_values rw lhs rhs =
     (if are_equal lhs rhs then Some (BR_DONE, TrueE)
      else if are_distinct lhs rhs then Some (BR_DONE, FalseE)
      else if m_ite_extra_rules rw then
        (if is_ite lhs \<and> is_value rhs then try_ite_value lhs rhs
         else if is_ite rhs \<and> is_value lhs then try_ite_value rhs lhs
         else None)
      else None)"

fun strip_nots :: "expr \<Rightarrow> expr \<Rightarrow> bool \<times> expr \<times> expr" where
  "strip_nots (Not a) (Not b) = (True, a, b)"
| "strip_nots lhs rhs = (False, lhs, rhs)"

definition eq_complement_args :: "expr \<Rightarrow> expr \<Rightarrow> bool" where
  "eq_complement_args lhs rhs =
     (case (lhs, rhs) of
        (Eq la lb, Eq ra rb) \<Rightarrow>
          (la = ra \<and> (rb = Not lb \<or> lb = Not rb)) \<or> (lb = rb \<and> (ra = Not la \<or> la = Not ra))
      | _ \<Rightarrow> False)"

definition mk_eq_nots :: "bool \<Rightarrow> expr \<Rightarrow> expr \<Rightarrow> br_result" where
  "mk_eq_nots unfolded lhs rhs =
     (let (lhs, rhs) = (if is_not rhs then (rhs, lhs) else (lhs, rhs))
      in if is_not lhs then Some (BR_REWRITE2, Not (Eq (hd (get_args lhs)) rhs))
         else if unfolded then Some (BR_REWRITE1, Eq lhs rhs)
         else if eq_complement_args lhs rhs then Some (BR_DONE, FalseE)
         else None)"

text \<open>
  The four methods as the source has them, with its order of tests. \<open>BR_FAILED\<close> makes \<open>mk_not\<close>
  and \<open>mk_eq\<close> build the plain application.
\<close>

function mk_not_core :: "bool_rewriter \<Rightarrow> expr \<Rightarrow> br_result"
  and mk_not :: "bool_rewriter \<Rightarrow> expr \<Rightarrow> expr"
  and mk_eq_core :: "bool_rewriter \<Rightarrow> expr \<Rightarrow> expr \<Rightarrow> br_result"
  and mk_eq :: "bool_rewriter \<Rightarrow> expr \<Rightarrow> expr \<Rightarrow> expr" where
  "mk_not_core rw t =
     (case t of
        Not a \<Rightarrow> Some (BR_DONE, a)
      | TrueE \<Rightarrow> Some (BR_DONE, FalseE)
      | FalseE \<Rightarrow> Some (BR_DONE, TrueE)
      | Eq a b \<Rightarrow>
          if is_bool a then let tmp = mk_not rw a in Some (BR_DONE, mk_eq rw tmp b) else None
      | _ \<Rightarrow> None)"
| "mk_not rw t = or_else (mk_not_core rw t) (Not t)"
| "mk_eq_core rw lhs rhs =
     (case mk_eq_values rw lhs rhs of
        Some r \<Rightarrow> Some r
      | None \<Rightarrow>
          if is_bool lhs then
            (case strip_nots lhs rhs of (unfolded, l, r) \<Rightarrow>
               if l = TrueE then Some (BR_DONE, r)
               else if l = FalseE then Some (BR_DONE, mk_not rw r)
               else if r = TrueE then Some (BR_DONE, l)
               else if r = FalseE then Some (BR_DONE, mk_not rw l)
               else if is_complement l r then Some (BR_DONE, FalseE)
               else mk_eq_nots unfolded l r)
          else None)"
| "mk_eq rw lhs rhs = or_else (mk_eq_core rw lhs rhs) (Eq lhs rhs)"
  by pat_completeness auto

lemma strip_nots_weight: "strip_nots a b = (u, l, r) \<Longrightarrow> weight l = weight a \<and> weight r = weight b"
  by (cases "(a, b)" rule: strip_nots.cases) auto

lemma mk_eq_values_weight:
  "mk_eq_values rw a b = Some (s, e) \<Longrightarrow> weight e \<le> Suc (weight a + weight b)"
  using weight_pos [of a] weight_pos [of b]
  by (auto simp: mk_eq_values_def dest!: try_ite_value_weight split: if_splits)

lemma is_not_weight: "is_not e \<Longrightarrow> weight (hd (get_args e)) = weight e"
  by (cases e) auto

lemma mk_eq_nots_weight:
  "mk_eq_nots u a b = Some (s, e) \<Longrightarrow> weight e \<le> Suc (weight a + weight b)"
  by (auto simp: mk_eq_nots_def is_not_weight split: if_splits)

text \<open>
  Neither method increases the weight: proved for terminating calls first, because the nested
  call \<open>mk_eq (mk_not a) b\<close> of \<open>mk_not_core\<close> needs it to terminate.
\<close>

abbreviation not_eq_dom where
  "not_eq_dom \<equiv> mk_not_core_mk_not_mk_eq_core_mk_eq_dom"

lemma weight_dom:
  "not_eq_dom (Inl (Inl (rw1, t1))) \<Longrightarrow>
      (\<forall>s e. mk_not_core rw1 t1 = Some (s, e) \<longrightarrow> weight e \<le> weight t1)"
  "not_eq_dom (Inl (Inr (rw2, t2))) \<Longrightarrow> weight (mk_not rw2 t2) \<le> weight t2"
  "not_eq_dom (Inr (Inl (rw3, l3, r3))) \<Longrightarrow>
      (\<forall>s e. mk_eq_core rw3 l3 r3 = Some (s, e) \<longrightarrow> weight e \<le> Suc (weight l3 + weight r3))"
  "not_eq_dom (Inr (Inr (rw4, l4, r4))) \<Longrightarrow>
      weight (mk_eq rw4 l4 r4) \<le> Suc (weight l4 + weight r4)"
proof (induction rule: mk_not_core_mk_not_mk_eq_core_mk_eq.pinduct)
  case (1 rw t)
  show ?case
  proof (cases "\<exists>a b. t = Eq a b \<and> is_bool a")
    case True
    then obtain a b where t: "t = Eq a b" "is_bool a" by blast
    have "weight (mk_eq rw (mk_not rw a) b) \<le> Suc (weight (mk_not rw a) + weight b)"
      using 1(3) [OF t refl] .
    also have "\<dots> \<le> weight t" using 1(2) [OF t] t by simp
    finally show ?thesis unfolding mk_not_core.psimps [OF 1(1)] using t by simp
  next
    case False
    then show ?thesis unfolding mk_not_core.psimps [OF 1(1)] by (cases t) auto
  qed
next
  case (2 rw t)
  then show ?case
    by (auto simp: mk_not.psimps or_else_def split: option.splits)
next
  case (3 rw lhs rhs)
  obtain u l r where lr: "strip_nots lhs rhs = (u, l, r)" by (metis prod_cases3)
  then have w: "weight l = weight lhs" "weight r = weight rhs" by (simp_all add: strip_nots_weight)
  let ?P = "mk_eq_values rw lhs rhs = None \<and> is_bool lhs"
  have l: "weight (mk_not rw r) \<le> Suc (weight lhs + weight rhs)" if "?P" "l = FalseE"
    using 3(2) [OF _ _ lr [symmetric] refl] that w by simp
  have r: "weight (mk_not rw l) \<le> Suc (weight lhs + weight rhs)"
    if "?P" "l \<noteq> TrueE" "l \<noteq> FalseE" "r \<noteq> TrueE" "r = FalseE"
    using 3(3) [OF _ _ lr [symmetric] refl] that w by simp
  show ?case
    unfolding mk_eq_core.psimps [OF 3(1)] using lr l r w
    by (auto split: option.splits if_splits dest!: mk_eq_values_weight mk_eq_nots_weight)
next
  case (4 rw lhs rhs)
  then show ?case
    by (auto simp: mk_eq.psimps or_else_def split: option.splits)
qed

lemma not_eq_total: "All not_eq_dom"
  by (relation "measure (\<lambda>x. case x of
      Inl (Inl (rw, t)) \<Rightarrow> 4 * weight t
    | Inl (Inr (rw, t)) \<Rightarrow> 4 * weight t + 1
    | Inr (Inl (rw, l, r)) \<Rightarrow> 4 * (weight l + weight r) + 2
    | Inr (Inr (rw, l, r)) \<Rightarrow> 4 * (weight l + weight r) + 3)")
   (auto simp: less_Suc_eq_le dest: weight_dom(2) dest!: sym [THEN strip_nots_weight])

termination mk_not_core
  by (rule not_eq_total)

declare mk_not_core.simps [simp del] mk_not.simps [simp del]
  mk_eq_core.simps [simp del] mk_eq.simps [simp del]

lemma weight_mk_not: "weight (mk_not rw t) \<le> weight t"
  by (rule weight_dom) (rule not_eq_total [rule_format])

lemma weight_mk_eq: "weight (mk_eq rw l r) \<le> Suc (weight l + weight r)"
  by (rule weight_dom) (rule not_eq_total [rule_format])

subsection \<open>Meaning\<close>

lemma are_distinct_eval:
  "are_distinct a b \<Longrightarrow> eval I a \<noteq> eval I b" "are_distinct a b \<Longrightarrow> eval I b \<noteq> eval I a"
  by (cases "(a, b)" rule: are_distinct.cases; auto)+

lemma refines_Eq_commute: "refines (Eq a b) (Eq b a)"
  by (auto simp: refines_def)

lemma try_ite_value_refines:
  "is_value v \<Longrightarrow> try_ite_value ite v = Some (s, r) \<Longrightarrow> refines (Eq ite v) r"
proof (induction ite arbitrary: s r)
  case (Ite c t e)
  from Ite.prems(2) show ?case
  proof (cases rule: try_ite_value_elim)
    case (nested_then s' r')
    then have "refines (Eq t v) r'" using Ite.IH(2) Ite.prems(1) by blast
    then show ?thesis using nested_then by (auto simp: refines_def is_bool_def)
  next
    case (nested_else s' r')
    then have "refines (Eq e v) r'" using Ite.IH(3) Ite.prems(1) by blast
    then show ?thesis using nested_else by (auto simp: refines_def is_bool_def)
  qed (auto simp: refines_def is_bool_def are_distinct_eval)
qed auto

lemma mk_eq_values_refines:
  assumes "mk_eq_values rw a b = Some (s, e)"
  shows "refines (Eq a b) e"
proof -
  have "refines (Eq a b) (Eq b a)" by (rule refines_Eq_commute)
  then show ?thesis
    using assms
    by (auto simp: mk_eq_values_def are_equal_def refines_def is_bool_def are_distinct_eval
        split: if_splits dest!: try_ite_value_refines)
qed

text \<open>Equations between bits: what remains to show for a rewriting of \<open>Eq a b\<close>.\<close>

lemma refines_Eq_bitsI:
  assumes "is_bit a \<Longrightarrow> is_bit b \<Longrightarrow> is_bit e \<and> (\<forall>I. holds I e = (holds I a = holds I b))"
    and "is_bool a"
  shows "refines (Eq a b) e"
proof (rule refines_bitI)
  assume "is_bit (Eq a b)"
  then have "is_bit a" "is_bit b" using assms(2) by (auto simp: is_bit_def is_bool_def)
  then show "is_bit e \<and> (\<forall>I. holds I e = holds I (Eq a b))"
    using assms(1) by (simp add: eval_holds)
qed simp

lemma strip_nots_bits:
  assumes "strip_nots a b = (u, l, r)" "is_bit a" "is_bit b"
  shows "is_bit l" "is_bit r" "(holds I l = holds I r) = (holds I a = holds I b)"
  using assms by (cases "(a, b)" rule: strip_nots.cases; auto)+

lemma is_complement_holds: "is_complement a b \<Longrightarrow> holds I a \<noteq> holds I b"
  by (auto simp: is_complement_def is_complement_core_def)

lemma eq_complement_args_holds:
  assumes "eq_complement_args a b" "is_bit a" "is_bit b"
  shows "holds I a \<noteq> holds I b"
proof -
  obtain la lb ra rb where ab: "a = Eq la lb" "b = Eq ra rb"
    using assms(1) by (auto simp: eq_complement_args_def split: expr.splits)
  with assms have "is_bit la" "is_bit lb" "is_bit ra" "is_bit rb"
    by (auto simp: eq_complement_args_def is_bit_def is_bool_def)
  then show ?thesis
    using assms(1) ab by (auto simp: eq_complement_args_def eval_holds)
qed

lemma mk_eq_nots_elim:
  assumes "mk_eq_nots u a b = Some (s, e)"
  obtains c where "b = Not c" "e = Not (Eq c a)"
  | c where "a = Not c" "e = Not (Eq c b)"
  | "e = Eq a b"
  | "eq_complement_args a b" "e = FalseE"
  using assms by (cases b; cases a) (auto simp: mk_eq_nots_def split: if_splits)

lemma mk_eq_nots_bits:
  assumes "mk_eq_nots u a b = Some (s, e)" "is_bit a" "is_bit b"
  shows "is_bit e" "holds I e = (holds I a = holds I b)"
  using assms(1)
  by (cases rule: mk_eq_nots_elim;
      use assms(2,3) in \<open>auto simp: is_bit_Eq eval_holds dest: eq_complement_args_holds [of a b I]\<close>)+

lemma refines_Not_Eq: "is_bool a \<Longrightarrow> refines (Not (Eq a b)) (Eq (Not a) b)"
proof (rule refines_bitI)
  assume "is_bool a" "is_bit (Not (Eq a b))"
  then have "is_bit a" "is_bit b" by (auto simp: is_bit_def is_bool_def)
  then show "is_bit (Eq (Not a) b) \<and> (\<forall>I. holds I (Eq (Not a) b) = holds I (Not (Eq a b)))"
    by (auto simp: is_bit_Eq holds_Eq_bits simp del: holds_simps(11))
qed simp

text \<open>The negation of a term and the equation of two terms keep sort and value.\<close>

lemma not_eq_refines:
  "\<forall>s e. mk_not_core rw1 t1 = Some (s, e) \<longrightarrow> refines (Not t1) e"
  "refines (Not t2) (mk_not rw2 t2)"
  "\<forall>s e. mk_eq_core rw3 l3 r3 = Some (s, e) \<longrightarrow> refines (Eq l3 r3) e"
  "refines (Eq l4 r4) (mk_eq rw4 l4 r4)"
proof (induction rw1 t1 and rw2 t2 and rw3 l3 r3 and rw4 l4 r4
    rule: mk_not_core_mk_not_mk_eq_core_mk_eq.induct)
  case (1 rw t)
  show ?case
  proof (cases "\<exists>a b. t = Eq a b \<and> is_bool a")
    case True
    then obtain a b where t: "t = Eq a b" "is_bool a" by blast
    have "refines (Not t) (Eq (Not a) b)"
      unfolding t(1) by (rule refines_Not_Eq [OF t(2)])
    also have "refines \<dots> (Eq (mk_not rw a) b)"
      by (intro refines_Eq refines_refl 1(1) [OF t])
    also have "refines \<dots> (mk_eq rw (mk_not rw a) b)"
      using 1(2) [OF t refl] .
    finally show ?thesis unfolding mk_not_core.simps [of rw t] using t by simp
  next
    case False
    then show ?thesis
      unfolding mk_not_core.simps [of rw t]
      by (cases t) (auto intro!: refines_bitI)
  qed
next
  case (2 rw t)
  then show ?case
    by (auto simp: mk_not.simps or_else_def split: option.splits)
next
  case (3 rw lhs rhs)
  obtain u l r where lr: "strip_nots lhs rhs = (u, l, r)" by (metis prod_cases3)
  let ?P = "mk_eq_values rw lhs rhs = None \<and> is_bool lhs"
  have l: "refines (Not r) (mk_not rw r)" if "?P" "l = FalseE"
    using 3(1) [OF _ _ lr [symmetric] refl] that by simp
  have r: "refines (Not l) (mk_not rw l)"
    if "?P" "l \<noteq> TrueE" "l \<noteq> FalseE" "r \<noteq> TrueE" "r = FalseE"
    using 3(2) [OF _ _ lr [symmetric] refl] that by simp
  have "refines (Eq lhs rhs) e" if "?P" "mk_eq_core rw lhs rhs = Some (s, e)" for s e
  proof (rule refines_Eq_bitsI)
    assume bits: "is_bit lhs" "is_bit rhs"
    have lrb: "is_bit l" "is_bit r" "\<And>I. (holds I lhs = holds I rhs) = (holds I l = holds I r)"
      using strip_nots_bits [OF lr bits] by auto
    have nl: "is_bit (mk_not rw r) \<and> holds I (mk_not rw r) = (\<not> holds I r)" if "l = FalseE" for I
      using l [OF \<open>?P\<close> that] lrb(2) refines_bit refines_holds is_bit_simps(3) holds_simps(3) by metis
    have nr: "is_bit (mk_not rw l) \<and> holds I (mk_not rw l) = (\<not> holds I l)"
      if "l \<noteq> TrueE" "l \<noteq> FalseE" "r \<noteq> TrueE" "r = FalseE" for I
      using r [OF \<open>?P\<close> that] lrb(1) refines_bit refines_holds is_bit_simps(3) holds_simps(3) by metis
    show "is_bit e \<and> (\<forall>I. holds I e = (holds I lhs = holds I rhs))"
      using that lrb nl nr unfolding mk_eq_core.simps [of rw lhs rhs] lr
      by (auto split: if_splits dest: is_complement_holds mk_eq_nots_bits)
  qed (use that in blast)
  then show ?case
    unfolding mk_eq_core.simps [of rw lhs rhs]
    by (auto split: option.splits dest: mk_eq_values_refines)
next
  case (4 rw lhs rhs)
  then show ?case
    by (auto simp: mk_eq.simps or_else_def split: option.splits)
qed

lemmas mk_not_refines [refines_rules] = not_eq_refines(2)
lemmas mk_eq_refines [refines_rules] = not_eq_refines(4)
lemmas mk_not_core_refines = not_eq_refines(1) [rule_format]
lemmas mk_eq_core_refines = not_eq_refines(3) [rule_format]

lemma mk_not_bit [simp]: "is_bit a \<Longrightarrow> is_bit (mk_not rw a)"
  using refines_bit [OF mk_not_refines] by simp

lemma mk_not_holds [simp]: "is_bit a \<Longrightarrow> holds I (mk_not rw a) \<longleftrightarrow> \<not> holds I a"
  using refines_holds [OF mk_not_refines] by simp

lemma mk_eq_bit [simp]: "is_bit a \<Longrightarrow> is_bit b \<Longrightarrow> is_bit (mk_eq rw a b)"
  using refines_bit [OF mk_eq_refines] by (simp add: is_bit_Eq)

lemma mk_eq_holds [simp]:
  "is_bit a \<Longrightarrow> is_bit b \<Longrightarrow> holds I (mk_eq rw a b) \<longleftrightarrow> holds I a = holds I b"
  using refines_holds [OF mk_eq_refines, of a b I rw] by (simp add: is_bit_Eq eval_holds)

subsection \<open>\<open>mk_xor\<close> and \<open>mk_iff\<close>\<close>

definition mk_xor :: "bool_rewriter \<Rightarrow> expr \<Rightarrow> expr \<Rightarrow> expr" where
  "mk_xor rw lhs rhs = (let tmp = mk_not rw lhs in mk_eq rw tmp rhs)"

definition mk_iff :: "bool_rewriter \<Rightarrow> expr \<Rightarrow> expr \<Rightarrow> expr" where
  "mk_iff rw lhs rhs = mk_eq rw lhs rhs"

lemma mk_xor_bit [simp]: "is_bit a \<Longrightarrow> is_bit b \<Longrightarrow> is_bit (mk_xor rw a b)"
  by (simp add: mk_xor_def)

lemma mk_xor_holds [simp]:
  "is_bit a \<Longrightarrow> is_bit b \<Longrightarrow> holds I (mk_xor rw a b) \<longleftrightarrow> holds I a \<noteq> holds I b"
  by (auto simp: mk_xor_def)

lemma mk_xor_refines [refines_rules]: "refines (Xor a b) (mk_xor rw a b)"
  by (rule refines_bitI) auto

lemma mk_iff_bit [simp]: "is_bit a \<Longrightarrow> is_bit b \<Longrightarrow> is_bit (mk_iff rw a b)"
  by (simp add: mk_iff_def)

lemma mk_iff_holds [simp]:
  "is_bit a \<Longrightarrow> is_bit b \<Longrightarrow> holds I (mk_iff rw a b) \<longleftrightarrow> holds I a = holds I b"
  by (simp add: mk_iff_def)

end
