(* ===== verification/Bool_Local_Ctx.thy ===== *)
theory Bool_Local_Ctx
  imports Bool_Eq
begin

text \<open>
  The local context simplifier of \<open>ast/rewriter/bool_rewriter.cpp\<close>, which \<open>mk_or\<close> runs when
  \<open>m_local_ctx\<close> is set: in a disjunction every argument may be simplified under the assumption
  that the other arguments are false. The marks \<open>expr_fast_mark1\<close>, \<open>expr_fast_mark2\<close> are sets of
  expressions; \<open>m_local_ctx_cost\<close> is an unsigned counter and wraps around.
\<close>

subsection \<open>Disjunctions and the cost counter\<close>

definition mk_or_app :: "expr list \<Rightarrow> expr" where
  "mk_or_app args = (case args of [] \<Rightarrow> FalseE | [a] \<Rightarrow> a | _ \<Rightarrow> Or args)"

definition add_cost :: "nat \<Rightarrow> bool_rewriter \<Rightarrow> bool_rewriter" where
  "add_cost n rw = rw\<lparr>m_local_ctx_cost := m_local_ctx_cost rw + of_nat n\<rparr>"

subsection \<open>Simplifying one argument\<close>

text \<open>
  The loop of \<open>simp_nested_not_or\<close>: \<open>Inl\<close> is its early return with the constant false, \<open>Inr\<close>
  the flag \<open>simp\<close> and the arguments that stay.
\<close>

fun nested_not_or_loop ::
    "expr set \<Rightarrow> expr set \<Rightarrow> bool \<Rightarrow> expr list \<Rightarrow> expr list \<Rightarrow> expr + bool \<times> expr list" where
  "nested_not_or_loop neg_lits pos_lits simp new_args [] = Inr (simp, new_args)"
| "nested_not_or_loop neg_lits pos_lits simp new_args (arg # args) =
     (if arg \<in> neg_lits then Inl FalseE
      else if arg \<in> pos_lits then nested_not_or_loop neg_lits pos_lits True new_args args
      else if is_not arg \<and> hd (get_args arg) \<in> neg_lits then
        nested_not_or_loop neg_lits pos_lits True new_args args
      else if is_not arg \<and> hd (get_args arg) \<in> pos_lits then Inl FalseE
      else nested_not_or_loop neg_lits pos_lits simp (new_args @ [arg]) args)"

definition simp_nested_not_or ::
    "bool_rewriter \<Rightarrow> expr list \<Rightarrow> expr set \<Rightarrow> expr set \<Rightarrow> expr option \<times> bool_rewriter" where
  "simp_nested_not_or rw args neg_lits pos_lits =
     (let rw = add_cost (length args) rw
      in case nested_not_or_loop neg_lits pos_lits False [] args of
           Inl result \<Rightarrow> (Some result, rw)
         | Inr (simp, new_args) \<Rightarrow>
             (if simp then
                (case new_args of
                   [] \<Rightarrow> (Some TrueE, rw)
                 | [a] \<Rightarrow> (Some (mk_not rw a), rw)
                 | _ \<Rightarrow> (Some (Not (Or new_args)), rw))
              else (None, rw)))"

definition simp_arg ::
    "expr \<Rightarrow> expr set \<Rightarrow> expr set \<Rightarrow> bool \<Rightarrow> expr \<times> bool" where
  "simp_arg arg neg_lits pos_lits modified =
     (if is_not arg then
        (let atom = hd (get_args arg)
         in if atom \<in> neg_lits then (FalseE, True)
            else if atom \<in> pos_lits then (TrueE, True)
            else (arg, modified))
      else if arg \<in> neg_lits then (TrueE, True)
      else if arg \<in> pos_lits then (FalseE, True)
      else (arg, modified))"

definition mk_nested_ite :: "bool_rewriter \<Rightarrow> expr \<Rightarrow> expr \<Rightarrow> expr \<Rightarrow> expr" where
  "mk_nested_ite rw c t e =
     (if c = TrueE then t
      else if c = FalseE then e
      else if t = e then t
      else if is_bool t \<and> t = TrueE then (if e = FalseE then c else Or [c, e])
      else if is_bool t \<and> t = FalseE then
        (if e = TrueE then mk_not rw c
         else let tmp = mk_not rw e in Not (Or [c, tmp]))
      else if is_bool t \<and> e = TrueE then (let tmp = mk_not rw c in Or [tmp, t])
      else if is_bool t \<and> (e = FalseE \<or> c = e) then
        (let tmp1 = mk_not rw c; tmp2 = mk_not rw t in Not (Or [tmp1, tmp2]))
      else if is_bool t \<and> c = t then Or [c, e]
      else if is_bool t \<and> is_complement_core t e then mk_eq rw c t
      else if is_bool t \<and> is_complement_core e t then mk_eq rw c t
      else Ite c t e)"

definition simp_nested_eq_ite ::
    "bool_rewriter \<Rightarrow> expr \<Rightarrow> expr set \<Rightarrow> expr set \<Rightarrow> expr option \<times> bool_rewriter" where
  "simp_nested_eq_ite rw t neg_lits pos_lits =
     (let rw = add_cost 3 rw;
          neg = is_not t;
          t = (if neg then hd (get_args t) else t)
      in case t of
           Eq a b \<Rightarrow>
             (let (new_lhs, modified) = simp_arg a neg_lits pos_lits False;
                  (new_rhs, modified) = simp_arg b neg_lits pos_lits modified
              in if \<not> modified then (None, rw)
                 else let result = mk_eq rw new_lhs new_rhs
                      in (Some (if neg then mk_not rw result else result), rw))
         | Ite c a b \<Rightarrow>
             (let (new_c, modified) = simp_arg c neg_lits pos_lits False;
                  (new_t, modified) = simp_arg a neg_lits pos_lits modified;
                  (new_e, modified) = simp_arg b neg_lits pos_lits modified
              in if \<not> modified then (None, rw)
                 else let result = mk_nested_ite rw new_c new_t new_e
                      in (Some (if neg then mk_not rw result else result), rw))
         | _ \<Rightarrow> (None, rw))"

subsection \<open>One pass over the arguments\<close>

record lctx =
  new_args :: "expr list"
  neg_lits :: "expr set"
  pos_lits :: "expr set"
  modified :: bool
  simp_flag :: bool

definition push_new_arg :: "expr \<Rightarrow> lctx \<Rightarrow> lctx" where
  "push_new_arg arg c =
     (case arg of
        Not narg \<Rightarrow>
          if narg \<notin> neg_lits c
          then c\<lparr>neg_lits := insert narg (neg_lits c), new_args := new_args c @ [arg]\<rparr>
          else c
      | _ \<Rightarrow>
          if arg \<notin> pos_lits c
          then c\<lparr>pos_lits := insert arg (pos_lits c), new_args := new_args c @ [arg]\<rparr>
          else c)"

text \<open>
  \<open>PROCESS_ARG\<close>: the two simplifications, then the argument is dropped (false), ends the whole
  simplification (true: \<open>Inl\<close>), is flattened or is pushed.
\<close>

definition process_not_or ::
    "bool_rewriter \<Rightarrow> expr \<Rightarrow> lctx \<Rightarrow> expr \<times> lctx \<times> bool_rewriter" where
  "process_not_or rw arg c =
     (case arg of
        Not (Or as) \<Rightarrow>
          (case simp_nested_not_or rw as (neg_lits c) (pos_lits c) of
             (Some new_arg, rw) \<Rightarrow> (new_arg, c\<lparr>modified := True, simp_flag := True\<rparr>, rw)
           | (None, rw) \<Rightarrow> (arg, c, rw))
      | _ \<Rightarrow> (arg, c, rw))"

definition process_eq_ite ::
    "bool_rewriter \<Rightarrow> expr \<Rightarrow> lctx \<Rightarrow> expr \<times> lctx \<times> bool_rewriter" where
  "process_eq_ite rw arg c =
     (case simp_nested_eq_ite rw arg (neg_lits c) (pos_lits c) of
        (Some new_arg, rw) \<Rightarrow> (new_arg, c\<lparr>modified := True, simp_flag := True\<rparr>, rw)
      | (None, rw) \<Rightarrow> (arg, c, rw))"

definition process_arg ::
    "bool_rewriter \<Rightarrow> expr \<Rightarrow> lctx \<Rightarrow> (expr + lctx) \<times> bool_rewriter" where
  "process_arg rw arg c =
     (let (arg, c, rw) = process_not_or rw arg c;
          (arg, c, rw) = process_eq_ite rw arg c
      in (if arg = FalseE then Inr c
          else if arg = TrueE then Inl arg
          else if m_flat_and_or rw \<and> is_or arg then Inr (fold push_new_arg (get_args arg) c)
          else Inr (push_new_arg arg c), rw))"

fun process_args ::
    "bool_rewriter \<Rightarrow> expr list \<Rightarrow> lctx \<Rightarrow> (expr + lctx) \<times> bool_rewriter" where
  "process_args rw [] c = (Inr c, rw)"
| "process_args rw (arg # args) c =
     (case process_arg rw arg c of
        (Inl result, rw) \<Rightarrow> (Inl result, rw)
      | (Inr c, rw) \<Rightarrow> process_args rw args c)"

subsection \<open>The rounds\<close>

text \<open>
  One round of the loop is a forward pass and a backward pass over what the forward pass left;
  the loop ends when a round modified nothing. The number of rounds is bounded by the fuel, and
  \<open>None\<close> is running out of it: \<open>local_ctx_loop_returns\<close> shows that the fuel \<open>local_ctx_simp\<close>
  gives is never used up.
\<close>

definition new_pass :: "bool \<Rightarrow> bool \<Rightarrow> lctx" where
  "new_pass modf smp =
     \<lparr>new_args = [], neg_lits = {}, pos_lits = {}, modified = modf, simp_flag = smp\<rparr>"

fun local_ctx_loop ::
    "nat \<Rightarrow> bool_rewriter \<Rightarrow> bool \<Rightarrow> expr list \<Rightarrow> expr option option \<times> bool_rewriter" where
  "local_ctx_loop 0 rw simp args = (None, rw)"
| "local_ctx_loop (Suc rounds) rw simp args =
     (case process_args (add_cost (2 * length args) rw) args (new_pass False simp) of
        (Inl result, rw) \<Rightarrow> (Some (Some result), rw)
      | (Inr c, rw) \<Rightarrow>
          (let args = new_args c
           in case process_args (add_cost (2 * length args) rw) (rev args)
                     (new_pass (modified c) (simp_flag c)) of
                (Inl result, rw) \<Rightarrow> (Some (Some result), rw)
              | (Inr c, rw) \<Rightarrow>
                  if \<not> modified c then
                    (Some (if simp_flag c then Some (mk_or_app args) else None), rw)
                  else local_ctx_loop rounds rw (simp_flag c) (rev (new_args c))))"

definition local_ctx_simp ::
    "bool_rewriter \<Rightarrow> expr list \<Rightarrow> expr option \<times> bool_rewriter" where
  "local_ctx_simp rw args =
     (case local_ctx_loop (Suc (sum_list (map weight args))) rw False args of
        (Some r, rw) \<Rightarrow> (r, rw)
      | (None, rw) \<Rightarrow> (None, rw))"

subsection \<open>Refinement under the marks\<close>

definition refines_under :: "(interp \<Rightarrow> bool) \<Rightarrow> expr \<Rightarrow> expr \<Rightarrow> bool" where
  "refines_under A e e' \<longleftrightarrow>
     (sort_ok e \<longrightarrow>
        sort_ok e' \<and> get_sort e' = get_sort e \<and> (\<forall>I. A I \<longrightarrow> eval I e' = eval I e))"

lemma refines_under_refl [simp]: "refines_under A e e"
  by (simp add: refines_under_def)

lemma refines_under_refines: "refines_under A a b \<Longrightarrow> refines b c \<Longrightarrow> refines_under A a c"
  by (simp add: refines_under_def refines_def)

lemma refines_under_Not: "refines_under A a b \<Longrightarrow> refines_under A (Not a) (Not b)"
  by (auto simp: refines_under_def is_bool_def)

lemma refines_under_Eq:
  "refines_under A a a' \<Longrightarrow> refines_under A b b' \<Longrightarrow> refines_under A (Eq a b) (Eq a' b')"
  by (auto simp: refines_under_def)

lemma refines_under_Ite:
  "refines_under A c c' \<Longrightarrow> refines_under A t t' \<Longrightarrow> refines_under A e e' \<Longrightarrow>
   refines_under A (Ite c t e) (Ite c' t' e')"
  by (auto simp: refines_under_def is_bool_def)

lemma refines_under_bit:
  assumes "refines_under A e e'" "is_bit e"
  shows "is_bit e'" "A I \<Longrightarrow> holds I e' = holds I e"
  using assms by (auto simp: refines_under_def is_bit_def is_bool_def holds_def)

lemma refines_under_bitI:
  assumes "is_bit e \<Longrightarrow> is_bit e' \<and> (\<forall>I. A I \<longrightarrow> holds I e' = holds I e)" and "get_sort e = BoolS"
  shows "refines_under A e e'"
  using assms eval_holds unfolding refines_under_def is_bit_def is_bool_def by auto

text \<open>What the marks say: the arguments seen so far are false.\<close>

definition marks :: "expr set \<Rightarrow> expr set \<Rightarrow> interp \<Rightarrow> bool" where
  "marks ns ps I \<longleftrightarrow> (\<forall>x \<in> ns. holds I x) \<and> (\<forall>x \<in> ps. \<not> holds I x)"

lemma marksD:
  "marks ns ps I \<Longrightarrow> x \<in> ns \<Longrightarrow> holds I x" "marks ns ps I \<Longrightarrow> x \<in> ps \<Longrightarrow> \<not> holds I x"
  by (auto simp: marks_def)

lemma simp_arg_cases:
  obtains (same) "simp_arg arg ns ps m = (arg, m)"
  | (not_true) x where "arg = Not x" "x \<in> ns" "simp_arg arg ns ps m = (FalseE, True)"
  | (not_false) x where "arg = Not x" "x \<in> ps" "simp_arg arg ns ps m = (TrueE, True)"
  | (is_true) "arg \<in> ns" "simp_arg arg ns ps m = (TrueE, True)"
  | (is_false) "arg \<in> ps" "simp_arg arg ns ps m = (FalseE, True)"
proof -
  have "simp_arg arg ns ps m = (arg, m)
      \<or> (\<exists>x. arg = Not x \<and> x \<in> ns \<and> simp_arg arg ns ps m = (FalseE, True))
      \<or> (\<exists>x. arg = Not x \<and> x \<in> ps \<and> simp_arg arg ns ps m = (TrueE, True))
      \<or> arg \<in> ns \<and> simp_arg arg ns ps m = (TrueE, True)
      \<or> arg \<in> ps \<and> simp_arg arg ns ps m = (FalseE, True)"
    by (cases arg) (simp_all add: simp_arg_def)
  then show thesis using that by blast
qed

lemma simp_arg_refines:
  assumes "simp_arg arg ns ps m = (arg', m')" "\<forall>x \<in> ns \<union> ps. is_bit x"
  shows "refines_under (marks ns ps) arg arg'"
  using simp_arg_cases [of arg ns ps m]
proof cases
  case is_true
  then show ?thesis using assms
    by (auto simp: refines_under_def is_bit_def is_bool_def holds_def dest: marksD(1))
next
  case is_false
  then show ?thesis using assms eval_holds [of arg]
    by (auto simp: refines_under_def is_bit_def is_bool_def dest: marksD(2))
qed (use assms in \<open>auto intro!: refines_under_bitI dest: marksD\<close>)

lemma is_not_holds: "is_not e \<Longrightarrow> holds I e \<longleftrightarrow> \<not> holds I (hd (get_args e))"
  by (cases e) auto

lemma nested_not_or_loop_Inl: "nested_not_or_loop ns ps s new args = Inl e \<Longrightarrow> e = FalseE"
  by (induction ns ps s new args rule: nested_not_or_loop.induct) (auto split: if_splits)

lemma nested_not_or_loop_subset:
  "nested_not_or_loop ns ps s new args = Inr (s', new') \<Longrightarrow> set new' \<subseteq> set new \<union> set args"
  by (induction ns ps s new args rule: nested_not_or_loop.induct) (auto split: if_splits)

lemma nested_not_or_loop_refines:
  assumes "marks ns ps I"
  shows "nested_not_or_loop ns ps s new args = Inl e \<Longrightarrow> (\<exists>a \<in> set args. holds I a)"
    and "nested_not_or_loop ns ps s new args = Inr (s', new') \<Longrightarrow>
      (\<exists>a \<in> set new'. holds I a) = (\<exists>a \<in> set new \<union> set args. holds I a)"
proof (induction args arbitrary: s new)
  case (Cons arg args)
  {
    case 1
    then show ?case
      by (auto simp: is_not_holds split: if_splits dest!: Cons.IH(1) dest: marksD [OF assms])
  next
    case 2
    then show ?case
      by (auto simp: is_not_holds split: if_splits dest!: Cons.IH(2) dest: marksD [OF assms])
  }
qed auto

lemma simp_nested_not_or_refines:
  assumes "simp_nested_not_or rw args ns ps = (Some e, rw')"
  shows "refines_under (marks ns ps) (Not (Or args)) e"
proof (rule refines_under_bitI)
  assume bits: "is_bit (Not (Or args))"
  show "is_bit e \<and> (\<forall>I. marks ns ps I \<longrightarrow> holds I e = holds I (Not (Or args)))"
  proof (cases "nested_not_or_loop ns ps False [] args")
    case (Inl r)
    then have "e = r" "r = FalseE"
      using assms by (auto simp: simp_nested_not_or_def nested_not_or_loop_Inl)
    then show ?thesis using nested_not_or_loop_refines(1) [OF _ Inl] by auto
  next
    case (Inr p)
    then obtain s' new' where p: "nested_not_or_loop ns ps False [] args = Inr (s', new')"
      by (cases p) auto
    have "\<forall>a \<in> set new'. is_bit a" using nested_not_or_loop_subset [OF p] bits by auto
    then have "holds I e = (\<not> (\<exists>a \<in> set new'. holds I a))" "is_bit e" for I
      using assms p
      by (auto simp: simp_nested_not_or_def Let_def split: list.splits if_splits)
    moreover have "(\<exists>a \<in> set new'. holds I a) = (\<exists>a \<in> set args. holds I a)"
      if "marks ns ps I" for I
      using nested_not_or_loop_refines(2) [OF that p] by simp
    ultimately show ?thesis by (metis holds_simps(3,5))
  qed
qed simp

lemma mk_nested_ite_refines: "refines (Ite c t e) (mk_nested_ite rw c t e)"
proof (cases "is_bool t")
  case True
  show ?thesis
  proof (rule refines_bitI)
    assume "is_bit (Ite c t e)"
    then have b: "is_bit c" "is_bit t" "is_bit e" by simp_all
    show "is_bit (mk_nested_ite rw c t e) \<and> (\<forall>I. holds I (mk_nested_ite rw c t e) = holds I (Ite c t e))"
      using b unfolding mk_nested_ite_def Let_def
      by (auto simp: True is_complement_core_def)
  qed (use True in \<open>simp add: is_bool_def\<close>)
next
  case False
  then show ?thesis
    by (auto simp: mk_nested_ite_def refines_def)
qed

lemma simp_nested_eq_ite_refines:
  assumes "simp_nested_eq_ite rw t ns ps = (Some e, rw')" "\<forall>x \<in> ns \<union> ps. is_bit x"
  shows "refines_under (marks ns ps) t e"
proof -
  define t0 where "t0 = (if is_not t then hd (get_args t) else t)"
  have "\<exists>r rw. e = (if is_not t then mk_not rw r else r) \<and> refines_under (marks ns ps) t0 r"
  proof (cases t0)
    case (Eq a b)
    obtain a' m1 where a: "simp_arg a ns ps False = (a', m1)" by force
    obtain b' m2 where b: "simp_arg b ns ps m1 = (b', m2)" by force
    have "refines_under (marks ns ps) t0 (mk_eq (add_cost 3 rw) a' b')" unfolding Eq
      by (rule refines_under_refines [OF refines_under_Eq mk_eq_refines])
        (use simp_arg_refines assms(2) a b in blast)+
    then show ?thesis
      using assms(1) a b Eq unfolding t0_def simp_nested_eq_ite_def
      by (auto simp: Let_def split: if_splits)
  next
    case (Ite c a b)
    obtain c' m1 where c: "simp_arg c ns ps False = (c', m1)" by force
    obtain a' m2 where a: "simp_arg a ns ps m1 = (a', m2)" by force
    obtain b' m3 where b: "simp_arg b ns ps m2 = (b', m3)" by force
    have "refines_under (marks ns ps) t0 (mk_nested_ite (add_cost 3 rw) c' a' b')" unfolding Ite
      by (rule refines_under_refines [OF refines_under_Ite mk_nested_ite_refines])
        (use simp_arg_refines assms(2) a b c in blast)+
    then show ?thesis
      using assms(1) a b c Ite unfolding t0_def simp_nested_eq_ite_def
      by (auto simp: Let_def split: if_splits)
  qed (use assms(1) in \<open>auto simp: t0_def simp_nested_eq_ite_def Let_def split: if_splits\<close>)
  then obtain r rw where r: "e = (if is_not t then mk_not rw r else r)"
    "refines_under (marks ns ps) t0 r" by blast
  show ?thesis
  proof (cases "is_not t")
    case True
    then have "t = Not t0" by (cases t) (auto simp: t0_def)
    then show ?thesis
      using r True refines_under_refines [OF refines_under_Not mk_not_refines] by simp
  next
    case False
    then show ?thesis using r by (simp add: t0_def)
  qed
qed

subsection \<open>A pass keeps the disjunction\<close>

definition lctx_inv :: "lctx \<Rightarrow> bool" where
  "lctx_inv c \<longleftrightarrow> (\<forall>a \<in> set (new_args c). is_bit a)
     \<and> (\<forall>x \<in> neg_lits c. Not x \<in> set (new_args c)) \<and> (\<forall>x \<in> pos_lits c. x \<in> set (new_args c))"

abbreviation lctx_or :: "interp \<Rightarrow> lctx \<Rightarrow> bool" where
  "lctx_or I c \<equiv> \<exists>a \<in> set (new_args c). holds I a"

lemma lctx_inv_bits: "lctx_inv c \<Longrightarrow> \<forall>x \<in> neg_lits c \<union> pos_lits c. is_bit x"
  by (auto simp: lctx_inv_def) (metis is_bit_simps(3))

lemma lctx_inv_marks: "lctx_inv c \<Longrightarrow> \<not> lctx_or I c \<Longrightarrow> marks (neg_lits c) (pos_lits c) I"
  by (auto simp: lctx_inv_def marks_def) (metis holds_simps(3))

lemma push_new_arg_inv: "lctx_inv c \<Longrightarrow> is_bit a \<Longrightarrow> lctx_inv (push_new_arg a c)"
  by (cases a) (auto simp: push_new_arg_def lctx_inv_def)

lemma push_new_arg_or:
  assumes "lctx_inv c"
  shows "lctx_or I (push_new_arg a c) \<longleftrightarrow> lctx_or I c \<or> holds I a"
proof -
  have "new_args (push_new_arg a c) = new_args c @ [a]
      \<or> new_args (push_new_arg a c) = new_args c \<and> a \<in> set (new_args c)"
    using assms by (cases a) (auto simp: push_new_arg_def lctx_inv_def)
  then show ?thesis by auto
qed

lemma fold_push_new_arg:
  assumes "lctx_inv c" "\<forall>a \<in> set as. is_bit a"
  shows "lctx_inv (fold push_new_arg as c)"
    and "lctx_or I (fold push_new_arg as c) \<longleftrightarrow> lctx_or I c \<or> (\<exists>a \<in> set as. holds I a)"
  using assms by (induction as arbitrary: c) (auto simp: push_new_arg_inv push_new_arg_or)

lemma process_not_or_refines:
  assumes "process_not_or rw arg c = (arg', c', rw')"
  shows "new_args c' = new_args c" "neg_lits c' = neg_lits c" "pos_lits c' = pos_lits c"
    and "refines_under (marks (neg_lits c) (pos_lits c)) arg arg'"
  using assms
  by (auto simp: process_not_or_def split: expr.splits prod.splits option.splits
      dest: simp_nested_not_or_refines)

lemma process_eq_ite_refines:
  assumes "process_eq_ite rw arg c = (arg', c', rw')" "\<forall>x \<in> neg_lits c \<union> pos_lits c. is_bit x"
  shows "new_args c' = new_args c" "neg_lits c' = neg_lits c" "pos_lits c' = pos_lits c"
    and "refines_under (marks (neg_lits c) (pos_lits c)) arg arg'"
  using assms
  by (auto simp: process_eq_ite_def split: expr.splits prod.splits option.splits
      dest: simp_nested_eq_ite_refines)

lemma process_arg_or:
  assumes "lctx_inv c" "is_bit arg" "process_arg rw arg c = (r, rw')"
  shows "r = Inl e \<Longrightarrow> e = TrueE \<and> (\<forall>I. lctx_or I c \<or> holds I arg)"
    and "r = Inr c' \<Longrightarrow> lctx_inv c' \<and> (\<forall>I. lctx_or I c' \<longleftrightarrow> lctx_or I c \<or> holds I arg)"
proof -
  obtain arg1 c1 rw1 where 1: "process_not_or rw arg c = (arg1, c1, rw1)" by (metis prod_cases3)
  obtain arg2 c2 rw2 where 2: "process_eq_ite rw1 arg1 c1 = (arg2, c2, rw2)" by (metis prod_cases3)
  note p1 = process_not_or_refines [OF 1]
  have "\<forall>x \<in> neg_lits c1 \<union> pos_lits c1. is_bit x"
    using lctx_inv_bits [OF assms(1)] p1 by simp
  note p2 = process_eq_ite_refines [OF 2 this]
  have same: "new_args c2 = new_args c" "lctx_inv c2"
    using p1 p2 assms(1) by (simp_all add: lctx_inv_def)
  have b: "is_bit arg1" "is_bit arg2"
    using refines_under_bit(1) p1(4) p2(4) assms(2) by blast+
  have h: "lctx_or I c \<or> holds I arg2 \<longleftrightarrow> lctx_or I c \<or> holds I arg" for I
    using refines_under_bit(2) [OF p1(4) assms(2)] refines_under_bit(2) [OF p2(4) b(1)]
      lctx_inv_marks [OF assms(1), of I] p1(2,3) by auto
  have r: "r = (if arg2 = FalseE then Inr c2 else if arg2 = TrueE then Inl arg2
      else if m_flat_and_or rw2 \<and> is_or arg2 then Inr (fold push_new_arg (get_args arg2) c2)
      else Inr (push_new_arg arg2 c2))"
    using assms(3) 1 2 by (simp add: process_arg_def)
  show "e = TrueE \<and> (\<forall>I. lctx_or I c \<or> holds I arg)" if "r = Inl e"
    using that r h by (auto split: if_splits)
  have or: "is_or arg2 \<Longrightarrow> (\<forall>a \<in> set (get_args arg2). is_bit a)
      \<and> holds I arg2 = (\<exists>a \<in> set (get_args arg2). holds I a)" for I
    using b(2) by (cases arg2) auto
  show "lctx_inv c' \<and> (\<forall>I. lctx_or I c' \<longleftrightarrow> lctx_or I c \<or> holds I arg)" if rc: "r = Inr c'"
  proof -
    consider "arg2 = FalseE" "c' = c2" | "is_or arg2" "c' = fold push_new_arg (get_args arg2) c2"
      | "c' = push_new_arg arg2 c2"
      using rc unfolding r by (auto split: if_splits)
    then show ?thesis
      unfolding h [symmetric]
      by cases (use same b(2) or in \<open>simp_all add: push_new_arg_inv push_new_arg_or fold_push_new_arg\<close>)
  qed
qed

lemma process_args_or:
  assumes "lctx_inv c" "\<forall>a \<in> set args. is_bit a" "process_args rw args c = (r, rw')"
  shows "(\<forall>e. r = Inl e \<longrightarrow> e = TrueE \<and> (\<forall>I. lctx_or I c \<or> (\<exists>a \<in> set args. holds I a)))
    \<and> (\<forall>c'. r = Inr c' \<longrightarrow>
         lctx_inv c' \<and> (\<forall>I. lctx_or I c' \<longleftrightarrow> lctx_or I c \<or> (\<exists>a \<in> set args. holds I a)))"
  using assms
proof (induction args arbitrary: c rw)
  case (Cons arg args)
  obtain r1 rw1 where 1: "process_arg rw arg c = (r1, rw1)" by force
  note p = process_arg_or [OF Cons.prems(1) _ 1]
  show ?case
  proof (cases r1)
    case (Inl e)
    then show ?thesis using p(1) Cons.prems 1 by force
  next
    case (Inr c1)
    then have "lctx_inv c1" "\<forall>I. lctx_or I c1 \<longleftrightarrow> lctx_or I c \<or> holds I arg"
      using p(2) Cons.prems by auto
    then show ?thesis using Cons.IH [of c1 rw1] Cons.prems Inr 1 by auto
  qed
qed auto

text \<open>A pass that starts without arguments, and a round of two passes.\<close>

lemma new_pass_simps [simp]:
  "new_args (new_pass m s) = []" "lctx_inv (new_pass m s)"
  "modified (new_pass m s) = m" "simp_flag (new_pass m s) = s"
  by (simp_all add: new_pass_def lctx_inv_def)

lemma pass_or:
  assumes "process_args rw args (new_pass m s) = (r, rw')" "\<forall>a \<in> set args. is_bit a"
  shows "r = Inl e \<Longrightarrow> e = TrueE \<and> (\<forall>I. \<exists>a \<in> set args. holds I a)"
    and "r = Inr c \<Longrightarrow> (\<forall>a \<in> set (new_args c). is_bit a)
      \<and> (\<forall>I. (\<exists>a \<in> set (new_args c). holds I a) \<longleftrightarrow> (\<exists>a \<in> set args. holds I a))"
  using process_args_or [OF new_pass_simps(2) assms(2,1)] by (auto simp: lctx_inv_def)

lemma mk_or_app_bit: "\<forall>a \<in> set as. is_bit a \<Longrightarrow> is_bit (mk_or_app as)"
  by (auto simp: mk_or_app_def split: list.splits)

lemma mk_or_app_holds: "holds I (mk_or_app as) \<longleftrightarrow> (\<exists>a \<in> set as. holds I a)"
  by (auto simp: mk_or_app_def split: list.splits)

lemma local_ctx_loop_or:
  assumes "local_ctx_loop n rw s args = (Some (Some e), rw')" "\<forall>a \<in> set args. is_bit a"
  shows "is_bit e \<and> (\<forall>I. holds I e \<longleftrightarrow> (\<exists>a \<in> set args. holds I a))"
  using assms
proof (induction n arbitrary: rw s args)
  case (Suc n)
  obtain r1 rw1 where 1: "process_args (add_cost (2 * length args) rw) args (new_pass False s) = (r1, rw1)"
    by force
  note p1 = pass_or [OF 1 Suc.prems(2)]
  show ?case
  proof (cases r1)
    case (Inl e1)
    then show ?thesis using p1(1) Suc.prems(1) 1 by auto
  next
    case (Inr c)
    then have c: "\<forall>a \<in> set (new_args c). is_bit a"
      "\<And>I. (\<exists>a \<in> set (new_args c). holds I a) \<longleftrightarrow> (\<exists>a \<in> set args. holds I a)"
      using p1(2) by auto
    obtain r2 rw2 where 2: "process_args (add_cost (2 * length (new_args c)) rw1)
        (rev (new_args c)) (new_pass (modified c) (simp_flag c)) = (r2, rw2)" by force
    note p2 = pass_or [OF 2, simplified, OF c(1), unfolded c(2)]
    show ?thesis
    proof (cases r2)
      case (Inl e2)
      then show ?thesis using p2(1) Suc.prems(1) 1 2 Inr by auto
    next
      case (Inr c')
      then have c': "\<forall>a \<in> set (rev (new_args c')). is_bit a"
        "\<And>I. (\<exists>a \<in> set (rev (new_args c')). holds I a) \<longleftrightarrow> (\<exists>a \<in> set args. holds I a)"
        using p2(2) by auto
      show ?thesis
      proof (cases "modified c'")
        case True
        then have "local_ctx_loop n rw2 (simp_flag c') (rev (new_args c')) = (Some (Some e), rw')"
          using Suc.prems(1) 1 2 \<open>r1 = Inr c\<close> Inr by simp
        from Suc.IH [OF this c'(1), unfolded c'(2)] show ?thesis .
      next
        case False
        then have "e = mk_or_app (new_args c)"
          using Suc.prems(1) 1 2 \<open>r1 = Inr c\<close> Inr by (simp split: if_splits)
        then show ?thesis using c by (simp add: mk_or_app_bit mk_or_app_holds)
      qed
    qed
  qed
qed simp

lemma local_ctx_simp_refines:
  assumes "local_ctx_simp rw args = (Some e, rw')"
  shows "refines (Or args) e"
proof (rule refines_bitI)
  have "local_ctx_loop (Suc (sum_list (map weight args))) rw False args = (Some (Some e), rw')"
    using assms by (simp add: local_ctx_simp_def split: prod.splits option.splits del: local_ctx_loop.simps)
  note loop = local_ctx_loop_or [OF this]
  assume "is_bit (Or args)"
  then show "is_bit e \<and> (\<forall>I. holds I e = holds I (Or args))" using loop by simp
qed simp

subsection \<open>The rounds end\<close>

text \<open>
  A replaced argument makes the result strictly lighter, so every round that modifies something
  makes the arguments lighter.
\<close>

abbreviation is_const :: "expr \<Rightarrow> bool" where
  "is_const e \<equiv> e = TrueE \<or> e = FalseE"

lemma strip_nots_const: "is_const l \<or> is_const r \<Longrightarrow> strip_nots l r = (False, l, r)"
  by (cases "(l, r)" rule: strip_nots.cases) auto

lemma mk_eq_values_const_weight:
  assumes "mk_eq_values rw l r = Some (s, e)" "is_const l \<or> is_const r"
  shows "weight e < Suc (weight l + weight r)"
proof -
  have ite: "weight e < Suc (weight ite + weight v)"
    if "is_value v" "try_ite_value ite v = Some (s, e)" for ite v
    using try_ite_value_weight [OF that] weight_value [OF that(1)] by simp
  show ?thesis
    using assms(1) weight_pos [of l] weight_pos [of r]
    by (auto simp: mk_eq_values_def add.commute split: if_splits dest: ite)
qed

lemma weight_mk_eq_const:
  assumes "is_const l \<or> is_const r" "is_bool l"
  shows "weight (mk_eq rw l r) < Suc (weight l + weight r)"
proof (cases "mk_eq_values rw l r")
  case None
  have n: "weight (mk_not rw r) < Suc (Suc (weight r))" "weight (mk_not rw l) < Suc (Suc (weight l))"
    using weight_mk_not by (simp_all add: less_Suc_eq_le le_SucI)
  show ?thesis
    using None assms n by (auto simp: mk_eq.simps mk_eq_core.simps strip_nots_const)
next
  case (Some p)
  then show ?thesis
    using assms mk_eq_values_const_weight [of rw l r]
    by (cases p) (auto simp: mk_eq.simps mk_eq_core.simps)
qed

lemma weight_mk_nested_ite:
  assumes "is_const c \<or> is_const t \<or> is_const e" "is_bool t"
  shows "weight (mk_nested_ite rw c t e) < 3 + weight c + weight t + weight e"
proof -
  note w = weight_mk_not [of rw c] weight_mk_not [of rw t] weight_mk_not [of rw e]
    weight_mk_eq [of rw c t] weight_pos [of c] weight_pos [of t] weight_pos [of e]
  show ?thesis
    using assms w unfolding mk_nested_ite_def Let_def by auto
qed

lemma simp_arg_weight:
  assumes "simp_arg a ns ps m = (a', m')"
  shows "weight a' \<le> weight a \<and> (m \<longrightarrow> m') \<and> (m' \<longrightarrow> m \<or> is_const a')"
proof -
  have "a' = a \<and> m' = m \<or> is_const a' \<and> m'"
    by (rule simp_arg_cases [of a ns ps m]) (use assms in auto)
  then show ?thesis using weight_pos [of a] by (auto simp: Suc_le_eq)
qed

lemma nested_not_or_loop_weight:
  assumes "nested_not_or_loop ns ps s new args = Inr (s', new')"
  shows "sum_list (map weight new') + of_bool (s' \<and> \<not> s)
    \<le> sum_list (map weight new) + sum_list (map weight args)"
  using assms
proof (induction args arbitrary: s new)
  case (Cons arg args)
  obtain k where "weight arg = Suc k" using weight_pos gr0_implies_Suc by blast
  then show ?case
    using Cons.prems Cons.IH [of True new] Cons.IH [of s "new @ [arg]"]
    by (cases s; cases s') (auto split: if_splits)
qed auto

lemma simp_nested_not_or_weight:
  assumes "simp_nested_not_or rw args ns ps = (Some e, rw')"
  shows "weight e < weight (Not (Or args))"
proof (cases "nested_not_or_loop ns ps False [] args")
  case (Inl r)
  then have "args \<noteq> []" "e = FalseE"
    using assms nested_not_or_loop_Inl [OF Inl] by (auto simp: simp_nested_not_or_def)
  then show ?thesis by (cases args) auto
next
  case (Inr p)
  obtain s' new' where p: "nested_not_or_loop ns ps False [] args = Inr (s', new')"
    using Inr by (cases p) auto
  have "s'" using assms p by (auto simp: simp_nested_not_or_def Let_def split: if_splits)
  then have w: "sum_list (map weight new') < sum_list (map weight args)"
    using nested_not_or_loop_weight [OF p] by simp
  show ?thesis
    using assms p \<open>s'\<close> w
    by (auto simp: simp_nested_not_or_def Let_def less_Suc_eq_le split: list.splits
        intro: le_trans [OF weight_mk_not])
qed

lemma simp_nested_eq_ite_weight:
  assumes "simp_nested_eq_ite rw t ns ps = (Some e, rw')" "is_bit t" "\<forall>x \<in> ns \<union> ps. is_bit x"
  shows "weight e < weight t"
proof -
  define t0 where "t0 = (if is_not t then hd (get_args t) else t)"
  have t0: "weight t0 = weight t" "is_bit t0"
    using assms(2) by (cases t; simp add: t0_def)+
  have "\<exists>r rw. e = (if is_not t then mk_not rw r else r) \<and> weight r < weight t0"
  proof (cases t0)
    case (Eq a b)
    obtain a' m1 where a: "simp_arg a ns ps False = (a', m1)" by force
    obtain b' m2 where b: "simp_arg b ns ps m1 = (b', m2)" by force
    have m2: m2 "e = (if is_not t then mk_not (add_cost 3 rw) (mk_eq (add_cost 3 rw) a' b')
        else mk_eq (add_cost 3 rw) a' b')"
      using assms(1) a b Eq unfolding t0_def simp_nested_eq_ite_def
      by (auto simp: Let_def split: if_splits)
    note w = simp_arg_weight [OF a] simp_arg_weight [OF b]
    have same: "get_sort a' = get_sort a" "get_sort b' = get_sort b" "get_sort a = get_sort b"
      using simp_arg_refines [OF a assms(3)] simp_arg_refines [OF b assms(3)] t0(2) Eq
      by (auto simp: refines_under_def is_bit_def)
    have const: "is_const a' \<or> is_const b'" using w m2(1) by blast
    then have "is_bool a'" using same by (auto simp: is_bool_def)
    from weight_mk_eq_const [OF const this] w have "weight (mk_eq (add_cost 3 rw) a' b') < weight t0"
      by (simp add: Eq) (metis add_mono less_Suc_eq_le le_trans)
    then show ?thesis using m2(2) by blast
  next
    case (Ite c a b)
    obtain c' m1 where c: "simp_arg c ns ps False = (c', m1)" by force
    obtain a' m2 where a: "simp_arg a ns ps m1 = (a', m2)" by force
    obtain b' m3 where b: "simp_arg b ns ps m2 = (b', m3)" by force
    let ?r = "mk_nested_ite (add_cost 3 rw) c' a' b'"
    have m3: m3 "e = (if is_not t then mk_not (add_cost 3 rw) ?r else ?r)"
      using assms(1) a b c Ite unfolding t0_def simp_nested_eq_ite_def
      by (auto simp: Let_def split: if_splits)
    note w = simp_arg_weight [OF a] simp_arg_weight [OF b] simp_arg_weight [OF c]
    have "is_bool a'"
      using simp_arg_refines [OF a assms(3)] t0(2) Ite
      by (auto simp: refines_under_def is_bit_def is_bool_def)
    moreover have "is_const c' \<or> is_const a' \<or> is_const b'" using w m3(1) by blast
    ultimately have "weight ?r < 3 + weight c' + weight a' + weight b'"
      by (intro weight_mk_nested_ite)
    also have "\<dots> \<le> weight t0" using w by (simp add: Ite)
    finally show ?thesis using m3(2) by blast
  qed (use assms(1) in \<open>auto simp: t0_def simp_nested_eq_ite_def Let_def split: if_splits\<close>)
  then show ?thesis
    using t0(1) weight_mk_not le_less_trans by (metis (full_types))
qed

text \<open>
  The weight of the arguments a pass collects, plus one if it modified something, is at most the
  weight of its arguments.
\<close>

abbreviation args_weight :: "expr list \<Rightarrow> nat" where
  "args_weight as \<equiv> sum_list (map weight as)"

lemma push_new_arg_weight:
  "args_weight (new_args (push_new_arg a c)) \<le> args_weight (new_args c) + weight a"
  "modified (push_new_arg a c) = modified c"
  by (cases a; auto simp: push_new_arg_def)+

lemma fold_push_new_arg_weight:
  "args_weight (new_args (fold push_new_arg as c)) \<le> args_weight (new_args c) + args_weight as
   \<and> modified (fold push_new_arg as c) = modified c"
proof (induction as arbitrary: c)
  case (Cons a as)
  show ?case
    using Cons.IH [of "push_new_arg a c"] push_new_arg_weight [of a c] by simp
qed simp

lemma process_not_or_weight:
  assumes "process_not_or rw arg c = (arg', c', rw')"
  shows "weight arg' + of_bool (modified c' \<and> \<not> modified c) \<le> weight arg \<and> (modified c \<longrightarrow> modified c')"
  using assms
  by (auto simp: process_not_or_def Suc_le_eq split: expr.splits prod.splits option.splits
      dest: simp_nested_not_or_weight)

lemma process_eq_ite_weight:
  assumes "process_eq_ite rw arg c = (arg', c', rw')" "is_bit arg"
    "\<forall>x \<in> neg_lits c \<union> pos_lits c. is_bit x"
  shows "weight arg' + of_bool (modified c' \<and> \<not> modified c) \<le> weight arg \<and> (modified c \<longrightarrow> modified c')"
  using assms
  by (auto simp: process_eq_ite_def Suc_le_eq split: prod.splits option.splits
      dest: simp_nested_eq_ite_weight)

lemma process_arg_weight:
  assumes "lctx_inv c" "is_bit arg" "process_arg rw arg c = (Inr c', rw')"
  shows "args_weight (new_args c') + of_bool (modified c' \<and> \<not> modified c)
      \<le> args_weight (new_args c) + weight arg \<and> (modified c \<longrightarrow> modified c')"
proof -
  obtain arg1 c1 rw1 where 1: "process_not_or rw arg c = (arg1, c1, rw1)" by (metis prod_cases3)
  obtain arg2 c2 rw2 where 2: "process_eq_ite rw1 arg1 c1 = (arg2, c2, rw2)" by (metis prod_cases3)
  note p1 = process_not_or_refines [OF 1]
  have b: "\<forall>x \<in> neg_lits c1 \<union> pos_lits c1. is_bit x"
    using lctx_inv_bits [OF assms(1)] p1 by simp
  have "is_bit arg1" using refines_under_bit(1) p1(4) assms(2) by blast
  note w = process_not_or_weight [OF 1] process_eq_ite_weight [OF 2 this b]
  have same: "new_args c2 = new_args c" using p1(1) process_eq_ite_refines(1) [OF 2 b] by simp
  have or: "is_or arg2 \<Longrightarrow> args_weight (get_args arg2) \<le> weight arg2"
    by (cases arg2) auto
  have "args_weight (new_args c') \<le> args_weight (new_args c) + weight arg2 \<and> modified c' = modified c2"
    using assms(3) 1 2 same or push_new_arg_weight [of arg2 c2]
      fold_push_new_arg_weight [of "get_args arg2" c2]
    by (auto simp: process_arg_def split: if_splits)
  then show ?thesis
    using w by (cases "modified c"; cases "modified c1"; cases "modified c2"; simp)
qed

lemma process_args_weight:
  assumes "lctx_inv c" "\<forall>a \<in> set args. is_bit a" "process_args rw args c = (Inr c', rw')"
  shows "args_weight (new_args c') + of_bool (modified c' \<and> \<not> modified c)
      \<le> args_weight (new_args c) + args_weight args \<and> (modified c \<longrightarrow> modified c')"
  using assms
proof (induction args arbitrary: c rw)
  case (Cons arg args)
  obtain r1 rw1 where 1: "process_arg rw arg c = (r1, rw1)" by force
  then obtain c1 where c1: "r1 = Inr c1" using Cons.prems(3) by (cases r1) auto
  have "lctx_inv c1" using process_arg_or(2) [OF Cons.prems(1) _ 1 c1] Cons.prems(2) by simp
  moreover have "process_args rw1 args c1 = (Inr c', rw')" using Cons.prems(3) 1 c1 by simp
  ultimately have "args_weight (new_args c') + of_bool (modified c' \<and> \<not> modified c1)
      \<le> args_weight (new_args c1) + args_weight args \<and> (modified c1 \<longrightarrow> modified c')"
    using Cons.IH [of c1 rw1] Cons.prems(2) by simp
  moreover have "args_weight (new_args c1) + of_bool (modified c1 \<and> \<not> modified c)
      \<le> args_weight (new_args c) + weight arg \<and> (modified c \<longrightarrow> modified c1)"
    using process_arg_weight [OF Cons.prems(1) _ 1 [unfolded c1]] Cons.prems(2) by simp
  ultimately show ?case
    by (cases "modified c"; cases "modified c1"; cases "modified c'"; simp)
qed auto

lemma local_ctx_loop_returns:
  assumes "args_weight args < n" "\<forall>a \<in> set args. is_bit a"
  shows "\<exists>r rw'. local_ctx_loop n rw s args = (Some r, rw')"
  using assms
proof (induction n arbitrary: rw s args)
  case (Suc n)
  obtain r1 rw1 where 1: "process_args (add_cost (2 * length args) rw) args (new_pass False s) = (r1, rw1)"
    by force
  show ?case
  proof (cases r1)
    case (Inl e1)
    then show ?thesis using 1 by auto
  next
    case c: (Inr c)
    have cb: "\<forall>a \<in> set (rev (new_args c)). is_bit a"
      using pass_or(2) [OF 1 Suc.prems(2) c] by simp
    obtain r2 rw2 where 2: "process_args (add_cost (2 * length (new_args c)) rw1)
        (rev (new_args c)) (new_pass (modified c) (simp_flag c)) = (r2, rw2)" by force
    show ?thesis
    proof (cases "\<exists>c'. r2 = Inr c' \<and> modified c'")
      case False
      then show ?thesis using 1 2 c by (cases r2) auto
    next
      case True
      then obtain c' where c': "r2 = Inr c'" "modified c'" by blast
      have "args_weight (new_args c') < args_weight args"
        using process_args_weight [OF new_pass_simps(2) Suc.prems(2) 1 [unfolded c]]
          process_args_weight [OF new_pass_simps(2) cb 2 [unfolded c'(1)]] c'(2)
        by (auto simp: rev_map [symmetric] of_bool_def split: if_splits)
      moreover have "\<forall>a \<in> set (rev (new_args c')). is_bit a"
        using pass_or(2) [OF 2 cb c'(1)] by simp
      ultimately obtain r rw' where "local_ctx_loop n rw2 (simp_flag c') (rev (new_args c')) = (Some r, rw')"
        using Suc.IH [of "rev (new_args c')" rw2 "simp_flag c'"] Suc.prems(1)
        by (auto simp: rev_map [symmetric])
      then show ?thesis using 1 2 c c' by simp
    qed
  qed
qed simp

subsection \<open>Frame\<close>

text \<open>The simplifier leaves the parameters alone: only the cost counter moves.\<close>

definition cost_step :: "bool_rewriter \<Rightarrow> bool_rewriter \<Rightarrow> bool" where
  "cost_step rw rw' \<longleftrightarrow> (\<exists>k. rw' = add_cost k rw)"

lemma cost_step_refl [simp]: "cost_step rw rw"
  unfolding cost_step_def by (rule exI [of _ 0]) (simp add: add_cost_def)

lemma cost_step_add [simp]: "cost_step rw (add_cost k rw)"
  unfolding cost_step_def by blast

lemma cost_step_trans [trans]:
  assumes "cost_step a b" "cost_step b c" shows "cost_step a c"
proof -
  obtain j k where "b = add_cost j a" "c = add_cost k b" using assms by (auto simp: cost_step_def)
  then have "c = add_cost (j + k) a" by (simp add: add_cost_def ac_simps)
  then show ?thesis unfolding cost_step_def by blast
qed

lemma process_arg_cost:
  assumes "process_arg rw arg c = (r, rw')" shows "cost_step rw rw'"
proof -
  obtain arg1 c1 rw1 where 1: "process_not_or rw arg c = (arg1, c1, rw1)" by (metis prod_cases3)
  obtain arg2 c2 rw2 where 2: "process_eq_ite rw1 arg1 c1 = (arg2, c2, rw2)" by (metis prod_cases3)
  have "cost_step rw rw1"
    using 1 by (auto simp: process_not_or_def simp_nested_not_or_def Let_def
        split: expr.splits list.splits sum.splits prod.splits if_splits)
  also have "cost_step rw1 rw2"
    using 2 by (auto simp: process_eq_ite_def simp_nested_eq_ite_def Let_def
        split: expr.splits prod.splits option.splits if_splits)
  also have "rw2 = rw'" using assms 1 2 by (simp add: process_arg_def)
  finally show ?thesis .
qed

lemma process_args_cost: "process_args rw args c = (r, rw') \<Longrightarrow> cost_step rw rw'"
proof (induction args arbitrary: rw c)
  case (Cons arg args)
  obtain r1 rw1 where 1: "process_arg rw arg c = (r1, rw1)" by force
  have "cost_step rw1 rw'" using Cons.IH Cons.prems 1 by (cases r1) auto
  then show ?case using process_arg_cost [OF 1] cost_step_trans by blast
qed simp

lemma pass_cost: "process_args (add_cost k rw) args c = (r, rw') \<Longrightarrow> cost_step rw rw'"
  using process_args_cost cost_step_add cost_step_trans by blast

lemma local_ctx_loop_cost: "local_ctx_loop n rw s args = (r, rw') \<Longrightarrow> cost_step rw rw'"
proof (induction n arbitrary: rw s args)
  case (Suc n)
  obtain r1 rw1 where 1: "process_args (add_cost (2 * length args) rw) args (new_pass False s) = (r1, rw1)"
    by force
  show ?case
  proof (cases r1)
    case (Inl e1)
    then show ?thesis using Suc.prems 1 pass_cost by auto
  next
    case c: (Inr c)
    obtain r2 rw2 where 2: "process_args (add_cost (2 * length (new_args c)) rw1)
        (rev (new_args c)) (new_pass (modified c) (simp_flag c)) = (r2, rw2)" by force
    have "cost_step rw2 rw'"
      using Suc.prems 1 2 c Suc.IH by (cases r2) (auto split: if_splits)
    then show ?thesis
      using pass_cost [OF 1] pass_cost [OF 2] cost_step_trans by blast
  qed
qed simp

lemma local_ctx_simp_cost: "local_ctx_simp rw args = (r, rw') \<Longrightarrow> cost_step rw rw'"
  by (auto simp: local_ctx_simp_def split: prod.splits option.splits simp del: local_ctx_loop.simps
      dest: local_ctx_loop_cost)

subsection \<open>Properties\<close>

text \<open>C30: the local context simplifier replaces a disjunction by a well-sorted expression of the
  same value.\<close>

theorem local_ctx_simp_sound:
  assumes "local_ctx_simp rw args = (Some e, rw')" "\<forall>a \<in> set args. is_bit a"
  shows "is_bit e \<and> (\<forall>I. holds I e \<longleftrightarrow> (\<exists>a \<in> set args. holds I a))"
  using local_ctx_simp_refines [OF assms(1)] assms(2) refines_bit [of "Or args" e]
    refines_holds [of "Or args" e] by simp

text \<open>The disjunction of a constant and its negated disjunction with another becomes one with the
  negation of the other.\<close>

definition lc_rw :: bool_rewriter where
  "lc_rw = default_bool_rewriter\<lparr>m_local_ctx := True\<rparr>"

abbreviation lc_args :: "expr list" where
  "lc_args \<equiv> [Fun 0 BoolS [], Not (Or [Fun 0 BoolS [], Fun 1 BoolS []])]"

lemma local_ctx_example:
  "fst (local_ctx_simp lc_rw lc_args) = Some (Or [Fun 0 BoolS [], Not (Fun 1 BoolS [])])"
  by code_simp

theorem local_ctx_simp_sound_witness:
  "is_bit (Or [Fun 0 BoolS [], Not (Fun 1 BoolS [])])"
proof -
  have "local_ctx_simp lc_rw lc_args
      = (Some (Or [Fun 0 BoolS [], Not (Fun 1 BoolS [])]), snd (local_ctx_simp lc_rw lc_args))"
    using local_ctx_example by (metis prod.collapse)
  from local_ctx_simp_sound [OF this] show ?thesis by (simp add: is_bit_def is_bool_def)
qed

text \<open>C31: the rounds of the local context simplifier end: a budget of rounds larger than the
  total weight of the arguments is never used up, because a round that changes something makes
  the arguments lighter.\<close>

theorem local_ctx_rounds_end:
  assumes "args_weight args < rounds" "\<forall>a \<in> set args. is_bit a"
  shows "fst (local_ctx_loop rounds rw simp args) \<noteq> None"
  using local_ctx_loop_returns [OF assms, of rw simp] by auto

theorem local_ctx_rounds_end_witness:
  "fst (local_ctx_loop 3 lc_rw False [Fun 0 BoolS [], Fun 1 BoolS []]) \<noteq> None"
  by (rule local_ctx_rounds_end) (simp_all add: is_bit_def is_bool_def)

end
