(* ===== verification/Bool_Rewriter.thy ===== *)
theory Bool_Rewriter
  imports Bool_Local_Ctx
begin

text \<open>
  The rest of \<open>ast/rewriter/bool_rewriter.{h,cpp}\<close>: conjunctions and disjunctions with and
  without flattening, \<open>mk_distinct_core\<close>, \<open>mk_ite_core\<close> and the derived connectives. The
  operations that may run the local context simplifier return the new state beside the result;
  in the source they write \<open>m_local_ctx_cost\<close>.
\<close>

subsection \<open>Conjunctions\<close>

text \<open>
  The loops over the arguments keep a flag (something was dropped), the arguments to keep and the
  two mark sets; \<open>Inl\<close> is the early return of a constant.
\<close>

fun nflat_and_loop ::
    "bool \<Rightarrow> expr list \<Rightarrow> expr set \<Rightarrow> expr set \<Rightarrow> expr list \<Rightarrow> expr + bool \<times> expr list" where
  "nflat_and_loop s buffer negs poss [] = Inr (s, buffer)"
| "nflat_and_loop s buffer negs poss (arg # args) =
     (if arg = TrueE then nflat_and_loop True buffer negs poss args
      else if arg = FalseE then Inl FalseE
      else case arg of
        Not atom \<Rightarrow>
          if atom \<in> negs then nflat_and_loop True buffer negs poss args
          else if atom \<in> poss then Inl FalseE
          else nflat_and_loop s (buffer @ [arg]) (insert atom negs) poss args
      | _ \<Rightarrow>
          if arg \<in> poss then nflat_and_loop True buffer negs poss args
          else if arg \<in> negs then Inl FalseE
          else nflat_and_loop s (buffer @ [arg]) negs (insert arg poss) args)"

definition mk_nflat_and_core :: "expr list \<Rightarrow> br_result" where
  "mk_nflat_and_core args =
     (case nflat_and_loop False [] {} {} args of
        Inl result \<Rightarrow> Some (BR_DONE, result)
      | Inr (s, buffer) \<Rightarrow>
          (case buffer of
             [] \<Rightarrow> Some (BR_DONE, TrueE)
           | [a] \<Rightarrow> Some (BR_DONE, a)
           | _ \<Rightarrow> if s then Some (BR_DONE, And buffer) else None))"

definition mk_flat_and_core :: "expr list \<Rightarrow> br_result" where
  "mk_flat_and_core args =
     (if \<exists>a \<in> set args. is_and a then
        let flat_args = takeWhile (\<lambda>a. \<not> is_and a) args
              @ concat (map (\<lambda>arg. if is_and arg then get_args arg else [arg])
                  (dropWhile (\<lambda>a. \<not> is_and a) args))
        in Some (BR_REWRITE1, or_else (mk_nflat_and_core flat_args) (And flat_args))
      else mk_nflat_and_core args)"

subsection \<open>Disjunctions\<close>

text \<open>
  The loop also compares each kept argument with the one before it, with the structural order;
  the flag \<open>s\<close> asks for a result sorted by \<open>ast_lt\<close>, which compares node numbers.
\<close>

fun nflat_or_loop ::
    "ast_manager \<Rightarrow> bool \<Rightarrow> expr list \<Rightarrow> expr set \<Rightarrow> expr set \<Rightarrow> expr option \<Rightarrow> expr list
       \<Rightarrow> expr + bool \<times> expr list" where
  "nflat_or_loop m s buffer negs poss prev [] = Inr (s, buffer)"
| "nflat_or_loop m s buffer negs poss prev (arg # args) =
     (let out_of_order = (case prev of None \<Rightarrow> False | Some p \<Rightarrow> struct_lt m arg p)
      in if arg = TrueE then Inl TrueE
      else if arg = FalseE then nflat_or_loop m True buffer negs poss prev args
      else case arg of
        Not atom \<Rightarrow>
          if atom \<in> negs then nflat_or_loop m True buffer negs poss prev args
          else if atom \<in> poss then Inl TrueE
          else nflat_or_loop m (s \<or> out_of_order) (buffer @ [arg]) (insert atom negs)
                 poss (Some arg) args
      | _ \<Rightarrow>
          if arg \<in> poss then nflat_or_loop m True buffer negs poss prev args
          else if arg \<in> negs then Inl TrueE
          else nflat_or_loop m (s \<or> out_of_order) (buffer @ [arg]) negs
                 (insert arg poss) (Some arg) args)"

definition mk_nflat_or_core ::
    "ast_manager \<Rightarrow> bool_rewriter \<Rightarrow> expr list \<Rightarrow> br_result \<times> bool_rewriter" where
  "mk_nflat_or_core m rw args =
     (case nflat_or_loop m False [] {} {} None args of
        Inl result \<Rightarrow> (Some (BR_DONE, result), rw)
      | Inr (s, buffer) \<Rightarrow>
          (case buffer of
             [] \<Rightarrow> (Some (BR_DONE, FalseE), rw)
           | [a] \<Rightarrow> (Some (BR_DONE, a), rw)
           | _ \<Rightarrow>
               (let (simplified, rw) =
                      (if m_local_ctx rw \<and> m_local_ctx_cost rw \<le> m_local_ctx_limit rw
                       then local_ctx_simp rw buffer else (None, rw))
                in case simplified of
                     Some result \<Rightarrow> (Some (BR_DONE, result), rw)
                   | None \<Rightarrow>
                       (if s then Some (BR_DONE, Or (std_sort (ast_lt m) buffer)) else None, rw))))"

fun flat_or_loop ::
    "ast_manager \<Rightarrow> bool \<Rightarrow> expr option \<Rightarrow> expr list \<Rightarrow> expr list \<Rightarrow> bool \<times> expr list" where
  "flat_or_loop m ordered prev flat_args [] = (ordered, flat_args)"
| "flat_or_loop m ordered prev flat_args (arg # args) =
     (if is_or arg then flat_or_loop m False prev (flat_args @ get_args arg) args
      else flat_or_loop m
             (ordered \<and> (case prev of None \<Rightarrow> True | Some p \<Rightarrow> \<not> struct_lt m arg p))
             (Some arg) (flat_args @ [arg]) args)"

definition mk_flat_or_core ::
    "ast_manager \<Rightarrow> bool_rewriter \<Rightarrow> expr list \<Rightarrow> br_result \<times> bool_rewriter" where
  "mk_flat_or_core m rw args =
     (if \<exists>a \<in> set args. is_or a then
        let (ordered, flat_args) =
              flat_or_loop m True None (takeWhile (\<lambda>a. \<not> is_or a) args)
                (dropWhile (\<lambda>a. \<not> is_or a) args)
        in (case mk_nflat_or_core m rw flat_args of
              (Some (st, result), rw) \<Rightarrow> (Some (BR_DONE, result), rw)
            | (None, rw) \<Rightarrow>
                (Some (BR_DONE,
                   mk_or_app (if ordered then flat_args else std_sort (ast_lt m) flat_args)), rw))
      else mk_nflat_or_core m rw args)"

definition mk_or_core ::
    "ast_manager \<Rightarrow> bool_rewriter \<Rightarrow> expr list \<Rightarrow> br_result \<times> bool_rewriter" where
  "mk_or_core m rw args =
     (if m_flat_and_or rw then mk_flat_or_core m rw args else mk_nflat_or_core m rw args)"

definition mk_or :: "ast_manager \<Rightarrow> bool_rewriter \<Rightarrow> expr list \<Rightarrow> expr \<times> bool_rewriter" where
  "mk_or m rw args = (case mk_or_core m rw args of (r, rw) \<Rightarrow> (or_else r (Or args), rw))"

subsection \<open>Conjunctions again: \<open>elim_and\<close>\<close>

definition mk_and_as_or ::
    "ast_manager \<Rightarrow> bool_rewriter \<Rightarrow> expr list \<Rightarrow> expr \<times> bool_rewriter" where
  "mk_and_as_or m rw args =
     (let new_args = map (mk_not rw) args;
          (tmp, rw) = mk_or m rw new_args
      in (mk_not rw tmp, rw))"

definition mk_and_core ::
    "ast_manager \<Rightarrow> bool_rewriter \<Rightarrow> expr list \<Rightarrow> br_result \<times> bool_rewriter" where
  "mk_and_core m rw args =
     (if m_elim_and rw then
        (case mk_and_as_or m rw args of (result, rw) \<Rightarrow> (Some (BR_DONE, result), rw))
      else if m_flat_and_or rw then (mk_flat_and_core args, rw)
      else (mk_nflat_and_core args, rw))"

definition mk_and :: "ast_manager \<Rightarrow> bool_rewriter \<Rightarrow> expr list \<Rightarrow> expr \<times> bool_rewriter" where
  "mk_and m rw args = (case mk_and_core m rw args of (r, rw) \<Rightarrow> (or_else r (And args), rw))"

subsection \<open>Derived connectives\<close>

definition mk_implies ::
    "ast_manager \<Rightarrow> bool_rewriter \<Rightarrow> expr \<Rightarrow> expr \<Rightarrow> expr \<times> bool_rewriter" where
  "mk_implies m rw lhs rhs = (let tmp = mk_not rw lhs in mk_or m rw [tmp, rhs])"

definition mk_nand :: "ast_manager \<Rightarrow> bool_rewriter \<Rightarrow> expr list \<Rightarrow> expr \<times> bool_rewriter" where
  "mk_nand m rw args = (let (tmp, rw) = mk_and m rw args in (mk_not rw tmp, rw))"

definition mk_nor :: "ast_manager \<Rightarrow> bool_rewriter \<Rightarrow> expr list \<Rightarrow> expr \<times> bool_rewriter" where
  "mk_nor m rw args = (let (tmp, rw) = mk_or m rw args in (mk_not rw tmp, rw))"

definition mk_nand2 ::
    "ast_manager \<Rightarrow> bool_rewriter \<Rightarrow> expr \<Rightarrow> expr \<Rightarrow> expr \<times> bool_rewriter" where
  "mk_nand2 m rw arg1 arg2 = (let (tmp, rw) = mk_and m rw [arg1, arg2] in (mk_not rw tmp, rw))"

definition mk_nor2 ::
    "ast_manager \<Rightarrow> bool_rewriter \<Rightarrow> expr \<Rightarrow> expr \<Rightarrow> expr \<times> bool_rewriter" where
  "mk_nor2 m rw arg1 arg2 = (let (tmp, rw) = mk_or m rw [arg1, arg2] in (mk_not rw tmp, rw))"

definition mk_ge2 ::
    "ast_manager \<Rightarrow> bool_rewriter \<Rightarrow> expr \<Rightarrow> expr \<Rightarrow> expr \<Rightarrow> expr \<times> bool_rewriter" where
  "mk_ge2 m rw a b c =
     (if a = FalseE then mk_and m rw [b, c]
      else if b = FalseE then mk_and m rw [a, c]
      else if c = FalseE then mk_and m rw [a, b]
      else if a = TrueE then mk_or m rw [b, c]
      else if b = TrueE then mk_or m rw [a, c]
      else if c = TrueE then mk_or m rw [a, b]
      else
        let (i1, rw) = mk_and m rw [a, b];
            (i2, rw) = mk_and m rw [a, c];
            (i3, rw) = mk_and m rw [b, c]
        in mk_or m rw [i1, i2, i3])"

subsection \<open>Meaning of conjunctions\<close>

lemma case_Not_is_not:
  "(case e of Not x \<Rightarrow> f x | _ \<Rightarrow> g) = (if is_not e then f (hd (get_args e)) else g)"
  by (cases e) simp_all

lemma is_notE: assumes "is_not e" obtains x where "e = Not x" "hd (get_args e) = x"
  using assms by (cases e) auto

text \<open>The marks stand for arguments that were kept.\<close>

definition marked_in :: "expr set \<Rightarrow> expr set \<Rightarrow> expr list \<Rightarrow> bool" where
  "marked_in ns ps buffer \<longleftrightarrow> (\<forall>x \<in> ns. Not x \<in> set buffer) \<and> ps \<subseteq> set buffer"

lemma marked_in_intros [intro]:
  "marked_in {} {} []"
  "marked_in ns ps b \<Longrightarrow> marked_in (insert x ns) ps (b @ [Not x])"
  "marked_in ns ps b \<Longrightarrow> marked_in ns (insert x ps) (b @ [x])"
  by (auto simp: marked_in_def)

lemma nflat_and_loop_holds:
  assumes "marked_in ns ps buffer"
  shows "(\<forall>e. nflat_and_loop s buffer ns ps args = Inl e \<longrightarrow>
            e = FalseE \<and> \<not> (\<forall>a \<in> set (buffer @ args). holds I a))
       \<and> (\<forall>s' b. nflat_and_loop s buffer ns ps args = Inr (s', b) \<longrightarrow>
            set b \<subseteq> set (buffer @ args)
            \<and> (\<forall>a \<in> set b. holds I a) = (\<forall>a \<in> set (buffer @ args). holds I a))"
  using assms
proof (induction args arbitrary: s buffer ns ps)
  case (Cons arg args)
  show ?case
  proof (cases "is_not arg")
    case True
    then obtain x where x: "arg = Not x" by (rule is_notE)
    have clash: "\<not> (\<forall>a \<in> set (buffer @ arg # args). holds I a)" if "x \<in> ps"
      using that Cons.prems x by (auto simp: marked_in_def)
    show ?thesis
    proof (cases "x \<in> ns")
      case True
      then have eq: "set (buffer @ arg # args) = set (buffer @ args)"
        using Cons.prems x by (auto simp: marked_in_def)
      show ?thesis unfolding eq using Cons.IH [OF Cons.prems, of True] True x by simp
    next
      case False
      then show ?thesis
        using clash Cons.IH [OF marked_in_intros(2) [OF Cons.prems, of x], of s] x by auto
    qed
  next
    case False
    have "\<not> (\<forall>a \<in> set (buffer @ arg # args). holds I a)" if "arg \<in> ns"
      using that Cons.prems by (force simp: marked_in_def)
    moreover have "(\<forall>a \<in> set (buffer @ arg # args). holds I a) = (\<forall>a \<in> set (buffer @ args). holds I a)"
      if "arg \<in> ps \<or> arg = TrueE" using that Cons.prems by (auto simp: marked_in_def)
    ultimately show ?thesis
      using Cons.IH [OF Cons.prems, of True]
        Cons.IH [OF marked_in_intros(3) [OF Cons.prems, of arg], of s] False
      by (auto simp: case_Not_is_not)
  qed
qed simp

lemma mk_nflat_and_core_refines:
  assumes "mk_nflat_and_core args = Some (st, e)"
  shows "refines (And args) e"
proof (rule refines_bitI)
  assume bits: "is_bit (And args)"
  note loop = nflat_and_loop_holds [OF marked_in_intros(1), of False args]
  show "is_bit e \<and> (\<forall>I. holds I e = holds I (And args))"
  proof (cases "nflat_and_loop False [] {} {} args")
    case (Inl r)
    then show ?thesis using assms loop by (auto simp: mk_nflat_and_core_def)
  next
    case (Inr p)
    then obtain s b where b: "nflat_and_loop False [] {} {} args = Inr (s, b)" by (cases p) auto
    then have "\<forall>a \<in> set b. is_bit a" and
      h: "\<And>I. (\<forall>a \<in> set b. holds I a) = (\<forall>a \<in> set args. holds I a)"
      using loop bits unfolding is_bit_simps by (auto dest!: subsetD)
    moreover have "b = [] \<and> e = TrueE \<or> b = [e] \<or> e = And b"
      using assms b by (auto simp: mk_nflat_and_core_def split: list.splits if_splits)
    ultimately have "is_bit e" "\<And>I. holds I e = (\<forall>a \<in> set b. holds I a)" by auto
    then show ?thesis using h by simp
  qed
qed simp

lemma ball_concat_map:
  "(\<forall>x \<in> set (concat (map f xs)). P x) = (\<forall>a \<in> set xs. \<forall>x \<in> set (f a). P x)"
  by auto

lemma mk_flat_and_core_refines:
  assumes "mk_flat_and_core args = Some (st, e)"
  shows "refines (And args) e"
proof (cases "\<exists>a \<in> set args. is_and a")
  case True
  let ?p = "\<lambda>a. \<not> is_and a"
  define flat where "flat = takeWhile ?p args
      @ concat (map (\<lambda>a. if is_and a then get_args a else [a]) (dropWhile ?p args))"
  have and1: "is_bit a \<longleftrightarrow> (\<forall>x \<in> set (if is_and a then get_args a else [a]). is_bit x)"
    "holds I a \<longleftrightarrow> (\<forall>x \<in> set (if is_and a then get_args a else [a]). holds I x)" for a I
    by (cases a; simp)+
  have all: "(\<forall>a \<in> set args. P a) \<longleftrightarrow> (\<forall>a \<in> set (takeWhile ?p args). P a) \<and> (\<forall>a \<in> set (dropWhile ?p args). P a)"
    for P using set_append [of "takeWhile ?p args" "dropWhile ?p args"] by auto
  have "is_bit (And flat) = is_bit (And args)" "holds I (And flat) = holds I (And args)" for I
    unfolding flat_def is_bit_simps holds_simps all [of is_bit] all [of "holds I"]
    by (simp_all only: set_append ball_Un ball_concat_map and1 [symmetric])
  then have "refines (And args) (And flat)" by (intro refines_bitI) auto
  also have "refines \<dots> e"
    using assms True mk_nflat_and_core_refines [of flat]
    by (cases "mk_nflat_and_core flat") (auto simp: mk_flat_and_core_def flat_def)
  finally show ?thesis .
qed (use assms mk_nflat_and_core_refines in \<open>auto simp: mk_flat_and_core_def\<close>)

subsection \<open>Meaning of disjunctions\<close>

lemma nflat_or_loop_holds:
  assumes "marked_in ns ps buffer"
  shows "(\<forall>e. nflat_or_loop m s buffer ns ps prev args = Inl e \<longrightarrow>
            e = TrueE \<and> (\<exists>a \<in> set (buffer @ args). holds I a))
       \<and> (\<forall>s' b. nflat_or_loop m s buffer ns ps prev args = Inr (s', b) \<longrightarrow>
            set b \<subseteq> set (buffer @ args)
            \<and> (\<exists>a \<in> set b. holds I a) = (\<exists>a \<in> set (buffer @ args). holds I a))"
  using assms
proof (induction args arbitrary: s buffer ns ps prev)
  case (Cons arg args)
  define s1 where "s1 = (s \<or> (case prev of None \<Rightarrow> False | Some p \<Rightarrow> struct_lt m arg p))"
  show ?case
  proof (cases "is_not arg")
    case True
    then obtain x where x: "arg = Not x" by (rule is_notE)
    have clash: "\<exists>a \<in> set (buffer @ arg # args). holds I a" if "x \<in> ps"
      using that Cons.prems x by (auto simp: marked_in_def)
    show ?thesis
    proof (cases "x \<in> ns")
      case True
      then have eq: "set (buffer @ arg # args) = set (buffer @ args)"
        using Cons.prems x by (auto simp: marked_in_def)
      show ?thesis unfolding eq using Cons.IH [OF Cons.prems, of True] True x by simp
    next
      case False
      then show ?thesis
        using clash Cons.IH [OF marked_in_intros(2) [OF Cons.prems, of x], of s1 "Some arg"] x
        by (auto simp: s1_def Let_def)
    qed
  next
    case False
    have clash: "\<exists>a \<in> set (buffer @ arg # args). holds I a" if "arg \<in> ns"
      using that Cons.prems
      by (cases "holds I arg") (auto simp: marked_in_def intro: bexI [of _ "Not arg"])
    show ?thesis
    proof (cases "arg \<in> ps \<and> arg \<noteq> TrueE")
      case True
      then have eq: "set (buffer @ arg # args) = set (buffer @ args)"
        using Cons.prems by (auto simp: marked_in_def)
      show ?thesis unfolding eq using Cons.IH [OF Cons.prems, of True] True False
        by (auto simp: case_Not_is_not Let_def)
    next
      case new: False
      then show ?thesis
        using clash Cons.IH [OF Cons.prems, of True prev]
          Cons.IH [OF marked_in_intros(3) [OF Cons.prems, of arg], of s1 "Some arg"] False
        by (auto simp: case_Not_is_not s1_def Let_def)
    qed
  qed
qed simp

text \<open>A rewriter step that returns a result and leaves all but the cost counter alone.\<close>

definition or_result :: "bool_rewriter \<Rightarrow> expr \<Rightarrow> br_result \<times> bool_rewriter \<Rightarrow> bool" where
  "or_result rw e r \<longleftrightarrow>
     cost_step rw (snd r) \<and> (\<forall>st e'. fst r = Some (st, e') \<longrightarrow> refines e e')"

lemma or_resultI:
  "cost_step rw rw' \<Longrightarrow> (\<And>st e'. r = Some (st, e') \<Longrightarrow> refines e e') \<Longrightarrow> or_result rw e (r, rw')"
  by (simp add: or_result_def)

lemma refines_Or_set:
  assumes "set b \<subseteq> set args" "\<And>I. (\<exists>a \<in> set b. holds I a) = (\<exists>a \<in> set args. holds I a)"
    and "(\<forall>a \<in> set b. is_bit a) \<longrightarrow> is_bit e \<and> (\<forall>I. holds I e = (\<exists>a \<in> set b. holds I a))"
  shows "refines (Or args) e"
proof (rule refines_bitI)
  assume "is_bit (Or args)"
  then have "\<forall>a \<in> set b. is_bit a" using assms(1) by auto
  then show "is_bit e \<and> (\<forall>I. holds I e = holds I (Or args))" using assms(2,3) by simp
qed simp

lemma mk_nflat_or_core_refines: "or_result rw (Or args) (mk_nflat_or_core m rw args)"
proof -
  note loop = nflat_or_loop_holds [OF marked_in_intros(1), of m False None args]
  show ?thesis
  proof (cases "nflat_or_loop m False [] {} {} None args")
    case (Inl r)
    then have "refines (Or args) r" using loop by (intro refines_bitI) auto
    then show ?thesis using Inl by (auto simp: mk_nflat_or_core_def intro: or_resultI)
  next
    case (Inr p)
    then obtain s b where b: "nflat_or_loop m False [] {} {} None args = Inr (s, b)" by (cases p) auto
    then have sub: "set b \<subseteq> set args" "(\<exists>a \<in> set b. holds I a) = (\<exists>a \<in> set args. holds I a)" for I
      using loop by auto
    note to_b = refines_Or_set [OF sub]
    obtain t rw1 where t: "(if m_local_ctx rw \<and> m_local_ctx_cost rw \<le> m_local_ctx_limit rw
        then local_ctx_simp rw b else (None, rw)) = (t, rw1)" by force
    then have rw1: "cost_step rw rw1"
      by (auto split: if_splits dest: local_ctx_simp_cost)
    have "refines (Or args) (Or b)" by (rule to_b) auto
    then have t_ref: "refines (Or args) e" if "t = Some e" for e
      using t that refines_trans local_ctx_simp_refines [of rw b e rw1] by (auto split: if_splits)
    have s_ref: "refines (Or args) (Or (std_sort (ast_lt m) b))" by (rule to_b) auto
    have one: "refines (Or args) a" if "b = [a]" for a by (rule to_b) (use that in auto)
    have none: "refines (Or args) FalseE" if "b = []" by (rule to_b) (use that in auto)
    show ?thesis
    proof (cases "length b \<le> 1")
      case True
      then show ?thesis using b one none
        by (cases b) (auto simp: mk_nflat_or_core_def intro: or_resultI)
    next
      case False
      then have "mk_nflat_or_core m rw args = (case t of
            Some result \<Rightarrow> (Some (BR_DONE, result), rw1)
          | None \<Rightarrow> (if s then Some (BR_DONE, Or (std_sort (ast_lt m) b)) else None, rw1))"
        using b t by (cases b; cases "tl b") (auto simp: mk_nflat_or_core_def)
      then show ?thesis
        using rw1 t_ref s_ref by (cases t) (auto intro!: or_resultI split: if_splits)
    qed
  qed
qed

lemma flat_or_loop_args:
  "snd (flat_or_loop m ordered prev flat args)
     = flat @ concat (map (\<lambda>a. if is_or a then get_args a else [a]) args)"
  by (induction m ordered prev flat args rule: flat_or_loop.induct) auto

text \<open>A nested disjunction comes first after the prefix, so the result is always sorted.\<close>

lemma flat_or_loop_ordered: "flat_or_loop m False prev flat args = (ord, flat') \<Longrightarrow> \<not> ord"
  by (induction m False prev flat args rule: flat_or_loop.induct) (auto split: if_splits)

lemma bex_concat_map:
  "(\<exists>x \<in> set (concat (map f xs)). P x) = (\<exists>a \<in> set xs. \<exists>x \<in> set (f a). P x)"
  by auto

lemma refines_flat_or:
  fixes args
  defines "p \<equiv> \<lambda>a. \<not> is_or a"
  shows "refines (Or args) (Or (takeWhile p args
      @ concat (map (\<lambda>a. if is_or a then get_args a else [a]) (dropWhile p args))))"
    (is "refines _ (Or ?flat)")
proof -
  have or1: "is_bit a \<longleftrightarrow> (\<forall>x \<in> set (if is_or a then get_args a else [a]). is_bit x)"
    "holds I a \<longleftrightarrow> (\<exists>x \<in> set (if is_or a then get_args a else [a]). holds I x)" for a I
    by (cases a; simp)+
  have set_eq: "set args = set (takeWhile p args) \<union> set (dropWhile p args)"
    using set_append [of "takeWhile p args" "dropWhile p args"] by simp
  have all: "(\<forall>a \<in> set args. P a) \<longleftrightarrow> (\<forall>a \<in> set (takeWhile p args). P a) \<and> (\<forall>a \<in> set (dropWhile p args). P a)"
    "(\<exists>a \<in> set args. P a) \<longleftrightarrow> (\<exists>a \<in> set (takeWhile p args). P a) \<or> (\<exists>a \<in> set (dropWhile p args). P a)"
    for P unfolding set_eq by blast+
  have "is_bit (Or ?flat) = is_bit (Or args)" "holds I (Or ?flat) = holds I (Or args)" for I
    unfolding is_bit_simps holds_simps all(1) [of is_bit] all(2) [of "holds I"]
    by (simp_all only: set_append ball_Un bex_Un ball_concat_map bex_concat_map or1 [symmetric])
  then show ?thesis by (intro refines_bitI) auto
qed

lemma refines_mk_or_app: "set b = set args \<Longrightarrow> refines (Or args) (mk_or_app b)"
  by (rule refines_bitI) (simp_all add: mk_or_app_bit mk_or_app_holds)

lemma mk_flat_or_core_refines: "or_result rw (Or args) (mk_flat_or_core m rw args)"
proof (cases "\<exists>a \<in> set args. is_or a")
  case True
  let ?p = "\<lambda>a. \<not> is_or a"
  obtain ord flat where f: "flat_or_loop m True None (takeWhile ?p args) (dropWhile ?p args) = (ord, flat)"
    by force
  then have flat: "refines (Or args) (Or flat)"
    using refines_flat_or [of args] flat_or_loop_args [of m True None "takeWhile ?p args" "dropWhile ?p args"]
    by simp
  obtain r rw1 where r: "mk_nflat_or_core m rw flat = (r, rw1)" by force
  have r1: "cost_step rw rw1" "r = Some (st, e) \<Longrightarrow> refines (Or flat) e" for st e
    using mk_nflat_or_core_refines [of rw flat m] r by (auto simp: or_result_def)
  have "refines (Or flat) (mk_or_app (if ord then flat else std_sort (ast_lt m) flat))"
    by (rule refines_mk_or_app) simp
  then show ?thesis
    using True f r r1 flat refines_trans [OF flat]
    by (cases r) (auto simp: mk_flat_or_core_def intro!: or_resultI)
qed (use mk_nflat_or_core_refines in \<open>auto simp: mk_flat_or_core_def\<close>)

lemma mk_or_core_refines: "or_result rw (Or args) (mk_or_core m rw args)"
  by (simp add: mk_or_core_def mk_flat_or_core_refines mk_nflat_or_core_refines)

lemma mk_or_refines [refines_rules]: "refines (Or args) (fst (mk_or m rw args))"
  using mk_or_core_refines [of rw args m]
  by (cases "fst (mk_or_core m rw args)") (auto simp: mk_or_def or_result_def split_beta)

lemma mk_or_cost: "cost_step rw (snd (mk_or m rw args))"
  using mk_or_core_refines [of rw args m] by (simp add: mk_or_def or_result_def split_beta)

text \<open>The meaning of the operations on bits, for every state.\<close>

lemma mk_or_bit [simp]: "\<forall>a \<in> set args. is_bit a \<Longrightarrow> is_bit (fst (mk_or m rw args))"
  using refines_bit [OF mk_or_refines] by simp

lemma mk_or_holds [simp]:
  "\<forall>a \<in> set args. is_bit a \<Longrightarrow> holds I (fst (mk_or m rw args)) \<longleftrightarrow> (\<exists>a \<in> set args. holds I a)"
  using refines_holds [OF mk_or_refines] by simp

lemma mk_and_as_or_refines: "refines (And args) (fst (mk_and_as_or m rw args))"
  by (rule refines_bitI) (auto simp: mk_and_as_or_def split_beta Let_def)

lemma mk_and_as_or_cost: "cost_step rw (snd (mk_and_as_or m rw args))"
  by (simp add: mk_and_as_or_def split_beta Let_def mk_or_cost)

lemma mk_and_core_refines: "or_result rw (And args) (mk_and_core m rw args)"
  unfolding mk_and_core_def split_beta
  by (auto intro!: or_resultI mk_and_as_or_refines mk_and_as_or_cost
      dest: mk_flat_and_core_refines mk_nflat_and_core_refines)

lemma mk_and_refines [refines_rules]: "refines (And args) (fst (mk_and m rw args))"
  using mk_and_core_refines [of rw args m]
  by (cases "fst (mk_and_core m rw args)") (auto simp: mk_and_def or_result_def split_beta)

lemma mk_and_cost: "cost_step rw (snd (mk_and m rw args))"
  using mk_and_core_refines [of rw args m] by (simp add: mk_and_def or_result_def split_beta)

lemma mk_and_bit [simp]: "\<forall>a \<in> set args. is_bit a \<Longrightarrow> is_bit (fst (mk_and m rw args))"
  using refines_bit [OF mk_and_refines] by simp

lemma mk_and_holds [simp]:
  "\<forall>a \<in> set args. is_bit a \<Longrightarrow> holds I (fst (mk_and m rw args)) \<longleftrightarrow> (\<forall>a \<in> set args. holds I a)"
  using refines_holds [OF mk_and_refines] by simp

subsection \<open>Meaning of the derived connectives\<close>

lemmas derived_defs = mk_implies_def mk_nand_def mk_nor_def mk_nand2_def mk_nor2_def mk_ge2_def

lemma mk_implies_refines [refines_rules]: "refines (Implies a b) (fst (mk_implies m rw a b))"
  by (rule refines_bitI) (auto simp: derived_defs Let_def)

lemma mk_nand_bits [simp]:
  assumes "\<forall>a \<in> set args. is_bit a"
  shows "is_bit (fst (mk_nand m rw args))"
    and "holds I (fst (mk_nand m rw args)) \<longleftrightarrow> \<not> (\<forall>a \<in> set args. holds I a)"
  using assms by (simp_all add: derived_defs split_beta Let_def)

lemma mk_nor_bits [simp]:
  assumes "\<forall>a \<in> set args. is_bit a"
  shows "is_bit (fst (mk_nor m rw args))"
    and "holds I (fst (mk_nor m rw args)) \<longleftrightarrow> \<not> (\<exists>a \<in> set args. holds I a)"
  using assms by (simp_all add: derived_defs split_beta Let_def)

lemma mk_nand2_bits [simp]:
  assumes "is_bit a" "is_bit b"
  shows "is_bit (fst (mk_nand2 m rw a b))"
    and "holds I (fst (mk_nand2 m rw a b)) \<longleftrightarrow> \<not> (holds I a \<and> holds I b)"
  using assms by (simp_all add: derived_defs split_beta Let_def)

lemma mk_nor2_bits [simp]:
  assumes "is_bit a" "is_bit b"
  shows "is_bit (fst (mk_nor2 m rw a b))"
    and "holds I (fst (mk_nor2 m rw a b)) \<longleftrightarrow> \<not> (holds I a \<or> holds I b)"
  using assms by (simp_all add: derived_defs split_beta Let_def)

lemma mk_ge2_bits [simp]:
  assumes "is_bit a" "is_bit b" "is_bit c"
  shows "is_bit (fst (mk_ge2 m rw a b c))"
    and "holds I (fst (mk_ge2 m rw a b c))
      \<longleftrightarrow> (holds I a \<and> holds I b) \<or> (holds I a \<and> holds I c) \<or> (holds I b \<and> holds I c)"
  using assms by (auto simp: derived_defs split_beta Let_def)

lemma derived_cost [simp]:
  "cost_step rw (snd (mk_implies m rw a b))"
  "cost_step rw (snd (mk_nand m rw args))" "cost_step rw (snd (mk_nor m rw args))"
  "cost_step rw (snd (mk_nand2 m rw a b))" "cost_step rw (snd (mk_nor2 m rw a b))"
  by (simp_all add: derived_defs split_beta Let_def mk_or_cost mk_and_cost)

lemma mk_ge2_cost [simp]: "cost_step rw (snd (mk_ge2 m rw a b c))"
  by (auto simp: mk_ge2_def split_beta Let_def mk_or_cost mk_and_cost
      intro: cost_step_trans [OF cost_step_trans [OF mk_and_cost mk_and_cost]
        cost_step_trans [OF mk_and_cost mk_or_cost]])

subsection \<open>Distinctness\<close>

text \<open>
  The inner loop compares \<open>arg\<close> with the arguments before it while all were found different;
  \<open>None\<close> is its early return of the constant false.
\<close>

fun distinct_inner :: "expr \<Rightarrow> expr list \<Rightarrow> bool option" where
  "distinct_inner arg [] = Some True"
| "distinct_inner arg (a # as) =
     (if are_distinct arg a then distinct_inner arg as
      else if are_equal arg a then None
      else Some False)"

fun distinct_loop ::
    "expr list \<Rightarrow> expr set \<Rightarrow> bool \<Rightarrow> bool \<Rightarrow> expr list \<Rightarrow> bool option" where
  "distinct_loop before visited all_value all_diff [] = Some all_diff"
| "distinct_loop before visited all_value all_diff (arg # args) =
     (if arg \<in> visited then None
      else
        let visited = insert arg visited;
            all_value = (all_value \<and> is_unique_value arg)
        in (case (if \<not> all_value \<and> all_diff then distinct_inner arg before else Some all_diff) of
              None \<Rightarrow> None
            | Some all_diff \<Rightarrow>
                distinct_loop (before @ [arg]) visited all_value all_diff args))"

fun diseqs :: "expr list \<Rightarrow> expr list" where
  "diseqs [] = []"
| "diseqs (a # as) = map (\<lambda>b. Not (Eq a b)) as @ diseqs as"

definition mk_distinct_core :: "bool_rewriter \<Rightarrow> expr list \<Rightarrow> br_result" where
  "mk_distinct_core rw args =
     (if length args \<le> 1 then Some (BR_DONE, TrueE)
      else if length args = 2 then Some (BR_REWRITE2, Not (Eq (args ! 0) (args ! 1)))
      else
        (case distinct_loop [] {} True True args of
           None \<Rightarrow> Some (BR_DONE, FalseE)
         | Some all_diff \<Rightarrow>
             if all_diff then Some (BR_DONE, TrueE)
             else if is_bool (hd args) then Some (BR_DONE, FalseE)
             else if m_blast_distinct rw \<and> of_nat (length args) < m_blast_distinct_threshold rw
             then Some (BR_REWRITE3, And (diseqs args))
             else None))"

definition mk_distinct :: "bool_rewriter \<Rightarrow> expr list \<Rightarrow> expr" where
  "mk_distinct rw args = or_else (mk_distinct_core rw args) (Distinct args)"

lemma value_eval_inject:
  "is_value a \<Longrightarrow> is_value b \<Longrightarrow> eval I a = eval I b \<longleftrightarrow> a = b"
  by (cases a; cases b) auto

lemma distinct_inner_None: "distinct_inner arg as = None \<Longrightarrow> arg \<in> set as"
  by (induction as) (auto simp: are_equal_def split: if_splits)

lemma distinct_inner_True:
  "distinct_inner arg as = Some True \<Longrightarrow> eval I arg \<notin> eval I ` set as"
  by (induction as) (auto simp: are_distinct_eval split: if_splits)

text \<open>
  The loop returns false only when an argument occurs twice, and says that all differ only when
  their values do.
\<close>

lemma distinct_loop_None:
  assumes "distinct_loop before visited all_value all_diff args = None"
    and "visited = set before"
  shows "\<not> distinct (map (eval I) (before @ args))"
  using assms
proof (induction before visited all_value all_diff args rule: distinct_loop.induct)
  case (2 before visited all_value all_diff arg args)
  show ?case
  proof (cases "arg \<in> set before")
    case False
    let ?r = "if \<not> (all_value \<and> is_unique_value arg) \<and> all_diff then distinct_inner arg before
        else Some all_diff"
    have "?r \<noteq> None"
      using distinct_inner_None [of arg before] False by (auto split: if_splits)
    then obtain d where d: "?r = Some d" by blast
    have loop: "distinct_loop (before @ [arg]) (insert arg visited) (all_value \<and> is_unique_value arg) d args = None"
      using 2(2) False 2(3) d by (simp add: Let_def)
    show ?thesis
      using 2(1) [OF _ refl refl d loop] False 2(3) by simp
  qed auto
qed simp

lemma distinct_loop_True:
  assumes "distinct_loop before visited all_value all_diff args = Some True"
    and "visited = set before"
    and "all_diff \<longrightarrow> distinct (map (eval I) before)"
    and "all_value \<longrightarrow> (\<forall>a \<in> set before. is_value a)"
  shows "distinct (map (eval I) (before @ args))"
  using assms
proof (induction before visited all_value all_diff args rule: distinct_loop.induct)
  case (2 before visited all_value all_diff arg args)
  have new: "arg \<notin> visited" using 2(2) by (auto split: if_splits)
  let ?v = "all_value \<and> is_unique_value arg"
  obtain d where d: "(if \<not> ?v \<and> all_diff then distinct_inner arg before else Some all_diff) = Some d"
    and loop: "distinct_loop (before @ [arg]) (insert arg visited) ?v d args = Some True"
    using 2(2) new by (auto simp: Let_def split: option.splits)
  have "eval I arg \<notin> eval I ` set before" if d
  proof (cases ?v)
    case True
    then show ?thesis
      using 2(3,5) new value_eval_inject [of arg _ I] by (auto simp: is_unique_value_def)
  next
    case False
    then show ?thesis using d that distinct_inner_True by (auto split: if_splits)
  qed
  moreover have "d \<longrightarrow> all_diff" using d by (auto split: if_splits)
  ultimately show ?case
    using 2(1) [OF new refl refl d loop] 2(3-5) by (auto simp: is_unique_value_def)
qed simp

lemma diseqs_holds: "(\<forall>d \<in> set (diseqs as). holds I d) \<longleftrightarrow> distinct (map (eval I) as)"
  by (induction as) (auto simp: ball_Un)

lemma diseqs_bits:
  "\<forall>a \<in> set as. sort_ok a \<and> get_sort a = s \<Longrightarrow> \<forall>d \<in> set (diseqs as). is_bit d"
  by (induction as) (auto simp: is_bit_def is_bool_def)

lemma three_bools: "length as > 2 \<Longrightarrow> \<forall>a \<in> set as. is_bit a \<Longrightarrow> \<not> distinct (map (eval I) as)"
proof
  assume len: "length as > 2" and bits: "\<forall>a \<in> set as. is_bit a" and d: "distinct (map (eval I) as)"
  have "set (map (eval I) as) \<subseteq> {VBool True, VBool False}"
    using bits eval_holds by auto
  then have "card (set (map (eval I) as)) \<le> card {VBool True, VBool False}"
    by (intro card_mono) auto
  then show False using len distinct_card [OF d] by simp
qed

lemma mk_distinct_core_refines:
  assumes "mk_distinct_core rw args = Some (st, e)"
  shows "refines (Distinct args) e"
proof (rule refines_bitI)
  assume ok: "is_bit (Distinct args)"
  then have sorts: "\<forall>a \<in> set args. sort_ok a \<and> get_sort a = get_sort (hd args)"
    by (simp add: is_bit_def)
  have h: "holds I (Distinct args) \<longleftrightarrow> distinct (map (eval I) args)" for I
    by (simp add: holds_def)
  consider "length args \<le> 1" "e = TrueE"
    | "length args = 2" "e = Not (Eq (args ! 0) (args ! 1))"
    | "distinct_loop [] {} True True args = None" "e = FalseE"
    | "distinct_loop [] {} True True args = Some True" "e = TrueE"
    | "length args > 2" "is_bool (hd args)" "e = FalseE"
    | "e = And (diseqs args)"
    using assms by (auto simp: mk_distinct_core_def split: if_splits option.splits)
  then show "is_bit e \<and> (\<forall>I. holds I e = holds I (Distinct args))"
  proof cases
    case 1
    then show ?thesis unfolding h by (cases args) auto
  next
    case 2
    then obtain a b where "args = [a, b]"
      by (cases args; cases "tl args") auto
    then show ?thesis unfolding h using 2 sorts by (auto simp: is_bit_def is_bool_def)
  next
    case 3
    then show ?thesis using distinct_loop_None [OF 3(1)] by (simp add: h)
  next
    case 4
    then show ?thesis using distinct_loop_True [OF 4(1)] by (simp add: h)
  next
    case 5
    then show ?thesis
      using three_bools [OF 5(1)] sorts by (auto simp: h is_bit_def is_bool_def)
  next
    case 6
    then show ?thesis using diseqs_bits [OF sorts] by (simp add: h diseqs_holds)
  qed
qed simp

lemma mk_distinct_refines [refines_rules]: "refines (Distinct args) (mk_distinct rw args)"
  by (cases "mk_distinct_core rw args")
    (auto simp: mk_distinct_def dest: mk_distinct_core_refines)

subsection \<open>Conditionals\<close>

text \<open>
  \<open>mk_ite_core\<close> in the parts of the source: the removal of a negated condition and of a nested
  conditional on the same condition, the rules for Boolean conditionals, and the rules that
  \<open>ite_extra_rules\<close> turns on, for a conditional in the then branch and in the else branch.
\<close>

definition ite_same_cond :: "expr \<Rightarrow> expr \<Rightarrow> bool" where
  "ite_same_cond c t = (is_ite t \<and> hd (get_args t) = c)"

abbreviation ite_cond :: "expr \<Rightarrow> expr" where "ite_cond e \<equiv> get_args e ! 0"
abbreviation ite_then :: "expr \<Rightarrow> expr" where "ite_then e \<equiv> get_args e ! 1"
abbreviation ite_else :: "expr \<Rightarrow> expr" where "ite_else e \<equiv> get_args e ! 2"

definition mk_ite_bool ::
    "ast_manager \<Rightarrow> bool_rewriter \<Rightarrow> expr \<Rightarrow> expr \<Rightarrow> expr \<Rightarrow> br_result \<times> bool_rewriter" where
  "mk_ite_bool m rw c t e =
     (if t = TrueE \<and> e = FalseE then (Some (BR_DONE, c), rw)
      else if t = TrueE \<and> m_elim_ite rw then
        (case mk_or m rw [c, e] of (r, rw) \<Rightarrow> (Some (BR_DONE, r), rw))
      else if t = FalseE \<and> e = TrueE then (Some (BR_DONE, mk_not rw c), rw)
      else if t = FalseE \<and> m_elim_ite rw then
        (let tmp = mk_not rw c
         in case mk_and m rw [tmp, e] of (r, rw) \<Rightarrow> (Some (BR_REWRITE1, r), rw))
      else if e = TrueE \<and> m_elim_ite rw then
        (let tmp = mk_not rw c
         in case mk_or m rw [tmp, t] of (r, rw) \<Rightarrow> (Some (BR_DONE, r), rw))
      else if e = FalseE \<and> m_elim_ite rw then
        (case mk_and m rw [c, t] of (r, rw) \<Rightarrow> (Some (BR_REWRITE1, r), rw))
      else if c = e \<and> m_elim_ite rw then
        (case mk_and m rw [c, t] of (r, rw) \<Rightarrow> (Some (BR_REWRITE1, r), rw))
      else if c = t \<and> m_elim_ite rw then
        (case mk_or m rw [c, e] of (r, rw) \<Rightarrow> (Some (BR_DONE, r), rw))
      else if is_complement_core t e \<and> m_elim_ite rw then (Some (BR_DONE, mk_eq rw c t), rw)
      else if is_complement_core e t \<and> m_elim_ite rw then (Some (BR_DONE, mk_eq rw c t), rw)
      else (None, rw))"

definition mk_ite_extra_then ::
    "ast_manager \<Rightarrow> bool_rewriter \<Rightarrow> expr \<Rightarrow> expr \<Rightarrow> expr \<Rightarrow> br_result \<times> bool_rewriter" where
  "mk_ite_extra_then m rw c t e =
     (if e = ite_then t then
        (let not_c2 = mk_not rw (ite_cond t);
             (new_c, rw) = mk_and m rw [c, not_c2]
         in (Some (BR_REWRITE2, Ite new_c (ite_else t) e), rw))
      else if e = ite_else t then
        (let (new_c, rw) = mk_and m rw [c, ite_cond t]
         in (Some (BR_REWRITE2, Ite new_c (ite_then t) e), rw))
      else if is_ite e \<and> ite_then t = ite_then e \<and> ite_else t = ite_else e then
        (let (and1, rw) = mk_and m rw [c, ite_cond t];
             notc = mk_not rw c;
             (and2, rw) = mk_and m rw [notc, ite_cond e];
             (new_c, rw) = mk_or m rw [and1, and2]
         in (Some (BR_REWRITE3, Ite new_c (ite_then t) (ite_else t)), rw))
      else if is_ite e \<and> ite_then t = ite_else e \<and> ite_else t = ite_then e then
        (let (and1, rw) = mk_and m rw [c, ite_cond t];
             notc = mk_not rw c;
             notc3 = mk_not rw (ite_cond e);
             (and2, rw) = mk_and m rw [notc, notc3];
             (new_c, rw) = mk_or m rw [and1, and2]
         in (Some (BR_REWRITE3, Ite new_c (ite_then t) (ite_else t)), rw))
      else (None, rw))"

definition mk_ite_extra_else ::
    "ast_manager \<Rightarrow> bool_rewriter \<Rightarrow> expr \<Rightarrow> expr \<Rightarrow> expr \<Rightarrow> br_result \<times> bool_rewriter" where
  "mk_ite_extra_else m rw c t e =
     (if t = ite_then e then
        (let (new_c, rw) = mk_or m rw [c, ite_cond e]
         in (Some (BR_REWRITE1, Ite new_c t (ite_else e)), rw))
      else if t = ite_else e then
        (let not_c2 = mk_not rw (ite_cond e);
             (new_c, rw) = mk_or m rw [c, not_c2]
         in (Some (BR_REWRITE1, Ite new_c t (ite_then e)), rw))
      else (None, rw))"

definition mk_ite_rules ::
    "ast_manager \<Rightarrow> bool_rewriter \<Rightarrow> expr \<Rightarrow> expr \<Rightarrow> expr \<Rightarrow> bool \<Rightarrow> br_result \<times> bool_rewriter" where
  "mk_ite_rules m rw c t e s =
     (case (if is_bool t then mk_ite_bool m rw c t e else (None, rw)) of
        (Some r, rw) \<Rightarrow> (Some r, rw)
      | (None, rw) \<Rightarrow>
          (case (if is_ite t \<and> m_ite_extra_rules rw \<and> m_elim_ite rw
                 then mk_ite_extra_then m rw c t e else (None, rw)) of
             (Some r, rw) \<Rightarrow> (Some r, rw)
           | (None, rw) \<Rightarrow>
               (case (if is_ite e \<and> m_ite_extra_rules rw \<and> m_elim_ite rw
                      then mk_ite_extra_else m rw c t e else (None, rw)) of
                  (Some r, rw) \<Rightarrow> (Some r, rw)
                | (None, rw) \<Rightarrow> (if s then Some (BR_DONE, Ite c t e) else None, rw))))"

definition mk_ite_core ::
    "ast_manager \<Rightarrow> bool_rewriter \<Rightarrow> expr \<Rightarrow> expr \<Rightarrow> expr \<Rightarrow> br_result \<times> bool_rewriter" where
  "mk_ite_core m rw c t e =
     (let (c, t, e, s) = (if is_not c then (hd (get_args c), e, t, True) else (c, t, e, False));
          (t, s) = (if ite_same_cond c t then (ite_then t, True) else (t, s))
      in if is_ite e \<and> ite_then e = t then
           (Some (BR_REWRITE3, Ite (Or [c, ite_cond e]) t (ite_else e)), rw)
         else
           let (e, s) = (if ite_same_cond c e then (ite_else e, True) else (e, s))
           in if c = TrueE then (Some (BR_DONE, t), rw)
              else if c = FalseE then (Some (BR_DONE, e), rw)
              else if t = e then (Some (BR_DONE, t), rw)
              else mk_ite_rules m rw c t e s)"

definition mk_ite ::
    "ast_manager \<Rightarrow> bool_rewriter \<Rightarrow> expr \<Rightarrow> expr \<Rightarrow> expr \<Rightarrow> expr \<times> bool_rewriter" where
  "mk_ite m rw c t e = (case mk_ite_core m rw c t e of (r, rw) \<Rightarrow> (or_else r (Ite c t e), rw))"

subsection \<open>Meaning of conditionals\<close>

lemma is_iteE:
  assumes "is_ite e"
  obtains c a b where "e = Ite c a b" "hd (get_args e) = c"
    "ite_cond e = c" "ite_then e = a" "ite_else e = b"
  using assms by (cases e) auto

lemma or_result_simps [simp]:
  "or_result rw e (Some (st, e'), rw') \<longleftrightarrow> cost_step rw rw' \<and> refines e e'"
  "or_result rw e (None, rw') \<longleftrightarrow> cost_step rw rw'"
  by (auto simp: or_result_def)

lemma or_result_if:
  "(b \<Longrightarrow> or_result rw e x) \<Longrightarrow> (\<not> b \<Longrightarrow> or_result rw e y) \<Longrightarrow> or_result rw e (if b then x else y)"
  by simp

text \<open>The bits under a conditional of conditionals of any sort.\<close>

lemma sort_ok_IteD:
  "sort_ok (Ite c t e) \<Longrightarrow>
     is_bit c \<and> sort_ok t \<and> sort_ok e \<and> get_sort e = get_sort t"
  by (simp add: is_bit_def)

lemma sort_ok_IteI:
  "is_bit c \<Longrightarrow> sort_ok t \<Longrightarrow> sort_ok e \<Longrightarrow> get_sort t = get_sort e \<Longrightarrow> sort_ok (Ite c t e)"
  by (simp add: is_bit_def)

lemma eval_Ite: "eval I (Ite c t e) = (if holds I c then eval I t else eval I e)"
  by (simp add: holds_def)

lemma refines_IteI:
  assumes "is_bit c \<Longrightarrow> sort_ok t \<Longrightarrow> sort_ok e \<Longrightarrow> get_sort e = get_sort t \<Longrightarrow>
      sort_ok r \<and> get_sort r = get_sort t
      \<and> (\<forall>I. eval I r = (if holds I c then eval I t else eval I e))"
  shows "refines (Ite c t e) r"
  unfolding refines_def
proof
  assume "sort_ok (Ite c t e)"
  from sort_ok_IteD [OF this] have "sort_ok r \<and> get_sort r = get_sort t
      \<and> (\<forall>I. eval I r = (if holds I c then eval I t else eval I e))" using assms by blast
  then show "sort_ok r \<and> get_sort r = get_sort (Ite c t e) \<and> (\<forall>I. eval I r = eval I (Ite c t e))"
    unfolding eval_Ite by simp
qed

lemma refines_Ite_Ite:
  assumes "is_bit c \<Longrightarrow> sort_ok t \<Longrightarrow> sort_ok e \<Longrightarrow> get_sort e = get_sort t \<Longrightarrow>
      is_bit c' \<and> sort_ok t' \<and> sort_ok e' \<and> get_sort t' = get_sort t \<and> get_sort e' = get_sort t
      \<and> (\<forall>I. (if holds I c' then eval I t' else eval I e') = (if holds I c then eval I t else eval I e))"
  shows "refines (Ite c t e) (Ite c' t' e')"
proof (rule refines_IteI)
  assume "is_bit c" "sort_ok t" "sort_ok e" "get_sort e = get_sort t"
  from assms [OF this] show "sort_ok (Ite c' t' e') \<and> get_sort (Ite c' t' e') = get_sort t \<and>
      (\<forall>I. eval I (Ite c' t' e') = (if holds I c then eval I t else eval I e))"
    unfolding eval_Ite using sort_ok_IteI [of c' t' e'] by auto
qed

lemma mk_ite_bool_refines:
  assumes "is_bool t"
  shows "or_result rw (Ite c t e) (mk_ite_bool m rw c t e)"
proof -
  have eq: "or_result rw (Ite c t e) (Some (st, r), rw')"
    if "is_bit c \<Longrightarrow> is_bit t \<Longrightarrow> is_bit e \<Longrightarrow>
      is_bit r \<and> (\<forall>I. holds I r = (if holds I c then holds I t else holds I e))"
      and "cost_step rw rw'" for st r rw'
  proof -
    have "refines (Ite c t e) r"
      by (rule refines_bitI) (use that(1) assms in \<open>auto simp: is_bool_def\<close>)
    then show ?thesis using that(2) by simp
  qed
  have none: "or_result rw (Ite c t e) (None, rw)" by simp
  show ?thesis
    unfolding mk_ite_bool_def split_beta Let_def
    by (intro or_result_if none eq) (auto simp: is_complement_core_def mk_or_cost mk_and_cost)
qed

lemma ite_parts:
  assumes "is_ite t"
  shows "sort_ok t \<Longrightarrow> is_bit (ite_cond t) \<and> sort_ok (ite_then t) \<and> sort_ok (ite_else t)
      \<and> get_sort (ite_then t) = get_sort t \<and> get_sort (ite_else t) = get_sort t"
    and "eval I t = (if holds I (ite_cond t) then eval I (ite_then t) else eval I (ite_else t))"
  using assms by (cases t; simp add: is_bit_def holds_def)+

text \<open>
  The shape of the extra rules: the result is a conditional whose condition is a bit and whose
  branches come from the branches of the given one.
\<close>

lemma or_result_Ite:
  assumes "is_bit c \<Longrightarrow> sort_ok t \<Longrightarrow> sort_ok e \<Longrightarrow> get_sort e = get_sort t \<Longrightarrow>
      is_bit c' \<and> sort_ok t' \<and> sort_ok e' \<and> get_sort t' = get_sort t \<and> get_sort e' = get_sort t
      \<and> (\<forall>I. (if holds I c' then eval I t' else eval I e') = (if holds I c then eval I t else eval I e))"
    and "cost_step rw rw'"
  shows "or_result rw (Ite c t e) (Some (st, Ite c' t' e'), rw')"
  using refines_Ite_Ite [of c t e c' t' e'] assms by simp

lemma or_result_None: "or_result rw e (None, rw)"
  by simp

lemma mk_ite_extra_then_refines:
  assumes "is_ite t"
  shows "or_result rw (Ite c t e) (mk_ite_extra_then m rw c t e)"
proof -
  note t = ite_parts [OF assms]
  note e = ite_parts [of e]
  note cost = cost_step_trans [OF cost_step_trans [OF mk_and_cost mk_and_cost] mk_or_cost]
  show ?thesis
    unfolding mk_ite_extra_then_def split_beta Let_def
    apply (intro or_result_if or_result_None or_result_Ite mk_or_cost mk_and_cost cost)
    subgoal using t by simp
    subgoal using t by simp
    subgoal using t e by simp
    subgoal using t e by simp
    done
qed

lemma mk_ite_extra_else_refines:
  assumes "is_ite e"
  shows "or_result rw (Ite c t e) (mk_ite_extra_else m rw c t e)"
  unfolding mk_ite_extra_else_def split_beta Let_def
  by (intro or_result_if or_result_None or_result_Ite mk_or_cost mk_and_cost;
      use ite_parts [OF assms] in simp)

lemma or_result_case:
  assumes "or_result rw e r1"
    and "\<And>rw1. cost_step rw rw1 \<Longrightarrow> or_result rw e (f rw1)"
  shows "or_result rw e (case r1 of (None, rw1) \<Rightarrow> f rw1 | (Some r, rw1) \<Rightarrow> (Some r, rw1))"
  using assms by (cases r1; cases "fst r1") (auto simp: or_result_def)

lemma or_result_trans: "cost_step rw rw1 \<Longrightarrow> or_result rw1 e r \<Longrightarrow> or_result rw e r"
  using cost_step_trans by (auto simp: or_result_def)

lemma mk_ite_rules_refines:
  assumes "s \<Longrightarrow> refines e0 (Ite c t e)" "\<not> s \<Longrightarrow> e0 = Ite c t e"
  shows "or_result rw e0 (mk_ite_rules m rw c t e s)"
proof -
  have "or_result rw (Ite c t e) (mk_ite_rules m rw c t e s)"
    unfolding mk_ite_rules_def
    by (intro or_result_case or_result_if or_result_None mk_ite_bool_refines)
      (auto intro: or_result_trans mk_ite_extra_then_refines mk_ite_extra_else_refines
        cost_step_trans)
  then show ?thesis
    using assms refines_trans by (cases s) (auto simp: or_result_def)
qed

text \<open>The three removals at the start, each with the flag that records it.\<close>

lemma ite_same_cond_refines:
  assumes "ite_same_cond c t"
  shows "refines (Ite c t e) (Ite c (ite_then t) e)" "refines (Ite c e t) (Ite c e (ite_else t))"
proof -
  have t: "is_ite t" "ite_cond t = c" using assms by (auto simp: ite_same_cond_def elim: is_iteE)
  show "refines (Ite c t e) (Ite c (ite_then t) e)" "refines (Ite c e t) (Ite c e (ite_else t))"
    by (rule refines_Ite_Ite; use ite_parts [OF t(1)] t(2) in simp)+
qed

lemma refines_Ite_const:
  "refines (Ite TrueE t e) t" "refines (Ite FalseE t e) e" "refines (Ite c t t) t"
  by (auto simp: refines_def)

lemma mk_ite_core_refines: "or_result rw (Ite c t e) (mk_ite_core m rw c t e)"
proof -
  obtain c1 t1 e1 s1 where 1: "(if is_not c then (hd (get_args c), e, t, True) else (c, t, e, False))
      = (c1, t1, e1, s1)" by (metis prod_cases4)
  obtain t2 s2 where 2: "(if ite_same_cond c1 t1 then (ite_then t1, True) else (t1, s1)) = (t2, s2)"
    by force
  obtain e3 s3 where 3: "(if ite_same_cond c1 e1 then (ite_else e1, True) else (e1, s2)) = (e3, s3)"
    by force
  have r1: "refines (Ite c t e) (Ite c1 t1 e1)"
  proof (cases "is_not c")
    case True
    then obtain x where "c = Not x" by (rule is_notE)
    then show ?thesis using 1 by (auto intro!: refines_Ite_Ite)
  qed (use 1 in simp)
  also have r2: "refines \<dots> (Ite c1 t2 e1)"
    using 2 ite_same_cond_refines(1) by (auto split: if_splits)
  finally have r12: "refines (Ite c t e) (Ite c1 t2 e1)" .
  have r3: "refines (Ite c t e) (Ite c1 t2 e3)"
    using 3 refines_trans [OF r12] ite_same_cond_refines(2) r12 by (auto split: if_splits)
  have nested: "refines (Ite c t e) (Ite (Or [c1, ite_cond e1]) t2 (ite_else e1))"
    if "is_ite e1" "ite_then e1 = t2"
  proof -
    have "refines (Ite c1 t2 e1) (Ite (Or [c1, ite_cond e1]) t2 (ite_else e1))"
      by (rule refines_Ite_Ite) (use ite_parts [OF that(1)] that(2) in simp)
    with r12 show ?thesis by (rule refines_trans)
  qed
  have leaf: "refines (Ite c t e) r" if "refines (Ite c1 t2 e3) r" for r
    using r3 that by (rule refines_trans)
  have same: "Ite c t e = Ite c1 t2 e3" if "\<not> s3"
    using 1 2 3 that by (auto split: if_splits)
  show ?thesis
    unfolding mk_ite_core_def 1 2 3 Let_def split
    apply (intro or_result_if)
    subgoal using nested by simp
    subgoal using leaf refines_Ite_const(1) by simp
    subgoal using leaf refines_Ite_const(2) by simp
    subgoal using leaf refines_Ite_const(3) by simp
    subgoal by (rule mk_ite_rules_refines) (use r3 same in auto)
    done
qed

lemma mk_ite_refines [refines_rules]: "refines (Ite c t e) (fst (mk_ite m rw c t e))"
  using mk_ite_core_refines [of rw c t e m]
  by (cases "fst (mk_ite_core m rw c t e)") (auto simp: mk_ite_def or_result_def split_beta)

lemma mk_ite_cost: "cost_step rw (snd (mk_ite m rw c t e))"
  using mk_ite_core_refines [of rw c t e m] by (simp add: mk_ite_def or_result_def split_beta)

lemma mk_ite_bit [simp]:
  "is_bit c \<Longrightarrow> is_bit t \<Longrightarrow> is_bit e \<Longrightarrow> is_bit (fst (mk_ite m rw c t e))"
  using refines_bit [OF mk_ite_refines] by simp

lemma mk_ite_holds [simp]:
  "is_bit c \<Longrightarrow> is_bit t \<Longrightarrow> is_bit e \<Longrightarrow>
     holds I (fst (mk_ite m rw c t e)) \<longleftrightarrow> (if holds I c then holds I t else holds I e)"
  using refines_holds [OF mk_ite_refines, of c t e I m rw] by simp

subsection \<open>\<open>mk_app_core\<close>\<close>

text \<open>The kinds of the basic family; the others (\<open>OP_TRUE\<close>, proofs, ...) are not rewritten.\<close>

datatype decl_kind =
  OP_EQ | OP_DISTINCT | OP_AND | OP_OR | OP_NOT | OP_ITE | OP_IMPLIES | OP_XOR | OP_OTHER

definition mk_app_core ::
    "ast_manager \<Rightarrow> bool_rewriter \<Rightarrow> decl_kind \<Rightarrow> expr list \<Rightarrow> br_result \<times> bool_rewriter" where
  "mk_app_core m rw f args =
     (case f of
        OP_EQ \<Rightarrow> (mk_eq_core rw (args ! 0) (args ! 1), rw)
      | OP_DISTINCT \<Rightarrow> (mk_distinct_core rw args, rw)
      | OP_AND \<Rightarrow> mk_and_core m rw args
      | OP_OR \<Rightarrow> mk_or_core m rw args
      | OP_NOT \<Rightarrow> (mk_not_core rw (args ! 0), rw)
      | OP_ITE \<Rightarrow> mk_ite_core m rw (args ! 0) (args ! 1) (args ! 2)
      | OP_IMPLIES \<Rightarrow>
          (case mk_implies m rw (args ! 0) (args ! 1) of (r, rw) \<Rightarrow> (Some (BR_DONE, r), rw))
      | OP_XOR \<Rightarrow>
          (case args of
             [] \<Rightarrow> (Some (BR_DONE, FalseE), rw)
           | [a] \<Rightarrow> (Some (BR_DONE, a), rw)
           | [a, b] \<Rightarrow> (Some (BR_DONE, mk_xor rw a b), rw)
           | _ \<Rightarrow> (None, rw))
      | OP_OTHER \<Rightarrow> (None, rw))"

text \<open>
  The application that the manager builds; \<open>None\<close> where it does not exist: a wrong number of
  arguments, and kinds outside the model.
\<close>

fun app_of :: "decl_kind \<Rightarrow> expr list \<Rightarrow> expr option" where
  "app_of OP_EQ [a, b] = Some (Eq a b)"
| "app_of OP_DISTINCT as = Some (Distinct as)"
| "app_of OP_AND as = Some (And as)"
| "app_of OP_OR as = Some (Or as)"
| "app_of OP_NOT [a] = Some (Not a)"
| "app_of OP_ITE [c, t, e] = Some (Ite c t e)"
| "app_of OP_IMPLIES [a, b] = Some (Implies a b)"
| "app_of OP_XOR [a, b] = Some (Xor a b)"
| "app_of f as = None"

definition mk_app ::
    "ast_manager \<Rightarrow> bool_rewriter \<Rightarrow> decl_kind \<Rightarrow> expr list \<Rightarrow> expr \<times> bool_rewriter" where
  "mk_app m rw f args =
     (case mk_app_core m rw f args of
        (Some (st, r), rw) \<Rightarrow> (r, rw)
      | (None, rw) \<Rightarrow> (the (app_of f args), rw))"

fun_cases app_of_SomeE: "app_of f as = Some e"

lemma or_result_pure:
  "(\<And>st e'. r = Some (st, e') \<Longrightarrow> refines e e') \<Longrightarrow> or_result rw e (r, rw)"
  by (simp add: or_resultI)

lemma mk_app_core_refines:
  assumes "app_of f args = Some e"
  shows "or_result rw e (mk_app_core m rw f args)"
  using assms
  by (cases rule: app_of_SomeE)
    (auto simp: mk_app_core_def split_beta
      intro: mk_and_core_refines mk_or_core_refines mk_ite_core_refines
        or_result_pure [OF mk_eq_core_refines] or_result_pure [OF mk_not_core_refines]
        or_result_pure [OF mk_distinct_core_refines] mk_implies_refines mk_xor_refines)

lemma mk_app_refines_cost:
  assumes "app_of f args = Some e" "mk_app m rw f args = (r, rw')"
  shows "refines e r" "cost_step rw rw'"
  using mk_app_core_refines [OF assms(1), of rw m] assms
  by (auto simp: mk_app_def or_result_def split: prod.splits option.splits)

subsection \<open>Properties\<close>

text \<open>C11: rewriting an application keeps its sort and its value under every interpretation, for
  every parameter setting, order of nodes and kind of the basic family, and writes nothing of the
  rewriter's state but the cost counter.\<close>

theorem mk_app_sound:
  assumes "app_of f args = Some e" "sort_ok e" "mk_app m rw f args = (r, rw')"
  shows "sort_ok r \<and> get_sort r = get_sort e \<and> (\<forall>I. eval I r = eval I e)
    \<and> (\<exists>c. rw' = rw\<lparr>m_local_ctx_cost := c\<rparr>)"
  using mk_app_refines_cost [OF assms(1,3)] assms(2)
  by (auto simp: refines_def cost_step_def add_cost_def)

theorem mk_app_sound_witness:
  "holds I0 (fst (mk_app m0 default_bool_rewriter OP_XOR [v1, TrueE]))"
  using mk_app_sound [where f = OP_XOR and args = "[v1, TrueE]" and e = "Xor v1 TrueE" and m = m0
      and rw = default_bool_rewriter, OF _ _ prod.collapse [symmetric]]
  by (simp add: is_bool_def holds_def I0_def)

text \<open>The test that asks for a sorted disjunction compares arguments structurally, the sort
  compares node numbers: for two constants on which the orders disagree the rewriter reports
  success on its own output.\<close>

lemma mk_or_reports_own_output:
  assumes "struct_lt m (Fun 1 BoolS []) (Fun 0 BoolS [])"
    and "get_id m (Fun 0 BoolS []) < get_id m (Fun 1 BoolS [])" "\<not> m_local_ctx rw"
  shows "mk_or_core m rw [Fun 0 BoolS [], Fun 1 BoolS []]
    = (Some (BR_DONE, Or [Fun 0 BoolS [], Fun 1 BoolS []]), rw)"
  using assms
  by (simp add: mk_or_core_def mk_flat_or_core_def mk_nflat_or_core_def ast_lt_def)

lemma mk_or_reports_own_output_witness:
  "mk_or_core \<lparr>struct_lt = (\<lambda>a b. a = Fun 1 BoolS [] \<and> b = Fun 0 BoolS []),
       get_id = (\<lambda>e. if e = Fun 0 BoolS [] then 0 else 1)\<rparr>
     default_bool_rewriter [Fun 0 BoolS [], Fun 1 BoolS []]
   = (Some (BR_DONE, Or [Fun 0 BoolS [], Fun 1 BoolS []]), default_bool_rewriter)"
  by (rule mk_or_reports_own_output) (simp_all add: default_bool_rewriter_def)

text \<open>Negation, equality and the other operations that call themselves never make a term
  heavier, which is why the mutual recursion of \<open>mk_not\<close> and \<open>mk_eq\<close> ends.\<close>

lemma not_eq_weight:
  "weight (mk_not rw t) \<le> weight t \<and> weight (mk_eq rw a b) \<le> Suc (weight a + weight b)"
  by (simp add: weight_mk_not weight_mk_eq)

end
