(* ===== verification/Blaster_Cfg.thy ===== *)
theory Blaster_Cfg
  imports Bool_Rewriter
begin

text \<open>
  The interface between the bit blaster template \<open>ast/rewriter/bit_blaster/bit_blaster_tpl.h\<close>
  and its configuration class \<open>Cfg\<close>: a record with the gates the template calls, a locale with
  the laws the template relies on, and the two configurations of the source, \<open>bit_blaster_cfg\<close>
  (\<open>bit_blaster.{h,cpp}\<close>) and \<open>blaster_cfg\<close> (\<open>bit_blaster_rewriter.cpp\<close>), as interpretations.

  A gate is a function of its inputs. The Boolean rewriter behind it also has a state, of which
  only the cost counter of the local context simplifier changes, and only when \<open>m_local_ctx\<close> is
  on (\<open>gates_keep_state\<close>); both blasters construct their rewriter with the default parameters,
  where it is off. The laws hold of the gates for every state.
\<close>

subsection \<open>The gates\<close>

record bb_cfg =
  g_xor :: "expr \<Rightarrow> expr \<Rightarrow> expr"
  g_xor3 :: "expr \<Rightarrow> expr \<Rightarrow> expr \<Rightarrow> expr"
  g_carry :: "expr \<Rightarrow> expr \<Rightarrow> expr \<Rightarrow> expr"
  g_iff :: "expr \<Rightarrow> expr \<Rightarrow> expr"
  g_and :: "expr \<Rightarrow> expr \<Rightarrow> expr"
  g_and3 :: "expr \<Rightarrow> expr \<Rightarrow> expr \<Rightarrow> expr"
  g_and_n :: "expr list \<Rightarrow> expr"
  g_or :: "expr \<Rightarrow> expr \<Rightarrow> expr"
  g_or3 :: "expr \<Rightarrow> expr \<Rightarrow> expr \<Rightarrow> expr"
  g_or_n :: "expr list \<Rightarrow> expr"
  g_not :: "expr \<Rightarrow> expr"
  g_ite :: "expr \<Rightarrow> expr \<Rightarrow> expr \<Rightarrow> expr"
  g_nand :: "expr \<Rightarrow> expr \<Rightarrow> expr"
  g_nor :: "expr \<Rightarrow> expr \<Rightarrow> expr"
  g_ge2 :: "expr \<Rightarrow> expr \<Rightarrow> expr \<Rightarrow> expr"

definition majority :: "bool \<Rightarrow> bool \<Rightarrow> bool \<Rightarrow> bool" where
  "majority x y z \<longleftrightarrow> (x \<and> y) \<or> (x \<and> z) \<or> (y \<and> z)"

text \<open>A gate maps bits to a bit whose value is a function of theirs.\<close>

definition gate2 :: "(expr \<Rightarrow> expr \<Rightarrow> expr) \<Rightarrow> (bool \<Rightarrow> bool \<Rightarrow> bool) \<Rightarrow> bool" where
  "gate2 g f \<longleftrightarrow> (\<forall>a b. is_bit a \<longrightarrow> is_bit b \<longrightarrow>
     is_bit (g a b) \<and> (\<forall>I. holds I (g a b) = f (holds I a) (holds I b)))"

definition gate3 :: "(expr \<Rightarrow> expr \<Rightarrow> expr \<Rightarrow> expr) \<Rightarrow> (bool \<Rightarrow> bool \<Rightarrow> bool \<Rightarrow> bool) \<Rightarrow> bool" where
  "gate3 g f \<longleftrightarrow> (\<forall>a b c. is_bit a \<longrightarrow> is_bit b \<longrightarrow> is_bit c \<longrightarrow>
     is_bit (g a b c) \<and> (\<forall>I. holds I (g a b c) = f (holds I a) (holds I b) (holds I c)))"

lemma gate2I:
  assumes "\<And>a b. is_bit a \<Longrightarrow> is_bit b \<Longrightarrow> is_bit (g a b)"
    and "\<And>a b I. is_bit a \<Longrightarrow> is_bit b \<Longrightarrow> holds I (g a b) = f (holds I a) (holds I b)"
  shows "gate2 g f"
  using assms by (simp add: gate2_def)

lemma gate3I:
  assumes "\<And>a b c. is_bit a \<Longrightarrow> is_bit b \<Longrightarrow> is_bit c \<Longrightarrow> is_bit (g a b c)"
    and "\<And>a b c I. is_bit a \<Longrightarrow> is_bit b \<Longrightarrow> is_bit c \<Longrightarrow>
      holds I (g a b c) = f (holds I a) (holds I b) (holds I c)"
  shows "gate3 g f"
  using assms by (simp add: gate3_def)

definition all_bits :: "expr list \<Rightarrow> bool" where
  "all_bits xs = (\<forall>x \<in> set xs. is_bit x)"

lemma all_bits_simps [simp]:
  "all_bits []" "all_bits (x # xs) \<longleftrightarrow> is_bit x \<and> all_bits xs"
  "all_bits (xs @ ys) \<longleftrightarrow> all_bits xs \<and> all_bits ys"
  "all_bits (rev xs) = all_bits xs"
  by (auto simp: all_bits_def)

lemma all_bits_nth: "all_bits xs \<Longrightarrow> i < length xs \<Longrightarrow> is_bit (xs ! i)"
  by (simp add: all_bits_def)

lemma all_bits_nthI: "(\<And>i. i < length xs \<Longrightarrow> is_bit (xs ! i)) \<Longrightarrow> all_bits xs"
  by (auto simp: all_bits_def in_set_conv_nth)

lemma all_bits_last: "all_bits xs \<Longrightarrow> xs \<noteq> [] \<Longrightarrow> is_bit (last xs)"
  by (simp add: all_bits_def)

lemma all_bits_take_drop [simp]:
  "all_bits xs \<Longrightarrow> all_bits (take n xs)" "all_bits xs \<Longrightarrow> all_bits (drop n xs)"
  by (auto simp: all_bits_def dest: in_set_takeD in_set_dropD)

lemma all_bits_replicate [simp]: "is_bit x \<Longrightarrow> all_bits (replicate n x)"
  by (simp add: all_bits_def)

lemma all_bits_update [simp]: "all_bits xs \<Longrightarrow> is_bit x \<Longrightarrow> all_bits (xs[i := x])"
  using set_update_subset_insert [of xs i x] by (auto simp: all_bits_def)

text \<open>The contract of a configuration.\<close>

locale bit_gates =
  fixes cfg :: bb_cfg
  assumes xor_law: "gate2 (g_xor cfg) (\<lambda>x y. x \<noteq> y)"
    and xor3_law: "gate3 (g_xor3 cfg) (\<lambda>x y z. x \<noteq> (y \<noteq> z))"
    and carry_law: "gate3 (g_carry cfg) majority"
    and iff_law: "gate2 (g_iff cfg) (\<lambda>x y. x = y)"
    and and_law: "gate2 (g_and cfg) (\<lambda>x y. x \<and> y)"
    and and3_law: "gate3 (g_and3 cfg) (\<lambda>x y z. x \<and> y \<and> z)"
    and and_n_law: "all_bits xs \<Longrightarrow>
      is_bit (g_and_n cfg xs) \<and> (\<forall>I. holds I (g_and_n cfg xs) = (\<forall>x \<in> set xs. holds I x))"
    and or_law: "gate2 (g_or cfg) (\<lambda>x y. x \<or> y)"
    and or3_law: "gate3 (g_or3 cfg) (\<lambda>x y z. x \<or> y \<or> z)"
    and or_n_law: "all_bits xs \<Longrightarrow>
      is_bit (g_or_n cfg xs) \<and> (\<forall>I. holds I (g_or_n cfg xs) = (\<exists>x \<in> set xs. holds I x))"
    and not_law: "is_bit a \<Longrightarrow> is_bit (g_not cfg a) \<and> (\<forall>I. holds I (g_not cfg a) = (\<not> holds I a))"
    and ite_law: "gate3 (g_ite cfg) (\<lambda>x y z. if x then y else z)"
    and nand_law: "gate2 (g_nand cfg) (\<lambda>x y. \<not> (x \<and> y))"
    and nor_law: "gate2 (g_nor cfg) (\<lambda>x y. \<not> (x \<or> y))"
    and ge2_law: "gate3 (g_ge2 cfg) majority"
begin

lemma gate_bits [simp]:
  "is_bit a \<Longrightarrow> is_bit (g_not cfg a)"
  "is_bit a \<Longrightarrow> is_bit b \<Longrightarrow> is_bit (g_xor cfg a b)"
  "is_bit a \<Longrightarrow> is_bit b \<Longrightarrow> is_bit (g_iff cfg a b)"
  "is_bit a \<Longrightarrow> is_bit b \<Longrightarrow> is_bit (g_and cfg a b)"
  "is_bit a \<Longrightarrow> is_bit b \<Longrightarrow> is_bit (g_or cfg a b)"
  "is_bit a \<Longrightarrow> is_bit b \<Longrightarrow> is_bit (g_nand cfg a b)"
  "is_bit a \<Longrightarrow> is_bit b \<Longrightarrow> is_bit (g_nor cfg a b)"
  "is_bit a \<Longrightarrow> is_bit b \<Longrightarrow> is_bit c \<Longrightarrow> is_bit (g_xor3 cfg a b c)"
  "is_bit a \<Longrightarrow> is_bit b \<Longrightarrow> is_bit c \<Longrightarrow> is_bit (g_carry cfg a b c)"
  "is_bit a \<Longrightarrow> is_bit b \<Longrightarrow> is_bit c \<Longrightarrow> is_bit (g_and3 cfg a b c)"
  "is_bit a \<Longrightarrow> is_bit b \<Longrightarrow> is_bit c \<Longrightarrow> is_bit (g_or3 cfg a b c)"
  "is_bit a \<Longrightarrow> is_bit b \<Longrightarrow> is_bit c \<Longrightarrow> is_bit (g_ite cfg a b c)"
  "is_bit a \<Longrightarrow> is_bit b \<Longrightarrow> is_bit c \<Longrightarrow> is_bit (g_ge2 cfg a b c)"
  "all_bits xs \<Longrightarrow> is_bit (g_and_n cfg xs)"
  "all_bits xs \<Longrightarrow> is_bit (g_or_n cfg xs)"
  using not_law xor_law iff_law and_law or_law nand_law nor_law xor3_law carry_law and3_law
    or3_law ite_law ge2_law and_n_law or_n_law
  unfolding gate2_def gate3_def by simp_all

lemma gate_holds [simp]:
  "is_bit a \<Longrightarrow> holds I (g_not cfg a) \<longleftrightarrow> \<not> holds I a"
  "is_bit a \<Longrightarrow> is_bit b \<Longrightarrow> holds I (g_xor cfg a b) \<longleftrightarrow> holds I a \<noteq> holds I b"
  "is_bit a \<Longrightarrow> is_bit b \<Longrightarrow> holds I (g_iff cfg a b) \<longleftrightarrow> holds I a = holds I b"
  "is_bit a \<Longrightarrow> is_bit b \<Longrightarrow> holds I (g_and cfg a b) \<longleftrightarrow> holds I a \<and> holds I b"
  "is_bit a \<Longrightarrow> is_bit b \<Longrightarrow> holds I (g_or cfg a b) \<longleftrightarrow> holds I a \<or> holds I b"
  "is_bit a \<Longrightarrow> is_bit b \<Longrightarrow> holds I (g_nand cfg a b) \<longleftrightarrow> \<not> (holds I a \<and> holds I b)"
  "is_bit a \<Longrightarrow> is_bit b \<Longrightarrow> holds I (g_nor cfg a b) \<longleftrightarrow> \<not> (holds I a \<or> holds I b)"
  "is_bit a \<Longrightarrow> is_bit b \<Longrightarrow> is_bit c \<Longrightarrow>
     holds I (g_xor3 cfg a b c) \<longleftrightarrow> holds I a \<noteq> (holds I b \<noteq> holds I c)"
  "is_bit a \<Longrightarrow> is_bit b \<Longrightarrow> is_bit c \<Longrightarrow>
     holds I (g_carry cfg a b c) \<longleftrightarrow> majority (holds I a) (holds I b) (holds I c)"
  "is_bit a \<Longrightarrow> is_bit b \<Longrightarrow> is_bit c \<Longrightarrow>
     holds I (g_and3 cfg a b c) \<longleftrightarrow> holds I a \<and> holds I b \<and> holds I c"
  "is_bit a \<Longrightarrow> is_bit b \<Longrightarrow> is_bit c \<Longrightarrow>
     holds I (g_or3 cfg a b c) \<longleftrightarrow> holds I a \<or> holds I b \<or> holds I c"
  "is_bit a \<Longrightarrow> is_bit b \<Longrightarrow> is_bit c \<Longrightarrow>
     holds I (g_ite cfg a b c) \<longleftrightarrow> (if holds I a then holds I b else holds I c)"
  "is_bit a \<Longrightarrow> is_bit b \<Longrightarrow> is_bit c \<Longrightarrow>
     holds I (g_ge2 cfg a b c) \<longleftrightarrow> majority (holds I a) (holds I b) (holds I c)"
  "all_bits xs \<Longrightarrow> holds I (g_and_n cfg xs) \<longleftrightarrow> (\<forall>x \<in> set xs. holds I x)"
  "all_bits xs \<Longrightarrow> holds I (g_or_n cfg xs) \<longleftrightarrow> (\<exists>x \<in> set xs. holds I x)"
  using not_law xor_law iff_law and_law or_law nand_law nor_law xor3_law carry_law and3_law
    or3_law ite_law ge2_law and_n_law or_n_law
  unfolding gate2_def gate3_def by simp_all

end

subsection \<open>\<open>bit_blaster_cfg\<close>\<close>

text \<open>
  \<open>sort_args\<close> orders three nodes by their numbers. The parameter \<open>ext\<close> is \<open>m_bb_ext_gates\<close>.
\<close>

definition sort_args :: "ast_manager \<Rightarrow> expr \<Rightarrow> expr \<Rightarrow> expr \<Rightarrow> expr \<times> expr \<times> expr" where
  "sort_args m l1 l2 l3 =
     (let args = std_sort (\<lambda>n1 n2. get_id m n1 < get_id m n2) [l1, l2, l3]
      in (args ! 0, args ! 1, args ! 2))"

definition bb_mk_xor3 ::
    "ast_manager \<Rightarrow> bool_rewriter \<Rightarrow> bool \<Rightarrow> expr \<Rightarrow> expr \<Rightarrow> expr \<Rightarrow> expr" where
  "bb_mk_xor3 m rw ext l1 l2 l3 =
     (let (l1, l2, l3) = sort_args m l1 l2 l3
      in if ext then
           (if l1 = l2 then l3
            else if l1 = l3 then l2
            else if l2 = l3 then l1
            else if is_complement l1 l2 then mk_not rw l3
            else if is_complement l1 l3 then mk_not rw l2
            else if is_complement l2 l3 then mk_not rw l1
            else if l1 = TrueE then mk_iff rw l2 l3
            else if l1 = FalseE then mk_xor rw l2 l3
            else if l2 = TrueE then mk_iff rw l1 l3
            else if l2 = FalseE then mk_xor rw l1 l3
            else if l3 = TrueE then mk_iff rw l1 l2
            else if l3 = FalseE then mk_xor rw l1 l2
            else Xor3 l1 l2 l3)
         else (let t = mk_xor rw l1 l2 in mk_xor rw t l3))"

definition bb_mk_carry ::
    "ast_manager \<Rightarrow> bool_rewriter \<Rightarrow> bool \<Rightarrow> expr \<Rightarrow> expr \<Rightarrow> expr \<Rightarrow> expr \<times> bool_rewriter" where
  "bb_mk_carry m rw ext l1 l2 l3 =
     (let (l1, l2, l3) = sort_args m l1 l2 l3
      in if ext then
           (if (l1 = FalseE \<and> l2 = FalseE) \<or> (l1 = FalseE \<and> l3 = FalseE)
                 \<or> (l2 = FalseE \<and> l3 = FalseE) then (FalseE, rw)
            else if (l1 = TrueE \<and> l2 = TrueE) \<or> (l1 = TrueE \<and> l3 = TrueE)
                 \<or> (l2 = TrueE \<and> l3 = TrueE) then (TrueE, rw)
            else if l1 = l2 \<and> l1 = l3 then (l1, rw)
            else if l1 = FalseE then mk_and m rw [l2, l3]
            else if l2 = FalseE then mk_and m rw [l1, l3]
            else if l3 = FalseE then mk_and m rw [l1, l2]
            else if l1 = TrueE then mk_or m rw [l2, l3]
            else if l2 = TrueE then mk_or m rw [l1, l3]
            else if l3 = TrueE then mk_or m rw [l1, l2]
            else if is_complement l1 l2 then (l3, rw)
            else if is_complement l1 l3 then (l2, rw)
            else if is_complement l2 l3 then (l1, rw)
            else (Carry l1 l2 l3, rw))
         else
           (let (t1, rw) = mk_and m rw [l1, l2];
                (t2, rw) = mk_and m rw [l1, l3];
                (t3, rw) = mk_and m rw [l2, l3]
            in mk_or m rw [t1, t2, t3]))"

definition bit_blaster_cfg :: "ast_manager \<Rightarrow> bool_rewriter \<Rightarrow> bool \<Rightarrow> bb_cfg" where
  "bit_blaster_cfg m rw ext =
     \<lparr>g_xor = mk_xor rw,
      g_xor3 = bb_mk_xor3 m rw ext,
      g_carry = (\<lambda>a b c. fst (bb_mk_carry m rw ext a b c)),
      g_iff = mk_iff rw,
      g_and = (\<lambda>a b. fst (mk_and m rw [a, b])),
      g_and3 = (\<lambda>a b c. fst (mk_and m rw [a, b, c])),
      g_and_n = (\<lambda>xs. fst (mk_and m rw xs)),
      g_or = (\<lambda>a b. fst (mk_or m rw [a, b])),
      g_or3 = (\<lambda>a b c. fst (mk_or m rw [a, b, c])),
      g_or_n = (\<lambda>xs. fst (mk_or m rw xs)),
      g_not = mk_not rw,
      g_ite = (\<lambda>c t e. fst (mk_ite m rw c t e)),
      g_nand = (\<lambda>a b. fst (mk_nand2 m rw a b)),
      g_nor = (\<lambda>a b. fst (mk_nor2 m rw a b)),
      g_ge2 = (\<lambda>a b c. fst (mk_ge2 m rw a b c))\<rparr>"

subsection \<open>\<open>blaster_cfg\<close>\<close>

definition bl_mk_xor3 :: "bool_rewriter \<Rightarrow> expr \<Rightarrow> expr \<Rightarrow> expr \<Rightarrow> expr" where
  "bl_mk_xor3 rw a b c = (let tmp = mk_xor rw b c in mk_xor rw a tmp)"

definition bl_mk_carry ::
    "ast_manager \<Rightarrow> bool_rewriter \<Rightarrow> expr \<Rightarrow> expr \<Rightarrow> expr \<Rightarrow> expr \<times> bool_rewriter" where
  "bl_mk_carry m rw a b c =
     (let (t1, rw) = mk_and m rw [a, b];
          (t2, rw) = mk_and m rw [a, c];
          (t3, rw) = mk_and m rw [b, c]
      in mk_or m rw [t1, t2, t3])"

definition blaster_cfg :: "ast_manager \<Rightarrow> bool_rewriter \<Rightarrow> bb_cfg" where
  "blaster_cfg m rw =
     \<lparr>g_xor = mk_xor rw,
      g_xor3 = bl_mk_xor3 rw,
      g_carry = (\<lambda>a b c. fst (bl_mk_carry m rw a b c)),
      g_iff = mk_iff rw,
      g_and = (\<lambda>a b. fst (mk_and m rw [a, b])),
      g_and3 = (\<lambda>a b c. fst (mk_and m rw [a, b, c])),
      g_and_n = (\<lambda>xs. fst (mk_and m rw xs)),
      g_or = (\<lambda>a b. fst (mk_or m rw [a, b])),
      g_or3 = (\<lambda>a b c. fst (mk_or m rw [a, b, c])),
      g_or_n = (\<lambda>xs. fst (mk_or m rw xs)),
      g_not = mk_not rw,
      g_ite = (\<lambda>c t e. fst (mk_ite m rw c t e)),
      g_nand = (\<lambda>a b. fst (mk_nand2 m rw a b)),
      g_nor = (\<lambda>a b. fst (mk_nor2 m rw a b)),
      g_ge2 = (\<lambda>a b c. fst (mk_ge2 m rw a b c))\<rparr>"

text \<open>The rewriters the two blasters construct.\<close>

definition bit_blaster_rw :: bool_rewriter where
  "bit_blaster_rw = default_bool_rewriter"

definition blaster_rw :: bool_rewriter where
  "blaster_rw = default_bool_rewriter\<lparr>m_flat_and_or := False, m_elim_and := True\<rparr>"

subsection \<open>Both configurations meet the contract\<close>

lemma sort_args_cases:
  assumes "sort_args m a b c = (l1, l2, l3)"
  shows "(l1, l2, l3) \<in> {(a, b, c), (a, c, b), (b, a, c), (b, c, a), (c, a, b), (c, b, a)}"
  using assms by (auto simp: sort_args_def split: if_splits)

lemma bb_mk_xor3_gate: "gate3 (bb_mk_xor3 m rw ext) (\<lambda>x y z. x \<noteq> (y \<noteq> z))"
proof (rule gate3I)
  fix a b c I
  assume bits: "is_bit a" "is_bit b" "is_bit c"
  obtain l1 l2 l3 where l: "sort_args m a b c = (l1, l2, l3)" by (metis prod_cases3)
  note perm = sort_args_cases [OF l]
  have lb: "is_bit l1" "is_bit l2" "is_bit l3" using perm bits by auto
  have sum: "(holds I l1 \<noteq> (holds I l2 \<noteq> holds I l3)) = (holds I a \<noteq> (holds I b \<noteq> holds I c))"
    using perm by auto
  show "is_bit (bb_mk_xor3 m rw ext a b c)"
    unfolding bb_mk_xor3_def l using lb by simp
  show "holds I (bb_mk_xor3 m rw ext a b c) = (holds I a \<noteq> (holds I b \<noteq> holds I c))"
    unfolding bb_mk_xor3_def l sum [symmetric] using lb is_complement_holds [of _ _ I]
    by (auto simp: Let_def)
qed

lemma bb_mk_carry_gate: "gate3 (\<lambda>a b c. fst (bb_mk_carry m rw ext a b c)) majority"
proof (rule gate3I)
  fix a b c I
  assume bits: "is_bit a" "is_bit b" "is_bit c"
  obtain l1 l2 l3 where l: "sort_args m a b c = (l1, l2, l3)" by (metis prod_cases3)
  note perm = sort_args_cases [OF l]
  have lb: "is_bit l1" "is_bit l2" "is_bit l3" using perm bits by auto
  have sum: "majority (holds I l1) (holds I l2) (holds I l3) = majority (holds I a) (holds I b) (holds I c)"
    using perm by (auto simp: majority_def)
  show "is_bit (fst (bb_mk_carry m rw ext a b c))"
    unfolding bb_mk_carry_def l using lb by (simp add: split_beta Let_def)
  show "holds I (fst (bb_mk_carry m rw ext a b c)) = majority (holds I a) (holds I b) (holds I c)"
    unfolding bb_mk_carry_def l sum [symmetric] using lb is_complement_holds [of _ _ I]
    by (auto simp: split_beta Let_def majority_def)
qed

lemma bl_mk_xor3_gate: "gate3 (bl_mk_xor3 rw) (\<lambda>x y z. x \<noteq> (y \<noteq> z))"
  by (rule gate3I) (auto simp: bl_mk_xor3_def)

lemma bl_mk_carry_gate: "gate3 (\<lambda>a b c. fst (bl_mk_carry m rw a b c)) majority"
  by (rule gate3I) (auto simp: bl_mk_carry_def majority_def split_beta Let_def)

lemmas xor3_carry_gates [simp] =
  bb_mk_xor3_gate [unfolded gate3_def, rule_format] bb_mk_carry_gate [unfolded gate3_def, rule_format]
  bl_mk_xor3_gate [unfolded gate3_def, rule_format] bl_mk_carry_gate [unfolded gate3_def, rule_format]

interpretation bb: bit_gates "bit_blaster_cfg m rw ext" for m rw ext
  by unfold_locales
    (auto simp: bit_blaster_cfg_def majority_def all_bits_def intro!: gate2I gate3I)

interpretation bl: bit_gates "blaster_cfg m rw" for m rw
  by unfold_locales
    (auto simp: blaster_cfg_def majority_def all_bits_def intro!: gate2I gate3I)

subsection \<open>The gates leave the rewriter alone\<close>

text \<open>Without the local context simplifier no operation of the rewriter writes its state.\<close>

lemma nflat_or_keeps: "\<not> m_local_ctx rw \<Longrightarrow> snd (mk_nflat_or_core m rw args) = rw"
  by (auto simp: mk_nflat_or_core_def split: sum.splits list.splits)

lemma mk_or_keeps: "\<not> m_local_ctx rw \<Longrightarrow> snd (mk_or m rw args) = rw"
  using nflat_or_keeps
  by (auto simp: mk_or_def mk_or_core_def mk_flat_or_core_def split: prod.splits option.splits)
    (metis snd_conv)+

lemma mk_and_keeps: "\<not> m_local_ctx rw \<Longrightarrow> snd (mk_and m rw args) = rw"
  by (auto simp: mk_and_def mk_and_core_def mk_and_as_or_def split_beta Let_def mk_or_keeps)

lemma mk_ite_bool_keeps: "\<not> m_local_ctx rw \<Longrightarrow> snd (mk_ite_bool m rw c t e) = rw"
  by (simp add: mk_ite_bool_def Let_def split_beta mk_or_keeps mk_and_keeps)

lemma mk_ite_extra_keeps:
  assumes "\<not> m_local_ctx rw"
  shows "snd (mk_ite_extra_then m rw c t e) = rw" "snd (mk_ite_extra_else m rw c t e) = rw"
  using assms
  by (simp_all add: mk_ite_extra_then_def mk_ite_extra_else_def Let_def split_beta mk_or_keeps
      mk_and_keeps)

lemma keeps_case:
  "snd r1 = rw \<Longrightarrow> snd (f rw) = rw \<Longrightarrow>
     snd (case r1 of (None, rw1) \<Rightarrow> f rw1 | (Some r, rw1) \<Rightarrow> (Some r, rw1)) = rw"
  by (cases r1; cases "fst r1") auto

lemma mk_ite_rules_keeps: "\<not> m_local_ctx rw \<Longrightarrow> snd (mk_ite_rules m rw c t e s) = rw"
  unfolding mk_ite_rules_def
  by (intro keeps_case) (simp_all add: mk_ite_bool_keeps mk_ite_extra_keeps)

lemma mk_ite_keeps: "\<not> m_local_ctx rw \<Longrightarrow> snd (mk_ite m rw c t e) = rw"
  by (simp add: mk_ite_def mk_ite_core_def Let_def split_beta mk_ite_rules_keeps)

lemma gates_keep_state:
  assumes "\<not> m_local_ctx rw"
  shows "snd (bb_mk_carry m rw ext a b c) = rw" "snd (bl_mk_carry m rw a b c) = rw"
    and "snd (mk_nand2 m rw a b) = rw" "snd (mk_nor2 m rw a b) = rw"
    and "snd (mk_ge2 m rw a b c) = rw"
  using assms
  by (auto simp: bb_mk_carry_def bl_mk_carry_def derived_defs split_beta Let_def mk_or_keeps
      mk_and_keeps)

subsection \<open>The two configurations together\<close>

definition blaster_cfgs :: "ast_manager \<Rightarrow> bool_rewriter \<Rightarrow> bool \<Rightarrow> bb_cfg set" where
  "blaster_cfgs m rw ext = {bit_blaster_cfg m rw ext, blaster_cfg m rw}"

lemma blaster_cfgs_cases:
  assumes "cfg \<in> blaster_cfgs m rw ext"
  obtains "cfg = bit_blaster_cfg m rw ext" | "cfg = blaster_cfg m rw"
  using assms by (auto simp: blaster_cfgs_def)

subsection \<open>Properties\<close>

text \<open>every operation of the rewriter that a gate uses, and both carry gates, return the
  rewriter's state unchanged when the local context simplifier is off, as it is in the rewriters
  that the two blasters construct: a gate is then a function of its inputs.\<close>

lemma gates_do_not_write:
  assumes "\<not> m_local_ctx rw"
  shows "snd (mk_or m rw args) = rw \<and> snd (mk_and m rw args) = rw \<and> snd (mk_ite m rw c t e) = rw
    \<and> snd (mk_nand2 m rw a b) = rw \<and> snd (mk_nor2 m rw a b) = rw \<and> snd (mk_ge2 m rw a b c) = rw
    \<and> snd (bb_mk_carry m rw ext a b c) = rw \<and> snd (bl_mk_carry m rw a b c) = rw"
  using assms by (simp_all add: mk_or_keeps mk_and_keeps mk_ite_keeps gates_keep_state)

lemma gates_do_not_write_witness: "snd (mk_ge2 m0 blaster_rw v0 v1 v2) = blaster_rw"
  using gates_do_not_write [where rw = blaster_rw and m = m0 and a = v0 and b = v1 and c = v2]
  by (simp add: blaster_rw_def default_bool_rewriter_def)

text \<open>the two three-input gates of both configurations compute the sum bit and the carry bit
  of their inputs, whatever the order of the node numbers and with or without extended gates.\<close>

lemma full_adder_gates:
  assumes "cfg \<in> blaster_cfgs m rw ext" "is_bit a" "is_bit b" "is_bit c"
  shows "is_bit (g_xor3 cfg a b c) \<and> is_bit (g_carry cfg a b c)
    \<and> of_bool (holds I (g_xor3 cfg a b c)) + 2 * of_bool (holds I (g_carry cfg a b c))
      = (of_bool (holds I a) + of_bool (holds I b) + of_bool (holds I c) :: nat)"
  using assms by (elim blaster_cfgs_cases) (auto simp: majority_def)

lemma full_adder_gates_witness:
  "holds I0 (g_carry (bit_blaster_cfg m0 bit_blaster_rw True) v0 v1 v2)"
  using full_adder_gates [of "bit_blaster_cfg m0 bit_blaster_rw True" m0 bit_blaster_rw True v0 v1 v2 I0]
  by (auto simp: blaster_cfgs_def of_bool_def split: if_splits)

end
