(* ===== verification/Blaster_Arith.thy ===== *)
theory Blaster_Arith
  imports Blaster_Cfg
begin

text \<open>
  The first part of \<open>ast/rewriter/bit_blaster/bit_blaster_tpl_def.h\<close>: numerals, adders,
  negation, subtraction and the multipliers, each a function of the configuration and of the
  lists of bits, least significant bit first; \<open>sz\<close> is the length of the lists. The value of a
  list of bits under an interpretation is \<open>bv_val\<close>.
\<close>

abbreviation bv_val :: "interp \<Rightarrow> expr list \<Rightarrow> nat" where
  "bv_val I xs \<equiv> bits_to_nat (map (holds I) xs)"

subsection \<open>Numerals\<close>

definition is_bool_const :: "expr \<Rightarrow> bool" where
  "is_bool_const e = (e = TrueE \<or> e = FalseE)"

definition is_numeral :: "expr list \<Rightarrow> bool" where
  "is_numeral bits = list_all is_bool_const bits"

text \<open>The overload that computes the number; \<open>None\<close> is its result false.\<close>

fun is_numeral_loop :: "nat \<Rightarrow> nat \<Rightarrow> expr list \<Rightarrow> nat option" where
  "is_numeral_loop i r [] = Some r"
| "is_numeral_loop i r (b # bs) =
     (if b = TrueE then is_numeral_loop (Suc i) (r + 2 ^ i) bs
      else if b \<noteq> FalseE then None
      else is_numeral_loop (Suc i) r bs)"

definition is_numeral_val :: "expr list \<Rightarrow> nat option" where
  "is_numeral_val bits = is_numeral_loop 0 0 bits"

definition is_minus_one :: "expr list \<Rightarrow> bool" where
  "is_minus_one bits = list_all (\<lambda>b. b = TrueE) bits"

text \<open>
  \<open>num2bits\<close> takes 32 bits at a time while more than 32 are left, then one at a time. The
  argument \<open>n\<close> is what the source has as \<open>sz - i\<close>.
\<close>

definition bit_expr :: "bool \<Rightarrow> expr" where
  "bit_expr b = (if b then TrueE else FalseE)"

function num2bits :: "nat \<Rightarrow> nat \<Rightarrow> expr list" where
  "num2bits aux n =
     (if n = 0 then []
      else if 32 < n then
        (let u = aux mod 2 ^ 32
         in map (\<lambda>j. bit_expr (bit u j)) [0..<32] @ num2bits (aux div 2 ^ 32) (n - 32))
      else bit_expr (aux mod 2 \<noteq> 0) # num2bits (aux div 2) (n - 1))"
  by pat_completeness auto
termination
  by (relation "measure snd") auto

declare num2bits.simps [simp del]

subsection \<open>Adders\<close>

definition mk_half_adder :: "bb_cfg \<Rightarrow> expr \<Rightarrow> expr \<Rightarrow> expr \<times> expr" where
  "mk_half_adder cfg a b = (g_xor cfg a b, g_and cfg a b)"

definition mk_full_adder :: "bb_cfg \<Rightarrow> expr \<Rightarrow> expr \<Rightarrow> expr \<Rightarrow> expr \<times> expr" where
  "mk_full_adder cfg a b cin = (g_xor3 cfg a b cin, g_carry cfg a b cin)"

text \<open>The last position computes no carry.\<close>

fun neg_loop :: "bb_cfg \<Rightarrow> expr \<Rightarrow> expr list \<Rightarrow> expr list" where
  "neg_loop cfg cin [] = []"
| "neg_loop cfg cin [a] = [g_xor cfg (g_not cfg a) cin]"
| "neg_loop cfg cin (a # a_bits) =
     (let (out, cout) = mk_half_adder cfg (g_not cfg a) cin
      in out # neg_loop cfg cout a_bits)"

definition mk_neg :: "bb_cfg \<Rightarrow> expr list \<Rightarrow> expr list" where
  "mk_neg cfg a_bits = neg_loop cfg TrueE a_bits"

fun adder_loop :: "bb_cfg \<Rightarrow> expr \<Rightarrow> expr list \<Rightarrow> expr list \<Rightarrow> expr list" where
  "adder_loop cfg cin [a] (b # bs) = [g_xor3 cfg a b cin]"
| "adder_loop cfg cin (a # a_bits) (b # b_bits) =
     (let (out, cout) = mk_full_adder cfg a b cin
      in out # adder_loop cfg cout a_bits b_bits)"
| "adder_loop cfg cin a_bits b_bits = []"

definition mk_adder :: "bb_cfg \<Rightarrow> expr list \<Rightarrow> expr list \<Rightarrow> expr list" where
  "mk_adder cfg a_bits b_bits = adder_loop cfg FalseE a_bits b_bits"

fun subtracter_loop ::
    "bb_cfg \<Rightarrow> expr \<Rightarrow> expr list \<Rightarrow> expr list \<Rightarrow> expr list \<times> expr" where
  "subtracter_loop cfg cin (a # a_bits) (b # b_bits) =
     (let not_b = g_not cfg b;
          (out, cout) = mk_full_adder cfg a not_b cin;
          (out_bits, cout) = subtracter_loop cfg cout a_bits b_bits
      in (out # out_bits, cout))"
| "subtracter_loop cfg cin a_bits b_bits = ([], cin)"

definition mk_subtracter :: "bb_cfg \<Rightarrow> expr list \<Rightarrow> expr list \<Rightarrow> expr list \<times> expr" where
  "mk_subtracter cfg a_bits b_bits = subtracter_loop cfg TrueE a_bits b_bits"

fun mk_carry_save_adder ::
    "bb_cfg \<Rightarrow> expr list \<Rightarrow> expr list \<Rightarrow> expr list \<Rightarrow> expr list \<times> expr list" where
  "mk_carry_save_adder cfg (a # a_bits) (b # b_bits) (c # c_bits) =
     (let t = g_xor3 cfg a b c;
          t' = g_carry cfg a b c;
          (sum_bits, carry_bits) = mk_carry_save_adder cfg a_bits b_bits c_bits
      in (t # sum_bits, t' # carry_bits))"
| "mk_carry_save_adder cfg a_bits b_bits c_bits = ([], [])"

definition mk_multiplexer :: "bb_cfg \<Rightarrow> expr \<Rightarrow> expr list \<Rightarrow> expr list \<Rightarrow> expr list" where
  "mk_multiplexer cfg c t_bits e_bits = map2 (g_ite cfg c) t_bits e_bits"

subsection \<open>Multipliers\<close>

text \<open>
  \<open>mk_const_case_multiplier\<close> splits over the bits that are not constant and multiplies numerals
  at the leaves; it is used when the number of cases is smaller than the array multiplier. The
  counters are unsigned. \<open>None\<close> at a leaf is the failure of \<open>VERIFY\<close>.
\<close>

definition skip_consts :: "nat \<Rightarrow> expr list \<Rightarrow> nat" where
  "skip_consts i bits = i + length (takeWhile is_bool_const (drop i bits))"

lemma skip_consts_less: "skip_consts i bits < n \<Longrightarrow> i < n"
  by (simp add: skip_consts_def)

function const_case_multiplier ::
    "bb_cfg \<Rightarrow> bool \<Rightarrow> nat \<Rightarrow> expr list \<Rightarrow> expr list \<Rightarrow> expr list option" where
  "const_case_multiplier cfg is_a i a_bits b_bits =
     (let sz = length a_bits;
          i = (if is_a then skip_consts i a_bits else i);
          (is_a, i) = (if is_a \<and> i = sz then (False, 0) else (is_a, i));
          i = (if is_a then i else skip_consts i b_bits)
      in if i < sz then
           (let x = (if is_a then a_bits ! i else b_bits ! i);
                out1 = (if is_a then const_case_multiplier cfg is_a (i + 1) (a_bits[i := TrueE]) b_bits
                        else const_case_multiplier cfg is_a (i + 1) a_bits (b_bits[i := TrueE]));
                out2 = (if is_a then const_case_multiplier cfg is_a (i + 1) (a_bits[i := FalseE]) b_bits
                        else const_case_multiplier cfg is_a (i + 1) a_bits (b_bits[i := FalseE]))
            in case (out1, out2) of
                 (Some out1, Some out2) \<Rightarrow> Some (map2 (g_ite cfg x) out1 out2)
               | _ \<Rightarrow> None)
         else
           (case (is_numeral_val a_bits, is_numeral_val b_bits) of
              (Some n_a, Some n_b) \<Rightarrow> Some (num2bits (n_a * n_b) sz)
            | _ \<Rightarrow> None))"
  by pat_completeness auto
termination
  by (relation "measures [\<lambda>(cfg, is_a, i, as, bs). of_bool is_a, \<lambda>(cfg, is_a, i, as, bs). length as - i]")
    (auto split: if_splits dest: skip_consts_less simp: skip_consts_def intro!: diff_less_mono2)

declare const_case_multiplier.simps [simp del]

fun case_size_loop :: "u32 \<Rightarrow> u32 \<Rightarrow> expr list \<Rightarrow> expr list \<Rightarrow> u32" where
  "case_size_loop circuit_size case_size (a # a_bits) (b # b_bits) =
     (if case_size < circuit_size then
        let case_size = (if is_bool_const a then case_size else case_size * 2);
            case_size = (if is_bool_const b then case_size else case_size * 2)
        in case_size_loop circuit_size case_size a_bits b_bits
      else case_size)"
| "case_size_loop circuit_size case_size a_bits b_bits = case_size"

definition mk_const_case_multiplier ::
    "bb_cfg \<Rightarrow> expr list \<Rightarrow> expr list \<Rightarrow> expr list option" where
  "mk_const_case_multiplier cfg a_bits b_bits =
     (let sz = length a_bits;
          circuit_size = of_nat sz * of_nat sz * 5;
          case_size = case_size_loop circuit_size 1 a_bits b_bits
      in if case_size \<ge> circuit_size then None
         else if sz \<ge> 100 then None
         else Some (the (const_case_multiplier cfg True 0 a_bits b_bits)))"

text \<open>
  The array multiplier, column by column: a column adds the products of its weight and the
  carries of the column before it (\<open>cins\<close>), and hands its own carries on (\<open>couts\<close>).
\<close>

definition mult_cell ::
    "bb_cfg \<Rightarrow> expr list \<Rightarrow> expr list \<Rightarrow> nat \<Rightarrow> expr list \<Rightarrow> nat \<Rightarrow> expr \<times> expr list \<Rightarrow> expr \<times> expr list" where
  "mult_cell cfg a_bits b_bits i cins j = (\<lambda>(prev_out, couts).
     let i3 = g_and cfg (a_bits ! j) (b_bits ! (i - j));
         (out, cout) = mk_full_adder cfg i3 prev_out (cins ! (j - 2))
     in (out, couts @ [cout]))"

definition mult_column ::
    "bb_cfg \<Rightarrow> expr list \<Rightarrow> expr list \<Rightarrow> nat \<Rightarrow> expr list \<Rightarrow> expr \<times> expr list" where
  "mult_column cfg a_bits b_bits i cins =
     (let i1 = g_and cfg (a_bits ! 0) (b_bits ! i);
          i2 = g_and cfg (a_bits ! 1) (b_bits ! (i - 1));
          (out, cout) = mk_half_adder cfg i1 i2
      in fold (mult_cell cfg a_bits b_bits i cins) [2..<Suc i] (out, [cout]))"

definition mult_last_column ::
    "bb_cfg \<Rightarrow> expr list \<Rightarrow> expr list \<Rightarrow> nat \<Rightarrow> expr list \<Rightarrow> expr" where
  "mult_last_column cfg a_bits b_bits i cins =
     (let i1 = g_and cfg (a_bits ! 0) (b_bits ! i);
          i2 = g_and cfg (a_bits ! 1) (b_bits ! (i - 1))
      in fold (\<lambda>j out.
             let i3 = g_and cfg (a_bits ! j) (b_bits ! (i - j))
             in g_xor3 cfg i3 out (cins ! (j - 2)))
           [2..<Suc i] (g_xor cfg i1 i2))"

definition mult_step ::
    "bb_cfg \<Rightarrow> expr list \<Rightarrow> expr list \<Rightarrow> nat \<Rightarrow> expr list \<times> expr list \<Rightarrow> expr list \<times> expr list" where
  "mult_step cfg a_bits b_bits i = (\<lambda>(out_bits, cins).
     if i < length a_bits - 1 then
       (let (out, couts) = mult_column cfg a_bits b_bits i cins in (out_bits @ [out], couts))
     else (out_bits @ [mult_last_column cfg a_bits b_bits i cins], cins))"

definition array_multiplier :: "bb_cfg \<Rightarrow> expr list \<Rightarrow> expr list \<Rightarrow> expr list" where
  "array_multiplier cfg a_bits b_bits =
     fst (fold (mult_step cfg a_bits b_bits) [1..<length a_bits]
            ([g_and cfg (a_bits ! 0) (b_bits ! 0)], []))"

definition mk_multiplier :: "bb_cfg \<Rightarrow> expr list \<Rightarrow> expr list \<Rightarrow> expr list" where
  "mk_multiplier cfg a_bits b_bits =
     (let n_b = is_numeral_val a_bits;
          (a_bits, b_bits) = (if n_b \<noteq> None then (b_bits, a_bits) else (a_bits, b_bits))
      in if is_minus_one b_bits then mk_neg cfg a_bits
         else case (is_numeral_val a_bits, n_b) of
           (Some n_a, Some n_b) \<Rightarrow> num2bits (n_a * n_b) (length a_bits)
         | _ \<Rightarrow>
             (case mk_const_case_multiplier cfg a_bits b_bits of
                Some out_bits \<Rightarrow> out_bits
              | None \<Rightarrow> array_multiplier cfg a_bits b_bits))"

fun umul_ovf_loop ::
    "bb_cfg \<Rightarrow> expr list \<Rightarrow> expr list \<Rightarrow> expr \<Rightarrow> expr \<Rightarrow> nat list \<Rightarrow> expr" where
  "umul_ovf_loop cfg a_bits b_bits ovf v [] = v"
| "umul_ovf_loop cfg a_bits b_bits ovf v (i # is) =
     (let ovf = g_or cfg ovf (a_bits ! (length a_bits - i));
          tmp = g_and cfg ovf (b_bits ! i);
          v = g_or cfg tmp v
      in umul_ovf_loop cfg a_bits b_bits ovf v is)"

definition mk_umul_no_overflow :: "bb_cfg \<Rightarrow> expr list \<Rightarrow> expr list \<Rightarrow> expr" where
  "mk_umul_no_overflow cfg a_bits b_bits =
     (let sz = length a_bits;
          mult_cout = mk_multiplier cfg (a_bits @ [FalseE]) (b_bits @ [FalseE]);
          overflow1 = mult_cout ! sz;
          overflow2 = umul_ovf_loop cfg a_bits b_bits FalseE FalseE [1..<sz];
          overflow = g_or cfg overflow1 overflow2
      in g_not cfg overflow)"

subsection \<open>Values of numerals\<close>

lemma bit_expr_simps [simp]: "is_bit (bit_expr b)" "holds I (bit_expr b) = b" "is_bool_const (bit_expr b)"
  by (simp_all add: bit_expr_def is_bool_const_def)

lemma num2bits_eq: "num2bits v n = map bit_expr (nat_to_bits n v)"
proof (induction v n rule: num2bits.induct)
  case (1 v n)
  have chunk: "map (\<lambda>j. bit_expr (bit u j)) [0..<k] = map bit_expr (nat_to_bits k u)" for u k
  proof (induction k arbitrary: u)
    case (Suc k)
    have "map (\<lambda>j. bit_expr (bit u j)) [0..<Suc k]
        = bit_expr (odd u) # map (\<lambda>j. bit_expr (bit (u div 2) j)) [0..<k]"
      by (simp add: upt_conv_Cons bit_0 bit_Suc map_Suc_upt [symmetric] del: upt_Suc)
    then show ?case using Suc by simp
  qed simp
  show ?case
  proof (cases "32 < n")
    case True
    then have "nat_to_bits n v = nat_to_bits 32 v @ nat_to_bits (n - 32) (v div 2 ^ 32)"
      using nat_to_bits_add [of 32 "n - 32" v] by simp
    then show ?thesis
      using 1(1) True nat_to_bits_mod [of 32 32 v] by (simp add: num2bits.simps [of v n] chunk)
  next
    case False
    then show ?thesis
      using 1(2) by (subst num2bits.simps) (cases n; simp add: odd_iff_mod_2_eq_one)
  qed
qed

lemma num2bits_bits [simp]: "all_bits (num2bits v n)" "length (num2bits v n) = n"
  by (auto simp: num2bits_eq all_bits_def)

lemma num2bits_val [simp]: "bv_val I (num2bits v n) = v mod 2 ^ n"
  by (simp add: num2bits_eq comp_def)

lemma is_numeral_loop_val:
  "is_numeral_loop i r bits = Some v \<Longrightarrow> v = r + 2 ^ i * bv_val I bits \<and> list_all is_bool_const bits"
proof (induction bits arbitrary: i r)
  case (Cons b bits)
  show ?case
    using Cons.prems Cons.IH [of "Suc i" "r + 2 ^ i"] Cons.IH [of "Suc i" r]
    by (auto simp: is_bool_const_def split: if_splits)
qed simp

lemma is_numeral_loop_const:
  "list_all is_bool_const bits \<Longrightarrow> \<exists>v. is_numeral_loop i r bits = Some v"
  by (induction bits arbitrary: i r) (auto simp: is_bool_const_def)

lemma is_numeral_val_Some: "is_numeral_val bits = Some v \<Longrightarrow> v = bv_val I bits \<and> is_numeral bits"
  using is_numeral_loop_val [of 0 0 bits v I] by (simp add: is_numeral_val_def is_numeral_def)

lemma is_numeral_val_iff: "is_numeral bits \<longleftrightarrow> is_numeral_val bits \<noteq> None"
  using is_numeral_val_Some is_numeral_loop_const [of bits 0 0]
  by (auto simp: is_numeral_val_def is_numeral_def)

lemma is_minus_one_val:
  "is_minus_one bits \<Longrightarrow> bv_val I bits = 2 ^ length bits - 1"
proof -
  assume "is_minus_one bits"
  then have "map (holds I) bits = replicate (length bits) True"
    by (intro replicate_eqI) (auto simp: is_minus_one_def list_all_iff)
  then show ?thesis by (simp add: bits_to_nat_replicate_True)
qed

subsection \<open>Adders\<close>

context bit_gates
begin

lemma half_adder:
  assumes "mk_half_adder cfg a b = (out, cout)" "is_bit a" "is_bit b"
  shows "is_bit out" "is_bit cout"
    and "of_bool (holds I out) + 2 * of_bool (holds I cout) = (of_bool (holds I a) + of_bool (holds I b) :: nat)"
  using assms by (auto simp: mk_half_adder_def)

lemma full_adder:
  assumes "mk_full_adder cfg a b c = (out, cout)" "is_bit a" "is_bit b" "is_bit c"
  shows "is_bit out" "is_bit cout"
    and "of_bool (holds I out) + 2 * of_bool (holds I cout)
      = (of_bool (holds I a) + of_bool (holds I b) + of_bool (holds I c) :: nat)"
  using assms by (auto simp: mk_full_adder_def majority_def)

lemma neg_loop:
  assumes "is_bit cin" "all_bits as"
  shows "all_bits (neg_loop cfg cin as) \<and> length (neg_loop cfg cin as) = length as
    \<and> bv_val I (neg_loop cfg cin as)
      = (of_bool (holds I cin) + bits_to_nat (flip_bits (map (holds I) as))) mod 2 ^ length as"
  using assms
proof (induction as arbitrary: cin)
  case (Cons a as)
  show ?case
  proof (cases as)
    case Nil
    then show ?thesis using Cons.prems by auto
  next
    case (Cons a' as')
    obtain out cout where h: "mk_half_adder cfg (g_not cfg a) cin = (out, cout)" by force
    note ha = half_adder [OF h _ Cons.prems(1)]
    have rest: "all_bits (neg_loop cfg cout as) \<and> length (neg_loop cfg cout as) = length as
      \<and> bv_val I (neg_loop cfg cout as)
        = (of_bool (holds I cout) + bits_to_nat (flip_bits (map (holds I) as))) mod 2 ^ length as"
      by (rule Cons.IH) (use ha Cons.prems in auto)
    have eq: "of_bool (holds I cin) + bits_to_nat (flip_bits (map (holds I) (a # as)))
      = of_bool (holds I out)
        + 2 * (of_bool (holds I cout) + bits_to_nat (flip_bits (map (holds I) as)))"
      using ha(3) [of I] Cons.prems by simp
    have "neg_loop cfg cin (a # as) = out # neg_loop cfg cout as"
      using Cons h by simp
    then show ?thesis
      unfolding eq length_Cons power_Suc mod_bit_step using rest ha(1) Cons.prems by simp
  qed
qed simp

lemma mk_neg_bits [simp]:
  assumes "all_bits as"
  shows "all_bits (mk_neg cfg as)" "length (mk_neg cfg as) = length as"
  using neg_loop [of TrueE as] assms by (simp_all add: mk_neg_def)

lemma mk_neg_val:
  assumes "all_bits as"
  shows "bv_val I (mk_neg cfg as) = (2 ^ length as - bv_val I as) mod 2 ^ length as"
  using neg_loop [of TrueE as I] assms bits_to_nat_less [of "map (holds I) as"]
  by (simp add: mk_neg_def bits_to_nat_flip Suc_diff_Suc)

lemma adder_loop:
  assumes "length as = length bs" "is_bit cin" "all_bits as" "all_bits bs"
  shows "all_bits (adder_loop cfg cin as bs) \<and> length (adder_loop cfg cin as bs) = length as
    \<and> bv_val I (adder_loop cfg cin as bs)
      = (of_bool (holds I cin) + bv_val I as + bv_val I bs) mod 2 ^ length as"
  using assms
proof (induction as bs arbitrary: cin rule: list_induct2)
  case (Cons a as b bs)
  show ?case
  proof (cases as)
    case Nil
    then show ?thesis using Cons by auto
  next
    case as: (Cons a' as')
    obtain out cout where f: "mk_full_adder cfg a b cin = (out, cout)" by force
    note fa = full_adder [OF f _ _ Cons.prems(1)]
    have rest: "all_bits (adder_loop cfg cout as bs) \<and> length (adder_loop cfg cout as bs) = length as
      \<and> bv_val I (adder_loop cfg cout as bs)
        = (of_bool (holds I cout) + bv_val I as + bv_val I bs) mod 2 ^ length as"
      by (rule Cons.IH) (use fa Cons.prems in auto)
    have eq: "of_bool (holds I cin) + bv_val I (a # as) + bv_val I (b # bs)
      = of_bool (holds I out) + 2 * (of_bool (holds I cout) + bv_val I as + bv_val I bs)"
      using fa(3) [of I] Cons.prems by simp
    have "adder_loop cfg cin (a # as) (b # bs) = out # adder_loop cfg cout as bs"
      using as f by simp
    then show ?thesis
      unfolding eq length_Cons power_Suc mod_bit_step using rest fa(1) Cons.prems by simp
  qed
qed simp

lemma mk_adder_bits [simp]:
  assumes "length as = length bs" "all_bits as" "all_bits bs"
  shows "all_bits (mk_adder cfg as bs)" "length (mk_adder cfg as bs) = length as"
  using adder_loop [OF assms(1), of FalseE] assms by (simp_all add: mk_adder_def)

lemma mk_adder_val:
  assumes "length as = length bs" "all_bits as" "all_bits bs"
  shows "bv_val I (mk_adder cfg as bs) = (bv_val I as + bv_val I bs) mod 2 ^ length as"
  using adder_loop [OF assms(1), of FalseE I] assms by (simp add: mk_adder_def)

lemma subtracter_loop:
  assumes "length as = length bs" "is_bit cin" "all_bits as" "all_bits bs"
    and "subtracter_loop cfg cin as bs = (out, cout)"
  shows "all_bits out \<and> length out = length as \<and> is_bit cout
    \<and> bv_val I out + 2 ^ length as * of_bool (holds I cout)
      = of_bool (holds I cin) + bv_val I as + bits_to_nat (flip_bits (map (holds I) bs))"
  using assms
proof (induction as bs arbitrary: cin out rule: list_induct2)
  case (Cons a as b bs)
  obtain o1 c1 where f: "mk_full_adder cfg a (g_not cfg b) cin = (o1, c1)" by force
  obtain out' where l: "subtracter_loop cfg c1 as bs = (out', cout)" and out: "out = o1 # out'"
    using Cons.prems(4) f by (auto simp: Let_def split: prod.splits)
  note fa = full_adder [OF f _ _ Cons.prems(1)]
  have rest: "all_bits out' \<and> length out' = length as \<and> is_bit cout
    \<and> bv_val I out' + 2 ^ length as * of_bool (holds I cout)
      = of_bool (holds I c1) + bv_val I as + bits_to_nat (flip_bits (map (holds I) bs))"
    by (rule Cons.IH) (use fa Cons.prems l in auto)
  then show ?case
    using fa(1) fa(3) [of I] Cons.prems out by (simp add: algebra_simps)
qed simp

lemma mk_subtracter_bits:
  assumes "length as = length bs" "all_bits as" "all_bits bs"
    and "mk_subtracter cfg as bs = (out, cout)"
  shows "all_bits out" "length out = length as" "is_bit cout"
  using subtracter_loop [of as bs TrueE out cout] assms by (auto simp: mk_subtracter_def)

text \<open>The carry says that nothing was borrowed.\<close>

lemma mk_subtracter_val:
  assumes "length as = length bs" "all_bits as" "all_bits bs"
    and "mk_subtracter cfg as bs = (out, cout)"
  shows "bv_val I out = (if bv_val I bs \<le> bv_val I as then bv_val I as - bv_val I bs
      else 2 ^ length as + bv_val I as - bv_val I bs)"
    and "holds I cout \<longleftrightarrow> bv_val I bs \<le> bv_val I as"
proof -
  have len: "length out = length as" by (rule mk_subtracter_bits [OF assms])
  have less: "bv_val I as < 2 ^ length as" "bv_val I bs < 2 ^ length as" "bv_val I out < 2 ^ length as"
    using bits_to_nat_less [of "map (holds I) as"] bits_to_nat_less [of "map (holds I) bs"]
      bits_to_nat_less [of "map (holds I) out"] assms(1) len by simp_all
  have "bv_val I out + 2 ^ length as * of_bool (holds I cout)
      = 1 + bv_val I as + (2 ^ length as - 1 - bv_val I bs)"
    using subtracter_loop [of as bs TrueE out cout I] assms
    by (simp add: mk_subtracter_def bits_to_nat_flip)
  then have eq: "bv_val I out + 2 ^ length as * of_bool (holds I cout) + bv_val I bs
      = bv_val I as + 2 ^ length as" using less by simp
  show "holds I cout \<longleftrightarrow> bv_val I bs \<le> bv_val I as"
    using eq less by (cases "holds I cout") auto
  then show "bv_val I out = (if bv_val I bs \<le> bv_val I as then bv_val I as - bv_val I bs
      else 2 ^ length as + bv_val I as - bv_val I bs)"
    using eq less by auto
qed

lemma mk_carry_save_adder:
  assumes "length as = length bs" "length bs = length cs" "all_bits as" "all_bits bs" "all_bits cs"
    and "mk_carry_save_adder cfg as bs cs = (ss, cs')"
  shows "all_bits ss \<and> all_bits cs' \<and> length ss = length as \<and> length cs' = length as
    \<and> bv_val I ss + 2 * bv_val I cs' = bv_val I as + bv_val I bs + bv_val I cs"
  using assms
proof (induction as bs cs arbitrary: ss cs' rule: list_induct3)
  case (Cons a as b bs c cs)
  obtain s' c' where l: "mk_carry_save_adder cfg as bs cs = (s', c')" by force
  have "all_bits s' \<and> all_bits c' \<and> length s' = length as \<and> length c' = length as
    \<and> bv_val I s' + 2 * bv_val I c' = bv_val I as + bv_val I bs + bv_val I cs"
    by (rule Cons.IH) (use Cons.prems l in auto)
  then show ?case
    using Cons.prems full_adder(3) [of a b c _ _ I] l by (auto simp: mk_full_adder_def)
qed simp

lemma mk_multiplexer_bits [simp]:
  assumes "length ts = length es" "is_bit c" "all_bits ts" "all_bits es"
  shows "all_bits (mk_multiplexer cfg c ts es)" "length (mk_multiplexer cfg c ts es) = length ts"
  using assms by (auto simp: mk_multiplexer_def all_bits_nth intro!: all_bits_nthI)

lemma mk_multiplexer_holds:
  assumes "length ts = length es" "is_bit c" "all_bits ts" "all_bits es"
  shows "map (holds I) (mk_multiplexer cfg c ts es)
    = (if holds I c then map (holds I) ts else map (holds I) es)"
  using assms unfolding mk_multiplexer_def
  by (induction ts es rule: list_induct2) auto

end

subsection \<open>The multiplier by cases\<close>

lemma skip_consts_const:
  assumes "i \<le> k" "k < skip_consts i bits"
  shows "is_bool_const (bits ! k)"
proof -
  have "k - i < length (takeWhile is_bool_const (drop i bits))"
    using assms by (simp add: skip_consts_def)
  then have "is_bool_const (drop i bits ! (k - i))" by (rule takeWhile_nth_below)
  moreover have "i \<le> length bits" using assms by (cases "i \<le> length bits") (auto simp: skip_consts_def)
  ultimately show ?thesis using assms(1) by simp
qed

lemma skip_consts_length: "i \<le> length bits \<Longrightarrow> skip_consts i bits \<le> length bits"
  using length_takeWhile_le [of is_bool_const "drop i bits"] by (simp add: skip_consts_def)

lemma is_numeral_val_all: "\<forall>k < length bits. is_bool_const (bits ! k) \<Longrightarrow> \<exists>v. is_numeral_val bits = Some v"
  using is_numeral_val_iff [of bits] by (auto simp: is_numeral_def list_all_length)

lemma map_holds_update: "holds I x = holds I (xs ! i) \<Longrightarrow> map (holds I) (xs[i := x]) = map (holds I) xs"
  by (cases "i < length xs") (auto intro!: nth_equalityI simp: nth_list_update list_update_beyond
      split: if_splits)

text \<open>The result that the case split is to compute.\<close>

definition is_product :: "expr list \<Rightarrow> expr list \<Rightarrow> expr list \<Rightarrow> bool" where
  "is_product as bs out \<longleftrightarrow> all_bits out \<and> length out = length as
     \<and> (\<forall>I. bv_val I out = bv_val I as * bv_val I bs mod 2 ^ length as)"

context bit_gates
begin

lemma map2_ite_product:
  assumes "is_bit x" "is_product as1 bs1 out1" "is_product as0 bs0 out0"
    and "length as1 = length as" "length as0 = length as"
    and "\<And>I. holds I x \<Longrightarrow> bv_val I as1 * bv_val I bs1 = bv_val I as * bv_val I bs"
    and "\<And>I. \<not> holds I x \<Longrightarrow> bv_val I as0 * bv_val I bs0 = bv_val I as * bv_val I bs"
  shows "is_product as bs (map2 (g_ite cfg x) out1 out0)"
proof -
  have o: "all_bits out1" "all_bits out0" "length out1 = length as" "length out0 = length as"
    using assms by (auto simp: is_product_def)
  note m = mk_multiplexer_bits [of out1 out0 x] mk_multiplexer_holds [of out1 out0 x]
  show ?thesis
    using assms o m unfolding is_product_def mk_multiplexer_def by simp
qed

lemma const_case_multiplier:
  assumes "length bs = length as" "all_bits as" "all_bits bs" "i \<le> length as"
    and "\<forall>k < (if is_a then i else length as). is_bool_const (as ! k)"
    and "\<not> is_a \<Longrightarrow> \<forall>k < i. is_bool_const (bs ! k)"
  shows "\<exists>out. const_case_multiplier cfg is_a i as bs = Some out \<and> is_product as bs out"
  using assms
proof (induction "(if is_a then Suc (length as) else 0) + (length as - i)"
    arbitrary: is_a i as bs rule: less_induct)
  case less
  define n where "n = length as"
  define i3 where "i3 = (if is_a \<and> skip_consts i as < n then skip_consts i as
      else if is_a then skip_consts 0 bs else skip_consts i bs)"
  define is_a3 where "is_a3 = (is_a \<and> skip_consts i as < n)"
  have le: "skip_consts i as \<le> n" "skip_consts i bs \<le> n" "skip_consts 0 bs \<le> n"
    using skip_consts_length [of i as] skip_consts_length [of i bs] skip_consts_length [of 0 bs]
      less.prems(1,4) by (simp_all add: n_def)
  have state: "(let i = (if is_a then skip_consts i as else i);
          (is_a, i) = (if is_a \<and> i = length as then (False, 0) else (is_a, i));
          i = (if is_a then i else skip_consts i bs) in f is_a i) = f is_a3 i3" for f
    using le(1) by (auto simp: i3_def is_a3_def n_def Let_def)
  have as_const: "\<forall>k < (if is_a3 then i3 else n). is_bool_const (as ! k)"
    using less.prems(5) skip_consts_const [of i _ as] le(1)
    by (auto simp: is_a3_def i3_def n_def not_less) (metis le_antisym not_less)+
  have bs_const: "\<not> is_a3 \<Longrightarrow> \<forall>k < i3. is_bool_const (bs ! k)"
    using less.prems(6) skip_consts_const [of i _ bs] skip_consts_const [of 0 _ bs]
    by (auto simp: is_a3_def i3_def) (metis not_less)+
  have le3: "i3 \<le> n" "is_a = is_a3 \<Longrightarrow> i \<le> i3" "is_a3 \<Longrightarrow> is_a"
    using le by (auto simp: i3_def is_a3_def skip_consts_def)
  note step = const_case_multiplier.simps [of cfg is_a i as bs, unfolded Let_def [of "length as"] state]
  show ?case
  proof (cases "i3 < n")
    case False
    then have "\<not> is_a3" "i3 = n" using le3(1) by (auto simp: is_a3_def i3_def split: if_splits)
    then obtain na nb where v: "is_numeral_val as = Some na" "is_numeral_val bs = Some nb"
      using as_const bs_const is_numeral_val_all less.prems(1) n_def by metis
    then have "const_case_multiplier cfg is_a i as bs = Some (num2bits (na * nb) n)"
      using False by (subst step) (simp add: n_def)
    moreover have "na = bv_val I as \<and> nb = bv_val I bs" for I
      using is_numeral_val_Some v by blast
    ultimately show ?thesis by (auto simp: is_product_def n_def)
  next
    case True
    define x where "x = (if is_a3 then as ! i3 else bs ! i3)"
    define upd where "upd c = (if is_a3 then (as[i3 := c], bs) else (as, bs[i3 := c]))" for c
    have x: "is_bit x" using True less.prems by (simp add: x_def n_def all_bits_nth)
    have ih: "\<exists>out. const_case_multiplier cfg is_a3 (i3 + 1) (fst (upd c)) (snd (upd c)) = Some out
        \<and> is_product (fst (upd c)) (snd (upd c)) out" if "is_bool_const c" for c
    proof (rule less.hyps)
      have "is_bit c" using that by (auto simp: is_bool_const_def)
      then show "all_bits (fst (upd c))" "all_bits (snd (upd c))"
        using less.prems by (simp_all add: upd_def)
      show "(if is_a3 then Suc (length (fst (upd c))) else 0) + (length (fst (upd c)) - (i3 + 1))
          < (if is_a then Suc (length as) else 0) + (length as - i)"
        using True le3 less.prems(4) by (auto simp: upd_def n_def)
      show "\<forall>k < if is_a3 then i3 + 1 else length (fst (upd c)). is_bool_const (fst (upd c) ! k)"
        using as_const that True by (auto simp: upd_def n_def nth_list_update)
      show "\<forall>k < i3 + 1. is_bool_const (snd (upd c) ! k)" if "\<not> is_a3"
        using bs_const that \<open>is_bool_const c\<close> True less.prems(1)
        by (auto simp: upd_def n_def nth_list_update less_Suc_eq)
    qed (use True less.prems in \<open>auto simp: upd_def n_def\<close>)
    obtain out1 out0 where
      o1: "const_case_multiplier cfg is_a3 (i3 + 1) (fst (upd TrueE)) (snd (upd TrueE)) = Some out1"
        "is_product (fst (upd TrueE)) (snd (upd TrueE)) out1" and
      o0: "const_case_multiplier cfg is_a3 (i3 + 1) (fst (upd FalseE)) (snd (upd FalseE)) = Some out0"
        "is_product (fst (upd FalseE)) (snd (upd FalseE)) out0"
      using ih [of TrueE] ih [of FalseE] by (auto simp: is_bool_const_def)
    have "const_case_multiplier cfg is_a i as bs = Some (map2 (g_ite cfg x) out1 out0)"
      using True o1(1) o0(1) by (subst step) (auto simp: n_def x_def upd_def)
    moreover have "is_product as bs (map2 (g_ite cfg x) out1 out0)"
      by (rule map2_ite_product [OF x o1(2) o0(2)])
        (auto simp: upd_def x_def map_holds_update)
    ultimately show ?thesis by blast
  qed
qed

end

subsection \<open>The array multiplier\<close>

definition bitn :: "interp \<Rightarrow> expr \<Rightarrow> nat" where
  "bitn I x = of_bool (holds I x)"

abbreviation count_bits :: "interp \<Rightarrow> expr list \<Rightarrow> nat" where
  "count_bits I xs \<equiv> sum_list (map (bitn I) xs)"

text \<open>The sum of the products of weight \<open>2 ^ c\<close>.\<close>

definition partial_product :: "interp \<Rightarrow> expr list \<Rightarrow> expr list \<Rightarrow> nat \<Rightarrow> nat \<Rightarrow> nat" where
  "partial_product I as bs c j = bitn I (as ! j) * bitn I (bs ! (c - j))"

definition diagonal :: "interp \<Rightarrow> expr list \<Rightarrow> expr list \<Rightarrow> nat \<Rightarrow> nat" where
  "diagonal I as bs c = (\<Sum>j\<le>c. partial_product I as bs c j)"

lemma bits_to_nat_bitn: "bv_val I xs = (\<Sum>i < length xs. bitn I (xs ! i) * 2 ^ i)"
  by (simp add: bits_to_nat_sum bitn_def del: sum_of_bool_mult_eq)

lemma bv_val_snoc: "bv_val I (xs @ [x]) = bv_val I xs + 2 ^ length xs * bitn I x"
  by (simp add: bits_to_nat_append bitn_def)

lemma diagonal_split:
  assumes "1 \<le> i"
  shows "diagonal I as bs i = partial_product I as bs i 0 + partial_product I as bs i 1
    + (\<Sum>j = 2..<Suc i. partial_product I as bs i j)"
proof -
  have "{..i} = {0, 1} \<union> {2..<Suc i}" using assms by auto
  then show ?thesis unfolding diagonal_def by (simp add: sum.union_disjoint)
qed

lemma product_diagonals:
  assumes "length as = n" "length bs = n"
  shows "bv_val I as * bv_val I bs mod 2 ^ n = (\<Sum>c<n. 2 ^ c * diagonal I as bs c) mod 2 ^ n"
  unfolding bits_to_nat_bitn assms diagonal_def partial_product_def
  by (rule truncated_product)

context bit_gates
begin

lemma half_adder_bitn:
  "mk_half_adder cfg a b = (out, cout) \<Longrightarrow> is_bit a \<Longrightarrow> is_bit b \<Longrightarrow>
     bitn I out + 2 * bitn I cout = bitn I a + bitn I b"
  using half_adder(3) by (simp add: bitn_def)

lemma full_adder_bitn:
  "mk_full_adder cfg a b c = (out, cout) \<Longrightarrow> is_bit a \<Longrightarrow> is_bit b \<Longrightarrow> is_bit c \<Longrightarrow>
     bitn I out + 2 * bitn I cout = bitn I a + bitn I b + bitn I c"
  using full_adder(3) by (simp add: bitn_def)

lemma xor_bitn:
  "is_bit a \<Longrightarrow> is_bit b \<Longrightarrow> bitn I (g_xor cfg a b) = (bitn I a + bitn I b) mod 2"
  "is_bit a \<Longrightarrow> is_bit b \<Longrightarrow> is_bit c \<Longrightarrow>
     bitn I (g_xor3 cfg a b c) = (bitn I a + bitn I b + bitn I c) mod 2"
  by (auto simp: bitn_def)

lemma and_bitn:
  "is_bit (as ! j) \<Longrightarrow> is_bit (bs ! (i - j)) \<Longrightarrow>
     bitn I (g_and cfg (as ! j) (bs ! (i - j))) = partial_product I as bs i j"
  by (simp add: bitn_def partial_product_def of_bool_conj)

lemma mult_column:
  assumes "1 \<le> i" "i < length as" "length bs = length as" "all_bits as" "all_bits bs" "all_bits cins"
    and "length cins = i - 1" and "mult_column cfg as bs i cins = (out, couts)"
  shows "is_bit out \<and> all_bits couts \<and> length couts = i
    \<and> bitn I out + 2 * count_bits I couts = diagonal I as bs i + count_bits I cins"
proof -
  define i1 where "i1 = g_and cfg (as ! 0) (bs ! i)"
  define i2 where "i2 = g_and cfg (as ! 1) (bs ! (i - 1))"
  obtain o0 c0 where h: "mk_half_adder cfg i1 i2 = (o0, c0)" by force
  have nth: "is_bit (as ! j)" "is_bit (bs ! j)" if "j \<le> i" for j
    using that assms by (simp_all add: all_bits_nth)
  have i12: "is_bit i1" "is_bit i2" using nth assms(1) by (simp_all add: i1_def i2_def)
  have i12_val: "bitn I i1 = partial_product I as bs i 0" "bitn I i2 = partial_product I as bs i 1"
    using and_bitn [of as 0 bs i I] and_bitn [of as 1 bs i I] nth assms(1)
    by (simp_all add: i1_def i2_def)
  note ha = half_adder [OF h i12]
  have loop: "is_bit o' \<and> all_bits cs \<and> length cs = k - 1
    \<and> bitn I o' + 2 * count_bits I cs = bitn I i1 + bitn I i2
      + (\<Sum>j = 2..<k. partial_product I as bs i j) + count_bits I (take (k - 2) cins)"
    if "fold (mult_cell cfg as bs i cins) [2..<k] (o0, [c0]) = (o', cs)" "2 \<le> k" "k \<le> Suc i" for k o' cs
    using that(2,1,3)
  proof (induction k arbitrary: o' cs rule: dec_induct)
    case base
    then show ?case using ha(1,2) half_adder_bitn [OF h i12, of I] by auto
  next
    case (step k)
    obtain o1 cs1 where f: "fold (mult_cell cfg as bs i cins) [2..<k] (o0, [c0]) = (o1, cs1)" by force
    have ih: "is_bit o1 \<and> all_bits cs1 \<and> length cs1 = k - 1
      \<and> bitn I o1 + 2 * count_bits I cs1 = bitn I i1 + bitn I i2
        + (\<Sum>j = 2..<k. partial_product I as bs i j) + count_bits I (take (k - 2) cins)"
      by (rule step.IH) (use f step.prems in auto)
    define i3 where "i3 = g_and cfg (as ! k) (bs ! (i - k))"
    obtain c1 where fa: "mk_full_adder cfg i3 o1 (cins ! (k - 2)) = (o', c1)" and cs: "cs = cs1 @ [c1]"
    proof -
      have "mult_cell cfg as bs i cins k (o1, cs1) = (o', cs)"
        using step.prems(1) f step.hyps by simp
      then show ?thesis using that by (auto simp: mult_cell_def i3_def split: prod.splits)
    qed
    have k: "k \<le> i" "k - 2 < length cins" using step assms by auto
    have b: "is_bit i3" "is_bit (cins ! (k - 2))"
      using nth k assms(6) by (simp_all add: i3_def all_bits_nth)
    note sum = full_adder(1,2) [OF fa b(1) _ b(2)] full_adder_bitn [OF fa b(1) _ b(2)]
    have i3: "bitn I i3 = partial_product I as bs i k"
      unfolding i3_def by (rule and_bitn) (use nth k in simp_all)
    have "Suc k - 2 = Suc (k - 2)" using step.hyps by simp
    then have tk: "take (Suc k - 2) cins = take (k - 2) cins @ [cins ! (k - 2)]"
      using k(2) by (simp add: take_Suc_conv_app_nth)
    show ?case
      unfolding tk cs using ih sum(1,2) sum(3) [of I] step.hyps by (simp add: i3)
  qed
  have "fold (mult_cell cfg as bs i cins) [2..<Suc i] (o0, [c0]) = (out, couts)"
    using assms(8) h by (simp add: mult_column_def i1_def i2_def Let_def)
  from loop [OF this] show ?thesis
    using assms i12_val by (simp add: diagonal_split)
qed

lemma mult_last_column:
  assumes "1 \<le> i" "i < length as" "length bs = length as" "all_bits as" "all_bits bs" "all_bits cins"
    and "length cins = i - 1"
  shows "is_bit (mult_last_column cfg as bs i cins)
    \<and> bitn I (mult_last_column cfg as bs i cins) = (diagonal I as bs i + count_bits I cins) mod 2"
proof -
  define i1 where "i1 = g_and cfg (as ! 0) (bs ! i)"
  define i2 where "i2 = g_and cfg (as ! 1) (bs ! (i - 1))"
  define cell where "cell = (\<lambda>j out. let i3 = g_and cfg (as ! j) (bs ! (i - j))
      in g_xor3 cfg i3 out (cins ! (j - 2)))"
  have nth: "is_bit (as ! j)" "is_bit (bs ! j)" if "j \<le> i" for j
    using that assms by (simp_all add: all_bits_nth)
  have i12: "is_bit i1" "is_bit i2" using nth assms(1) by (simp_all add: i1_def i2_def)
  have i12_val: "bitn I i1 = partial_product I as bs i 0" "bitn I i2 = partial_product I as bs i 1"
    using and_bitn [of as 0 bs i I] and_bitn [of as 1 bs i I] nth assms(1)
    by (simp_all add: i1_def i2_def)
  have loop: "is_bit (fold cell [2..<k] (g_xor cfg i1 i2))
    \<and> bitn I (fold cell [2..<k] (g_xor cfg i1 i2)) = (bitn I i1 + bitn I i2
      + (\<Sum>j = 2..<k. partial_product I as bs i j) + count_bits I (take (k - 2) cins)) mod 2"
    if "2 \<le> k" "k \<le> Suc i" for k
    using that
  proof (induction k rule: dec_induct)
    case base
    then show ?case using i12 by (simp add: xor_bitn)
  next
    case (step k)
    define o1 where "o1 = fold cell [2..<k] (g_xor cfg i1 i2)"
    define v where "v = bitn I i1 + bitn I i2
        + (\<Sum>j = 2..<k. partial_product I as bs i j) + count_bits I (take (k - 2) cins)"
    have ih: "is_bit o1" "bitn I o1 = v mod 2"
      using step.IH step.prems by (simp_all add: o1_def v_def)
    have k: "k \<le> i" "k - 2 < length cins" using step assms by auto
    have b: "is_bit (cins ! (k - 2))" using k assms(6) by (simp add: all_bits_nth)
    have "Suc k - 2 = Suc (k - 2)" using step.hyps by simp
    then have tk: "take (Suc k - 2) cins = take (k - 2) cins @ [cins ! (k - 2)]"
      using k(2) by (simp add: take_Suc_conv_app_nth)
    have new: "fold cell [2..<Suc k] (g_xor cfg i1 i2)
        = g_xor3 cfg (g_and cfg (as ! k) (bs ! (i - k))) o1 (cins ! (k - 2))"
      using step.hyps by (simp add: o1_def cell_def Let_def)
    have and_k: "is_bit (g_and cfg (as ! k) (bs ! (i - k)))"
      "bitn I (g_and cfg (as ! k) (bs ! (i - k))) = partial_product I as bs i k"
      using nth k by (simp_all add: and_bitn)
    have "bitn I (g_xor3 cfg (g_and cfg (as ! k) (bs ! (i - k))) o1 (cins ! (k - 2)))
        = (partial_product I as bs i k + bitn I o1 + bitn I (cins ! (k - 2))) mod 2"
      using and_k b ih(1) by (simp add: xor_bitn)
    also have "\<dots> = (v + partial_product I as bs i k + bitn I (cins ! (k - 2))) mod 2"
      unfolding ih(2) by (simp add: mod_simps ac_simps)
    also have "\<dots> = (bitn I i1 + bitn I i2
        + (\<Sum>j = 2..<Suc k. partial_product I as bs i j)
        + count_bits I (take (Suc k - 2) cins)) mod 2"
      unfolding tk v_def using step.hyps by (simp add: ac_simps)
    finally show ?case unfolding new using nth k b ih(1) by simp
  qed
  have "mult_last_column cfg as bs i cins = fold cell [2..<Suc i] (g_xor cfg i1 i2)"
    by (simp add: mult_last_column_def cell_def i1_def i2_def Let_def)
  then show ?thesis
    using loop [of "Suc i"] assms i12_val by (simp add: diagonal_split)
qed

lemma mult_steps:
  assumes "length bs = length as" "all_bits as" "all_bits bs" "as \<noteq> []"
    and "1 \<le> k" "k \<le> length as - 1 \<or> k = 1"
    and "fold (mult_step cfg as bs) [1..<k] ([g_and cfg (as ! 0) (bs ! 0)], []) = (out, cins)"
  shows "all_bits out \<and> all_bits cins \<and> length out = k \<and> length cins = k - 1
    \<and> bv_val I out + 2 ^ k * count_bits I cins = (\<Sum>c<k. 2 ^ c * diagonal I as bs c)"
  using assms(5-)
proof (induction k arbitrary: out cins rule: dec_induct)
  case base
  have "is_bit (as ! 0)" "is_bit (bs ! 0)"
    using assms(1-4) by (auto simp: all_bits_nth)
  then show ?case using base and_bitn [of as 0 bs 0 I] by (auto simp: diagonal_def bitn_def)
next
  case (step k)
  obtain o1 c1 where f: "fold (mult_step cfg as bs) [1..<k] ([g_and cfg (as ! 0) (bs ! 0)], []) = (o1, c1)"
    by force
  have ih: "all_bits o1 \<and> all_bits c1 \<and> length o1 = k \<and> length c1 = k - 1
    \<and> bv_val I o1 + 2 ^ k * count_bits I c1 = (\<Sum>c<k. 2 ^ c * diagonal I as bs c)"
    by (rule step.IH) (use f step.prems(1) in auto)
  have k: "k < length as - 1" using step.prems step.hyps by auto
  obtain o2 where c: "mult_column cfg as bs k c1 = (o2, cins)" and out: "out = o1 @ [o2]"
  proof -
    have "mult_step cfg as bs k (o1, c1) = (out, cins)"
      using step.prems(2) f step.hyps by simp
    then show ?thesis using that k by (auto simp: mult_step_def split: prod.splits)
  qed
  have col: "is_bit o2 \<and> all_bits cins \<and> length cins = k
    \<and> bitn I o2 + 2 * count_bits I cins = diagonal I as bs k + count_bits I c1"
    by (rule mult_column) (use c k ih assms step.hyps in auto)
  have "bv_val I out + 2 ^ Suc k * count_bits I cins
      = bv_val I o1 + 2 ^ k * (bitn I o2 + 2 * count_bits I cins)"
    using ih by (simp add: out bv_val_snoc algebra_simps del: map_append)
  also have "\<dots> = (\<Sum>c<Suc k. 2 ^ c * diagonal I as bs c)"
    using col ih by (simp add: algebra_simps)
  finally show ?case using col ih step.hyps by (simp add: out)
qed

lemma array_multiplier:
  assumes "length bs = length as" "all_bits as" "all_bits bs" "as \<noteq> []"
  shows "is_product as bs (array_multiplier cfg as bs)"
proof -
  define n where "n = length as"
  define k where "k = (if n = 1 then 1 else n - 1)"
  have n1: "1 \<le> n" using assms(4) by (simp add: n_def Suc_le_eq)
  then have n: "1 \<le> n" "1 \<le> k" by (auto simp: k_def)
  obtain out cins where f: "fold (mult_step cfg as bs) [1..<k] ([g_and cfg (as ! 0) (bs ! 0)], []) = (out, cins)"
    by force
  have inv: "all_bits out \<and> all_bits cins \<and> length out = k \<and> length cins = k - 1
    \<and> bv_val I out + 2 ^ k * count_bits I cins = (\<Sum>c<k. 2 ^ c * diagonal I as bs c)" for I
    by (rule mult_steps) (use assms f n in \<open>auto simp: k_def n_def\<close>)
  have prod: "bv_val I as * bv_val I bs mod 2 ^ n = (\<Sum>c<n. 2 ^ c * diagonal I as bs c) mod 2 ^ n" for I
    using product_diagonals [of as n bs I] assms(1) by (simp add: n_def)
  show ?thesis
  proof (cases "n = 1")
    case True
    then have "array_multiplier cfg as bs = out" "k = 1" "cins = []"
      using f inv by (auto simp: array_multiplier_def k_def n_def [symmetric])
    moreover have "bv_val I out < 2 ^ n" for I
      using bits_to_nat_less [of "map (holds I) out"] inv True \<open>k = 1\<close> by simp
    ultimately show ?thesis
      using inv prod True unfolding is_product_def n_def [symmetric] by simp
  next
    case False
    then have k: "k = n - 1" "n = Suc k" using n by (auto simp: k_def)
    define o2 where "o2 = mult_last_column cfg as bs k cins"
    have arr: "array_multiplier cfg as bs = out @ [o2]"
      using f n(2) unfolding array_multiplier_def n_def [symmetric] k(2)
      by (simp add: mult_step_def o2_def n_def [symmetric] k(2))
    have last: "is_bit o2 \<and> bitn I o2 = (diagonal I as bs k + count_bits I cins) mod 2" for I
      unfolding o2_def by (rule mult_last_column) (use assms n k inv in \<open>auto simp: n_def\<close>)
    have val: "bv_val I (out @ [o2]) = bv_val I as * bv_val I bs mod 2 ^ n" for I
    proof -
      have sum: "(\<Sum>c<n. 2 ^ c * diagonal I as bs c)
          = bv_val I out + 2 ^ k * (diagonal I as bs k + count_bits I cins)"
        using inv [of I] by (simp add: k(2) algebra_simps)
      have len: "bv_val I out < 2 ^ k" using bits_to_nat_less [of "map (holds I) out"] inv by simp
      have "(bv_val I out + 2 ^ k * w) mod 2 ^ n = bv_val I out + 2 ^ k * (w mod 2)" for w
      proof -
        have "(bv_val I out + 2 ^ k * w) mod (2 ^ k * 2) = bv_val I out + 2 ^ k * (w mod 2)"
          by (subst mod_mult2_eq) (use len in simp)
        then show ?thesis by (simp add: k(2) mult.commute)
      qed
      then show ?thesis
        unfolding prod sum bv_val_snoc using inv last [of I] by simp
    qed
    then show ?thesis
      using inv last k(2) unfolding is_product_def arr n_def [symmetric] by simp
  qed
qed

end

subsection \<open>The multiplier\<close>

lemma is_product_commute:
  "is_product bs as out \<Longrightarrow> length as = length bs \<Longrightarrow> is_product as bs out"
  by (simp add: is_product_def mult.commute)

lemma neg_product: "(a :: nat) < m \<Longrightarrow> (m - a) mod m = a * (m - 1) mod m"
proof (cases a)
  case (Suc a')
  assume "a < m"
  then have "a * (m - 1) = (m - a) + a' * m"
    using Suc by (simp add: algebra_simps diff_mult_distrib2)
  then show ?thesis by simp
qed simp

context bit_gates
begin

lemma neg_is_product:
  assumes "all_bits as" "is_minus_one bs" "length as = length bs"
  shows "is_product as bs (mk_neg cfg as)"
proof -
  have "bv_val I as < 2 ^ length bs" for I
    using bits_to_nat_less [of "map (holds I) as"] assms(3) by simp
  then show ?thesis
    using assms mk_neg_val [OF assms(1)] is_minus_one_val [OF assms(2)]
    unfolding is_product_def by (simp add: neg_product)
qed

lemma mk_const_case_multiplier:
  assumes "length bs = length as" "all_bits as" "all_bits bs"
    and "mk_const_case_multiplier cfg as bs = Some out"
  shows "is_product as bs out"
  using const_case_multiplier [of bs as 0 True] assms
  by (auto simp: mk_const_case_multiplier_def Let_def split: if_splits)

lemma mk_multiplier_product:
  assumes "length bs = length as" "all_bits as" "all_bits bs" "as \<noteq> []"
  shows "is_product as bs (mk_multiplier cfg as bs)"
proof -
  define rest where "rest as bs =
    (case mk_const_case_multiplier cfg as bs of
       Some out \<Rightarrow> out | None \<Rightarrow> array_multiplier cfg as bs)" for as bs
  have rest: "is_product xs ys (rest xs ys)"
    if "length ys = length xs" "all_bits xs" "all_bits ys" "xs \<noteq> []" for xs ys
    using mk_const_case_multiplier [OF that(1-3)] array_multiplier [OF that]
    by (auto simp: rest_def split: option.splits)
  show ?thesis
  proof (cases "is_numeral_val as")
    case None
    then have "mk_multiplier cfg as bs = (if is_minus_one bs then mk_neg cfg as else rest as bs)"
      by (simp add: mk_multiplier_def rest_def split: option.splits)
    then show ?thesis using neg_is_product rest assms by simp
  next
    case (Some na)
    have na: "na = bv_val I as" for I using is_numeral_val_Some [OF Some] by blast
    have "is_product bs as (mk_multiplier cfg as bs)"
    proof (cases "is_minus_one as \<or> is_numeral_val bs = None")
      case True
      then have "mk_multiplier cfg as bs = (if is_minus_one as then mk_neg cfg bs else rest bs as)"
        using Some by (auto simp: mk_multiplier_def rest_def split: option.splits)
      moreover have "bs \<noteq> []" using assms by auto
      ultimately show ?thesis using neg_is_product [of bs as] rest [of as bs] assms by auto
    next
      case False
      then obtain nb where nb: "is_numeral_val bs = Some nb" by blast
      then have "nb = bv_val I bs" for I using is_numeral_val_Some by blast
      moreover have "mk_multiplier cfg as bs = num2bits (nb * na) (length bs)"
        using False Some nb by (simp add: mk_multiplier_def)
      ultimately show ?thesis using na by (simp add: is_product_def)
    qed
    then show ?thesis using assms(1) is_product_commute by simp
  qed
qed

lemma mk_multiplier_bits:
  assumes "length bs = length as" "all_bits as" "all_bits bs" "as \<noteq> []"
  shows "all_bits (mk_multiplier cfg as bs)" "length (mk_multiplier cfg as bs) = length as"
  using mk_multiplier_product [OF assms] by (simp_all add: is_product_def)

lemma mk_multiplier_val:
  assumes "length bs = length as" "all_bits as" "all_bits bs" "as \<noteq> []"
  shows "bv_val I (mk_multiplier cfg as bs) = bv_val I as * bv_val I bs mod 2 ^ length as"
  using mk_multiplier_product [OF assms] by (simp add: is_product_def)

lemma umul_ovf_loop:
  assumes "length bs = length as" "all_bits as" "all_bits bs" "is_bit ovf" "is_bit v"
    and "1 \<le> i" "i \<le> length as"
    and "\<forall>I. holds I ovf = (\<exists>k < length as. length as < i + k \<and> holds I (as ! k))"
  shows "is_bit (umul_ovf_loop cfg as bs ovf v [i..<length as])
    \<and> (\<forall>I. holds I (umul_ovf_loop cfg as bs ovf v [i..<length as]) \<longleftrightarrow>
         holds I v \<or> (\<exists>j. i \<le> j \<and> j < length as \<and> (\<exists>k < length as. length as \<le> j + k
           \<and> holds I (as ! k) \<and> holds I (bs ! j))))"
  using assms(4-)
proof (induction "length as - i" arbitrary: i ovf v)
  case 0
  then show ?case by auto
next
  case (Suc d)
  define n where "n = length as"
  have i: "i < n" using Suc.hyps(2) n_def by simp
  define ovf' where "ovf' = g_or cfg ovf (as ! (n - i))"
  define v' where "v' = g_or cfg (g_and cfg ovf' (bs ! i)) v"
  have nth: "is_bit (as ! (n - i))" "is_bit (bs ! i)"
    using i Suc.prems(3) assms(1-3) by (auto simp: n_def intro!: all_bits_nth)
  have ovf': "is_bit ovf'" "holds I ovf' = (\<exists>k < n. n < Suc i + k \<and> holds I (as ! k))" for I
  proof -
    show "is_bit ovf'" using Suc.prems nth by (simp add: ovf'_def)
    have "(\<exists>k < n. n < Suc i + k \<and> holds I (as ! k))
        \<longleftrightarrow> (\<exists>k < n. n < i + k \<and> holds I (as ! k)) \<or> holds I (as ! (n - i))"
    proof -
      have eq: "n < Suc i + k \<longleftrightarrow> n < i + k \<or> k = n - i" for k using i by auto
      have "n - i < n" using i Suc.prems(3) by simp
      then show ?thesis unfolding eq by blast
    qed
    then show "holds I ovf' = (\<exists>k < n. n < Suc i + k \<and> holds I (as ! k))"
      using Suc.prems nth by (simp add: ovf'_def n_def)
  qed
  have v': "is_bit v'" "holds I v' = (holds I v \<or>
      (\<exists>k < n. n \<le> i + k \<and> holds I (as ! k) \<and> holds I (bs ! i)))" for I
    using ovf' nth Suc.prems by (auto simp: v'_def less_Suc_eq_le)
  have split: "[i..<n] = i # [Suc i..<n]" using i by (simp add: upt_conv_Cons)
  have "is_bit (umul_ovf_loop cfg as bs ovf' v' [Suc i..<n])
    \<and> (\<forall>I. holds I (umul_ovf_loop cfg as bs ovf' v' [Suc i..<n]) \<longleftrightarrow>
         holds I v' \<or> (\<exists>j. Suc i \<le> j \<and> j < n \<and> (\<exists>k < n. n \<le> j + k
           \<and> holds I (as ! k) \<and> holds I (bs ! j))))"
    unfolding n_def by (rule Suc.hyps(1)) (use Suc.hyps(2) i ovf' v' in \<open>auto simp: n_def\<close>)
  moreover have "(\<exists>j. i \<le> j \<and> j < n \<and> P j) \<longleftrightarrow> P i \<or> (\<exists>j. Suc i \<le> j \<and> j < n \<and> P j)" for P
    using i by (metis Suc_le_eq le_neq_implies_less order_refl less_imp_le)
  moreover have "umul_ovf_loop cfg as bs ovf v [i..<n] = umul_ovf_loop cfg as bs ovf' v' [Suc i..<n]"
    unfolding split by (simp add: Let_def ovf'_def v'_def n_def)
  ultimately show ?case unfolding n_def [symmetric] by (simp add: v'(2) disj_assoc)
qed

lemma mk_umul_no_overflow:
  assumes "length bs = length as" "all_bits as" "all_bits bs" "as \<noteq> []"
  shows "is_bit (mk_umul_no_overflow cfg as bs)"
    and "holds I (mk_umul_no_overflow cfg as bs) \<longleftrightarrow> bv_val I as * bv_val I bs < 2 ^ length as"
proof -
  define n where "n = length as"
  define out where "out = mk_multiplier cfg (as @ [FalseE]) (bs @ [FalseE])"
  define ov2 where "ov2 = umul_ovf_loop cfg as bs FalseE FalseE [1..<n]"
  have out: "all_bits out" "length out = Suc n"
    "bv_val I out = bv_val I as * bv_val I bs mod 2 ^ Suc n" for I
    unfolding out_def using mk_multiplier_bits [of "bs @ [FalseE]" "as @ [FalseE]"]
      mk_multiplier_val [of "bs @ [FalseE]" "as @ [FalseE]" I] assms
    by (simp_all add: n_def bits_to_nat_append)
  have bit: "is_bit (out ! n)" using out by (simp add: all_bits_nth)
  have ov1: "holds I (out ! n) = odd (bv_val I as * bv_val I bs mod 2 ^ Suc n div 2 ^ n)"
    using bits_to_nat_nth [of n "map (holds I) out"] out(2) unfolding out(3) by simp
  have n0: "1 \<le> n" using assms(4) by (simp add: n_def Suc_le_eq)
  have ov2: "is_bit ov2" "holds I ov2 \<longleftrightarrow>
      (\<exists>j. 1 \<le> j \<and> j < n \<and> (\<exists>k < n. n \<le> j + k \<and> holds I (as ! k) \<and> holds I (bs ! j)))"
    using umul_ovf_loop [of bs as FalseE FalseE 1] assms n0 unfolding ov2_def n_def by auto
  have "holds I ov2 \<longleftrightarrow> (\<exists>j < n. \<exists>k < n. n \<le> j + k \<and> map (holds I) as ! k \<and> map (holds I) bs ! j)"
  proof -
    have nth: "map (holds I) as ! k = holds I (as ! k)" "map (holds I) bs ! k = holds I (bs ! k)"
      if "k < n" for k using that assms(1) by (simp_all add: n_def)
    have "1 \<le> j" if "n \<le> j + k" "k < n" for j k using that by simp
    then show ?thesis unfolding ov2(2) using nth by metis
  qed
  then have "holds I (out ! n) \<or> holds I ov2 \<longleftrightarrow> 2 ^ n \<le> bv_val I as * bv_val I bs"
    unfolding ov1 by (subst product_overflow [of _ n]) (use assms in \<open>auto simp: n_def\<close>)
  then show "holds I (mk_umul_no_overflow cfg as bs) \<longleftrightarrow> bv_val I as * bv_val I bs < 2 ^ length as"
    using bit ov2(1) unfolding mk_umul_no_overflow_def n_def [symmetric] out_def [symmetric]
      ov2_def [symmetric] Let_def by (simp add: not_le [symmetric])
  show "is_bit (mk_umul_no_overflow cfg as bs)"
    using bit ov2(1) unfolding mk_umul_no_overflow_def n_def [symmetric] out_def [symmetric]
      ov2_def [symmetric] Let_def by simp
qed

end

subsection \<open>Properties\<close>

text \<open>C19: the multiplier of both configurations computes the product modulo \<open>2 ^ sz\<close>, by whichever
  of its four routes (a numeral, minus one, the case split or the array of adders) it goes.\<close>

theorem multiplier_correct:
  assumes "cfg \<in> blaster_cfgs m rw ext" "all_bits as" "all_bits bs"
    and "length bs = length as" "as \<noteq> []"
  shows "all_bits (mk_multiplier cfg as bs) \<and> length (mk_multiplier cfg as bs) = length as
    \<and> bv_val I (mk_multiplier cfg as bs) = bv_val I as * bv_val I bs mod 2 ^ length as"
  using assms bb.mk_multiplier_bits bb.mk_multiplier_val bl.mk_multiplier_bits bl.mk_multiplier_val
  by (elim blaster_cfgs_cases) simp_all

theorem multiplier_correct_witness:
  "bv_val I0 (mk_multiplier (blaster_cfg m0 blaster_rw) [v0, v1, v2] [v2, v0, v1]) = 7"
  using multiplier_correct [of "blaster_cfg m0 blaster_rw" m0 blaster_rw True
      "[v0, v1, v2]" "[v2, v0, v1]" I0]
  by (simp add: blaster_cfgs_def)

text \<open>\<open>mk_umul_no_overflow\<close> builds a bit that holds exactly when the product of the two
  numbers fits into \<open>sz\<close> bits.\<close>

lemma umul_no_overflow_correct:
  assumes "cfg \<in> blaster_cfgs m rw ext" "all_bits as" "all_bits bs"
    and "length bs = length as" "as \<noteq> []"
  shows "is_bit (mk_umul_no_overflow cfg as bs)
    \<and> (holds I (mk_umul_no_overflow cfg as bs) \<longleftrightarrow> bv_val I as * bv_val I bs < 2 ^ length as)"
  using assms bb.mk_umul_no_overflow bl.mk_umul_no_overflow
  by (elim blaster_cfgs_cases) simp_all

lemma umul_no_overflow_correct_witness:
  "\<not> holds I0 (mk_umul_no_overflow (blaster_cfg m0 blaster_rw) [v0, v1, v2] [v2, v0, v1])"
  using umul_no_overflow_correct [of "blaster_cfg m0 blaster_rw" m0 blaster_rw True
      "[v0, v1, v2]" "[v2, v0, v1]" I0]
  by (simp add: blaster_cfgs_def)

text \<open>the adder, the negation, the subtracter and the carry save adder compute their
  functions modulo \<open>2 ^ sz\<close>; the carry of the subtracter says that nothing was borrowed.\<close>

lemma adders_correct:
  assumes "cfg \<in> blaster_cfgs m rw ext" "all_bits as" "all_bits bs" "all_bits cs"
    and "length bs = length as" "length cs = length as"
  shows "bv_val I (mk_adder cfg as bs) = (bv_val I as + bv_val I bs) mod 2 ^ length as
    \<and> bv_val I (mk_neg cfg as) = (2 ^ length as - bv_val I as) mod 2 ^ length as
    \<and> (case mk_subtracter cfg as bs of (out, cout) \<Rightarrow>
         bv_val I out = (2 ^ length as + bv_val I as - bv_val I bs) mod 2 ^ length as
         \<and> (holds I cout \<longleftrightarrow> bv_val I bs \<le> bv_val I as))
    \<and> (case mk_carry_save_adder cfg as bs cs of (sums, carries) \<Rightarrow>
         bv_val I sums + 2 * bv_val I carries = bv_val I as + bv_val I bs + bv_val I cs)"
proof -
  have g: "bit_gates cfg"
    using assms(1) bb.bit_gates_axioms bl.bit_gates_axioms by (elim blaster_cfgs_cases) simp_all
  obtain out cout where sub: "mk_subtracter cfg as bs = (out, cout)" by force
  obtain sums carries where csa: "mk_carry_save_adder cfg as bs cs = (sums, carries)" by force
  have less: "bv_val I as < 2 ^ length as" "bv_val I bs < 2 ^ length as"
    using bits_to_nat_less [of "map (holds I) as"] bits_to_nat_less [of "map (holds I) bs"] assms(5)
    by simp_all
  have "bv_val I out = (2 ^ length as + bv_val I as - bv_val I bs) mod 2 ^ length as"
    using bit_gates.mk_subtracter_val(1) [OF g assms(5) [symmetric] assms(2,3) sub, of I] less
    by (auto simp: mod_if)
  then show ?thesis
    using bit_gates.mk_adder_val [OF g assms(5) [symmetric] assms(2,3), of I]
      bit_gates.mk_neg_val [OF g assms(2), of I]
      bit_gates.mk_subtracter_val(2) [OF g assms(5) [symmetric] assms(2,3) sub, of I]
      bit_gates.mk_carry_save_adder [OF g assms(5) [symmetric] _ assms(2-4) csa, of I] assms(5,6) sub csa
    by simp
qed

lemma adders_correct_witness:
  "bv_val I0 (mk_adder (bit_blaster_cfg m0 bit_blaster_rw True) [v0, v1, v2] [v2, v0, v1]) = 0"
  using adders_correct [of "bit_blaster_cfg m0 bit_blaster_rw True" m0 bit_blaster_rw True
      "[v0, v1, v2]" "[v2, v0, v1]" "[v0, v0, v0]" I0]
  by (simp add: blaster_cfgs_def)

text \<open>the case split of the multiplier always ends in numerals: the checks \<open>VERIFY\<close> at its
  leaves never fail.\<close>

lemma const_case_never_fails:
  assumes "cfg \<in> blaster_cfgs m rw ext" "all_bits as" "all_bits bs" "length bs = length as"
  shows "const_case_multiplier cfg True 0 as bs \<noteq> None"
  using assms bb.const_case_multiplier [of bs as 0 True m rw ext]
    bl.const_case_multiplier [of bs as 0 True m rw]
  by (elim blaster_cfgs_cases) auto

lemma const_case_never_fails_witness:
  "const_case_multiplier (blaster_cfg m0 blaster_rw) True 0 [v0, TrueE] [FalseE, v1] \<noteq> None"
  using const_case_never_fails [of "blaster_cfg m0 blaster_rw" m0 blaster_rw True
      "[v0, TrueE]" "[FalseE, v1]"]
  by (simp add: blaster_cfgs_def)

text \<open>\<open>num2bits\<close> and \<open>is_numeral\<close> are inverse: the bits of a number are read back as the
  number modulo \<open>2 ^ sz\<close>, for sizes below and above the 32 bits that are taken at a time.\<close>

lemma num2bits_roundtrip: "is_numeral_val (num2bits v n) = Some (v mod 2 ^ n)"
proof -
  have "is_numeral (num2bits v n)"
    by (simp add: is_numeral_def num2bits_eq list_all_iff)
  then obtain w where w: "is_numeral_val (num2bits v n) = Some w"
    using is_numeral_val_iff by blast
  then show ?thesis using is_numeral_val_Some [OF w, where I = undefined] by simp
qed

end
