(* ===== verification/Blaster_Div.thy ===== *)
theory Blaster_Div
  imports Blaster_Arith "HOL-Library.Signed_Division"
begin

text \<open>
  The dividers of \<open>bit_blaster_tpl_def.h\<close>: restoring division, absolute value, the three signed
  operations, and the equality and extension circuits they use. Division by zero follows the
  theory of bit vectors: the quotient is all ones and the remainder is the dividend.
\<close>

subsection \<open>Unsigned division\<close>

text \<open>
  One stage: \<open>p\<close> is the residual, \<open>t\<close> the difference, \<open>q\<close> the quotient bit. The source updates
  \<open>p\<close> in place from the top bit down, so that it reads the old bits.
\<close>

definition udiv_step ::
    "bb_cfg \<Rightarrow> expr list \<Rightarrow> expr list \<Rightarrow> nat \<Rightarrow> expr list \<times> expr list \<Rightarrow> expr list \<times> expr list" where
  "udiv_step cfg a_bits b_bits i = (\<lambda>(q_bits, p).
     let sz = length a_bits;
         (t, q) = mk_subtracter cfg p b_bits;
         q_bits = q_bits[sz - i - 1 := q]
     in if i < sz - 1 then
          (q_bits, a_bits ! (sz - i - 2) # map (\<lambda>j. g_ite cfg q (t ! (j - 1)) (p ! (j - 1))) [1..<sz])
        else (q_bits, map (\<lambda>j. g_ite cfg q (t ! j) (p ! j)) [0..<sz]))"

definition mk_udiv_urem ::
    "bb_cfg \<Rightarrow> expr list \<Rightarrow> expr list \<Rightarrow> expr list \<times> expr list" where
  "mk_udiv_urem cfg a_bits b_bits =
     (let sz = length a_bits;
          p = a_bits ! (sz - 1) # replicate (sz - 1) FalseE;
          q_bits = replicate sz FalseE
      in fold (udiv_step cfg a_bits b_bits) [0..<sz] (q_bits, p))"

definition mk_udiv :: "bb_cfg \<Rightarrow> expr list \<Rightarrow> expr list \<Rightarrow> expr list" where
  "mk_udiv cfg a_bits b_bits = fst (mk_udiv_urem cfg a_bits b_bits)"

definition mk_urem :: "bb_cfg \<Rightarrow> expr list \<Rightarrow> expr list \<Rightarrow> expr list" where
  "mk_urem cfg a_bits b_bits = snd (mk_udiv_urem cfg a_bits b_bits)"

subsection \<open>Absolute value, extension and equality\<close>

definition mk_abs :: "bb_cfg \<Rightarrow> expr list \<Rightarrow> expr list" where
  "mk_abs cfg a_bits =
     (let a_msb = a_bits ! (length a_bits - 1)
      in if a_msb = FalseE then a_bits
         else if a_msb = TrueE then mk_neg cfg a_bits
         else mk_multiplexer cfg a_msb (mk_neg cfg a_bits) a_bits)"

definition mk_zero_extend :: "expr list \<Rightarrow> nat \<Rightarrow> expr list" where
  "mk_zero_extend a_bits n = a_bits @ replicate n FalseE"

definition mk_sign_extend :: "expr list \<Rightarrow> nat \<Rightarrow> expr list" where
  "mk_sign_extend a_bits n = a_bits @ replicate n (a_bits ! (length a_bits - 1))"

definition mk_eq_bv :: "bb_cfg \<Rightarrow> expr list \<Rightarrow> expr list \<Rightarrow> expr" where
  "mk_eq_bv cfg a_bits b_bits = g_and_n cfg (map2 (g_iff cfg) a_bits b_bits)"

subsection \<open>Signed division\<close>

definition mk_sdiv :: "bb_cfg \<Rightarrow> expr list \<Rightarrow> expr list \<Rightarrow> expr list" where
  "mk_sdiv cfg a_bits b_bits =
     (let a_msb = a_bits ! (length a_bits - 1);
          b_msb = b_bits ! (length a_bits - 1)
      in if a_msb = FalseE \<and> b_msb = FalseE then mk_udiv cfg a_bits b_bits
         else if a_msb = FalseE \<and> b_msb = TrueE then
           mk_neg cfg (mk_udiv cfg a_bits (mk_neg cfg b_bits))
         else if a_msb = TrueE \<and> b_msb = FalseE then
           mk_neg cfg (mk_udiv cfg (mk_neg cfg a_bits) b_bits)
         else if a_msb = TrueE \<and> b_msb = TrueE then
           mk_udiv cfg (mk_neg cfg a_bits) (mk_neg cfg b_bits)
         else
           (let abs_a_bits = mk_abs cfg a_bits;
                abs_b_bits = mk_abs cfg b_bits;
                udiv_bits = mk_udiv cfg abs_a_bits abs_b_bits;
                neg_udiv_bits = mk_neg cfg udiv_bits;
                c = g_iff cfg a_msb b_msb
            in mk_multiplexer cfg c udiv_bits neg_udiv_bits))"

text \<open>\<open>rational::is_power_of_two\<close> of \<open>util/rational.h\<close>: the exponent of a power of two.\<close>

fun is_power_of_two :: "nat \<Rightarrow> nat option" where
  "is_power_of_two v =
     (if v = 0 then None
      else if v = 1 then Some 0
      else if even v then map_option Suc (is_power_of_two (v div 2))
      else None)"

declare is_power_of_two.simps [simp del]

definition mk_srem :: "bb_cfg \<Rightarrow> expr list \<Rightarrow> expr list \<Rightarrow> expr list" where
  "mk_srem cfg a_bits b_bits =
     (let sz = length a_bits;
          a_msb = a_bits ! (sz - 1);
          b_msb = b_bits ! (sz - 1)
      in if a_msb = FalseE \<and> b_msb = FalseE then mk_urem cfg a_bits b_bits
         else if a_msb = FalseE \<and> b_msb = TrueE then mk_urem cfg a_bits (mk_neg cfg b_bits)
         else if a_msb = TrueE \<and> b_msb = FalseE then
           mk_neg cfg (mk_urem cfg (mk_neg cfg a_bits) b_bits)
         else if a_msb = TrueE \<and> b_msb = TrueE then
           mk_neg cfg (mk_urem cfg (mk_neg cfg a_bits) (mk_neg cfg b_bits))
         else
           (let abs_a_bits = mk_abs cfg a_bits;
                abs_b_bits = mk_abs cfg b_bits;
                urem_bits =
                  (case Option.bind (is_numeral_val abs_b_bits) is_power_of_two of
                     Some shift \<Rightarrow> mk_zero_extend (take shift abs_a_bits) (sz - shift)
                   | None \<Rightarrow> mk_urem cfg abs_a_bits abs_b_bits);
                neg_urem_bits = mk_neg cfg urem_bits
            in mk_multiplexer cfg a_msb neg_urem_bits urem_bits))"

definition mk_smod :: "bb_cfg \<Rightarrow> expr list \<Rightarrow> expr list \<Rightarrow> expr list" where
  "mk_smod cfg a_bits b_bits =
     (let sz = length a_bits;
          a_msb = a_bits ! (sz - 1);
          b_msb = b_bits ! (sz - 1);
          abs_a_bits = mk_abs cfg a_bits;
          abs_b_bits = mk_abs cfg b_bits;
          u_bits = mk_urem cfg abs_a_bits abs_b_bits;
          neg_u_bits = mk_neg cfg u_bits;
          neg_u_add_b = mk_adder cfg neg_u_bits b_bits;
          u_add_b = mk_adder cfg u_bits b_bits;
          zero = num2bits 0 sz;
          u_eq_0 = mk_eq_bv cfg u_bits zero;
          pp_bits = u_bits; pn_bits = u_add_b; np_bits = neg_u_add_b; nn_bits = neg_u_bits;
          ite1 = mk_multiplexer cfg b_msb nn_bits np_bits;
          ite2 = mk_multiplexer cfg b_msb pn_bits pp_bits;
          body = mk_multiplexer cfg a_msb ite1 ite2
      in mk_multiplexer cfg u_eq_0 u_bits body)"

subsection \<open>Long division\<close>

lemma long_div_step:
  fixes w b c :: nat
  assumes "c \<le> 1"
  defines "x \<equiv> 2 * (w mod b) + c"
  shows "(2 * w + c) mod b = (if b \<le> x then x - b else x)"
    and "0 < b \<Longrightarrow> (2 * w + c) div b = 2 * (w div b) + of_bool (b \<le> x)"
proof -
  have w: "2 * w + c = x + b * (2 * (w div b))"
    unfolding x_def using mult_div_mod_eq [of b w] by (metis (no_types, lifting) add.assoc
      add.commute distrib_left mult.left_commute)
  have mod: "(2 * w + c) mod b = x mod b" unfolding w by simp
  show "(2 * w + c) mod b = (if b \<le> x then x - b else x)"
  proof (cases "b = 0")
    case False
    then have "x < 2 * b" using assms(1) mod_less_divisor [of b w] unfolding x_def by linarith
    then show ?thesis unfolding mod by (simp add: mod_if)
  qed (simp add: x_def)
  assume b: "0 < b"
  then have "x < 2 * b" using assms(1) mod_less_divisor [of b w] unfolding x_def by linarith
  then have "x div b = of_bool (b \<le> x)" using b by (auto simp: div_nat_eqI)
  then show "(2 * w + c) div b = 2 * (w div b) + of_bool (b \<le> x)"
    unfolding w using b by simp
qed

text \<open>The quotient that the theory of bit vectors prescribes.\<close>

definition bv_udiv :: "nat \<Rightarrow> nat \<Rightarrow> nat \<Rightarrow> nat" where
  "bv_udiv n a b = (if b = 0 then 2 ^ n - 1 else a div b)"

context bit_gates
begin

text \<open>One stage of the division of the top \<open>i + 1\<close> bits.\<close>

lemma udiv_stage:
  assumes "all_bits p" "all_bits bs" "length p = length bs" "mk_subtracter cfg p bs = (t, q)"
    and "bv_val I p = 2 * (w mod bv_val I bs) + c" "c \<le> 1"
  shows "is_bit q" "all_bits (mk_multiplexer cfg q t p)" "length (mk_multiplexer cfg q t p) = length bs"
    and "bv_val I (mk_multiplexer cfg q t p) = (2 * w + c) mod bv_val I bs"
    and "holds I q \<longleftrightarrow> bv_val I bs \<le> 2 * (w mod bv_val I bs) + c"
proof -
  note t = mk_subtracter_bits [OF assms(3,1,2,4)]
  show "is_bit q" "all_bits (mk_multiplexer cfg q t p)" "length (mk_multiplexer cfg q t p) = length bs"
    using t assms by simp_all
  show "holds I q \<longleftrightarrow> bv_val I bs \<le> 2 * (w mod bv_val I bs) + c"
    using mk_subtracter_val(2) [OF assms(3,1,2,4), of I] assms(5) by simp
  then show "bv_val I (mk_multiplexer cfg q t p) = (2 * w + c) mod bv_val I bs"
    using mk_subtracter_val(1) [OF assms(3,1,2,4), of I] mk_multiplexer_holds [of t p q I] t assms
      long_div_step(1) [OF assms(6), of w "bv_val I bs"] by simp
qed

lemma map_ite_multiplexer:
  assumes "length t = length p" "k \<le> length p"
  shows "map (\<lambda>j. g_ite cfg q (t ! j) (p ! j)) [0..<k] = take k (mk_multiplexer cfg q t p)"
  using assms by (auto intro!: nth_equalityI simp: mk_multiplexer_def)

text \<open>The top \<open>i\<close> bits of a list, and the next one.\<close>

lemma top_bits_step:
  assumes "i < length xs"
  shows "bits_to_nat xs div 2 ^ (length xs - Suc i)
    = 2 * (bits_to_nat xs div 2 ^ (length xs - i)) + of_bool (xs ! (length xs - Suc i))"
proof -
  have "Suc (length xs - Suc i) = length xs - i" using assms by simp
  then have "drop (length xs - Suc i) xs = xs ! (length xs - Suc i) # drop (length xs - i) xs"
    using Cons_nth_drop_Suc [of "length xs - Suc i" xs] assms by simp
  then show ?thesis
    using bits_to_nat_drop [of "length xs - Suc i" xs] bits_to_nat_drop [of "length xs - i" xs] by simp
qed

definition udiv_inv :: "expr list \<Rightarrow> expr list \<Rightarrow> nat \<Rightarrow> expr list \<Rightarrow> bool" where
  "udiv_inv as bs i qs \<longleftrightarrow> all_bits qs \<and> length qs = length as
     \<and> (\<forall>I. bv_val I (drop (length as - i) qs)
           = bv_udiv i (bv_val I as div 2 ^ (length as - i)) (bv_val I bs))"

lemma udiv_quotient_step:
  assumes "udiv_inv as bs i qs" "i < length as" "is_bit q"
    and "\<And>I. holds I q \<longleftrightarrow> bv_val I bs
      \<le> 2 * (bv_val I as div 2 ^ (length as - i) mod bv_val I bs) + of_bool (holds I (as ! (length as - Suc i)))"
  shows "udiv_inv as bs (Suc i) (qs[length as - i - 1 := q])"
proof -
  define n where "n = length as"
  have len: "length qs = n" using assms(1) by (simp add: udiv_inv_def n_def)
  have "Suc (n - Suc i) = n - i" using assms(2) by (simp add: n_def)
  then have drop: "drop (n - Suc i) (qs[n - Suc i := q]) = q # drop (n - i) qs"
    using Cons_nth_drop_Suc [of "n - Suc i" "qs[n - Suc i := q]"] assms(2) len
    by (simp add: n_def)
  have "bv_val I (q # drop (n - i) qs)
      = bv_udiv (Suc i) (bv_val I as div 2 ^ (n - Suc i)) (bv_val I bs)" for I
  proof -
    have top: "bv_val I as div 2 ^ (n - Suc i)
        = 2 * (bv_val I as div 2 ^ (n - i)) + of_bool (holds I (as ! (n - Suc i)))"
      using top_bits_step [of i "map (holds I) as"] assms(2) by (simp add: n_def)
    have old: "bv_val I (drop (n - i) qs) = bv_udiv i (bv_val I as div 2 ^ (n - i)) (bv_val I bs)"
      using assms(1) by (simp add: udiv_inv_def n_def)
    show ?thesis
    proof (cases "bv_val I bs = 0")
      case True
      have "(2::nat) ^ i > 0" by simp
      then have "1 + 2 * (2 ^ i - 1) = (2::nat) ^ Suc i - 1"
        by (cases "(2::nat) ^ i") simp_all
      then show ?thesis using True old assms(4) [of I] by (simp add: bv_udiv_def)
    next
      case False
      then show ?thesis
        using long_div_step(2) [of "of_bool (holds I (as ! (n - Suc i)))" "bv_val I bs"
            "bv_val I as div 2 ^ (n - i)"] old assms(4) [of I] top
        by (simp add: bv_udiv_def n_def)
    qed
  qed
  then show ?thesis
    using assms(1,3) drop len by (simp add: udiv_inv_def n_def)
qed

lemma udiv_loop:
  assumes "length bs = length as" "all_bits as" "all_bits bs" "i < length as"
    and "fold (udiv_step cfg as bs) [0..<i]
      (replicate (length as) FalseE, as ! (length as - 1) # replicate (length as - 1) FalseE) = (qs, p)"
  shows "udiv_inv as bs i qs \<and> all_bits p \<and> length p = length as
    \<and> (\<forall>I. bv_val I p = 2 * (bv_val I as div 2 ^ (length as - i) mod bv_val I bs)
          + of_bool (holds I (as ! (length as - Suc i))))"
  using assms(4,5)
proof (induction i arbitrary: qs p)
  case 0
  have "bv_val I as div 2 ^ length as = 0" for I
    using bits_to_nat_less [of "map (holds I) as"] by simp
  then show ?case
    using 0 assms(2) by (auto simp: udiv_inv_def bv_udiv_def all_bits_nth)
next
  case (Suc i)
  define n where "n = length as"
  obtain qs0 p0 where f: "fold (udiv_step cfg as bs) [0..<i]
      (replicate (length as) FalseE, as ! (length as - 1) # replicate (length as - 1) FalseE) = (qs0, p0)"
    by force
  have ih: "udiv_inv as bs i qs0" "all_bits p0" "length p0 = n"
    "\<And>I. bv_val I p0 = 2 * (bv_val I as div 2 ^ (n - i) mod bv_val I bs)
          + of_bool (holds I (as ! (n - Suc i)))"
    using Suc.IH [OF _ f] Suc.prems(1) by (auto simp: n_def)
  obtain t q where sub: "mk_subtracter cfg p0 bs = (t, q)" by force
  have lt: "length t = length p0"
    using mk_subtracter_bits [OF _ ih(2) assms(3) sub] ih(3) assms(1) by (simp add: n_def)
  define mux where "mux = mk_multiplexer cfg q t p0"
  have stage: "is_bit q" "all_bits mux" "length mux = n"
    "bv_val I mux = (2 * (bv_val I as div 2 ^ (n - i)) + of_bool (holds I (as ! (n - Suc i)))) mod bv_val I bs"
    "holds I q \<longleftrightarrow> bv_val I bs \<le> 2 * (bv_val I as div 2 ^ (n - i) mod bv_val I bs)
      + of_bool (holds I (as ! (n - Suc i)))" for I
    using udiv_stage [OF ih(2) assms(3) _ sub ih(4)] ih(3) assms(1)
    by (auto simp: mux_def n_def)
  have "udiv_step cfg as bs i (qs0, p0) = (qs, p)" using f Suc.prems(2) by simp
  moreover have "map (\<lambda>j. g_ite cfg q (t ! (j - 1)) (p0 ! (j - 1))) [1..<n] = take (n - 1) mux"
  proof -
    have "map (\<lambda>j. g_ite cfg q (t ! (j - 1)) (p0 ! (j - 1))) [1..<n]
        = map (\<lambda>j. g_ite cfg q (t ! j) (p0 ! j)) [0..<n - 1]"
      by (rule nth_equalityI) auto
    then show ?thesis using map_ite_multiplexer [of t p0 "n - 1" q] lt ih(3) by (simp add: mux_def)
  qed
  moreover have i: "i < n - 1" using Suc.prems(1) by (simp add: n_def)
  ultimately have qp: "qs = qs0[n - i - 1 := q]" "p = as ! (n - i - 2) # take (n - 1) mux"
    using sub by (auto simp: udiv_step_def Let_def n_def)
  have "udiv_inv as bs (Suc i) qs"
    unfolding qp(1) n_def
    by (rule udiv_quotient_step [OF ih(1) _ stage(1)]) (use stage(5) Suc.prems(1) in \<open>auto simp: n_def\<close>)
  moreover have "all_bits p" "length p = n"
    using stage(2,3) i assms(2) by (auto simp: qp(2) n_def all_bits_nth)
  moreover have "bv_val I p = 2 * (bv_val I as div 2 ^ (n - Suc i) mod bv_val I bs)
      + of_bool (holds I (as ! (n - Suc (Suc i))))" for I
  proof -
    have mux: "bv_val I mux = bv_val I as div 2 ^ (n - Suc i) mod bv_val I bs"
      using stage(4) top_bits_step [of i "map (holds I) as"] Suc.prems(1) by (simp add: n_def)
    have "bv_val I as < 2 ^ n" using bits_to_nat_less [of "map (holds I) as"] by (simp add: n_def)
    also have "\<dots> \<le> 2 ^ (n - 1) * 2 ^ (n - Suc i)"
      unfolding power_add [symmetric] using i by (intro power_increasing) auto
    finally have "bv_val I as div 2 ^ (n - Suc i) < 2 ^ (n - 1)"
      by (simp add: less_mult_imp_div_less)
    then have "bv_val I mux < 2 ^ (n - 1)"
      unfolding mux using mod_less_eq_dividend le_less_trans by blast
    then have "bv_val I (take (n - 1) mux) = bv_val I mux"
      by (simp add: take_map [symmetric] bits_to_nat_take)
    then show ?thesis unfolding qp(2) using mux by (simp add: numeral_2_eq_2)
  qed
  ultimately show ?case by (simp add: n_def)
qed

lemma mk_udiv_urem:
  assumes "length bs = length as" "all_bits as" "all_bits bs" "as \<noteq> []"
    and "mk_udiv_urem cfg as bs = (qs, rs)"
  shows "all_bits qs" "length qs = length as" "all_bits rs" "length rs = length as"
    and "bv_val I qs = bv_udiv (length as) (bv_val I as) (bv_val I bs)"
    and "bv_val I rs = bv_val I as mod bv_val I bs"
proof -
  define n where "n = length as"
  have n: "n - 1 < n" "Suc (n - 1) = n" using assms(4) by (simp_all add: n_def)
  obtain qs0 p0 where f: "fold (udiv_step cfg as bs) [0..<n - 1]
      (replicate n FalseE, as ! (n - 1) # replicate (n - 1) FalseE) = (qs0, p0)"
    by force
  have inv: "udiv_inv as bs (n - 1) qs0" "all_bits p0" "length p0 = n"
    "bv_val I p0 = 2 * (bv_val I as div 2 ^ (n - (n - 1)) mod bv_val I bs)
          + of_bool (holds I (as ! (n - Suc (n - 1))))" for I
    using udiv_loop [OF assms(1-3), of "n - 1" qs0 p0] f n by (auto simp: n_def)
  obtain t q where sub: "mk_subtracter cfg p0 bs = (t, q)" by force
  have lt: "length t = length p0"
    using mk_subtracter_bits [OF _ inv(2) assms(3) sub] inv(3) assms(1) by (simp add: n_def)
  define mux where "mux = mk_multiplexer cfg q t p0"
  have stage: "is_bit q" "all_bits mux" "length mux = n"
    "bv_val I mux = (2 * (bv_val I as div 2 ^ (n - (n - 1))) + of_bool (holds I (as ! (n - Suc (n - 1)))))
      mod bv_val I bs"
    "holds I q \<longleftrightarrow> bv_val I bs \<le> 2 * (bv_val I as div 2 ^ (n - (n - 1)) mod bv_val I bs)
      + of_bool (holds I (as ! (n - Suc (n - 1))))" for I
    using udiv_stage [OF inv(2) assms(3) _ sub inv(4)] inv(3) assms(1)
    by (auto simp: mux_def n_def)
  have top: "2 * (bv_val I as div 2 ^ (n - (n - 1))) + of_bool (holds I (as ! (n - Suc (n - 1)))) = bv_val I as"
    for I using top_bits_step [of "n - 1" "map (holds I) as"] n assms(4) by (simp add: n_def)
  have "fold (udiv_step cfg as bs) [0..<n] (replicate n FalseE, as ! (n - 1) # replicate (n - 1) FalseE)
      = udiv_step cfg as bs (n - 1) (qs0, p0)"
  proof -
    have "[0..<n] = [0..<n - 1] @ [n - 1]" using upt_Suc_append [of 0 "n - 1"] n(2) by simp
    then show ?thesis using f by simp
  qed
  then have "udiv_step cfg as bs (n - 1) (qs0, p0) = (qs, rs)"
    using assms(5) by (simp add: mk_udiv_urem_def n_def)
  moreover have "map (\<lambda>j. g_ite cfg q (t ! j) (p0 ! j)) [0..<n] = mux"
    using map_ite_multiplexer [of t p0 n q] lt inv(3) stage(3) by (simp add: mux_def)
  ultimately have qr: "qs = qs0[n - (n - 1) - 1 := q]" "rs = mux"
    using sub by (auto simp: udiv_step_def Let_def n_def)
  have "udiv_inv as bs (Suc (n - 1)) qs"
    unfolding qr(1) n_def
    by (rule udiv_quotient_step [OF inv(1) [unfolded n_def] _ stage(1)])
      (use stage(5) n in \<open>auto simp: n_def\<close>)
  then show "all_bits qs" "length qs = length as"
    "bv_val I qs = bv_udiv (length as) (bv_val I as) (bv_val I bs)"
    using n by (simp_all add: udiv_inv_def n_def)
  show "all_bits rs" "length rs = length as" "bv_val I rs = bv_val I as mod bv_val I bs"
    using stage(2-4) top by (simp_all add: qr(2) n_def)
qed

lemma mk_udiv_urem_bits [simp]:
  assumes "length bs = length as" "all_bits as" "all_bits bs" "as \<noteq> []"
  shows "all_bits (mk_udiv cfg as bs)" "length (mk_udiv cfg as bs) = length as"
    and "all_bits (mk_urem cfg as bs)" "length (mk_urem cfg as bs) = length as"
  using mk_udiv_urem [OF assms, of "mk_udiv cfg as bs" "mk_urem cfg as bs"]
  by (simp_all add: mk_udiv_def mk_urem_def)

lemma mk_udiv_urem_val:
  assumes "length bs = length as" "all_bits as" "all_bits bs" "as \<noteq> []"
  shows "bv_val I (mk_udiv cfg as bs) = bv_udiv (length as) (bv_val I as) (bv_val I bs)"
    and "bv_val I (mk_urem cfg as bs) = bv_val I as mod bv_val I bs"
  using mk_udiv_urem [OF assms, of "mk_udiv cfg as bs" "mk_urem cfg as bs"]
  by (simp_all add: mk_udiv_def mk_urem_def)

end

subsection \<open>Signed values\<close>

abbreviation bv_sval :: "interp \<Rightarrow> expr list \<Rightarrow> int" where
  "bv_sval I xs \<equiv> bits_to_int (map (holds I) xs)"

lemma bits_to_int_bounds:
  assumes "bs \<noteq> []"
  shows "bits_to_int bs < 0 \<longleftrightarrow> last bs"
    and "- (2 ^ (length bs - 1)) \<le> bits_to_int bs" "bits_to_int bs < 2 ^ (length bs - 1)"
proof -
  obtain cs b where bs: "bs = cs @ [b]" using assms by (metis append_butlast_last_id)
  define v :: int where "v = int (bits_to_nat cs)"
  have v: "0 \<le> v" "v < 2 ^ length cs"
    unfolding v_def using bits_to_nat_less [of cs] by simp_all
  have "bits_to_int bs = v - (if b then 2 ^ length cs else 0)"
    by (simp add: bs bits_to_int_def bits_to_nat_append v_def)
  moreover have "last bs = b" "length bs - 1 = length cs" by (simp_all add: bs)
  ultimately show "bits_to_int bs < 0 \<longleftrightarrow> last bs"
    and "- (2 ^ (length bs - 1)) \<le> bits_to_int bs" "bits_to_int bs < 2 ^ (length bs - 1)"
    using v by (cases b; simp)+
qed

lemma bits_to_int_mod: "bits_to_int bs mod 2 ^ length bs = int (bits_to_nat bs)"
proof -
  have "int (bits_to_nat bs) < 2 ^ length bs"
    using bits_to_nat_less [of bs] by (metis of_nat_less_iff of_nat_numeral of_nat_power)
  then show ?thesis by (simp add: bits_to_int_def mod_diff_right_eq [symmetric])
qed

lemma bits_to_int_zero_iff:
  assumes "bs \<noteq> []" shows "bits_to_int bs = 0 \<longleftrightarrow> bits_to_nat bs = 0"
  using bits_to_int_bounds(1) [OF assms] bits_to_nat_zero_iff [of bs] last_in_set [OF assms]
  by (auto simp: bits_to_int_def)

text \<open>A number below \<open>2 ^ n\<close> that is congruent to an integer is its residue.\<close>

lemma int_residue: "int v mod 2 ^ n = x mod 2 ^ n \<Longrightarrow> v < 2 ^ n \<Longrightarrow> int v = x mod 2 ^ n"
  by (metis mod_pos_pos_trivial of_nat_0_le_iff of_nat_less_iff of_nat_numeral of_nat_power)

lemma bv_val_less: "length xs = n \<Longrightarrow> int (bv_val I xs) < 2 ^ n"
  using bits_to_nat_less [of "map (holds I) xs"]
  by (metis length_map of_nat_less_iff of_nat_numeral of_nat_power)

lemma last_map_holds: "xs \<noteq> [] \<Longrightarrow> last (map (holds I) xs) = holds I (xs ! (length xs - 1))"
  by (simp add: last_map last_conv_nth)

lemma bv_sval_neg: "xs \<noteq> [] \<Longrightarrow> bv_sval I xs < 0 \<longleftrightarrow> holds I (xs ! (length xs - 1))"
  using bits_to_int_bounds(1) [of "map (holds I) xs"] last_map_holds [of xs I] by simp

lemma bv_sval_mod: "length xs = n \<Longrightarrow> bv_sval I xs mod 2 ^ n = int (bv_val I xs)"
  using bits_to_int_mod [of "map (holds I) xs"] by simp

context bit_gates
begin

text \<open>Circuits that compute an integer modulo \<open>2 ^ n\<close>.\<close>

lemma mk_neg_int:
  assumes "all_bits as" "length as = n"
  shows "int (bv_val I (mk_neg cfg as)) = - int (bv_val I as) mod 2 ^ n"
proof -
  have "bv_val I as \<le> 2 ^ n" using bv_val_less [OF assms(2), of I] by simp
  then have "int ((2 ^ n - bv_val I as) mod 2 ^ n) = (2 ^ n - int (bv_val I as)) mod 2 ^ n"
    by (simp add: of_nat_mod of_nat_diff)
  then show ?thesis using mk_neg_val [OF assms(1)] assms(2) by simp
qed

lemma mk_adder_int:
  assumes "length as = n" "length bs = n" "all_bits as" "all_bits bs"
  shows "int (bv_val I (mk_adder cfg as bs)) = (int (bv_val I as) + int (bv_val I bs)) mod 2 ^ n"
  using mk_adder_val [of as bs I] assms by (simp add: of_nat_mod)

lemma mk_abs:
  assumes "all_bits as" "as \<noteq> []"
  shows "all_bits (mk_abs cfg as)" "length (mk_abs cfg as) = length as"
    and "int (bv_val I (mk_abs cfg as)) = \<bar>bv_sval I as\<bar>"
proof -
  define n where "n = length as"
  define msb where "msb = as ! (n - 1)"
  have n: "0 < n" using assms(2) by (simp add: n_def)
  have msb: "is_bit msb" using assms n by (simp add: msb_def n_def all_bits_nth)
  have abs: "mk_abs cfg as = (if msb = FalseE then as else if msb = TrueE then mk_neg cfg as
      else mk_multiplexer cfg msb (mk_neg cfg as) as)"
    by (simp add: mk_abs_def msb_def n_def Let_def)
  show bits: "all_bits (mk_abs cfg as)" "length (mk_abs cfg as) = length as"
    using assms msb by (auto simp: abs)
  have val: "bv_val I (mk_abs cfg as) = (if holds I msb then bv_val I (mk_neg cfg as) else bv_val I as)"
    using assms msb mk_multiplexer_holds [of "mk_neg cfg as" as msb I] by (auto simp: abs)
  have neg: "bv_sval I as < 0 \<longleftrightarrow> holds I msb"
    using bv_sval_neg [OF assms(2), of I] by (simp add: msb_def n_def)
  have bound: "- (2 ^ (n - 1)) \<le> bv_sval I as" "bv_sval I as < 2 ^ (n - 1)"
    using bits_to_int_bounds(2,3) [of "map (holds I) as"] assms(2) by (simp_all add: n_def)
  have less: "(2::int) ^ (n - 1) < 2 ^ n" using n by simp
  have "int (bv_val I (mk_neg cfg as)) = - bv_sval I as mod 2 ^ n"
    using mk_neg_int [OF assms(1) n_def [symmetric]] bv_sval_mod [OF n_def [symmetric], of I]
    by (metis mod_minus_eq)
  moreover have "\<bar>bv_sval I as\<bar> < 2 ^ n" using bound less by linarith
  moreover have "int (bv_val I as) = bv_sval I as mod 2 ^ n"
    using bv_sval_mod [OF n_def [symmetric], of I] by simp
  ultimately show "int (bv_val I (mk_abs cfg as)) = \<bar>bv_sval I as\<bar>"
    unfolding val neg [symmetric] by (cases "bv_sval I as < 0") simp_all
qed

lemma mk_abs_const:
  assumes "a = as ! (length as - 1)"
  shows "a = FalseE \<Longrightarrow> mk_abs cfg as = as" "a = TrueE \<Longrightarrow> mk_abs cfg as = mk_neg cfg as"
  using assms by (simp_all add: mk_abs_def)

lemma mk_eq_bv [simp]:
  assumes "length as = length bs" "all_bits as" "all_bits bs"
  shows "is_bit (mk_eq_bv cfg as bs)"
    and "holds I (mk_eq_bv cfg as bs) \<longleftrightarrow> map (holds I) as = map (holds I) bs"
proof -
  have "all_bits (map2 (g_iff cfg) as bs)
    \<and> ((\<forall>x \<in> set (map2 (g_iff cfg) as bs). holds I x) \<longleftrightarrow> map (holds I) as = map (holds I) bs)"
    using assms by (induction as bs rule: list_induct2) auto
  then show "is_bit (mk_eq_bv cfg as bs)"
    and "holds I (mk_eq_bv cfg as bs) \<longleftrightarrow> map (holds I) as = map (holds I) bs"
    by (simp_all add: mk_eq_bv_def)
qed

end

subsection \<open>Signed division\<close>

lemma mk_zero_extend:
  assumes "all_bits as"
  shows "all_bits (mk_zero_extend as n)" "length (mk_zero_extend as n) = length as + n"
    and "bv_val I (mk_zero_extend as n) = bv_val I as"
  using assms by (simp_all add: mk_zero_extend_def bits_to_nat_append map_replicate)

lemma is_power_of_two_1: "is_power_of_two 1 = Some 0"
  by (subst is_power_of_two.simps) simp

lemma is_power_of_two: "is_power_of_two v = Some k \<Longrightarrow> v = 2 ^ k"
proof (induction v arbitrary: k rule: is_power_of_two.induct)
  case (1 v)
  show ?case
  proof (cases "v = 1")
    case False
    then obtain k' where "v \<noteq> 0" "even v" "is_power_of_two (v div 2) = Some k'" "k = Suc k'"
      using 1(2) unfolding is_power_of_two.simps [of v] by (auto split: if_splits)
    moreover from this have "v div 2 = 2 ^ k'" using 1(1) False by blast
    ultimately show ?thesis by (metis dvd_mult_div_cancel power_Suc)
  qed (use 1(2) is_power_of_two_1 in simp)
qed

text \<open>The results the theory of bit vectors prescribes, as integers before reduction.\<close>

definition bv_sdiv :: "int \<Rightarrow> int \<Rightarrow> int" where
  "bv_sdiv a b = (if b = 0 then (if a < 0 then 1 else - 1) else a sdiv b)"

lemma bv_sdiv_abs:
  fixes A B :: nat
  assumes "int A = \<bar>a\<bar>" "int B = \<bar>b\<bar>"
  shows "bv_sdiv a b mod 2 ^ n
    = (if (a < 0) = (b < 0) then int (bv_udiv n A B) else - int (bv_udiv n A B)) mod 2 ^ n"
proof (cases "b = 0")
  case True
  then have "int (bv_udiv n A B) = 2 ^ n - 1"
    using assms(2) by (simp add: bv_udiv_def of_nat_diff)
  moreover have "(2 ^ n - 1) mod 2 ^ n = - 1 mod (2 ^ n :: int)"
    using mod_add_self2 [of "- 1" "2 ^ n :: int"] by (simp only: uminus_add_conv_diff)
  moreover have "- (2 ^ n - 1) mod 2 ^ n = 1 mod (2 ^ n :: int)"
    using minus_mod_self2 [of 1 "2 ^ n :: int"] by (simp only: minus_diff_eq)
  ultimately show ?thesis using True by (simp only: bv_sdiv_def) simp
next
  case False
  then have "int (bv_udiv n A B) = \<bar>a\<bar> div \<bar>b\<bar>"
    using assms by (simp add: bv_udiv_def flip: zdiv_int) (metis of_nat_eq_0_iff zdiv_int)
  then show ?thesis
    using False by (auto simp: bv_sdiv_def signed_divide_int_def sgn_if)
qed

context bit_gates
begin

text \<open>
  Every branch of the signed operations computes the unsigned result of the absolute values and
  negates it according to the sign bits; the constant sign bits only save gates.
\<close>

lemma sign_bits:
  assumes "as \<noteq> []" "length bs = length as"
  shows "holds I (as ! (length as - 1)) \<longleftrightarrow> bv_sval I as < 0"
    and "holds I (bs ! (length as - 1)) \<longleftrightarrow> bv_sval I bs < 0"
proof -
  have "bs \<noteq> []" using assms by auto
  then show "holds I (as ! (length as - 1)) \<longleftrightarrow> bv_sval I as < 0"
    and "holds I (bs ! (length as - 1)) \<longleftrightarrow> bv_sval I bs < 0"
    using bv_sval_neg [of as I] bv_sval_neg [of bs I] assms by simp_all
qed

lemma mk_sdiv:
  assumes "length bs = length as" "all_bits as" "all_bits bs" "as \<noteq> []"
  shows "all_bits (mk_sdiv cfg as bs) \<and> length (mk_sdiv cfg as bs) = length as
    \<and> int (bv_val I (mk_sdiv cfg as bs)) = bv_sdiv (bv_sval I as) (bv_sval I bs) mod 2 ^ length as"
proof -
  define n where "n = length as"
  define sa where "sa = as ! (n - 1)"
  define sb where "sb = bs ! (n - 1)"
  define u where "u = mk_udiv cfg (mk_abs cfg as) (mk_abs cfg bs)"
  have bs: "bs \<noteq> []" "length bs = n" using assms by (auto simp: n_def)
  have n: "0 < n" using assms(4) by (simp add: n_def)
  have bits: "is_bit sa" "is_bit sb" using assms n by (simp_all add: sa_def sb_def n_def all_bits_nth)
  note aa = mk_abs [OF assms(2,4)] and ab = mk_abs [OF assms(3) bs(1)]
  have ne: "mk_abs cfg as \<noteq> []" using aa(2) assms(4) by (metis length_0_conv)
  have u: "all_bits u" "length u = n"
    "bv_val I u = bv_udiv n (bv_val I (mk_abs cfg as)) (bv_val I (mk_abs cfg bs))"
    using mk_udiv_urem_bits [of "mk_abs cfg bs" "mk_abs cfg as"]
      mk_udiv_urem_val [of "mk_abs cfg bs" "mk_abs cfg as" I] aa ab ne bs(2)
    by (simp_all add: u_def n_def)
  note abs_const = mk_abs_const [of sa as] mk_abs_const [of sb bs]
  have cases: "mk_sdiv cfg as bs =
      (if sa = FalseE \<and> sb = FalseE \<or> sa = TrueE \<and> sb = TrueE then u
       else if sa = FalseE \<and> sb = TrueE \<or> sa = TrueE \<and> sb = FalseE then mk_neg cfg u
       else mk_multiplexer cfg (g_iff cfg sa sb) u (mk_neg cfg u))"
    using abs_const bs(2) unfolding mk_sdiv_def u_def sa_def sb_def n_def Let_def by auto
  have out: "all_bits (mk_sdiv cfg as bs) \<and> length (mk_sdiv cfg as bs) = n
    \<and> bv_val I (mk_sdiv cfg as bs)
      = (if holds I sa = holds I sb then bv_val I u else bv_val I (mk_neg cfg u))"
    unfolding cases using u bits mk_multiplexer_holds [of u "mk_neg cfg u" "g_iff cfg sa sb" I]
    by auto
  have "int (bv_val I u) = int (bv_val I u) mod 2 ^ n" using bv_val_less [OF u(2), of I] by simp
  then have "int (bv_val I (mk_sdiv cfg as bs))
      = (if (bv_sval I as < 0) = (bv_sval I bs < 0) then int (bv_val I u) else - int (bv_val I u)) mod 2 ^ n"
    using out sign_bits [OF assms(4,1), of I] mk_neg_int [OF u(1,2), of I]
    by (auto simp: sa_def sb_def n_def)
  then show ?thesis
    using out bv_sdiv_abs [OF aa(3) ab(3), where n = n] by (simp add: u(3) n_def)
qed

lemma mk_srem:
  assumes "length bs = length as" "all_bits as" "all_bits bs" "as \<noteq> []"
  shows "all_bits (mk_srem cfg as bs) \<and> length (mk_srem cfg as bs) = length as
    \<and> int (bv_val I (mk_srem cfg as bs)) = (bv_sval I as smod bv_sval I bs) mod 2 ^ length as"
proof -
  define n where "n = length as"
  define sa where "sa = as ! (n - 1)"
  define sb where "sb = bs ! (n - 1)"
  define a where "a = mk_abs cfg as"
  define b where "b = mk_abs cfg bs"
  define shift where "shift = Option.bind (is_numeral_val b) is_power_of_two"
  have bs: "bs \<noteq> []" "length bs = n" using assms by (auto simp: n_def)
  have n: "0 < n" using assms(4) by (simp add: n_def)
  have bits: "is_bit sa" "is_bit sb" using assms n by (simp_all add: sa_def sb_def n_def all_bits_nth)
  have aa: "all_bits a" "length a = n" "int (bv_val I a) = \<bar>bv_sval I as\<bar>"
    using mk_abs [OF assms(2,4)] by (simp_all add: a_def n_def)
  have ab: "all_bits b" "length b = n" "int (bv_val I b) = \<bar>bv_sval I bs\<bar>" for I
    using mk_abs [OF assms(3) bs(1)] bs(2) by (simp_all add: b_def)
  have ne: "a \<noteq> []" using aa(2) n by (metis less_irrefl list.size(3))
  have r: "all_bits (mk_urem cfg a b) \<and> length (mk_urem cfg a b) = n
    \<and> bv_val I (mk_urem cfg a b) = bv_val I a mod bv_val I b"
    using mk_udiv_urem_bits [of b a] mk_udiv_urem_val [of b a I] aa ab ne by simp
  define u where "u = (case shift of Some k \<Rightarrow> mk_zero_extend (take k a) (n - k) | None \<Rightarrow> mk_urem cfg a b)"
  have u: "all_bits u \<and> length u = n \<and> bv_val I u = bv_val I a mod bv_val I b"
  proof (cases shift)
    case (Some k)
    then obtain v where "is_numeral_val b = Some v" "is_power_of_two v = Some k"
      by (auto simp: shift_def bind_eq_Some_conv)
    then have v: "bv_val I b = 2 ^ k" using is_numeral_val_Some [of b v I] is_power_of_two by simp
    then have "(2::nat) ^ k < 2 ^ n" using bits_to_nat_less [of "map (holds I) b"] ab(2) by simp
    then have "k \<le> n" by simp
    then show ?thesis
      using Some v aa mk_zero_extend [where as = "take k a" and n = "n - k"]
      by (simp add: u_def bits_to_nat_take flip: take_map)
  qed (use r in \<open>simp add: u_def\<close>)
  note abs_const = mk_abs_const [of sa as] mk_abs_const [of sb bs]
  have cases: "mk_srem cfg as bs =
      (if sa = FalseE \<and> (sb = FalseE \<or> sb = TrueE) then mk_urem cfg a b
       else if sa = TrueE \<and> (sb = FalseE \<or> sb = TrueE) then mk_neg cfg (mk_urem cfg a b)
       else mk_multiplexer cfg sa (mk_neg cfg u) u)"
    using abs_const bs(2)
    unfolding mk_srem_def u_def shift_def a_def b_def sa_def sb_def n_def Let_def by auto
  have u_int: "int (bv_val I u) = int (bv_val I u) mod 2 ^ n"
    using bv_val_less [of u n I] u by simp
  have neg: "int (bv_val I (mk_neg cfg w)) = - int (bv_val I w) mod 2 ^ n"
    "length (mk_neg cfg w) = n" "all_bits (mk_neg cfg w)"
    if "all_bits w" "length w = n" for w using mk_neg_int [OF that] that by simp_all
  have out: "all_bits (mk_srem cfg as bs) \<and> length (mk_srem cfg as bs) = n
    \<and> int (bv_val I (mk_srem cfg as bs))
      = (if holds I sa then - int (bv_val I u) else int (bv_val I u)) mod 2 ^ n"
    unfolding cases using u r bits neg [of u] neg [of "mk_urem cfg a b"] u_int
      mk_multiplexer_holds [of "mk_neg cfg u" u sa I]
    by auto
  have "int (bv_val I u) = \<bar>bv_sval I as\<bar> mod \<bar>bv_sval I bs\<bar>"
    using u aa(3) ab(3) [of I] by (simp add: zmod_int)
  moreover have "x smod y = (if x < 0 then - (\<bar>x\<bar> mod \<bar>y\<bar>) else \<bar>x\<bar> mod \<bar>y\<bar>)" for x y :: int
    by (auto simp: signed_modulo_int_def signed_divide_int_def sgn_if minus_div_mult_eq_mod [symmetric])
  ultimately show ?thesis
    using out sign_bits(1) [OF assms(4,1), of I] by (simp add: sa_def n_def)
qed

end

text \<open>The modulus with the sign of the divisor from the remainder of the absolute values.\<close>

lemma int_mod_abs:
  fixes x y :: int
  defines "u \<equiv> \<bar>x\<bar> mod \<bar>y\<bar>"
  shows "x mod y =
    (if u = 0 then u
     else if x < 0 then (if y < 0 then - u else - u + y)
     else (if y < 0 then u + y else u))"
proof -
  consider "0 \<le> x" "0 \<le> y" | "x < 0" "0 \<le> y" | "0 \<le> x" "y < 0" | "x < 0" "y < 0" by linarith
  then show ?thesis
  proof cases
    case 2
    then show ?thesis
      using zmod_zminus1_eq_if [of "- x" y] by (simp add: u_def abs_if)
  next
    case 3
    then show ?thesis
      using zmod_zminus2_eq_if [of x "- y"] by (simp add: u_def abs_if)
  next
    case 4
    then show ?thesis
      using mod_minus_minus [of "- x" "- y"] by (simp add: u_def abs_if)
  qed (simp add: u_def)
qed

context bit_gates
begin

lemma mk_smod:
  assumes "length bs = length as" "all_bits as" "all_bits bs" "as \<noteq> []"
  shows "all_bits (mk_smod cfg as bs) \<and> length (mk_smod cfg as bs) = length as
    \<and> int (bv_val I (mk_smod cfg as bs)) = (bv_sval I as mod bv_sval I bs) mod 2 ^ length as"
proof -
  define n where "n = length as"
  define sa where "sa = as ! (n - 1)"
  define sb where "sb = bs ! (n - 1)"
  define u where "u = mk_urem cfg (mk_abs cfg as) (mk_abs cfg bs)"
  define nu where "nu = mk_neg cfg u"
  define nub where "nub = mk_adder cfg nu bs"
  define ub where "ub = mk_adder cfg u bs"
  define z where "z = mk_eq_bv cfg u (num2bits 0 n)"
  define i1 where "i1 = mk_multiplexer cfg sb nu nub"
  define i2 where "i2 = mk_multiplexer cfg sb ub u"
  define body where "body = mk_multiplexer cfg sa i1 i2"
  have bs: "bs \<noteq> []" "length bs = n" using assms by (auto simp: n_def)
  have n: "0 < n" using assms(4) by (simp add: n_def)
  have bits: "is_bit sa" "is_bit sb" using assms n by (simp_all add: sa_def sb_def n_def all_bits_nth)
  note aa = mk_abs [OF assms(2,4)] and ab = mk_abs [OF assms(3) bs(1)]
  have ne: "mk_abs cfg as \<noteq> []" using aa(2) assms(4) by (metis length_0_conv)
  have u: "all_bits u" "length u = n" "int (bv_val I u) = \<bar>bv_sval I as\<bar> mod \<bar>bv_sval I bs\<bar>" for I
    using mk_udiv_urem_bits [of "mk_abs cfg bs" "mk_abs cfg as"]
      mk_udiv_urem_val [of "mk_abs cfg bs" "mk_abs cfg as" I] aa ab ne bs(2)
    by (simp_all add: u_def n_def zmod_int)
  have nu: "all_bits nu" "length nu = n" "int (bv_val I nu) = - int (bv_val I u) mod 2 ^ n" for I
    using mk_neg_int [OF u(1,2), of I] u by (simp_all add: nu_def)
  have nub: "all_bits nub" "length nub = n" using nu bs assms(3) by (simp_all add: nub_def)
  have nub_val: "int (bv_val I nub) = (- int (bv_val I u) + bv_sval I bs) mod 2 ^ n" for I
    unfolding nub_def mk_adder_int [OF nu(2) bs(2) nu(1) assms(3)] nu(3)
      bv_sval_mod [OF bs(2), symmetric] by (rule mod_add_eq)
  have ub: "all_bits ub" "length ub = n" using u bs assms(3) by (simp_all add: ub_def)
  have ub_val: "int (bv_val I ub) = (int (bv_val I u) + bv_sval I bs) mod 2 ^ n" for I
    unfolding ub_def mk_adder_int [OF u(2) bs(2) u(1) assms(3)]
      bv_sval_mod [OF bs(2), symmetric] by (rule mod_add_right_eq)
  have u_int: "int (bv_val I u) = int (bv_val I u) mod 2 ^ n" for I
    using bv_val_less [OF u(2), of I] by simp
  have "bv_val I (num2bits 0 n) = 0" for I by simp
  then have z: "is_bit z" "holds I z \<longleftrightarrow> int (bv_val I u) = 0" for I
    using mk_eq_bv [of u "num2bits 0 n"] u(1,2)
      bits_to_nat_inject [of "map (holds I) u" "map (holds I) (num2bits 0 n)"]
    by (simp_all add: z_def)
  have i1: "all_bits i1" "length i1 = n"
    "bv_val I i1 = (if holds I sb then bv_val I nu else bv_val I nub)" for I
    using mk_multiplexer_holds [of nu nub sb I] nu nub bits by (auto simp: i1_def)
  have i2: "all_bits i2" "length i2 = n"
    "bv_val I i2 = (if holds I sb then bv_val I ub else bv_val I u)" for I
    using mk_multiplexer_holds [of ub u sb I] ub u bits by (auto simp: i2_def)
  have body: "all_bits body" "length body = n"
    "bv_val I body = (if holds I sa then bv_val I i1 else bv_val I i2)" for I
    using mk_multiplexer_holds [of i1 i2 sa I] i1 i2 bits by (auto simp: body_def)
  have smod: "mk_smod cfg as bs = mk_multiplexer cfg z u body"
    by (simp add: mk_smod_def u_def nu_def nub_def ub_def z_def i1_def i2_def body_def sa_def sb_def
        n_def Let_def)
  have out: "bv_val I (mk_smod cfg as bs) = (if int (bv_val I u) = 0 then bv_val I u else bv_val I body)"
    unfolding smod using mk_multiplexer_holds [of u body z I] u body z by auto
  have signs: "holds I sa \<longleftrightarrow> bv_sval I as < 0" "holds I sb \<longleftrightarrow> bv_sval I bs < 0"
    using sign_bits [OF assms(4,1), of I] by (simp_all add: sa_def sb_def n_def)
  note m = int_mod_abs [of "bv_sval I as" "bv_sval I bs", folded u(3)]
  have "int (bv_val I (mk_smod cfg as bs)) = (bv_sval I as mod bv_sval I bs) mod 2 ^ n"
    unfolding out body(3) i1(3) i2(3) signs m
    using nu(3) [of I] nub_val [of I] ub_val [of I] u_int [of I] by simp
  then show ?thesis
    using smod u body z by (simp add: n_def)
qed

end

subsection \<open>Properties\<close>

text \<open>C20: restoring division computes quotient and remainder; a zero divisor gives the quotient of
  all ones and the dividend as remainder.\<close>

theorem udiv_urem_correct:
  assumes "cfg \<in> blaster_cfgs m rw ext" "all_bits as" "all_bits bs"
    and "length bs = length as" "as \<noteq> []" "mk_udiv_urem cfg as bs = (q, r)"
  shows "all_bits q \<and> length q = length as \<and> all_bits r \<and> length r = length as
    \<and> bv_val I q = (if bv_val I bs = 0 then 2 ^ length as - 1 else bv_val I as div bv_val I bs)
    \<and> bv_val I r = bv_val I as mod bv_val I bs"
proof -
  have g: "bit_gates cfg"
    using assms(1) bb.bit_gates_axioms bl.bit_gates_axioms by (elim blaster_cfgs_cases) simp_all
  show ?thesis
    using bit_gates.mk_udiv_urem [OF g assms(4,2,3,5,6)] by (simp add: bv_udiv_def)
qed

theorem udiv_urem_correct_witness:
  "bv_val I0 (fst (mk_udiv_urem (blaster_cfg m0 blaster_rw) [v0, v0, v2] [v1, v0, v1])) = 3"
proof -
  obtain q r where qr: "mk_udiv_urem (blaster_cfg m0 blaster_rw) [v0, v0, v2] [v1, v0, v1] = (q, r)"
    by force
  show ?thesis
    using udiv_urem_correct [where cfg = "blaster_cfg m0 blaster_rw" and m = m0 and rw = blaster_rw
        and ext = True and I = I0, OF _ _ _ _ _ qr] qr
    by (simp add: blaster_cfgs_def flip: numeral_2_eq_2)
qed

text \<open>C21: signed division truncates towards zero; division by zero gives minus one, or one when
  the dividend is negative; the results are taken modulo \<open>2 ^ sz\<close>.\<close>

theorem sdiv_correct:
  assumes "cfg \<in> blaster_cfgs m rw ext" "all_bits as" "all_bits bs"
    and "length bs = length as" "as \<noteq> []"
  shows "int (bv_val I (mk_sdiv cfg as bs)) =
    (if bv_sval I bs = 0 then (if bv_sval I as < 0 then 1 else - 1)
     else bv_sval I as sdiv bv_sval I bs) mod 2 ^ length as"
  using assms bb.mk_sdiv bl.mk_sdiv by (elim blaster_cfgs_cases) (simp_all add: bv_sdiv_def)

theorem sdiv_correct_witness:
  "bv_val I0 (mk_sdiv (blaster_cfg m0 blaster_rw) [v0, v1, v2] [v0, TrueE, v1]) = 7"
  using sdiv_correct [of "blaster_cfg m0 blaster_rw" m0 blaster_rw True
      "[v0, v1, v2]" "[v0, TrueE, v1]" I0]
  by (simp add: blaster_cfgs_def bits_to_int_def signed_divide_int_def)

text \<open>C22: the signed remainder has the sign of the dividend, the remainder by zero is the
  dividend; also where a power of two is divided by a mask.\<close>

theorem srem_correct:
  assumes "cfg \<in> blaster_cfgs m rw ext" "all_bits as" "all_bits bs"
    and "length bs = length as" "as \<noteq> []"
  shows "int (bv_val I (mk_srem cfg as bs)) = (bv_sval I as smod bv_sval I bs) mod 2 ^ length as"
  using assms bb.mk_srem bl.mk_srem by (elim blaster_cfgs_cases) simp_all

theorem srem_correct_witness:
  "bv_val I0 (mk_srem (blaster_cfg m0 blaster_rw) [v0, v1, v2] [FalseE, TrueE, FalseE]) = 7"
  using srem_correct [of "blaster_cfg m0 blaster_rw" m0 blaster_rw True
      "[v0, v1, v2]" "[FalseE, TrueE, FalseE]" I0]
  by (simp add: blaster_cfgs_def bits_to_int_def signed_modulo_int_def signed_divide_int_def)

text \<open>C23: the signed modulus has the sign of the divisor.\<close>

theorem smod_correct:
  assumes "cfg \<in> blaster_cfgs m rw ext" "all_bits as" "all_bits bs"
    and "length bs = length as" "as \<noteq> []"
  shows "int (bv_val I (mk_smod cfg as bs)) = (bv_sval I as mod bv_sval I bs) mod 2 ^ length as"
  using assms bb.mk_smod bl.mk_smod by (elim blaster_cfgs_cases) simp_all

theorem smod_correct_witness:
  "bv_val I0 (mk_smod (blaster_cfg m0 blaster_rw) [v0, v1, v2] [FalseE, TrueE, FalseE]) = 1"
  using smod_correct [of "blaster_cfg m0 blaster_rw" m0 blaster_rw True
      "[v0, v1, v2]" "[FalseE, TrueE, FalseE]" I0]
  by (simp add: blaster_cfgs_def bits_to_int_def)

end
