(* ===== verification/Blaster_Shift.thy ===== *)
theory Blaster_Shift
  imports Blaster_Div
begin

text \<open>
  The shifts, rotations, comparisons and bitwise operations of \<open>bit_blaster_tpl_def.h\<close>. A shift
  by a numeral is a rearrangement of the bits; any other shift is a barrel shifter with one stage
  per bit of the amount below the width, and a last stage for the amounts that are too large. The
  stage distance \<open>1 << i\<close> of the source is \<open>2 ^ i\<close>: the loop stops at the first distance that
  reaches the width, before it leaves the range of \<open>unsigned\<close> for any width up to \<open>2 ^ 31\<close>.
\<close>

subsection \<open>Rotation by a constant\<close>

definition mk_rotate_left :: "expr list \<Rightarrow> nat \<Rightarrow> expr list" where
  "mk_rotate_left a_bits n =
     (let sz = length a_bits; n = n mod sz
      in drop (sz - n) a_bits @ take (sz - n) a_bits)"

definition mk_rotate_right :: "expr list \<Rightarrow> nat \<Rightarrow> expr list" where
  "mk_rotate_right a_bits n =
     (let sz = length a_bits; n = n mod sz
      in mk_rotate_left a_bits (sz - n))"

subsection \<open>Comparison with a number\<close>

fun is_eq_bits :: "bb_cfg \<Rightarrow> expr list \<Rightarrow> nat \<Rightarrow> expr list" where
  "is_eq_bits cfg [] n = []"
| "is_eq_bits cfg (a # as) n =
     (if n mod 2 = 0 then g_not cfg a else a) # is_eq_bits cfg as (n div 2)"

definition mk_is_eq :: "bb_cfg \<Rightarrow> expr list \<Rightarrow> nat \<Rightarrow> expr" where
  "mk_is_eq cfg a_bits n = g_and_n cfg (is_eq_bits cfg a_bits n)"

definition mk_eqs :: "bb_cfg \<Rightarrow> expr list \<Rightarrow> expr list" where
  "mk_eqs cfg a_bits = map (mk_is_eq cfg a_bits) [0..<length a_bits]"

subsection \<open>Shifts\<close>

text \<open>
  One stage of the barrel shifters: every bit is taken from \<open>shift_i\<close> places away when the bit
  \<open>b\<close> of the amount is set. The logical and the arithmetic right shift differ in the bit \<open>fill\<close>
  that comes in from above.
\<close>

definition shl_stage :: "bb_cfg \<Rightarrow> expr \<Rightarrow> nat \<Rightarrow> expr list \<Rightarrow> expr list" where
  "shl_stage cfg b shift_i out_bits =
     map (\<lambda>j. let a_j = (if shift_i \<le> j then out_bits ! (j - shift_i) else FalseE)
              in g_ite cfg b a_j (out_bits ! j)) [0..<length out_bits]"

definition shr_stage :: "bb_cfg \<Rightarrow> expr \<Rightarrow> expr \<Rightarrow> nat \<Rightarrow> expr list \<Rightarrow> expr list" where
  "shr_stage cfg fill b shift_i out_bits =
     map (\<lambda>j. let a_j = (if shift_i + j < length out_bits then out_bits ! (j + shift_i) else fill)
              in g_ite cfg b a_j (out_bits ! j)) [0..<length out_bits]"

text \<open>The loop that the three shifts share, with the index \<open>i\<close> it leaves off at.\<close>

function shift_loop ::
    "(expr \<Rightarrow> nat \<Rightarrow> expr list \<Rightarrow> expr list) \<Rightarrow> expr list \<Rightarrow> nat \<Rightarrow> expr list \<Rightarrow> nat \<times> expr list" where
  "shift_loop stage b_bits i out_bits =
     (let sz = length b_bits; shift_i = 2 ^ i
      in if i < sz \<and> shift_i < sz then
           shift_loop stage b_bits (Suc i) (stage (b_bits ! i) shift_i out_bits)
         else (i, out_bits))"
  by pat_completeness auto
termination
  by (relation "measure (\<lambda>(stage, bs, i, out). length bs - i)") auto

declare shift_loop.simps [simp del]

text \<open>The last stage: all bits are \<open>fill\<close> when one of the remaining bits of the amount is set.\<close>

definition large_shift :: "bb_cfg \<Rightarrow> expr \<Rightarrow> expr list \<Rightarrow> nat \<times> expr list \<Rightarrow> expr list" where
  "large_shift cfg fill b_bits = (\<lambda>(i, out_bits).
     let is_large = foldl (g_or cfg) FalseE (drop i b_bits)
     in map (g_ite cfg is_large fill) out_bits)"

definition mk_shl :: "bb_cfg \<Rightarrow> expr list \<Rightarrow> expr list \<Rightarrow> expr list" where
  "mk_shl cfg a_bits b_bits =
     (let sz = length a_bits
      in case is_numeral_val b_bits of
           Some k \<Rightarrow> (let n = min k sz in replicate n FalseE @ take (sz - n) a_bits)
         | None \<Rightarrow> large_shift cfg FalseE b_bits (shift_loop (shl_stage cfg) b_bits 0 a_bits))"

definition mk_lshr :: "bb_cfg \<Rightarrow> expr list \<Rightarrow> expr list \<Rightarrow> expr list" where
  "mk_lshr cfg a_bits b_bits =
     (let sz = length a_bits
      in case is_numeral_val b_bits of
           Some k \<Rightarrow> (let n = min k sz in drop n a_bits @ replicate n FalseE)
         | None \<Rightarrow> large_shift cfg FalseE b_bits (shift_loop (shr_stage cfg FalseE) b_bits 0 a_bits))"

definition mk_ashr :: "bb_cfg \<Rightarrow> expr list \<Rightarrow> expr list \<Rightarrow> expr list" where
  "mk_ashr cfg a_bits b_bits =
     (let sz = length a_bits; msb = a_bits ! (sz - 1)
      in case is_numeral_val b_bits of
           Some k \<Rightarrow> (let n = min k sz in drop n a_bits @ replicate n msb)
         | None \<Rightarrow> large_shift cfg msb b_bits (shift_loop (shr_stage cfg msb) b_bits 0 a_bits))"

subsection \<open>Rotation by a bit vector\<close>

text \<open>\<open>left\<close> is the template parameter \<open>Left\<close>; \<open>k.is_unsigned()\<close> holds below \<open>2 ^ 32\<close>.\<close>

definition ext_rotate_ites :: "bb_cfg \<Rightarrow> bool \<Rightarrow> expr list \<Rightarrow> expr list \<Rightarrow> expr list" where
  "ext_rotate_ites cfg left a_bits eqs =
     (let sz = length a_bits
      in map (\<lambda>i. fold (\<lambda>j out.
             let src = (if left then sz + i - j else i + j) mod sz
             in g_ite cfg (eqs ! j) (a_bits ! src) out) [1..<sz] (a_bits ! i)) [0..<sz])"

definition mk_ext_rotate_left_right :: "bb_cfg \<Rightarrow> bool \<Rightarrow> expr list \<Rightarrow> expr list \<Rightarrow> expr list" where
  "mk_ext_rotate_left_right cfg left a_bits b_bits =
     (let sz = length a_bits
      in case is_numeral_val b_bits of
           Some k \<Rightarrow>
             if k < 2 ^ 32 then (if left then mk_rotate_left a_bits k else mk_rotate_right a_bits k)
             else ext_rotate_ites cfg left a_bits (mk_eqs cfg (mk_urem cfg b_bits (num2bits sz sz)))
         | None \<Rightarrow>
             ext_rotate_ites cfg left a_bits (mk_eqs cfg (mk_urem cfg b_bits (num2bits sz sz))))"

definition mk_ext_rotate_left :: "bb_cfg \<Rightarrow> expr list \<Rightarrow> expr list \<Rightarrow> expr list" where
  "mk_ext_rotate_left cfg = mk_ext_rotate_left_right cfg True"

definition mk_ext_rotate_right :: "bb_cfg \<Rightarrow> expr list \<Rightarrow> expr list \<Rightarrow> expr list" where
  "mk_ext_rotate_right cfg = mk_ext_rotate_left_right cfg False"

subsection \<open>Comparisons\<close>

text \<open>\<open>is_signed\<close> is the template parameter \<open>Signed\<close>.\<close>

definition mk_le :: "bb_cfg \<Rightarrow> bool \<Rightarrow> expr list \<Rightarrow> expr list \<Rightarrow> expr" where
  "mk_le cfg is_signed a_bits b_bits =
     (let sz = length a_bits;
          out = g_or cfg (g_not cfg (a_bits ! 0)) (b_bits ! 0);
          out = fold (\<lambda>idx out. g_ge2 cfg (g_not cfg (a_bits ! idx)) (b_bits ! idx) out)
                  [1..<(if is_signed then sz - 1 else sz)] out
      in if is_signed then g_ge2 cfg (g_not cfg (b_bits ! (sz - 1))) (a_bits ! (sz - 1)) out else out)"

definition mk_sle :: "bb_cfg \<Rightarrow> expr list \<Rightarrow> expr list \<Rightarrow> expr" where
  "mk_sle cfg = mk_le cfg True"

definition mk_ule :: "bb_cfg \<Rightarrow> expr list \<Rightarrow> expr list \<Rightarrow> expr" where
  "mk_ule cfg = mk_le cfg False"

subsection \<open>Bitwise operations\<close>

definition mk_not_bv :: "bb_cfg \<Rightarrow> expr list \<Rightarrow> expr list" where
  "mk_not_bv cfg a_bits = map (g_not cfg) a_bits"

definition mk_and_bv :: "bb_cfg \<Rightarrow> expr list \<Rightarrow> expr list \<Rightarrow> expr list" where
  "mk_and_bv cfg a_bits b_bits = map2 (g_and cfg) a_bits b_bits"

definition mk_or_bv :: "bb_cfg \<Rightarrow> expr list \<Rightarrow> expr list \<Rightarrow> expr list" where
  "mk_or_bv cfg a_bits b_bits = map2 (g_or cfg) a_bits b_bits"

definition mk_xor_bv :: "bb_cfg \<Rightarrow> expr list \<Rightarrow> expr list \<Rightarrow> expr list" where
  "mk_xor_bv cfg a_bits b_bits = map2 (g_xor cfg) a_bits b_bits"

definition mk_xnor_bv :: "bb_cfg \<Rightarrow> expr list \<Rightarrow> expr list \<Rightarrow> expr list" where
  "mk_xnor_bv cfg a_bits b_bits = map2 (g_iff cfg) a_bits b_bits"

definition mk_nand_bv :: "bb_cfg \<Rightarrow> expr list \<Rightarrow> expr list \<Rightarrow> expr list" where
  "mk_nand_bv cfg a_bits b_bits = map2 (g_nand cfg) a_bits b_bits"

definition mk_nor_bv :: "bb_cfg \<Rightarrow> expr list \<Rightarrow> expr list \<Rightarrow> expr list" where
  "mk_nor_bv cfg a_bits b_bits = map2 (g_nor cfg) a_bits b_bits"

definition mk_redand :: "bb_cfg \<Rightarrow> expr list \<Rightarrow> expr list" where
  "mk_redand cfg a_bits = [g_and_n cfg a_bits]"

definition mk_redor :: "bb_cfg \<Rightarrow> expr list \<Rightarrow> expr list" where
  "mk_redor cfg a_bits = [g_or_n cfg a_bits]"

definition mk_comp :: "bb_cfg \<Rightarrow> expr list \<Rightarrow> expr list \<Rightarrow> expr list" where
  "mk_comp cfg a_bits b_bits = [mk_eq_bv cfg a_bits b_bits]"

subsection \<open>Signed overflow\<close>

fun smul_ovf_loop ::
    "bb_cfg \<Rightarrow> expr list \<Rightarrow> expr list \<Rightarrow> expr \<Rightarrow> expr \<Rightarrow> nat list \<Rightarrow> expr" where
  "smul_ovf_loop cfg a_bits b_bits a_acc v [] = v"
| "smul_ovf_loop cfg a_bits b_bits a_acc v (i # is) =
     (let sz = length a_bits;
          b = g_xor cfg (b_bits ! (sz - 1)) (b_bits ! i);
          a = g_xor cfg (a_bits ! (sz - 1)) (a_bits ! (sz - 1 - i));
          a_acc = g_or cfg a a_acc;
          tmp = g_and cfg a_acc b
      in smul_ovf_loop cfg a_bits b_bits a_acc (g_or cfg tmp v) is)"

definition mk_smul_no_overflow_core ::
    "bb_cfg \<Rightarrow> expr list \<Rightarrow> expr list \<Rightarrow> bool \<Rightarrow> expr" where
  "mk_smul_no_overflow_core cfg a_bits b_bits is_overflow =
     (let sz = length a_bits;
          mult_cout = mk_multiplier cfg (a_bits @ [a_bits ! (sz - 1)]) (b_bits @ [b_bits ! (sz - 1)]);
          overflow1 = g_xor cfg (mult_cout ! sz) (mult_cout ! (sz - 1));
          overflow2 = smul_ovf_loop cfg a_bits b_bits FalseE FalseE [1..<sz - 1];
          overflow = g_or cfg overflow1 overflow2;
          sign = (if is_overflow then g_iff cfg (a_bits ! (sz - 1)) (b_bits ! (sz - 1))
                  else g_xor cfg (a_bits ! (sz - 1)) (b_bits ! (sz - 1)));
          overflow = g_and cfg sign overflow
      in g_not cfg overflow)"

definition mk_smul_no_overflow :: "bb_cfg \<Rightarrow> expr list \<Rightarrow> expr list \<Rightarrow> expr" where
  "mk_smul_no_overflow cfg a_bits b_bits = mk_smul_no_overflow_core cfg a_bits b_bits True"

definition mk_smul_no_underflow :: "bb_cfg \<Rightarrow> expr list \<Rightarrow> expr list \<Rightarrow> expr" where
  "mk_smul_no_underflow cfg a_bits b_bits = mk_smul_no_overflow_core cfg a_bits b_bits False"

subsection \<open>Shifted lists of bits\<close>

definition shl_bits :: "nat \<Rightarrow> bool list \<Rightarrow> bool list" where
  "shl_bits s xs = take (length xs) (replicate s False @ xs)"

definition shr_bits :: "bool \<Rightarrow> nat \<Rightarrow> bool list \<Rightarrow> bool list" where
  "shr_bits f s xs = drop s (xs @ replicate s f)"

lemma shifted_length [simp]: "length (shl_bits s xs) = length xs" "length (shr_bits f s xs) = length xs"
  by (simp_all add: shl_bits_def shr_bits_def)

lemma shifted_nth:
  "j < length xs \<Longrightarrow> shl_bits s xs ! j = (s \<le> j \<and> xs ! (j - s))"
  "j < length xs \<Longrightarrow> shr_bits f s xs ! j = (if s + j < length xs then xs ! (j + s) else f)"
  by (auto simp: shl_bits_def shr_bits_def nth_append add.commute)

lemma shifted_twice:
  "shl_bits s (shl_bits t xs) = shl_bits (t + s) xs"
  "shr_bits f s (shr_bits f t xs) = shr_bits f (t + s) xs"
  by (rule nth_equalityI; auto simp: shifted_nth algebra_simps)+

lemma shifted_none [simp]: "shl_bits 0 xs = xs" "shr_bits f 0 xs = xs"
  by (simp_all add: shl_bits_def shr_bits_def)

lemma shifted_out:
  assumes "length xs \<le> s"
  shows "shl_bits s xs = replicate (length xs) False" "shr_bits f s xs = replicate (length xs) f"
  using assms by (auto intro!: nth_equalityI simp: shifted_nth)

lemma shl_bits_val: "bits_to_nat (shl_bits s xs) = bits_to_nat xs * 2 ^ s mod 2 ^ length xs"
  unfolding shl_bits_def bits_to_nat_take bits_to_nat_append by (simp add: mult.commute)

lemma shr_bits_val: "bits_to_nat (shr_bits False s xs) = bits_to_nat xs div 2 ^ s"
  by (simp add: shr_bits_def bits_to_nat_drop bits_to_nat_append)

lemma shr_bits_sval:
  assumes "xs \<noteq> []"
  shows "bits_to_int (shr_bits (last xs) s xs) = bits_to_int xs div 2 ^ s"
proof -
  have ne: "shr_bits (last xs) s xs \<noteq> []" using assms by (metis length_0_conv shifted_length(2))
  have "last (shr_bits (last xs) s xs) = last xs"
    using assms ne by (cases s) (auto simp: last_conv_nth shifted_nth)
  moreover have "int (bits_to_nat (shr_bits (last xs) s xs))
    = (bits_to_int xs + (if last xs then 2 ^ length xs * 2 ^ s else 0)) div 2 ^ s"
  proof (cases "last xs")
    case True
    have "int (bits_to_nat (replicate s True)) = 2 ^ s - 1"
      by (simp add: bits_to_nat_replicate_True of_nat_diff)
    then have ones: "int (bits_to_nat xs) + 2 ^ length xs * int (bits_to_nat (replicate s True))
        = bits_to_int xs + 2 ^ length xs * 2 ^ s"
      using True by (simp add: bits_to_int_def right_diff_distrib)
    show ?thesis
      unfolding shr_bits_def bits_to_nat_drop bits_to_nat_append
      using True by (simp add: zdiv_int ones)
  next
    case False
    then show ?thesis by (simp add: bits_to_int_def shr_bits_val zdiv_int)
  qed
  ultimately show ?thesis by (simp add: bits_to_int_def [of "shr_bits _ _ _"])
qed

context bit_gates
begin

lemma shl_stage:
  assumes "all_bits out" "is_bit b"
  shows "all_bits (shl_stage cfg b s out)" "length (shl_stage cfg b s out) = length out"
    and "map (holds I) (shl_stage cfg b s out) = shl_bits (of_bool (holds I b) * s) (map (holds I) out)"
proof -
  have bit: "is_bit (out ! j)" if "j < length out" for j using assms(1) that by (rule all_bits_nth)
  show "all_bits (shl_stage cfg b s out)" "length (shl_stage cfg b s out) = length out"
    using assms bit by (auto simp: shl_stage_def all_bits_def Let_def)
  show "map (holds I) (shl_stage cfg b s out) = shl_bits (of_bool (holds I b) * s) (map (holds I) out)"
    using assms bit by (auto intro!: nth_equalityI simp: shl_stage_def shifted_nth Let_def split: if_splits)
qed

lemma shr_stage:
  assumes "all_bits out" "is_bit b" "is_bit fill"
  shows "all_bits (shr_stage cfg fill b s out)" "length (shr_stage cfg fill b s out) = length out"
    and "map (holds I) (shr_stage cfg fill b s out)
      = shr_bits (holds I fill) (of_bool (holds I b) * s) (map (holds I) out)"
proof -
  have bit: "is_bit (out ! j)" if "j < length out" for j using assms(1) that by (rule all_bits_nth)
  show "all_bits (shr_stage cfg fill b s out)" "length (shr_stage cfg fill b s out) = length out"
    using assms bit by (auto simp: shr_stage_def all_bits_def Let_def add.commute)
  show "map (holds I) (shr_stage cfg fill b s out)
      = shr_bits (holds I fill) (of_bool (holds I b) * s) (map (holds I) out)"
    using assms bit by (auto intro!: nth_equalityI simp: shr_stage_def shifted_nth Let_def add.commute)
qed

text \<open>
  The loop and the last stage, for a stage that shifts by \<open>f\<close>: an action of the numbers under
  addition on lists of bits.
\<close>

lemma shift_loop:
  fixes f :: "interp \<Rightarrow> nat \<Rightarrow> bool list \<Rightarrow> bool list"
  assumes stage: "\<And>b s out. all_bits out \<Longrightarrow> is_bit b \<Longrightarrow> all_bits (stage b s out)
      \<and> length (stage b s out) = length out
      \<and> (\<forall>I. map (holds I) (stage b s out) = f I (of_bool (holds I b) * s) (map (holds I) out))"
    and f_add: "\<And>I s t xs. f I s (f I t xs) = f I (t + s) xs"
    and bs: "all_bits bs"
  shows "shift_loop stage bs i out = (i', out') \<Longrightarrow> all_bits out \<Longrightarrow> i \<le> length bs \<Longrightarrow>
    (\<And>I. map (holds I) out = f I (bv_val I (take i bs)) (xs I)) \<Longrightarrow>
    all_bits out' \<and> length out' = length out \<and> i' \<le> length bs \<and> length bs \<le> 2 ^ i'
      \<and> (\<forall>I. map (holds I) out' = f I (bv_val I (take i' bs)) (xs I))"
proof (induction "length bs - i" arbitrary: i out rule: less_induct)
  case (less i out)
  note loop = shift_loop.simps [of stage bs i out]
  show ?case
  proof (cases "i < length bs \<and> 2 ^ i < length bs")
    case True
    have b: "is_bit (bs ! i)" using True bs by (simp add: all_bits_nth)
    have smaller: "length bs - Suc i < length bs - i" using True by linarith
    have take: "bv_val I (take (Suc i) bs) = bv_val I (take i bs) + of_bool (holds I (bs ! i)) * 2 ^ i" for I
      using True by (simp add: take_Suc_conv_app_nth bits_to_nat_append)
    show ?thesis
      using less.hyps [OF smaller, of "stage (bs ! i) (2 ^ i) out"] less.prems True loop take
        stage [OF less.prems(2) b] by (simp add: f_add Let_def)
  next
    case False
    then have "length bs \<le> 2 ^ i"
      using less.prems(3) less_exp [of i] by linarith
    then show ?thesis using False less.prems loop by auto
  qed
qed

text \<open>A shift by too much: the distance already covers the width.\<close>

lemma large_shift:
  assumes "all_bits bs" "all_bits out" "is_bit fill"
  shows "all_bits (large_shift cfg fill bs (i, out))" "length (large_shift cfg fill bs (i, out)) = length out"
    and "map (holds I) (large_shift cfg fill bs (i, out))
      = (if bv_val I (drop i bs) = 0 then map (holds I) out else replicate (length out) (holds I fill))"
proof -
  have fold: "is_bit (foldl (g_or cfg) c xs)
      \<and> (holds I (foldl (g_or cfg) c xs) \<longleftrightarrow> holds I c \<or> bv_val I xs \<noteq> 0)"
    if "all_bits xs" "is_bit c" for c xs
    using that by (induction xs arbitrary: c) (auto simp: bits_to_nat_zero_iff)
  define l where "l = foldl (g_or cfg) FalseE (drop i bs)"
  have l: "is_bit l" "holds I l \<longleftrightarrow> bv_val I (drop i bs) \<noteq> 0"
    unfolding l_def using fold [of "drop i bs" FalseE] assms(1) by simp_all
  have eq: "large_shift cfg fill bs (i, out) = map (g_ite cfg l fill) out"
    by (simp add: large_shift_def l_def Let_def)
  show "all_bits (large_shift cfg fill bs (i, out))" "length (large_shift cfg fill bs (i, out)) = length out"
    using assms l unfolding eq by (auto simp: all_bits_def)
  show "map (holds I) (large_shift cfg fill bs (i, out))
      = (if bv_val I (drop i bs) = 0 then map (holds I) out else replicate (length out) (holds I fill))"
    using assms l unfolding eq by (auto intro!: nth_equalityI simp: all_bits_def)
qed

lemma barrel_shifter:
  fixes f :: "interp \<Rightarrow> nat \<Rightarrow> bool list \<Rightarrow> bool list"
  assumes stage: "\<And>b s out. all_bits out \<Longrightarrow> is_bit b \<Longrightarrow> all_bits (stage b s out)
      \<and> length (stage b s out) = length out
      \<and> (\<forall>I. map (holds I) (stage b s out) = f I (of_bool (holds I b) * s) (map (holds I) out))"
    and f_add: "\<And>I s t xs. f I s (f I t xs) = f I (t + s) xs"
    and f_0: "\<And>I xs. f I 0 xs = xs"
    and f_large: "\<And>I s xs. length xs \<le> s \<Longrightarrow> f I s xs = replicate (length xs) (holds I fill)"
    and bits: "all_bits as" "all_bits bs" "length bs = length as" "is_bit fill"
  defines "out \<equiv> large_shift cfg fill bs (shift_loop stage bs 0 as)"
  shows "all_bits out \<and> length out = length as
    \<and> map (holds I) out = f I (bv_val I bs) (map (holds I) as)"
proof -
  obtain i out' where l: "shift_loop stage bs 0 as = (i, out')" by force
  have loop: "all_bits out'" "length out' = length as" "i \<le> length bs" "length bs \<le> 2 ^ i"
    "map (holds I) out' = f I (bv_val I (take i bs)) (map (holds I) as)"
    using shift_loop [of stage f bs 0 as i out' "\<lambda>I. map (holds I) as", OF stage f_add bits(2) l bits(1)]
    by (auto simp: f_0)
  have split: "bv_val I bs = bv_val I (take i bs) + 2 ^ i * bv_val I (drop i bs)"
    using bits_to_nat_append [of "map (holds I) (take i bs)" "map (holds I) (drop i bs)"] loop(3)
    by (simp flip: map_append add: min_absorb2)
  have "length as \<le> bv_val I bs" if "bv_val I (drop i bs) \<noteq> 0"
  proof -
    have "length as \<le> 2 ^ i * 1" using loop(4) bits(3) by simp
    also have "\<dots> \<le> 2 ^ i * bv_val I (drop i bs)" using that by (intro mult_le_mono2) simp
    also have "\<dots> \<le> bv_val I bs" unfolding split by simp
    finally show ?thesis .
  qed
  then have "map (holds I) out = f I (bv_val I bs) (map (holds I) as)"
    unfolding out_def l large_shift(3) [OF bits(2) loop(1) bits(4)]
    using loop split f_large by auto
  then show ?thesis
    unfolding out_def l using large_shift(1,2) [OF bits(2) loop(1) bits(4)] loop(2) by simp
qed

lemma mk_shl:
  assumes "all_bits as" "all_bits bs" "length bs = length as"
  shows "all_bits (mk_shl cfg as bs) \<and> length (mk_shl cfg as bs) = length as
    \<and> map (holds I) (mk_shl cfg as bs) = shl_bits (bv_val I bs) (map (holds I) as)"
proof (cases "is_numeral_val bs")
  case None
  then show ?thesis
    using barrel_shifter [of "shl_stage cfg" "\<lambda>I. shl_bits" FalseE as bs I] assms shl_stage
      shifted_twice(1) shifted_out(1) by (simp add: mk_shl_def)
next
  case (Some k)
  then have "bv_val I bs = k" using is_numeral_val_Some by metis
  moreover have "map (holds I) (replicate (min k (length as)) FalseE @ take (length as - min k (length as)) as)
      = shl_bits k (map (holds I) as)"
    by (cases "k \<le> length as") (simp_all add: shl_bits_def take_map map_replicate)
  ultimately show ?thesis using Some assms(1) by (simp add: mk_shl_def Let_def)
qed

lemma right_shift_numeral:
  "map (holds I) (drop (min k (length as)) as @ replicate (min k (length as)) fill)
    = shr_bits (holds I fill) k (map (holds I) as)"
  by (cases "k \<le> length as") (simp_all add: shr_bits_def drop_map map_replicate)

lemma mk_lshr:
  assumes "all_bits as" "all_bits bs" "length bs = length as"
  shows "all_bits (mk_lshr cfg as bs) \<and> length (mk_lshr cfg as bs) = length as
    \<and> map (holds I) (mk_lshr cfg as bs) = shr_bits False (bv_val I bs) (map (holds I) as)"
proof (cases "is_numeral_val bs")
  case None
  then show ?thesis
    using barrel_shifter [of "shr_stage cfg FalseE" "\<lambda>I. shr_bits False" FalseE as bs I] assms
      shr_stage [where fill = FalseE] shifted_twice(2) shifted_out(2) by (simp add: mk_lshr_def)
next
  case (Some k)
  then have "bv_val I bs = k" using is_numeral_val_Some by metis
  then show ?thesis
    using Some assms(1) right_shift_numeral [of I k as FalseE]
    by (simp add: mk_lshr_def Let_def)
qed

lemma mk_ashr:
  assumes "all_bits as" "all_bits bs" "length bs = length as" "as \<noteq> []"
  shows "all_bits (mk_ashr cfg as bs) \<and> length (mk_ashr cfg as bs) = length as
    \<and> map (holds I) (mk_ashr cfg as bs)
      = shr_bits (last (map (holds I) as)) (bv_val I bs) (map (holds I) as)"
proof -
  define msb where "msb = as ! (length as - 1)"
  have msb: "is_bit msb" "last (map (holds I) as) = holds I msb" for I
    using assms by (simp_all add: msb_def all_bits_nth last_map_holds)
  have ashr: "mk_ashr cfg as bs = (case is_numeral_val bs of
      Some k \<Rightarrow> drop (min k (length as)) as @ replicate (min k (length as)) msb
    | None \<Rightarrow> large_shift cfg msb bs (shift_loop (shr_stage cfg msb) bs 0 as))"
    by (simp only: mk_ashr_def msb_def Let_def)
  show ?thesis
  proof (cases "is_numeral_val bs")
    case None
    then show ?thesis
      using barrel_shifter [of "shr_stage cfg msb" "\<lambda>I. shr_bits (holds I msb)" msb as bs I] assms
        shr_stage [where fill = msb] shifted_twice(2) shifted_out(2) msb
      by (simp add: ashr)
  next
    case (Some k)
    then have "bv_val I bs = k" using is_numeral_val_Some by metis
    then show ?thesis
      using Some assms(1) right_shift_numeral [of I k as msb] msb
      by (simp add: ashr)
  qed
qed

lemma is_eq_bits:
  assumes "all_bits as"
  shows "all_bits (is_eq_bits cfg as n)"
    and "(\<forall>x \<in> set (is_eq_bits cfg as n). holds I x) \<longleftrightarrow> bv_val I as = n mod 2 ^ length as"
proof -
  show "all_bits (is_eq_bits cfg as n)" using assms by (induction as arbitrary: n) auto
  have "(\<forall>x \<in> set (is_eq_bits cfg as n). holds I x)
      \<longleftrightarrow> map (holds I) as = nat_to_bits (length as) n"
    using assms by (induction as arbitrary: n) auto
  also have "\<dots> \<longleftrightarrow> bv_val I as = n mod 2 ^ length as"
    using bits_to_nat_inject [of "map (holds I) as" "nat_to_bits (length as) n"] by simp
  finally show "(\<forall>x \<in> set (is_eq_bits cfg as n). holds I x) \<longleftrightarrow> bv_val I as = n mod 2 ^ length as" .
qed

lemma mk_is_eq:
  assumes "all_bits as"
  shows "is_bit (mk_is_eq cfg as n)"
    and "holds I (mk_is_eq cfg as n) \<longleftrightarrow> bv_val I as = n mod 2 ^ length as"
  using is_eq_bits [OF assms, where n = n] by (simp_all add: mk_is_eq_def)

lemma mk_eqs:
  assumes "all_bits as" "i < length as"
  shows "length (mk_eqs cfg as) = length as" "is_bit (mk_eqs cfg as ! i)"
    and "holds I (mk_eqs cfg as ! i) \<longleftrightarrow> bv_val I as = i"
proof -
  have "i < 2 ^ length as" using assms(2) less_exp [of "length as"] by linarith
  then show "length (mk_eqs cfg as) = length as" "is_bit (mk_eqs cfg as ! i)"
    "holds I (mk_eqs cfg as ! i) \<longleftrightarrow> bv_val I as = i"
    using mk_is_eq [OF assms(1), where n = i] assms(2) by (simp_all add: mk_eqs_def)
qed

end

text \<open>Rotation: \<open>rotate\<close> of the library turns a list, least significant bit first, to the right.\<close>

lemma mk_rotate_right_eq: "mk_rotate_right as n = rotate n as"
proof (cases "as = []")
  case False
  define k where "k = n mod length as"
  have k: "k < length as" using False by (simp add: k_def)
  show ?thesis
  proof (cases "k = 0")
    case True
    then show ?thesis
      by (simp add: mk_rotate_right_def mk_rotate_left_def Let_def rotate_drop_take k_def [symmetric])
  next
    case False
    then have "(length as - k) mod length as = length as - k" "length as - (length as - k) = k"
      using k by simp_all
    then show ?thesis
      by (simp add: mk_rotate_right_def mk_rotate_left_def Let_def rotate_drop_take k_def [symmetric])
  qed
qed (simp add: mk_rotate_right_def mk_rotate_left_def)

lemma mk_rotate_left_eq: "mk_rotate_left as n = rotate (length as - n mod length as) as"
proof (cases "as = []")
  case False
  define k where "k = n mod length as"
  have k: "k < length as" using False by (simp add: k_def)
  show ?thesis
  proof (cases "k = 0")
    case False
    then have "(length as - k) mod length as = length as - k" using k by simp
    then show ?thesis by (simp add: mk_rotate_left_def Let_def rotate_drop_take k_def [symmetric])
  qed (simp add: mk_rotate_left_def Let_def rotate_drop_take k_def [symmetric])
qed (simp add: mk_rotate_left_def)

text \<open>The bit that arrives at a place.\<close>

definition rot_src :: "bool \<Rightarrow> nat \<Rightarrow> nat \<Rightarrow> nat \<Rightarrow> nat" where
  "rot_src left sz k i = (if left then sz + i - k mod sz else i + k) mod sz"

lemma mk_rotate_nth:
  assumes "i < length as"
  shows "mk_rotate_left as k ! i = as ! rot_src True (length as) k i"
    and "mk_rotate_right as k ! i = as ! rot_src False (length as) k i"
proof -
  have "k mod length as < length as" using assms by (cases as) auto
  then have "length as - k mod length as + i = length as + i - k mod length as" by simp
  then show "mk_rotate_left as k ! i = as ! rot_src True (length as) k i"
    using assms by (simp add: mk_rotate_left_eq nth_rotate rot_src_def)
  show "mk_rotate_right as k ! i = as ! rot_src False (length as) k i"
    using assms by (simp add: mk_rotate_right_eq nth_rotate rot_src_def add.commute)
qed

lemma mk_rotate_bits:
  "length (mk_rotate_left as k) = length as" "length (mk_rotate_right as k) = length as"
  "all_bits as \<Longrightarrow> all_bits (mk_rotate_left as k)" "all_bits as \<Longrightarrow> all_bits (mk_rotate_right as k)"
  by (simp_all add: mk_rotate_left_eq mk_rotate_right_eq all_bits_def)

context bit_gates
begin

lemma ite_chain:
  assumes "\<And>j. j \<in> set js \<Longrightarrow> is_bit (c j) \<and> is_bit (x j)" "is_bit y"
    and "\<And>j. j \<in> set js \<Longrightarrow> holds I (c j) \<longleftrightarrow> j = k"
  shows "is_bit (fold (\<lambda>j out. g_ite cfg (c j) (x j) out) js y)
    \<and> holds I (fold (\<lambda>j out. g_ite cfg (c j) (x j) out) js y)
      = (if k \<in> set js then holds I (x k) else holds I y)"
  using assms
proof (induction js arbitrary: y)
  case (Cons j js)
  have "is_bit (fold (\<lambda>j out. g_ite cfg (c j) (x j) out) js (g_ite cfg (c j) (x j) y))
    \<and> holds I (fold (\<lambda>j out. g_ite cfg (c j) (x j) out) js (g_ite cfg (c j) (x j) y))
      = (if k \<in> set js then holds I (x k) else holds I (g_ite cfg (c j) (x j) y))"
    by (rule Cons.IH) (use Cons.prems in auto)
  then show ?case using Cons.prems(1) [of j] Cons.prems(2) Cons.prems(3) [of j] by auto
qed simp

lemma ext_rotate_ites:
  fixes left :: bool
  assumes "all_bits as" "all_bits bs" "length bs = length as"
  defines "out \<equiv> ext_rotate_ites cfg left as
    (mk_eqs cfg (mk_urem cfg bs (num2bits (length as) (length as))))"
  shows "length out = length as"
    and "i < length as \<Longrightarrow> is_bit (out ! i) \<and>
      holds I (out ! i) = holds I (as ! rot_src left (length as) (bv_val I bs) i)"
proof -
  define n where "n = length as"
  define r where "r = mk_urem cfg bs (num2bits n n)"
  show "length out = length as" by (simp add: out_def ext_rotate_ites_def Let_def)
  assume i: "i < length as"
  have bs: "bs \<noteq> []" using i assms(3) by auto
  have n: "0 < n" using i unfolding n_def by linarith
  have "n < 2 ^ n" by (rule less_exp)
  then have r: "all_bits r" "length r = n" "bv_val I r = bv_val I bs mod n"
    using mk_udiv_urem_bits [of "num2bits n n" bs] mk_udiv_urem_val(2) [of "num2bits n n" bs I] assms bs
    by (simp_all add: r_def n_def)
  have k: "bv_val I bs mod n < n" using n by simp
  define src where "src j = (if left then n + i - j else i + j) mod n" for j
  have src: "src j < n" for j using n by (simp add: src_def)
  have "is_bit (fold (\<lambda>j out. g_ite cfg (mk_eqs cfg r ! j) (as ! src j) out) [1..<n] (as ! i))
    \<and> holds I (fold (\<lambda>j out. g_ite cfg (mk_eqs cfg r ! j) (as ! src j) out) [1..<n] (as ! i))
      = (if bv_val I bs mod n \<in> set [1..<n] then holds I (as ! src (bv_val I bs mod n)) else holds I (as ! i))"
    by (rule ite_chain) (use assms(1) src i mk_eqs [OF r(1)] r(2,3) in \<open>auto simp: n_def all_bits_nth\<close>)
  moreover have "out ! i = fold (\<lambda>j out. g_ite cfg (mk_eqs cfg r ! j) (as ! src j) out) [1..<n] (as ! i)"
    using i by (cases left) (simp_all add: out_def ext_rotate_ites_def Let_def r_def src_def n_def)
  moreover have "src (bv_val I bs mod n) = rot_src left n (bv_val I bs) i"
    by (simp add: src_def rot_src_def mod_add_right_eq)
  moreover have "rot_src left n (bv_val I bs) i = i" if "bv_val I bs mod n \<notin> set [1..<n]"
  proof -
    have "bv_val I bs mod n = 0" using that k by auto
    then show ?thesis using i by (simp add: rot_src_def n_def) (metis mod_add_right_eq add_0_right mod_less)
  qed
  ultimately show "is_bit (out ! i) \<and>
      holds I (out ! i) = holds I (as ! rot_src left (length as) (bv_val I bs) i)"
    by (auto simp: n_def [symmetric])
qed

lemma mk_ext_rotate:
  assumes "all_bits as" "all_bits bs" "length bs = length as"
  shows "all_bits (mk_ext_rotate_left_right cfg left as bs)"
    and "length (mk_ext_rotate_left_right cfg left as bs) = length as"
    and "map (holds I) (mk_ext_rotate_left_right cfg left as bs)
      = map (holds I) (if left then mk_rotate_left as (bv_val I bs) else mk_rotate_right as (bv_val I bs))"
proof -
  let ?out = "mk_ext_rotate_left_right cfg left as bs"
  let ?rot = "\<lambda>k. if left then mk_rotate_left as k else mk_rotate_right as k"
  have "all_bits ?out \<and> length ?out = length as \<and> map (holds I) ?out = map (holds I) (?rot (bv_val I bs))"
  proof (cases "\<exists>k. is_numeral_val bs = Some k \<and> k < 2 ^ 32")
    case True
    then obtain k where k: "is_numeral_val bs = Some k" "k < 2 ^ 32" by blast
    then have "bv_val I bs = k" using is_numeral_val_Some by metis
    then show ?thesis
      using k assms(1) by (simp add: mk_ext_rotate_left_right_def Let_def mk_rotate_bits)
  next
    case False
    define ites where "ites = ext_rotate_ites cfg left as
      (mk_eqs cfg (mk_urem cfg bs (num2bits (length as) (length as))))"
    have "?out = ites"
      using False unfolding ites_def
      by (cases "is_numeral_val bs") (simp_all add: mk_ext_rotate_left_right_def Let_def)
    moreover note rot = ext_rotate_ites [where left = left, OF assms, folded ites_def]
    moreover have "?rot k ! i = as ! rot_src left (length as) k i" if "i < length as" for i k
      using mk_rotate_nth [OF that] by simp
    moreover have "map (holds I) ites = map (holds I) (?rot (bv_val I bs))"
      using rot mk_rotate_nth by (auto intro!: nth_equalityI simp: mk_rotate_bits)
    ultimately show ?thesis by (auto intro!: all_bits_nthI)
  qed
  then show "all_bits ?out" "length ?out = length as"
    "map (holds I) ?out = map (holds I) (?rot (bv_val I bs))" by simp_all
qed

text \<open>Comparison: the ripple of majorities compares one more bit at a time.\<close>

lemma take_Suc_val:
  assumes "k < length xs"
  shows "bv_val I (take (Suc k) xs) = bv_val I (take k xs) + of_bool (holds I (xs ! k)) * 2 ^ k"
    and "bv_val I (take k xs) < 2 ^ k"
  using assms bits_to_nat_less [of "map (holds I) (take k xs)"]
  by (simp_all add: take_Suc_conv_app_nth bits_to_nat_append min_absorb2)

lemma majority_le:
  fixes x y m :: nat
  assumes "x < m" "y < m"
  shows "majority (\<not> p) q (x \<le> y) \<longleftrightarrow> x + of_bool p * m \<le> y + of_bool q * m"
  using assms by (cases p; cases q) (auto simp: majority_def)

lemma le_ripple:
  assumes "length bs = length as" "all_bits as" "all_bits bs" "0 < length as" "1 \<le> k" "k \<le> length as"
  defines "out \<equiv> fold (\<lambda>idx out. g_ge2 cfg (g_not cfg (as ! idx)) (bs ! idx) out) [1..<k]
    (g_or cfg (g_not cfg (as ! 0)) (bs ! 0))"
  shows "is_bit out \<and> (holds I out \<longleftrightarrow> bv_val I (take k as) \<le> bv_val I (take k bs))"
  using assms(5,6) unfolding out_def
proof (induction k rule: dec_induct)
  case base
  have "is_bit (as ! 0)" "is_bit (bs ! 0)" using assms by (auto intro!: all_bits_nth)
  then show ?case
    using take_Suc_val(1) [of 0 as I] take_Suc_val(1) [of 0 bs I] assms(1,4) by (auto simp: le_Suc_eq)
next
  case (step k)
  have bits: "is_bit (as ! k)" "is_bit (bs ! k)" using assms(1-3) step by (auto intro!: all_bits_nth)
  have k: "k < length as" "k < length bs" using step assms(1) by auto
  show ?case
    using step bits majority_le [OF take_Suc_val(2) [OF k(1)] take_Suc_val(2) [OF k(2)]]
    by (simp add: take_Suc_val(1) [OF k(1)] take_Suc_val(1) [OF k(2)])
qed

lemma mk_ule:
  assumes "length bs = length as" "all_bits as" "all_bits bs" "as \<noteq> []"
  shows "is_bit (mk_ule cfg as bs)" "holds I (mk_ule cfg as bs) \<longleftrightarrow> bv_val I as \<le> bv_val I bs"
  using le_ripple [OF assms(1-3), of "length as"] assms(1,4)
  by (simp_all add: mk_ule_def mk_le_def Let_def Suc_le_eq)

lemma sval_split:
  assumes "as \<noteq> []"
  shows "bv_sval I as = int (bv_val I (take (length as - 1) as))
    - of_bool (holds I (as ! (length as - 1))) * 2 ^ (length as - 1)"
proof -
  obtain xs x where "as = xs @ [x]" using assms by (metis append_butlast_last_id)
  then show ?thesis by (simp add: bits_to_int_def bits_to_nat_append)
qed

lemma mk_sle:
  assumes "length bs = length as" "all_bits as" "all_bits bs" "as \<noteq> []"
  shows "is_bit (mk_sle cfg as bs)" "holds I (mk_sle cfg as bs) \<longleftrightarrow> bv_sval I as \<le> bv_sval I bs"
proof -
  define n where "n = length as - 1"
  have n: "length as = Suc n" "length bs = Suc n" using assms by (simp_all add: n_def)
  have bs: "bs \<noteq> []" using n(2) by auto
  have bits: "is_bit (as ! n)" "is_bit (bs ! n)" using assms n by (simp_all add: all_bits_nth)
  define out where "out = fold (\<lambda>idx out. g_ge2 cfg (g_not cfg (as ! idx)) (bs ! idx) out) [1..<n]
    (g_or cfg (g_not cfg (as ! 0)) (bs ! 0))"
  have sle: "mk_sle cfg as bs = g_ge2 cfg (g_not cfg (bs ! n)) (as ! n) out"
    by (simp add: mk_sle_def mk_le_def n out_def)
  have sv: "bv_sval I as = int (bv_val I (take n as)) - of_bool (holds I (as ! n)) * 2 ^ n"
    "bv_sval I bs = int (bv_val I (take n bs)) - of_bool (holds I (bs ! n)) * 2 ^ n"
    using sval_split [of as I] sval_split [of bs I] assms(4) bs n by simp_all
  have le: "(bv_sval I as \<le> bv_sval I bs) \<longleftrightarrow>
      bv_val I (take n as) + of_bool (holds I (bs ! n)) * 2 ^ n
        \<le> bv_val I (take n bs) + of_bool (holds I (as ! n)) * 2 ^ n"
  proof -
    have "(bv_sval I as \<le> bv_sval I bs) \<longleftrightarrow>
      int (bv_val I (take n as) + of_bool (holds I (bs ! n)) * 2 ^ n)
        \<le> int (bv_val I (take n bs) + of_bool (holds I (as ! n)) * 2 ^ n)"
      unfolding sv by (simp add: algebra_simps)
    then show ?thesis by (simp only: of_nat_le_iff)
  qed
  have "is_bit (mk_sle cfg as bs) \<and> (holds I (mk_sle cfg as bs) \<longleftrightarrow> bv_sval I as \<le> bv_sval I bs)"
  proof (cases "n = 0")
    case True
    have "out = g_or cfg (g_not cfg (as ! 0)) (bs ! 0)" by (simp add: out_def True)
    then show ?thesis unfolding sle le using bits True by (auto simp: majority_def)
  next
    case False
    have "is_bit out \<and> (holds I out \<longleftrightarrow> bv_val I (take n as) \<le> bv_val I (take n bs))"
      unfolding out_def by (rule le_ripple) (use assms False n in auto)
    then show ?thesis
      unfolding sle le using bits n
        majority_le [OF take_Suc_val(2) [of n as I] take_Suc_val(2) [of n bs I]] by simp
  qed
  then show "is_bit (mk_sle cfg as bs)" "holds I (mk_sle cfg as bs) \<longleftrightarrow> bv_sval I as \<le> bv_sval I bs"
    by simp_all
qed

lemma map2_gate:
  assumes "length as = length bs" "all_bits as" "all_bits bs" "gate2 g f"
  shows "all_bits (map2 g as bs)" "length (map2 g as bs) = length as"
    and "map (holds I) (map2 g as bs) = map2 f (map (holds I) as) (map (holds I) bs)"
proof -
  have "all_bits (map2 g as bs)
    \<and> map (holds I) (map2 g as bs) = map2 f (map (holds I) as) (map (holds I) bs)"
    using assms(1-3) by (induction as bs rule: list_induct2) (use assms(4) in \<open>auto simp: gate2_def\<close>)
  then show "all_bits (map2 g as bs)" "length (map2 g as bs) = length as"
    "map (holds I) (map2 g as bs) = map2 f (map (holds I) as) (map (holds I) bs)"
    using assms(1) by simp_all
qed

lemma mk_not_bv:
  assumes "all_bits as"
  shows "all_bits (mk_not_bv cfg as)" "map (holds I) (mk_not_bv cfg as) = flip_bits (map (holds I) as)"
  using assms by (auto simp: mk_not_bv_def flip_bits_def all_bits_def)

lemmas bitwise_gates =
  map2_gate [OF _ _ _ and_law, folded mk_and_bv_def] map2_gate [OF _ _ _ or_law, folded mk_or_bv_def]
  map2_gate [OF _ _ _ xor_law, folded mk_xor_bv_def] map2_gate [OF _ _ _ iff_law, folded mk_xnor_bv_def]
  map2_gate [OF _ _ _ nand_law, folded mk_nand_bv_def] map2_gate [OF _ _ _ nor_law, folded mk_nor_bv_def]

lemma reductions:
  assumes "all_bits as"
  shows "bv_val I (mk_redand cfg as) = of_bool (bv_val I as = 2 ^ length as - 1)"
    and "bv_val I (mk_redor cfg as) = of_bool (bv_val I as \<noteq> 0)"
proof -
  have "bits_to_nat bs = 2 ^ length bs - 1 \<longleftrightarrow> (\<forall>b \<in> set bs. b)" for bs
  proof -
    have "bits_to_nat bs = 2 ^ length bs - 1 \<longleftrightarrow> bs = replicate (length bs) True"
      using bits_to_nat_inject [of bs "replicate (length bs) True"]
      by (simp add: bits_to_nat_replicate_True)
    also have "\<dots> \<longleftrightarrow> (\<forall>b \<in> set bs. b)" by (auto intro: replicate_eqI dest: arg_cong [where f = set])
    finally show ?thesis .
  qed
  from this [of "map (holds I) as"]
  show "bv_val I (mk_redand cfg as) = of_bool (bv_val I as = 2 ^ length as - 1)"
    using assms by (simp add: mk_redand_def)
  show "bv_val I (mk_redor cfg as) = of_bool (bv_val I as \<noteq> 0)"
    using assms by (simp add: mk_redor_def bits_to_nat_zero_iff)
qed

lemma mk_comp:
  assumes "length as = length bs" "all_bits as" "all_bits bs"
  shows "bv_val I (mk_comp cfg as bs) = of_bool (bv_val I as = bv_val I bs)"
  using assms bits_to_nat_inject [of "map (holds I) as" "map (holds I) bs"]
  by (simp add: mk_comp_def)

end

subsection \<open>Signed overflow\<close>

text \<open>
  A signed number from its sign and its other bits xor the sign: \<open>v\<close> or \<open>- 1 - v\<close>. The test of
  the source compares the two top bits of a product with one more bit and looks for two bits, one
  of each factor, whose weights already multiply to the bound.
\<close>

definition signed_val :: "bool \<Rightarrow> nat \<Rightarrow> int" where
  "signed_val s v = (if s then - 1 - int v else int v)"

lemma top_bits_differ:
  fixes x :: int
  assumes "\<bar>x\<bar> \<le> 2 ^ Suc m"
  shows "odd (x div 2 ^ Suc m) \<noteq> odd (x div 2 ^ m) \<longleftrightarrow> x < - (2 ^ m) \<or> 2 ^ m \<le> x"
proof -
  define d where "d = x div 2 ^ m"
  have half: "x div 2 ^ Suc m = d div 2"
    unfolding d_def power_Suc2 by (simp add: zdiv_zmult2_eq)
  have "d * 2 ^ m + x mod 2 ^ m = x" "0 \<le> x mod 2 ^ m" "x mod 2 ^ m < 2 ^ m"
    unfolding d_def by (rule div_mult_mod_eq) simp_all
  then have x: "d * 2 ^ m \<le> x" "x < (d + 1) * 2 ^ m" unfolding distrib_right by linarith+
  have "- (2 * 2 ^ m) \<le> x" "x \<le> 2 * 2 ^ m" using assms by (simp_all add: abs_le_iff)
  then have "d * 2 ^ m \<le> 2 * 2 ^ m" "- 2 * 2 ^ m < (d + 1) * 2 ^ m" using x by linarith+
  then have "d \<le> 2" "- 2 < d + 1"
    by - (rule mult_right_le_imp_le [of _ "2 ^ m"] mult_right_less_imp_less [of _ "2 ^ m"]; simp)+
  then consider "d = - 2" | "d = - 1" | "d = 0" | "d = 1" | "d = 2" by linarith
  then have "odd (d div 2) \<noteq> odd d \<longleftrightarrow> d < - 1 \<or> 1 \<le> d" by cases auto
  also have "\<dots> \<longleftrightarrow> x < - (2 ^ m) \<or> 2 ^ m \<le> x"
  proof -
    have low: "b * 2 ^ m \<le> x \<longleftrightarrow> b \<le> d" for b
    proof
      assume "b * 2 ^ m \<le> x"
      then have "b * 2 ^ m < (d + 1) * 2 ^ m" using x(2) by linarith
      then have "b < d + 1" by (rule mult_right_less_imp_less) simp
      then show "b \<le> d" by simp
    next
      assume "b \<le> d"
      then have "b * 2 ^ m \<le> d * 2 ^ m" by (rule mult_right_mono) simp
      then show "b * 2 ^ m \<le> x" using x(1) by linarith
    qed
    have "d < - 1 \<longleftrightarrow> x < - (2 ^ m)" using low [of "- 1"] by (simp add: not_le [symmetric])
    moreover have "1 \<le> d \<longleftrightarrow> 2 ^ m \<le> x" using low [of 1] by simp
    ultimately show ?thesis by simp
  qed
  finally show ?thesis unfolding half d_def .
qed

lemma signed_val_abs: "int v \<le> \<bar>signed_val s v\<bar>" "\<bar>signed_val s v\<bar> = int v + of_bool s"
  by (auto simp: signed_val_def)

lemma signed_no_pair:
  assumes "length as = m" "length bs = m"
    and "\<not> (\<exists>j < m. \<exists>k < m. m \<le> j + k \<and> as ! k \<and> bs ! j)"
  shows "\<bar>signed_val s (bits_to_nat as) * signed_val t (bits_to_nat bs)\<bar> \<le> 2 ^ Suc m"
proof -
  have le: "\<bar>signed_val s (bits_to_nat cs)\<bar> \<le> 2 ^ k" if "bits_to_nat cs < 2 ^ k" for cs s k
  proof -
    have "int (bits_to_nat cs) < 2 ^ k" using that by (metis of_nat_less_iff of_nat_numeral of_nat_power)
    then show ?thesis unfolding signed_val_abs(2) of_bool_def by (split if_split) linarith
  qed
  consider "bits_to_nat as = 0" | "bits_to_nat bs = 0"
    | "bits_to_nat as \<noteq> 0" "bits_to_nat bs \<noteq> 0" by blast
  then obtain p q where "\<bar>signed_val s (bits_to_nat as)\<bar> \<le> 2 ^ p" "\<bar>signed_val t (bits_to_nat bs)\<bar> \<le> 2 ^ q"
    "p + q \<le> Suc m"
  proof cases
    case 1
    then show ?thesis
      using that [of 0 m] le [of as 0 s] le [of bs m t] bits_to_nat_less [of bs] assms(2) by simp
  next
    case 2
    then show ?thesis
      using that [of m 0] le [of bs 0 t] le [of as m s] bits_to_nat_less [of as] assms(1) by simp
  next
    case 3
    obtain p where p: "p < m" "as ! p" "bits_to_nat as < 2 ^ Suc p"
      using bits_to_nat_top [OF 3(1)] assms(1) by blast
    obtain q where q: "q < m" "bs ! q" "bits_to_nat bs < 2 ^ Suc q"
      using bits_to_nat_top [OF 3(2)] assms(2) by blast
    note pq = p q
    then have "\<not> m \<le> q + p" using assms(3) by blast
    then have "p + q < m" by simp
    then show ?thesis using that [OF le [OF p(3)] le [OF q(3)]] by simp
  qed
  then have "\<bar>signed_val s (bits_to_nat as)\<bar> * \<bar>signed_val t (bits_to_nat bs)\<bar> \<le> 2 ^ p * 2 ^ q"
    by (intro mult_mono) auto
  also have "\<dots> \<le> 2 ^ Suc m"
    unfolding power_add [symmetric] using \<open>p + q \<le> Suc m\<close> by (intro power_increasing) auto
  finally show ?thesis by (simp add: abs_mult)
qed

lemma signed_pair:
  assumes "length as = m" "length bs = m" "j < m" "k < m" "m \<le> j + k" "as ! k" "bs ! j"
  shows "2 ^ m + of_bool (s \<noteq> t) \<le> \<bar>signed_val s (bits_to_nat as) * signed_val t (bits_to_nat bs)\<bar>"
proof -
  have a: "2 ^ k \<le> int (bits_to_nat as)" and b: "2 ^ j \<le> int (bits_to_nat bs)"
    using bits_to_nat_nth_le [of k as] bits_to_nat_nth_le [of j bs] assms
    by (metis of_nat_le_iff of_nat_numeral of_nat_power)+
  have "(2::int) ^ m \<le> 2 ^ (k + j)" using assms(5) by (intro power_increasing) auto
  moreover have "(2 ^ k + of_bool s) * (2 ^ j + of_bool t)
      \<le> \<bar>signed_val s (bits_to_nat as)\<bar> * \<bar>signed_val t (bits_to_nat bs)\<bar>"
    unfolding signed_val_abs(2) using a b by (intro mult_mono) auto
  moreover have "(2::int) ^ (k + j) + of_bool (s \<noteq> t) \<le> (2 ^ k + of_bool s) * (2 ^ j + of_bool t)"
    by (cases s; cases t) (simp_all add: power_add algebra_simps)
  ultimately show ?thesis unfolding abs_mult by linarith
qed

lemma signed_product_overflow:
  fixes s t :: bool
  assumes "length as = m" "length bs = m"
  defines "x \<equiv> signed_val s (bits_to_nat as) * signed_val t (bits_to_nat bs)"
  defines "ovf \<equiv> odd (x div 2 ^ Suc m) \<noteq> odd (x div 2 ^ m)
      \<or> (\<exists>j < m. \<exists>k < m. m \<le> j + k \<and> as ! k \<and> bs ! j)"
  shows "s = t \<Longrightarrow> ovf \<longleftrightarrow> 2 ^ m \<le> x" and "s \<noteq> t \<Longrightarrow> ovf \<longleftrightarrow> x < - (2 ^ m)"
proof -
  have sign: "s = t \<Longrightarrow> 0 \<le> x" "s \<noteq> t \<Longrightarrow> x \<le> 0"
    unfolding x_def by (auto simp: signed_val_def mult_le_0_iff zero_le_mult_iff)
  have "(s = t \<longrightarrow> ovf \<longleftrightarrow> 2 ^ m \<le> x) \<and> (s \<noteq> t \<longrightarrow> ovf \<longleftrightarrow> x < - (2 ^ m))"
  proof (cases "\<exists>j < m. \<exists>k < m. m \<le> j + k \<and> as ! k \<and> bs ! j")
    case True
    then have ovf by (simp add: ovf_def)
    have big: "2 ^ m + of_bool (s \<noteq> t) \<le> \<bar>x\<bar>"
      using signed_pair [OF assms(1,2)] True unfolding x_def by blast
    have "s = t \<Longrightarrow> 2 ^ m \<le> x" using big sign(1) by simp
    moreover have "s \<noteq> t \<Longrightarrow> x < - (2 ^ m)" using big sign(2) by simp
    ultimately show ?thesis using \<open>ovf\<close> by blast
  next
    case False
    then have "ovf \<longleftrightarrow> x < - (2 ^ m) \<or> 2 ^ m \<le> x"
      using top_bits_differ [OF signed_no_pair [OF assms(1,2) False, of s t, folded x_def]]
      unfolding ovf_def by blast
    moreover have "(0::int) < 2 ^ m" by simp
    then have "s = t \<Longrightarrow> \<not> x < - (2 ^ m)" "s \<noteq> t \<Longrightarrow> \<not> 2 ^ m \<le> x" using sign by linarith+
    ultimately show ?thesis by blast
  qed
  then show "s = t \<Longrightarrow> ovf \<longleftrightarrow> 2 ^ m \<le> x" and "s \<noteq> t \<Longrightarrow> ovf \<longleftrightarrow> x < - (2 ^ m)" by auto
qed

text \<open>The bits below the sign, xor the sign.\<close>

definition magnitude_bits :: "bool list \<Rightarrow> bool list" where
  "magnitude_bits xs = map (\<lambda>b. last xs \<noteq> b) (butlast xs)"

lemma signed_magnitude:
  assumes "xs \<noteq> []"
  shows "bits_to_int xs = signed_val (last xs) (bits_to_nat (magnitude_bits xs))"
proof -
  obtain ys y where xs: "xs = ys @ [y]" using assms by (metis append_butlast_last_id)
  show ?thesis
  proof (cases y)
    case True
    then have "magnitude_bits xs = flip_bits ys" by (simp add: magnitude_bits_def xs flip_bits_def)
    moreover have "bits_to_nat ys < 2 ^ length ys" by (rule bits_to_nat_less)
    ultimately have "int (bits_to_nat (magnitude_bits xs)) = 2 ^ length ys - 1 - int (bits_to_nat ys)"
      by (simp add: bits_to_nat_flip of_nat_diff)
    then show ?thesis using True by (simp add: bits_to_int_def xs bits_to_nat_append signed_val_def)
  next
    case False
    then show ?thesis
      by (simp add: bits_to_int_def xs bits_to_nat_append signed_val_def magnitude_bits_def)
  qed
qed

lemma magnitude_nth:
  assumes "length xs = Suc m" "k < m"
  shows "magnitude_bits xs ! k \<longleftrightarrow> xs ! m \<noteq> xs ! k"
proof -
  have "last xs = xs ! m" using assms(1) by (subst last_conv_nth) auto
  then show ?thesis using assms by (simp add: magnitude_bits_def nth_butlast)
qed

lemma sign_extended: "xs \<noteq> [] \<Longrightarrow> bits_to_int (xs @ [last xs]) = bits_to_int xs"
  by (simp add: bits_to_int_def bits_to_nat_append)

context bit_gates
begin

lemma smul_ovf_loop:
  assumes "length as = Suc m" "length bs = Suc m" "all_bits as" "all_bits bs" "is_bit acc" "is_bit v"
    and "1 \<le> i" "i \<le> m"
    and "\<forall>I. holds I acc = (\<exists>k < m. m < i + k \<and> (holds I (as ! m) \<noteq> holds I (as ! k)))"
  shows "is_bit (smul_ovf_loop cfg as bs acc v [i..<m])
    \<and> (\<forall>I. holds I (smul_ovf_loop cfg as bs acc v [i..<m]) \<longleftrightarrow>
         holds I v \<or> (\<exists>j. i \<le> j \<and> j < m \<and> (\<exists>k < m. m \<le> j + k
           \<and> (holds I (as ! m) \<noteq> holds I (as ! k)) \<and> (holds I (bs ! m) \<noteq> holds I (bs ! j)))))"
  using assms(5-)
proof (induction "m - i" arbitrary: i acc v)
  case 0
  then show ?case by auto
next
  case (Suc d)
  have i: "i < m" using Suc.hyps(2) by simp
  have nth: "is_bit (as ! m)" "is_bit (bs ! m)" "is_bit (as ! (m - i))" "is_bit (bs ! i)"
    using i assms(1-4) by (auto intro!: all_bits_nth)
  define acc' where "acc' = g_or cfg (g_xor cfg (as ! m) (as ! (m - i))) acc"
  define v' where "v' = g_or cfg (g_and cfg acc' (g_xor cfg (bs ! m) (bs ! i))) v"
  have acc': "is_bit acc'"
    "holds I acc' = (\<exists>k < m. m < Suc i + k \<and> (holds I (as ! m) \<noteq> holds I (as ! k)))" for I
  proof -
    show "is_bit acc'" using Suc.prems nth by (simp add: acc'_def)
    have eq: "m < Suc i + k \<longleftrightarrow> m < i + k \<or> k = m - i" for k using i by auto
    have "m - i < m" using i Suc.prems(3) by simp
    then have "(\<exists>k < m. m < Suc i + k \<and> P k) \<longleftrightarrow> P (m - i) \<or> (\<exists>k < m. m < i + k \<and> P k)" for P
      unfolding eq by blast
    then show "holds I acc' = (\<exists>k < m. m < Suc i + k \<and> (holds I (as ! m) \<noteq> holds I (as ! k)))"
      using Suc.prems nth by (simp add: acc'_def)
  qed
  have v': "is_bit v'" "holds I v' = (holds I v \<or> (\<exists>k < m. m \<le> i + k
      \<and> (holds I (as ! m) \<noteq> holds I (as ! k)) \<and> (holds I (bs ! m) \<noteq> holds I (bs ! i))))" for I
    using acc' nth Suc.prems by (auto simp: v'_def less_Suc_eq_le)
  have split: "[i..<m] = i # [Suc i..<m]" using i by (simp add: upt_conv_Cons)
  have "is_bit (smul_ovf_loop cfg as bs acc' v' [Suc i..<m])
    \<and> (\<forall>I. holds I (smul_ovf_loop cfg as bs acc' v' [Suc i..<m]) \<longleftrightarrow>
         holds I v' \<or> (\<exists>j. Suc i \<le> j \<and> j < m \<and> (\<exists>k < m. m \<le> j + k
           \<and> (holds I (as ! m) \<noteq> holds I (as ! k)) \<and> (holds I (bs ! m) \<noteq> holds I (bs ! j)))))"
    by (rule Suc.hyps(1)) (use Suc.hyps(2) i acc' v' in auto)
  moreover have "(\<exists>j. i \<le> j \<and> j < m \<and> P j) \<longleftrightarrow> P i \<or> (\<exists>j. Suc i \<le> j \<and> j < m \<and> P j)" for P
    using i by (metis Suc_le_eq le_neq_implies_less order_refl less_imp_le)
  moreover have "smul_ovf_loop cfg as bs acc v [i..<m] = smul_ovf_loop cfg as bs acc' v' [Suc i..<m]"
    unfolding split by (simp add: Let_def acc'_def v'_def assms(1))
  ultimately show ?case by (simp add: v'(2) disj_assoc)
qed

lemma smul_product_bit:
  assumes "length as = Suc m" "length bs = Suc m" "all_bits as" "all_bits bs" "k \<le> Suc m"
  defines "out \<equiv> mk_multiplier cfg (as @ [as ! m]) (bs @ [bs ! m])"
  shows "is_bit (out ! k)" "holds I (out ! k) = odd (bv_sval I as * bv_sval I bs div 2 ^ k)"
proof -
  have ne: "as \<noteq> []" "bs \<noteq> []" using assms(1,2) by auto
  have last: "as ! m = last as" "bs ! m = last bs" using assms(1,2) ne by (simp_all add: last_conv_nth)
  have bits: "all_bits (as @ [as ! m])" "all_bits (bs @ [bs ! m])"
    using assms(1-4) by (auto intro!: all_bits_nth)
  have out: "all_bits out" "length out = Suc (Suc m)"
    "bv_val I out = bv_val I (as @ [as ! m]) * bv_val I (bs @ [bs ! m]) mod 2 ^ Suc (Suc m)"
    unfolding out_def using mk_multiplier_bits [OF _ bits] mk_multiplier_val [OF _ bits, of I] assms(1,2)
    by simp_all
  show "is_bit (out ! k)" using out assms(5) by (simp add: all_bits_nth)
  have ext: "bv_sval I (xs @ [last xs]) = bv_sval I xs" if "xs \<noteq> []" for xs
    using sign_extended [of "map (holds I) xs"] that by (simp add: last_map)
  have "int (bv_val I out) = int (bv_val I (as @ [as ! m])) * int (bv_val I (bs @ [bs ! m])) mod 2 ^ Suc (Suc m)"
    unfolding out(3) by (simp add: of_nat_mod)
  also have "\<dots> = bv_sval I (as @ [as ! m]) * bv_sval I (bs @ [bs ! m]) mod 2 ^ Suc (Suc m)"
    using bv_sval_mod [of "as @ [as ! m]" "Suc (Suc m)" I] bv_sval_mod [of "bs @ [bs ! m]" "Suc (Suc m)" I]
      assms(1,2) by (metis (no_types, lifting) length_append_singleton mod_mult_eq)
  also have "\<dots> = bv_sval I as * bv_sval I bs mod 2 ^ Suc (Suc m)"
    unfolding last using ext ne by simp
  finally have "int (bv_val I out) = take_bit (Suc (Suc m)) (bv_sval I as * bv_sval I bs)"
    by (simp add: take_bit_eq_mod)
  then have "bit (int (bv_val I out)) k = bit (bv_sval I as * bv_sval I bs) k"
    using assms(5) by (simp add: bit_take_bit_iff)
  moreover have "holds I (out ! k) = bit (bv_val I out) k"
    using bits_to_nat_nth [of k "map (holds I) out"] out(2) assms(5) by (simp add: bit_iff_odd)
  ultimately show "holds I (out ! k) = odd (bv_sval I as * bv_sval I bs div 2 ^ k)"
    using bit_of_nat_iff [where 'a = int, of "bv_val I out" k] by (simp add: bit_iff_odd [of "bv_sval I as * _"])
qed

lemma mk_smul_no_overflow_core:
  assumes "length bs = length as" "all_bits as" "all_bits bs" "as \<noteq> []"
  shows "is_bit (mk_smul_no_overflow_core cfg as bs ov)"
    and "holds I (mk_smul_no_overflow_core cfg as bs ov) \<longleftrightarrow>
      (if ov then bv_sval I as * bv_sval I bs < 2 ^ (length as - 1)
       else - (2 ^ (length as - 1)) \<le> bv_sval I as * bv_sval I bs)"
proof -
  define m where "m = length as - 1"
  have n: "length as = Suc m" "length bs = Suc m" using assms by (simp_all add: m_def)
  have ne: "map (holds I) as \<noteq> []" "map (holds I) bs \<noteq> []" using n by auto
  have msb: "is_bit (as ! m)" "is_bit (bs ! m)" using n assms(2,3) by (simp_all add: all_bits_nth)
  define out where "out = mk_multiplier cfg (as @ [as ! m]) (bs @ [bs ! m])"
  define ov2 where "ov2 = smul_ovf_loop cfg as bs FalseE FalseE [1..<m]"
  define ovf where "ovf = g_or cfg (g_xor cfg (out ! Suc m) (out ! m)) ov2"
  define s where "s = (if ov then g_iff cfg (as ! m) (bs ! m) else g_xor cfg (as ! m) (bs ! m))"
  have core: "mk_smul_no_overflow_core cfg as bs ov = g_not cfg (g_and cfg s ovf)"
    by (simp add: mk_smul_no_overflow_core_def n out_def ov2_def ovf_def s_def Let_def)
  note prod = smul_product_bit [OF n assms(2,3), folded out_def]
  have pair: "is_bit ov2" "holds I ov2 \<longleftrightarrow> (\<exists>j < m. \<exists>k < m. m \<le> j + k
      \<and> magnitude_bits (map (holds I) as) ! k \<and> magnitude_bits (map (holds I) bs) ! j)"
  proof -
    have nth: "magnitude_bits (map (holds I) as) ! k \<longleftrightarrow> holds I (as ! m) \<noteq> holds I (as ! k)"
      "magnitude_bits (map (holds I) bs) ! k \<longleftrightarrow> holds I (bs ! m) \<noteq> holds I (bs ! k)" if "k < m" for k
      using magnitude_nth [of "map (holds I) as" m k] magnitude_nth [of "map (holds I) bs" m k] n that
      by simp_all
    have "is_bit ov2 \<and> (holds I ov2 \<longleftrightarrow> (\<exists>j. 1 \<le> j \<and> j < m \<and> (\<exists>k < m. m \<le> j + k
        \<and> (holds I (as ! m) \<noteq> holds I (as ! k)) \<and> (holds I (bs ! m) \<noteq> holds I (bs ! j)))))"
    proof (cases "m = 0")
      case False
      then show ?thesis
        unfolding ov2_def using smul_ovf_loop [OF n assms(2,3), of FalseE FalseE 1] by simp
    qed (simp add: ov2_def)
    moreover have "1 \<le> j" if "m \<le> j + k" "k < m" for j k using that by simp
    ultimately show "is_bit ov2" "holds I ov2 \<longleftrightarrow> (\<exists>j < m. \<exists>k < m. m \<le> j + k
        \<and> magnitude_bits (map (holds I) as) ! k \<and> magnitude_bits (map (holds I) bs) ! j)"
      using nth by (simp, metis)
  qed
  have last: "last (map (holds I) as) = holds I (as ! m)" "last (map (holds I) bs) = holds I (bs ! m)"
    using last_map_holds [of as I] last_map_holds [of bs I] ne n by auto
  have len: "length (magnitude_bits (map (holds I) as)) = m" "length (magnitude_bits (map (holds I) bs)) = m"
    using n by (simp_all add: magnitude_bits_def)
  have ovf: "is_bit ovf" "holds I ovf \<longleftrightarrow>
      odd (bv_sval I as * bv_sval I bs div 2 ^ Suc m) \<noteq> odd (bv_sval I as * bv_sval I bs div 2 ^ m)
      \<or> (\<exists>j < m. \<exists>k < m. m \<le> j + k
        \<and> magnitude_bits (map (holds I) as) ! k \<and> magnitude_bits (map (holds I) bs) ! j)"
    using prod(1) [of "Suc m"] prod(1) [of m] prod(2) [of "Suc m" I] prod(2) [of m I] pair
    by (simp_all add: ovf_def)
  have s: "is_bit s" "holds I s \<longleftrightarrow> (holds I (as ! m) = holds I (bs ! m)) = ov"
    using msb by (simp_all add: s_def)
  show "is_bit (mk_smul_no_overflow_core cfg as bs ov)" using core ovf s by simp
  have sign: "0 \<le> bv_sval I as * bv_sval I bs" if "holds I (as ! m) = holds I (bs ! m)"
    using that signed_magnitude [OF ne(1)] signed_magnitude [OF ne(2)]
    unfolding last by (auto simp: signed_val_def zero_le_mult_iff)
  have sign': "bv_sval I as * bv_sval I bs \<le> 0" if "holds I (as ! m) \<noteq> holds I (bs ! m)"
    using that signed_magnitude [OF ne(1)] signed_magnitude [OF ne(2)]
    unfolding last by (auto simp: signed_val_def mult_le_0_iff)
  note over = signed_product_overflow [OF len, of "holds I (as ! m)" "holds I (bs ! m)",
      folded last, folded signed_magnitude [OF ne(1)] signed_magnitude [OF ne(2)], unfolded last,
      folded ovf(2)]
  have pos: "(0::int) < 2 ^ m" by simp
  have low: "- (2 ^ m) \<le> bv_sval I as * bv_sval I bs" if "holds I (as ! m) = holds I (bs ! m)"
    using sign [OF that] pos by linarith
  have high: "bv_sval I as * bv_sval I bs < 2 ^ m" if "holds I (as ! m) \<noteq> holds I (bs ! m)"
    using sign' [OF that] pos by linarith
  show "holds I (mk_smul_no_overflow_core cfg as bs ov) \<longleftrightarrow>
      (if ov then bv_sval I as * bv_sval I bs < 2 ^ (length as - 1)
       else - (2 ^ (length as - 1)) \<le> bv_sval I as * bv_sval I bs)"
    using core s ovf(1) over low high n
    by (cases "holds I (as ! m) = holds I (bs ! m)"; cases ov) (simp_all add: not_le not_less)
qed

end

subsection \<open>Properties\<close>

text \<open>C24: a left shift multiplies by the power of two and drops what leaves the width; a logical
  right shift divides the unsigned value, an arithmetic one the signed value, rounding down; for
  every amount, also beyond the width.\<close>

theorem shifts_correct:
  assumes "cfg \<in> blaster_cfgs m rw ext" "all_bits as" "all_bits bs"
    and "length bs = length as" "as \<noteq> []"
  shows "bv_val I (mk_shl cfg as bs) = bv_val I as * 2 ^ bv_val I bs mod 2 ^ length as
    \<and> bv_val I (mk_lshr cfg as bs) = bv_val I as div 2 ^ bv_val I bs
    \<and> bv_sval I (mk_ashr cfg as bs) = bv_sval I as div 2 ^ bv_val I bs"
proof -
  have g: "bit_gates cfg"
    using assms(1) bb.bit_gates_axioms bl.bit_gates_axioms by (elim blaster_cfgs_cases) simp_all
  show ?thesis
    using bit_gates.mk_shl [OF g assms(2-4), of I] bit_gates.mk_lshr [OF g assms(2-4), of I]
      bit_gates.mk_ashr [OF g assms(2-5), of I] shr_bits_sval [of "map (holds I) as" "bv_val I bs"] assms(5)
    by (simp add: shl_bits_val shr_bits_val)
qed

theorem shifts_correct_witness:
  "bv_val I0 (mk_shl (blaster_cfg m0 blaster_rw) [v0, v1, v2] [v0, v1, v1]) = 2
    \<and> bv_val I0 (mk_lshr (blaster_cfg m0 blaster_rw) [v0, v1, v2] [v0, v1, v1]) = 2
    \<and> bv_sval I0 (mk_ashr (blaster_cfg m0 blaster_rw) [v0, v1, v2] [v0, v1, v1]) = - 2"
  using shifts_correct [of "blaster_cfg m0 blaster_rw" m0 blaster_rw True
      "[v0, v1, v2]" "[v0, v1, v1]" I0]
  by (simp add: blaster_cfgs_def bits_to_int_def [of "[True, False, True]"])

text \<open>rotation by a bit vector is the rotation by its value, and the two directions undo each
  other.\<close>

lemma rotations_correct:
  assumes "cfg \<in> blaster_cfgs m rw ext" "all_bits as" "all_bits bs" "length bs = length as"
  shows "map (holds I) (mk_ext_rotate_left cfg as bs) = map (holds I) (mk_rotate_left as (bv_val I bs))
    \<and> map (holds I) (mk_ext_rotate_right cfg as bs) = map (holds I) (mk_rotate_right as (bv_val I bs))
    \<and> mk_rotate_right (mk_rotate_left as n) n = as \<and> mk_rotate_left (mk_rotate_right as n) n = as"
proof -
  have "rotate n (rotate (length as - n mod length as) as) = as"
    "rotate (length as - n mod length as) (rotate n as) = as" if "as \<noteq> []"
  proof -
    have "n mod length as < length as" using that by simp
    then have "(n + (length as - n mod length as)) mod length as = 0"
      by (metis add.commute le_add_diff_inverse2 less_imp_le mod_add_left_eq mod_self)
    then have "rotate (n + (length as - n mod length as)) as = as" by (rule rotate_id)
    then show "rotate n (rotate (length as - n mod length as) as) = as"
      "rotate (length as - n mod length as) (rotate n as) = as"
      by (simp_all add: rotate_rotate add.commute)
  qed
  then have undo: "mk_rotate_right (mk_rotate_left as n) n = as" "mk_rotate_left (mk_rotate_right as n) n = as"
    by (cases "as = []"; simp add: mk_rotate_left_eq mk_rotate_right_eq)+
  have g: "bit_gates cfg"
    using assms(1) bb.bit_gates_axioms bl.bit_gates_axioms by (elim blaster_cfgs_cases) simp_all
  show ?thesis
    using undo bit_gates.mk_ext_rotate(3) [OF g assms(2-4), of I True]
      bit_gates.mk_ext_rotate(3) [OF g assms(2-4), of I False]
    by (simp add: mk_ext_rotate_left_def mk_ext_rotate_right_def)
qed

lemma rotations_correct_witness:
  "map (holds I0) (mk_ext_rotate_left (blaster_cfg m0 blaster_rw) [v0, v1, v1] [v0, v1, v2])
    = [False, False, True]"
  using rotations_correct [of "blaster_cfg m0 blaster_rw" m0 blaster_rw True
      "[v0, v1, v1]" "[v0, v1, v2]" I0 0]
  by (simp add: blaster_cfgs_def mk_rotate_left_def)

text \<open>the comparators decide the orders of the unsigned and of the signed values.\<close>

lemma comparisons_correct:
  assumes "cfg \<in> blaster_cfgs m rw ext" "all_bits as" "all_bits bs"
    and "length bs = length as" "as \<noteq> []"
  shows "(holds I (mk_ule cfg as bs) \<longleftrightarrow> bv_val I as \<le> bv_val I bs)
    \<and> (holds I (mk_sle cfg as bs) \<longleftrightarrow> bv_sval I as \<le> bv_sval I bs)
    \<and> (holds I (mk_is_eq cfg as n) \<longleftrightarrow> bv_val I as = n mod 2 ^ length as)"
  using assms bb.mk_ule(2) bl.mk_ule(2) bb.mk_sle(2) bl.mk_sle(2) bb.mk_is_eq(2) bl.mk_is_eq(2)
  by (elim blaster_cfgs_cases) simp_all

lemma comparisons_correct_witness:
  "\<not> holds I0 (mk_ule (blaster_cfg m0 blaster_rw) [v0, v1, v2] [v0, v2, v1])
    \<and> holds I0 (mk_sle (blaster_cfg m0 blaster_rw) [v0, v1, v2] [v0, v2, v1])"
  using comparisons_correct [of "blaster_cfg m0 blaster_rw" m0 blaster_rw True
      "[v0, v1, v2]" "[v0, v2, v1]" I0]
  by (simp add: blaster_cfgs_def bits_to_int_def)

text \<open>C25: the signed overflow tests: no overflow means that the product of the signed values stays
  below the largest number of the width, no underflow that it does not pass the smallest.\<close>

theorem smul_no_overflow_correct:
  assumes "cfg \<in> blaster_cfgs m rw ext" "all_bits as" "all_bits bs"
    and "length bs = length as" "as \<noteq> []"
  shows "(holds I (mk_smul_no_overflow cfg as bs) \<longleftrightarrow>
      bv_sval I as * bv_sval I bs < 2 ^ (length as - 1))
    \<and> (holds I (mk_smul_no_underflow cfg as bs) \<longleftrightarrow>
      - (2 ^ (length as - 1)) \<le> bv_sval I as * bv_sval I bs)"
  using assms bb.mk_smul_no_overflow_core(2) bl.mk_smul_no_overflow_core(2)
  by (elim blaster_cfgs_cases) (simp_all add: mk_smul_no_overflow_def mk_smul_no_underflow_def)

theorem smul_no_overflow_correct_witness:
  "holds I0 (mk_smul_no_overflow (blaster_cfg m0 blaster_rw) [v0, v2, v1] [v0, v1, v1])
    \<and> \<not> holds I0 (mk_smul_no_underflow (blaster_cfg m0 blaster_rw) [v0, v2, v1] [v1, v2, v2])"
  using smul_no_overflow_correct [of "blaster_cfg m0 blaster_rw" m0 blaster_rw True
      "[v0, v2, v1]" "[v0, v1, v1]" I0]
    smul_no_overflow_correct [of "blaster_cfg m0 blaster_rw" m0 blaster_rw True
      "[v0, v2, v1]" "[v1, v2, v2]" I0]
  by (simp add: blaster_cfgs_def bits_to_int_def)

text \<open>the bitwise operations apply their connective to every pair of bits, the reductions and the
  comparison give a single bit.\<close>

lemma bitwise_correct:
  assumes "cfg \<in> blaster_cfgs m rw ext" "all_bits as" "all_bits bs" "length bs = length as"
  shows "map (holds I) (mk_not_bv cfg as) = map (\<lambda>x. \<not> x) (map (holds I) as)
    \<and> map (holds I) (mk_and_bv cfg as bs) = map2 (\<and>) (map (holds I) as) (map (holds I) bs)
    \<and> map (holds I) (mk_or_bv cfg as bs) = map2 (\<or>) (map (holds I) as) (map (holds I) bs)
    \<and> map (holds I) (mk_xor_bv cfg as bs) = map2 (\<noteq>) (map (holds I) as) (map (holds I) bs)
    \<and> map (holds I) (mk_xnor_bv cfg as bs) = map2 (=) (map (holds I) as) (map (holds I) bs)
    \<and> map (holds I) (mk_nand_bv cfg as bs) = map2 (\<lambda>x y. \<not> (x \<and> y)) (map (holds I) as) (map (holds I) bs)
    \<and> map (holds I) (mk_nor_bv cfg as bs) = map2 (\<lambda>x y. \<not> (x \<or> y)) (map (holds I) as) (map (holds I) bs)
    \<and> bv_val I (mk_redand cfg as) = of_bool (bv_val I as = 2 ^ length as - 1)
    \<and> bv_val I (mk_redor cfg as) = of_bool (bv_val I as \<noteq> 0)
    \<and> bv_val I (mk_comp cfg as bs) = of_bool (bv_val I as = bv_val I bs)"
proof -
  have g: "bit_gates cfg"
    using assms(1) bb.bit_gates_axioms bl.bit_gates_axioms by (elim blaster_cfgs_cases) simp_all
  have n: "map (holds I) (mk_not_bv cfg as) = map (\<lambda>x. \<not> x) (map (holds I) as)"
    using bit_gates.mk_not_bv(2) [OF g assms(2), of I] by (simp add: flip_bits_def)
  note b = bit_gates.bitwise_gates [OF g assms(4) [symmetric] assms(2,3)]
  show ?thesis
    using n b(3,6,9,12,15,18) [of I] bit_gates.reductions [OF g assms(2), of I]
      bit_gates.mk_comp [OF g assms(4) [symmetric] assms(2,3), of I] by blast
qed

lemma bitwise_correct_witness:
  "bv_val I0 (mk_redor (blaster_cfg m0 blaster_rw) [v1, v0, v2]) = 1
    \<and> map (holds I0) (mk_nand_bv (blaster_cfg m0 blaster_rw) [v1, v0, v2] [v0, v0, v1]) = [True, False, True]"
  using bitwise_correct [of "blaster_cfg m0 blaster_rw" m0 blaster_rw True
      "[v1, v0, v2]" "[v0, v0, v1]" I0]
  by (simp add: blaster_cfgs_def)

end
