(* ===== verification/Blaster_Cases.thy ===== *)
theory Blaster_Cases
  imports Blaster_Div
begin

text \<open>
  \<open>mk_sdiv_srem_smod\<close> of \<open>bit_blaster_tpl_def.h\<close>, the second way the source has to build the
  signed operations: one unsigned division per combination of signs, selected by the sign bits.
  The source keeps it for inputs with known sign bits and calls it only from code that is switched
  off. For division and remainder it agrees with the circuits in use; for the modulus it does not
  when the remainder is zero and the signs differ.
\<close>

subsection \<open>The circuit\<close>

datatype signed_op = SDIV | SREM | SMOD

definition zero_bits :: "nat \<Rightarrow> expr list" where
  "zero_bits sz = replicate sz FalseE"

definition quadrant :: "bb_cfg \<Rightarrow> bool \<Rightarrow> expr list \<Rightarrow> expr list \<Rightarrow> expr list \<times> expr list" where
  "quadrant cfg possible a_bits b_bits =
     (if possible then mk_udiv_urem cfg a_bits b_bits
      else (zero_bits (length a_bits), zero_bits (length a_bits)))"

definition quadrant_mux ::
    "bb_cfg \<Rightarrow> expr \<Rightarrow> expr \<Rightarrow> expr list \<Rightarrow> expr list \<Rightarrow> expr list \<Rightarrow> expr list \<Rightarrow> expr list" where
  "quadrant_mux cfg a_msb b_msb nn_out np_out pn_out pp_out =
     (let ite1 = mk_multiplexer cfg b_msb nn_out np_out;
          ite2 = mk_multiplexer cfg b_msb pn_out pp_out
      in mk_multiplexer cfg a_msb ite1 ite2)"

definition mk_sdiv_srem_smod :: "bb_cfg \<Rightarrow> signed_op \<Rightarrow> expr list \<Rightarrow> expr list \<Rightarrow> expr list" where
  "mk_sdiv_srem_smod cfg k a_bits b_bits =
     (let sz = length a_bits;
          a_msb = a_bits ! (sz - 1);
          b_msb = b_bits ! (sz - 1);
          neg_a_bits = mk_neg cfg a_bits;
          neg_b_bits = mk_neg cfg b_bits;
          pp = a_msb \<noteq> TrueE \<and> b_msb \<noteq> TrueE;
          np = a_msb \<noteq> FalseE \<and> b_msb \<noteq> TrueE;
          pn = a_msb \<noteq> TrueE \<and> b_msb \<noteq> FalseE;
          nn = a_msb \<noteq> FalseE \<and> b_msb \<noteq> FalseE;
          (pp_q, pp_r) = quadrant cfg pp a_bits b_bits;
          (np_q, np_r) = quadrant cfg np neg_a_bits b_bits;
          (pn_q, pn_r) = quadrant cfg pn a_bits neg_b_bits;
          (nn_q, nn_r) = quadrant cfg nn neg_a_bits neg_b_bits;
          out = (\<lambda>possible bits. if possible then bits else zero_bits sz);
          mux = quadrant_mux cfg a_msb b_msb
      in case k of
           SDIV \<Rightarrow> mux nn_q (out np (mk_neg cfg np_q)) (out pn (mk_neg cfg pn_q)) pp_q
         | SREM \<Rightarrow> mux (out nn (mk_neg cfg nn_r)) (out np (mk_neg cfg np_r)) pn_r pp_r
         | SMOD \<Rightarrow> mux (out nn (mk_neg cfg nn_r)) (out np (fst (mk_subtracter cfg b_bits np_r)))
                     (out pn (mk_adder cfg b_bits pn_r)) pp_r)"

subsection \<open>Meaning\<close>

lemma zero_bits [simp]: "all_bits (zero_bits n)" "length (zero_bits n) = n"
  by (simp_all add: zero_bits_def)

context bit_gates
begin

lemma quadrant_mux:
  assumes "is_bit a" "is_bit b" "all_bits nn" "all_bits np" "all_bits pn" "all_bits pp"
    and "length nn = n" "length np = n" "length pn = n" "length pp = n"
  shows "all_bits (quadrant_mux cfg a b nn np pn pp)" "length (quadrant_mux cfg a b nn np pn pp) = n"
    and "bv_val I (quadrant_mux cfg a b nn np pn pp) =
      (if holds I a then (if holds I b then bv_val I nn else bv_val I np)
       else (if holds I b then bv_val I pn else bv_val I pp))"
  using assms mk_multiplexer_holds [of nn np b I] mk_multiplexer_holds [of pn pp b I]
    mk_multiplexer_holds [of "mk_multiplexer cfg b nn np" "mk_multiplexer cfg b pn pp" a I]
  by (auto simp: quadrant_mux_def)

lemma quadrant:
  assumes "length bs = length as" "all_bits as" "all_bits bs" "as \<noteq> []" "quadrant cfg g as bs = (q, r)"
  shows "all_bits q" "length q = length as" "all_bits r" "length r = length as"
    and "g \<Longrightarrow> bv_val I q = bv_udiv (length as) (bv_val I as) (bv_val I bs)"
    and "g \<Longrightarrow> bv_val I r = bv_val I as mod bv_val I bs"
  using mk_udiv_urem [OF assms(1-4), of q r] assms(5) by (cases g; auto simp: quadrant_def)+

text \<open>The operand that enters the division of a quadrant is the absolute value there.\<close>

lemma abs_operand:
  assumes "all_bits as" "as \<noteq> []"
  shows "bv_sval I as < 0 \<Longrightarrow> int (bv_val I (mk_neg cfg as)) = \<bar>bv_sval I as\<bar>"
    and "0 \<le> bv_sval I as \<Longrightarrow> int (bv_val I as) = \<bar>bv_sval I as\<bar>"
proof -
  define n where "n = length as"
  have n: "0 < n" using assms(2) by (simp add: n_def)
  have bound: "- (2 ^ (n - 1)) \<le> bv_sval I as" "bv_sval I as < 2 ^ (n - 1)"
    using bits_to_int_bounds(2,3) [of "map (holds I) as"] assms(2) by (simp_all add: n_def)
  have "(2::int) ^ (n - 1) < 2 ^ n" using n by simp
  then have less: "\<bar>bv_sval I as\<bar> < 2 ^ n" using bound by linarith
  have "int (bv_val I (mk_neg cfg as)) = - bv_sval I as mod 2 ^ n"
    using mk_neg_int [OF assms(1) n_def [symmetric]] bv_sval_mod [OF n_def [symmetric], of I]
    by (metis mod_minus_eq)
  then show "bv_sval I as < 0 \<Longrightarrow> int (bv_val I (mk_neg cfg as)) = \<bar>bv_sval I as\<bar>" using less by simp
  show "0 \<le> bv_sval I as \<Longrightarrow> int (bv_val I as) = \<bar>bv_sval I as\<bar>"
    using bv_sval_mod [OF n_def [symmetric], of I] less by simp
qed

lemma mk_subtracter_int:
  assumes "length as = n" "length bs = n" "all_bits as" "all_bits bs"
  shows "all_bits (fst (mk_subtracter cfg as bs))" "length (fst (mk_subtracter cfg as bs)) = n"
    and "int (bv_val I (fst (mk_subtracter cfg as bs))) = (int (bv_val I as) - int (bv_val I bs)) mod 2 ^ n"
proof -
  obtain t c where t: "mk_subtracter cfg as bs = (t, c)" by force
  have len: "length as = length bs" using assms by simp
  note b = mk_subtracter_bits [OF len assms(3,4) t] and v = mk_subtracter_val(1) [OF len assms(3,4) t, of I]
  show "all_bits (fst (mk_subtracter cfg as bs))" "length (fst (mk_subtracter cfg as bs)) = n"
    using b t assms(1) by simp_all
  have less: "int (bv_val I as) < 2 ^ n" "int (bv_val I bs) < 2 ^ n"
    using assms bv_val_less by blast+
  show "int (bv_val I (fst (mk_subtracter cfg as bs))) = (int (bv_val I as) - int (bv_val I bs)) mod 2 ^ n"
  proof (cases "bv_val I bs \<le> bv_val I as")
    case True
    then have "int (bv_val I t) = int (bv_val I as) - int (bv_val I bs)" using v by simp
    moreover have "0 \<le> int (bv_val I as) - int (bv_val I bs)"
      "int (bv_val I as) - int (bv_val I bs) < 2 ^ n" using True less by linarith+
    ultimately show ?thesis using t by simp
  next
    case False
    have "bv_val I bs \<le> 2 ^ n + bv_val I as" using less(2) by simp
    then have "int (bv_val I t) = int (bv_val I as) - int (bv_val I bs) + 2 ^ n"
      using v False assms(1) by (simp add: of_nat_diff)
    moreover have "0 \<le> int (bv_val I as) - int (bv_val I bs) + 2 ^ n"
      "int (bv_val I as) - int (bv_val I bs) + 2 ^ n < 2 ^ n" using False less by linarith+
    ultimately show ?thesis using t by (metis fst_conv mod_add_self2 mod_pos_pos_trivial)
  qed
qed

text \<open>The results before reduction, from the quotient and the remainder of the absolute values.\<close>

lemma mk_sdiv_srem_smod:
  assumes "length bs = length as" "all_bits as" "all_bits bs" "as \<noteq> []"
  defines "n \<equiv> length as"
  defines "a \<equiv> \<lambda>I. bv_sval I as" and "b \<equiv> \<lambda>I. bv_sval I bs"
  defines "u \<equiv> \<lambda>I. int (bv_udiv n (nat \<bar>a I\<bar>) (nat \<bar>b I\<bar>))" and "r \<equiv> \<lambda>I. \<bar>a I\<bar> mod \<bar>b I\<bar>"
  shows "all_bits (mk_sdiv_srem_smod cfg k as bs)" "length (mk_sdiv_srem_smod cfg k as bs) = n"
    and "int (bv_val I (mk_sdiv_srem_smod cfg k as bs)) =
      (case k of
         SDIV \<Rightarrow> (if (a I < 0) = (b I < 0) then u I else - u I)
       | SREM \<Rightarrow> (if a I < 0 then - r I else r I)
       | SMOD \<Rightarrow> (if a I < 0 then (if b I < 0 then - r I else b I - r I)
                  else (if b I < 0 then b I + r I else r I))) mod 2 ^ n"
proof -
  define sa where "sa = as ! (n - 1)"
  define sb where "sb = bs ! (n - 1)"
  have bs: "bs \<noteq> []" "length bs = n" using assms by (auto simp: n_def)
  have bits: "is_bit sa" "is_bit sb" using assms by (simp_all add: sa_def sb_def n_def all_bits_nth)
  have sign: "holds I sa \<longleftrightarrow> a I < 0" "holds I sb \<longleftrightarrow> b I < 0" for I
    using sign_bits [OF assms(4,1), of I] by (simp_all add: sa_def sb_def n_def a_def b_def)
  have known: "holds I sa \<Longrightarrow> sa \<noteq> FalseE" "\<not> holds I sa \<Longrightarrow> sa \<noteq> TrueE"
    "holds I sb \<Longrightarrow> sb \<noteq> FalseE" "\<not> holds I sb \<Longrightarrow> sb \<noteq> TrueE" for I by auto
  define na where "na = mk_neg cfg as"
  define nb where "nb = mk_neg cfg bs"
  have ops: "all_bits na" "length na = n" "all_bits nb" "length nb = n"
    using assms(1-3) by (simp_all add: na_def nb_def n_def)
  moreover have "n \<noteq> 0" using assms(4) by (simp add: n_def)
  ultimately have na: "na \<noteq> []" by auto
  obtain ppq ppr where pp: "quadrant cfg (sa \<noteq> TrueE \<and> sb \<noteq> TrueE) as bs = (ppq, ppr)" by force
  obtain npq npr where np: "quadrant cfg (sa \<noteq> FalseE \<and> sb \<noteq> TrueE) na bs = (npq, npr)" by force
  obtain pnq pnr where pn: "quadrant cfg (sa \<noteq> TrueE \<and> sb \<noteq> FalseE) as nb = (pnq, pnr)" by force
  obtain nnq nnr where nn: "quadrant cfg (sa \<noteq> FalseE \<and> sb \<noteq> FalseE) na nb = (nnq, nnr)" by force
  have lens: "length bs = length as" "length bs = length na" "length nb = length as" "length nb = length na"
    using bs ops by (simp_all add: n_def)
  note qpp = quadrant [OF lens(1) assms(2,3,4) pp] and qnp = quadrant [OF lens(2) ops(1) assms(3) na np]
    and qpn = quadrant [OF lens(3) assms(2) ops(3) assms(4) pn]
    and qnn = quadrant [OF lens(4) ops(1,3) na nn]
  have len: "length as = n" by (simp add: n_def)
  note q_bits = qpp(1-4) [unfolded len] qnp(1-4) [unfolded ops(2)] qpn(1-4) [unfolded len]
    qnn(1-4) [unfolded ops(2)]
  have abs: "a I < 0 \<Longrightarrow> int (bv_val I na) = \<bar>a I\<bar>" "0 \<le> a I \<Longrightarrow> int (bv_val I as) = \<bar>a I\<bar>"
    "b I < 0 \<Longrightarrow> int (bv_val I nb) = \<bar>b I\<bar>" "0 \<le> b I \<Longrightarrow> int (bv_val I bs) = \<bar>b I\<bar>" for I
    using abs_operand [OF assms(2,4)] abs_operand [OF assms(3) bs(1)]
    by (simp_all add: na_def nb_def a_def b_def)
  have div: "int (bv_udiv n x y) = u I \<and> int (x mod y) = r I" if "int x = \<bar>a I\<bar>" "int y = \<bar>b I\<bar>" for x y I
    unfolding u_def r_def that [symmetric] by (simp add: zmod_int)
  have vals:
    "\<not> a I < 0 \<Longrightarrow> \<not> b I < 0 \<Longrightarrow> int (bv_val I ppq) = u I \<and> int (bv_val I ppr) = r I"
    "a I < 0 \<Longrightarrow> \<not> b I < 0 \<Longrightarrow> int (bv_val I npq) = u I \<and> int (bv_val I npr) = r I"
    "\<not> a I < 0 \<Longrightarrow> b I < 0 \<Longrightarrow> int (bv_val I pnq) = u I \<and> int (bv_val I pnr) = r I"
    "a I < 0 \<Longrightarrow> b I < 0 \<Longrightarrow> int (bv_val I nnq) = u I \<and> int (bv_val I nnr) = r I" for I
  proof -
    note k = known [of I, unfolded sign]
    show "\<not> a I < 0 \<Longrightarrow> \<not> b I < 0 \<Longrightarrow> int (bv_val I ppq) = u I \<and> int (bv_val I ppr) = r I"
      using qpp(5,6) [of I] k div [OF abs(2) abs(4), of I] len by simp
    show "a I < 0 \<Longrightarrow> \<not> b I < 0 \<Longrightarrow> int (bv_val I npq) = u I \<and> int (bv_val I npr) = r I"
      using qnp(5,6) [of I] k div [OF abs(1) abs(4), of I] ops(2) by simp
    show "\<not> a I < 0 \<Longrightarrow> b I < 0 \<Longrightarrow> int (bv_val I pnq) = u I \<and> int (bv_val I pnr) = r I"
      using qpn(5,6) [of I] k div [OF abs(2) abs(3), of I] len by simp
    show "a I < 0 \<Longrightarrow> b I < 0 \<Longrightarrow> int (bv_val I nnq) = u I \<and> int (bv_val I nnr) = r I"
      using qnn(5,6) [of I] k div [OF abs(1) abs(3), of I] ops(2) by simp
  qed
  define out where "out g xs = (if g then xs else zero_bits n)" for g :: bool and xs :: "expr list"
  have out: "all_bits (out g xs)" "length (out g xs) = n" if "all_bits xs" "length xs = n" for g xs
    using that by (auto simp: out_def)
  note sub = mk_subtracter_int [OF bs(2) q_bits(8) assms(3) q_bits(7)]
  define nn' where "nn' = (case k of SDIV \<Rightarrow> nnq | _ \<Rightarrow> out (sa \<noteq> FalseE \<and> sb \<noteq> FalseE) (mk_neg cfg nnr))"
  define np' where "np' = out (sa \<noteq> FalseE \<and> sb \<noteq> TrueE) (case k of SDIV \<Rightarrow> mk_neg cfg npq
    | SREM \<Rightarrow> mk_neg cfg npr | SMOD \<Rightarrow> fst (mk_subtracter cfg bs npr))"
  define pn' where "pn' = (case k of SDIV \<Rightarrow> out (sa \<noteq> TrueE \<and> sb \<noteq> FalseE) (mk_neg cfg pnq)
    | SREM \<Rightarrow> pnr | SMOD \<Rightarrow> out (sa \<noteq> TrueE \<and> sb \<noteq> FalseE) (mk_adder cfg bs pnr))"
  define pp' where "pp' = (case k of SDIV \<Rightarrow> ppq | _ \<Rightarrow> ppr)"
  have mux: "mk_sdiv_srem_smod cfg k as bs = quadrant_mux cfg sa sb nn' np' pn' pp'"
    using pp np pn nn
    by (simp add: mk_sdiv_srem_smod_def Let_def nn'_def np'_def pn'_def pp'_def out_def na_def nb_def
        sa_def sb_def n_def split: signed_op.split)
  have b': "all_bits nn'" "length nn' = n" "all_bits np'" "length np' = n"
    "all_bits pn'" "length pn' = n" "all_bits pp'" "length pp' = n"
    using q_bits bs assms(3) sub(1,2)
    by (cases k; simp add: nn'_def np'_def pn'_def pp'_def out)+
  note m = quadrant_mux [OF bits b'(1,3,5,7) b'(2,4,6,8), folded mux]
  show "all_bits (mk_sdiv_srem_smod cfg k as bs)" "length (mk_sdiv_srem_smod cfg k as bs) = n"
    by (rule m(1), rule m(2))
  have res: "int v = int v mod 2 ^ n" if "v = bv_val I xs" "length xs = n" for v xs
    using bv_val_less [OF that(2), of I] that(1) by simp
  have b_mod: "int (bv_val I bs) mod 2 ^ n = b I mod 2 ^ n"
    using bv_sval_mod [OF bs(2), of I] by (simp add: b_def flip: bv_sval_mod [OF bs(2), of I])
  show "int (bv_val I (mk_sdiv_srem_smod cfg k as bs)) =
      (case k of
         SDIV \<Rightarrow> (if (a I < 0) = (b I < 0) then u I else - u I)
       | SREM \<Rightarrow> (if a I < 0 then - r I else r I)
       | SMOD \<Rightarrow> (if a I < 0 then (if b I < 0 then - r I else b I - r I)
                  else (if b I < 0 then b I + r I else r I))) mod 2 ^ n"
  proof (cases "a I < 0"; cases "b I < 0")
    assume s: "a I < 0" "b I < 0"
    then have "sa \<noteq> FalseE" "sb \<noteq> FalseE" using known [of I] sign [of I] by simp_all
    then have "int (bv_val I nn') = (case k of SDIV \<Rightarrow> u I | _ \<Rightarrow> - r I) mod 2 ^ n"
      using vals(4) [OF s] res [OF refl q_bits(14)] mk_neg_int [OF q_bits(15,16), of I]
      by (cases k) (simp_all add: nn'_def out_def)
    then show ?thesis using m(3) [of I] sign [of I] s by (cases k) simp_all
  next
    assume s: "a I < 0" "\<not> b I < 0"
    then have "sa \<noteq> FalseE" "sb \<noteq> TrueE" using known [of I] sign [of I] by simp_all
    then have "int (bv_val I np') = (case k of SDIV \<Rightarrow> - u I | SREM \<Rightarrow> - r I | SMOD \<Rightarrow> b I - r I) mod 2 ^ n"
      using vals(2) [OF s] mk_neg_int [OF q_bits(5,6), of I] mk_neg_int [OF q_bits(7,8), of I] sub(3) [of I]
        mod_diff_left_eq [of "int (bv_val I bs)" "2 ^ n" "r I"] mod_diff_left_eq [of "b I" "2 ^ n" "r I"] b_mod
      by (cases k) (simp_all add: np'_def out_def)
    then show ?thesis using m(3) [of I] sign [of I] s by (cases k) simp_all
  next
    assume s: "\<not> a I < 0" "b I < 0"
    then have "sa \<noteq> TrueE" "sb \<noteq> FalseE" using known [of I] sign [of I] by simp_all
    then have "int (bv_val I pn') = (case k of SDIV \<Rightarrow> - u I | SREM \<Rightarrow> r I | SMOD \<Rightarrow> b I + r I) mod 2 ^ n"
      using vals(3) [OF s] mk_neg_int [OF q_bits(9,10), of I] res [OF refl q_bits(12)]
        mk_adder_int [OF bs(2) q_bits(12) assms(3) q_bits(11), of I]
        mod_add_left_eq [of "int (bv_val I bs)" "2 ^ n" "r I"] mod_add_left_eq [of "b I" "2 ^ n" "r I"] b_mod
      by (cases k) (simp_all add: pn'_def out_def)
    then show ?thesis using m(3) [of I] sign [of I] s by (cases k) simp_all
  next
    assume s: "\<not> a I < 0" "\<not> b I < 0"
    have "int (bv_val I pp') = (case k of SDIV \<Rightarrow> u I | _ \<Rightarrow> r I) mod 2 ^ n"
      using vals(1) [OF s] res [OF refl q_bits(2)] res [OF refl q_bits(4)]
      by (cases k) (simp_all add: pp'_def)
    then show ?thesis using m(3) [of I] sign [of I] s by (cases k) simp_all
  qed
qed

end

subsection \<open>Properties\<close>

lemma smod_int_abs: "x smod y = (if x < 0 then - (\<bar>x\<bar> mod \<bar>y\<bar>) else \<bar>x\<bar> mod \<bar>y\<bar>)" for x y :: int
  by (auto simp: signed_modulo_int_def signed_divide_int_def sgn_if minus_div_mult_eq_mod [symmetric])

context bit_gates
begin

lemma sdiv_srem_cases:
  assumes "length bs = length as" "all_bits as" "all_bits bs" "as \<noteq> []"
  shows "bv_val I (mk_sdiv_srem_smod cfg SDIV as bs) = bv_val I (mk_sdiv cfg as bs)"
    and "bv_val I (mk_sdiv_srem_smod cfg SREM as bs) = bv_val I (mk_srem cfg as bs)"
proof -
  have "int (bv_val I (mk_sdiv_srem_smod cfg SDIV as bs)) = int (bv_val I (mk_sdiv cfg as bs))"
    using mk_sdiv_srem_smod(3) [OF assms, of I SDIV] mk_sdiv [OF assms, of I]
      bv_sdiv_abs [of "nat \<bar>bv_sval I as\<bar>" "bv_sval I as" "nat \<bar>bv_sval I bs\<bar>" "bv_sval I bs" "length as"]
    by simp
  then show "bv_val I (mk_sdiv_srem_smod cfg SDIV as bs) = bv_val I (mk_sdiv cfg as bs)" by simp
  have "int (bv_val I (mk_sdiv_srem_smod cfg SREM as bs)) = int (bv_val I (mk_srem cfg as bs))"
    using mk_sdiv_srem_smod(3) [OF assms, of I SREM] mk_srem [OF assms, of I]
    by (simp add: smod_int_abs)
  then show "bv_val I (mk_sdiv_srem_smod cfg SREM as bs) = bv_val I (mk_srem cfg as bs)" by simp
qed

lemma smod_cases:
  assumes "length bs = length as" "all_bits as" "all_bits bs" "as \<noteq> []"
  shows "bv_val I (mk_sdiv_srem_smod cfg SMOD as bs) = bv_val I (mk_smod cfg as bs) \<longleftrightarrow>
    \<not> (bv_sval I as mod bv_sval I bs = 0 \<and> (bv_sval I as < 0) \<noteq> (bv_sval I bs < 0))"
proof -
  define n where "n = length as"
  define a where "a = bv_sval I as"
  define b where "b = bv_sval I bs"
  define u where "u = \<bar>a\<bar> mod \<bar>b\<bar>"
  have n: "0 < n" using assms(4) by (simp add: n_def)
  have bs: "bs \<noteq> []" using assms(1,4) by auto
  have cases: "int (bv_val I (mk_sdiv_srem_smod cfg SMOD as bs)) =
      (if a < 0 then (if b < 0 then - u else b - u) else (if b < 0 then b + u else u)) mod 2 ^ n"
    using mk_sdiv_srem_smod(3) [OF assms, of I SMOD] by (simp add: a_def b_def u_def n_def)
  have smod: "int (bv_val I (mk_smod cfg as bs)) = a mod b mod 2 ^ n"
    using mk_smod [OF assms, of I] by (simp add: a_def b_def n_def)
  note m = int_mod_abs [of a b, folded u_def]
  have u0: "u = 0 \<longleftrightarrow> a mod b = 0" unfolding u_def by (simp add: mod_eq_0_iff_dvd)
  have b_mod: "b mod 2 ^ n \<noteq> 0" if "b \<noteq> 0"
    using bv_sval_mod [of bs n I] bits_to_int_zero_iff [of "map (holds I) bs"] that bs assms(1)
    by (simp add: b_def n_def)
  have ne: "b \<noteq> 0" if "a mod b = 0" "(a < 0) \<noteq> (b < 0)" using that by auto
  have "int (bv_val I (mk_sdiv_srem_smod cfg SMOD as bs)) = int (bv_val I (mk_smod cfg as bs)) \<longleftrightarrow>
    \<not> (a mod b = 0 \<and> (a < 0) \<noteq> (b < 0))"
  proof (cases "u = 0")
    case True
    then show ?thesis unfolding cases smod using u0 b_mod ne
      by (cases "a < 0"; cases "b < 0") simp_all
  next
    case False
    then show ?thesis unfolding u0 [symmetric] unfolding cases smod m by (simp add: add.commute)
  qed
  then show ?thesis by (simp add: a_def b_def)
qed

end

text \<open>the division and the remainder selected by cases equal the circuits in use.\<close>

lemma sdiv_srem_by_cases:
  assumes "cfg \<in> blaster_cfgs m rw ext" "all_bits as" "all_bits bs"
    and "length bs = length as" "as \<noteq> []"
  shows "bv_val I (mk_sdiv_srem_smod cfg SDIV as bs) = bv_val I (mk_sdiv cfg as bs)
    \<and> bv_val I (mk_sdiv_srem_smod cfg SREM as bs) = bv_val I (mk_srem cfg as bs)"
  using assms bb.sdiv_srem_cases bl.sdiv_srem_cases by (elim blaster_cfgs_cases) simp_all

lemma sdiv_srem_by_cases_witness:
  "bv_val I0 (mk_sdiv_srem_smod (blaster_cfg m0 blaster_rw) SREM [v0, v1, v2] [v0, TrueE, v1])
    = bv_val I0 (mk_srem (blaster_cfg m0 blaster_rw) [v0, v1, v2] [v0, TrueE, v1])"
  using sdiv_srem_by_cases [of "blaster_cfg m0 blaster_rw" m0 blaster_rw True
      "[v0, v1, v2]" "[v0, TrueE, v1]" I0]
  by (simp add: blaster_cfgs_def)

text \<open>C32: the modulus selected by cases differs from the circuit in use exactly where the remainder
  is zero and the signs differ.\<close>

theorem smod_by_cases:
  assumes "cfg \<in> blaster_cfgs m rw ext" "all_bits as" "all_bits bs"
    and "length bs = length as" "as \<noteq> []"
  shows "bv_val I (mk_sdiv_srem_smod cfg SMOD as bs) = bv_val I (mk_smod cfg as bs) \<longleftrightarrow>
    \<not> (bv_sval I as mod bv_sval I bs = 0 \<and> (bv_sval I as < 0) \<noteq> (bv_sval I bs < 0))"
  using assms bb.smod_cases bl.smod_cases by (elim blaster_cfgs_cases) simp_all

theorem smod_by_cases_witness:
  "bv_val I0 (mk_sdiv_srem_smod (blaster_cfg m0 blaster_rw) SMOD [v1, v0, v2] [v0, v1, v1])
    \<noteq> bv_val I0 (mk_smod (blaster_cfg m0 blaster_rw) [v1, v0, v2] [v0, v1, v1])"
  using smod_by_cases [of "blaster_cfg m0 blaster_rw" m0 blaster_rw True
      "[v1, v0, v2]" "[v0, v1, v1]" I0]
  by (simp add: blaster_cfgs_def bits_to_int_def)

end
