(* ===== verification/Word_Lists.thy ===== *)
theory Word_Lists
  imports Prelude
begin

text \<open>
  Multi-word numbers: lists of 32-bit words, least significant word first, with the value the
  bit utilities and the multi-precision naturals of Z3 compute on, and the arithmetic of one word
  with its carry.
\<close>

unbundle bit_operations_syntax

named_theorems words_simps "values of lists of words"

definition word_base :: nat where
  "word_base = 2 ^ 32"

fun words_val :: "u32 list \<Rightarrow> nat" where
  "words_val [] = 0"
| "words_val (w # ws) = unat w + word_base * words_val ws"

lemma word_base_pos [simp]: "0 < word_base" "word_base \<noteq> 0" "1 < word_base" "Suc 0 < word_base" "Suc 0 \<le> word_base"
  by (simp_all add: word_base_def)

lemma unat_less_2_32: "unat (w :: u32) < 2 ^ 32"
  using unsigned_less [of w, where ?'a = nat] by simp

lemma unat_less_base [simp]: "unat (w :: u32) < word_base"
  using unat_less_2_32 [of w] by (simp add: word_base_def)

lemma unat_of_bool [simp]: "unat (of_bool b :: u32) = of_bool b"
  by (cases b) simp_all

lemma words_val_less: "words_val ws < word_base ^ length ws"
proof (induction ws)
  case (Cons w ws)
  have "unat w + word_base * words_val ws < word_base + word_base * words_val ws" by simp
  also have "\<dots> = word_base * Suc (words_val ws)" by simp
  also have "\<dots> \<le> word_base * word_base ^ length ws" using Cons by (intro mult_le_mono2) simp
  finally show ?case by simp
qed simp

lemma words_val_append [words_simps]:
  "words_val (xs @ ys) = words_val xs + word_base ^ length xs * words_val ys"
  by (induction xs) (simp_all add: algebra_simps)

lemma words_val_zeros [simp]: "words_val (replicate n 0) = 0"
  by (induction n) simp_all

lemma words_val_zero_iff: "words_val ws = 0 \<longleftrightarrow> (\<forall>w \<in> set ws. w = 0)"
  by (induction ws) (auto simp: unat_eq_0)

lemma words_val_take: "words_val (take n ws) = words_val ws mod word_base ^ n"
proof (cases "n \<le> length ws")
  case True
  have "words_val ws = words_val (take n ws) + word_base ^ n * words_val (drop n ws)"
    using words_val_append [of "take n ws" "drop n ws"] True by (simp add: min_absorb2)
  moreover have "words_val (take n ws) < word_base ^ n"
    using words_val_less [of "take n ws"] True by (simp add: min_absorb2)
  ultimately show ?thesis by simp
next
  case False
  have "words_val ws < word_base ^ length ws" by (rule words_val_less)
  also have "\<dots> \<le> word_base ^ n" using False by (intro power_increasing) auto
  finally show ?thesis using False by simp
qed

lemma words_val_drop: "words_val (drop n ws) = words_val ws div word_base ^ n"
proof (cases "n \<le> length ws")
  case True
  have "words_val ws = words_val (take n ws) + word_base ^ n * words_val (drop n ws)"
    using words_val_append [of "take n ws" "drop n ws"] True by (simp add: min_absorb2)
  moreover have "words_val (take n ws) < word_base ^ n"
    using words_val_less [of "take n ws"] True by (simp add: min_absorb2)
  ultimately show ?thesis by simp
next
  case False
  have "words_val ws < word_base ^ length ws" by (rule words_val_less)
  also have "\<dots> \<le> word_base ^ n" using False by (intro power_increasing) auto
  finally show ?thesis using False by simp
qed

lemma words_val_inject:
  "length xs = length ys \<Longrightarrow> words_val xs = words_val ys \<longleftrightarrow> xs = ys"
proof (induction xs ys rule: list_induct2)
  case (Cons x xs y ys)
  have "unat x + word_base * words_val xs = unat y + word_base * words_val ys \<longleftrightarrow>
      unat x = unat y \<and> words_val xs = words_val ys"
    (is "?l \<longleftrightarrow> ?r")
  proof
    assume l: ?l
    then have "(unat x + word_base * words_val xs) mod word_base
        = (unat y + word_base * words_val ys) mod word_base" by simp
    then have "unat x = unat y" by simp
    then show ?r using l by simp
  qed simp
  then show ?case using Cons by (simp add: word_unat_eq_iff)
qed simp

text \<open>The order of two numbers of the same length is decided by the first different word from the top.\<close>

lemma words_val_snoc_less:
  assumes "length xs = length ys"
  shows "x < y \<Longrightarrow> words_val (xs @ [x]) < words_val (ys @ [y])"
proof -
  assume "x < y"
  then have "Suc (unat x) \<le> unat y" by (simp add: word_less_nat_alt Suc_le_eq)
  have "words_val (xs @ [x]) < word_base ^ length xs * Suc (unat x)"
    using words_val_less [of xs] by (simp add: words_val_append)
  also have "\<dots> \<le> word_base ^ length xs * unat y"
    using \<open>Suc (unat x) \<le> unat y\<close> by (rule mult_le_mono2)
  also have "\<dots> \<le> words_val (ys @ [y])" using assms by (simp add: words_val_append)
  finally show ?thesis .
qed

subsection \<open>One word with its carry\<close>

lemma add_carry:
  fixes u v :: u32 and k :: bool
  defines "r \<equiv> u + v"
  defines "s \<equiv> r + of_bool k"
  shows "unat s + word_base * of_bool (r < u \<or> s < r) = unat u + unat v + of_bool k"
  using unat_less_2_32 [of u] unat_less_2_32 [of v] unat_less_2_32 [of r] unat_less_2_32 [of s]
  unfolding s_def r_def word_base_def
  by (cases k) (auto simp: word_less_nat_alt unat_plus_if' split: if_splits)

lemma sub_borrow:
  fixes u v :: u32 and k :: bool
  defines "r \<equiv> u - v"
  defines "s \<equiv> r - of_bool k"
  shows "unat s + unat v + of_bool k = unat u + word_base * of_bool (u < r \<or> r < s)"
  using unat_less_2_32 [of u] unat_less_2_32 [of v] unat_less_2_32 [of r] unat_less_2_32 [of s]
  unfolding s_def r_def word_base_def
  by (cases k) (auto simp: word_less_nat_alt unat_sub_if' split: if_splits)

text \<open>Two parts of a word put together with a bitwise or.\<close>

lemma or_shifted:
  fixes x p :: nat
  assumes "p < 2 ^ b"
  shows "push_bit b x OR p = x * 2 ^ b + p"
proof -
  have "push_bit b x AND take_bit b p = 0" by (rule bit_eqI) (auto simp: bit_simps)
  moreover have "take_bit b p = p" using assms by (simp add: take_bit_eq_mod)
  ultimately have "push_bit b x + p = push_bit b x OR p" by (simp add: disjunctive_add_eq_or)
  then show ?thesis by (simp add: push_bit_eq_mult)
qed

lemma unat_drop_bit_32: "unat (drop_bit n (w :: u32)) = unat w div 2 ^ n"
  unfolding unsigned_drop_bit_eq using unat_less_2_32 [of w] by (simp add: drop_bit_eq_div take_bit_eq_mod)

lemma shift_left_carry:
  fixes w prev :: u32
  assumes "0 < b" "b < 32" "unat prev < 2 ^ b"
  shows "unat (push_bit b w OR prev) + word_base * unat (drop_bit (32 - b) w) = unat w * 2 ^ b + unat prev"
    and "unat (drop_bit (32 - b) w) < 2 ^ b"
proof -
  have m: "(2::nat) ^ (32 - b) * 2 ^ b = word_base"
    using assms by (simp add: word_base_def flip: power_add)
  have "unat (push_bit b w OR prev) = take_bit 32 (push_bit b (unat w)) OR unat prev"
    by (simp add: unsigned_or_eq unsigned_push_bit_eq)
  also have "\<dots> = push_bit b (take_bit (32 - b) (unat w)) OR unat prev"
    using assms(2) by (simp add: take_bit_push_bit)
  also have "\<dots> = unat w mod 2 ^ (32 - b) * 2 ^ b + unat prev"
    by (simp add: or_shifted [OF assms(3)] take_bit_eq_mod)
  finally have low: "unat (push_bit b w OR prev) = unat w mod 2 ^ (32 - b) * 2 ^ b + unat prev" .
  have high: "unat (drop_bit (32 - b) w) = unat w div 2 ^ (32 - b)"
    by (rule unat_drop_bit_32)
  have "unat w * 2 ^ b = (unat w mod 2 ^ (32 - b) + 2 ^ (32 - b) * (unat w div 2 ^ (32 - b))) * 2 ^ b"
    by simp
  also have "\<dots> = unat w mod 2 ^ (32 - b) * 2 ^ b + word_base * (unat w div 2 ^ (32 - b))"
    unfolding m [symmetric] distrib_right by (simp add: ac_simps)
  finally show "unat (push_bit b w OR prev) + word_base * unat (drop_bit (32 - b) w) = unat w * 2 ^ b + unat prev"
    unfolding low high by simp
  have "unat w < 2 ^ b * 2 ^ (32 - b)" using m by (simp add: mult.commute)
  then show "unat (drop_bit (32 - b) w) < 2 ^ b" unfolding high by (simp add: less_mult_imp_div_less)
qed

lemma shift_right_carry:
  fixes w nxt :: u32
  assumes "0 < b" "b < 32"
  shows "unat (drop_bit b w OR push_bit (32 - b) nxt) = unat w div 2 ^ b + unat nxt mod 2 ^ b * 2 ^ (32 - b)"
    and "unat (drop_bit b w) = unat w div 2 ^ b"
proof -
  have m: "(2::nat) ^ (32 - b) * 2 ^ b = word_base"
    using assms by (simp add: word_base_def flip: power_add)
  show low: "unat (drop_bit b w) = unat w div 2 ^ b"
    by (rule unat_drop_bit_32)
  have less: "unat w div 2 ^ b < 2 ^ (32 - b)"
    using m by (simp add: less_mult_imp_div_less)
  have "unat (drop_bit b w OR push_bit (32 - b) nxt)
      = take_bit 32 (push_bit (32 - b) (unat nxt)) OR unat w div 2 ^ b"
    using low by (simp add: unsigned_or_eq unsigned_push_bit_eq or.commute)
  also have "\<dots> = push_bit (32 - b) (take_bit b (unat nxt)) OR unat w div 2 ^ b"
    using assms by (simp add: take_bit_push_bit)
  also have "\<dots> = unat w div 2 ^ b + unat nxt mod 2 ^ b * 2 ^ (32 - b)"
    by (simp add: or_shifted [OF less] take_bit_eq_mod)
  finally show "unat (drop_bit b w OR push_bit (32 - b) nxt)
    = unat w div 2 ^ b + unat nxt mod 2 ^ b * 2 ^ (32 - b)" .
qed

end
