(* ===== verification/Bit_Util.thy ===== *)
theory Bit_Util
  imports Word_Lists
begin

text \<open>
  \<open>util/bit_util.cpp\<close>: positions of bits, and shifts, increments, comparison and addition of
  numbers stored as arrays of 32-bit words. An array is the list of its words, least significant
  first; a routine that fills an array \<open>dst\<close> of \<open>dst_sz\<close> words returns its new contents. Sizes
  and counts are natural numbers, the words themselves keep their width. What the source asserts
  (a nonzero word for \<open>slow_msb_pos\<close>, \<open>msb_pos\<close>, \<open>nlz_core\<close> and \<open>ntz_core\<close>, a nonzero shift and a nonempty
  target for the shifts) is a hypothesis of the theorems.
\<close>

subsection \<open>Positions of bits\<close>

fun slow_msb_pos :: "nat \<Rightarrow> nat" where
  "slow_msb_pos v = (if v \<le> 1 then 0 else Suc (slow_msb_pos (v div 2)))"

declare slow_msb_pos.simps [simp del]

definition msb_pos :: "u32 \<Rightarrow> u32" where
  "msb_pos v =
     (let r = push_bit 4 (of_bool (0xFFFF < v)); v = drop_bit (unat r) v;
          shift = push_bit 3 (of_bool (0xFF < v)); v = drop_bit (unat shift) v; r = r OR shift;
          shift = push_bit 2 (of_bool (0xF < v)); v = drop_bit (unat shift) v; r = r OR shift;
          shift = push_bit 1 (of_bool (0x3 < v)); v = drop_bit (unat shift) v; r = r OR shift
      in r OR drop_bit 1 v)"

text \<open>
  With GCC the source calls the compiler's \<open>__builtin_clz\<close> and \<open>__builtin_ctz\<close>, which count the
  leading and the trailing zero bits of a nonzero word; \<open>nlz_core\<close> is its code for the other
  compilers, which is proved to count the leading zeros.
\<close>

definition nlz_core :: "u32 \<Rightarrow> nat" where
  "nlz_core x = unat (31 - msb_pos x)"

definition ntz_core :: "u32 \<Rightarrow> nat" where
  "ntz_core x = length (takeWhile (\<lambda>n. \<not> bit x n) [0..<32])"

fun nlz_loop :: "nat \<Rightarrow> u32 list \<Rightarrow> nat" where
  "nlz_loop r [] = r"
| "nlz_loop r (d # ds) = (if d = 0 then nlz_loop (r + 32) ds else r + nlz_core d)"

definition nlz :: "u32 list \<Rightarrow> nat" where
  "nlz data = nlz_loop 0 (rev data)"

fun ntz_loop :: "nat \<Rightarrow> u32 list \<Rightarrow> nat" where
  "ntz_loop r [] = r"
| "ntz_loop r (d # ds) = (if d = 0 then ntz_loop (r + 32) ds else r + ntz_core d)"

definition ntz :: "u32 list \<Rightarrow> nat" where
  "ntz data = ntz_loop 0 data"

subsection \<open>Copies\<close>

definition copy_words :: "u32 list \<Rightarrow> nat \<Rightarrow> u32 list" where
  "copy_words src dst_sz =
     (if length src \<le> dst_sz then src @ replicate (dst_sz - length src) 0 else take dst_sz src)"

definition is_zero :: "u32 list \<Rightarrow> bool" where
  "is_zero data = list_all (\<lambda>w. w = 0) data"

definition reset_words :: "nat \<Rightarrow> u32 list" where
  "reset_words sz = replicate sz 0"

subsection \<open>Shifts\<close>

text \<open>The loops that shift by less than a word, with the bits \<open>prev\<close> that come in.\<close>

fun shl_words :: "nat \<Rightarrow> u32 \<Rightarrow> u32 list \<Rightarrow> u32 list \<times> u32" where
  "shl_words bit_shift prev [] = ([], prev)"
| "shl_words bit_shift prev (w # ws) =
     (let new_prev = drop_bit (32 - bit_shift) w;
          d = push_bit bit_shift w OR prev;
          (ds, prev) = shl_words bit_shift new_prev ws
      in (d # ds, prev))"

text \<open>The copy of \<open>src\<close> that starts at word \<open>word_shift\<close> of \<open>dst\<close>, with zeros around it.\<close>

definition shl_copy :: "u32 list \<Rightarrow> nat \<Rightarrow> nat \<Rightarrow> u32 list" where
  "shl_copy src word_shift dst_sz =
     (let j = length src; i = length src + word_shift;
          top = (if i < dst_sz then replicate (dst_sz - i) 0 else []);
          (i, j) = (if dst_sz < i then (dst_sz, if i - dst_sz \<le> j then j - (i - dst_sz) else 0)
                    else (i, j))
      in replicate (i - j) 0 @ take j src @ top)"

definition shl :: "u32 list \<Rightarrow> nat \<Rightarrow> nat \<Rightarrow> u32 list" where
  "shl src k dst_sz =
     (let src_sz = length src; word_shift = k div 32; bit_shift = k mod 32
      in if 0 < word_shift then
           (let dst = shl_copy src word_shift dst_sz
            in if 0 < bit_shift then
                 take word_shift dst @ fst (shl_words bit_shift 0 (drop word_shift dst))
               else dst)
         else
           (let src_sz = min src_sz dst_sz;
                (dst, prev) = shl_words bit_shift 0 (take src_sz src)
            in if src_sz < dst_sz then dst @ [prev] @ replicate (dst_sz - (src_sz + 1)) 0 else dst))"

text \<open>
  The loops of the right shifts write \<open>sz\<close> words from the words of \<open>src\<close> at \<open>j\<close> on; the last one
  takes bits from the word above only when there is one (\<open>more\<close>).
\<close>

definition shr_words :: "nat \<Rightarrow> u32 list \<Rightarrow> nat \<Rightarrow> nat \<Rightarrow> bool \<Rightarrow> u32 list" where
  "shr_words bit_shift src j sz more =
     (let comp_shift = 32 - bit_shift;
          combined = (\<lambda>i. drop_bit bit_shift (src ! (j + i)) OR push_bit comp_shift (src ! (j + i + 1)))
      in map combined [0..<sz - 1]
         @ [if more then combined (sz - 1) else drop_bit bit_shift (src ! (j + (sz - 1)))])"

definition shr :: "u32 list \<Rightarrow> nat \<Rightarrow> u32 list" where
  "shr src k =
     (let sz = length src; digit_shift = k div 32
      in if sz \<le> digit_shift then reset_words sz
         else
           (let bit_shift = k mod 32; new_sz = sz - digit_shift
            in if new_sz < sz then
                 (if bit_shift \<noteq> 0 then shr_words bit_shift src digit_shift new_sz False
                  else take new_sz (drop digit_shift src)) @ replicate (sz - new_sz) 0
               else shr_words bit_shift src 0 new_sz False))"

definition shr_to :: "u32 list \<Rightarrow> nat \<Rightarrow> nat \<Rightarrow> u32 list" where
  "shr_to src k dst_sz =
     (let src_sz = length src; digit_shift = k div 32
      in if src_sz \<le> digit_shift then reset_words dst_sz
         else
           (let bit_shift = k mod 32; new_sz = src_sz - digit_shift; sz = min new_sz dst_sz;
                dst = (if 0 < digit_shift \<and> bit_shift = 0 then take sz (drop digit_shift src)
                       else shr_words bit_shift src digit_shift sz (dst_sz < new_sz))
            in dst @ replicate (dst_sz - new_sz) 0))"

subsection \<open>Tests and counters\<close>

definition has_one_at_first_k_bits :: "u32 list \<Rightarrow> nat \<Rightarrow> bool" where
  "has_one_at_first_k_bits data k =
     (let sz = length data; word_sz = min (k div 32) sz
      in list_ex (\<lambda>w. w \<noteq> 0) (take word_sz data)
         \<or> (if word_sz < sz then
              (let bit_sz = k mod 32; mask = push_bit bit_sz 1 - 1 in data ! word_sz AND mask \<noteq> 0)
            else False))"

fun inc :: "u32 list \<Rightarrow> u32 list \<times> bool" where
  "inc [] = ([], False)"
| "inc (w # ws) =
     (let w = w + 1
      in if w \<noteq> 0 then (w # ws, True) else (case inc ws of (ws, ok) \<Rightarrow> (w # ws, ok)))"

fun dec :: "u32 list \<Rightarrow> u32 list \<times> bool" where
  "dec [] = ([], False)"
| "dec (w # ws) =
     (let w = w - 1
      in if w \<noteq> 0xFFFFFFFF then (w # ws, True) else (case dec ws of (ws, ok) \<Rightarrow> (w # ws, ok)))"

text \<open>The comparison runs from the top word down.\<close>

fun lt_loop :: "(u32 \<times> u32) list \<Rightarrow> bool" where
  "lt_loop [] = False"
| "lt_loop ((x, y) # ps) = (if x < y then True else if y < x then False else lt_loop ps)"

definition lt_words :: "u32 list \<Rightarrow> u32 list \<Rightarrow> bool" where
  "lt_words data1 data2 = lt_loop (rev (zip data1 data2))"

fun add_loop :: "u32 \<Rightarrow> u32 list \<Rightarrow> u32 list \<Rightarrow> u32 list \<times> u32" where
  "add_loop k (u # us) (v # vs) =
     (let r = u + v; c1 = r < u;
          c = r + k; c2 = c < r;
          (cs, k) = add_loop (of_bool (c1 \<or> c2)) us vs
      in (c # cs, k))"
| "add_loop k _ _ = ([], k)"

definition add_words :: "u32 list \<Rightarrow> u32 list \<Rightarrow> u32 list \<times> bool" where
  "add_words a b = (case add_loop 0 a b of (c, k) \<Rightarrow> (c, k = 0))"

subsection \<open>Positions of bits: meaning\<close>

text \<open>Bit \<open>r\<close> is the top bit of a number; there is only one.\<close>

definition is_msb :: "nat \<Rightarrow> nat \<Rightarrow> bool" where
  "is_msb v r \<longleftrightarrow> 2 ^ r \<le> v \<and> v < 2 ^ Suc r"

lemma is_msb_unique:
  assumes "is_msb v r" "is_msb v r'"
  shows "r = r'"
proof -
  have "(2::nat) ^ r < 2 ^ Suc r'" "(2::nat) ^ r' < 2 ^ Suc r"
    using assms unfolding is_msb_def by linarith+
  then have "r < Suc r'" "r' < Suc r" by (simp_all only: power_strict_increasing_iff one_less_numeral_iff semiring_norm)
  then show ?thesis by simp
qed

lemma slow_msb_pos_msb: "0 < v \<Longrightarrow> is_msb v (slow_msb_pos v)"
proof (induction v rule: slow_msb_pos.induct)
  case (1 v)
  show ?case
  proof (cases "v \<le> 1")
    case True
    then show ?thesis using 1(2) by (simp add: slow_msb_pos.simps [of v] is_msb_def)
  next
    case False
    then have "is_msb (v div 2) (slow_msb_pos (v div 2))" using 1(1) by simp
    then show ?thesis
      using False by (simp add: slow_msb_pos.simps [of v] is_msb_def) linarith
  qed
qed

text \<open>One halving step of \<open>msb_pos\<close>: the shift leaves a nonzero number of half the width.\<close>

lemma msb_step:
  fixes v :: u32
  assumes "0 < unat v" "unat v < 2 ^ (s + s)" "s < 32" "unat c = 2 ^ s - 1"
  defines "sh \<equiv> (if c < v then s else 0)"
  shows "0 < unat (drop_bit sh v)" "unat (drop_bit sh v) < 2 ^ s"
    and "unat (drop_bit sh v) = unat v div 2 ^ sh"
proof -
  have "(0::nat) < 2 ^ s" by simp
  then have c: "c < v \<longleftrightarrow> 2 ^ s \<le> unat v" unfolding word_less_nat_alt assms(4) by linarith
  show d: "unat (drop_bit sh v) = unat v div 2 ^ sh" by (rule unat_drop_bit_32)
  show "0 < unat (drop_bit sh v)"
    unfolding d using c assms(1) unfolding sh_def by (auto simp: div_greater_zero_iff)
  show "unat (drop_bit sh v) < 2 ^ s"
    unfolding d using c assms(2) unfolding sh_def by (auto simp: less_mult_imp_div_less power_add)
qed

lemma msb_pos_msb:
  assumes "v \<noteq> 0"
  shows "is_msb (unat v) (unat (msb_pos v))"
proof -
  define s1 where "s1 = (if 0xFFFF < v then 16 else 0 :: nat)"
  define v1 where "v1 = drop_bit s1 v"
  define s2 where "s2 = (if 0xFF < v1 then 8 else 0 :: nat)"
  define v2 where "v2 = drop_bit s2 v1"
  define s3 where "s3 = (if 0xF < v2 then 4 else 0 :: nat)"
  define v3 where "v3 = drop_bit s3 v2"
  define s4 where "s4 = (if 0x3 < v3 then 2 else 0 :: nat)"
  define v4 where "v4 = drop_bit s4 v3"
  have v: "0 < unat v" "unat v < 2 ^ (16 + 16)"
    using assms unat_less_2_32 [of v] by (simp_all add: unat_gt_0)
  note 1 = msb_step [where s = 16 and c = "0xFFFF" and v = v, folded s1_def, folded v1_def, simplified]
  note 2 = msb_step [where s = 8 and c = "0xFF" and v = v1, folded s2_def, folded v2_def, simplified]
  note 3 = msb_step [where s = 4 and c = "0xF" and v = v2, folded s3_def, folded v3_def, simplified]
  note 4 = msb_step [where s = 2 and c = "0x3" and v = v3, folded s4_def, folded v4_def, simplified]
  have v4: "0 < unat v4" "unat v4 < 4" "unat v div 2 ^ (s1 + s2 + s3 + s4) = unat v4"
    using v 1 2 3 4 by (simp_all add: power_add div_mult2_eq)
  have sh: "unat (push_bit 4 (of_bool (0xFFFF < v)) :: u32) = s1" "unat (push_bit 3 (of_bool (0xFF < v1)) :: u32) = s2"
    "unat (push_bit 2 (of_bool (0xF < v2)) :: u32) = s3" "unat (push_bit 1 (of_bool (0x3 < v3)) :: u32) = s4"
    by (simp_all add: s1_def s2_def s3_def s4_def)
  have "msb_pos v = (((push_bit 4 (of_bool (0xFFFF < v)) OR push_bit 3 (of_bool (0xFF < v1)))
      OR push_bit 2 (of_bool (0xF < v2))) OR push_bit 1 (of_bool (0x3 < v3))) OR drop_bit 1 v4"
    by (simp only: msb_pos_def Let_def sh v1_def [symmetric] v2_def [symmetric] v3_def [symmetric]
        v4_def [symmetric])
  moreover have "v4 = 1 \<or> v4 = 2 \<or> v4 = 3"
    using v4(1,2) by (auto simp: word_unat_eq_iff)
  moreover from this have "drop_bit 1 v4 = of_bool (v4 \<noteq> 1)" by auto
  ultimately have pos: "unat (msb_pos v) = s1 + s2 + s3 + s4 + of_bool (v4 \<noteq> 1)"
    by (cases "0xFFFF < v"; cases "0xFF < v1"; cases "0xF < v2"; cases "0x3 < v3"; cases "v4 = 1")
      (simp_all add: s1_def s2_def s3_def s4_def)
  define w :: nat where "w = 2 ^ (s1 + s2 + s3 + s4)"
  have "unat v4 * w + unat v mod w = unat v" "unat v mod w < w"
    unfolding v4(3) [symmetric] w_def by (rule div_mult_mod_eq) simp
  then have "unat v4 * w \<le> unat v" "unat v < Suc (unat v4) * w" by simp_all
  moreover have "unat v4 = 1 \<or> 2 \<le> unat v4 \<and> Suc (unat v4) \<le> 4" "v4 = 1 \<longleftrightarrow> unat v4 = 1"
    using v4(1,2) by (auto simp: word_unat_eq_iff)
  ultimately have "v4 = 1 \<and> w \<le> unat v \<and> unat v < 2 * w
      \<or> v4 \<noteq> 1 \<and> 2 * w \<le> unat v \<and> unat v < 4 * w"
  proof (cases "unat v4 = 1")
    case False
    assume b: "unat v4 * w \<le> unat v" "unat v < Suc (unat v4) * w"
      "unat v4 = 1 \<or> 2 \<le> unat v4 \<and> Suc (unat v4) \<le> 4" "v4 = 1 \<longleftrightarrow> unat v4 = 1"
    then have "2 * w \<le> unat v4 * w" "Suc (unat v4) * w \<le> 4 * w"
      using False by (intro mult_le_mono1; simp)+
    then show ?thesis using b False by linarith
  qed simp
  then show ?thesis unfolding is_msb_def pos by (elim disjE) (simp_all add: w_def)
qed

lemma msb_pos_slow: "v \<noteq> 0 \<Longrightarrow> unat (msb_pos v) = slow_msb_pos (unat v)"
  by (rule is_msb_unique [OF msb_pos_msb slow_msb_pos_msb]) (simp_all add: unat_gt_0)

lemma nlz_core_msb:
  assumes "x \<noteq> 0"
  shows "nlz_core x < 32" "is_msb (unat x) (31 - nlz_core x)"
proof -
  define r where "r = unat (msb_pos x)"
  have r: "is_msb (unat x) r" using msb_pos_msb [OF assms] by (simp add: r_def)
  then have "(2::nat) ^ r < 2 ^ 32" using unat_less_2_32 [of x] unfolding is_msb_def by linarith
  then have "r < 32" by (simp only: power_strict_increasing_iff one_less_numeral_iff semiring_norm)
  moreover have "unat (31 - msb_pos x) = 31 - r"
    using \<open>r < 32\<close> by (simp add: r_def unat_sub_if')
  ultimately show "nlz_core x < 32" "is_msb (unat x) (31 - nlz_core x)"
    using r by (simp_all add: nlz_core_def)
qed

lemma is_msb_top_word:
  assumes "is_msb (unat d) r"
  shows "is_msb (words_val (ds @ [d])) (32 * length ds + r)"
proof -
  have base: "word_base ^ length ds = 2 ^ (32 * length ds)" by (simp add: word_base_def power_mult)
  define w :: nat where "w = 2 ^ (32 * length ds)"
  have "words_val (ds @ [d]) = words_val ds + w * unat d" "words_val ds < w"
    using words_val_less [of ds] by (simp_all add: words_val_append base w_def)
  moreover have "w * 2 ^ r \<le> w * unat d" "w * Suc (unat d) \<le> w * 2 ^ Suc r"
    using assms unfolding is_msb_def by (intro mult_le_mono2; simp)+
  ultimately have "w * 2 ^ r \<le> words_val (ds @ [d])" "words_val (ds @ [d]) < w * 2 ^ Suc r"
    unfolding mult_Suc_right by linarith+
  then show ?thesis by (simp add: is_msb_def w_def power_add)
qed

lemma nlz_loop_add: "nlz_loop r ds = r + nlz_loop 0 ds"
  by (induction ds arbitrary: r) (simp, metis add.assoc add.left_neutral nlz_loop.simps(2))

lemma ntz_loop_add: "ntz_loop r ds = r + ntz_loop 0 ds"
  by (induction ds arbitrary: r) (simp, metis add.assoc add.left_neutral ntz_loop.simps(2))

lemma nlz_msb:
  "words_val ds = 0 \<Longrightarrow> nlz ds = 32 * length ds"
  "words_val ds \<noteq> 0 \<Longrightarrow> nlz ds < 32 * length ds \<and> is_msb (words_val ds) (32 * length ds - 1 - nlz ds)"
proof (induction ds rule: rev_induct)
  case (snoc d ds)
  have nlz: "nlz (ds @ [d]) = (if d = 0 then 32 + nlz ds else nlz_core d)"
    using nlz_loop_add [of 32 "rev ds"] by (simp add: nlz_def)
  { case 1
    then show ?case using snoc.IH(1) nlz by (simp add: words_val_append unat_eq_0)
  next
    case 2
    show ?case
    proof (cases "d = 0")
      case True
      then have "words_val (ds @ [d]) = words_val ds" by (simp add: words_val_append)
      then show ?thesis using 2 snoc.IH(2) nlz True by simp
    next
      case False
      then show ?thesis
        using nlz_core_msb [OF False] is_msb_top_word [of d "31 - nlz_core d" ds] nlz by (simp add: add.commute)
    qed }
qed (simp_all add: nlz_def)

lemma ntz_core_dvd:
  assumes "x \<noteq> 0"
  shows "ntz_core x < 32" "2 ^ ntz_core x dvd unat x" "\<not> 2 ^ Suc (ntz_core x) dvd unat x"
proof -
  define n where "n = ntz_core x"
  obtain m where m: "m < 32" "bit x m"
    using assms bit_word_eqI [of x 0] by auto
  have "n < 32"
  proof (rule ccontr)
    assume "\<not> n < 32"
    then have "length (takeWhile (\<lambda>n. \<not> bit x n) [0..<32]) = 32"
      using length_takeWhile_le [of "\<lambda>n. \<not> bit x n" "[0..<32]"] by (simp add: n_def ntz_core_def)
    then have "takeWhile (\<lambda>n. \<not> bit x n) [0..<32] = [0..<32]"
      using takeWhile_eq_take [of "\<lambda>n. \<not> bit x n" "[0..<32]"] by (simp del: upt_rec_numeral)
    then have "\<forall>n \<in> set [0..<32]. \<not> bit x n" by (simp only: takeWhile_eq_all_conv)
    then show False using m by simp
  qed
  then have n: "bit x n" "\<forall>m < n. \<not> bit x m"
    using nth_length_takeWhile [of "\<lambda>n. \<not> bit x n" "[0..<32]"]
      takeWhile_nth_below [where P = "\<lambda>n. \<not> bit x n" and xs = "[0..<32]"]
    by (auto simp: n_def ntz_core_def simp del: upt_rec_numeral)
  show "ntz_core x < 32" using \<open>n < 32\<close> by (simp add: n_def)
  have "take_bit n (unat x) = 0"
    using n(2) by (intro bit_eqI) (auto simp: bit_simps bit_unsigned_iff)
  then show "2 ^ ntz_core x dvd unat x"
    by (simp add: take_bit_eq_mod n_def dvd_eq_mod_eq_0)
  have "take_bit (Suc n) (unat x) \<noteq> 0"
    using n(1) by (metis bit_0_eq bit_take_bit_iff bit_unsigned_iff bot_apply bot_bool_def lessI possible_bit_nat)
  then show "\<not> 2 ^ Suc (ntz_core x) dvd unat x"
    by (simp only: take_bit_eq_mod n_def dvd_eq_mod_eq_0) simp
qed

lemma pow_dvd_low:
  fixes v w :: nat
  assumes "m \<le> 32"
  shows "2 ^ m dvd v + word_base * w \<longleftrightarrow> 2 ^ m dvd v"
proof -
  have "(2::nat) ^ m dvd word_base" using assms unfolding word_base_def by (rule le_imp_power_dvd)
  then show ?thesis by (meson dvd_add_left_iff dvd_mult2)
qed

lemma ntz_dvd:
  "words_val ds = 0 \<Longrightarrow> ntz ds = 32 * length ds"
  "words_val ds \<noteq> 0 \<Longrightarrow> ntz ds < 32 * length ds
    \<and> 2 ^ ntz ds dvd words_val ds \<and> \<not> 2 ^ Suc (ntz ds) dvd words_val ds"
proof (induction ds)
  case (Cons d ds)
  have ntz: "ntz (d # ds) = (if d = 0 then 32 + ntz ds else ntz_core d)"
    using ntz_loop_add [of 32 ds] by (simp add: ntz_def)
  { case 1
    then show ?case using Cons.IH(1) ntz by (simp add: unat_eq_0)
  next
    case 2
    show ?case
    proof (cases "d = 0")
      case True
      have "2 ^ (32 + m) dvd word_base * words_val ds \<longleftrightarrow> 2 ^ m dvd words_val ds" for m
        by (simp add: word_base_def power_add)
      from this [of "ntz ds"] this [of "Suc (ntz ds)"] show ?thesis
        using 2 Cons.IH(2) ntz True by simp
    next
      case False
      then show ?thesis
        using ntz_core_dvd [OF False] ntz pow_dvd_low [of "ntz_core d" "unat d" "words_val ds"]
          pow_dvd_low [of "Suc (ntz_core d)" "unat d" "words_val ds"] by simp
    qed }
qed (simp_all add: ntz_def)

subsection \<open>Copies and shifts: meaning\<close>

lemma copy_words: "length (copy_words src n) = n" "words_val (copy_words src n) = words_val src mod word_base ^ n"
proof -
  show "length (copy_words src n) = n" by (simp add: copy_words_def)
  show "words_val (copy_words src n) = words_val src mod word_base ^ n"
    using words_val_take [of n src] by (cases "length src \<le> n") (simp_all add: copy_words_def words_val_append)
qed

lemma is_zero_iff: "is_zero data \<longleftrightarrow> words_val data = 0"
  by (simp add: is_zero_def words_val_zero_iff list_all_iff)

lemma shl_words:
  assumes "0 < b" "b < 32" "unat prev < 2 ^ b" "shl_words b prev ws = (ds, p)"
  shows "length ds = length ws \<and> unat p < 2 ^ b
    \<and> words_val ds + word_base ^ length ws * unat p = words_val ws * 2 ^ b + unat prev"
  using assms(3,4)
proof (induction ws arbitrary: prev ds p)
  case (Cons w ws)
  note c = shift_left_carry [OF assms(1,2) Cons.prems(1), of w]
  obtain ds' where ds: "shl_words b (drop_bit (32 - b) w) ws = (ds', p)" "ds = (push_bit b w OR prev) # ds'"
    using Cons.prems(2) by (auto split: prod.splits)
  note ih = Cons.IH [OF c(2) ds(1)]
  have "word_base * (words_val ds' + word_base ^ length ws * unat p)
      = word_base * (words_val ws * 2 ^ b + unat (drop_bit (32 - b) w))" using ih by simp
  then show ?case using ih ds(2) c(1) by (simp add: algebra_simps)
qed simp

lemma shl_words_mod:
  assumes "0 < b" "b < 32" "shl_words b 0 ws = (ds, p)"
  shows "words_val ds = words_val ws * 2 ^ b mod word_base ^ length ws"
proof -
  have s: "length ds = length ws" "words_val ds + word_base ^ length ws * unat p = words_val ws * 2 ^ b"
    using shl_words [OF assms(1,2) _ assms(3)] by simp_all
  have "words_val ds < word_base ^ length ws" using words_val_less [of ds] s(1) by simp
  then show ?thesis unfolding s(2) [symmetric] by simp
qed

lemma shl_copy: "shl_copy src ws n = copy_words (replicate ws 0 @ src) n"
  unfolding shl_copy_def copy_words_def by (auto simp: add.commute Let_def)

lemma shl_below_word:
  assumes "0 < k" "k < 32"
  shows "length (shl src k n) = n" "words_val (shl src k n) = words_val src * 2 ^ k mod word_base ^ n"
proof -
  define m where "m = min (length src) n"
  obtain ds p where s: "shl_words k 0 (take m src) = (ds, p)" by force
  have e: "length ds = m" "words_val ds + word_base ^ m * unat p = words_val (take m src) * 2 ^ k"
    using shl_words [OF assms _ s] by (simp_all add: m_def)
  have shl: "shl src k n = (if m < n then ds @ [p] @ replicate (n - (m + 1)) 0 else ds)"
    using assms s by (simp add: shl_def m_def [symmetric] Let_def)
  show "length (shl src k n) = n" using e(1) by (auto simp: shl m_def)
  show "words_val (shl src k n) = words_val src * 2 ^ k mod word_base ^ n"
  proof (cases "m < n")
    case True
    then have "words_val (shl src k n) = words_val src * 2 ^ k"
      using e by (simp add: shl words_val_append m_def min_def split: if_splits)
    then show ?thesis using words_val_less [of "shl src k n"] \<open>length (shl src k n) = n\<close> by simp
  next
    case False
    then have "m = n" by (simp add: m_def)
    then have "words_val (shl src k n) = words_val (take n src) * 2 ^ k mod word_base ^ n"
      using shl_words_mod [OF assms s] False by (simp add: shl m_def)
    then show ?thesis by (simp add: words_val_take mod_mult_left_eq)
  qed
qed

lemma shl_by_words:
  assumes "32 \<le> k"
  shows "length (shl src k n) = n" "words_val (shl src k n) = words_val src * 2 ^ k mod word_base ^ n"
proof -
  define ws where "ws = k div 32"
  define b where "b = k mod 32"
  define dst where "dst = copy_words (replicate ws 0 @ src) n"
  have ws: "0 < ws" using assms by (simp add: ws_def)
  have "k = 32 * ws + b" by (simp add: ws_def b_def)
  then have k: "(2::nat) ^ k = word_base ^ ws * 2 ^ b" by (simp add: word_base_def power_add power_mult)
  have shl: "shl src k n = (if 0 < b then take ws dst @ fst (shl_words b 0 (drop ws dst)) else dst)"
    using ws by (simp add: shl_def ws_def [symmetric] b_def [symmetric] dst_def shl_copy Let_def)
  have dst: "length dst = n" "words_val dst = word_base ^ ws * words_val src mod word_base ^ n"
    by (simp_all add: dst_def copy_words words_val_append)
  obtain ds p where s: "shl_words b 0 (drop ws dst) = (ds, p)" by force
  have b: "b < 32" by (simp add: b_def)
  have ds: "0 < b \<Longrightarrow> length ds = n - ws \<and> words_val ds = words_val (drop ws dst) * 2 ^ b mod word_base ^ (n - ws)"
    using shl_words [OF _ b _ s] shl_words_mod [OF _ b s] dst(1) by simp
  show "length (shl src k n) = n" using ds s dst(1) by (auto simp: shl min_def)
  show "words_val (shl src k n) = words_val src * 2 ^ k mod word_base ^ n"
  proof (cases "ws \<le> n")
    case True
    then have n: "word_base ^ n = word_base ^ ws * word_base ^ (n - ws)" by (simp flip: power_add)
    have take: "words_val (take ws dst) = 0"
      unfolding words_val_take dst(2) using True by (simp add: mod_mod_cancel le_imp_power_dvd)
    have drop: "words_val (drop ws dst) = words_val src mod word_base ^ (n - ws)"
      unfolding words_val_drop dst(2) n by (simp add: mult_mod_right [symmetric])
    have "words_val (shl src k n) = word_base ^ ws * (words_val src * 2 ^ b mod word_base ^ (n - ws))"
    proof (cases "b = 0")
      case True
      then show ?thesis unfolding shl mult_mod_right n [symmetric] using dst(2) by simp
    next
      case False
      then show ?thesis
        unfolding shl using s ds take drop dst(1) \<open>ws \<le> n\<close>
        by (simp add: words_val_append min_absorb2 mod_mult_left_eq)
    qed
    then show ?thesis unfolding k n mult_mod_right by (simp only: mult.assoc mult.commute mult.left_commute)
  next
    case False
    then have "word_base ^ n dvd word_base ^ ws" by (simp add: le_imp_power_dvd)
    then have "words_val src * 2 ^ k mod word_base ^ n = 0" "words_val dst = 0"
      unfolding k dst(2) by (simp_all add: dvd_mult2 dvd_mult)
    moreover have "shl src k n = dst" using s ds dst(1) False by (auto simp: shl)
    ultimately show ?thesis by simp
  qed
qed

text \<open>A word shifted right with the word above it, as a piece of the whole number.\<close>

lemma shift_right_piece:
  fixes x y :: u32
  assumes "0 < b" "b < 32"
  shows "(unat x + word_base * (unat y + word_base * r)) div 2 ^ b mod word_base
    = unat (drop_bit b x OR push_bit (32 - b) y)"
proof -
  define h :: nat where "h = 2 ^ (32 - b)"
  have base: "word_base = 2 ^ b * h" using assms by (simp add: h_def word_base_def flip: power_add)
  have "(unat x + word_base * (unat y + word_base * r)) div 2 ^ b = unat x div 2 ^ b + h * (unat y + word_base * r)"
  proof -
    have "unat x + word_base * (unat y + word_base * r) = unat x + 2 ^ b * (h * (unat y + word_base * r))"
      unfolding base by (simp add: mult.assoc)
    then show ?thesis by (simp only: div_mult_self2 power_not_zero) simp
  qed
  also have "\<dots> = unat x div 2 ^ b + h * (unat y mod 2 ^ b) + word_base * (unat y div 2 ^ b + h * r)"
  proof -
    define ym where "ym = unat y mod 2 ^ b"
    define yd where "yd = unat y div 2 ^ b"
    have "unat y = ym + 2 ^ b * yd" by (simp add: ym_def yd_def)
    then have "h * (unat y + word_base * r) = h * ym + word_base * (yd + h * r)"
      by (simp add: base algebra_simps)
    then show ?thesis by (simp add: ym_def yd_def)
  qed
  finally have split: "(unat x + word_base * (unat y + word_base * r)) div 2 ^ b
    = unat x div 2 ^ b + h * (unat y mod 2 ^ b) + word_base * (unat y div 2 ^ b + h * r)" .
  have "unat x div 2 ^ b < h"
    using unat_less_base [of x] unfolding base by (simp add: less_mult_imp_div_less mult.commute)
  moreover have "h * Suc (unat y mod 2 ^ b) \<le> h * 2 ^ b" by (intro mult_le_mono2) (simp add: Suc_le_eq)
  ultimately have "unat x div 2 ^ b + h * (unat y mod 2 ^ b) < word_base" by (simp add: base mult.commute)
  then show ?thesis
    unfolding split shift_right_carry(1) [OF assms] by (simp add: h_def mult.commute)
qed

lemma shr_combined:
  assumes "0 < b" "b < 32" "j + m < length src"
  shows "words_val (map (\<lambda>i. drop_bit b (src ! (j + i)) OR push_bit (32 - b) (src ! (j + i + 1))) [0..<m])
    = words_val (drop j src) div 2 ^ b mod word_base ^ m"
  using assms(3)
proof (induction m)
  case (Suc m)
  define V where "V = words_val (drop j src)"
  have "drop (j + m) src = src ! (j + m) # src ! (j + m + 1) # drop (j + m + 2) src"
    using Suc.prems by (metis Cons_nth_drop_Suc Suc_eq_plus1 Suc_lessD add_Suc_right add_2_eq_Suc')
  then have "V div word_base ^ m = unat (src ! (j + m)) + word_base
      * (unat (src ! (j + m + 1)) + word_base * words_val (drop (j + m + 2) src))"
    unfolding V_def words_val_drop [symmetric] drop_drop by (simp add: add.commute)
  then have "V div word_base ^ m div 2 ^ b mod word_base
      = unat (drop_bit b (src ! (j + m)) OR push_bit (32 - b) (src ! (j + m + 1)))"
    using shift_right_piece [OF assms(1,2)] by simp
  moreover have "V div word_base ^ m div 2 ^ b = V div 2 ^ b div word_base ^ m"
    by (simp add: mult.commute flip: div_mult2_eq)
  ultimately show ?case
    using Suc by (simp add: words_val_append V_def mod_mult2_eq power_Suc2 del: power_Suc)
qed simp

lemma shr_words:
  assumes "0 < b" "b < 32" "0 < sz" "j + sz \<le> length src" "more \<longleftrightarrow> j + sz < length src"
  shows "length (shr_words b src j sz more) = sz"
    and "words_val (shr_words b src j sz more) = words_val (drop j src) div 2 ^ b mod word_base ^ sz"
proof -
  show "length (shr_words b src j sz more) = sz" using assms(3) by (simp add: shr_words_def Let_def)
  let ?c = "\<lambda>i. drop_bit b (src ! (j + i)) OR push_bit (32 - b) (src ! (j + i + 1))"
  obtain m where sz: "sz = Suc m" using assms(3) by (cases sz) auto
  show "words_val (shr_words b src j sz more) = words_val (drop j src) div 2 ^ b mod word_base ^ sz"
  proof (cases more)
    case True
    then have "shr_words b src j sz more = map ?c [0..<sz]" by (simp add: shr_words_def sz Let_def)
    then show ?thesis using shr_combined [OF assms(1,2)] assms(5) True by simp
  next
    case False
    then have last: "drop (j + m) src = [src ! (j + m)]"
      using assms(4,5) sz Cons_nth_drop_Suc [of "j + m" src] by simp
    define V where "V = words_val (drop j src)"
    have Vm: "V div word_base ^ m = unat (src ! (j + m))"
      unfolding V_def words_val_drop [symmetric] drop_drop by (simp add: add.commute last)
    have "words_val (shr_words b src j sz more)
        = V div 2 ^ b mod word_base ^ m + word_base ^ m * (unat (src ! (j + m)) div 2 ^ b)"
      using shr_combined [OF assms(1,2), of j m src] assms(4) sz False
      by (simp add: shr_words_def words_val_append V_def unat_drop_bit_32)
    also have "unat (src ! (j + m)) div 2 ^ b = V div 2 ^ b div word_base ^ m"
      unfolding Vm [symmetric] by (simp add: mult.commute flip: div_mult2_eq)
    also have "V div 2 ^ b mod word_base ^ m + word_base ^ m * (V div 2 ^ b div word_base ^ m) = V div 2 ^ b"
      by simp
    also have "\<dots> = V div 2 ^ b mod word_base ^ sz"
    proof -
      have "length src - j = sz" using assms(4,5) False by simp
      then have "V < word_base ^ sz" using words_val_less [of "drop j src"] by (simp add: V_def)
      then have "V div 2 ^ b < word_base ^ sz" by (rule le_less_trans [OF div_le_dividend])
      then show ?thesis by simp
    qed
    finally show ?thesis by (simp add: V_def)
  qed
qed

lemma shift_amount:
  fixes k :: nat
  shows "(2::nat) ^ k = word_base ^ (k div 32) * 2 ^ (k mod 32)"
proof -
  have "(2::nat) ^ (32 * (k div 32) + k mod 32) = word_base ^ (k div 32) * 2 ^ (k mod 32)"
    unfolding power_add power_mult word_base_def ..
  then show ?thesis by simp
qed

lemma shift_out_zero:
  assumes "length src \<le> k div 32"
  shows "words_val src div 2 ^ k = 0"
proof -
  have "words_val src < word_base ^ length src" by (rule words_val_less)
  also have "\<dots> \<le> word_base ^ (k div 32)" using assms by (intro power_increasing) simp_all
  also have "\<dots> \<le> 2 ^ k" using shift_amount [of k] by simp
  finally show ?thesis by simp
qed

lemma shr_to:
  assumes "0 < k" "0 < n"
  shows "length (shr_to src k n) = n" "words_val (shr_to src k n) = words_val src div 2 ^ k mod word_base ^ n"
proof -
  define ds where "ds = k div 32"
  define b where "b = k mod 32"
  have "length (shr_to src k n) = n \<and> words_val (shr_to src k n) = words_val src div 2 ^ k mod word_base ^ n"
  proof (cases "length src \<le> ds")
    case True
    then show ?thesis
      using shift_out_zero [of src k] by (simp add: shr_to_def ds_def reset_words_def)
  next
    case False
    define new where "new = length src - ds"
    define sz where "sz = min new n"
    define dst where "dst = (if 0 < ds \<and> b = 0 then take sz (drop ds src) else shr_words b src ds sz (n < new))"
    have sz: "0 < sz" "ds + sz \<le> length src" "n < new \<longleftrightarrow> ds + sz < length src"
      using False assms(2) by (auto simp: sz_def new_def min_def)
    have shr: "shr_to src k n = dst @ replicate (n - new) 0"
      using False by (simp add: shr_to_def ds_def b_def new_def sz_def dst_def Let_def)
    have val: "words_val src div 2 ^ k = words_val (drop ds src) div 2 ^ b"
      unfolding shift_amount [of k] words_val_drop ds_def b_def by (rule div_mult2_eq)
    have dst: "length dst = sz \<and> words_val dst = words_val src div 2 ^ k mod word_base ^ sz"
    proof (cases "b = 0")
      case True
      then have "0 < ds" using assms(1) by (cases "ds = 0") (simp_all add: ds_def b_def)
      then show ?thesis using True sz(2) unfolding dst_def val by (simp add: words_val_take)
    next
      case False
      then show ?thesis
        using shr_words [of b sz ds src "n < new"] sz unfolding dst_def val by (simp add: b_def)
    qed
    have "words_val src div 2 ^ k mod word_base ^ sz = words_val src div 2 ^ k mod word_base ^ n"
    proof (cases "n \<le> new")
      case False
      then have "sz = length src - ds" by (simp add: sz_def new_def)
      have "words_val (drop ds src) < word_base ^ sz"
        using words_val_less [of "drop ds src"] by (simp add: \<open>sz = length src - ds\<close>)
      then have "words_val src div 2 ^ k < word_base ^ sz"
        unfolding val by (rule le_less_trans [OF div_le_dividend])
      moreover have "word_base ^ sz \<le> word_base ^ n" by (intro power_increasing) (simp_all add: sz_def)
      ultimately have "words_val src div 2 ^ k < word_base ^ n" by (rule less_le_trans)
      then show ?thesis using \<open>words_val src div 2 ^ k < word_base ^ sz\<close> by simp
    qed (simp add: sz_def)
    then show ?thesis using dst by (simp add: shr words_val_append sz_def min_def)
  qed
  then show "length (shr_to src k n) = n" "words_val (shr_to src k n) = words_val src div 2 ^ k mod word_base ^ n"
    by simp_all
qed

text \<open>The overload for one size is the general one.\<close>

lemma shr_eq_shr_to:
  assumes "0 < k"
  shows "shr src k = shr_to src k (length src)"
  using assms by (auto simp: shr_def shr_to_def Let_def reset_words_def)

subsection \<open>Tests and counters: meaning\<close>

lemma low_bits_val:
  assumes "i < length data" "b < 32"
  shows "words_val data mod (word_base ^ i * 2 ^ b)
    = words_val (take i data) + word_base ^ i * (unat (data ! i) mod 2 ^ b)"
proof -
  define r where "r = words_val (drop (Suc i) data)"
  have "words_val (take i data @ data ! i # drop (Suc i) data)
      = words_val (take i data) + word_base ^ i * (unat (data ! i) + word_base * r)"
    using assms(1) by (simp add: words_val_append r_def min_absorb2)
  then have "words_val data = words_val (take i data) + word_base ^ i * (unat (data ! i) + word_base * r)"
    by (simp only: id_take_nth_drop [OF assms(1), symmetric])
  moreover have "words_val (take i data) < word_base ^ i"
    using words_val_less [of "take i data"] assms by (simp add: min_absorb2)
  moreover have "(unat (data ! i) + word_base * r) mod 2 ^ b = unat (data ! i) mod 2 ^ b"
  proof -
    have "(2::nat) ^ b dvd word_base" unfolding word_base_def using assms(2) by (intro le_imp_power_dvd) simp
    then have "(2::nat) ^ b dvd word_base * r" by (rule dvd_mult2)
    then show ?thesis by (metis dvdE mod_mult_self2)
  qed
  ultimately show ?thesis by (simp add: mod_mult2_eq)
qed

lemma has_one_at_first_k_bits:
  "has_one_at_first_k_bits data k \<longleftrightarrow> words_val data mod 2 ^ k \<noteq> 0"
proof -
  define i where "i = k div 32"
  define b where "b = k mod 32"
  have b: "b < 32" by (simp add: b_def)
  have k: "(2::nat) ^ k = word_base ^ i * 2 ^ b" using shift_amount [of k] by (simp add: i_def b_def)
  have any: "list_ex (\<lambda>w. w \<noteq> 0) xs \<longleftrightarrow> words_val xs \<noteq> 0" for xs
    by (auto simp: words_val_zero_iff list_ex_iff)
  show ?thesis
  proof (cases "i < length data")
    case True
    have "push_bit b 1 - 1 = (mask b :: u32)" by (simp add: mask_eq_exp_minus_1 push_bit_eq_mult)
    then have "data ! i AND (push_bit b 1 - 1) = take_bit b (data ! i)" by (simp add: take_bit_eq_mask)
    then have "data ! i AND (push_bit b 1 - 1) \<noteq> 0 \<longleftrightarrow> unat (data ! i) mod 2 ^ b \<noteq> 0"
      by (simp only: unat_eq_0 [symmetric] unsigned_take_bit_eq take_bit_eq_mod [where 'a = nat])
    then show ?thesis
      using True low_bits_val [OF True b] any [of "take i data"]
      by (simp add: has_one_at_first_k_bits_def i_def [symmetric] b_def [symmetric] k Let_def)
  next
    case False
    have "words_val data < word_base ^ length data" by (rule words_val_less)
    also have "\<dots> \<le> word_base ^ i" using False by (intro power_increasing) simp_all
    also have "\<dots> \<le> 2 ^ k" by (simp add: k)
    finally show ?thesis
      using False any [of data] by (simp add: has_one_at_first_k_bits_def i_def [symmetric] Let_def)
  qed
qed

lemma inc_word: "unat (w + 1 :: u32) + word_base * of_bool (w + 1 = 0) = unat w + 1"
  using unat_plus_if' [of w 1] unat_less_2_32 [of w]
  by (auto simp: word_base_def unat_eq_0 [symmetric] split: if_splits)

lemma dec_word: "unat (w - 1 :: u32) + 1 = unat w + word_base * of_bool (w - 1 = 0xFFFFFFFF)"
proof -
  have "(0xFFFFFFFF :: u32) = - 1" by simp
  then have "w - 1 = 0xFFFFFFFF \<longleftrightarrow> w = 0" by (simp only: diff_eq_eq) simp
  then show ?thesis
    using unat_sub_if' [of w 1] unat_less_2_32 [of w]
    by (auto simp: word_base_def unat_eq_0 [symmetric] split: if_splits)
qed

lemma inc_val:
  "inc ws = (ws', ok) \<Longrightarrow> length ws' = length ws
    \<and> words_val ws' + word_base ^ length ws * of_bool (\<not> ok) = words_val ws + 1"
proof (induction ws arbitrary: ws' ok)
  case (Cons w ws)
  obtain us k where r: "inc ws = (us, k)" by force
  have "word_base * (words_val us + word_base ^ length ws * of_bool (\<not> k)) = word_base * (words_val ws + 1)"
    using Cons.IH [OF r] by simp
  then show ?case
    using Cons.prems Cons.IH [OF r] inc_word [of w] r
    by (cases "w + 1 = 0") (auto simp: Let_def algebra_simps)
qed simp

lemma dec_val:
  "dec ws = (ws', ok) \<Longrightarrow> length ws' = length ws
    \<and> words_val ws' + 1 = words_val ws + word_base ^ length ws * of_bool (\<not> ok)"
proof (induction ws arbitrary: ws' ok)
  case (Cons w ws)
  obtain us k where r: "dec ws = (us, k)" by force
  have "word_base * (words_val us + 1) = word_base * (words_val ws + word_base ^ length ws * of_bool (\<not> k))"
    using Cons.IH [OF r] by simp
  then show ?case
    using Cons.prems Cons.IH [OF r] dec_word [of w] r
    by (cases "w - 1 = 0xFFFFFFFF") (auto simp: Let_def algebra_simps)
qed simp

lemma lt_words_val: "length xs = length ys \<Longrightarrow> lt_words xs ys \<longleftrightarrow> words_val xs < words_val ys"
proof (induction xs arbitrary: ys rule: rev_induct)
  case (snoc x xs)
  then obtain ys' y where ys: "ys = ys' @ [y]" "length xs = length ys'"
    by (metis append_butlast_last_id length_append_singleton length_greater_0_conv length_butlast
        diff_Suc_1 zero_less_Suc)
  have "lt_words (xs @ [x]) ys \<longleftrightarrow> x < y \<or> \<not> y < x \<and> lt_words xs ys'"
    using ys by (auto simp: lt_words_def)
  then show ?case
    using snoc.IH [OF ys(2)] words_val_snoc_less [OF ys(2), of x y]
      words_val_snoc_less [OF ys(2) [symmetric], of y x] ys
    by (cases x y rule: linorder_cases) (auto simp: words_val_append)
qed (simp add: lt_words_def)

lemma add_loop_val:
  "length us = length vs \<Longrightarrow> add_loop (of_bool k) us vs = (cs, k') \<Longrightarrow>
    length cs = length us \<and> (k' = 0 \<or> k' = 1)
    \<and> words_val cs + word_base ^ length us * unat k' = words_val us + words_val vs + of_bool k"
proof (induction us vs arbitrary: k cs k' rule: list_induct2)
  case (Cons u us v vs)
  define c where "c = u + v + of_bool k"
  define k1 where "k1 \<longleftrightarrow> u + v < u \<or> c < u + v"
  obtain cs' where r: "add_loop (of_bool k1) us vs = (cs', k')" "cs = c # cs'"
    using Cons.prems by (auto simp: Let_def c_def k1_def split: prod.splits)
  have s: "unat c + word_base * of_bool k1 = unat u + unat v + of_bool k"
    using add_carry [of u v k] by (simp add: c_def k1_def)
  have ih: "length cs' = length us" "k' = 0 \<or> k' = 1"
    "words_val cs' + word_base ^ length us * unat k' = words_val us + words_val vs + of_bool k1"
    using Cons.IH [OF r(1)] by simp_all
  have "word_base * (words_val cs' + word_base ^ length us * unat k')
      = word_base * (words_val us + words_val vs + of_bool k1)" using ih(3) by simp
  then show ?case using ih s r(2) by (simp add: algebra_simps)
qed auto

lemma shl_val:
  assumes "0 < k"
  shows "length (shl src k n) = n" "words_val (shl src k n) = words_val src * 2 ^ k mod word_base ^ n"
  using assms shl_below_word [of k src n] shl_by_words [of k src n] by (cases "k < 32"; simp)+

lemma add_words_val:
  assumes "length a = length b"
  shows "length (fst (add_words a b)) = length a"
    and "words_val (fst (add_words a b)) + word_base ^ length a * of_bool (\<not> snd (add_words a b))
      = words_val a + words_val b"
  using add_loop_val [OF assms, of False] assms
  by (auto simp: add_words_def split: prod.splits)

subsection \<open>Properties\<close>

text \<open>\<open>msb_pos\<close> finds the top bit like the slow loop; \<open>nlz\<close> counts the zero bits above the top
  bit of an array and \<open>ntz\<close> those below its lowest one, and both are the whole width on zero.\<close>

lemma bit_positions_correct:
  assumes "v \<noteq> 0"
  shows "unat (msb_pos v) = slow_msb_pos (unat v) \<and> is_msb (unat v) (slow_msb_pos (unat v))
    \<and> (words_val ds = 0 \<longrightarrow> nlz ds = 32 * length ds \<and> ntz ds = 32 * length ds)
    \<and> (words_val ds \<noteq> 0 \<longrightarrow>
        is_msb (words_val ds) (32 * length ds - 1 - nlz ds) \<and> nlz ds < 32 * length ds
        \<and> 2 ^ ntz ds dvd words_val ds \<and> \<not> 2 ^ Suc (ntz ds) dvd words_val ds)"
  using msb_pos_slow [OF assms] slow_msb_pos_msb [of "unat v"] assms nlz_msb [of ds] ntz_dvd [of ds]
  by (simp add: unat_gt_0)

lemma bit_positions_correct_witness:
  "unat (msb_pos 40) = 5 \<and> nlz [8, 1, 0] = 63 \<and> ntz [0, 40] = 35"
proof -
  have "unat (msb_pos 40) = slow_msb_pos 40"
    using bit_positions_correct [of 40 "[]"] by simp
  moreover have "slow_msb_pos 40 = 5" by code_simp
  ultimately show ?thesis by code_simp
qed

text \<open>C33: the shifts of an array are multiplication and division of its number by the power of two,
  cut to the size of the target; the overload of \<open>shr\<close> for one size agrees with the other.\<close>

theorem array_shifts_correct:
  assumes "0 < k" "0 < n"
  shows "length (shl src k n) = n \<and> words_val (shl src k n) = words_val src * 2 ^ k mod word_base ^ n
    \<and> length (shr_to src k n) = n \<and> words_val (shr_to src k n) = words_val src div 2 ^ k mod word_base ^ n
    \<and> shr src k = shr_to src k (length src)"
  using shl_val [OF assms(1)] shr_to [OF assms] shr_eq_shr_to [OF assms(1)] by simp

theorem array_shifts_correct_witness:
  "words_val (shl [3, 5] 33 3) = words_val [3, 5] * 2 ^ 33 mod word_base ^ 3
    \<and> shl [3, 5] 33 3 = [0, 6, 10] \<and> shr_to [0, 6, 10] 33 2 = [3, 5]
    \<and> shr [0, 6, 10] 33 = [3, 5, 0]"
proof -
  have pos: "(0::nat) < 33" "(0::nat) < 3" by simp_all
  have "shr [0, 6, 10] 33 = shr_to [0, 6, 10] 33 (length [0, 6, 10 :: u32])"
    using array_shifts_correct [OF pos] by blast
  moreover have "shr_to [0, 6, 10] 33 (length [0, 6, 10 :: u32]) = [3, 5, 0]" "shl [3, 5] 33 3 = [0, 6, 10]"
    "shr_to [0, 6, 10] 33 2 = [3, 5]" by code_simp+
  moreover have "words_val (shl [3, 5] 33 3) = words_val [3, 5] * 2 ^ 33 mod word_base ^ 3"
    using array_shifts_correct [OF pos] by blast
  ultimately show ?thesis by simp
qed

text \<open>\<open>inc\<close>, \<open>dec\<close> and \<open>add\<close> compute modulo the capacity of the array and report exactly when
  it did not suffice, \<open>lt\<close> compares the numbers, and \<open>has_one_at_first_k_bits\<close> tests the number
  modulo the power of two.\<close>

lemma array_counters_correct:
  assumes "length b = length a"
  shows "words_val (fst (inc a)) + word_base ^ length a * of_bool (\<not> snd (inc a)) = words_val a + 1
    \<and> words_val (fst (dec a)) + 1 = words_val a + word_base ^ length a * of_bool (\<not> snd (dec a))
    \<and> words_val (fst (add_words a b)) + word_base ^ length a * of_bool (\<not> snd (add_words a b))
      = words_val a + words_val b
    \<and> lt_words a b = (words_val a < words_val b)
    \<and> has_one_at_first_k_bits a k = (words_val a mod 2 ^ k \<noteq> 0)
    \<and> is_zero a = (words_val a = 0)"
  using inc_val [of a "fst (inc a)" "snd (inc a)"] dec_val [of a "fst (dec a)" "snd (dec a)"]
    add_words_val [of a b] lt_words_val [of a b] assms
  by (simp add: has_one_at_first_k_bits is_zero_iff)

lemma array_counters_correct_witness:
  "fst (inc [0xFFFFFFFF, 7]) = [0, 8] \<and> snd (add_words [1, 2] [0, 0xFFFFFFFF]) = False
    \<and> lt_words [1, 2] [0, 3] \<and> \<not> has_one_at_first_k_bits [0, 2] 33"
proof -
  have len: "length [0, 3 :: u32] = length [1, 2 :: u32]" by simp
  have "lt_words [1, 2] [0, 3] = (words_val [1, 2] < words_val [0, 3])"
    using array_counters_correct [OF len, of 0] by blast
  moreover have "words_val [1, 2] < words_val [0, 3]" by (simp add: word_base_def)
  moreover have "fst (inc [0xFFFFFFFF, 7]) = [0, 8]"
    "snd (add_words [1, 2] [0, 0xFFFFFFFF]) = False" "\<not> has_one_at_first_k_bits [0, 2] 33" by code_simp+
  ultimately show ?thesis by blast
qed

text \<open>incrementing and decrementing an array undo each other, also across the wrap-around.\<close>

lemma inc_dec_roundtrip:
  "fst (dec (fst (inc a))) = a \<and> fst (inc (fst (dec a))) = a"
proof -
  define u where "u = fst (inc a)"
  define w where "w = fst (dec a)"
  have u: "length u = length a" "words_val u + word_base ^ length a * of_bool (\<not> snd (inc a)) = words_val a + 1"
    using inc_val [of a u "snd (inc a)"] by (simp_all add: u_def)
  have w: "length w = length a" "words_val w + 1 = words_val a + word_base ^ length a * of_bool (\<not> snd (dec a))"
    using dec_val [of a w "snd (dec a)"] by (simp_all add: w_def)
  have du: "length (fst (dec u)) = length a"
      "words_val (fst (dec u)) + 1 = words_val u + word_base ^ length a * of_bool (\<not> snd (dec u))"
    using dec_val [of u "fst (dec u)" "snd (dec u)"] u(1) by simp_all
  have iw: "length (fst (inc w)) = length a"
      "words_val (fst (inc w)) + word_base ^ length a * of_bool (\<not> snd (inc w)) = words_val w + 1"
    using inc_val [of w "fst (inc w)" "snd (inc w)"] w(1) by simp_all
  note less = words_val_less [of a] words_val_less [of u] words_val_less [of w]
    words_val_less [of "fst (dec u)"] words_val_less [of "fst (inc w)"]
  have "words_val (fst (dec u)) = words_val a"
    using u du less by (cases "snd (inc a)"; cases "snd (dec u)") simp_all
  moreover have "words_val (fst (inc w)) = words_val a"
    using w iw less by (cases "snd (dec a)"; cases "snd (inc w)") simp_all
  ultimately show ?thesis
    using words_val_inject [of "fst (dec u)" a] words_val_inject [of "fst (inc w)" a] du(1) iw(1)
    by (simp add: u_def w_def)
qed

end
