(* ===== verification/Mpn.thy ===== *)
theory Mpn
  imports Bit_Util
begin

text \<open>
  \<open>util/mpn.cpp\<close>: arithmetic on multi-precision natural numbers. A number is the list of its 32-bit
  digits, least significant first (the array together with its length). The double digits of the
  source are 64-bit words; a routine that fills an array of the caller takes the old contents of
  the array and returns the new ones. The tracing calls print and change nothing.
\<close>

subsection \<open>Comparison, addition, subtraction\<close>

definition digit :: "u32 list \<Rightarrow> nat \<Rightarrow> u32" where
  "digit a j = (if j < length a then a ! j else 0)"

definition digits_to :: "nat \<Rightarrow> u32 list \<Rightarrow> u32 list" where
  "digits_to len a = map (digit a) [0..<len]"

fun compare_loop :: "(u32 \<times> u32) list \<Rightarrow> int" where
  "compare_loop [] = 0"
| "compare_loop ((u, v) # ps) = (if v < u then 1 else if u < v then - 1 else compare_loop ps)"

definition mpn_compare :: "u32 list \<Rightarrow> u32 list \<Rightarrow> int" where
  "mpn_compare a b =
     (let len = max (length a) (length b)
      in compare_loop (rev (zip (digits_to len a) (digits_to len b))))"

text \<open>The size of a number without its leading zero digits, at least one.\<close>

fun trim_size :: "u32 list \<Rightarrow> nat \<Rightarrow> nat" where
  "trim_size c 0 = 0"
| "trim_size c (Suc os) = (if 1 < Suc os \<and> c ! os = 0 then trim_size c os else Suc os)"

text \<open>The loop that adds digit by digit is the one of \<open>bit_util.cpp\<close>.\<close>

definition mpn_add :: "u32 list \<Rightarrow> u32 list \<Rightarrow> u32 list \<times> nat" where
  "mpn_add a b =
     (let len = max (length a) (length b);
          (c, k) = add_loop 0 (digits_to len a) (digits_to len b);
          c = c @ [k]
      in (c, trim_size c (len + 1)))"

fun sub_loop :: "u32 \<Rightarrow> u32 list \<Rightarrow> u32 list \<Rightarrow> u32 list \<times> u32" where
  "sub_loop k (u # us) (v # vs) =
     (let r = u - v; c1 = u < r;
          c = r - k; c2 = r < c;
          (cs, k) = sub_loop (of_bool (c1 \<or> c2)) us vs
      in (c # cs, k))"
| "sub_loop k _ _ = ([], k)"

definition mpn_sub :: "u32 list \<Rightarrow> u32 list \<Rightarrow> u32 list \<times> u32" where
  "mpn_sub a b =
     (let len = max (length a) (length b)
      in sub_loop 0 (digits_to len a) (digits_to len b))"

subsection \<open>Multiplication\<close>

text \<open>The inner loop: the digits \<open>u\<close> times \<open>v\<close> plus the digits \<open>cs\<close>, with the carry \<open>k\<close>.\<close>

fun mul_row :: "u32 \<Rightarrow> u32 list \<Rightarrow> u32 list \<Rightarrow> u32 \<Rightarrow> u32 list \<times> u32" where
  "mul_row v (u # us) (c # cs) k =
     (let t = (ucast u * ucast v + ucast c + ucast k :: u64);
          (ds, k) = mul_row v us cs (ucast (drop_bit 32 t))
      in (ucast (drop_bit 32 (push_bit 32 t)) # ds, k))"
| "mul_row v _ _ k = ([], k)"

fun mul_loop :: "u32 list \<Rightarrow> nat \<Rightarrow> u32 list \<Rightarrow> u32 list \<Rightarrow> u32 list" where
  "mul_loop a j [] c = c"
| "mul_loop a j (v # b) c =
     (let lnga = length a;
          c = (if v = 0 then c[j + lnga := 0]
               else (case mul_row v a (take lnga (drop j c)) 0 of
                       (ds, k) \<Rightarrow> take j c @ ds @ [k] @ drop (j + lnga + 1) c))
      in mul_loop a (Suc j) b c)"

definition mpn_mul :: "u32 list \<Rightarrow> u32 list \<Rightarrow> u32 list \<Rightarrow> u32 list" where
  "mpn_mul a b c = mul_loop a 0 b (replicate (length a) 0 @ drop (length a) c)"

subsection \<open>Division\<close>

definition first_bits :: "nat \<Rightarrow> u32 \<Rightarrow> u32" where
  "first_bits n x = drop_bit (32 - n) x"

definition last_bits :: "nat \<Rightarrow> u32 \<Rightarrow> u32" where
  "last_bits n x = drop_bit (32 - n) (push_bit (32 - n) x)"

definition mask_first :: u32 where
  "mask_first = NOT (drop_bit 1 (- 1))"

text \<open>
  The shift that brings the top digit of the denominator to its top bit. The loop of the source has
  no other bound: for a zero digit it never ends (\<open>None\<close>). \<open>div\<close> asserts that the top digit is not
  zero, but the assertion is not compiled into a release.
\<close>

partial_function (option) norm_shift :: "u32 \<Rightarrow> nat \<Rightarrow> nat option" where
  "norm_shift v d = (if push_bit d v AND mask_first = 0 then norm_shift v (d + 1) else Some d)"

declare norm_shift.simps [code]

definition shift_digits :: "nat \<Rightarrow> u32 list \<Rightarrow> u32 list" where
  "shift_digits d a =
     map (\<lambda>i. if 0 < i then push_bit d (a ! i) OR first_bits d (a ! (i - 1)) else push_bit d (a ! 0))
       [0..<length a]"

definition div_normalize :: "u32 list \<Rightarrow> u32 list \<Rightarrow> (nat \<times> u32 list \<times> u32 list) option" where
  "div_normalize numer denom =
     map_option (\<lambda>d.
         if d = 0 then (d, numer @ [0], denom)
         else if length numer \<noteq> 0 then
           (d, shift_digits d numer @ [first_bits d (last numer)], shift_digits d denom)
         else (0, replicate (length numer + 1) 0, replicate (length denom) 0))
       (if 0 < length denom then norm_shift (last denom) 0 else Some 0)"

definition div_unnormalize :: "u32 list \<Rightarrow> u32 list \<Rightarrow> nat \<Rightarrow> u32 list" where
  "div_unnormalize numer denom d =
     (if d = 0 then take (length denom) numer
      else
        map (\<lambda>i. drop_bit d (numer ! i) OR push_bit (32 - d) (last_bits d (numer ! (i + 1))))
          [0..<length denom - 1]
        @ [drop_bit d (numer ! (length denom - 1))])"

text \<open>
  The branches of the source for a trial quotient that does not fit a digit are \<open>UNREACHABLE\<close> and
  assertions; \<open>div_1_quotient_fits\<close> and \<open>recheck_val\<close> show that they are not reached.
\<close>

definition div_1_step :: "u32 \<Rightarrow> nat \<Rightarrow> u32 list \<times> u32 list \<Rightarrow> u32 list \<times> u32 list" where
  "div_1_step denom j = (\<lambda>(numer, quot).
     let temp = push_bit 32 (ucast (numer ! j)) OR ucast (numer ! (j - 1)) :: u64;
         q_hat = temp div ucast denom;
         ms = temp - q_hat * ucast denom;
         borrow = temp < ms;
         numer = numer[j - 1 := ucast ms];
         numer = numer[j := ucast (drop_bit 32 ms)];
         quot = quot[j - 1 := ucast q_hat]
     in if borrow then (numer[j := numer ! (j - 1) + denom], quot[j - 1 := quot ! (j - 1) - 1])
        else (numer, quot))"

fun div_1_loop :: "u32 \<Rightarrow> nat \<Rightarrow> u32 list \<times> u32 list \<Rightarrow> u32 list \<times> u32 list" where
  "div_1_loop denom 0 s = s"
| "div_1_loop denom (Suc j) s = div_1_loop denom j (div_1_step denom (Suc j) s)"

definition div_1 :: "u32 list \<Rightarrow> u32 \<Rightarrow> u32 list \<Rightarrow> u32 list \<times> u32 list" where
  "div_1 numer denom quot = div_1_loop denom (length numer - 1) (numer, quot)"

text \<open>
  The correction of the trial quotient: \<open>d1\<close> and \<open>d2\<close> are the two top digits of the denominator,
  \<open>x\<close> is the third digit of the part of the numerator that is divided.
\<close>

function recheck :: "u32 \<Rightarrow> u32 \<Rightarrow> u32 \<Rightarrow> u64 \<Rightarrow> u64 \<Rightarrow> u64 \<times> u64" where
  "recheck d1 d2 x q_hat r_hat =
     (if 2 ^ 32 \<le> q_hat \<or> push_bit 32 r_hat + ucast x < q_hat * ucast d2 then
        (let q_hat = q_hat - 1; r_hat = r_hat + ucast d1
         in if r_hat < 2 ^ 32 then recheck d1 d2 x q_hat r_hat else (q_hat, r_hat))
      else (q_hat, r_hat))"
  by pat_completeness auto

termination recheck
proof (relation "measure (\<lambda>(d1, d2, x, q, r). unat q)", goal_cases)
  case (2 d1 d2 x q r q' r')
  then have "q \<noteq> 0" "q' = q - 1" by auto
  then have "unat q' = unat q - 1" "0 < unat q" by (simp_all add: unat_sub_if' unat_gt_0 Suc_le_eq)
  then show ?case by simp
qed simp

declare recheck.simps [simp del]

definition div_n_step :: "u32 list \<Rightarrow> nat \<Rightarrow> u32 list \<times> u32 list \<Rightarrow> u32 list \<times> u32 list" where
  "div_n_step denom j = (\<lambda>(numer, quot).
     let n = length denom;
         d1 = denom ! (n - 1);
         temp = push_bit 32 (ucast (numer ! (j + n))) OR ucast (numer ! (j + n - 1)) :: u64;
         (q_hat, r_hat) = recheck d1 (denom ! (n - 2)) (numer ! (j + n - 2)) (temp div ucast d1) (temp mod ucast d1);
         q_hat_small = ucast q_hat;
         ms = mpn_mul [q_hat_small] denom (replicate (n + 1) 0);
         (c, borrow) = mpn_sub (take (n + 1) (drop j numer)) ms;
         numer = take j numer @ c @ drop (j + n + 1) numer;
         quot = quot[j := q_hat_small]
     in if borrow \<noteq> 0 then
          (let quot = quot[j := quot ! j - 1];
               ab = fst (mpn_add denom (take (n + 1) (drop j numer)))
           in (take j numer @ take (n + 1) ab @ drop (j + n + 1) numer, quot))
        else (numer, quot))"

fun div_n_loop :: "u32 list \<Rightarrow> nat \<Rightarrow> u32 list \<times> u32 list \<Rightarrow> u32 list \<times> u32 list" where
  "div_n_loop denom 0 s = s"
| "div_n_loop denom (Suc j) s = div_n_loop denom j (div_n_step denom j s)"

definition div_n :: "u32 list \<Rightarrow> u32 list \<Rightarrow> u32 list \<Rightarrow> u32 list \<times> u32 list" where
  "div_n numer denom quot = div_n_loop denom (length numer - length denom) (numer, quot)"

text \<open>
  Division fills the array \<open>quot\<close>, whose old contents are given, and \<open>rem\<close>, which has \<open>lden\<close> digits. It
  fails where the source reaches \<open>UNREACHABLE\<close> (the denominator is zero), where it writes past the end
  of \<open>quot\<close>, and where it never ends. With fewer digits in the numerator it clears
  \<open>lnum - lden + 1\<close> digits of \<open>quot\<close>, and the 32-bit difference wraps around when more than one digit is
  missing.
\<close>

datatype div_error = Unreachable | Overrun | Endless

definition mpn_div ::
  "u32 list \<Rightarrow> u32 list \<Rightarrow> u32 list \<Rightarrow> div_error + bool \<times> u32 list \<times> u32 list" where
  "mpn_div numer denom quot =
     (let lnum = length numer; lden = length denom
      in if lnum < lden then
           (let cleared = unat (of_nat lnum - of_nat lden + 1 :: u32)
            in if cleared \<le> length quot then
                 Inr (False, replicate cleared 0 @ drop cleared quot, digits_to lden numer)
               else Inl Overrun)
         else if list_all (\<lambda>w. w = 0) denom then Inl Unreachable
         else if lnum = 1 \<and> lden = 1 then
           (if quot = [] then Inl Overrun
            else Inr (False, quot[0 := numer ! 0 div denom ! 0], [numer ! 0 mod denom ! 0]))
         else if lnum < lden \<or> lnum = lden \<and> numer ! (lnum - 1) < denom ! (lden - 1) then
           (if quot = [] then Inl Overrun else Inr (False, quot[0 := 0], digits_to lden numer))
         else
           (case div_normalize numer denom of
              None \<Rightarrow> Inl Endless
            | Some (d, u, v) \<Rightarrow>
                if length quot < length u - lden then Inl Overrun
                else
                  (let (u, quot) = (if lden = 1 then div_1 u (v ! 0) quot else div_n u v quot)
                   in Inr (True, quot, div_unnormalize u v d))))"

subsection \<open>Printing\<close>

text \<open>The decimal digits that \<open>snprintf\<close> produces for the format \<open>%u\<close>.\<close>

fun dec_digits :: "nat \<Rightarrow> string" where
  "dec_digits n = (if n < 10 then [char_of (48 + n)] else dec_digits (n div 10) @ [char_of (48 + n mod 10)])"

declare dec_digits.simps [simp del]

definition pop_zeros :: "u32 list \<Rightarrow> u32 list" where
  "pop_zeros temp = rev (dropWhile (\<lambda>w. w = 0) (rev temp))"

text \<open>One round of the printing loop: the number divided by ten, and the digit.\<close>

definition div_ten :: "u32 list \<Rightarrow> (u32 list \<times> u32) option" where
  "div_ten temp =
     map_option (\<lambda>(d, t_numer, t_denom).
         let (t_numer, temp) = div_1 t_numer (t_denom ! 0) temp
         in (temp, div_unnormalize t_numer t_denom d ! 0))
       (div_normalize temp [10])"

definition swap_round :: "nat \<Rightarrow> nat \<Rightarrow> string \<Rightarrow> string" where
  "swap_round j i buf = buf[i := buf ! (j - i), j - i := buf ! i]"

definition swap_ends :: "string \<Rightarrow> string" where
  "swap_ends buf =
     (let j = length buf - 1; mid = j div 2 + (if j mod 2 = 1 then 1 else 0)
      in fold (swap_round j) [0..<mid] buf)"

subsection \<open>Comparison, addition, subtraction: meaning\<close>

lemma digits_to:
  assumes "length a \<le> len"
  shows "length (digits_to len a) = len" "words_val (digits_to len a) = words_val a"
    and "digits_to len a = a @ replicate (len - length a) 0"
proof -
  show e: "digits_to len a = a @ replicate (len - length a) 0"
    using assms by (intro nth_equalityI) (auto simp: digits_to_def digit_def nth_append)
  show "length (digits_to len a) = len" "words_val (digits_to len a) = words_val a"
    using assms by (simp_all add: e words_val_append)
qed

lemma digits_to_length [simp]: "digits_to (length a) a = a" "length (digits_to len a) = len"
  using digits_to(3) [of a "length a"] by (simp_all add: digits_to_def)

lemma compare_loop_lt:
  "length us = length vs \<Longrightarrow>
    compare_loop (rev (zip us vs)) = (if words_val vs < words_val us then 1 else if words_val us < words_val vs then - 1 else 0)"
proof (induction us vs rule: rev_induct2)
  case (4 u us v vs)
  then have len: "length us = length vs" by simp
  show ?case
    using "4.IH" [OF len] words_val_snoc_less [OF len, of u v] words_val_snoc_less [OF len [symmetric], of v u]
      "4.prems" by (cases u v rule: linorder_cases) (auto simp: words_val_append)
qed simp_all

lemma mpn_compare:
  "mpn_compare a b = (if words_val b < words_val a then 1 else if words_val a < words_val b then - 1 else 0)"
  using digits_to(2) [of a "max (length a) (length b)"] digits_to(2) [of b "max (length a) (length b)"]
  by (simp add: mpn_compare_def compare_loop_lt)

lemma trim_size:
  assumes "os \<le> length c" "0 < os"
  shows "0 < trim_size c os \<and> trim_size c os \<le> os
    \<and> words_val (take (trim_size c os) c) = words_val (take os c)
    \<and> (1 < trim_size c os \<longrightarrow> c ! (trim_size c os - 1) \<noteq> 0)"
  using assms
proof (induction c os rule: trim_size.induct)
  case (2 c os)
  show ?case
  proof (cases "1 < Suc os \<and> c ! os = 0")
    case True
    then have "take (Suc os) c = take os c @ [0]" using 2(2) by (simp add: take_Suc_conv_app_nth)
    then show ?thesis using 2 True by (simp add: words_val_append)
  qed auto
qed simp

lemma mpn_add:
  fixes a b
  defines "len \<equiv> max (length a) (length b)"
  shows "length (fst (mpn_add a b)) = len + 1" "words_val (fst (mpn_add a b)) = words_val a + words_val b"
    and "snd (mpn_add a b) = trim_size (fst (mpn_add a b)) (len + 1)"
proof -
  obtain c k where r: "add_loop 0 (digits_to len a) (digits_to len b) = (c, k)" by force
  then have "add_loop (of_bool False) (digits_to len a) (digits_to len b) = (c, k)" by simp
  from add_loop_val [OF _ this]
  have "length c = len" "words_val c + word_base ^ len * unat k = words_val a + words_val b"
    using digits_to(2) [of a len] digits_to(2) [of b len] by (simp_all add: len_def)
  then show "length (fst (mpn_add a b)) = len + 1" "words_val (fst (mpn_add a b)) = words_val a + words_val b"
    "snd (mpn_add a b) = trim_size (fst (mpn_add a b)) (len + 1)"
    using r by (simp_all add: mpn_add_def len_def [symmetric] words_val_append Let_def)
qed

lemma sub_loop_val:
  "length us = length vs \<Longrightarrow> sub_loop (of_bool k) us vs = (cs, k') \<Longrightarrow>
    length cs = length us \<and> (k' = 0 \<or> k' = 1)
    \<and> words_val cs + words_val vs + of_bool k = words_val us + word_base ^ length us * unat k'"
proof (induction us vs arbitrary: k cs k' rule: list_induct2)
  case (Cons u us v vs)
  define c where "c = u - v - of_bool k"
  define k1 where "k1 \<longleftrightarrow> u < u - v \<or> u - v < c"
  obtain cs' where r: "sub_loop (of_bool k1) us vs = (cs', k')" "cs = c # cs'"
    using Cons.prems by (auto simp: Let_def c_def k1_def split: prod.splits)
  have s: "unat c + unat v + of_bool k = unat u + word_base * of_bool k1"
    using sub_borrow [of u v k] by (simp add: c_def k1_def)
  have ih: "length cs' = length us" "k' = 0 \<or> k' = 1"
    "words_val cs' + words_val vs + of_bool k1 = words_val us + word_base ^ length us * unat k'"
    using Cons.IH [OF r(1)] by simp_all
  have "word_base * (words_val cs' + words_val vs + of_bool k1)
      = word_base * (words_val us + word_base ^ length us * unat k')" using ih(3) by simp
  then show ?case using ih s r(2) by (simp add: algebra_simps)
qed auto

lemma mpn_sub:
  assumes "mpn_sub a b = (c, k)"
  defines "len \<equiv> max (length a) (length b)"
  shows "length c = len" "k = of_bool (words_val a < words_val b)"
    and "words_val c + words_val b = words_val a + word_base ^ len * of_bool (words_val a < words_val b)"
proof -
  have "sub_loop (of_bool False) (digits_to len a) (digits_to len b) = (c, k)"
    using assms(1) unfolding mpn_sub_def len_def Let_def by simp
  from sub_loop_val [OF _ this] have r: "length c = len" "k = 0 \<or> k = 1"
    "words_val c + words_val b = words_val a + word_base ^ len * unat k"
    using digits_to(2) [of a len] digits_to(2) [of b len] by (simp_all add: len_def)
  have "words_val c < word_base ^ len" using words_val_less [of c] r(1) by simp
  then have k: "k = of_bool (words_val a < words_val b)" using r(2,3) by (elim disjE) auto
  show "length c = len" "k = of_bool (words_val a < words_val b)"
    "words_val c + words_val b = words_val a + word_base ^ len * of_bool (words_val a < words_val b)"
    using r(1,3) unfolding k by simp_all
qed

subsection \<open>Multiplication: meaning\<close>

lemma unat_ucast_64 [simp]: "unat (ucast (w :: u32) :: u64) = unat w"
  using unat_less_2_32 [of w] by (simp add: unsigned_ucast_eq take_bit_eq_mod)

lemma ucast_low: "unat (ucast (t :: u64) :: u32) = unat t mod word_base"
  by (simp add: word_base_def unsigned_ucast_eq take_bit_eq_mod)

lemma ucast_high: "unat (ucast (drop_bit 32 t :: u64) :: u32) = unat t div word_base"
proof -
  have less: "unat t < 2 ^ 32 * 2 ^ 32" using unsigned_less [of t, where ?'a = nat] by simp
  have "unat (drop_bit 32 t) = unat t div word_base"
    unfolding unsigned_drop_bit_eq using less by (simp add: drop_bit_eq_div take_bit_eq_mod word_base_def)
  moreover have "unat t div word_base < word_base"
    using less unfolding word_base_def by (rule less_mult_imp_div_less)
  ultimately show ?thesis by (simp only: ucast_low mod_less)
qed

lemma mul_digit:
  fixes u v c k :: u32
  defines "t \<equiv> (ucast u * ucast v + ucast c + ucast k :: u64)"
  shows "unat (ucast (drop_bit 32 (push_bit 32 t)) :: u32) + word_base * unat (ucast (drop_bit 32 t) :: u32)
    = unat u * unat v + unat c + unat k"
proof -
  have b: "unat u \<le> 2 ^ 32 - 1" "unat v \<le> 2 ^ 32 - 1" "unat c \<le> 2 ^ 32 - 1" "unat k \<le> 2 ^ 32 - 1"
    using unat_less_2_32 [of u] unat_less_2_32 [of v] unat_less_2_32 [of c] unat_less_2_32 [of k] by linarith+
  have "unat u * unat v \<le> (2 ^ 32 - 1) * (2 ^ 32 - 1)" by (rule mult_le_mono) (use b in auto)
  then have less: "unat u * unat v + unat c + unat k < 2 ^ 64" using b by simp
  have t: "unat t = unat u * unat v + unat c + unat k"
    using less by (simp add: t_def unat_word_ariths)
  have low: "(ucast (drop_bit 32 (push_bit 32 t)) :: u32) = ucast t"
    by (rule bit_word_eqI) (auto simp: bit_simps)
  show ?thesis unfolding low ucast_high unfolding ucast_low t by simp
qed

lemma mul_row:
  "length us = length cs \<Longrightarrow> mul_row v us cs k = (ds, k') \<Longrightarrow>
    length ds = length us
    \<and> words_val ds + word_base ^ length us * unat k' = words_val us * unat v + words_val cs + unat k"
proof (induction us cs arbitrary: k ds k' rule: list_induct2)
  case (Cons u us c cs)
  define t :: u64 where "t = ucast u * ucast v + ucast c + ucast k"
  obtain ds' where r: "mul_row v us cs (ucast (drop_bit 32 t)) = (ds', k')"
    "ds = ucast (drop_bit 32 (push_bit 32 t)) # ds'"
    using Cons.prems by (auto simp: Let_def t_def split: prod.splits)
  have ih: "length ds' = length us"
    "words_val ds' + word_base ^ length us * unat k' = words_val us * unat v + words_val cs + unat (ucast (drop_bit 32 t) :: u32)"
    using Cons.IH [OF r(1)] by simp_all
  define lo where "lo = unat (ucast (drop_bit 32 (push_bit 32 t)) :: u32)"
  define hi where "hi = unat (ucast (drop_bit 32 t) :: u32)"
  have "words_val ds + word_base ^ length (u # us) * unat k' = lo + word_base * (words_val ds' + word_base ^ length us * unat k')"
    by (simp add: r(2) lo_def algebra_simps)
  also have "\<dots> = (lo + word_base * hi) + word_base * (words_val us * unat v + words_val cs)"
    unfolding ih(2) hi_def by (simp add: algebra_simps)
  also have "lo + word_base * hi = unat u * unat v + unat c + unat k"
    unfolding lo_def hi_def t_def by (rule mul_digit)
  finally show ?case using ih(1) r(2) by (simp add: algebra_simps)
qed auto

lemma mul_loop:
  assumes "length c = length a + j + length b"
  shows "length (mul_loop a j b c) = length c
    \<and> words_val (mul_loop a j b c) = words_val (take (j + length a) c) + word_base ^ j * words_val a * words_val b"
  using assms
proof (induction b arbitrary: j c)
  case Nil
  then show ?case by simp
next
  case (Cons v b)
  define row where "row = take (length a) (drop j c)"
  define rest where "rest = drop (j + length a + 1) c"
  have len: "length row = length a" "length (take j c) = j" using Cons.prems by (simp_all add: row_def)
  have pre: "take (j + length a) c = take j c @ row" by (simp add: row_def take_add)
  obtain ds k where r: "mul_row v a row 0 = (ds, k)" by force
  define c' where "c' = (if v = 0 then c[j + length a := 0] else take j c @ ds @ [k] @ rest)"
  have ds: "length ds = length a" "words_val ds + word_base ^ length a * unat k = words_val a * unat v + words_val row"
    using mul_row [OF len(1) [symmetric] r] by simp_all
  have "c' = take j c @ (if v = 0 then row @ [0] else ds @ [k]) @ rest"
    using Cons.prems
    by (auto simp: c'_def upd_conv_take_nth_drop pre rest_def)
  then have c': "length c' = length c" "take (Suc j + length a) c' = take j c @ (if v = 0 then row @ [0] else ds @ [k])"
    using Cons.prems len ds(1) by (auto simp: rest_def)
  have "words_val (take (Suc j + length a) c') = words_val (take (j + length a) c) + word_base ^ j * (words_val a * unat v)"
  proof (cases "v = 0")
    case False
    then have "words_val (take (Suc j + length a) c')
        = words_val (take j c) + word_base ^ j * (words_val ds + word_base ^ length a * unat k)"
      using Cons.prems unfolding c'(2) by (simp add: words_val_append ds(1))
    then show ?thesis using Cons.prems unfolding ds(2) pre by (simp add: words_val_append algebra_simps)
  next
    case True
    then show ?thesis using c'(2) Cons.prems by (simp add: pre words_val_append len(1))
  qed
  moreover have "mul_loop a j (v # b) c = mul_loop a (Suc j) b c'"
    by (simp add: c'_def row_def [symmetric] rest_def r)
  moreover have "length c' = length a + Suc j + length b" using Cons.prems c'(1) by simp
  ultimately show ?case
    using Cons.IH [of c' "Suc j"] c'(1) by (simp add: algebra_simps)
qed

lemma mpn_mul:
  assumes "length c = length a + length b"
  shows "length (mpn_mul a b c) = length c" "words_val (mpn_mul a b c) = words_val a * words_val b"
  using mul_loop [of "replicate (length a) 0 @ drop (length a) c" a 0 b] assms by (simp_all add: mpn_mul_def)

subsection \<open>Normalization: meaning\<close>

lemma mask_first: "d < 32 \<Longrightarrow> push_bit d v AND mask_first = 0 \<longleftrightarrow> \<not> bit v (31 - d)"
proof -
  have m: "mask_first = 2 ^ 31" by code_simp
  assume d: "d < 32"
  show ?thesis unfolding m and_exp_eq_0_iff_not_bit using d by (auto simp: bit_simps)
qed

lemma top_bit_clear:
  assumes "unat (v :: u32) < 2 ^ Suc m" "\<not> bit v m"
  shows "unat v < 2 ^ m"
proof -
  have "take_bit m (unat v) = take_bit (Suc m) (unat v)"
    using assms(2) by (intro bit_eqI) (auto simp: bit_simps bit_unsigned_iff less_Suc_eq)
  then have "unat v mod 2 ^ m = unat v" using assms(1) by (simp add: take_bit_eq_mod)
  moreover have "unat v mod 2 ^ m < 2 ^ m" by simp
  ultimately show ?thesis by (simp only:)
qed

lemma norm_shift:
  assumes "v \<noteq> 0" "d < 32" "unat v < 2 ^ (32 - d)"
  shows "\<exists>k. norm_shift v d = Some k \<and> k < 32 \<and> unat v < 2 ^ (32 - k) \<and> 2 ^ (31 - k) \<le> unat v"
  using assms
proof (induction "31 - d" arbitrary: d rule: less_induct)
  case less
  have d: "32 - d = Suc (31 - d)" using less.prems(2) by simp
  show ?case
  proof (cases "bit v (31 - d)")
    case True
    then have "norm_shift v d = Some d" using less.prems(2) by (simp add: norm_shift.simps [of v d] mask_first)
    moreover have "2 ^ (31 - d) \<le> unat v"
    proof (rule ccontr)
      assume "\<not> ?thesis"
      then have "take_bit (31 - d) (unat v) = unat v" by (simp add: take_bit_eq_mod)
      then have "\<not> bit (unat v) (31 - d)" by (metis bit_take_bit_iff less_irrefl)
      then show False using True by (simp add: bit_unsigned_iff)
    qed
    ultimately show ?thesis using less.prems by simp
  next
    case False
    then have small: "unat v < 2 ^ (31 - d)" using less.prems(3) unfolding d by (rule top_bit_clear [rotated])
    have "d < 31"
    proof (rule ccontr)
      assume "\<not> d < 31"
      then have "unat v < 1" using small by simp
      then show False using less.prems(1) by (simp add: unat_eq_0)
    qed
    moreover have "norm_shift v d = norm_shift v (d + 1)"
      using False less.prems(2) by (simp add: norm_shift.simps [of v d] mask_first)
    ultimately show ?thesis using less.hyps [of "d + 1"] less.prems(1) small by simp
  qed
qed

lemma norm_shift_zero: "norm_shift 0 d = None"
proof (cases "norm_shift 0 d")
  case (Some k)
  have "v \<noteq> 0" if "norm_shift v d = Some k" for v d k
    by (rule norm_shift.raw_induct [where P = "\<lambda>v d k. v \<noteq> 0", OF _ that]) (auto split: if_splits)
  then show ?thesis using Some by blast
qed

lemma norm_shift_None: "norm_shift v 0 = None \<longleftrightarrow> v = 0"
  using norm_shift [of v 0] norm_shift_zero [of 0] unat_less_2_32 [of v] by fastforce

lemma shl_words_shift_digits:
  "shl_words d prev a =
    (map (\<lambda>i. if 0 < i then push_bit d (a ! i) OR first_bits d (a ! (i - 1)) else push_bit d (a ! 0) OR prev)
       [0..<length a], if a = [] then prev else first_bits d (last a))"
proof (induction a arbitrary: prev)
  case (Cons w a)
  have "map (\<lambda>i. if 0 < i then push_bit d (a ! i) OR first_bits d (a ! (i - 1)) else push_bit d (a ! 0) OR first_bits d w)
      [0..<length a]
    = map (\<lambda>i. push_bit d (a ! i) OR first_bits d ((w # a) ! i)) [0..<length a]"
    by (rule map_cong) (auto simp: nth_Cons')
  then show ?case
    using Cons.IH [of "first_bits d w"]
    by (simp add: Let_def first_bits_def map_upt_Suc del: upt_Suc)
qed simp

lemma shift_digits_val:
  assumes "0 < d" "d < 32" "a \<noteq> []"
  shows "length (shift_digits d a) = length a"
    and "words_val (shift_digits d a) + word_base ^ length a * unat (first_bits d (last a)) = words_val a * 2 ^ d"
proof -
  have s: "shl_words d 0 a = (shift_digits d a, first_bits d (last a))"
    unfolding shl_words_shift_digits shift_digits_def using assms(3) by simp
  show "length (shift_digits d a) = length a"
    "words_val (shift_digits d a) + word_base ^ length a * unat (first_bits d (last a)) = words_val a * 2 ^ d"
    using shl_words [OF assms(1,2) _ s] by simp_all
qed

lemma div_normalize_None:
  assumes "denom \<noteq> []"
  shows "div_normalize numer denom = None \<longleftrightarrow> last denom = 0"
  using assms norm_shift_None by (simp add: div_normalize_def)

lemma div_normalize:
  assumes "numer \<noteq> []" "denom \<noteq> []" "last denom \<noteq> 0" "div_normalize numer denom = Some (d, u, v)"
  shows "d < 32" "length u = length numer + 1" "length v = length denom"
    and "words_val u = words_val numer * 2 ^ d" "words_val v = words_val denom * 2 ^ d"
proof -
  define t where "t = last denom"
  obtain k where k: "norm_shift t 0 = Some k" "k < 32" "unat t < 2 ^ (32 - k)"
    using norm_shift [of t 0] assms(3) unat_less_2_32 [of t] by (auto simp: t_def)
  have n: "(d, u, v) = (if k = 0 then (k, numer @ [0], denom)
      else (k, shift_digits k numer @ [first_bits k (last numer)], shift_digits k denom))"
    using assms(1,2,4) k(1) by (auto simp: div_normalize_def t_def split: if_splits)
  show "d < 32" "length u = length numer + 1" "length v = length denom"
    using n k(2) by (auto simp: shift_digits_def split: if_splits)
  show "words_val u = words_val numer * 2 ^ d"
    using n shift_digits_val [of k numer] k(2) assms(1) by (auto simp: words_val_append split: if_splits)
  have "unat (first_bits k t) = 0"
    unfolding first_bits_def unat_drop_bit_32 using k(3) by simp
  then show "words_val v = words_val denom * 2 ^ d"
    using n shift_digits_val [of k denom] k(2) assms(2) by (auto simp: t_def split: if_splits)
qed

lemma last_bits_shifted: "d < 32 \<Longrightarrow> push_bit (32 - d) (last_bits d y) = push_bit (32 - d) y"
  unfolding last_bits_def by (rule bit_word_eqI) (auto simp: bit_simps)

lemma div_unnormalize:
  assumes "denom \<noteq> []" "length denom \<le> length u" "d < 32"
  shows "length (div_unnormalize u denom d) = length denom"
    and "words_val (div_unnormalize u denom d) = words_val (take (length denom) u) div 2 ^ d"
proof -
  define n where "n = length denom"
  have n: "0 < n" "n \<le> length u" using assms by (simp_all add: n_def)
  have "div_unnormalize u denom d = shr_words d (take n u) 0 n False" if "0 < d"
    using that assms(3) n
    by (auto simp: div_unnormalize_def n_def [symmetric] shr_words_def last_bits_shifted Let_def
        intro!: map_cong)
  then show "length (div_unnormalize u denom d) = length denom"
    "words_val (div_unnormalize u denom d) = words_val (take (length denom) u) div 2 ^ d"
    using shr_words [of d n 0 "take n u" False] n assms(3) words_val_less [of "take n u"]
    by (cases "d = 0"; simp add: div_unnormalize_def n_def [symmetric]
        le_less_trans [OF div_le_dividend])+
qed

subsection \<open>Long division\<close>

text \<open>
  Both division loops run from the top digit of the quotient down. One step at \<open>j\<close> divides the part of
  the numerator from digit \<open>j\<close> on, which is smaller than the base times the denominator, and leaves
  the remainder there. A numerator below \<open>word_base ^ Suc j * D\<close> is split by the step.
\<close>

definition div_step_ok :: "nat \<Rightarrow> nat \<Rightarrow> u32 list \<times> u32 list \<Rightarrow> u32 list \<times> u32 list \<Rightarrow> bool" where
  "div_step_ok D j s s' \<longleftrightarrow>
     (\<exists>q. snd s' = (snd s)[j := q] \<and> length (fst s') = length (fst s)
        \<and> words_val (fst s') + D * word_base ^ j * unat q = words_val (fst s)
        \<and> words_val (fst s') < word_base ^ j * D)"

locale long_division =
  fixes step :: "'d \<Rightarrow> nat \<Rightarrow> u32 list \<times> u32 list \<Rightarrow> u32 list \<times> u32 list"
    and loop :: "'d \<Rightarrow> nat \<Rightarrow> u32 list \<times> u32 list \<Rightarrow> u32 list \<times> u32 list"
    and ok :: "'d \<Rightarrow> nat \<Rightarrow> bool" and width :: "'d \<Rightarrow> nat"
  assumes loop_0: "loop d 0 s = s"
    and loop_Suc: "loop d (Suc j) s = loop d j (step d j s)"
    and step_ok: "ok d D \<Longrightarrow> j + width d < length numer \<Longrightarrow> j < length quot \<Longrightarrow>
      words_val numer < word_base ^ Suc j * D \<Longrightarrow> div_step_ok D j (numer, quot) (step d j (numer, quot))"
begin

lemma loop_divides:
  assumes "ok d D" "m + width d \<le> length numer" "m \<le> length quot" "words_val numer < word_base ^ m * D"
    and "loop d m (numer, quot) = (r, q)"
  shows "length r = length numer \<and> length q = length quot \<and> drop m q = drop m quot
    \<and> words_val r < D \<and> words_val numer = words_val (take m q) * D + words_val r"
  using assms(2-5)
proof (induction m arbitrary: numer quot)
  case (Suc j)
  obtain u p where s: "step d j (numer, quot) = (u, p)" by force
  obtain x where x: "p = quot[j := x]" "length u = length numer"
      "words_val u + D * word_base ^ j * unat x = words_val numer" "words_val u < word_base ^ j * D"
    using step_ok [OF assms(1), of j numer quot] Suc.prems s by (auto simp: div_step_ok_def)
  have ih: "length r = length u" "length q = length p" "drop j q = drop j p" "words_val r < D"
      "words_val u = words_val (take j q) * D + words_val r"
    using Suc.IH [of u p] Suc.prems x by (simp_all add: loop_Suc s)
  have "drop j quot = quot ! j # drop (Suc j) quot" using Suc.prems(2) by (simp add: Cons_nth_drop_Suc)
  then have "drop j q = x # drop (Suc j) quot" unfolding ih(3) x(1) by (simp add: drop_update_swap)
  then have "q ! j = x" "drop (Suc j) q = drop (Suc j) quot"
    using Suc.prems(2) x(1) ih(2) by (metis Cons_nth_drop_Suc length_list_update list.inject Suc_le_lessD)+
  moreover have "take (Suc j) q = take j q @ [q ! j]"
    using Suc.prems(2) x(1) ih(2) by (simp add: take_Suc_conv_app_nth)
  ultimately show ?case
    using ih x Suc.prems(2) by (simp add: words_val_append algebra_simps)
qed (simp add: loop_0)

end

text \<open>The window of the numerator that a step at \<open>j\<close> with a denominator of \<open>n\<close> digits works on.\<close>

lemma window:
  assumes "j + n < length numer" "D < word_base ^ n" "words_val numer < word_base ^ Suc j * D"
  defines "W \<equiv> words_val (take (n + 1) (drop j numer))"
  shows "W < word_base * D"
    and "length w = n + 1 \<Longrightarrow> words_val w + D * q = W \<Longrightarrow> words_val w < D \<Longrightarrow>
      length (take j numer @ w @ drop (j + n + 1) numer) = length numer
      \<and> words_val (take j numer @ w @ drop (j + n + 1) numer) + D * word_base ^ j * q = words_val numer
      \<and> words_val (take j numer @ w @ drop (j + n + 1) numer) < word_base ^ j * D"
proof -
  define low where "low = take j numer"
  define high where "high = drop (j + n + 1) numer"
  have len: "length low = j" "length (take (n + 1) (drop j numer)) = n + 1"
    using assms(1) by (simp_all add: low_def)
  have h: "high = drop (n + 1) (drop j numer)" unfolding high_def drop_drop by (simp add: ac_simps)
  have "words_val numer = words_val (low @ take (n + 1) (drop j numer) @ high)"
    unfolding h append_take_drop_id low_def ..
  then have numer: "words_val numer = words_val low + word_base ^ j * (W + word_base ^ (n + 1) * words_val high)"
    unfolding words_val_append len W_def .
  have "word_base ^ Suc j * D \<le> word_base ^ Suc j * word_base ^ n" using assms(2) by (intro mult_le_mono2) simp
  also have "\<dots> = word_base ^ j * word_base ^ (n + 1)" by simp
  finally have "words_val numer < word_base ^ j * word_base ^ (n + 1)" using assms(3) by (rule less_le_trans [rotated])
  moreover have "word_base ^ j * word_base ^ (n + 1) * words_val high \<le> words_val numer"
    unfolding numer by (simp add: distrib_left mult.assoc)
  ultimately have "word_base ^ j * word_base ^ (n + 1) * words_val high < word_base ^ j * word_base ^ (n + 1)"
    by (rule le_less_trans [rotated])
  then have high: "words_val high = 0" by simp
  have "word_base ^ j * W \<le> words_val numer" unfolding numer by (simp add: distrib_left)
  also have "\<dots> < word_base ^ j * (word_base * D)" using assms(3) by (simp add: mult.left_commute)
  finally show "W < word_base * D" by simp
  assume w: "length w = n + 1" "words_val w + D * q = W" "words_val w < D"
  have val: "words_val (low @ w @ high) = words_val low + word_base ^ j * words_val w"
    by (simp add: words_val_append len high)
  have "words_val low < word_base ^ j" using words_val_less [of low] len by simp
  moreover have "word_base ^ j * Suc (words_val w) \<le> word_base ^ j * D" using w(3) by (intro mult_le_mono2) simp
  ultimately have "words_val (low @ w @ high) < word_base ^ j * D" unfolding val by simp
  moreover have "words_val (low @ w @ high) + D * word_base ^ j * q = words_val numer"
    unfolding val numer high w(2) [symmetric] by (simp add: algebra_simps)
  moreover have "length (low @ w @ high) = length numer" using w(1) assms(1) len(1) by (simp add: high_def)
  ultimately show "length (take j numer @ w @ drop (j + n + 1) numer) = length numer
      \<and> words_val (take j numer @ w @ drop (j + n + 1) numer) + D * word_base ^ j * q = words_val numer
      \<and> words_val (take j numer @ w @ drop (j + n + 1) numer) < word_base ^ j * D"
    by (simp add: low_def high_def)
qed

subsection \<open>Division by one digit: meaning\<close>

lemma two_digits:
  fixes hi lo :: u32
  defines "t \<equiv> push_bit 32 (ucast hi) OR ucast lo :: u64"
  shows "unat t = unat hi * word_base + unat lo"
proof -
  have "unat t = take_bit 64 (push_bit 32 (unat hi)) OR unat lo"
    by (simp add: t_def unsigned_or_eq unsigned_push_bit_eq)
  also have "take_bit 64 (push_bit 32 (unat hi)) = push_bit 32 (unat hi)"
    using unat_less_2_32 [of hi] by (simp add: take_bit_eq_mod push_bit_eq_mult)
  also have "push_bit 32 (unat hi) OR unat lo = unat hi * 2 ^ 32 + unat lo"
    by (rule or_shifted [OF unat_less_2_32])
  finally show ?thesis by (simp add: word_base_def)
qed

lemma split_two:
  assumes "j + 1 < length numer"
  shows "take 2 (drop j numer) = [numer ! j, numer ! (j + 1)]"
proof -
  have "drop j numer = numer ! j # numer ! Suc j # drop (Suc (Suc j)) numer"
    using assms by (metis Cons_nth_drop_Suc Suc_eq_plus1 Suc_lessD)
  then show ?thesis by simp
qed

lemma update_two:
  assumes "j + 1 < length xs"
  shows "xs[j := x, Suc j := y] = take j xs @ [x, y] @ drop (j + 1 + 1) xs"
proof -
  have "xs = take j xs @ xs ! j # xs ! Suc j # drop (Suc (Suc j)) xs"
    using assms by (metis Cons_nth_drop_Suc Suc_eq_plus1 Suc_lessD append_take_drop_id)
  moreover have "length (take j xs) = j" using assms by simp
  ultimately show ?thesis
    by (metis (no_types) Suc_eq_plus1 append_Cons append_Nil list_update_append1 list_update_length
        append_assoc length_append_singleton)
qed

lemma div_1_quotient_fits:
  fixes denom :: u32
  assumes "j + 1 < length numer" "words_val numer < word_base ^ Suc j * unat denom"
  defines "t \<equiv> push_bit 32 (ucast (numer ! Suc j)) OR ucast (numer ! j) :: u64"
  shows "words_val (take (1 + 1) (drop j numer)) = unat t" "unat (t div ucast denom) < word_base"
proof -
  show W: "words_val (take (1 + 1) (drop j numer)) = unat t"
    using split_two [OF assms(1)] by (simp add: numeral_2_eq_2 [symmetric] t_def two_digits)
  have "unat denom < word_base ^ 1" using unat_less_base [of denom] by (simp only: power_one_right)
  from window(1) [OF assms(1) this assms(2)] have "unat t < word_base * unat denom" unfolding W .
  then show "unat (t div ucast denom) < word_base"
    unfolding unat_div unat_ucast_64 by (rule less_mult_imp_div_less)
qed

lemma div_1_step_ok:
  assumes "denom \<noteq> 0" "j + 1 < length numer" "j < length quot" "words_val numer < word_base ^ Suc j * unat denom"
  shows "div_step_ok (unat denom) j (numer, quot) (div_1_step denom (Suc j) (numer, quot))"
proof -
  define D where "D = unat denom"
  define t :: u64 where "t = push_bit 32 (ucast (numer ! Suc j)) OR ucast (numer ! j)"
  define q where "q = t div ucast denom"
  define ms where "ms = t - q * ucast denom"
  have D: "0 < D" "D < word_base ^ 1" using assms(1) by (simp_all add: D_def unat_gt_0)
  note fits = div_1_quotient_fits [OF assms(2,4), folded t_def]
  note win = window [of j 1 numer D, OF assms(2) D(2) assms(4) [folded D_def], unfolded fits(1)]
  have q: "unat q = unat t div D" by (simp add: q_def D_def unat_div)
  have q_less: "unat q < word_base" using fits(2) by (simp add: q_def)
  have "unat q * D \<le> unat t" unfolding q by (rule div_times_less_eq_dividend)
  then have prod: "unat (q * ucast denom) = unat q * D"
    using unsigned_less [of t, where ?'a = nat] by (simp add: unat_word_ariths D_def)
  then have ms: "unat ms = unat t mod D"
    using \<open>unat q * D \<le> unat t\<close> by (simp add: ms_def unat_sub_if' q minus_div_mult_eq_mod)
  have ms_less: "unat ms < D" "unat ms < word_base" using D by (simp_all add: ms less_trans [OF mod_less_divisor])
  have borrow: "\<not> t < ms" unfolding word_less_nat_alt ms by (simp add: not_less)
  have hi: "(ucast (drop_bit 32 ms) :: u32) = 0"
    using ms_less(2) by (simp add: word_unat_eq_iff ucast_high)
  have step: "div_1_step denom (Suc j) (numer, quot)
      = (take j numer @ [ucast ms, 0] @ drop (j + 1 + 1) numer, quot[j := ucast q])"
    unfolding div_1_step_def Let_def diff_Suc_1 prod.case t_def [symmetric] q_def [symmetric] ms_def [symmetric] hi
    using borrow by (simp only: if_False update_two [OF assms(2)])
  have "words_val [ucast ms, 0] + D * unat (ucast q :: u32) = unat t"
    using ms_less q_less by (simp add: ucast_low ms q)
  moreover have "words_val [ucast ms, 0 :: u32] < D" using ms_less by (simp add: ucast_low)
  ultimately show ?thesis
    using win(2) [of "[ucast ms, 0]" "unat (ucast q :: u32)"]
    unfolding div_step_ok_def step D_def [symmetric] by (intro exI [of _ "ucast q"]) simp
qed

interpretation one: long_division "\<lambda>d j. div_1_step d (Suc j)" div_1_loop "\<lambda>d D. d \<noteq> 0 \<and> D = unat d" "\<lambda>_. 1"
  by unfold_locales (auto intro: div_1_step_ok)

lemma div_1:
  assumes "denom \<noteq> 0" "length numer = m + 1" "m \<le> length quot" "words_val numer < word_base ^ m * unat denom"
    and "div_1 numer denom quot = (r, q)"
  shows "length r = length numer \<and> length q = length quot \<and> drop m q = drop m quot
    \<and> words_val r < unat denom \<and> words_val numer = words_val (take m q) * unat denom + words_val r"
  using one.loop_divides [of denom "unat denom" m numer quot r q] assms by (simp add: div_1_def)

subsection \<open>The trial quotient\<close>

text \<open>
  Knuth's estimate, on numbers: \<open>D\<close> has the top digits \<open>v1\<close>, \<open>v2\<close> and the part \<open>dl < P\<close> below them, \<open>W\<close>
  the top digits \<open>t\<close> (two of them), \<open>u2\<close> and the part \<open>wl < P\<close>; \<open>t = q * v1 + r\<close>.
\<close>

lemma trial_top:
  fixes t :: nat
  assumes "wl + P * (u2 + B * t) < B * (dl + P * (v2 + B * v1))" "dl < P" "v2 < B"
  shows "t < B * v1 + B"
proof -
  have "P * (B * t) < B * (dl + P * (v2 + B * v1))" using assms(1) by (simp add: distrib_left)
  also have "\<dots> \<le> B * (P + P * (v2 + B * v1))" using assms(2) by (intro mult_le_mono2) simp
  also have "\<dots> = P * (B * (Suc v2 + B * v1))" by (simp add: algebra_simps)
  also have "\<dots> \<le> P * (B * (B + B * v1))" using assms(3) by (intro mult_le_mono2 add_mono) simp_all
  finally show ?thesis unfolding mult_less_cancel1 by (simp add: add.commute)
qed

lemma trial_too_big:
  fixes q :: nat
  assumes "t = q * v1 + r" "r * B + u2 < q * v2" "wl < P"
  shows "wl + P * (u2 + B * t) < q * (dl + P * (v2 + B * v1))"
proof -
  have "u2 + B * t + 1 \<le> q * (v2 + B * v1)" using assms(1,2) by (simp add: algebra_simps)
  then have "P * (u2 + B * t + 1) \<le> P * (q * (v2 + B * v1))" by (rule mult_le_mono2)
  then have "wl + P * (u2 + B * t) < P * (q * (v2 + B * v1))" using assms(3) by (simp add: distrib_left)
  also have "\<dots> \<le> q * (dl + P * (v2 + B * v1))" by (simp add: distrib_left mult.left_commute)
  finally show ?thesis .
qed

lemma trial_at_most_one:
  fixes q :: nat
  assumes "t = q * v1 + r" "q * v2 \<le> r * B + u2" "q < B" "dl < P" "0 < v1"
  shows "q * (dl + P * (v2 + B * v1)) < (wl + P * (u2 + B * t)) + (dl + P * (v2 + B * v1))"
proof -
  have "q * (v2 + B * v1) \<le> u2 + B * t" using assms(1,2) by (simp add: algebra_simps)
  then have le: "P * (q * (v2 + B * v1)) \<le> P * (u2 + B * t)" by (rule mult_le_mono2)
  have "q * dl \<le> B * dl" using assms(3) by (intro mult_le_mono1) simp
  also have "\<dots> < B * P" using assms(3,4) by simp
  also have "\<dots> \<le> P * (B * v1)" using assms(5) by (simp add: mult.commute)
  also have "\<dots> \<le> dl + P * (v2 + B * v1)" by (simp add: distrib_left)
  finally have "q * dl < dl + P * (v2 + B * v1)" .
  moreover have "q * (dl + P * (v2 + B * v1)) = q * dl + P * (q * (v2 + B * v1))" by (simp add: algebra_simps)
  ultimately show ?thesis using le by linarith
qed

lemma trial_lower:
  fixes q :: nat
  assumes "q * (dl + P * (v2 + B * v1)) \<le> wl + P * (u2 + B * t)" "wl < P" "u2 < B"
  shows "q * v1 \<le> t"
proof -
  have "(P * B) * (q * v1) \<le> q * (dl + P * (v2 + B * v1))" by (simp add: algebra_simps)
  also have "\<dots> < P + P * (u2 + B * t)" using assms(1,2) by linarith
  also have "\<dots> = P * (Suc u2 + B * t)" by (simp add: algebra_simps)
  also have "\<dots> \<le> P * (B + B * t)" using assms(3) by (intro mult_le_mono2) simp
  also have "\<dots> = (P * B) * Suc t" by (simp add: algebra_simps)
  finally show ?thesis unfolding mult_less_cancel1 by simp
qed

lemma unat_mult_digit: "unat q < word_base \<Longrightarrow> unat (q * ucast (d :: u32) :: u64) = unat q * unat d"
proof -
  assume "unat q < word_base"
  then have "unat q * unat d \<le> (2 ^ 32 - 1) * (2 ^ 32 - 1)"
    using unat_less_2_32 [of d] unfolding word_base_def by (intro mult_le_mono) linarith+
  then show ?thesis by (simp add: unat_word_ariths)
qed

lemma unat_shift_add_digit:
  assumes "unat r < word_base"
  shows "unat (push_bit 32 r + ucast (x :: u32) :: u64) = unat r * word_base + unat x"
proof -
  have "unat r * 2 ^ 32 + unat x < 2 ^ 64"
    using assms unat_less_2_32 [of x] unfolding word_base_def by simp
  then show ?thesis
    by (simp add: unat_word_ariths push_bit_eq_mult word_base_def)
qed

lemma recheck_val:
  fixes d1 d2 x :: u32 and wl dl P t :: nat
  defines "D \<equiv> dl + P * (unat d2 + word_base * unat d1)"
    and "W \<equiv> wl + P * (unat x + word_base * t)"
  assumes "0 < unat d1" "dl < P" "wl < P" "W < word_base * D"
    and "t = unat q * unat d1 + unat r" "unat r < word_base" "W div D \<le> unat q"
    and "recheck d1 d2 x q r = (q', r')"
  shows "unat q' < word_base \<and> W div D \<le> unat q' \<and> unat q' \<le> Suc (W div D)"
  using assms(7-10)
proof (induction "unat q" arbitrary: q r rule: less_induct)
  case less
  have D: "0 < D" using assms(3,4) by (simp add: D_def)
  have q: "W div D < word_base" using assms(6) by (rule less_mult_imp_div_less)
  have at_most: "unat p * D < W + D \<Longrightarrow> unat p \<le> Suc (W div D)" for p :: u64
    using div_le_mono [of "unat p * D" "W + D" D] div_add_self2 [of D W] D by simp
  note one = trial_at_most_one [where t = t and ?v1.0 = "unat d1" and ?v2.0 = "unat d2" and B = word_base and P = P
      and wl = wl and dl = dl and ?u2.0 = "unat x", folded D_def W_def]
  define c where "c \<longleftrightarrow> 2 ^ 32 \<le> q \<or> push_bit 32 r + ucast x < q * ucast d2"
  have big: "2 ^ 32 \<le> q \<longleftrightarrow> word_base \<le> unat q" by (simp add: word_le_nat_alt word_base_def)
  have c: "c \<longleftrightarrow> word_base \<le> unat q \<or> unat r * word_base + unat x < unat q * unat d2"
    unfolding c_def big using unat_mult_digit [of q d2] unat_shift_add_digit [OF less.prems(2), of x]
    by (cases "word_base \<le> unat q") (auto simp: word_less_nat_alt)
  show ?case
  proof (cases c)
    case False
    then have "q' = q" using less.prems(4) by (simp add: recheck.simps [of d1 d2 x q r] c_def)
    moreover have "unat q * D < W + D"
      using False less.prems(1) assms(3,4) unfolding c by (intro one) auto
    ultimately show ?thesis using False less.prems(3) at_most unfolding c by simp
  next
    case True
    have "W div D < unat q"
    proof (cases "word_base \<le> unat q")
      case False
      then have "W < unat q * D"
        using True less.prems(1) assms(5) unfolding c D_def W_def by (intro trial_too_big) auto
      then show ?thesis using less_mult_imp_div_less by blast
    qed (use q in simp)
    then have dec: "unat (q - 1) = unat q - 1" "0 < unat q" by (simp_all add: unat_sub_if')
    have r: "unat (r + ucast d1) = unat r + unat d1"
      using less.prems(2) unat_less_base [of d1] unfolding word_base_def by (simp add: unat_word_ariths)
    have t: "t = unat (q - 1) * unat d1 + unat (r + ucast d1)"
      using less.prems(1) dec unfolding r by (cases "unat q") simp_all
    have lower: "W div D \<le> unat (q - 1)" using \<open>W div D < unat q\<close> dec by simp
    have small: "r + ucast d1 < 2 ^ 32 \<longleftrightarrow> unat r + unat d1 < word_base"
      by (simp add: word_less_nat_alt r word_base_def)
    show ?thesis
    proof (cases "r + ucast d1 < 2 ^ 32")
      case True
      then have "recheck d1 d2 x (q - 1) (r + ucast d1) = (q', r')"
        using \<open>c\<close> less.prems(4) by (simp add: recheck.simps [of d1 d2 x q r] c_def Let_def)
      then show ?thesis using True less.hyps [of "q - 1" "r + ucast d1"] t lower dec small r by simp
    next
      case False
      then have e: "q' = q - 1"
        using \<open>c\<close> less.prems(4) by (simp add: recheck.simps [of d1 d2 x q r] c_def Let_def)
      have "t < word_base * unat d1 + word_base"
        using assms(4,6) unfolding D_def W_def by (intro trial_top) auto
      moreover have "word_base \<le> unat (r + ucast d1)" using False r small by simp
      ultimately have "unat (q - 1) * unat d1 < word_base * unat d1" using t by linarith
      then have qb: "unat (q - 1) < word_base" by simp
      have "unat (q - 1) * unat d2 \<le> word_base * word_base"
        using less_imp_le [OF qb] less_imp_le [OF unat_less_base [of d2]] by (rule mult_le_mono)
      also have "\<dots> \<le> unat (r + ucast d1) * word_base + unat x"
        using False small r by (simp add: trans_le_add1)
      finally have "unat (q - 1) * D < W + D" using t qb assms(3,4) by (intro one) auto
      then show ?thesis using qb lower at_most by (simp add: e)
    qed
  qed
qed

subsection \<open>Division by several digits: meaning\<close>

lemma top_digits:
  assumes "length ws = k + 2"
  shows "words_val ws = words_val (take k ws) + word_base ^ k * (unat (ws ! k) + word_base * unat (ws ! (k + 1)))"
    and "words_val (take k ws) < word_base ^ k"
proof -
  have "drop k ws = [ws ! k, ws ! (k + 1)]"
    using assms split_two [of k ws] by simp
  then have "words_val ws = words_val (take k ws @ [ws ! k, ws ! (k + 1)])" by (metis append_take_drop_id)
  then show "words_val ws = words_val (take k ws) + word_base ^ k * (unat (ws ! k) + word_base * unat (ws ! (k + 1)))"
    using assms by (simp add: words_val_append)
  show "words_val (take k ws) < word_base ^ k" using words_val_less [of "take k ws"] assms by simp
qed

lemma div_n_step_ok:
  assumes "1 < length denom" "last denom \<noteq> 0" "j + length denom < length numer" "j < length quot"
    and "words_val numer < word_base ^ Suc j * words_val denom"
  shows "div_step_ok (words_val denom) j (numer, quot) (div_n_step denom j (numer, quot))"
proof -
  obtain k where n: "length denom = k + 2" using assms(1) by (metis Suc_leI add_2_eq_Suc' le_Suc_ex add.commute Suc_1)
  define D where "D = words_val denom"
  define win where "win = take (k + 3) (drop j numer)"
  define W where "W = words_val win"
  define d1 where "d1 = denom ! (k + 1)"
  define d2 where "d2 = denom ! k"
  define x where "x = numer ! (j + k)"
  define temp :: u64 where "temp = push_bit 32 (ucast (numer ! (j + k + 2))) OR ucast (numer ! (j + k + 1))"
  obtain q r where qr: "recheck d1 d2 x (temp div ucast d1) (temp mod ucast d1) = (q, r)" by force
  have D: "D = words_val (take k denom) + word_base ^ k * (unat d2 + word_base * unat d1)"
      "words_val (take k denom) < word_base ^ k" "D < word_base ^ length denom"
    using top_digits [OF n] words_val_less [of denom] by (simp_all add: D_def d1_def d2_def)
  have d1: "0 < unat d1"
    using assms(1,2) n last_conv_nth [of denom] by (cases "denom = []") (auto simp: d1_def unat_gt_0)
  have lenw: "length win = Suc k + 2" using assms(3) n by (simp add: win_def)
  have nth: "win ! i = numer ! (j + i)" if "i < k + 3" for i
    using that assms(3) n by (simp add: win_def)
  have W: "W = words_val (take k win) + word_base ^ k * (unat x + word_base * unat temp)"
    "words_val (take k win) < word_base ^ k"
  proof -
    have tk: "take (Suc k) win = take k win @ [x]"
      using lenw nth [of k] by (simp add: take_Suc_conv_app_nth x_def)
    then show "W = words_val (take k win) + word_base ^ k * (unat x + word_base * unat temp)"
      using top_digits(1) [OF lenw] lenw nth [of "Suc k"] nth [of "k + 2"]
      by (simp add: W_def temp_def two_digits words_val_append tk algebra_simps numeral_2_eq_2)
    show "words_val (take k win) < word_base ^ k" using words_val_less [of "take k win"] lenw by simp
  qed
  have n3: "length denom + 1 = k + 3" using n by simp
  note wi = window [OF assms(3) D(3) assms(5) [folded D_def], unfolded add.assoc, unfolded n3, folded win_def W_def]
  have trial: "unat q < word_base \<and> W div D \<le> unat q \<and> unat q \<le> Suc (W div D)"
  proof -
    have T: "unat temp = unat (temp div ucast d1) * unat d1 + unat (temp mod ucast d1)"
      by (simp add: unat_div unat_mod_distrib)
    have R: "unat (temp mod ucast d1) < word_base"
      using d1 by (simp add: unat_mod_distrib less_trans [OF mod_less_divisor])
    have Q: "W div D \<le> unat (temp div ucast d1)"
    proof -
      have "W div D * unat d1 \<le> unat temp"
        using div_times_less_eq_dividend [of W D] W(2) unfolding D(1) W(1) by (rule trial_lower) simp
      then show ?thesis using d1 by (simp add: unat_div less_eq_div_iff_mult_less_eq)
    qed
    show ?thesis
      using recheck_val [OF d1 D(2) W(2) _ T R _ qr] wi(1) Q unfolding D(1) [symmetric] W(1) [symmetric] by blast
  qed
  define qs :: u32 where "qs = ucast q"
  have qs: "unat qs = unat q" using trial by (simp add: qs_def ucast_low)
  define ms where "ms = mpn_mul [qs] denom (replicate (length denom + 1) 0)"
  have ms: "length ms = k + 3" "words_val ms = unat q * D"
    using mpn_mul [of "replicate (length denom + 1) 0" "[qs]" denom] n qs by (simp_all add: ms_def D_def)
  obtain c borrow where cb: "mpn_sub win ms = (c, borrow)" by force
  have lenw': "length win = k + 3" using lenw by simp
  note sub = mpn_sub [OF cb, unfolded lenw' ms max.idem, folded W_def]
  define Q where "Q = W div D"
  have D0: "0 < D" using d1 D(1,2) by simp
  have QW: "Q * D \<le> W" "W < Suc Q * D"
    using D0 dividend_less_times_div [of D W] by (simp_all add: Q_def mult.commute)
  have idx: "j + length denom = j + k + 2" "j + length denom - 1 = j + k + 1" "j + length denom - 2 = j + k"
    "length denom - 1 = k + 1" "length denom - 2 = k" using n by simp_all
  have end3: "j + k + 2 + 1 = j + (k + 3)" by simp
  have step: "div_n_step denom j (numer, quot) =
    (let numer1 = take j numer @ c @ drop (j + (k + 3)) numer; quot = quot[j := qs]
     in if borrow \<noteq> 0 then
          (take j numer1 @ take (k + 3) (fst (mpn_add denom (take (k + 3) (drop j numer1)))) @ drop (j + (k + 3)) numer1,
           quot[j := quot ! j - 1])
        else (numer1, quot))"
    unfolding div_n_step_def Let_def prod.case
    unfolding idx(2-)
    unfolding n3 idx(1) d1_def [symmetric] d2_def [symmetric] x_def [symmetric] temp_def [symmetric]
      win_def [symmetric]
    unfolding qr prod.case qs_def [symmetric] ms_def [unfolded n3, symmetric] cb end3 ..
  show ?thesis
  proof (cases "W < unat q * D")
    case False
    then have "unat q = Q"
      using trial QW D0 unfolding Q_def [symmetric] by (metis Suc_n_not_le_n le_Suc_eq le_antisym not_less)
    then have "length c = k + 3" "words_val c + D * unat qs = W" "words_val c < D"
      using False sub QW by (simp_all add: qs mult.commute)
    moreover have "div_n_step denom j (numer, quot) = (take j numer @ c @ drop (j + (k + 3)) numer, quot[j := qs])"
      using step sub(2) False by (simp add: Let_def)
    ultimately show ?thesis
      using wi(2) [of c "unat qs"] n unfolding div_step_ok_def D_def [symmetric]
      by (intro exI [of _ qs]) (simp only: fst_conv snd_conv)
  next
    case True
    then have qQ: "unat q = Suc Q"
      using trial QW unfolding Q_def [symmetric] by (metis le_Suc_eq le_antisym not_less)
    have c: "length c = k + 3" "words_val c + Suc Q * D = W + word_base ^ (k + 3)" "borrow \<noteq> 0"
      using True sub unfolding qQ by simp_all
    define numer1 where "numer1 = take j numer @ c @ drop (j + (k + 3)) numer"
    have part: "take j numer1 = take j numer" "take (k + 3) (drop j numer1) = c"
      "drop (j + (k + 3)) numer1 = drop (j + (k + 3)) numer"
      using c(1) assms(3) n by (simp_all add: numer1_def min_absorb2)
    define ab where "ab = fst (mpn_add denom c)"
    have ab: "length ab = k + 4" "words_val ab = D + words_val c"
      using mpn_add(1,2) [of denom c] n c(1) by (simp_all add: ab_def D_def)
    define c' where "c' = take (k + 3) ab"
    have "words_val ab = (W - Q * D) + word_base ^ (k + 3)" using ab(2) c(2) QW(1) by simp
    moreover have "D < word_base ^ (k + 3)"
      using D(3) n power_increasing [of "k + 2" "k + 3" word_base] by simp
    then have "W - Q * D < word_base ^ (k + 3)" using QW by simp
    ultimately have "words_val c' = W - Q * D" unfolding c'_def words_val_take by simp
    then have "length c' = k + 3" "words_val c' + D * unat (qs - 1) = W" "words_val c' < D"
      using ab(1) QW qs qQ by (simp_all add: c'_def unat_sub_if' mult.commute)
    moreover have "div_n_step denom j (numer, quot)
        = (take j numer @ c' @ drop (j + (k + 3)) numer, quot[j := qs - 1])"
      unfolding step Let_def numer1_def [symmetric] part ab_def [symmetric] c'_def [symmetric]
      using c(3) assms(4) by simp
    ultimately show ?thesis
      using wi(2) [of c' "unat (qs - 1)"] n unfolding div_step_ok_def D_def [symmetric]
      by (intro exI [of _ "qs - 1"]) (simp only: fst_conv snd_conv)
  qed
qed

interpretation many: long_division div_n_step div_n_loop
  "\<lambda>denom D. 1 < length denom \<and> last denom \<noteq> 0 \<and> D = words_val denom" length
  by unfold_locales (auto intro: div_n_step_ok)

lemma div_n:
  assumes "1 < length denom" "last denom \<noteq> 0" "length numer = m + length denom" "m \<le> length quot"
    and "words_val numer < word_base ^ m * words_val denom" "div_n numer denom quot = (r, q)"
  shows "length r = length numer \<and> length q = length quot \<and> drop m q = drop m quot
    \<and> words_val r < words_val denom \<and> words_val numer = words_val (take m q) * words_val denom + words_val r"
  using many.loop_divides [of denom "words_val denom" m numer quot r q] assms by (simp add: div_n_def)

subsection \<open>The whole division\<close>

lemma words_val_top:
  assumes "ws \<noteq> []" "last ws \<noteq> 0"
  shows "word_base ^ (length ws - 1) \<le> words_val ws"
proof -
  have "words_val ws = words_val (butlast ws) + word_base ^ (length ws - 1) * unat (last ws)"
    using words_val_append [of "butlast ws" "[last ws]"] assms(1) by simp
  moreover have "0 < unat (last ws)" using assms(2) by (simp add: unat_gt_0)
  ultimately show ?thesis by (metis add.commute le_add1 le_add_same_cancel1 mult_le_mono2 nat_mult_1_right Suc_leI One_nat_def order_trans)
qed

text \<open>Division of the normalized numbers gives the quotient and, unnormalized, the remainder.\<close>

lemma normalized_division:
  fixes N D :: nat
  assumes "N * 2 ^ d = Q * (D * 2 ^ d) + R" "R < D * 2 ^ d"
  shows "N = Q * D + R div 2 ^ d" "R div 2 ^ d < D"
proof -
  have "N = (N * 2 ^ d) div 2 ^ d" by simp
  also have "N * 2 ^ d = R + (Q * D) * 2 ^ d" using assms(1) by simp
  also have "(R + (Q * D) * 2 ^ d) div 2 ^ d = Q * D + R div 2 ^ d"
    by (rule div_mult_self1) simp
  finally show "N = Q * D + R div 2 ^ d" .
  show "R div 2 ^ d < D" using assms(2) by (rule less_mult_imp_div_less)
qed

lemma divide_normalized:
  assumes "denom \<noteq> []" "last denom \<noteq> 0" "length denom \<le> length numer" "div_normalize numer denom = Some (d, u, v)"
    and "(if length denom = 1 then div_1 u (v ! 0) quot else div_n u v quot) = (u', q)"
    and "length numer + 1 - length denom \<le> length quot" "words_val numer < word_base ^ (length numer + 1 - length denom) * words_val denom"
  defines "m \<equiv> length numer + 1 - length denom"
  shows "length q = length quot \<and> drop m q = drop m quot
    \<and> length (div_unnormalize u' v d) = length denom
    \<and> words_val (div_unnormalize u' v d) < words_val denom
    \<and> words_val numer = words_val (take m q) * words_val denom + words_val (div_unnormalize u' v d)"
proof -
  have "numer \<noteq> []" using assms(1,3) by auto
  note n = div_normalize [OF this assms(1,2,4)]
  have len: "length u = m + length v" using n(2,3) assms(3) by (simp add: m_def)
  have less: "words_val u < word_base ^ m * words_val v" using assms(7) n(4,5) by (simp add: m_def)
  have pos: "0 < words_val v"
    using words_val_top [OF assms(1,2)] n(5) by (simp add: less_le_trans [rotated])
  have div: "length u' = length u \<and> length q = length quot \<and> drop m q = drop m quot
      \<and> words_val u' < words_val v \<and> words_val u = words_val (take m q) * words_val v + words_val u'"
  proof (cases "length denom = 1")
    case True
    then obtain w where w: "v = [w]" using n(3) by (cases v) auto
    then have "w \<noteq> 0" using pos by auto
    from div_1 [OF this, of u m quot u' q] show ?thesis
      using True w len assms(5,6) less by (simp add: m_def)
  next
    case False
    have l: "1 < length v" using False assms(1) n(3) by (cases "length denom") auto
    have "last v \<noteq> 0"
    proof
      assume "last v = 0"
      moreover have "words_val v = words_val (butlast v) + word_base ^ (length v - 1) * unat (last v)"
        using words_val_append [of "butlast v" "[last v]"] l by (cases v rule: rev_cases) simp_all
      ultimately have "words_val v < word_base ^ (length v - 1)" using words_val_less [of "butlast v"] by simp
      moreover have "word_base ^ (length v - 1) * 1 \<le> words_val denom * 2 ^ d"
        using words_val_top [OF assms(1,2)] n(3) by (intro mult_le_mono) simp_all
      ultimately show False using n(5) by simp
    qed
    from div_n [OF l this len, of quot u' q] show ?thesis using False assms(5,6) less by (simp add: m_def)
  qed
  have "words_val u' < word_base ^ length v" using div words_val_less [of v] by linarith
  then have "words_val (take (length v) u') = words_val u'" unfolding words_val_take by simp
  moreover have "v \<noteq> []" "length v \<le> length u'" using assms(1) n(3) div len by auto
  ultimately have "length (div_unnormalize u' v d) = length v" "words_val (div_unnormalize u' v d) = words_val u' div 2 ^ d"
    using div_unnormalize [of v u' d] n(1) by simp_all
  moreover have "words_val numer = words_val (take m q) * words_val denom + words_val u' div 2 ^ d"
    "words_val u' div 2 ^ d < words_val denom"
    using normalized_division [of "words_val numer" d "words_val (take m q)" "words_val denom" "words_val u'"] div
    unfolding n(4,5) by blast+
  ultimately show ?thesis using div n(3) by simp
qed

lemma quotient_bound:
  assumes "denom \<noteq> []" "last denom \<noteq> 0" "length denom \<le> length numer"
  shows "words_val numer < word_base ^ (length numer + 1 - length denom) * words_val denom"
proof -
  have "words_val numer < word_base ^ length numer" by (rule words_val_less)
  also have "length numer = (length numer + 1 - length denom) + (length denom - 1)"
    using assms(1,3) by (cases denom) auto
  also have "word_base ^ \<dots> = word_base ^ (length numer + 1 - length denom) * word_base ^ (length denom - 1)"
    by (rule power_add)
  also have "\<dots> \<le> word_base ^ (length numer + 1 - length denom) * words_val denom"
    using words_val_top [OF assms(1,2)] by (rule mult_le_mono2)
  finally show ?thesis .
qed

lemma mpn_div:
  assumes "denom \<noteq> []" "last denom \<noteq> 0" "length denom \<le> length numer + 1"
    and "length quot = length numer + 1 - length denom"
  shows "\<exists>res q r. mpn_div numer denom quot = Inr (res, q, r) \<and> length q = length quot \<and> length r = length denom
    \<and> words_val r < words_val denom \<and> words_val numer = words_val q * words_val denom + words_val r"
proof -
  define lnum where "lnum = length numer"
  define lden where "lden = length denom"
  have nz: "\<not> list_all (\<lambda>w. w = 0) denom"
    using assms(1,2) last_in_set [of denom] by (auto simp: list_all_iff)
  consider "lnum < lden" | "lnum = 1" "lden = 1" | "lden \<le> lnum" "\<not> (lnum = 1 \<and> lden = 1)" "lnum = lden" "numer ! (lnum - 1) < denom ! (lden - 1)"
    | "lden \<le> lnum" "\<not> (lnum = 1 \<and> lden = 1)" "\<not> (lnum = lden \<and> numer ! (lnum - 1) < denom ! (lden - 1))"
    by linarith
  then show ?thesis
  proof cases
    case 1
    then have l: "lden = lnum + 1" using assms(3) by (simp add: lnum_def lden_def)
    then have "quot = []" using assms(4) by (simp add: lnum_def lden_def)
    moreover have "unat (of_nat lnum - of_nat lden + 1 :: u32) = 0" by (simp add: l)
    moreover have "words_val numer < words_val denom"
      using words_val_less [of numer] words_val_top [OF assms(1,2)] l by (simp add: lnum_def lden_def)
    moreover have "length numer \<le> lden" using 1 by (simp add: lnum_def)
    ultimately show ?thesis
      using 1 digits_to(2) [of numer lden]
      by (intro exI [of _ False] exI [of _ quot] exI [of _ "digits_to lden numer"])
        (simp add: mpn_div_def lnum_def [symmetric] lden_def [symmetric])
  next
    case 2
    obtain x where x: "numer = [x]" using 2 by (cases numer) (auto simp: lnum_def)
    obtain y where y: "denom = [y]" using 2 by (cases denom) (auto simp: lden_def)
    obtain z where z: "quot = [z]" using assms(4) x y by (cases quot) auto
    have "unat y \<noteq> 0" using assms(2) y by (simp add: unat_eq_0)
    then show ?thesis
      using nz by (intro exI [of _ False]) (simp add: mpn_div_def x y z unat_div unat_mod_distrib)
  next
    case 3
    obtain z where z: "quot = [z]" using assms(4) 3 by (cases quot) (auto simp: lnum_def lden_def)
    have ne: "numer \<noteq> []" using 3 assms(1) by (auto simp: lnum_def lden_def)
    have "words_val (butlast numer @ [last numer]) < words_val (butlast denom @ [last denom])"
      using 3 ne assms(1) by (intro words_val_snoc_less) (simp_all add: lnum_def lden_def last_conv_nth)
    then have "words_val numer < words_val denom" using ne assms(1) by simp
    then show ?thesis
      using 3 nz digits_to(2) [of numer lden] digits_to(1) [of numer lden]
      by (auto simp: mpn_div_def lnum_def [symmetric] lden_def [symmetric] z)
  next
    case 4
    obtain d u v where n: "div_normalize numer denom = Some (d, u, v)"
      using div_normalize_None [OF assms(1), of numer] assms(2) by (cases "div_normalize numer denom") auto
    obtain u' q where q: "(if length denom = 1 then div_1 u (v ! 0) quot else div_n u v quot) = (u', q)" by force
    have "numer \<noteq> []" using 4(1) assms(1) by (auto simp: lnum_def lden_def)
    then have "length u = lnum + 1" using div_normalize(2) [OF _ assms(1,2) n] by (simp add: lnum_def)
    then have "mpn_div numer denom quot = Inr (True, q, div_unnormalize u' v d)"
      using 4 nz n q assms(4) by (auto simp: mpn_div_def lnum_def lden_def Let_def)
    moreover have "length denom \<le> length numer" using 4 by (simp add: lnum_def lden_def)
    note divide_normalized [OF assms(1,2) this n q _ quotient_bound [OF assms(1,2) this]]
    ultimately show ?thesis using assms(4) by (intro exI [of _ True]) simp
  qed
qed

subsection \<open>Printing: meaning\<close>

lemma div_ten:
  assumes "temp \<noteq> []"
  obtains temp' c where "div_ten temp = Some (temp', c)"
    "length temp' = length temp" "words_val temp' = words_val temp div 10" "unat c = words_val temp mod 10"
proof -
  obtain d u v where n: "div_normalize temp [10] = Some (d, u, v)"
    using div_normalize_None [of "[10]" temp] by (cases "div_normalize temp [10]") auto
  obtain u' q where q: "div_1 u (v ! 0) temp = (u', q)" by force
  have len: "length [10 :: u32] \<le> length temp" using assms by (cases temp) auto
  have div: "length q = length temp" "length (div_unnormalize u' v d) = 1"
    "words_val (div_unnormalize u' v d) < 10"
    "words_val temp = words_val q * 10 + words_val (div_unnormalize u' v d)"
    using divide_normalized [OF _ _ len n, of temp u' q] quotient_bound [OF _ _ len] q by simp_all
  obtain r where r: "div_unnormalize u' v d = [r]" using div(2) by (cases "div_unnormalize u' v d") auto
  have "div_ten temp = Some (q, r)" using n q r by (simp add: div_ten_def)
  then show thesis by (rule that) (use div in \<open>simp_all add: r\<close>)
qed

lemma pop_zeros:
  "words_val (pop_zeros ws) = words_val ws" "pop_zeros ws \<noteq> [] \<Longrightarrow> last (pop_zeros ws) \<noteq> 0"
  "words_val ws = 0 \<Longrightarrow> pop_zeros ws = []" "length (pop_zeros ws) \<le> length ws"
proof -
  show "words_val (pop_zeros ws) = words_val ws"
    by (induction ws rule: rev_induct) (simp_all add: pop_zeros_def words_val_append)
  show "pop_zeros ws \<noteq> [] \<Longrightarrow> last (pop_zeros ws) \<noteq> 0"
    by (induction ws rule: rev_induct) (auto simp: pop_zeros_def)
  show "words_val ws = 0 \<Longrightarrow> pop_zeros ws = []"
    by (simp add: pop_zeros_def words_val_zero_iff)
  show "length (pop_zeros ws) \<le> length ws"
    by (simp add: pop_zeros_def length_dropWhile_le le_trans [OF length_dropWhile_le])
qed

text \<open>The loop of \<open>to_string\<close> ends: the number decreases, and a zero of several digits is cleared at once.\<close>

function to_string_loop :: "u32 list \<Rightarrow> string \<Rightarrow> string option" where
  "to_string_loop temp buf =
     (if temp \<noteq> [] \<and> (1 < length temp \<or> temp ! 0 \<noteq> 0) then
        (case div_ten temp of
           None \<Rightarrow> None
         | Some (temp, rem) \<Rightarrow> to_string_loop (pop_zeros temp) (buf @ [char_of (48 + unat rem)]))
      else Some buf)"
  by pat_completeness auto

termination to_string_loop
proof (relation "measures [\<lambda>(temp, buf). words_val temp, \<lambda>(temp, buf). length temp]", goal_cases)
  case (2 temp buf x temp' rem)
  then have v: "words_val temp' = words_val temp div 10" "temp \<noteq> []"
    using div_ten [of temp] by (metis option.inject prod.inject)+
  show ?case
  proof (cases "words_val temp = 0")
    case True
    then have "pop_zeros temp' = []" using v(1) pop_zeros(3) by simp
    then show ?thesis using v(2) True by simp
  next
    case False
    then show ?thesis using v(1) by (simp add: pop_zeros(1))
  qed
qed simp

declare to_string_loop.simps [simp del]

text \<open>
  The result is the text in the buffer up to its null byte. A number with one digit is printed by
  \<open>snprintf\<close>, which cuts the text to the buffer of \<open>lbuf\<close> characters (an empty buffer, which the source
  asserts not to get, is left as it is). In the other case \<open>lbuf\<close> is not read: \<open>None\<close> stands for the writes
  past a buffer that is too short for the digits and the null byte, and for the swaps past the buffer
  when no digit was written, where \<open>j\<close> is decremented below 0.
\<close>

definition to_string :: "u32 list \<Rightarrow> nat \<Rightarrow> string option" where
  "to_string a lbuf =
     (if lbuf = 0 then None
      else if length a = 1 then Some (take (lbuf - 1) (dec_digits (unat (a ! 0))))
      else
        (case to_string_loop a [] of
           None \<Rightarrow> None
         | Some buf \<Rightarrow> if buf = [] \<or> lbuf < length buf + 1 then None else Some (swap_ends buf)))"

lemma to_string_loop:
  assumes "temp \<noteq> []" "1 < length temp \<or> temp ! 0 \<noteq> 0"
  shows "to_string_loop temp buf = Some (buf @ rev (dec_digits (words_val temp)))"
  using assms
proof (induction temp buf rule: to_string_loop.induct)
  case (1 temp buf)
  obtain t c where t: "div_ten temp = Some (t, c)"
    and d: "length t = length temp" "words_val t = words_val temp div 10" "unat c = words_val temp mod 10"
    by (rule div_ten [OF 1(2)])
  have step: "to_string_loop temp buf = to_string_loop (pop_zeros t) (buf @ [char_of (48 + unat c)])"
    using 1(2,3) t by (simp add: to_string_loop.simps [of temp buf])
  show ?case
  proof (cases "words_val temp < 10")
    case True
    then have "pop_zeros t = []" using d(2) pop_zeros(3) by simp
    then show ?thesis
      using True d(3) by (simp add: step to_string_loop.simps [of "[]"] dec_digits.simps [of "words_val temp"])
  next
    case False
    have v: "words_val (pop_zeros t) = words_val temp div 10" using d(2) pop_zeros(1) by simp
    then have ne: "pop_zeros t \<noteq> []" using False by (auto simp: div_eq_0_iff)
    have "1 < length (pop_zeros t) \<or> pop_zeros t ! 0 \<noteq> 0"
      using ne pop_zeros(2) [OF ne] by (cases "pop_zeros t") auto
    from 1(1) [OF _ t refl ne this] show ?thesis
      using 1(2,3) False v d(3) by (simp add: step dec_digits.simps [of "words_val temp"])
  qed
qed

lemma swap_rounds:
  assumes "buf \<noteq> []" "j = length buf - 1" "m \<le> (j + 1) div 2" "k < length buf"
  shows "length (fold (swap_round j) [0..<m] buf) = length buf"
    and "fold (swap_round j) [0..<m] buf ! k = (if k < m \<or> j - k < m then buf ! (j - k) else buf ! k)"
proof -
  have "length (fold (swap_round j) [0..<m] buf) = length buf \<and>
      (\<forall>k < length buf. fold (swap_round j) [0..<m] buf ! k = (if k < m \<or> j - k < m then buf ! (j - k) else buf ! k))"
    using assms(3)
  proof (induction m)
    case (Suc m)
    define b where "b = fold (swap_round j) [0..<m] buf"
    have b: "length b = length buf" "\<And>k. k < length buf \<Longrightarrow> b ! k = (if k < m \<or> j - k < m then buf ! (j - k) else buf ! k)"
      using Suc by (simp_all add: b_def)
    have m: "m < length buf" "j - m < length buf" "m < j - m" "length buf = Suc j"
      using Suc.prems assms(1,2) by (cases buf; simp)+
    have "fold (swap_round j) [0..<Suc m] buf = b[m := b ! (j - m), j - m := b ! m]"
      by (simp add: b_def swap_round_def)
    then show ?case using b m by (auto simp: nth_list_update)
  qed simp
  then show "length (fold (swap_round j) [0..<m] buf) = length buf"
    "fold (swap_round j) [0..<m] buf ! k = (if k < m \<or> j - k < m then buf ! (j - k) else buf ! k)"
    using assms(4) by simp_all
qed

lemma swap_ends: "buf \<noteq> [] \<Longrightarrow> swap_ends buf = rev buf"
proof -
  assume ne: "buf \<noteq> []"
  define j where "j = length buf - 1"
  define m where "m = j div 2 + (if j mod 2 = 1 then 1 else 0)"
  have m: "m = (j + 1) div 2" by (cases "even j") (auto simp: m_def elim!: evenE oddE)
  have s: "swap_ends buf = fold (swap_round j) [0..<m] buf" by (simp add: swap_ends_def j_def m_def Let_def)
  have "swap_ends buf ! k = rev buf ! k" if "k < length buf" for k
  proof -
    have "k \<le> j" "length buf = Suc j" using that by (simp_all add: j_def)
    moreover have "k < m \<or> j - k < m \<or> k = j - k" using m \<open>k \<le> j\<close> by presburger
    ultimately show ?thesis
      using swap_rounds(2) [OF ne j_def _ that, of m] m that s by (auto simp: rev_nth)
  qed
  moreover have "length (swap_ends buf) = length buf"
    using swap_rounds(1) [OF ne j_def, of m 0] m s ne by simp
  ultimately show ?thesis by (intro nth_equalityI) simp_all
qed

lemma dec_digits_not_Nil: "dec_digits n \<noteq> []"
  by (simp add: dec_digits.simps [of n])

lemma hd_dec_digits: "hd (dec_digits n) = CHR ''0'' \<longleftrightarrow> n = 0"
proof (induction n rule: dec_digits.induct)
  case (1 n)
  show ?case
  proof (cases "n < 10")
    case True
    have zero: "char_of (48 :: nat) = CHR ''0''" by code_simp
    have "char_of (48 + n) = CHR ''0'' \<longleftrightarrow> n = 0"
    proof
      assume "char_of (48 + n) = CHR ''0''"
      then have "of_char (char_of (48 + n)) = (of_char (CHR ''0'') :: nat)" by simp
      then show "n = 0" using True by simp
    qed (simp add: zero)
    then show ?thesis using True by (simp add: dec_digits.simps [of n])
  next
    case False
    then show ?thesis using 1 dec_digits_not_Nil by (simp add: dec_digits.simps [of n] div_eq_0_iff)
  qed
qed

lemma to_string_long:
  assumes "1 < length a" "0 < lbuf"
  shows "to_string a lbuf =
    (if length (dec_digits (words_val a)) < lbuf then Some (dec_digits (words_val a)) else None)"
proof -
  have "a \<noteq> []" using assms(1) by auto
  then show ?thesis
    using assms to_string_loop [of a "[]"] dec_digits_not_Nil
    by (auto simp: to_string_def swap_ends)
qed

subsection \<open>Properties\<close>

lemma mpn_div_fails_zero:
  assumes "\<not> length numer < length denom" "words_val denom = 0"
  shows "mpn_div numer denom quot = Inl Unreachable" "denom \<noteq> [] \<Longrightarrow> last denom = 0"
proof -
  have z: "list_all (\<lambda>w. w = 0) denom" using assms(2) by (simp add: words_val_zero_iff list_all_iff)
  then show "mpn_div numer denom quot = Inl Unreachable" using assms(1) by (simp add: mpn_div_def Let_def)
  show "denom \<noteq> [] \<Longrightarrow> last denom = 0" using z by (simp add: list_all_iff)
qed

lemma mpn_div_fails_long:
  assumes "\<not> length numer < length denom" "words_val denom \<noteq> 0"
  shows "mpn_div numer denom quot = Inl Overrun
      \<longleftrightarrow> last denom \<noteq> 0 \<and> length quot < length numer + 1 - length denom"
    "mpn_div numer denom quot = Inl Endless \<longleftrightarrow> last denom = 0" "mpn_div numer denom quot \<noteq> Inl Unreachable"
    "denom \<noteq> []"
proof -
  have nz: "\<not> list_all (\<lambda>w. w = 0) denom" using assms(2) by (simp add: words_val_zero_iff list_all_iff)
  show ne: "denom \<noteq> []" using assms(2) by auto
  then have nn: "numer \<noteq> []" using assms(1) by auto
  have top: "last denom = denom ! (length denom - 1)" using ne by (simp add: last_conv_nth)
  have one: "last denom \<noteq> 0" if "length denom = 1"
    using that nz by (cases denom) auto
  note d = mpn_div_def [of numer denom quot] Let_def
  have "(mpn_div numer denom quot = Inl Overrun
      \<longleftrightarrow> last denom \<noteq> 0 \<and> length quot < length numer + 1 - length denom)
    \<and> (mpn_div numer denom quot = Inl Endless \<longleftrightarrow> last denom = 0) \<and> mpn_div numer denom quot \<noteq> Inl Unreachable"
  proof (cases "length numer = 1 \<and> length denom = 1
      \<or> length numer = length denom \<and> numer ! (length numer - 1) < denom ! (length denom - 1)")
    case True
    then have "last denom \<noteq> 0" using one top by auto
    then show ?thesis using True assms(1) nz by (auto simp: d)
  next
    case False
    show ?thesis
    proof (cases "div_normalize numer denom")
      case None
      then have "last denom = 0" using div_normalize_None [OF ne] by blast
      then show ?thesis using False None assms(1) nz by (auto simp: d)
    next
      case (Some x)
      obtain e u v where x: "x = (e, u, v)" by (metis prod_cases3)
      have l: "last denom \<noteq> 0" using Some div_normalize_None [OF ne, of numer] by auto
      have "length u = length numer + 1" by (rule div_normalize(2) [OF nn ne l]) (use Some x in simp)
      then show ?thesis using False Some x l assms(1) nz by (auto simp: d split: prod.splits)
    qed
  qed
  then show "mpn_div numer denom quot = Inl Overrun
      \<longleftrightarrow> last denom \<noteq> 0 \<and> length quot < length numer + 1 - length denom"
    "mpn_div numer denom quot = Inl Endless \<longleftrightarrow> last denom = 0" "mpn_div numer denom quot \<noteq> Inl Unreachable"
    by blast+
qed


text \<open>C26: division, with Knuth's algorithm for several digits: whenever the top digit of the
  denominator is not zero and the numerator has at most one digit less, a quotient and a remainder
  are written, the numerator is quotient times denominator plus remainder, and the remainder is
  smaller than the denominator.\<close>

theorem mpn_div_correct:
  assumes "denom \<noteq> []" "last denom \<noteq> 0" "length denom \<le> length numer + 1"
    and "length quot = length numer + 1 - length denom"
  shows "case mpn_div numer denom quot of Inl e \<Rightarrow> False
    | Inr (res, q, r) \<Rightarrow> length q = length quot \<and> length r = length denom
        \<and> words_val q = words_val numer div words_val denom \<and> words_val r = words_val numer mod words_val denom"
  using mpn_div [OF assms] by auto

theorem mpn_div_correct_witness:
  "(\<exists>res q r. mpn_div [0, 0, 1] [0xFFFFFFFF, 0xFFFFFFFF] [0, 0] = Inr (res, q, r)
      \<and> words_val q = words_val [0, 0, 1] div words_val [0xFFFFFFFF, 0xFFFFFFFF])
    \<and> mpn_div [0, 0, 1] [0xFFFFFFFF, 0xFFFFFFFF] [0, 0] = Inr (True, [1, 0], [1, 0])
    \<and> mpn_div [3, 0, 0x80000000, 0] [1, 0, 0x20000000] [0, 0] = Inr (True, [3, 0], [0, 0, 0x20000000])"
proof -
  have 1: "[0xFFFFFFFF, 0xFFFFFFFF :: u32] \<noteq> []" "last [0xFFFFFFFF, 0xFFFFFFFF :: u32] \<noteq> 0"
    "length [0xFFFFFFFF, 0xFFFFFFFF :: u32] \<le> length [0, 0, 1 :: u32] + 1"
    "length [0, 0 :: u32] = length [0, 0, 1 :: u32] + 1 - length [0xFFFFFFFF, 0xFFFFFFFF :: u32]" by simp_all
  have "\<exists>res q r. mpn_div [0, 0, 1] [0xFFFFFFFF, 0xFFFFFFFF] [0, 0] = Inr (res, q, r)
      \<and> words_val q = words_val [0, 0, 1] div words_val [0xFFFFFFFF, 0xFFFFFFFF]"
    using mpn_div_correct [OF 1] by (auto split: sum.splits)
  moreover have "mpn_div [0, 0, 1] [0xFFFFFFFF, 0xFFFFFFFF] [0, 0] = Inr (True, [1, 0], [1, 0])" by code_simp
  moreover have "mpn_div [3, 0, 0x80000000, 0] [1, 0, 0x20000000] [0, 0] = Inr (True, [3, 0], [0, 0, 0x20000000])"
    by code_simp
  ultimately show ?thesis by blast
qed

text \<open>C34: division fails in these cases and in no other. It writes past the end of \<open>quot\<close> when the
  denominator has at least two digits more than the numerator, where the 32-bit number of quotient
  digits to clear wraps around, and when \<open>quot\<close> is too short for the quotient. It reaches
  \<open>UNREACHABLE\<close> for a zero denominator. It never ends for another denominator whose top digit is zero,
  which violates an assertion of the source.\<close>

theorem mpn_div_fails:
  assumes "length quot + length denom < 2 ^ 32"
  shows "(mpn_div numer denom quot = Inl Overrun \<longleftrightarrow>
        length numer + 1 < length denom
        \<or> length denom \<le> length numer \<and> denom \<noteq> [] \<and> last denom \<noteq> 0
          \<and> length quot < length numer + 1 - length denom)
    \<and> (mpn_div numer denom quot = Inl Unreachable \<longleftrightarrow>
        length denom \<le> length numer \<and> words_val denom = 0)
    \<and> (mpn_div numer denom quot = Inl Endless \<longleftrightarrow>
        length denom \<le> length numer \<and> words_val denom \<noteq> 0 \<and> last denom = 0)"
proof (cases "length numer < length denom")
  case True
  define k where "k = length denom - length numer - 1"
  have k: "k < 2 ^ 32" "length denom = length numer + 1 + k" using assms True by (simp_all add: k_def)
  have nat_k: "unat (of_nat k :: u32) = k"
    using k(1) by (simp add: unsigned_of_nat take_bit_eq_mod)
  have "(of_nat (length numer) - of_nat (length denom) + 1 :: u32) = 0 - of_nat k" by (simp add: k(2))
  moreover have "unat (0 - of_nat k :: u32) = (if k = 0 then 0 else 2 ^ 32 - k)"
    using unat_sub_if' [of 0 "of_nat k :: u32"] nat_k by (auto split: if_splits)
  moreover have "length quot < 2 ^ 32 - k" using assms k by simp
  ultimately show ?thesis using True k(2) by (simp add: mpn_div_def Let_def)
next
  case False
  show ?thesis
  proof (cases "words_val denom = 0")
    case zero: True
    then show ?thesis using mpn_div_fails_zero [OF False zero] False by auto
  next
    case long: False
    then show ?thesis using mpn_div_fails_long [OF False long] False by auto
  qed
qed

theorem mpn_div_fails_witness:
  "mpn_div [5] [1, 2, 3] [] = Inl Overrun \<and> mpn_div [7, 7] [0, 0] [9] = Inl Unreachable
    \<and> mpn_div [5, 5] [1, 0] [9] = Inl Endless \<and> mpn_div [7, 7] [5] [9] = Inl Overrun
    \<and> (\<exists>r. mpn_div [5] [1, 2] [] = Inr r)"
proof -
  have "mpn_div [5] [1, 2] [] \<noteq> Inl e" for e
    using mpn_div_fails [of "[]" "[1, 2]" "[5]"] by (cases e) simp_all
  then have "\<exists>r. mpn_div [5] [1, 2] [] = Inr r" by (metis sum.exhaust)
  then show ?thesis
    using mpn_div_fails [of "[]" "[1, 2, 3]" "[5]"] mpn_div_fails [of "[9]" "[0, 0]" "[7, 7]"]
      mpn_div_fails [of "[9]" "[1, 0]" "[5, 5]"] mpn_div_fails [of "[9]" "[5]" "[7, 7]"] by simp
qed

text \<open>addition, subtraction, multiplication and comparison compute on the numbers: the sum is exact
  and the reported size drops exactly its leading zeros, the difference is exact up to the borrow,
  the product does not depend on the old contents of the array.\<close>

lemma mpn_arith_correct:
  assumes "length c = length a + length b"
  defines "len \<equiv> max (length a) (length b)"
  shows "words_val (fst (mpn_add a b)) = words_val a + words_val b
    \<and> words_val (take (snd (mpn_add a b)) (fst (mpn_add a b))) = words_val a + words_val b
    \<and> words_val (fst (mpn_sub a b)) + words_val b
      = words_val a + word_base ^ len * unat (snd (mpn_sub a b))
    \<and> snd (mpn_sub a b) = of_bool (words_val a < words_val b)
    \<and> words_val (mpn_mul a b c) = words_val a * words_val b
    \<and> mpn_compare a b = sgn (int (words_val a) - int (words_val b))"
proof -
  have "mpn_sub a b = (fst (mpn_sub a b), snd (mpn_sub a b))" by simp
  note sub = mpn_sub [OF this]
  have "trim_size (fst (mpn_add a b)) (len + 1) \<le> len + 1
      \<and> words_val (take (trim_size (fst (mpn_add a b)) (len + 1)) (fst (mpn_add a b))) = words_val (take (len + 1) (fst (mpn_add a b)))"
    using trim_size [of "len + 1" "fst (mpn_add a b)"] mpn_add(1) [of a b] by (simp add: len_def)
  then show ?thesis
    using mpn_add [of a b] sub mpn_mul(2) [OF assms(1)] mpn_compare [of a b] by (simp add: len_def sgn_if)
qed

lemma mpn_arith_correct_witness:
  "words_val (mpn_mul [0xFFFFFFFF] [0xFFFFFFFF, 3] [7, 8, 9]) = words_val [0xFFFFFFFF] * words_val [0xFFFFFFFF, 3]
    \<and> mpn_mul [0xFFFFFFFF] [0xFFFFFFFF, 3] [7, 8, 9] = [1, 0xFFFFFFFB, 3]
    \<and> mpn_compare [3, 0] [1, 1] = - 1 \<and> snd (mpn_add [3, 0] [4]) = 1"
proof -
  have "length [7, 8, 9 :: u32] = length [0xFFFFFFFF :: u32] + length [0xFFFFFFFF, 3 :: u32]" by simp
  then have "words_val (mpn_mul [0xFFFFFFFF] [0xFFFFFFFF, 3] [7, 8, 9]) = words_val [0xFFFFFFFF] * words_val [0xFFFFFFFF, 3]"
    using mpn_arith_correct by blast
  moreover have "mpn_mul [0xFFFFFFFF] [0xFFFFFFFF, 3] [7, 8, 9] = [1, 0xFFFFFFFB, 3]"
    "mpn_compare [3, 0] [1, 1] = - 1" "snd (mpn_add [3, 0] [4]) = 1" by code_simp+
  ultimately show ?thesis by simp
qed

definition read_digits :: "string \<Rightarrow> nat" where
  "read_digits ds = foldl (\<lambda>n c. 10 * n + (of_char c - 48)) 0 ds"

lemma read_dec_digits: "read_digits (dec_digits n) = n"
proof (induction n rule: dec_digits.induct)
  case (1 n)
  then show ?case
    by (cases "n < 10") (simp_all add: dec_digits.simps [of n] read_digits_def)
qed

text \<open>C35: printing a number with at least one digit into a buffer with room for its decimal notation
  and a null byte leaves the decimal notation there, which has no leading zero unless the number is zero
  and reads back as the number. In a shorter buffer, the notation is cut to \<open>lbuf - 1\<close> characters when the
  number has one digit, and written past the buffer when it has more. A number without digits leaves the
  buffer always; an empty buffer violates an assertion.\<close>

theorem to_string_roundtrip:
  "to_string a lbuf =
      (if a = [] \<or> lbuf = 0 then None
       else if length (dec_digits (words_val a)) < lbuf then Some (dec_digits (words_val a))
       else if length a = 1 then Some (take (lbuf - 1) (dec_digits (words_val a)))
       else None)
    \<and> read_digits (dec_digits (words_val a)) = words_val a
    \<and> (hd (dec_digits (words_val a)) = CHR ''0'' \<longleftrightarrow> words_val a = 0)"
proof -
  consider "a = []" | w where "a = [w]" | "1 < length a" by (cases a rule: remdups_adj.cases) auto
  then have "to_string a lbuf =
      (if a = [] \<or> lbuf = 0 then None
       else if length (dec_digits (words_val a)) < lbuf then Some (dec_digits (words_val a))
       else if length a = 1 then Some (take (lbuf - 1) (dec_digits (words_val a)))
       else None)"
  proof cases
    case 1
    then show ?thesis by (simp add: to_string_def to_string_loop.simps)
  next
    case 2
    then show ?thesis by (simp add: to_string_def)
  next
    case 3
    then show ?thesis using to_string_long [OF 3, of lbuf] by (auto simp: to_string_def)
  qed
  then show ?thesis by (simp add: read_dec_digits hd_dec_digits)
qed

end
