(* ===== verification/Heap.thy ===== *)
theory Heap
  imports Prelude
begin

text \<open>
  \<open>util/heap.h\<close>: a binary heap of integers with a table of their positions. The template parameter,
  the order of the values, is an argument of the operations that compare. Positions and sizes are
  natural numbers; position 0 of the array of values holds a sentinel that is never compared, and a
  table entry 0 says that the value is not in the heap. The assertions of the source (the value
  passed is valid, it is or is not in the heap, the heap is not empty) are hypotheses of the
  theorems.
\<close>

subsection \<open>State and operations\<close>

record heap =
  m_values :: "int list"
  m_value2indices :: "nat list"

definition left :: "nat \<Rightarrow> nat" where "left i = 2 * i"
definition right :: "nat \<Rightarrow> nat" where "right i = 2 * i + 1"
definition parent :: "nat \<Rightarrow> nat" where "parent i = i div 2"

text \<open>The checks of the source, from a position down.\<close>

function check_invariant_core :: "(int \<Rightarrow> int \<Rightarrow> bool) \<Rightarrow> heap \<Rightarrow> nat \<Rightarrow> bool" where
  "check_invariant_core lt h idx =
     (if 0 < idx \<and> idx < length (m_values h) then
        m_value2indices h ! nat (m_values h ! idx) = idx
        \<and> (parent idx = 0 \<or> \<not> lt (m_values h ! idx) (m_values h ! parent idx))
        \<and> check_invariant_core lt h (left idx) \<and> check_invariant_core lt h (right idx)
      else True)"
  by pat_completeness auto

termination check_invariant_core
  by (relation "measure (\<lambda>(lt, h, idx). length (m_values h) - idx)") (auto simp: left_def right_def)

declare check_invariant_core.simps [simp del]

definition check_invariant :: "(int \<Rightarrow> int \<Rightarrow> bool) \<Rightarrow> heap \<Rightarrow> bool" where
  "check_invariant lt h = check_invariant_core lt h 1"

text \<open>The two writes that put a value at a position.\<close>

definition place :: "nat \<Rightarrow> int \<Rightarrow> heap \<Rightarrow> heap" where
  "place idx val h =
     h\<lparr>m_values := (m_values h)[idx := val], m_value2indices := (m_value2indices h)[nat val := idx]\<rparr>"

function move_up_loop :: "(int \<Rightarrow> int \<Rightarrow> bool) \<Rightarrow> int \<Rightarrow> nat \<Rightarrow> heap \<Rightarrow> nat \<times> heap" where
  "move_up_loop lt val idx h =
     (let parent_idx = parent idx
      in if parent_idx = 0 \<or> \<not> lt val (m_values h ! parent_idx) then (idx, h)
         else move_up_loop lt val parent_idx (place idx (m_values h ! parent_idx) h))"
  by pat_completeness auto

termination move_up_loop
  by (relation "measure (\<lambda>(lt, val, idx, h). idx)") (auto simp: parent_def)

declare move_up_loop.simps [simp del]

definition move_up :: "(int \<Rightarrow> int \<Rightarrow> bool) \<Rightarrow> nat \<Rightarrow> heap \<Rightarrow> heap" where
  "move_up lt idx h =
     (let val = m_values h ! idx; (idx, h) = move_up_loop lt val idx h in place idx val h)"

text \<open>The loop is entered at positions of values only; position 0 would be its own left child.\<close>

function move_down_loop :: "(int \<Rightarrow> int \<Rightarrow> bool) \<Rightarrow> int \<Rightarrow> nat \<Rightarrow> heap \<Rightarrow> nat \<times> heap" where
  "move_down_loop lt val idx h =
     (let sz = length (m_values h); left_idx = left idx
      in if idx = 0 \<or> sz \<le> left_idx then (idx, h)
         else
           (let right_idx = right idx;
                min_idx = (if right_idx < sz \<and> lt (m_values h ! right_idx) (m_values h ! left_idx)
                           then right_idx else left_idx);
                min_value = m_values h ! min_idx
            in if \<not> lt min_value val then (idx, h)
               else move_down_loop lt val min_idx (place idx min_value h)))"
  by pat_completeness auto

termination move_down_loop
  by (relation "measure (\<lambda>(lt, val, idx, h). length (m_values h) - idx)")
    (auto simp: left_def right_def place_def Let_def)

declare move_down_loop.simps [simp del]

definition move_down :: "(int \<Rightarrow> int \<Rightarrow> bool) \<Rightarrow> nat \<Rightarrow> heap \<Rightarrow> heap" where
  "move_down lt idx h =
     (let val = m_values h ! idx; (idx, h) = move_down_loop lt val idx h in place idx val h)"

definition set_bounds :: "nat \<Rightarrow> heap \<Rightarrow> heap" where
  "set_bounds s h =
     h\<lparr>m_value2indices := take s (m_value2indices h) @ replicate (s - length (m_value2indices h)) 0\<rparr>"

definition mk_heap :: "nat \<Rightarrow> heap" where
  "mk_heap s = set_bounds s \<lparr>m_values = [- 1], m_value2indices = []\<rparr>"

definition heap_empty :: "heap \<Rightarrow> bool" where
  "heap_empty h = (length (m_values h) = 1)"

definition heap_contains :: "heap \<Rightarrow> int \<Rightarrow> bool" where
  "heap_contains h val = (nat val < length (m_value2indices h) \<and> m_value2indices h ! nat val \<noteq> 0)"

definition heap_reset :: "heap \<Rightarrow> heap" where
  "heap_reset h =
     (if heap_empty h then h
      else \<lparr>m_values = [- 1], m_value2indices = replicate (length (m_value2indices h)) 0\<rparr>)"

definition get_bounds :: "heap \<Rightarrow> nat" where
  "get_bounds h = length (m_value2indices h)"

definition heap_size :: "heap \<Rightarrow> nat" where
  "heap_size h = length (m_value2indices h)"

definition reserve :: "nat \<Rightarrow> heap \<Rightarrow> heap" where
  "reserve s h = (if length (m_value2indices h) < s then set_bounds s h else h)"

definition min_value :: "heap \<Rightarrow> int" where
  "min_value h = m_values h ! 1"

definition erase_min :: "(int \<Rightarrow> int \<Rightarrow> bool) \<Rightarrow> heap \<Rightarrow> int \<times> heap" where
  "erase_min lt h =
     (let result = m_values h ! 1
      in if length (m_values h) = 2 then
           (result, h\<lparr>m_value2indices := (m_value2indices h)[nat result := 0], m_values := butlast (m_values h)\<rparr>)
         else
           (let last_val = last (m_values h);
                h = place 1 last_val h;
                h = h\<lparr>m_value2indices := (m_value2indices h)[nat result := 0], m_values := butlast (m_values h)\<rparr>
            in (result, move_down lt 1 h)))"

definition heap_erase :: "(int \<Rightarrow> int \<Rightarrow> bool) \<Rightarrow> int \<Rightarrow> heap \<Rightarrow> heap" where
  "heap_erase lt val h =
     (let idx = m_value2indices h ! nat val
      in if idx = length (m_values h) - 1 then
           h\<lparr>m_value2indices := (m_value2indices h)[nat val := 0], m_values := butlast (m_values h)\<rparr>
         else
           (let last_val = last (m_values h);
                h = place idx last_val h;
                h = h\<lparr>m_value2indices := (m_value2indices h)[nat val := 0], m_values := butlast (m_values h)\<rparr>;
                parent_idx = parent idx
            in if parent_idx \<noteq> 0 \<and> lt last_val (m_values h ! parent_idx) then move_up lt idx h
               else move_down lt idx h))"

definition decreased :: "(int \<Rightarrow> int \<Rightarrow> bool) \<Rightarrow> int \<Rightarrow> heap \<Rightarrow> heap" where
  "decreased lt val h = move_up lt (m_value2indices h ! nat val) h"

definition increased :: "(int \<Rightarrow> int \<Rightarrow> bool) \<Rightarrow> int \<Rightarrow> heap \<Rightarrow> heap" where
  "increased lt val h = move_down lt (m_value2indices h ! nat val) h"

definition heap_insert :: "(int \<Rightarrow> int \<Rightarrow> bool) \<Rightarrow> int \<Rightarrow> heap \<Rightarrow> heap" where
  "heap_insert lt val h =
     (let idx = length (m_values h);
          h = h\<lparr>m_value2indices := (m_value2indices h)[nat val := idx], m_values := m_values h @ [val]\<rparr>
      in move_up lt idx h)"

definition heap_swap :: "heap \<times> heap \<Rightarrow> heap \<times> heap" where
  "heap_swap = (\<lambda>(h, other).
     (h\<lparr>m_values := m_values other, m_value2indices := m_value2indices other\<rparr>,
      other\<lparr>m_values := m_values h, m_value2indices := m_value2indices h\<rparr>))"

text \<open>
  The search for all values up to a bound, with the stack \<open>todo\<close> (top first). It is a partial function
  because a stack with position 0 could run forever; it starts with position 1.
\<close>

partial_function (option) find_le_loop ::
  "(int \<Rightarrow> int \<Rightarrow> bool) \<Rightarrow> heap \<Rightarrow> int \<Rightarrow> nat list \<Rightarrow> int list \<Rightarrow> int list option" where
  "find_le_loop lt h val todo result =
     (case todo of [] \<Rightarrow> Some result
      | index # todo \<Rightarrow>
          if index < length (m_values h) \<and> \<not> lt val (m_values h ! index)
          then find_le_loop lt h val (right index # left index # todo) (result @ [m_values h ! index])
          else find_le_loop lt h val todo result)"

definition find_le :: "(int \<Rightarrow> int \<Rightarrow> bool) \<Rightarrow> heap \<Rightarrow> int \<Rightarrow> int list option" where
  "find_le lt h val = find_le_loop lt h val [1] []"

subsection \<open>The table of positions\<close>

text \<open>The values from position 1 on and the table describe each other.\<close>

definition index_ok :: "heap \<Rightarrow> bool" where
  "index_ok h \<longleftrightarrow> m_values h \<noteq> []
     \<and> (\<forall>i. 1 \<le> i \<and> i < length (m_values h) \<longrightarrow>
          0 \<le> m_values h ! i \<and> nat (m_values h ! i) < length (m_value2indices h)
          \<and> m_value2indices h ! nat (m_values h ! i) = i)
     \<and> (\<forall>v < length (m_value2indices h). m_value2indices h ! v \<noteq> 0 \<longrightarrow>
          m_value2indices h ! v < length (m_values h) \<and> m_values h ! (m_value2indices h ! v) = int v)"

text \<open>The values in the heap.\<close>

definition heap_set :: "heap \<Rightarrow> int set" where
  "heap_set h = {v. 0 \<le> v \<and> heap_contains h v}"

lemma index_okD:
  assumes "index_ok h" "1 \<le> i" "i < length (m_values h)"
  shows "0 \<le> m_values h ! i" "nat (m_values h ! i) < length (m_value2indices h)"
    "m_value2indices h ! nat (m_values h ! i) = i"
  using assms by (auto simp: index_ok_def)

lemma index_okV:
  assumes "index_ok h" "v \<in> heap_set h"
  shows "1 \<le> m_value2indices h ! nat v" "m_value2indices h ! nat v < length (m_values h)"
    "m_values h ! (m_value2indices h ! nat v) = v"
  using assms by (auto simp: index_ok_def heap_set_def heap_contains_def)

lemma heap_set_nth:
  assumes "index_ok h" "1 \<le> i" "i < length (m_values h)"
  shows "m_values h ! i \<in> heap_set h"
  using index_okD [OF assms] assms(2) by (simp add: heap_set_def heap_contains_def)

lemma heap_set_iff:
  assumes "index_ok h"
  shows "v \<in> heap_set h \<longleftrightarrow> (\<exists>i. 1 \<le> i \<and> i < length (m_values h) \<and> m_values h ! i = v)"
proof
  assume "v \<in> heap_set h"
  from index_okV [OF assms this] show "\<exists>i. 1 \<le> i \<and> i < length (m_values h) \<and> m_values h ! i = v"
    by (intro exI [of _ "m_value2indices h ! nat v"]) simp
next
  assume "\<exists>i. 1 \<le> i \<and> i < length (m_values h) \<and> m_values h ! i = v"
  then obtain i where i: "1 \<le> i" "i < length (m_values h)" "m_values h ! i = v" by auto
  show "v \<in> heap_set h" using heap_set_nth [OF assms i(1,2)] i(3) by simp
qed

lemma index_ok_inj:
  assumes "index_ok h" "1 \<le> i" "i < length (m_values h)" "1 \<le> j" "j < length (m_values h)"
    and "nat (m_values h ! i) = nat (m_values h ! j)"
  shows "i = j"
  using index_okD(3) [OF assms(1-3)] index_okD(3) [OF assms(1,4,5)] assms(6) by metis

lemma place_simps [simp]:
  "length (m_values (place i v h)) = length (m_values h)"
  "length (m_value2indices (place i v h)) = length (m_value2indices h)"
  "m_values (place i v h) = (m_values h)[i := v]"
  "m_value2indices (place i v h) = (m_value2indices h)[nat v := i]"
  by (simp_all add: place_def)

lemma place_same:
  assumes "index_ok h" "1 \<le> i" "i < length (m_values h)"
  shows "place i (m_values h ! i) h = h"
  using index_okD [OF assms] list_update_id [of "m_value2indices h" "nat (m_values h ! i)"]
  by (simp add: place_def)

text \<open>A step of the two loops exchanges the value with the one at the other position.\<close>

definition exchange :: "nat \<Rightarrow> nat \<Rightarrow> heap \<Rightarrow> heap" where
  "exchange i j h = place j (m_values h ! i) (place i (m_values h ! j) h)"

lemma exchange_nth:
  assumes "index_ok h" "1 \<le> i" "i < length (m_values h)" "1 \<le> j" "j < length (m_values h)"
  shows "k < length (m_values h) \<Longrightarrow> m_values (exchange i j h) ! k
      = (if k = j then m_values h ! i else if k = i then m_values h ! j else m_values h ! k)"
    and "length (m_values (exchange i j h)) = length (m_values h)"
  using assms by (simp_all add: exchange_def nth_list_update)

lemma exchange_ok:
  assumes "index_ok h" "1 \<le> i" "i < length (m_values h)" "1 \<le> j" "j < length (m_values h)" "i \<noteq> j"
  shows "index_ok (exchange i j h)" "heap_set (exchange i j h) = heap_set h"
    "length (m_value2indices (exchange i j h)) = length (m_value2indices h)"
proof -
  define x where "x = m_values h ! i"
  define y where "y = m_values h ! j"
  have x: "0 \<le> x" "nat x < length (m_value2indices h)" "m_value2indices h ! nat x = i"
    using index_okD [OF assms(1-3)] by (simp_all add: x_def)
  have y: "0 \<le> y" "nat y < length (m_value2indices h)" "m_value2indices h ! nat y = j"
    using index_okD [OF assms(1,4,5)] by (simp_all add: y_def)
  have ne: "nat x \<noteq> nat y" using index_ok_inj [OF assms(1-5)] assms(6) by (auto simp: x_def y_def)
  have t: "m_value2indices (exchange i j h) ! v
      = (if v = nat x then j else if v = nat y then i else m_value2indices h ! v)"
    if "v < length (m_value2indices h)" for v
    using that ne x(2) y(2) by (simp add: exchange_def nth_list_update x_def [symmetric] y_def [symmetric])
  show len: "length (m_value2indices (exchange i j h)) = length (m_value2indices h)"
    by (simp add: exchange_def)
  show "heap_set (exchange i j h) = heap_set h"
    using t len x y assms(2,4) by (auto simp: heap_set_def heap_contains_def split: if_splits)
  note v = exchange_nth [OF assms(1-5)]
  show "index_ok (exchange i j h)"
    unfolding index_ok_def len v(2)
  proof (intro conjI allI impI)
    show "m_values (exchange i j h) \<noteq> []" using assms(3) v(2) by auto
  next
    fix k assume "1 \<le> k \<and> k < length (m_values h)"
    then have k: "1 \<le> k" "k < length (m_values h)" by simp_all
    have "nat (m_values h ! k) \<noteq> nat x" if "k \<noteq> i" using index_ok_inj [OF assms(1) k assms(2,3)] that by (auto simp: x_def)
    moreover have "nat (m_values h ! k) \<noteq> nat y" if "k \<noteq> j" using index_ok_inj [OF assms(1) k assms(4,5)] that by (auto simp: y_def)
    ultimately show "0 \<le> m_values (exchange i j h) ! k" "nat (m_values (exchange i j h) ! k) < length (m_value2indices h)"
      "m_value2indices (exchange i j h) ! nat (m_values (exchange i j h) ! k) = k"
      using v(1) [OF k(2)] t index_okD [OF assms(1) k] x y ne
      by (auto simp: x_def [symmetric] y_def [symmetric])
  next
    fix w assume w: "w < length (m_value2indices h)" "m_value2indices (exchange i j h) ! w \<noteq> 0"
    have old: "m_value2indices h ! w < length (m_values h) \<and> m_values h ! (m_value2indices h ! w) = int w"
      if "w \<noteq> nat x" "w \<noteq> nat y"
      using assms(1) w that by (auto simp: index_ok_def t)
    then show "m_value2indices (exchange i j h) ! w < length (m_values h)"
      using t [OF w(1)] assms(3,5) by auto
    have "m_value2indices h ! w \<noteq> i" "m_value2indices h ! w \<noteq> j" if "w \<noteq> nat x" "w \<noteq> nat y"
      using old [OF that] that by (auto simp: x_def y_def)
    then show "m_values (exchange i j h) ! (m_value2indices (exchange i j h) ! w) = int w"
      using t [OF w(1)] old v(1) [OF assms(3)] v(1) [OF assms(5)] v(1) [of "m_value2indices h ! w"]
        assms(6) x(1) y(1)
      by (cases "w = nat x"; cases "w = nat y") (simp_all add: x_def [symmetric] y_def [symmetric])
  qed
qed

text \<open>The loops carry the value along instead of exchanging; it is in its place only virtually.\<close>

lemma place_exchange:
  assumes "index_ok (place i v h)" "1 \<le> i" "i < length (m_values h)" "1 \<le> j" "j < length (m_values h)" "i \<noteq> j" "0 \<le> v"
  shows "place j v (place i (m_values h ! j) h) = exchange i j (place i v h)"
proof -
  have "nat v \<noteq> nat (m_values h ! j)"
    using index_ok_inj [OF assms(1), of i j] assms by auto
  then show ?thesis
    using assms by (simp add: exchange_def place_def nth_list_update list_update_swap [of "nat v"])
qed

subsection \<open>The order\<close>

text \<open>
  What the heap needs of the template parameter: a strict weak order. The values are compared with it
  only.
\<close>

locale heap_order =
  fixes less_than :: "int \<Rightarrow> int \<Rightarrow> bool"
  assumes asym: "less_than v w \<Longrightarrow> \<not> less_than w v"
    and neg_trans: "\<not> less_than u v \<Longrightarrow> \<not> less_than v w \<Longrightarrow> \<not> less_than u w"

text \<open>Every value from position 2 on is not less than its parent.\<close>

definition ordered :: "(int \<Rightarrow> int \<Rightarrow> bool) \<Rightarrow> heap \<Rightarrow> bool" where
  "ordered lt h \<longleftrightarrow>
     (\<forall>i. 2 \<le> i \<and> i < length (m_values h) \<longrightarrow> \<not> lt (m_values h ! i) (m_values h ! (i div 2)))"

definition wf_heap :: "(int \<Rightarrow> int \<Rightarrow> bool) \<Rightarrow> heap \<Rightarrow> bool" where
  "wf_heap lt h \<longleftrightarrow> index_ok h \<and> ordered lt h"

lemma wf_heap_weaken:
  assumes "wf_heap lt h" "\<And>u w. u \<in> heap_set h \<Longrightarrow> w \<in> heap_set h \<Longrightarrow> lt' u w \<Longrightarrow> lt u w"
  shows "wf_heap lt' h"
proof -
  have ok: "index_ok h" using assms(1) by (simp add: wf_heap_def)
  have "\<not> lt' (m_values h ! i) (m_values h ! (i div 2))" if i: "2 \<le> i" "i < length (m_values h)" for i
  proof -
    have "m_values h ! i \<in> heap_set h" "m_values h ! (i div 2) \<in> heap_set h"
      using i by (auto intro!: heap_set_nth [OF ok])
    then show ?thesis using assms i by (auto simp: wf_heap_def ordered_def)
  qed
  then show ?thesis using ok by (simp add: wf_heap_def ordered_def)
qed

text \<open>The order holds except that the value at \<open>p\<close> may be less than its parent, or that its children
  may be less than it; its children and its parent are in order in both cases.\<close>

definition up_almost :: "(int \<Rightarrow> int \<Rightarrow> bool) \<Rightarrow> nat \<Rightarrow> heap \<Rightarrow> bool" where
  "up_almost lt p h \<longleftrightarrow>
     (\<forall>i. 2 \<le> i \<and> i < length (m_values h) \<and> i \<noteq> p \<longrightarrow> \<not> lt (m_values h ! i) (m_values h ! (i div 2)))
     \<and> (\<forall>i. i < length (m_values h) \<and> i div 2 = p \<and> 2 \<le> p \<longrightarrow> \<not> lt (m_values h ! i) (m_values h ! (p div 2)))"

definition down_almost :: "(int \<Rightarrow> int \<Rightarrow> bool) \<Rightarrow> nat \<Rightarrow> heap \<Rightarrow> bool" where
  "down_almost lt p h \<longleftrightarrow>
     (\<forall>i. 2 \<le> i \<and> i < length (m_values h) \<and> i div 2 \<noteq> p \<longrightarrow> \<not> lt (m_values h ! i) (m_values h ! (i div 2)))
     \<and> (\<forall>i. i < length (m_values h) \<and> i div 2 = p \<and> 2 \<le> p \<longrightarrow> \<not> lt (m_values h ! i) (m_values h ! (p div 2)))"

text \<open>The least value is at the root.\<close>

context heap_order
begin

lemma root_least:
  assumes "ordered less_than h" "1 \<le> i" "i < length (m_values h)"
  shows "\<not> less_than (m_values h ! i) (m_values h ! 1)"
  using assms(2,3)
proof (induction i rule: less_induct)
  case (less i)
  show ?case
  proof (cases "i = 1")
    case True
    then show ?thesis using asym by blast
  next
    case False
    then have "1 \<le> i div 2" "i div 2 < i" "2 \<le> i" using less.prems by auto
    then have "\<not> less_than (m_values h ! i) (m_values h ! (i div 2))"
      using less.prems assms(1) by (simp add: ordered_def)
    moreover have "\<not> less_than (m_values h ! (i div 2)) (m_values h ! 1)"
      using less.IH [of "i div 2"] less.prems \<open>1 \<le> i div 2\<close> \<open>i div 2 < i\<close> by linarith
    ultimately show ?thesis by (rule neg_trans)
  qed
qed

text \<open>Everything below a value that is greater than \<open>v\<close> is greater than \<open>v\<close>.\<close>

lemma below_greater:
  assumes "ordered less_than h" "2 \<le> i" "i < length (m_values h)" "less_than v (m_values h ! (i div 2))"
  shows "less_than v (m_values h ! i)"
  using assms neg_trans asym unfolding ordered_def by blast

lemma up_step:
  assumes ok: "index_ok h" and p: "2 \<le> p" "p < length (m_values h)"
    and almost: "up_almost less_than p h" and less: "less_than (m_values h ! p) (m_values h ! (p div 2))"
  shows "up_almost less_than (p div 2) (exchange p (p div 2) h)"
proof -
  define q where "q = p div 2"
  define n where "n = length (m_values h)"
  define g where "g = exchange p q h"
  have q: "1 \<le> q" "q < p" "q < n" using p by (auto simp: q_def n_def)
  have g: "length (m_values g) = n"
    "\<And>k. k < n \<Longrightarrow> m_values g ! k = (if k = q then m_values h ! p else if k = p then m_values h ! q else m_values h ! k)"
    using exchange_nth [OF ok, of p q] p q by (simp_all add: g_def n_def)
  have up: "\<And>i. 2 \<le> i \<Longrightarrow> i < n \<Longrightarrow> i \<noteq> p \<Longrightarrow> \<not> less_than (m_values h ! i) (m_values h ! (i div 2))"
    "\<And>i. i < n \<Longrightarrow> i div 2 = p \<Longrightarrow> \<not> less_than (m_values h ! i) (m_values h ! q)"
    using almost p by (auto simp: up_almost_def q_def n_def)
  have less': "less_than (m_values h ! p) (m_values h ! q)" using less by (simp add: q_def)
  show ?thesis
    unfolding up_almost_def q_def [symmetric] g_def [symmetric] g(1)
  proof (intro conjI allI impI)
    fix i assume i: "2 \<le> i \<and> i < n \<and> i \<noteq> q"
    consider "i = p" | "i \<noteq> p" "i div 2 = p" | "i \<noteq> p" "i div 2 = q" | "i \<noteq> p" "i div 2 \<noteq> p" "i div 2 \<noteq> q" by blast
    then show "\<not> less_than (m_values g ! i) (m_values g ! (i div 2))"
    proof cases
      case 1
      then show ?thesis using asym [OF less'] g(2) q p n_def by (simp add: q_def [symmetric])
    next
      case 2
      then show ?thesis using up(2) [of i] i g(2) q p by (auto simp: n_def)
    next
      case 3
      then show ?thesis
        using up(1) [of i] i g(2) q neg_trans [OF _ asym [OF less']] by auto
    next
      case 4
      then show ?thesis using up(1) [of i] i g(2) by auto
    qed
  next
    fix i assume i: "i < n \<and> i div 2 = q \<and> 2 \<le> q"
    have qq: "\<not> less_than (m_values h ! q) (m_values h ! (q div 2))" using up(1) [of q] i q by simp
    have k: "m_values g ! (q div 2) = m_values h ! (q div 2)" using g(2) [of "q div 2"] i q by auto
    show "\<not> less_than (m_values g ! i) (m_values g ! (q div 2))"
    proof (cases "i = p")
      case True
      then show ?thesis using qq k g(2) [of p] i q by simp
    next
      case False
      have "i \<noteq> q" "2 \<le> i" using i q by auto
      then have "\<not> less_than (m_values h ! i) (m_values h ! q)" using up(1) [of i] i False by simp
      then show ?thesis using neg_trans [OF _ qq] k g(2) [of i] i False \<open>i \<noteq> q\<close> by simp
    qed
  qed
qed

lemma down_step:
  assumes ok: "index_ok h" and p: "1 \<le> p" "c div 2 = p" "c < length (m_values h)"
    and almost: "down_almost less_than p h" and less: "less_than (m_values h ! c) (m_values h ! p)"
    and least: "\<And>i. i < length (m_values h) \<Longrightarrow> i div 2 = p \<Longrightarrow> \<not> less_than (m_values h ! i) (m_values h ! c)"
  shows "down_almost less_than c (exchange p c h)"
proof -
  define n where "n = length (m_values h)"
  define g where "g = exchange p c h"
  have c: "p < c" "c < n" "p < n" "2 \<le> c" using p by (auto simp: n_def)
  have g: "length (m_values g) = n"
    "\<And>k. k < n \<Longrightarrow> m_values g ! k = (if k = c then m_values h ! p else if k = p then m_values h ! c else m_values h ! k)"
    using exchange_nth [OF ok, of p c] p c by (simp_all add: g_def n_def)
  have down: "\<And>i. 2 \<le> i \<Longrightarrow> i < n \<Longrightarrow> i div 2 \<noteq> p \<Longrightarrow> \<not> less_than (m_values h ! i) (m_values h ! (i div 2))"
    "2 \<le> p \<Longrightarrow> \<not> less_than (m_values h ! c) (m_values h ! (p div 2))"
    using almost p c by (auto simp: down_almost_def n_def)
  show ?thesis
    unfolding down_almost_def g_def [symmetric] g(1)
  proof (intro conjI allI impI)
    fix i assume i: "2 \<le> i \<and> i < n \<and> i div 2 \<noteq> c"
    consider "i = c" | "i = p" | "i \<noteq> c" "i div 2 = p" | "i \<noteq> c" "i \<noteq> p" "i div 2 \<noteq> p" by blast
    then show "\<not> less_than (m_values g ! i) (m_values g ! (i div 2))"
    proof cases
      case 1
      then show ?thesis using asym [OF less] g(2) c p by simp
    next
      case 2
      have "p div 2 \<noteq> p" "p div 2 < n" "p div 2 \<noteq> c" using p c by auto
      then show ?thesis using down(2) g(2) [of p] g(2) [of "p div 2"] i c 2 by simp
    next
      case 3
      then show ?thesis using least [of i] g(2) [of i] g(2) [of p] i c by (auto simp: n_def)
    next
      case 4
      then show ?thesis using down(1) [of i] g(2) [of i] g(2) [of "i div 2"] i by auto
    qed
  next
    fix i assume i: "i < n \<and> i div 2 = c \<and> 2 \<le> c"
    then have ne: "i \<noteq> c" "i \<noteq> p" "2 \<le> i" "i div 2 \<noteq> p" using c by auto
    then show "\<not> less_than (m_values g ! i) (m_values g ! (c div 2))"
      using down(1) [of i] g(2) [of i] g(2) [of p] i c p(2) by auto
  qed
qed

text \<open>What the operations that move a value keep: the values, the bounds, and a proper heap.\<close>

definition reheaped :: "heap \<Rightarrow> heap \<Rightarrow> bool" where
  "reheaped h h' \<longleftrightarrow> wf_heap less_than h' \<and> heap_set h' = heap_set h
     \<and> length (m_values h') = length (m_values h) \<and> length (m_value2indices h') = length (m_value2indices h)"

lemma reheaped_exchange:
  assumes "reheaped (exchange i j h) h'" "index_ok h" "1 \<le> i" "i < length (m_values h)" "1 \<le> j" "j < length (m_values h)" "i \<noteq> j"
  shows "reheaped h h'"
  using assms exchange_ok [OF assms(2-)] exchange_nth(2) [OF assms(2-6)] by (simp add: reheaped_def)

lemma move_up_loop_ok:
  assumes "index_ok (place idx v h)" "up_almost less_than idx (place idx v h)" "1 \<le> idx" "idx < length (m_values h)" "0 \<le> v"
    and "move_up_loop less_than v idx h = (idx', h')"
  shows "reheaped (place idx v h) (place idx' v h')"
  using assms
proof (induction idx arbitrary: h rule: less_induct)
  case (less idx)
  define p where "p = idx div 2"
  have nth: "m_values (place idx v h) ! idx = v" using less.prems by simp
  have step: "move_up_loop less_than v idx h =
      (if p = 0 \<or> \<not> less_than v (m_values h ! p) then (idx, h) else move_up_loop less_than v p (place idx (m_values h ! p) h))"
    by (simp add: move_up_loop.simps [of _ _ idx] p_def parent_def Let_def)
  show ?case
  proof (cases "p = 0 \<or> \<not> less_than v (m_values h ! p)")
    case True
    have "ordered less_than (place idx v h)"
      unfolding ordered_def
    proof (intro allI impI)
      fix i assume i: "2 \<le> i \<and> i < length (m_values (place idx v h))"
      show "\<not> less_than (m_values (place idx v h) ! i) (m_values (place idx v h) ! (i div 2))"
      proof (cases "i = idx")
        case False
        then show ?thesis using less.prems(2) i unfolding up_almost_def by blast
      next
        case i': True
        then show ?thesis using True i less.prems(3,4) by (auto simp: p_def)
      qed
    qed
    then show ?thesis using True step less.prems(1,6) by (auto simp: reheaped_def wf_heap_def)
  next
    case False
    have p: "1 \<le> p" "p < idx" "p < length (m_values h)" "2 \<le> idx" using False less.prems by (auto simp: p_def)
    have nthp: "m_values (place idx v h) ! p = m_values h ! p" using p by simp
    define h1 where "h1 = place idx (m_values h ! p) h"
    have e: "place p v h1 = exchange idx p (place idx v h)"
      unfolding h1_def using less.prems p by (intro place_exchange) auto
    have "index_ok (place p v h1)"
      unfolding e using less.prems p by (intro exchange_ok) auto
    moreover have "up_almost less_than p (place p v h1)"
      unfolding e using up_step [of "place idx v h" idx, folded p_def] less.prems(1-4) p False nth nthp by simp
    ultimately have "reheaped (place p v h1) (place idx' v h')"
      using less.IH [of p h1] p less.prems(5,6) step False by (simp add: h1_def)
    then show ?thesis
      unfolding e using less.prems p by (elim reheaped_exchange) auto
  qed
qed

lemma move_up_ok:
  assumes "index_ok h" "up_almost less_than idx h" "1 \<le> idx" "idx < length (m_values h)"
  shows "reheaped h (move_up less_than idx h)"
  using move_up_loop_ok [of idx "m_values h ! idx" h] place_same [OF assms(1,3,4)] index_okD(1) [OF assms(1,3,4)] assms
  by (simp add: move_up_def Let_def split: prod.splits)

lemma move_down_loop_ok:
  assumes "index_ok (place idx v h)" "down_almost less_than idx (place idx v h)" "1 \<le> idx" "idx < length (m_values h)" "0 \<le> v"
    and "move_down_loop less_than v idx h = (idx', h')"
  shows "reheaped (place idx v h) (place idx' v h')"
  using assms
proof (induction "length (m_values h) - idx" arbitrary: idx h rule: less_induct)
  case less
  define n where "n = length (m_values h)"
  define c where "c = (if 2 * idx + 1 < n \<and> less_than (m_values h ! (2 * idx + 1)) (m_values h ! (2 * idx)) then 2 * idx + 1 else 2 * idx)"
  have step: "move_down_loop less_than v idx h =
      (if n \<le> 2 * idx \<or> \<not> less_than (m_values h ! c) v then (idx, h)
       else move_down_loop less_than v c (place idx (m_values h ! c) h))"
    using less.prems(3) by (simp add: move_down_loop.simps [of _ _ idx] left_def right_def n_def c_def Let_def)
  have least: "\<not> less_than (m_values h ! i) (m_values h ! c)" if "i < n" "i div 2 = idx" for i
  proof -
    have "i = 2 * idx \<or> i = 2 * idx + 1" using that by auto
    then show ?thesis using that(1) asym unfolding c_def by auto
  qed
  define g where "g = place idx v h"
  have g: "length (m_values g) = n" "m_values g ! idx = v" "\<And>i. i \<noteq> idx \<Longrightarrow> m_values g ! i = m_values h ! i"
    using less.prems(4) by (simp_all add: g_def n_def)
  show ?case
  proof (cases "n \<le> 2 * idx \<or> \<not> less_than (m_values h ! c) v")
    case True
    have "ordered less_than g"
      unfolding ordered_def
    proof (intro allI impI)
      fix i assume i: "2 \<le> i \<and> i < length (m_values g)"
      show "\<not> less_than (m_values g ! i) (m_values g ! (i div 2))"
      proof (cases "i div 2 = idx")
        case False
        then show ?thesis using less.prems(2) i unfolding down_almost_def g_def by blast
      next
        case i': True
        then have "\<not> less_than (m_values h ! c) v" "i \<noteq> idx" using True i g(1) by auto
        then have "\<not> less_than (m_values h ! i) v"
          using neg_trans [OF least [of i]] i i' g(1) by simp
        then show ?thesis using g(2) g(3) [OF \<open>i \<noteq> idx\<close>] i' by simp
      qed
    qed
    then show ?thesis using True step less.prems(1,6) by (auto simp: reheaped_def wf_heap_def g_def)
  next
    case False
    have c: "c div 2 = idx" "c < n" "idx < c" "c \<noteq> idx" using False less.prems(3) by (auto simp: c_def)
    define h1 where "h1 = place idx (m_values h ! c) h"
    have e: "place c v h1 = exchange idx c g"
      unfolding h1_def g_def using less.prems c by (intro place_exchange) (auto simp: n_def)
    have ok: "index_ok (place c v h1)"
      unfolding e using less.prems c g(1) by (intro exchange_ok) (auto simp: g_def n_def)
    have "\<not> less_than (m_values g ! i) (m_values g ! c)" if "i < length (m_values g)" "i div 2 = idx" for i
    proof -
      have "i \<noteq> idx" using that less.prems(3) by auto
      then show ?thesis using least [of i] that g c(4) by simp
    qed
    then have "down_almost less_than c (place c v h1)"
      unfolding e using less.prems(1-4) False c g by (intro down_step) (auto simp: g_def [symmetric])
    then have "reheaped (place c v h1) (place idx' v h')"
      using less.hyps [of h1 c] ok c less.prems(3-6) step False by (auto simp: h1_def n_def)
    then show ?thesis
      unfolding e g_def [symmetric] using less.prems c g(1) by (elim reheaped_exchange) (auto simp: g_def n_def)
  qed
qed

lemma move_down_ok:
  assumes "index_ok h" "down_almost less_than idx h" "1 \<le> idx" "idx < length (m_values h)"
  shows "reheaped h (move_down less_than idx h)"
  using move_down_loop_ok [of idx "m_values h ! idx" h] place_same [OF assms(1,3,4)] index_okD(1) [OF assms(1,3,4)] assms
  by (simp add: move_down_def Let_def split: prod.splits)

end

subsection \<open>Values that enter and leave\<close>

lemma take_out:
  assumes ok: "index_ok h" and p: "1 \<le> p" "p < length (m_values h)"
  defines "n \<equiv> length (m_values h)" and "val \<equiv> m_values h ! p"
  defines "h' \<equiv> (place p (last (m_values h)) h)
    \<lparr>m_value2indices := (m_value2indices (place p (last (m_values h)) h))[nat val := 0],
     m_values := butlast (m_values (place p (last (m_values h)) h))\<rparr>"
  shows "index_ok h'" "heap_set h' = heap_set h - {val}" "length (m_values h') = n - 1"
    "length (m_value2indices h') = length (m_value2indices h)"
    "\<And>i. i < n - 1 \<Longrightarrow> m_values h' ! i = (if i = p then m_values h ! (n - 1) else m_values h ! i)"
proof -
  define l where "l = last (m_values h)"
  have l: "l = m_values h ! (n - 1)" using p last_conv_nth [of "m_values h"] by (cases "m_values h = []") (auto simp: l_def n_def)
  have n: "1 \<le> n - 1" "n - 1 < length (m_values h)" "p \<le> n - 1" using p by (simp_all add: n_def)
  note L = index_okD [OF ok n(1,2), folded l]
  note V = index_okD [OF ok p, folded val_def]
  have sep: "nat x = nat y \<longleftrightarrow> x = y" if "0 \<le> x" "0 \<le> y" for x y :: int using that by (rule eq_nat_nat_iff)
  have vals: "m_values h' = butlast ((m_values h)[p := l])" and
    table: "m_value2indices h' = (m_value2indices h)[nat l := p, nat val := 0]"
    by (simp_all add: h'_def l_def)
  show len: "length (m_values h') = n - 1" "length (m_value2indices h') = length (m_value2indices h)"
    using p by (simp_all add: vals table n_def)
  show nth: "m_values h' ! i = (if i = p then m_values h ! (n - 1) else m_values h ! i)" if "i < n - 1" for i
    using that by (simp add: vals nth_butlast n_def l[unfolded n_def] nth_list_update)
  have t: "m_value2indices h' ! v = (if v = nat val then 0 else if v = nat l then p else m_value2indices h ! v)"
    if "v < length (m_value2indices h)" for v
    using that L(2) V(2) by (simp add: table nth_list_update)
  have "heap_contains h' v \<longleftrightarrow> heap_contains h v \<and> v \<noteq> val" if "0 \<le> v" for v
  proof -
    have "m_value2indices h ! nat l \<noteq> 0" using L(3) n by simp
    then show ?thesis
      using t [of "nat v"] len(2) sep [OF that V(1)] p(1) by (auto simp: heap_contains_def split: if_splits)
  qed
  then show "heap_set h' = heap_set h - {val}" by (auto simp: heap_set_def)
  show "index_ok h'"
    unfolding index_ok_def len
  proof (intro conjI allI impI)
    show "m_values h' \<noteq> []" using n(1) len(1) by auto
  next
    fix k assume k': "1 \<le> k \<and> k < n - 1"
    then have k: "1 \<le> k" "k < length (m_values h)" unfolding n_def by linarith+
    note K = index_okD [OF ok k]
    have kl: "m_values h ! k \<noteq> l" using K(3) L(3) k' by auto
    have kv: "m_values h ! k \<noteq> val" if "k \<noteq> p" using K(3) V(3) that by auto
    have "0 \<le> m_values h' ! k \<and> nat (m_values h' ! k) < length (m_value2indices h)
      \<and> m_value2indices h' ! nat (m_values h' ! k) = k"
    proof (cases "k = p")
      case True
      then have "nat l \<noteq> nat val" using kl sep [OF L(1) V(1)] by (auto simp: val_def)
      then show ?thesis using True nth [of k] k' t [OF L(2)] L(1,2) l by simp
    next
      case False
      then have "nat (m_values h ! k) \<noteq> nat val" "nat (m_values h ! k) \<noteq> nat l"
        using kv kl sep [OF K(1) V(1)] sep [OF K(1) L(1)] by auto
      then show ?thesis using False nth [of k] k' t [OF K(2)] K by simp
    qed
    then show "0 \<le> m_values h' ! k" "nat (m_values h' ! k) < length (m_value2indices h)"
      "m_value2indices h' ! nat (m_values h' ! k) = k" by blast+
  next
    fix v assume v: "v < length (m_value2indices h)" "m_value2indices h' ! v \<noteq> 0"
    have "v \<noteq> nat val" using t [OF v(1)] v(2) by auto
    have "m_value2indices h' ! v < n - 1 \<and> m_values h' ! (m_value2indices h' ! v) = int v"
    proof (cases "v = nat l")
      case True
      then have "l \<noteq> val" using \<open>v \<noteq> nat val\<close> by auto
      then have "p < n - 1" using n(3) l by (cases "p = n - 1") (auto simp: val_def)
      then show ?thesis using True \<open>v \<noteq> nat val\<close> t [OF v(1)] nth [of p] L(1) l by simp
    next
      case False
      define k where "k = m_value2indices h ! v"
      have k: "k \<noteq> 0" "k < n" "m_values h ! k = int v"
        using ok v t [OF v(1)] False \<open>v \<noteq> nat val\<close> by (auto simp: index_ok_def k_def n_def)
      have "k \<noteq> n - 1" "k \<noteq> p" using k(3) False \<open>v \<noteq> nat val\<close> l by (auto simp: val_def)
      then show ?thesis using k nth [of k] t [OF v(1)] False \<open>v \<noteq> nat val\<close> by (simp add: k_def)
    qed
    then show "m_value2indices h' ! v < n - 1" "m_values h' ! (m_value2indices h' ! v) = int v" by simp_all
  qed
qed

lemma put_in:
  assumes ok: "index_ok h" and v: "0 \<le> v" "nat v < length (m_value2indices h)" "v \<notin> heap_set h"
  defines "n \<equiv> length (m_values h)"
  defines "h' \<equiv> h\<lparr>m_value2indices := (m_value2indices h)[nat v := n], m_values := m_values h @ [v]\<rparr>"
  shows "index_ok h'" "heap_set h' = insert v (heap_set h)"
proof -
  have n: "1 \<le> n" using ok by (auto simp: index_ok_def n_def Suc_le_eq)
  have t: "m_value2indices h' ! w = (if w = nat v then n else m_value2indices h ! w)"
    if "w < length (m_value2indices h)" for w using that v(2) by (simp add: h'_def nth_list_update)
  have len: "length (m_value2indices h') = length (m_value2indices h)" "length (m_values h') = n + 1"
    by (simp_all add: h'_def n_def)
  have nth: "m_values h' ! i = (if i < n then m_values h ! i else v)" if "i < n + 1" for i
    using that by (simp add: h'_def n_def nth_append)
  have z: "m_value2indices h ! nat v = 0" using v by (simp add: heap_set_def heap_contains_def)
  show "heap_set h' = insert v (heap_set h)"
    using t len(1) v n by (auto simp: heap_set_def heap_contains_def split: if_splits)
  show "index_ok h'"
    unfolding index_ok_def len
  proof (intro conjI allI impI)
    show "m_values h' \<noteq> []" by (simp add: h'_def)
  next
    fix k assume k: "1 \<le> k \<and> k < n + 1"
    show "0 \<le> m_values h' ! k" "nat (m_values h' ! k) < length (m_value2indices h)"
      "m_value2indices h' ! nat (m_values h' ! k) = k"
    proof (atomize (full), cases "k < n")
      case True
      note K = index_okD [OF ok, of k]
      have "m_value2indices h ! nat (m_values h ! k) \<noteq> 0" using K True k by (simp add: n_def)
      then have "nat (m_values h ! k) \<noteq> nat v" using z by metis
      then show "0 \<le> m_values h' ! k \<and> nat (m_values h' ! k) < length (m_value2indices h)
        \<and> m_value2indices h' ! nat (m_values h' ! k) = k"
        using K True k t nth by (simp add: n_def)
    next
      case False
      then show "0 \<le> m_values h' ! k \<and> nat (m_values h' ! k) < length (m_value2indices h)
        \<and> m_value2indices h' ! nat (m_values h' ! k) = k" using k v nth [of k] t by simp
    qed
  next
    fix w assume w: "w < length (m_value2indices h)" "m_value2indices h' ! w \<noteq> 0"
    have "m_value2indices h' ! w < n + 1 \<and> m_values h' ! (m_value2indices h' ! w) = int w"
    proof (cases "w = nat v")
      case True
      then show ?thesis using t [OF w(1)] nth [of n] v(1) by simp
    next
      case False
      then show ?thesis using ok w t [OF w(1)] nth by (auto simp: index_ok_def n_def)
    qed
    then show "m_value2indices h' ! w < n + 1" "m_values h' ! (m_value2indices h' ! w) = int w" by simp_all
  qed
qed

subsection \<open>The operations keep a proper heap\<close>

lemma mk_heap_ok: "wf_heap lt (mk_heap s)" "heap_set (mk_heap s) = {}" "get_bounds (mk_heap s) = s"
  by (auto simp: wf_heap_def index_ok_def ordered_def mk_heap_def set_bounds_def heap_set_def
      heap_contains_def get_bounds_def)

lemma grow_ok:
  assumes "wf_heap lt h" "length (m_value2indices h) \<le> s"
  shows "wf_heap lt (set_bounds s h)" "heap_set (set_bounds s h) = heap_set h" "get_bounds (set_bounds s h) = s"
proof -
  define n where "n = length (m_value2indices h)"
  have t: "m_value2indices (set_bounds s h) ! v = (if v < n then m_value2indices h ! v else 0)" if "v < s" for v
    using assms(2) that by (simp add: set_bounds_def nth_append n_def)
  have len: "length (m_value2indices (set_bounds s h)) = s" "n \<le> s" "m_values (set_bounds s h) = m_values h"
    using assms(2) by (simp_all add: set_bounds_def n_def)
  show "heap_set (set_bounds s h) = heap_set h"
    using t len by (auto simp: heap_set_def heap_contains_def n_def split: if_splits)
  show "get_bounds (set_bounds s h) = s" using len by (simp add: get_bounds_def)
  have "index_ok (set_bounds s h)"
    using assms(1) t len unfolding wf_heap_def index_ok_def n_def by (auto split: if_splits)
  then show "wf_heap lt (set_bounds s h)" using assms(1) len(3) by (simp add: wf_heap_def ordered_def)
qed

lemma reserve_ok:
  assumes "wf_heap lt h"
  shows "wf_heap lt (reserve s h)" "heap_set (reserve s h) = heap_set h"
    "get_bounds (reserve s h) = max s (get_bounds h)"
  using assms grow_ok [OF assms, of s] by (auto simp: reserve_def get_bounds_def)

lemma heap_empty_iff: "index_ok h \<Longrightarrow> heap_empty h \<longleftrightarrow> heap_set h = {}"
proof
  assume ok: "index_ok h" and "heap_empty h"
  then show "heap_set h = {}" using heap_set_iff [OF ok] by (auto simp: heap_empty_def)
next
  assume ok: "index_ok h" and e: "heap_set h = {}"
  then have "\<not> 1 < length (m_values h)" using heap_set_nth [OF ok, of 1] by auto
  moreover have "m_values h \<noteq> []" using ok by (simp add: index_ok_def)
  ultimately show "heap_empty h" by (cases "m_values h") (auto simp: heap_empty_def)
qed

lemma reset_ok:
  assumes "wf_heap lt h"
  shows "wf_heap lt (heap_reset h)" "heap_set (heap_reset h) = {}" "get_bounds (heap_reset h) = get_bounds h"
  using assms heap_empty_iff [of h]
  by (auto simp: heap_reset_def wf_heap_def index_ok_def ordered_def heap_set_def heap_contains_def get_bounds_def)

context heap_order
begin

lemma insert_ok:
  assumes "wf_heap less_than h" "0 \<le> v" "nat v < get_bounds h" "v \<notin> heap_set h"
  shows "wf_heap less_than (heap_insert less_than v h)" "heap_set (heap_insert less_than v h) = insert v (heap_set h)"
    "get_bounds (heap_insert less_than v h) = get_bounds h"
proof -
  define n where "n = length (m_values h)"
  define h1 where "h1 = h\<lparr>m_value2indices := (m_value2indices h)[nat v := n], m_values := m_values h @ [v]\<rparr>"
  have ok: "index_ok h1" "heap_set h1 = insert v (heap_set h)"
    unfolding h1_def n_def using assms by (intro put_in; simp add: wf_heap_def get_bounds_def)+
  have n: "1 \<le> n" using assms(1) by (auto simp: wf_heap_def index_ok_def n_def Suc_le_eq)
  have "up_almost less_than n h1"
    using assms(1) n by (auto simp: up_almost_def wf_heap_def ordered_def h1_def n_def nth_append)
  then have "reheaped h1 (move_up less_than n h1)"
    using ok(1) n by (intro move_up_ok) (auto simp: h1_def n_def)
  moreover have "heap_insert less_than v h = move_up less_than n h1"
    by (simp add: heap_insert_def h1_def n_def Let_def)
  ultimately show "wf_heap less_than (heap_insert less_than v h)"
    "heap_set (heap_insert less_than v h) = insert v (heap_set h)"
    "get_bounds (heap_insert less_than v h) = get_bounds h"
    using ok(2) by (simp_all add: reheaped_def get_bounds_def h1_def)
qed

lemma min_value_ok:
  assumes "wf_heap less_than h" "heap_set h \<noteq> {}"
  shows "min_value h \<in> heap_set h" "v \<in> heap_set h \<Longrightarrow> \<not> less_than v (min_value h)"
proof -
  have ok: "index_ok h" using assms(1) by (simp add: wf_heap_def)
  have "1 < length (m_values h)" using assms(2) heap_set_iff [OF ok] by auto
  then show "min_value h \<in> heap_set h" using heap_set_nth [OF ok, of 1] by (simp add: min_value_def)
  show "v \<in> heap_set h \<Longrightarrow> \<not> less_than v (min_value h)"
    using heap_set_iff [OF ok] root_least assms(1) by (auto simp: wf_heap_def min_value_def)
qed

text \<open>The last value moved to \<open>p\<close> is out of order there in one direction only.\<close>

lemma take_out_ordered:
  assumes "ordered less_than h" "1 \<le> p" "n = length (m_values h)" "length (m_values h') = n - 1"
    and nth: "\<And>i. i < n - 1 \<Longrightarrow> m_values h' ! i = (if i = p then m_values h ! (n - 1) else m_values h ! i)"
    and "p < n - 1"
  shows "2 \<le> p \<Longrightarrow> less_than (m_values h' ! p) (m_values h' ! (p div 2)) \<Longrightarrow> up_almost less_than p h'"
    and "2 \<le> p \<Longrightarrow> \<not> less_than (m_values h' ! p) (m_values h' ! (p div 2)) \<Longrightarrow> down_almost less_than p h'"
    and "p = 1 \<Longrightarrow> down_almost less_than p h'"
proof -
  have o: "\<And>i. 2 \<le> i \<Longrightarrow> i < n \<Longrightarrow> \<not> less_than (m_values h ! i) (m_values h ! (i div 2))"
    using assms(1,3) by (simp add: ordered_def)
  have keep: "\<not> less_than (m_values h' ! i) (m_values h' ! (i div 2))"
    if "2 \<le> i" "i < n - 1" "i \<noteq> p" "i div 2 \<noteq> p" for i
  proof -
    have "i div 2 < n - 1" using that by linarith
    then show ?thesis using nth [OF that(2)] nth [of "i div 2"] o [of i] that by simp
  qed
  have grand: "\<not> less_than (m_values h' ! i) (m_values h' ! (p div 2))"
    if "i < n - 1" "i div 2 = p" "2 \<le> p" for i
  proof -
    have ne: "i \<noteq> p" "p div 2 \<noteq> p" "2 \<le> i" "p div 2 < n - 1" using that by auto
    have "\<not> less_than (m_values h ! i) (m_values h ! p)" using o [of i] that(1,2) ne(3) by simp
    moreover have "\<not> less_than (m_values h ! p) (m_values h ! (p div 2))" using o [of p] that(3) assms(6) by simp
    ultimately have "\<not> less_than (m_values h ! i) (m_values h ! (p div 2))" by (rule neg_trans)
    moreover have "m_values h' ! i = m_values h ! i" using nth [OF that(1)] ne(1) by simp
    moreover have "m_values h' ! (p div 2) = m_values h ! (p div 2)" using nth [OF ne(4)] ne(2) by simp
    ultimately show ?thesis by simp
  qed
  show "down_almost less_than p h'" if "p = 1"
    using keep that by (auto simp: down_almost_def assms(4))
  show "down_almost less_than p h'" if "2 \<le> p" "\<not> less_than (m_values h' ! p) (m_values h' ! (p div 2))"
    using keep grand that by (auto simp: down_almost_def assms(4))
  assume p: "2 \<le> p" "less_than (m_values h' ! p) (m_values h' ! (p div 2))"
  have "\<not> less_than (m_values h' ! i) (m_values h' ! p)" if "i < n - 1" "i div 2 = p" for i
    using neg_trans [OF grand [OF that p(1)] asym [OF p(2)]] .
  then show "up_almost less_than p h'"
    using keep grand p(1) by (auto simp: up_almost_def assms(4))
qed

lemma erase_ok:
  assumes "wf_heap less_than h" "v \<in> heap_set h"
  shows "wf_heap less_than (heap_erase less_than v h)" "heap_set (heap_erase less_than v h) = heap_set h - {v}"
    "get_bounds (heap_erase less_than v h) = get_bounds h"
proof -
  have ok: "index_ok h" and ord: "ordered less_than h" using assms(1) by (simp_all add: wf_heap_def)
  define p where "p = m_value2indices h ! nat v"
  define n where "n = length (m_values h)"
  have p: "1 \<le> p" "p < length (m_values h)" "m_values h ! p = v"
    using index_okV [OF ok assms(2)] by (simp_all add: p_def)
  define h1 where "h1 = (place p (last (m_values h)) h)
    \<lparr>m_value2indices := (m_value2indices (place p (last (m_values h)) h))[nat v := 0],
     m_values := butlast (m_values (place p (last (m_values h)) h))\<rparr>"
  have last: "last (m_values h) = m_values h ! (n - 1)"
    using p last_conv_nth [of "m_values h"] by (cases "m_values h = []") (auto simp: n_def)
  note out = take_out [OF ok p(1,2), folded n_def, unfolded p(3), folded h1_def]
  have goal: "wf_heap less_than h2 \<and> heap_set h2 = heap_set h - {v} \<and> get_bounds h2 = get_bounds h"
    if "reheaped h1 h2" for h2
    using that out by (auto simp: reheaped_def get_bounds_def)
  have "wf_heap less_than (heap_erase less_than v h) \<and> heap_set (heap_erase less_than v h) = heap_set h - {v}
    \<and> get_bounds (heap_erase less_than v h) = get_bounds h"
  proof (cases "p = n - 1")
    case True
    have "place p (last (m_values h)) h = h" using place_same [OF ok p(1,2)] True last by simp
    then have "heap_erase less_than v h = h1" using True by (simp add: heap_erase_def p_def [symmetric] n_def h1_def)
    moreover have "ordered less_than h1"
      using ord out(3,5) True by (auto simp: ordered_def n_def)
    ultimately show ?thesis using out by (simp add: wf_heap_def get_bounds_def)
  next
    case False
    then have pn: "p < n - 1" using p by (simp add: n_def)
    then have pl: "p < length (m_values h1)" using out(3) by simp
    note to = take_out_ordered [OF ord p(1) n_def out(3,5) pn]
    have lastp: "m_values h1 ! p = last (m_values h)" using out(5) [OF pn] last by simp
    have erase: "heap_erase less_than v h =
        (if parent p \<noteq> 0 \<and> less_than (last (m_values h)) (m_values h1 ! parent p)
         then move_up less_than p h1 else move_down less_than p h1)"
      using False by (simp add: heap_erase_def p_def [symmetric] n_def h1_def Let_def)
    show ?thesis
    proof (cases "parent p \<noteq> 0 \<and> less_than (last (m_values h)) (m_values h1 ! parent p)")
      case True
      then have "up_almost less_than p h1" using to(1) lastp by (auto simp: parent_def)
      from goal [OF move_up_ok [OF out(1) this p(1) pl]] show ?thesis unfolding erase if_P [OF True] .
    next
      case nup: False
      have "p = 1 \<or> 2 \<le> p" using p(1) by auto
      then have "down_almost less_than p h1" using to(2,3) lastp nup by (auto simp: parent_def)
      from goal [OF move_down_ok [OF out(1) this p(1) pl]] show ?thesis unfolding erase if_not_P [OF nup] .
    qed
  qed
  then show "wf_heap less_than (heap_erase less_than v h)" "heap_set (heap_erase less_than v h) = heap_set h - {v}"
    "get_bounds (heap_erase less_than v h) = get_bounds h" by simp_all
qed

end

context heap_order
begin

lemma erase_min_ok:
  assumes "wf_heap less_than h" "heap_set h \<noteq> {}" "erase_min less_than h = (v, h')"
  shows "v = min_value h" "wf_heap less_than h'" "heap_set h' = heap_set h - {v}" "get_bounds h' = get_bounds h"
proof -
  have ok: "index_ok h" and ord: "ordered less_than h" using assms(1) by (simp_all add: wf_heap_def)
  define n where "n = length (m_values h)"
  have n: "1 < n" using assms(2) heap_set_iff [OF ok] by (auto simp: n_def)
  have p: "1 \<le> (1::nat)" "1 < length (m_values h)" using n by (simp_all add: n_def)
  show v: "v = min_value h"
    using assms(3) by (simp add: erase_min_def min_value_def Let_def split: if_splits)
  define h1 where "h1 = (place 1 (last (m_values h)) h)
    \<lparr>m_value2indices := (m_value2indices (place 1 (last (m_values h)) h))[nat v := 0],
     m_values := butlast (m_values (place 1 (last (m_values h)) h))\<rparr>"
  have val: "m_values h ! 1 = v" by (simp add: v min_value_def)
  note out = take_out [OF ok p, folded n_def, unfolded val, folded h1_def]
  have "wf_heap less_than h' \<and> heap_set h' = heap_set h - {v} \<and> get_bounds h' = get_bounds h"
  proof (cases "n = 2")
    case True
    have "last (m_values h) = v"
      using val True last_conv_nth [of "m_values h"] by (cases "m_values h = []") (auto simp: n_def)
    then have "place 1 (last (m_values h)) h = h" using place_same [OF ok p] val by simp
    then have "h' = h1"
      using True assms(3) val by (simp add: erase_min_def n_def h1_def)
    moreover have "ordered less_than h1" using out(3) True by (simp add: ordered_def)
    ultimately show ?thesis using out by (simp add: wf_heap_def get_bounds_def)
  next
    case False
    then have pn: "1 < n - 1" using n by simp
    have "down_almost less_than 1 h1" using take_out_ordered(3) [OF ord p(1) n_def out(3,5) pn] by simp
    moreover have "h' = move_down less_than 1 h1"
      using False assms(3) val by (auto simp: erase_min_def n_def h1_def Let_def)
    ultimately have "reheaped h1 h'" using move_down_ok [OF out(1)] out(3) pn by simp
    then show ?thesis using out by (simp add: reheaped_def get_bounds_def)
  qed
  then show "wf_heap less_than h'" "heap_set h' = heap_set h - {v}" "get_bounds h' = get_bounds h" by simp_all
qed

text \<open>
  The order of the heap may change: a client changes the key of one value \<open>v\<close> and tells the heap the
  direction. The order before the change is \<open>old\<close>.
\<close>

lemma key_changed:
  assumes "heap_order old" "wf_heap old h" "v \<in> heap_set h"
    and same: "\<And>u w. u \<in> heap_set h \<Longrightarrow> w \<in> heap_set h \<Longrightarrow> u \<noteq> v \<Longrightarrow> w \<noteq> v \<Longrightarrow> less_than u w = old u w"
  defines "p \<equiv> m_value2indices h ! nat v"
  shows "(\<And>u. u \<in> heap_set h \<Longrightarrow> u \<noteq> v \<Longrightarrow> less_than u v \<Longrightarrow> old u v) \<Longrightarrow> up_almost less_than p h"
    and "(\<And>u. u \<in> heap_set h \<Longrightarrow> u \<noteq> v \<Longrightarrow> less_than v u \<Longrightarrow> old v u) \<Longrightarrow> down_almost less_than p h"
proof -
  have ok: "index_ok h" and ord: "ordered old h" using assms(2) by (simp_all add: wf_heap_def)
  have p: "1 \<le> p" "p < length (m_values h)" "m_values h ! p = v"
    using index_okV [OF ok assms(3)] by (simp_all add: p_def)
  note mem = heap_set_nth [OF ok]
  have other: "m_values h ! i \<noteq> v" if "1 \<le> i" "i < length (m_values h)" "i \<noteq> p" for i
    using index_ok_inj [OF ok that(1,2) p(1,2)] that(3) p(3) by auto
  have o: "\<not> old (m_values h ! i) (m_values h ! (i div 2))" if "2 \<le> i" "i < length (m_values h)" for i
    using ord that by (simp add: ordered_def)
  have keep: "\<not> less_than (m_values h ! i) (m_values h ! (i div 2))"
    if "2 \<le> i" "i < length (m_values h)" "i \<noteq> p" "i div 2 \<noteq> p" for i
    using o [of i] same other [of i] other [of "i div 2"] mem [of i] mem [of "i div 2"] that by auto
  have grand: "\<not> less_than (m_values h ! i) (m_values h ! (p div 2))"
    if "i < length (m_values h)" "i div 2 = p" "2 \<le> p" for i
  proof -
    have ne: "i \<noteq> p" "2 \<le> i" "p div 2 \<noteq> p" "1 \<le> p div 2" "p div 2 < length (m_values h)" using that p(2) by auto
    have "\<not> old (m_values h ! i) (m_values h ! p)" using o [of i] that(1,2) ne(2) by simp
    moreover have "\<not> old (m_values h ! p) (m_values h ! (p div 2))" using o [of p] that(3) p(2) by simp
    ultimately have "\<not> old (m_values h ! i) (m_values h ! (p div 2))" by (rule heap_order.neg_trans [OF assms(1)])
    then show ?thesis
      using same [of "m_values h ! i" "m_values h ! (p div 2)"] other [of i] other [of "p div 2"]
        mem [of i] mem [of "p div 2"] that(1) ne by simp
  qed
  show "up_almost less_than p h" if up: "\<And>u. u \<in> heap_set h \<Longrightarrow> u \<noteq> v \<Longrightarrow> less_than u v \<Longrightarrow> old u v"
    unfolding up_almost_def
  proof (intro conjI allI impI)
    fix i assume i: "2 \<le> i \<and> i < length (m_values h) \<and> i \<noteq> p"
    show "\<not> less_than (m_values h ! i) (m_values h ! (i div 2))"
    proof (cases "i div 2 = p")
      case True
      then show ?thesis using up [of "m_values h ! i"] other [of i] mem [of i] o [of i] i p(3) by auto
    qed (use keep i in blast)
  qed (use grand in blast)
  show "down_almost less_than p h" if down: "\<And>u. u \<in> heap_set h \<Longrightarrow> u \<noteq> v \<Longrightarrow> less_than v u \<Longrightarrow> old v u"
    unfolding down_almost_def
  proof (intro conjI allI impI)
    fix i assume i: "2 \<le> i \<and> i < length (m_values h) \<and> i div 2 \<noteq> p"
    show "\<not> less_than (m_values h ! i) (m_values h ! (i div 2))"
    proof (cases "i = p")
      case True
      have "i div 2 \<noteq> p" using i by simp
      then show ?thesis using down [of "m_values h ! (i div 2)"] other [of "i div 2"] mem [of "i div 2"] o [of i] i p(3) True by auto
    qed (use keep i in blast)
  qed (use grand in blast)
qed

lemma changed_ok:
  assumes "heap_order old" "wf_heap old h" "v \<in> heap_set h"
    and "\<And>u w. u \<in> heap_set h \<Longrightarrow> w \<in> heap_set h \<Longrightarrow> u \<noteq> v \<Longrightarrow> w \<noteq> v \<Longrightarrow> less_than u w = old u w"
  shows "(\<And>u. u \<in> heap_set h \<Longrightarrow> u \<noteq> v \<Longrightarrow> less_than u v \<Longrightarrow> old u v) \<Longrightarrow> reheaped h (decreased less_than v h)"
    and "(\<And>u. u \<in> heap_set h \<Longrightarrow> u \<noteq> v \<Longrightarrow> less_than v u \<Longrightarrow> old v u) \<Longrightarrow> reheaped h (increased less_than v h)"
proof -
  have ok: "index_ok h" using assms(2) by (simp add: wf_heap_def)
  note p = index_okV(1,2) [OF ok assms(3)]
  show "(\<And>u. u \<in> heap_set h \<Longrightarrow> u \<noteq> v \<Longrightarrow> less_than u v \<Longrightarrow> old u v) \<Longrightarrow> reheaped h (decreased less_than v h)"
    unfolding decreased_def by (intro move_up_ok ok p key_changed(1) [OF assms])
  show "(\<And>u. u \<in> heap_set h \<Longrightarrow> u \<noteq> v \<Longrightarrow> less_than v u \<Longrightarrow> old v u) \<Longrightarrow> reheaped h (increased less_than v h)"
    unfolding increased_def by (intro move_down_ok ok p key_changed(2) [OF assms])
qed

end

subsection \<open>The tables without the order\<close>

text \<open>
  The operations keep the tables consistent even when the order is broken, whatever function
  compares the values.
\<close>

definition retabled :: "heap \<Rightarrow> heap \<Rightarrow> bool" where
  "retabled h h' \<longleftrightarrow> index_ok h' \<and> heap_set h' = heap_set h
     \<and> length (m_values h') = length (m_values h) \<and> length (m_value2indices h') = length (m_value2indices h)"

lemma retabled_exchange:
  assumes "retabled (exchange i j h) h'" "index_ok h" "1 \<le> i" "i < length (m_values h)" "1 \<le> j" "j < length (m_values h)" "i \<noteq> j"
  shows "retabled h h'"
  using assms exchange_ok [OF assms(2-)] exchange_nth(2) [OF assms(2-6)] by (simp add: retabled_def)

lemma move_up_loop_tables:
  assumes "index_ok (place idx v h)" "1 \<le> idx" "idx < length (m_values h)" "0 \<le> v"
    and "move_up_loop lt v idx h = (idx', h')"
  shows "retabled (place idx v h) (place idx' v h')"
  using assms
proof (induction idx arbitrary: h rule: less_induct)
  case (less idx)
  define p where "p = parent idx"
  note step = move_up_loop.simps [of lt v idx h, folded p_def, unfolded Let_def]
  show ?case
  proof (cases "p = 0 \<or> \<not> lt v (m_values h ! p)")
    case True
    then show ?thesis using step less.prems by (auto simp: retabled_def)
  next
    case False
    have p: "1 \<le> p" "p < idx" "p < length (m_values h)" using False less.prems by (auto simp: p_def parent_def)
    define h1 where "h1 = place idx (m_values h ! p) h"
    have e: "place p v h1 = exchange idx p (place idx v h)"
      unfolding h1_def using less.prems p by (intro place_exchange) auto
    have "index_ok (place p v h1)"
      unfolding e using less.prems p by (intro exchange_ok) auto
    then have "retabled (place p v h1) (place idx' v h')"
      using less.IH [of p h1] p less.prems(4,5) step False by (simp add: h1_def)
    then show ?thesis
      unfolding e using less.prems p by (elim retabled_exchange) auto
  qed
qed

lemma move_down_loop_tables:
  assumes "index_ok (place idx v h)" "1 \<le> idx" "idx < length (m_values h)" "0 \<le> v"
    and "move_down_loop lt v idx h = (idx', h')"
  shows "retabled (place idx v h) (place idx' v h')"
  using assms
proof (induction "length (m_values h) - idx" arbitrary: idx h rule: less_induct)
  case less
  define n where "n = length (m_values h)"
  define c where "c = (if right idx < n \<and> lt (m_values h ! right idx) (m_values h ! left idx) then right idx else left idx)"
  note step = move_down_loop.simps [of lt v idx h, folded n_def, unfolded Let_def, folded c_def]
  show ?case
  proof (cases "n \<le> left idx \<or> \<not> lt (m_values h ! c) v")
    case True
    then have "idx' = idx" "h' = h" using step less.prems(5) by (auto split: if_splits)
    then show ?thesis using less.prems(1) by (simp add: retabled_def)
  next
    case False
    have c: "c < n" "idx < c" "c \<noteq> idx" using False less.prems(2) by (auto simp: c_def left_def right_def)
    define h1 where "h1 = place idx (m_values h ! c) h"
    have e: "place c v h1 = exchange idx c (place idx v h)"
      unfolding h1_def using less.prems c by (intro place_exchange) (auto simp: n_def)
    have "index_ok (place c v h1)"
      unfolding e using less.prems c by (intro exchange_ok) (auto simp: n_def)
    moreover have "move_down_loop lt v c h1 = (idx', h')"
      using step False less.prems(2,5) by (simp add: h1_def)
    ultimately have "retabled (place c v h1) (place idx' v h')"
      using less.hyps [of h1 c] c less.prems(2-4) by (simp add: h1_def n_def)
    then show ?thesis
      unfolding e using less.prems c by (elim retabled_exchange) (auto simp: n_def)
  qed
qed

lemma move_tables:
  assumes "index_ok h" "1 \<le> idx" "idx < length (m_values h)"
  shows "retabled h (move_up lt idx h)" "retabled h (move_down lt idx h)"
  using move_up_loop_tables [of idx "m_values h ! idx" h] move_down_loop_tables [of idx "m_values h ! idx" h]
    place_same [OF assms] index_okD(1) [OF assms] assms
  by (simp_all add: move_up_def move_down_def Let_def split: prod.splits)

lemma changed_tables:
  assumes "index_ok h" "v \<in> heap_set h"
  shows "retabled h (decreased lt v h)" "retabled h (increased lt v h)"
  using move_tables [OF assms(1) index_okV(1,2) [OF assms]] by (simp_all add: decreased_def increased_def)

lemma insert_tables:
  assumes "index_ok h" "0 \<le> v" "nat v < get_bounds h" "v \<notin> heap_set h"
  shows "index_ok (heap_insert lt v h)" "heap_set (heap_insert lt v h) = insert v (heap_set h)"
    "get_bounds (heap_insert lt v h) = get_bounds h"
proof -
  define n where "n = length (m_values h)"
  define h1 where "h1 = h\<lparr>m_value2indices := (m_value2indices h)[nat v := n], m_values := m_values h @ [v]\<rparr>"
  have ok: "index_ok h1" "heap_set h1 = insert v (heap_set h)"
    unfolding h1_def n_def using assms by (intro put_in; simp add: get_bounds_def)+
  have "1 \<le> n" using assms(1) by (auto simp: index_ok_def n_def Suc_le_eq)
  then have "retabled h1 (heap_insert lt v h)"
    using move_tables(1) [OF ok(1), of n lt] by (simp add: heap_insert_def h1_def n_def Let_def)
  then show "index_ok (heap_insert lt v h)" "heap_set (heap_insert lt v h) = insert v (heap_set h)"
    "get_bounds (heap_insert lt v h) = get_bounds h"
    using ok(2) by (simp_all add: retabled_def get_bounds_def h1_def)
qed

lemma erase_tables:
  assumes ok: "index_ok h" and v: "v \<in> heap_set h"
  shows "index_ok (heap_erase lt v h)" "heap_set (heap_erase lt v h) = heap_set h - {v}"
    "get_bounds (heap_erase lt v h) = get_bounds h"
proof -
  define p where "p = m_value2indices h ! nat v"
  define n where "n = length (m_values h)"
  have p: "1 \<le> p" "p < length (m_values h)" "m_values h ! p = v"
    using index_okV [OF ok v] by (simp_all add: p_def)
  define h1 where "h1 = (place p (last (m_values h)) h)
    \<lparr>m_value2indices := (m_value2indices (place p (last (m_values h)) h))[nat v := 0],
     m_values := butlast (m_values (place p (last (m_values h)) h))\<rparr>"
  have last: "last (m_values h) = m_values h ! (n - 1)"
    using p last_conv_nth [of "m_values h"] by (cases "m_values h = []") (auto simp: n_def)
  note out = take_out [OF ok p(1,2), folded n_def, unfolded p(3), folded h1_def]
  have "retabled h1 (heap_erase lt v h)"
  proof (cases "p = n - 1")
    case True
    have "place p (last (m_values h)) h = h" using place_same [OF ok p(1,2)] True last by simp
    then have "heap_erase lt v h = h1" using True by (simp add: heap_erase_def p_def [symmetric] n_def h1_def)
    then show ?thesis using out(1) by (simp add: retabled_def)
  next
    case False
    then have "p < length (m_values h1)" using p(2) out(3) by (simp add: n_def)
    note moved = move_tables [OF out(1) p(1) this]
    have "heap_erase lt v h =
        (if parent p \<noteq> 0 \<and> lt (last (m_values h)) (m_values h1 ! parent p)
         then move_up lt p h1 else move_down lt p h1)"
      using False by (simp add: heap_erase_def p_def [symmetric] n_def h1_def Let_def)
    then show ?thesis using moved by (simp only: split: if_split) blast
  qed
  then show "index_ok (heap_erase lt v h)" "heap_set (heap_erase lt v h) = heap_set h - {v}"
    "get_bounds (heap_erase lt v h) = get_bounds h"
    using out by (simp_all add: retabled_def get_bounds_def)
qed

lemma erase_min_tables:
  assumes ok: "index_ok h" and ne: "heap_set h \<noteq> {}" and e: "erase_min lt h = (v, h')"
  shows "v = min_value h" "v \<in> heap_set h" "index_ok h'" "heap_set h' = heap_set h - {v}" "get_bounds h' = get_bounds h"
proof -
  define n where "n = length (m_values h)"
  have n: "1 < n" using ne heap_set_iff [OF ok] by (auto simp: n_def)
  have p: "1 \<le> (1::nat)" "1 < length (m_values h)" using n by (simp_all add: n_def)
  show v: "v = min_value h"
    using e by (simp add: erase_min_def min_value_def Let_def split: if_splits)
  have val: "m_values h ! 1 = v" by (simp add: v min_value_def)
  show "v \<in> heap_set h" using heap_set_nth [OF ok p] val by simp
  define h1 where "h1 = (place 1 (last (m_values h)) h)
    \<lparr>m_value2indices := (m_value2indices (place 1 (last (m_values h)) h))[nat v := 0],
     m_values := butlast (m_values (place 1 (last (m_values h)) h))\<rparr>"
  note out = take_out [OF ok p, folded n_def, unfolded val, folded h1_def]
  have "retabled h1 h'"
  proof (cases "n = 2")
    case True
    have "last (m_values h) = v"
      using val True last_conv_nth [of "m_values h"] by (cases "m_values h = []") (auto simp: n_def)
    then have "place 1 (last (m_values h)) h = h" using place_same [OF ok p] val by simp
    then have "h' = h1" using True e val by (simp add: erase_min_def n_def h1_def)
    then show ?thesis using out(1) by (simp add: retabled_def)
  next
    case False
    then have "1 < length (m_values h1)" using n out(3) by simp
    from move_tables(2) [OF out(1) p(1) this] show ?thesis
      using False e val by (auto simp: erase_min_def n_def h1_def Let_def)
  qed
  then show "index_ok h'" "heap_set h' = heap_set h - {v}" "get_bounds h' = get_bounds h"
    using out by (simp_all add: retabled_def get_bounds_def)
qed

text \<open>Where the order is not involved, the facts on proper heaps apply: a heap without an order.\<close>

lemma index_ok_wf: "index_ok h \<longleftrightarrow> wf_heap (\<lambda>_ _. False) h"
  by (simp add: wf_heap_def ordered_def)

lemma reserve_tables:
  assumes "index_ok h"
  shows "index_ok (reserve s h)" "heap_set (reserve s h) = heap_set h"
    "get_bounds (reserve s h) = max s (get_bounds h)"
  using reserve_ok [OF assms [unfolded index_ok_wf], of s] by (simp_all add: index_ok_wf)

lemma reset_tables:
  assumes "index_ok h"
  shows "index_ok (heap_reset h)" "heap_set (heap_reset h) = {}" "get_bounds (heap_reset h) = get_bounds h"
  using reset_ok [OF assms [unfolded index_ok_wf]] by (simp_all add: index_ok_wf)

text \<open>A value that is not more than its children and not less than its parent stays where it is.\<close>

lemma move_down_still:
  assumes "index_ok h" "1 \<le> idx" "idx < length (m_values h)"
    and "\<And>w. w \<in> heap_set h \<Longrightarrow> \<not> lt w (m_values h ! idx)"
  shows "move_down lt idx h = h"
proof -
  define v where "v = m_values h ! idx"
  have "move_down_loop lt v idx h = (idx, h)"
    using assms(2,4) heap_set_nth [OF assms(1), of "left idx"] heap_set_nth [OF assms(1), of "right idx"]
    by (subst move_down_loop.simps) (auto simp: Let_def v_def left_def right_def)
  then show ?thesis using place_same [OF assms(1-3)] by (simp add: move_down_def v_def Let_def)
qed

subsection \<open>The search for small values\<close>

text \<open>Position \<open>i\<close> is at or below position \<open>j\<close>.\<close>

definition below :: "nat \<Rightarrow> nat \<Rightarrow> bool" where
  "below j i \<longleftrightarrow> (\<exists>k. i div 2 ^ k = j)"

lemma below_self: "below j j"
  unfolding below_def by (intro exI [of _ 0]) simp

lemma below_children:
  assumes "1 \<le> j"
  shows "below j i \<longleftrightarrow> i = j \<or> below (2 * j) i \<or> below (2 * j + 1) i"
proof
  assume "below j i"
  then obtain k where k: "i div 2 ^ k = j" by (auto simp: below_def)
  show "i = j \<or> below (2 * j) i \<or> below (2 * j + 1) i"
  proof (cases k)
    case (Suc m)
    then have "i div 2 ^ m div 2 = j" using k by (simp only: power_Suc2 div_mult2_eq)
    then have "i div 2 ^ m = 2 * j \<or> i div 2 ^ m = 2 * j + 1" by auto
    then show ?thesis by (auto simp: below_def)
  qed (use k in simp)
next
  assume "i = j \<or> below (2 * j) i \<or> below (2 * j + 1) i"
  then consider "i = j" | k where "i div 2 ^ k = 2 * j \<or> i div 2 ^ k = 2 * j + 1" by (auto simp: below_def)
  then show "below j i"
  proof cases
    case (2 k)
    then have "i div 2 ^ k div 2 = j" by auto
    then have "i div 2 ^ Suc k = j" by (simp only: power_Suc2 div_mult2_eq)
    then show ?thesis unfolding below_def by blast
  qed (simp add: below_self)
qed

lemma below_root: "1 \<le> i \<Longrightarrow> below 1 i"
proof (induction i rule: less_induct)
  case (less i)
  show ?case
  proof (cases "i = 1")
    case False
    then have "below 1 (i div 2)" using less by simp
    then obtain k where "i div 2 div 2 ^ k = 1" by (auto simp: below_def)
    then have "i div 2 ^ Suc k = 1" by (simp add: div_mult2_eq)
    then show ?thesis unfolding below_def by blast
  qed (simp add: below_self)
qed

lemma below_ge: "below j i \<Longrightarrow> j \<le> i"
  by (auto simp: below_def)

lemma check_invariant_core:
  assumes "1 \<le> j" "index_ok h" "ordered lt h"
  shows "check_invariant_core lt h j"
  using assms(1)
proof (induction "length (m_values h) - j" arbitrary: j rule: less_induct)
  case less
  have "2 \<le> j" if "parent j \<noteq> 0" using that by (auto simp: parent_def)
  then show ?case
    using less index_okD(3) [OF assms(2), of j] assms(3)
    by (subst check_invariant_core.simps) (auto simp: left_def right_def ordered_def parent_def)
qed

context heap_order
begin

lemma below_pruned:
  assumes "ordered less_than h" "1 \<le> j" "j < length (m_values h)" "less_than v (m_values h ! j)"
    and "below j i" "i < length (m_values h)"
  shows "less_than v (m_values h ! i)"
proof -
  obtain k where "i div 2 ^ k = j" using assms(5) by (auto simp: below_def)
  then show ?thesis
    using assms(6)
  proof (induction k arbitrary: i)
    case 0
    then show ?case using assms(4) by simp
  next
    case (Suc k)
    have "i div 2 div 2 ^ k = j" "i div 2 < length (m_values h)" using Suc.prems by (simp_all add: div_mult2_eq)
    then have "less_than v (m_values h ! (i div 2))" using Suc.IH by blast
    moreover have "2 \<le> i"
    proof (rule ccontr)
      assume "\<not> 2 \<le> i"
      then have "i div 2 = 0" by simp
      then show False using \<open>i div 2 div 2 ^ k = j\<close> assms(2) by simp
    qed
    ultimately show ?case using below_greater [OF assms(1) _ Suc.prems(2)] by blast
  qed
qed

text \<open>The search ends: a position weighs more than its two children together.\<close>

lemma find_le_loop_ok:
  assumes "ordered less_than h" "\<forall>j \<in> set todo. 1 \<le> j"
  shows "\<exists>r. find_le_loop less_than h v todo res = Some (res @ r)
    \<and> set r = {m_values h ! i |i. i < length (m_values h) \<and> (\<exists>j \<in> set todo. below j i) \<and> \<not> less_than v (m_values h ! i)}"
  using assms(2)
proof (induction "\<Sum>j\<leftarrow>todo. 3 ^ (length (m_values h) - j) :: nat" arbitrary: todo res rule: less_induct)
  case less
  define n where "n = length (m_values h)"
  show ?case
  proof (cases todo)
    case Nil
    then show ?thesis by (simp add: find_le_loop.simps)
  next
    case (Cons j rest)
    have j: "1 \<le> j" "\<forall>j \<in> set rest. 1 \<le> j" using less.prems Cons by auto
    show ?thesis
    proof (cases "j < n \<and> \<not> less_than v (m_values h ! j)")
      case True
      obtain d where d: "n - j = Suc d" using True by (cases "n - j") auto
      have "(3::nat) ^ (n - (2 * j + 1)) + 3 ^ (n - 2 * j) \<le> 3 ^ d + 3 ^ d"
        using d j(1) by (intro add_mono power_increasing) auto
      also have "\<dots> < 3 ^ (n - j)" by (simp add: d)
      finally obtain r where r: "find_le_loop less_than h v (right j # left j # rest) (res @ [m_values h ! j]) = Some (res @ [m_values h ! j] @ r)"
        "set r = {m_values h ! i |i. i < n \<and> (\<exists>j \<in> set (right j # left j # rest). below j i) \<and> \<not> less_than v (m_values h ! i)}"
        using less.hyps [of "right j # left j # rest" "res @ [m_values h ! j]"] j
        by (auto simp: Cons left_def right_def n_def)
      have "set (m_values h ! j # r)
          = {m_values h ! i |i. i < n \<and> (\<exists>j \<in> set todo. below j i) \<and> \<not> less_than v (m_values h ! i)}"
        using True by (auto simp: r(2) Cons below_children [OF j(1)] left_def right_def)
      then show ?thesis
        using True r(1) by (intro exI [of _ "m_values h ! j # r"]) (simp add: find_le_loop.simps [of _ _ _ "j # rest"] Cons n_def)
    next
      case False
      have "\<not> (below j i \<and> \<not> less_than v (m_values h ! i))" if "i < n" for i
        using False below_pruned [OF assms(1) j(1), of v i] below_ge [of j i] that by (auto simp: n_def)
      then have "{m_values h ! i |i. i < n \<and> (\<exists>j \<in> set todo. below j i) \<and> \<not> less_than v (m_values h ! i)}
          = {m_values h ! i |i. i < n \<and> (\<exists>j \<in> set rest. below j i) \<and> \<not> less_than v (m_values h ! i)}"
        by (auto simp: Cons)
      moreover have "find_le_loop less_than h v todo res = find_le_loop less_than h v rest res"
        using False by (auto simp: find_le_loop.simps [of _ _ _ "j # rest"] Cons n_def)
      ultimately show ?thesis using less.hyps [of rest res] j(2) by (simp add: Cons n_def)
    qed
  qed
qed

lemma find_le_ok:
  assumes "wf_heap less_than h"
  shows "\<exists>r. find_le less_than h v = Some r \<and> set r = {w \<in> heap_set h. \<not> less_than v w}"
proof -
  have ok: "index_ok h" "ordered less_than h" using assms by (simp_all add: wf_heap_def)
  have "{m_values h ! i |i. i < length (m_values h) \<and> below 1 i \<and> \<not> less_than v (m_values h ! i)}
      = {w \<in> heap_set h. \<not> less_than v w}"
    using heap_set_iff [OF ok(1)] below_root below_ge by (auto simp: Suc_le_eq) fastforce+
  then show ?thesis using find_le_loop_ok [OF ok(2), of "[1]" v "[]"] by (simp add: find_le_def)
qed

end

text \<open>The check of the source visits every position.\<close>

lemma check_invariant_core_visits:
  assumes "check_invariant_core lt h j" "1 \<le> j" "below j i" "i < length (m_values h)"
  shows "parent i = 0 \<or> \<not> lt (m_values h ! i) (m_values h ! parent i)"
  using assms
proof (induction lt h j rule: check_invariant_core.induct)
  case (1 lt h j)
  have "j < length (m_values h)" using below_ge [OF 1(5)] 1(6) by simp
  then have c: "parent j = 0 \<or> \<not> lt (m_values h ! j) (m_values h ! parent j)"
    "check_invariant_core lt h (left j)" "check_invariant_core lt h (right j)"
    using 1(3,4) by (simp_all add: check_invariant_core.simps [of lt h j])
  consider "i = j" | "below (left j) i" | "below (right j) i"
    using 1(5) below_children [OF 1(4)] by (auto simp: left_def right_def)
  then show ?case
  proof cases
    case 2
    then show ?thesis using 1(1) c(2) 1(4,6) \<open>j < length (m_values h)\<close> by (simp add: left_def)
  next
    case 3
    then show ?thesis using 1(2) c(3) 1(4,6) \<open>j < length (m_values h)\<close> by (simp add: right_def)
  qed (use c in simp)
qed

subsection \<open>An order in use\<close>

text \<open>The variables of the simplex solver are compared as numbers.\<close>

definition var_lt :: "int \<Rightarrow> int \<Rightarrow> bool" where
  "var_lt v1 v2 = (v1 < v2)"

interpretation var_lt: heap_order var_lt
  by unfold_locales (auto simp: var_lt_def)

subsection \<open>Properties\<close>

text \<open>C27: the heap implements a finite set with its least element: inserting and erasing change the set
  by that value, \<open>erase_min\<close> returns a least value and removes it, membership is what the table says,
  and every operation leaves a proper heap with the same bounds.\<close>

theorem heap_refines_set:
  assumes "heap_order lt" "wf_heap lt h" "0 \<le> v" "nat v < get_bounds h"
  shows "heap_contains h v = (v \<in> heap_set h)
    \<and> (v \<notin> heap_set h \<longrightarrow> wf_heap lt (heap_insert lt v h)
        \<and> heap_set (heap_insert lt v h) = insert v (heap_set h) \<and> get_bounds (heap_insert lt v h) = get_bounds h)
    \<and> (v \<in> heap_set h \<longrightarrow> wf_heap lt (heap_erase lt v h)
        \<and> heap_set (heap_erase lt v h) = heap_set h - {v} \<and> get_bounds (heap_erase lt v h) = get_bounds h)
    \<and> heap_empty h = (heap_set h = {})
    \<and> (\<not> heap_empty h \<longrightarrow> (case erase_min lt h of (m, h') \<Rightarrow>
        m = min_value h \<and> m \<in> heap_set h \<and> (\<forall>w \<in> heap_set h. \<not> lt w m)
        \<and> wf_heap lt h' \<and> heap_set h' = heap_set h - {m} \<and> get_bounds h' = get_bounds h))"
proof (intro conjI impI)
  have ok: "index_ok h" using assms(2) by (simp add: wf_heap_def)
  show "heap_contains h v = (v \<in> heap_set h)" using assms(3) by (simp add: heap_set_def)
  show e: "heap_empty h = (heap_set h = {})" by (rule heap_empty_iff [OF ok])
  obtain m h' where m: "erase_min lt h = (m, h')" by force
  assume "\<not> heap_empty h"
  then have ne: "heap_set h \<noteq> {}" using e by simp
  show "case erase_min lt h of (m, h') \<Rightarrow> m = min_value h \<and> m \<in> heap_set h \<and> (\<forall>w \<in> heap_set h. \<not> lt w m)
      \<and> wf_heap lt h' \<and> heap_set h' = heap_set h - {m} \<and> get_bounds h' = get_bounds h"
    unfolding m prod.case heap_order.erase_min_ok(1) [OF assms(1,2) ne m]
    using heap_order.min_value_ok [OF assms(1,2) ne] heap_order.erase_min_ok [OF assms(1,2) ne m] by simp
qed (use heap_order.insert_ok [OF assms(1-4)] heap_order.erase_ok [OF assms(1,2)] in simp_all)

theorem heap_refines_set_witness:
  "heap_set (heap_insert var_lt 2 (mk_heap 4)) = {2}
    \<and> fst (erase_min var_lt (heap_insert var_lt 1 (heap_insert var_lt 3 (heap_insert var_lt 2 (mk_heap 4))))) = 1"
proof -
  have "heap_set (heap_insert var_lt 2 (mk_heap 4)) = {2}"
    using heap_refines_set [of var_lt "mk_heap 4" 2] var_lt.heap_order_axioms mk_heap_ok by simp
  moreover have "fst (erase_min var_lt (heap_insert var_lt 1 (heap_insert var_lt 3 (heap_insert var_lt 2 (mk_heap 4))))) = 1"
    by code_simp
  ultimately show ?thesis ..
qed

text \<open>when the key of one value changes, telling the heap the direction repairs it: the heap is proper
  for the new order and holds the same values.\<close>

lemma heap_key_change:
  assumes "heap_order old" "heap_order lt" "wf_heap old h" "v \<in> heap_set h"
    and "\<forall>u \<in> heap_set h - {v}. \<forall>w \<in> heap_set h - {v}. lt u w = old u w"
  shows "((\<forall>u \<in> heap_set h - {v}. lt u v \<longrightarrow> old u v) \<longrightarrow>
        wf_heap lt (decreased lt v h) \<and> heap_set (decreased lt v h) = heap_set h)
    \<and> ((\<forall>u \<in> heap_set h - {v}. lt v u \<longrightarrow> old v u) \<longrightarrow>
        wf_heap lt (increased lt v h) \<and> heap_set (increased lt v h) = heap_set h)"
  using heap_order.changed_ok [OF assms(2,1,3,4)] heap_order.reheaped_def [OF assms(2)] assms(5) by blast

text \<open>The key of 2 drops below the key of 1.\<close>

definition sunk_lt :: "int \<Rightarrow> int \<Rightarrow> bool" where
  "sunk_lt u w = ((if u = 2 then 0 else u) < (if w = 2 then 0 else w))"

lemma heap_key_change_witness:
  "wf_heap sunk_lt (decreased sunk_lt 2 (heap_insert var_lt 2 (heap_insert var_lt 1 (mk_heap 4))))
    \<and> min_value (decreased sunk_lt 2 (heap_insert var_lt 2 (heap_insert var_lt 1 (mk_heap 4)))) = 2
    \<and> min_value (heap_insert var_lt 2 (heap_insert var_lt 1 (mk_heap 4))) = 1"
proof -
  have o: "heap_order sunk_lt" by unfold_locales (auto simp: sunk_lt_def)
  define h where "h = heap_insert var_lt 1 (mk_heap 4)"
  have h: "wf_heap var_lt h" "heap_set h = {1}" "get_bounds h = 4"
    unfolding h_def using var_lt.insert_ok [of "mk_heap 4" 1] mk_heap_ok by simp_all
  have h2: "wf_heap var_lt (heap_insert var_lt 2 h)" "2 \<in> heap_set (heap_insert var_lt 2 h)"
    using var_lt.insert_ok [OF h(1), of 2] h by simp_all
  have "wf_heap sunk_lt (decreased sunk_lt 2 (heap_insert var_lt 2 h))"
    using heap_key_change [OF var_lt.heap_order_axioms o h2] by (simp add: sunk_lt_def var_lt_def)
  moreover have "min_value (decreased sunk_lt 2 (heap_insert var_lt 2 h)) = 2"
    "min_value (heap_insert var_lt 2 h) = 1" unfolding h_def by code_simp+
  ultimately show ?thesis by (simp add: h_def)
qed

text \<open>the search returns exactly the values that are not greater than the bound, and it ends.\<close>

lemma find_le_correct:
  assumes "heap_order lt" "wf_heap lt h"
  shows "\<exists>r. find_le lt h v = Some r \<and> set r = {w \<in> heap_set h. \<not> lt v w}"
  using heap_order.find_le_ok [OF assms] .

lemma find_le_correct_witness:
  "\<exists>r. find_le var_lt (mk_heap 4) 2 = Some r \<and> set r = {}"
  using find_le_correct [OF var_lt.heap_order_axioms mk_heap_ok(1), of 4 2] mk_heap_ok(2) by simp

text \<open>the invariant check of the source holds exactly when the order does, given the table.\<close>

lemma check_invariant_correct:
  assumes "index_ok h"
  shows "check_invariant lt h = wf_heap lt h"
proof
  assume c: "check_invariant lt h"
  have "\<not> lt (m_values h ! i) (m_values h ! (i div 2))" if "2 \<le> i" "i < length (m_values h)" for i
    using check_invariant_core_visits [OF c [unfolded check_invariant_def] _ below_root that(2)] that
    by (auto simp: parent_def)
  then show "wf_heap lt h" using assms by (simp add: wf_heap_def ordered_def)
next
  assume "wf_heap lt h"
  then show "check_invariant lt h"
    using check_invariant_core [of 1 h lt] by (simp add: wf_heap_def check_invariant_def)
qed

lemma check_invariant_correct_witness:
  "check_invariant var_lt (mk_heap 3) \<and> \<not> check_invariant var_lt \<lparr>m_values = [- 1, 1, 0], m_value2indices = [2, 1]\<rparr>"
proof -
  have "check_invariant var_lt (mk_heap 3)"
    using check_invariant_correct [of "mk_heap 3" var_lt] mk_heap_ok(1) [of var_lt 3] by (simp add: wf_heap_def)
  moreover have "\<not> check_invariant var_lt \<lparr>m_values = [- 1, 1, 0], m_value2indices = [2, 1]\<rparr>" by code_simp
  ultimately show ?thesis ..
qed

end
