(* ===== verification/Var_Queue.thy ===== *)
theory Var_Queue
  imports Heap Word_Lists
begin

text \<open>
  \<open>util/var_queue.h\<close>: the queue of the decision variables of the SAT solver, a heap ordered by the
  activities that the solver keeps, and the functions of \<open>sat/sat_solver\<close> that change activities or
  the queue, with the choice of the next decision variable. The
  queue refers to the solver's vector of activities, which is an argument here. The most active
  variable is the least of the heap.
\<close>

subsection \<open>The queue\<close>

definition act_lt :: "u32 list \<Rightarrow> int \<Rightarrow> int \<Rightarrow> bool" where
  "act_lt act v1 v2 = (act ! nat v2 < act ! nat v1)"

definition mk_var_queue :: heap where
  "mk_var_queue = mk_heap 128"

definition activity_increased_eh :: "u32 list \<Rightarrow> int \<Rightarrow> heap \<Rightarrow> heap" where
  "activity_increased_eh act v q = (if heap_contains q v then decreased (act_lt act) v q else q)"

definition activity_changed_eh :: "u32 list \<Rightarrow> int \<Rightarrow> bool \<Rightarrow> heap \<Rightarrow> heap" where
  "activity_changed_eh act v up q =
     (if heap_contains q v then
        (if up then decreased (act_lt act) v q else increased (act_lt act) v q)
      else q)"

definition unassign_var_eh :: "u32 list \<Rightarrow> int \<Rightarrow> heap \<Rightarrow> heap" where
  "unassign_var_eh act v q = (if \<not> heap_contains q v then heap_insert (act_lt act) v q else q)"

definition mk_var_eh :: "u32 list \<Rightarrow> int \<Rightarrow> heap \<Rightarrow> heap" where
  "mk_var_eh act v q = unassign_var_eh act v (reserve (nat v + 1) q)"

definition del_var_eh :: "u32 list \<Rightarrow> int \<Rightarrow> heap \<Rightarrow> heap" where
  "del_var_eh act v q = (if heap_contains q v then heap_erase (act_lt act) v q else q)"

definition next_var :: "u32 list \<Rightarrow> heap \<Rightarrow> int \<times> heap" where
  "next_var act q = erase_min (act_lt act) q"

definition min_var :: "heap \<Rightarrow> int" where
  "min_var q = min_value q"

definition more_active :: "u32 list \<Rightarrow> int \<Rightarrow> int \<Rightarrow> bool" where
  "more_active act v1 v2 = act_lt act v1 v2"

subsection \<open>The activities of the solver\<close>

text \<open>The part of the solver's state that the decisions depend on: the activities, the increment, the
  conflict count, for each variable the count when it was unassigned last, and the queue.\<close>

record activity =
  m_activity :: "u32 list"
  m_activity_inc :: u32
  m_conflict :: u32
  m_canceled :: "u64 list"
  m_case_split_queue :: heap

abbreviation num_vars :: "activity \<Rightarrow> nat" where
  "num_vars s \<equiv> length (m_activity s)"

definition rescale_activity :: "activity \<Rightarrow> activity" where
  "rescale_activity s =
     s\<lparr>m_activity := map (drop_bit 14) (m_activity s), m_activity_inc := drop_bit 14 (m_activity_inc s)\<rparr>"

definition inc_activity :: "int \<Rightarrow> activity \<Rightarrow> activity" where
  "inc_activity v s =
     (let act = m_activity s ! nat v + m_activity_inc s;
          s = s\<lparr>m_activity := (m_activity s)[nat v := act]\<rparr>;
          s = s\<lparr>m_case_split_queue := activity_increased_eh (m_activity s) v (m_case_split_queue s)\<rparr>
      in if 2 ^ 24 < act then rescale_activity s else s)"

text \<open>The queue is told of the change only for a variable that is neither eliminated nor assigned.\<close>

definition set_activity :: "bool \<Rightarrow> bool \<Rightarrow> int \<Rightarrow> u32 \<Rightarrow> activity \<Rightarrow> activity" where
  "set_activity eliminated undef v new_act s =
     (let old_act = m_activity s ! nat v;
          s = s\<lparr>m_activity := (m_activity s)[nat v := new_act]\<rparr>
      in if \<not> eliminated \<and> undef \<and> new_act \<noteq> old_act then
           s\<lparr>m_case_split_queue := activity_changed_eh (m_activity s) v (old_act < new_act) (m_case_split_queue s)\<rparr>
         else s)"

text \<open>\<open>mk_var\<close> appends a variable with activity 0 or reuses a freed one, which enters the queue in both
  cases; \<open>shrink_vars\<close> removes the variables from \<open>n\<close> on. \<open>copy\<close> empties the vectors and the queue, makes
  the variables anew and passes on the activities of the source, with a report to the queue that
  always says that the activity fell.\<close>

definition mk_var :: "activity \<Rightarrow> activity" where
  "mk_var s =
     (let v = int (num_vars s);
          s = s\<lparr>m_activity := m_activity s @ [0], m_canceled := m_canceled s @ [0]\<rparr>
      in s\<lparr>m_case_split_queue := mk_var_eh (m_activity s) v (m_case_split_queue s)\<rparr>)"

definition reset_var :: "int \<Rightarrow> activity \<Rightarrow> activity" where
  "reset_var v s =
     (let s = s\<lparr>m_activity := (m_activity s)[nat v := 0], m_canceled := (m_canceled s)[nat v := 0]\<rparr>
      in s\<lparr>m_case_split_queue := mk_var_eh (m_activity s) v (m_case_split_queue s)\<rparr>)"

definition shrink_vars :: "nat \<Rightarrow> activity \<Rightarrow> activity" where
  "shrink_vars n s =
     s\<lparr>m_case_split_queue :=
          fold (\<lambda>w. del_var_eh (m_activity s) (int w)) (rev [n..<num_vars s]) (m_case_split_queue s),
       m_activity := take n (m_activity s)\<rparr>"

definition copy_reset :: "activity \<Rightarrow> activity" where
  "copy_reset s =
     s\<lparr>m_activity := [], m_canceled := [], m_case_split_queue := heap_reset (m_case_split_queue s)\<rparr>"

definition inherit_activity :: "int \<Rightarrow> u32 \<Rightarrow> activity \<Rightarrow> activity" where
  "inherit_activity v src_act s =
     (let s = s\<lparr>m_activity := (m_activity s)[nat v := src_act]\<rparr>
      in s\<lparr>m_case_split_queue := activity_changed_eh (m_activity s) v False (m_case_split_queue s)\<rparr>)"

subsection \<open>The next decision\<close>

text \<open>
  \<open>solver::next_var\<close>. The arguments \<open>elim\<close> and \<open>undef\<close> tell which variables are eliminated and
  unassigned. The factor \<open>pow(0.95, age)\<close> of anti-exploration is a floating point number; \<open>cool\<close> stands
  for the conversion of the product with the activity, about which nothing is assumed. \<open>random\<close> is the
  random number if a random split is due. The loops are partial functions.
\<close>

definition age :: "activity \<Rightarrow> int \<Rightarrow> u64" where
  "age s v = ucast (m_conflict s) - m_canceled s ! nat v"

definition cool_down :: "(u32 \<Rightarrow> u64 \<Rightarrow> u32) \<Rightarrow> (int \<Rightarrow> bool) \<Rightarrow> (int \<Rightarrow> bool) \<Rightarrow> int \<Rightarrow> activity \<Rightarrow> activity" where
  "cool_down cool elim undef v s =
     (let s = set_activity (elim v) (undef v) v (cool (m_activity s ! nat v) (age s v)) s
      in s\<lparr>m_canceled := (m_canceled s)[nat v := ucast (m_conflict s)]\<rparr>)"

partial_function (option) anti_explore ::
  "(u32 \<Rightarrow> u64 \<Rightarrow> u32) \<Rightarrow> (int \<Rightarrow> bool) \<Rightarrow> (int \<Rightarrow> bool) \<Rightarrow> activity \<Rightarrow> activity option" where
  "anti_explore cool elim undef s =
     (let v = min_var (m_case_split_queue s)
      in if 0 < age s v then anti_explore cool elim undef (cool_down cool elim undef v s) else Some s)"

partial_function (option) decide ::
  "bool \<Rightarrow> (u32 \<Rightarrow> u64 \<Rightarrow> u32) \<Rightarrow> (int \<Rightarrow> bool) \<Rightarrow> (int \<Rightarrow> bool) \<Rightarrow> activity \<Rightarrow> (int option \<times> activity) option" where
  "decide anti cool elim undef s =
     (if heap_empty (m_case_split_queue s) then Some (None, s)
      else (case (if anti then anti_explore cool elim undef s else Some s) of
              None \<Rightarrow> None
            | Some s \<Rightarrow>
                (case next_var (m_activity s) (m_case_split_queue s) of (v, q) \<Rightarrow>
                   if undef v \<and> \<not> elim v then Some (Some v, s\<lparr>m_case_split_queue := q\<rparr>)
                   else decide anti cool elim undef (s\<lparr>m_case_split_queue := q\<rparr>))))"

declare anti_explore.simps [code] decide.simps [code]

definition solver_next_var ::
  "nat option \<Rightarrow> bool \<Rightarrow> (u32 \<Rightarrow> u64 \<Rightarrow> u32) \<Rightarrow> (int \<Rightarrow> bool) \<Rightarrow> (int \<Rightarrow> bool) \<Rightarrow> activity \<Rightarrow> (int option \<times> activity) option" where
  "solver_next_var random anti cool elim undef s =
     (case random of
        None \<Rightarrow> decide anti cool elim undef s
      | Some r \<Rightarrow>
          if num_vars s = 0 then Some (None, s)
          else (let v = int (r mod num_vars s)
                in if undef v \<and> \<not> elim v then Some (Some v, s) else decide anti cool elim undef s))"

subsection \<open>The order by activity\<close>

interpretation act: heap_order "act_lt act" for act
  by unfold_locales (auto simp: act_lt_def)

text \<open>The queue is a heap for the activities, of variables that have one, with room for all of them.\<close>

definition queue_ok :: "u32 list \<Rightarrow> heap \<Rightarrow> bool" where
  "queue_ok act q \<longleftrightarrow> wf_heap (act_lt act) q \<and> (\<forall>v \<in> heap_set q. nat v < length act) \<and> length act \<le> get_bounds q"

text \<open>What remains when the order is broken: the tables are consistent, and the variables exist.\<close>

definition tables_ok :: "nat \<Rightarrow> heap \<Rightarrow> bool" where
  "tables_ok n q \<longleftrightarrow> index_ok q \<and> (\<forall>v \<in> heap_set q. nat v < n) \<and> n \<le> get_bounds q"

lemma queue_ok_tables: "queue_ok act q \<longleftrightarrow> tables_ok (length act) q \<and> ordered (act_lt act) q"
  by (auto simp: queue_ok_def tables_ok_def wf_heap_def)

lemma tables_okD:
  assumes "tables_ok n q"
  shows "index_ok q" "\<And>v. v \<in> heap_set q \<Longrightarrow> nat v < n" "n \<le> get_bounds q"
  using assms by (simp_all add: tables_ok_def)

lemma queue_okD:
  assumes "queue_ok act q"
  shows "wf_heap (act_lt act) q" "\<And>v. v \<in> heap_set q \<Longrightarrow> nat v < length act" "length act \<le> get_bounds q"
  using assms by (simp_all add: queue_ok_def)

lemma new_queue_ok: "queue_ok [] mk_var_queue" "heap_set mk_var_queue = {}"
  by (simp_all add: queue_ok_def mk_var_queue_def mk_heap_ok)

lemma contains_iff: "0 \<le> v \<Longrightarrow> heap_contains q v \<longleftrightarrow> v \<in> heap_set q"
  by (simp add: heap_set_def)

lemma heap_set_nonneg: "v \<in> heap_set q \<Longrightarrow> 0 \<le> v"
  by (simp add: heap_set_def)

lemma changed_queue:
  assumes q: "queue_ok act q" and v: "0 \<le> v" "nat v < length act"
    and up: "if up then act ! nat v \<le> a else a \<le> act ! nat v"
  defines "act' \<equiv> act[nat v := a]"
  shows "queue_ok act' (activity_changed_eh act' v up q)" "heap_set (activity_changed_eh act' v up q) = heap_set q"
proof -
  note Q = queue_okD [OF q]
  have nth: "act' ! nat u = (if u = v then a else act ! nat u)" if "0 \<le> u" for u
    using that v by (auto simp: act'_def nth_list_update eq_nat_nat_iff)
  have same: "act_lt act' u w = act_lt act u w" if "u \<in> heap_set q" "w \<in> heap_set q" "u \<noteq> v" "w \<noteq> v" for u w
    using that heap_set_nonneg by (simp add: act_lt_def nth)
  have "queue_ok act' (activity_changed_eh act' v up q) \<and> heap_set (activity_changed_eh act' v up q) = heap_set q"
  proof (cases "v \<in> heap_set q")
    case True
    note ch = act.changed_ok [OF act.heap_order_axioms Q(1) True same]
    have "act.reheaped act' q (activity_changed_eh act' v up q)"
    proof (cases up)
      case True
      have "act.reheaped act' q (decreased (act_lt act') v q)"
        using up True v heap_set_nonneg by (intro ch(1)) (auto simp: act_lt_def nth)
      then show ?thesis using True \<open>v \<in> heap_set q\<close> contains_iff [OF v(1)] by (simp add: activity_changed_eh_def)
    next
      case False
      have "act.reheaped act' q (increased (act_lt act') v q)"
        using up False v heap_set_nonneg by (intro ch(2)) (auto simp: act_lt_def nth)
      then show ?thesis using False \<open>v \<in> heap_set q\<close> contains_iff [OF v(1)] by (simp add: activity_changed_eh_def)
    qed
    then show ?thesis using Q(2,3) by (simp add: act.reheaped_def queue_ok_def get_bounds_def act'_def)
  next
    case False
    have "wf_heap (act_lt act') q" using Q(1) by (rule wf_heap_weaken) (use same False in blast)
    then show ?thesis
      using False contains_iff [OF v(1)] Q(2,3) by (simp add: activity_changed_eh_def queue_ok_def act'_def)
  qed
  then show "queue_ok act' (activity_changed_eh act' v up q)" "heap_set (activity_changed_eh act' v up q) = heap_set q"
    by simp_all
qed

lemma unassign_queue:
  assumes "queue_ok act q" "0 \<le> v" "nat v < length act"
  shows "queue_ok act (unassign_var_eh act v q)" "heap_set (unassign_var_eh act v q) = insert v (heap_set q)"
  using act.insert_ok [OF queue_okD(1) [OF assms(1)] assms(2)] queue_okD [OF assms(1)] assms contains_iff [OF assms(2)]
  by (auto simp: unassign_var_eh_def queue_ok_def)

lemma del_queue:
  assumes "queue_ok act q" "0 \<le> v"
  shows "queue_ok act (del_var_eh act v q)" "heap_set (del_var_eh act v q) = heap_set q - {v}"
  using act.erase_ok [OF queue_okD(1) [OF assms(1)]] queue_okD [OF assms(1)] contains_iff [OF assms(2)]
  by (auto simp: del_var_eh_def queue_ok_def)

lemma next_queue:
  assumes "queue_ok act q" "\<not> heap_empty q" "next_var act q = (v, q')"
  shows "queue_ok act q'" "heap_set q' = heap_set q - {v}" "v \<in> heap_set q" "v = min_var q"
    "w \<in> heap_set q \<Longrightarrow> \<not> more_active act w v"
proof -
  note Q = queue_okD [OF assms(1)]
  have "index_ok q" using Q(1) by (simp add: wf_heap_def)
  then have ne: "heap_set q \<noteq> {}" using assms(2) heap_empty_iff by blast
  note e = act.erase_min_ok [OF Q(1) ne assms(3) [unfolded next_var_def]]
  show "queue_ok act q'" "heap_set q' = heap_set q - {v}" "v \<in> heap_set q" "v = min_var q"
    "w \<in> heap_set q \<Longrightarrow> \<not> more_active act w v"
    using e act.min_value_ok [OF Q(1) ne] Q(2,3) by (auto simp: queue_ok_def min_var_def more_active_def)
qed

text \<open>Halving all activities several times keeps their order up to ties.\<close>

lemma rescale_queue:
  assumes "queue_ok act q"
  shows "queue_ok (map (drop_bit 14) act) q"
proof -
  note Q = queue_okD [OF assms]
  have mono: "drop_bit 14 x \<le> drop_bit 14 y" if "x \<le> y" for x y :: u32
    using that by (simp only: word_le_nat_alt unat_drop_bit_32 div_le_mono)
  have "wf_heap (act_lt (map (drop_bit 14) act)) q"
    using Q(1) by (rule wf_heap_weaken) (use Q(2) mono in \<open>auto simp: act_lt_def not_le [symmetric]\<close>)
  then show ?thesis using Q by (simp add: queue_ok_def)
qed

lemma reset_queue:
  assumes "queue_ok act q"
  shows "queue_ok act (heap_reset q)" "heap_set (heap_reset q) = {}"
  using reset_ok [OF queue_okD(1) [OF assms]] queue_okD(3) [OF assms] by (simp_all add: queue_ok_def)

lemma new_var_queue:
  assumes "queue_ok act q"
  defines "v \<equiv> int (length act)"
  shows "queue_ok (act @ [a]) (mk_var_eh (act @ [a]) v q)" "heap_set (mk_var_eh (act @ [a]) v q) = insert v (heap_set q)"
proof -
  note Q = queue_okD [OF assms(1)]
  have "wf_heap (act_lt (act @ [a])) q"
    using Q(1) by (rule wf_heap_weaken) (use Q(2) in \<open>auto simp: act_lt_def nth_append\<close>)
  note r = reserve_ok [OF this, of "nat v + 1"]
  have "queue_ok (act @ [a]) (reserve (nat v + 1) q)"
    using r Q(2) by (auto simp: queue_ok_def v_def less_Suc_eq)
  from unassign_queue [OF this] r(2) show "queue_ok (act @ [a]) (mk_var_eh (act @ [a]) v q)"
    "heap_set (mk_var_eh (act @ [a]) v q) = insert v (heap_set q)"
    by (simp_all add: mk_var_eh_def v_def)
qed

lemma reset_var_queue:
  assumes "queue_ok act q" "0 \<le> v" "nat v < length act" "v \<notin> heap_set q"
  shows "queue_ok (act[nat v := a]) (mk_var_eh (act[nat v := a]) v q)"
    "heap_set (mk_var_eh (act[nat v := a]) v q) = insert v (heap_set q)"
proof -
  note Q = queue_okD [OF assms(1)]
  have nat: "nat v \<noteq> nat u" if "u \<in> heap_set q" for u
    using that assms(2,4) heap_set_nonneg [OF that] by (auto simp: eq_nat_nat_iff)
  have "wf_heap (act_lt (act[nat v := a])) q"
    using Q(1) by (rule wf_heap_weaken) (use nat in \<open>simp add: act_lt_def\<close>)
  note r = reserve_ok [OF this, of "nat v + 1"]
  have "queue_ok (act[nat v := a]) (reserve (nat v + 1) q)"
    using r Q(2,3) by (auto simp: queue_ok_def)
  from unassign_queue [OF this] r(2) assms show "queue_ok (act[nat v := a]) (mk_var_eh (act[nat v := a]) v q)"
    "heap_set (mk_var_eh (act[nat v := a]) v q) = insert v (heap_set q)"
    by (simp_all add: mk_var_eh_def)
qed

subsection \<open>The tables of the queue\<close>

lemma changed_tables_ok:
  assumes "tables_ok n q" "0 \<le> v"
  shows "tables_ok n (activity_changed_eh act v up q)" "heap_set (activity_changed_eh act v up q) = heap_set q"
proof -
  have "tables_ok n (activity_changed_eh act v up q) \<and> heap_set (activity_changed_eh act v up q) = heap_set q"
    using changed_tables [OF tables_okD(1) [OF assms(1)], of v "act_lt act"] assms contains_iff [OF assms(2), of q]
    by (auto simp: activity_changed_eh_def tables_ok_def retabled_def get_bounds_def)
  then show "tables_ok n (activity_changed_eh act v up q)" "heap_set (activity_changed_eh act v up q) = heap_set q"
    by simp_all
qed

lemma unassign_tables_ok:
  assumes "tables_ok n q" "0 \<le> v" "nat v < n"
  shows "tables_ok n (unassign_var_eh act v q)" "heap_set (unassign_var_eh act v q) = insert v (heap_set q)"
  using insert_tables [OF tables_okD(1) [OF assms(1)] assms(2)] tables_okD [OF assms(1)] assms contains_iff [OF assms(2), of q]
  by (auto simp: unassign_var_eh_def tables_ok_def)

lemma del_tables_ok:
  assumes "tables_ok n q" "0 \<le> v"
  shows "tables_ok n (del_var_eh act v q)" "heap_set (del_var_eh act v q) = heap_set q - {v}"
  using erase_tables [OF tables_okD(1) [OF assms(1)]] tables_okD [OF assms(1)] contains_iff [OF assms(2), of q]
  by (auto simp: del_var_eh_def tables_ok_def)

lemma next_tables_ok:
  assumes "tables_ok n q" "\<not> heap_empty q" "next_var act q = (v, q')"
  shows "tables_ok n q'" "heap_set q' = heap_set q - {v}" "v \<in> heap_set q" "v = min_var q"
proof -
  note T = tables_okD [OF assms(1)]
  have ne: "heap_set q \<noteq> {}" using heap_empty_iff [OF T(1)] assms(2) by simp
  note e = erase_min_tables [OF T(1) ne assms(3) [unfolded next_var_def]]
  show "tables_ok n q'" "heap_set q' = heap_set q - {v}" "v \<in> heap_set q" "v = min_var q"
    using e T by (auto simp: tables_ok_def min_var_def)
qed

lemma mk_var_tables_ok:
  assumes "tables_ok m q" "m \<le> n" "0 \<le> v" "nat v < n" "n \<le> Suc (nat v) \<or> n = m"
  shows "tables_ok n (mk_var_eh act v q)" "heap_set (mk_var_eh act v q) = insert v (heap_set q)"
proof -
  note T = tables_okD [OF assms(1)]
  note r = reserve_tables [OF T(1), of "nat v + 1"]
  have "tables_ok n (reserve (nat v + 1) q)"
    using r T(2,3) assms(2,5) by (fastforce simp: tables_ok_def)
  from unassign_tables_ok [OF this assms(3,4)] r(2)
  show "tables_ok n (mk_var_eh act v q)" "heap_set (mk_var_eh act v q) = insert v (heap_set q)"
    by (simp_all add: mk_var_eh_def)
qed

lemma shrink_fold:
  assumes "tables_ok n q"
  shows "tables_ok n (fold (\<lambda>w. del_var_eh act (int w)) ws q)"
    "heap_set (fold (\<lambda>w. del_var_eh act (int w)) ws q) = heap_set q - int ` set ws"
    "queue_ok act q \<Longrightarrow> queue_ok act (fold (\<lambda>w. del_var_eh act (int w)) ws q)"
proof -
  have "tables_ok n (fold (\<lambda>w. del_var_eh act (int w)) ws q)
    \<and> heap_set (fold (\<lambda>w. del_var_eh act (int w)) ws q) = heap_set q - int ` set ws
    \<and> (queue_ok act q \<longrightarrow> queue_ok act (fold (\<lambda>w. del_var_eh act (int w)) ws q))"
    using assms
  proof (induction ws arbitrary: q)
    case (Cons w ws)
    note d = del_tables_ok [OF Cons.prems, of "int w" act]
    show ?case using Cons.IH [OF d(1)] d(2) del_queue(1) [of act q "int w"] by auto
  qed simp
  then show "tables_ok n (fold (\<lambda>w. del_var_eh act (int w)) ws q)"
    "heap_set (fold (\<lambda>w. del_var_eh act (int w)) ws q) = heap_set q - int ` set ws"
    "queue_ok act q \<Longrightarrow> queue_ok act (fold (\<lambda>w. del_var_eh act (int w)) ws q)" by simp_all
qed

lemma below_bound: "tables_ok n q \<Longrightarrow> heap_set q \<subseteq> int ` {..<n}"
  using heap_set_nonneg tables_okD(2) [of n q] by (auto intro!: image_eqI [where x = "nat v" for v])

lemma shrink_ok:
  assumes "tables_ok (num_vars s) (m_case_split_queue s)" "n \<le> num_vars s"
  defines "q' \<equiv> m_case_split_queue (shrink_vars n s)"
  shows "tables_ok n q'" "queue_ok (m_activity s) (m_case_split_queue s) \<Longrightarrow> queue_ok (take n (m_activity s)) q'"
proof -
  note f = shrink_fold [OF assms(1), of "m_activity s" "rev [n..<num_vars s]", folded shrink_vars_def]
  have q': "q' = fold (\<lambda>w. del_var_eh (m_activity s) (int w)) (rev [n..<num_vars s]) (m_case_split_queue s)"
    by (simp add: q'_def shrink_vars_def)
  have "nat v < n" if "v \<in> heap_set q'" for v
  proof (rule ccontr)
    assume "\<not> nat v < n"
    moreover have "v \<in> heap_set (m_case_split_queue s)" using that f(2) by (simp add: q')
    then have "0 \<le> v" "nat v < num_vars s" using heap_set_nonneg tables_okD(2) [OF assms(1)] by auto
    ultimately have "v \<in> int ` set (rev [n..<num_vars s])" by (intro image_eqI [of _ _ "nat v"]) auto
    then show False using that f(2) by (simp add: q')
  qed
  then show t: "tables_ok n q'"
    using tables_okD [OF f(1)] assms(2) by (auto simp: tables_ok_def q')
  assume "queue_ok (m_activity s) (m_case_split_queue s)"
  then have "wf_heap (act_lt (m_activity s)) q'" using f(3) by (simp add: q' queue_ok_def)
  then have "wf_heap (act_lt (take n (m_activity s))) q'"
    by (rule wf_heap_weaken) (use tables_okD(2) [OF t] in \<open>simp add: act_lt_def\<close>)
  then show "queue_ok (take n (m_activity s)) q'"
    using tables_okD [OF t] assms(2) by (simp add: queue_ok_def)
qed

subsection \<open>The steps of the solver\<close>

text \<open>
  Each step is a function above, called for a variable that exists: these are all the places where the
  solver changes the activities or the queue. The first argument tells whether the change of an activity
  is reported as it is: an increase that does not wrap around, an activity set for a free variable, an
  inherited activity that is not higher, or any change (such as the reset of a reused variable) for a
  variable that is not in the queue. The last step
  stands for all changes of the increment, the conflict count and the counts in \<open>m_canceled\<close>.
\<close>

inductive step :: "bool \<Rightarrow> activity \<Rightarrow> activity \<Rightarrow> bool" where
  new: "step True s (mk_var s)"
| reuse: "0 \<le> v \<Longrightarrow> nat v < num_vars s \<Longrightarrow>
    step (v \<notin> heap_set (m_case_split_queue s)) s (reset_var v s)"
| shrink: "n \<le> num_vars s \<Longrightarrow> step True s (shrink_vars n s)"
| unassign: "0 \<le> v \<Longrightarrow> nat v < num_vars s \<Longrightarrow>
    step True s (s\<lparr>m_case_split_queue := unassign_var_eh (m_activity s) v (m_case_split_queue s)\<rparr>)"
| delete: "0 \<le> v \<Longrightarrow> step True s (s\<lparr>m_case_split_queue := del_var_eh (m_activity s) v (m_case_split_queue s)\<rparr>)"
| pop: "\<not> heap_empty (m_case_split_queue s) \<Longrightarrow> next_var (m_activity s) (m_case_split_queue s) = (v, q) \<Longrightarrow>
    step True s (s\<lparr>m_case_split_queue := q\<rparr>)"
| inc: "0 \<le> v \<Longrightarrow> nat v < num_vars s \<Longrightarrow>
    step (unat (m_activity s ! nat v) + unat (m_activity_inc s) < 2 ^ 32 \<or> v \<notin> heap_set (m_case_split_queue s))
      s (inc_activity v s)"
| set: "0 \<le> v \<Longrightarrow> nat v < num_vars s \<Longrightarrow>
    step (\<not> eliminated \<and> undef \<or> a = m_activity s ! nat v \<or> v \<notin> heap_set (m_case_split_queue s))
      s (set_activity eliminated undef v a s)"
| inherit: "0 \<le> v \<Longrightarrow> nat v < num_vars s \<Longrightarrow>
    step (a \<le> m_activity s ! nat v \<or> v \<notin> heap_set (m_case_split_queue s)) s (inherit_activity v a s)"
| copy: "step True s (copy_reset s)"
| other: "length c = length (m_canceled s) \<Longrightarrow>
    step True s (s\<lparr>m_activity_inc := i, m_conflict := k, m_canceled := c\<rparr>)"

inductive_cases step_elim: "step b s s'"

definition initial :: "u32 \<Rightarrow> activity" where
  "initial i = \<lparr>m_activity = [], m_activity_inc = i, m_conflict = 0, m_canceled = [], m_case_split_queue = mk_var_queue\<rparr>"

text \<open>The flag of a state is true if all changes on the way to it were reported as they are.\<close>

inductive reachable :: "bool \<Rightarrow> activity \<Rightarrow> bool" where
  start: "reachable True (initial i)"
| more: "reachable b s \<Longrightarrow> step b' s s' \<Longrightarrow> reachable (b \<and> b') s'"

definition activity_ok :: "activity \<Rightarrow> bool" where
  "activity_ok s = queue_ok (m_activity s) (m_case_split_queue s)"

text \<open>Every variable has an entry in both vectors.\<close>

definition state_ok :: "activity \<Rightarrow> bool" where
  "state_ok s \<longleftrightarrow> tables_ok (num_vars s) (m_case_split_queue s) \<and> num_vars s \<le> length (m_canceled s)"

lemma increased_is_changed: "activity_increased_eh act v q = activity_changed_eh act v True q"
  by (simp add: activity_increased_eh_def activity_changed_eh_def)

lemma rescale_ok: "activity_ok s \<Longrightarrow> activity_ok (rescale_activity s)"
  by (simp add: activity_ok_def rescale_activity_def rescale_queue)

text \<open>A change of the activity of a variable that is not in the queue needs no report.\<close>

lemma unqueued_change:
  assumes "queue_ok act q" "0 \<le> v" "nat v < length act" "v \<notin> heap_set q"
  shows "queue_ok (act[nat v := a]) q" "activity_changed_eh act' v up q = q"
proof -
  show c: "activity_changed_eh act' v up q = q" for act' up
    using contains_iff [OF assms(2)] assms(4) by (simp add: activity_changed_eh_def)
  have "if act ! nat v \<le> a then act ! nat v \<le> a else a \<le> act ! nat v" by auto
  from changed_queue(1) [OF assms(1-3) this] show "queue_ok (act[nat v := a]) q" by (simp add: c)
qed

lemma inc_ok:
  assumes "activity_ok s" "0 \<le> v" "nat v < num_vars s"
    and "unat (m_activity s ! nat v) + unat (m_activity_inc s) < 2 ^ 32 \<or> v \<notin> heap_set (m_case_split_queue s)"
  shows "activity_ok (inc_activity v s)"
proof -
  define a where "a = m_activity s ! nat v + m_activity_inc s"
  define q where "q = activity_changed_eh ((m_activity s)[nat v := a]) v True (m_case_split_queue s)"
  have "queue_ok ((m_activity s)[nat v := a]) q"
    using assms(4)
  proof
    assume "unat (m_activity s ! nat v) + unat (m_activity_inc s) < 2 ^ 32"
    then have "m_activity s ! nat v \<le> a" by (simp add: a_def word_le_nat_alt unat_plus_if')
    then show ?thesis
      using changed_queue(1) [OF assms(1) [unfolded activity_ok_def] assms(2,3), of True a] by (simp add: q_def)
  next
    assume "v \<notin> heap_set (m_case_split_queue s)"
    then show ?thesis using unqueued_change [OF assms(1) [unfolded activity_ok_def] assms(2,3)] by (simp add: q_def)
  qed
  then have "activity_ok (s\<lparr>m_activity := (m_activity s)[nat v := a], m_case_split_queue := q\<rparr>)"
    by (simp add: activity_ok_def)
  then show ?thesis
    using rescale_ok by (simp add: inc_activity_def a_def [symmetric] q_def increased_is_changed Let_def)
qed

lemma set_ok:
  assumes "activity_ok s" "0 \<le> v" "nat v < num_vars s"
    and "\<not> eliminated \<and> undef \<or> a = m_activity s ! nat v \<or> v \<notin> heap_set (m_case_split_queue s)"
  shows "activity_ok (set_activity eliminated undef v a s)"
proof -
  note q = assms(1) [unfolded activity_ok_def]
  define old where "old = m_activity s ! nat v"
  have "if old < a then m_activity s ! nat v \<le> a else a \<le> m_activity s ! nat v"
    by (auto simp: old_def not_less)
  from changed_queue(1) [OF q assms(2,3) this]
  have ch: "queue_ok ((m_activity s)[nat v := a]) (activity_changed_eh ((m_activity s)[nat v := a]) v (old < a) (m_case_split_queue s))" .
  consider "a = old" | "a \<noteq> old" "\<not> eliminated" "undef" | "v \<notin> heap_set (m_case_split_queue s)"
    using assms(4) by (auto simp: old_def)
  then show ?thesis
  proof cases
    case 1
    then show ?thesis
      using q list_update_id [of "m_activity s" "nat v"] by (simp add: set_activity_def activity_ok_def old_def Let_def)
  next
    case 2
    then show ?thesis using ch by (simp add: set_activity_def activity_ok_def old_def Let_def)
  next
    case 3
    then show ?thesis
      using unqueued_change [OF q assms(2,3)] by (simp add: set_activity_def activity_ok_def Let_def)
  qed
qed

lemma inherit_ok:
  assumes "activity_ok s" "0 \<le> v" "nat v < num_vars s"
    and "a \<le> m_activity s ! nat v \<or> v \<notin> heap_set (m_case_split_queue s)"
  shows "activity_ok (inherit_activity v a s)"
  using assms(4) changed_queue(1) [OF assms(1) [unfolded activity_ok_def] assms(2,3), of False a]
    unqueued_change [OF assms(1) [unfolded activity_ok_def] assms(2,3)]
  by (auto simp: inherit_activity_def activity_ok_def Let_def)

lemma step_ok: "step b s s' \<Longrightarrow> b \<Longrightarrow> activity_ok s \<Longrightarrow> activity_ok s'"
proof (induction rule: step.induct)
  case (new s)
  then show ?case using new_var_queue(1) by (simp add: mk_var_def activity_ok_def Let_def)
next
  case (reuse v s)
  then show ?case using reset_var_queue(1) by (simp add: reset_var_def activity_ok_def Let_def)
next
  case (shrink n s)
  then show ?case using shrink_ok(2) [of s n] by (simp add: activity_ok_def queue_ok_tables [of "m_activity s"] shrink_vars_def)
next
  case (unassign v s)
  then show ?case using unassign_queue(1) by (simp add: activity_ok_def)
next
  case (delete v s)
  then show ?case using del_queue(1) by (simp add: activity_ok_def)
next
  case (pop s v q)
  then show ?case using next_queue(1) by (simp add: activity_ok_def)
next
  case (copy s)
  note r = reset_queue [OF copy(2) [unfolded activity_ok_def]]
  have "wf_heap (act_lt []) (heap_reset (m_case_split_queue s))"
    using queue_okD(1) [OF r(1)] by (rule wf_heap_weaken) (simp add: r(2))
  then have "queue_ok [] (heap_reset (m_case_split_queue s))" by (simp add: queue_ok_def r(2))
  then show ?case by (simp add: copy_reset_def activity_ok_def)
qed (simp_all add: inc_ok set_ok inherit_ok, simp add: activity_ok_def)

text \<open>All steps keep the tables, reported or not.\<close>

lemma set_state:
  assumes "state_ok s" "0 \<le> v"
  shows "state_ok (set_activity e u v a s)"
    "heap_set (m_case_split_queue (set_activity e u v a s)) = heap_set (m_case_split_queue s)"
    "num_vars (set_activity e u v a s) = num_vars s" "m_canceled (set_activity e u v a s) = m_canceled s"
    "m_conflict (set_activity e u v a s) = m_conflict s"
  using assms(1) changed_tables_ok [OF _ assms(2), of "num_vars s" "m_case_split_queue s"]
  by (auto simp: set_activity_def state_ok_def Let_def)

lemma step_state: "step b s s' \<Longrightarrow> state_ok s \<Longrightarrow> state_ok s'"
proof (induction rule: step.induct)
  case (new s)
  then show ?case
    using mk_var_tables_ok(1) [of "num_vars s" "m_case_split_queue s" "num_vars s + 1" "int (num_vars s)"]
    by (simp add: mk_var_def state_ok_def Let_def)
next
  case (reuse v s)
  then show ?case
    using mk_var_tables_ok(1) [of "num_vars s" "m_case_split_queue s" "num_vars s" v]
    by (simp add: reset_var_def state_ok_def Let_def)
next
  case (shrink n s)
  then show ?case using shrink_ok(1) [of s n] by (simp add: state_ok_def shrink_vars_def)
next
  case (unassign v s)
  then show ?case using unassign_tables_ok(1) by (simp add: state_ok_def)
next
  case (delete v s)
  then show ?case using del_tables_ok(1) by (simp add: state_ok_def)
next
  case (pop s v q)
  then show ?case using next_tables_ok(1) [OF _ pop(1,2)] by (simp add: state_ok_def)
next
  case (inc v s)
  then show ?case
    using changed_tables_ok(1) [of "num_vars s" "m_case_split_queue s" v]
    by (simp add: inc_activity_def rescale_activity_def state_ok_def increased_is_changed Let_def)
next
  case (set v s eliminated undef a)
  then show ?case using set_state(1) by simp
next
  case (inherit v s a)
  then show ?case
    using changed_tables_ok(1) [of "num_vars s" "m_case_split_queue s" v]
    by (simp add: inherit_activity_def state_ok_def Let_def)
next
  case (copy s)
  then show ?case
    using reset_tables [OF tables_okD(1), of "num_vars s" "m_case_split_queue s"]
    by (simp add: copy_reset_def state_ok_def tables_ok_def)
qed (simp add: state_ok_def)

lemma reachable_state: "reachable b s \<Longrightarrow> state_ok s"
proof (induction rule: reachable.induct)
  case (start i)
  have "tables_ok 0 mk_var_queue" using new_queue_ok(1) by (simp add: queue_ok_tables)
  then show ?case by (simp add: state_ok_def initial_def)
qed (rule step_state)

lemma reachable_ok: "reachable b s \<Longrightarrow> b \<Longrightarrow> activity_ok s"
  by (induction rule: reachable.induct) (simp add: activity_ok_def initial_def new_queue_ok, use step_ok in blast)

subsection \<open>The loops of the decision\<close>

definition free_vars :: "(int \<Rightarrow> bool) \<Rightarrow> (int \<Rightarrow> bool) \<Rightarrow> activity \<Rightarrow> int set" where
  "free_vars elim undef s = {v \<in> heap_set (m_case_split_queue s). undef v \<and> \<not> elim v}"

lemma heap_set_finite: "finite (heap_set q)"
proof (rule finite_subset)
  show "heap_set q \<subseteq> int ` {..<length (m_value2indices q)}"
    by (auto simp: heap_set_def heap_contains_def intro!: image_eqI [where x = "nat x" for x])
qed simp

lemma min_var_member:
  assumes "state_ok s" "heap_set (m_case_split_queue s) \<noteq> {}"
  shows "min_var (m_case_split_queue s) \<in> heap_set (m_case_split_queue s)"
    "0 \<le> min_var (m_case_split_queue s)" "nat (min_var (m_case_split_queue s)) < num_vars s"
proof -
  have T: "tables_ok (num_vars s) (m_case_split_queue s)" using assms(1) by (simp add: state_ok_def)
  have "\<not> heap_empty (m_case_split_queue s)" using heap_empty_iff [OF tables_okD(1) [OF T]] assms(2) by simp
  moreover obtain v q where "next_var (m_activity s) (m_case_split_queue s) = (v, q)" by force
  ultimately show m: "min_var (m_case_split_queue s) \<in> heap_set (m_case_split_queue s)"
    using next_tables_ok(3,4) [OF T] by metis
  show "0 \<le> min_var (m_case_split_queue s)" "nat (min_var (m_case_split_queue s)) < num_vars s"
    using heap_set_nonneg [OF m] tables_okD(2) [OF T m] by simp_all
qed

text \<open>Anti-exploration ends, as every round brings one variable of the queue up to date.\<close>

lemma cool_down_step:
  fixes cool elim undef
  assumes "state_ok s" "v \<in> heap_set (m_case_split_queue s)"
  defines "s' \<equiv> cool_down cool elim undef v s"
  shows "state_ok s'" "heap_set (m_case_split_queue s') = heap_set (m_case_split_queue s)"
    "w \<in> heap_set (m_case_split_queue s) \<Longrightarrow> age s' w = (if w = v then 0 else age s w)"
    "reachable b s \<Longrightarrow> \<exists>b'. reachable b' s'"
proof -
  have v: "0 \<le> v" "nat v < num_vars s" "nat v < length (m_canceled s)"
    using heap_set_nonneg [OF assms(2)] assms(1,2) by (auto simp: state_ok_def tables_ok_def)
  define t where "t = set_activity (elim v) (undef v) v (cool (m_activity s ! nat v) (age s v)) s"
  note S = set_state [OF assms(1) v(1), of "elim v" "undef v" "cool (m_activity s ! nat v) (age s v)", folded t_def]
  have s': "s' = t\<lparr>m_canceled := (m_canceled t)[nat v := ucast (m_conflict t)]\<rparr>"
    by (simp add: s'_def cool_down_def t_def Let_def)
  show "state_ok s'" using S(1) by (simp add: s' state_ok_def)
  show "heap_set (m_case_split_queue s') = heap_set (m_case_split_queue s)" using S(2) by (simp add: s')
  show "age s' w = (if w = v then 0 else age s w)" if "w \<in> heap_set (m_case_split_queue s)"
    using v S(4,5) heap_set_nonneg [OF that] by (auto simp: s' age_def eq_nat_nat_iff)
  assume r: "reachable b s"
  obtain b' where t: "reachable b' t" using reachable.more [OF r step.set [OF v(1,2)]] by (auto simp: t_def)
  have "step True t (t\<lparr>m_activity_inc := m_activity_inc t, m_conflict := m_conflict t,
      m_canceled := (m_canceled t)[nat v := ucast (m_conflict t)]\<rparr>)"
    by (rule step.other) simp
  moreover have "t\<lparr>m_activity_inc := m_activity_inc t, m_conflict := m_conflict t,
      m_canceled := (m_canceled t)[nat v := ucast (m_conflict t)]\<rparr> = s'" by (simp add: s')
  ultimately have "step True t s'" by (simp only:)
  then show "\<exists>b'. reachable b' s'" using reachable.more [OF t] by blast
qed

lemma anti_explore_ends:
  assumes "reachable b s" "heap_set (m_case_split_queue s) \<noteq> {}"
  shows "\<exists>b' s'. anti_explore cool elim undef s = Some s' \<and> reachable b' s'
    \<and> heap_set (m_case_split_queue s') = heap_set (m_case_split_queue s)"
  using assms
proof (induction "card {v \<in> heap_set (m_case_split_queue s). age s v \<noteq> 0}" arbitrary: b s rule: less_induct)
  case less
  define v where "v = min_var (m_case_split_queue s)"
  define t where "t = cool_down cool elim undef v s"
  note ok = reachable_state [OF less.prems(1)]
  have v: "v \<in> heap_set (m_case_split_queue s)" using min_var_member(1) [OF ok less.prems(2)] by (simp add: v_def)
  note S = cool_down_step [OF ok v, where cool = cool and elim = elim and undef = undef, folded t_def]
  show ?case
  proof (cases "0 < age s v")
    case False
    then have "anti_explore cool elim undef s = Some s" by (simp add: anti_explore.simps v_def Let_def)
    then show ?thesis using less.prems(1) by blast
  next
    case True
    then have e: "anti_explore cool elim undef s = anti_explore cool elim undef t"
      by (subst anti_explore.simps) (simp add: v_def t_def Let_def)
    have "{w \<in> heap_set (m_case_split_queue t). age t w \<noteq> 0} \<subseteq> {w \<in> heap_set (m_case_split_queue s). age s w \<noteq> 0} - {v}"
      using S(2,3) by (auto split: if_splits)
    moreover have "v \<in> {w \<in> heap_set (m_case_split_queue s). age s w \<noteq> 0}" using v True by simp
    moreover have "finite {w \<in> heap_set (m_case_split_queue s). age s w \<noteq> 0}" using heap_set_finite by simp
    ultimately have less': "card {w \<in> heap_set (m_case_split_queue t). age t w \<noteq> 0}
        < card {w \<in> heap_set (m_case_split_queue s). age s w \<noteq> 0}"
      by (intro psubset_card_mono) auto
    obtain b' where "reachable b' t" using S(4) [OF less.prems(1)] by blast
    from less.hyps [OF less' this] show ?thesis using S(2) less.prems(2) e by simp
  qed
qed

lemma decide_ends:
  assumes "reachable b s"
  shows "\<exists>r s' b'. decide anti cool elim undef s = Some (r, s') \<and> reachable b' s'
    \<and> (case r of None \<Rightarrow> free_vars elim undef s = {} \<and> heap_set (m_case_split_queue s') = {}
       | Some v \<Rightarrow> v \<in> free_vars elim undef s \<and> free_vars elim undef s' = free_vars elim undef s - {v})
    \<and> (\<not> anti \<longrightarrow> b \<longrightarrow> (\<forall>v. r = Some v \<longrightarrow>
         (\<forall>w \<in> free_vars elim undef s. \<not> more_active (m_activity s) w v)))"
  using assms
proof (induction "card (heap_set (m_case_split_queue s))" arbitrary: b s rule: less_induct)
  case less
  let ?q = "m_case_split_queue s"
  have ok: "state_ok s" by (rule reachable_state [OF less.prems])
  then have ix: "index_ok ?q" by (simp add: state_ok_def tables_ok_def)
  show ?case
  proof (cases "heap_empty ?q")
    case True
    then have "heap_set ?q = {}" using heap_empty_iff [OF ix] by blast
    then show ?thesis using True less.prems by (auto simp: decide.simps free_vars_def)
  next
    case False
    then have ne: "heap_set ?q \<noteq> {}" using heap_empty_iff [OF ix] by blast
    obtain s1 b1 where s1: "(if anti then anti_explore cool elim undef s else Some s) = Some s1"
      "reachable b1 s1" "heap_set (m_case_split_queue s1) = heap_set ?q" "\<not> anti \<Longrightarrow> s1 = s \<and> b1 = b"
      using anti_explore_ends [OF less.prems ne, of cool elim undef] less.prems by (cases anti) auto
    let ?q1 = "m_case_split_queue s1"
    have T: "tables_ok (num_vars s1) ?q1" using reachable_state [OF s1(2)] by (simp add: state_ok_def)
    have ne1: "\<not> heap_empty ?q1" using heap_empty_iff [OF tables_okD(1) [OF T]] s1(3) ne by simp
    obtain v q2 where n: "next_var (m_activity s1) ?q1 = (v, q2)" by force
    note nx = next_tables_ok [OF T ne1 n]
    let ?s2 = "s1\<lparr>m_case_split_queue := q2\<rparr>"
    have r2: "reachable (b1 \<and> True) ?s2" by (rule reachable.more [OF s1(2) step.pop [OF ne1 n]])
    have max: "\<not> more_active (m_activity s) w v" if "\<not> anti" b "w \<in> heap_set ?q" for w
    proof -
      have q: "queue_ok (m_activity s) ?q" using reachable_ok [OF less.prems that(2)] by (simp add: activity_ok_def)
      show ?thesis using next_queue(5) [OF q False _ that(3), of v q2] n s1(4) [OF that(1)] by simp
    qed
    show ?thesis
    proof (cases "undef v \<and> \<not> elim v")
      case True
      then have "decide anti cool elim undef s = Some (Some v, ?s2)"
        using False n s1(1) by (subst decide.simps) simp
      moreover have "v \<in> free_vars elim undef s" "free_vars elim undef ?s2 = free_vars elim undef s - {v}"
        using True nx(2,3) s1(3) by (auto simp: free_vars_def)
      moreover have "\<not> anti \<longrightarrow> b \<longrightarrow> (\<forall>w \<in> free_vars elim undef s. \<not> more_active (m_activity s) w v)"
        using max by (auto simp: free_vars_def)
      ultimately show ?thesis using r2 by auto
    next
      case nf: False
      have d: "decide anti cool elim undef s = decide anti cool elim undef ?s2"
        using False n nf s1(1) by (subst decide.simps) auto
      have "card (heap_set (m_case_split_queue ?s2)) < card (heap_set ?q)"
        using card_Diff1_less [OF heap_set_finite nx(3)] nx(2) s1(3) by simp
      from less.hyps [OF this r2] obtain r s' b' where r: "decide anti cool elim undef ?s2 = Some (r, s')"
        "reachable b' s'"
        "case r of None \<Rightarrow> free_vars elim undef ?s2 = {} \<and> heap_set (m_case_split_queue s') = {}
         | Some v \<Rightarrow> v \<in> free_vars elim undef ?s2 \<and> free_vars elim undef s' = free_vars elim undef ?s2 - {v}"
        "\<not> anti \<longrightarrow> b1 \<and> True \<longrightarrow> (\<forall>v. r = Some v \<longrightarrow>
           (\<forall>w \<in> free_vars elim undef ?s2. \<not> more_active (m_activity ?s2) w v))" by blast
      have same: "free_vars elim undef ?s2 = free_vars elim undef s"
        using nf nx(2) s1(3) by (auto simp: free_vars_def)
      have "\<not> anti \<longrightarrow> b \<longrightarrow> (\<forall>v. r = Some v \<longrightarrow>
          (\<forall>w \<in> free_vars elim undef s. \<not> more_active (m_activity s) w v))"
        using r(4) [unfolded same] s1(4) by auto
      with r(1-3) [unfolded same] show ?thesis unfolding d by blast
    qed
  qed
qed

subsection \<open>Properties\<close>

text \<open>C28: After any sequence of the solver's steps the tables of the decision queue are consistent (each
  variable in it has one position, which its table entry names), all its variables exist, and there is
  room for every variable, so that no operation on it is out of bounds, even after changes of
  activities that were not reported to it. If every change on the way was reported as it is, the queue is a
  heap for the current activities, also through rescaling, and passes the check of the source.\<close>

theorem queue_invariant:
  assumes "reachable b s"
  shows "index_ok (m_case_split_queue s)
    \<and> (\<forall>v \<in> heap_set (m_case_split_queue s). 0 \<le> v \<and> nat v < num_vars s)
    \<and> num_vars s \<le> get_bounds (m_case_split_queue s) \<and> num_vars s \<le> length (m_canceled s)
    \<and> (b \<longrightarrow> ordered (act_lt (m_activity s)) (m_case_split_queue s)
         \<and> check_invariant (act_lt (m_activity s)) (m_case_split_queue s))"
proof (intro conjI impI ballI)
  have ok: "tables_ok (num_vars s) (m_case_split_queue s)" "num_vars s \<le> length (m_canceled s)"
    using reachable_state [OF assms] by (simp_all add: state_ok_def)
  note T = tables_okD [OF ok(1)]
  show "index_ok (m_case_split_queue s)" "num_vars s \<le> get_bounds (m_case_split_queue s)"
    "num_vars s \<le> length (m_canceled s)" using T ok(2) by simp_all
  show "0 \<le> v" "nat v < num_vars s" if "v \<in> heap_set (m_case_split_queue s)" for v
    using T(2) [OF that] heap_set_nonneg [OF that] by simp_all
  assume b
  then have o: "ordered (act_lt (m_activity s)) (m_case_split_queue s)"
    using reachable_ok [OF assms] by (simp add: activity_ok_def queue_ok_tables)
  show "ordered (act_lt (m_activity s)) (m_case_split_queue s)" by (rule o)
  show "check_invariant (act_lt (m_activity s)) (m_case_split_queue s)"
    unfolding check_invariant_def by (rule check_invariant_core [OF _ T(1) o]) simp
qed

text \<open>Two variables, of which the second is more active.\<close>

definition two_vars :: activity where
  "two_vars = mk_var (mk_var (initial 128))"

definition second_active :: activity where
  "second_active = inc_activity 1 two_vars"

lemma two_vars_reachable: "reachable True two_vars"
  using reachable.more [OF reachable.more [OF reachable.start step.new] step.new] by (simp add: two_vars_def)

lemma second_active_reachable: "reachable True second_active"
proof -
  have "m_activity two_vars = [0, 0]" "m_activity_inc two_vars = 128" by code_simp+
  then have l: "0 \<le> (1 :: int)" "nat 1 < num_vars two_vars"
    "unat (m_activity two_vars ! nat 1) + unat (m_activity_inc two_vars) < 2 ^ 32" by simp_all
  from step.inc [OF l(1,2)] l(3) have "step True two_vars second_active" by (simp add: second_active_def)
  from reachable.more [OF two_vars_reachable this] show ?thesis by simp
qed

theorem queue_invariant_witness:
  "check_invariant (act_lt (m_activity second_active)) (m_case_split_queue second_active)
    \<and> m_activity second_active = [0, 128] \<and> m_values (m_case_split_queue second_active) = [- 1, 1, 0]"
proof -
  have "m_activity second_active = [0, 128]" "m_values (m_case_split_queue second_active) = [- 1, 1, 0]"
    by code_simp+
  then show ?thesis using queue_invariant [OF second_active_reachable] by simp
qed

text \<open>C29: After any sequence of the solver's steps the choice of a decision variable ends, with or without
  anti-exploration and random splits, whatever numbers these compute. Its result is an unassigned
  variable that is not eliminated, and the other free variables stay in the queue; there is none only if
  no variable in the queue is free, and then the queue is left empty. Without random split and
  anti-exploration, and if every change of activity was reported as it is, no free variable in the queue is
  more active.\<close>

theorem decision_most_active:
  assumes "reachable b s"
  shows "\<exists>r s' b'. solver_next_var random anti cool elim undef s = Some (r, s') \<and> reachable b' s'
    \<and> (case r of None \<Rightarrow> free_vars elim undef s = {} \<and> heap_set (m_case_split_queue s') = {}
       | Some v \<Rightarrow> undef v \<and> \<not> elim v \<and> 0 \<le> v \<and> nat v < num_vars s
           \<and> free_vars elim undef s - {v} \<subseteq> free_vars elim undef s')
    \<and> (random = None \<longrightarrow> \<not> anti \<longrightarrow> b \<longrightarrow> (\<forall>v. r = Some v \<longrightarrow>
         v \<in> free_vars elim undef s \<and> (\<forall>w \<in> free_vars elim undef s. \<not> more_active (m_activity s) w v)))"
proof -
  obtain r s' b' where d: "decide anti cool elim undef s = Some (r, s')" "reachable b' s'"
    "case r of None \<Rightarrow> free_vars elim undef s = {} \<and> heap_set (m_case_split_queue s') = {}
       | Some v \<Rightarrow> v \<in> free_vars elim undef s \<and> free_vars elim undef s' = free_vars elim undef s - {v}"
    "\<not> anti \<longrightarrow> b \<longrightarrow> (\<forall>v. r = Some v \<longrightarrow> (\<forall>w \<in> free_vars elim undef s. \<not> more_active (m_activity s) w v))"
    using decide_ends [OF assms, of anti cool elim undef] by blast
  have T: "tables_ok (num_vars s) (m_case_split_queue s)"
    using reachable_state [OF assms] by (simp add: state_ok_def)
  have free: "undef v \<and> \<not> elim v \<and> 0 \<le> v \<and> nat v < num_vars s" if "v \<in> free_vars elim undef s" for v
    using that heap_set_nonneg tables_okD(2) [OF T] by (auto simp: free_vars_def)
  have loop: ?thesis if "solver_next_var random anti cool elim undef s = decide anti cool elim undef s"
    unfolding that using d free
    by (intro exI [of _ r] exI [of _ s'] exI [of _ b']) (auto split: option.splits)
  show ?thesis
  proof (cases random)
    case None
    then show ?thesis by (intro loop) (simp add: solver_next_var_def)
  next
    case (Some k)
    consider "num_vars s = 0" | "num_vars s \<noteq> 0" "undef (int (k mod num_vars s)) \<and> \<not> elim (int (k mod num_vars s))"
      | "num_vars s \<noteq> 0" "\<not> (undef (int (k mod num_vars s)) \<and> \<not> elim (int (k mod num_vars s)))" by blast
    then show ?thesis
    proof cases
      case 1
      then have "heap_set (m_case_split_queue s) = {}" using tables_okD(2) [OF T] by auto
      then show ?thesis using 1 Some assms
        by (intro exI [of _ None] exI [of _ s] exI [of _ b]) (simp add: solver_next_var_def free_vars_def)
    next
      case 2
      then show ?thesis using Some assms
        by (intro exI [of _ "Some (int (k mod num_vars s))"] exI [of _ s] exI [of _ b])
          (auto simp: solver_next_var_def Let_def)
    next
      case 3
      then show ?thesis using Some by (intro loop) (auto simp: solver_next_var_def Let_def)
    qed
  qed
qed

theorem decision_most_active_witness:
  "\<exists>s'. solver_next_var None False (\<lambda>a _. a) (\<lambda>_. False) (\<lambda>_. True) second_active = Some (Some 1, s')
    \<and> 0 \<in> free_vars (\<lambda>_. False) (\<lambda>_. True) s'"
proof -
  let ?free = "free_vars (\<lambda>_. False) (\<lambda>_. True)"
  have q: "heap_set (m_case_split_queue second_active) = {0, 1}"
  proof -
    have v: "m_values (m_case_split_queue second_active) = [- 1, 1, 0]" by code_simp
    have "index_ok (m_case_split_queue second_active)"
      using reachable_state [OF second_active_reachable] by (simp add: state_ok_def tables_ok_def)
    from heap_set_iff [OF this] have "heap_set (m_case_split_queue second_active) \<subseteq> {0, 1}"
      unfolding v by (auto simp: less_Suc_eq eval_nat_numeral)
    moreover have "heap_contains (m_case_split_queue second_active) 0" "heap_contains (m_case_split_queue second_active) 1"
      by code_simp+
    ultimately show ?thesis by (auto simp: heap_set_def)
  qed
  then have f: "?free second_active = {0, 1}" by (auto simp: free_vars_def)
  have a: "more_active (m_activity second_active) 1 0" by code_simp
  obtain r s' b' where r: "solver_next_var None False (\<lambda>a _. a) (\<lambda>_. False) (\<lambda>_. True) second_active = Some (r, s')"
    and c: "case r of None \<Rightarrow> ?free second_active = {} \<and> heap_set (m_case_split_queue s') = {}
       | Some v \<Rightarrow> True \<and> \<not> False \<and> 0 \<le> v \<and> nat v < num_vars second_active
           \<and> ?free second_active - {v} \<subseteq> ?free s'"
    and m: "(None :: nat option) = None \<longrightarrow> \<not> False \<longrightarrow> True \<longrightarrow> (\<forall>v. r = Some v \<longrightarrow>
         v \<in> ?free second_active \<and> (\<forall>w \<in> ?free second_active. \<not> more_active (m_activity second_active) w v))"
    using decision_most_active [OF second_active_reachable, of None False "\<lambda>a _. a" "\<lambda>_. False" "\<lambda>_. True"]
    by (elim exE conjE) (rule that; assumption)
  obtain v where v: "r = Some v" using c f by (cases r) simp_all
  then have "v \<in> {0, 1}" "\<forall>w \<in> {0, 1}. \<not> more_active (m_activity second_active) w v" using m f by simp_all
  then have "v = 1" using a by blast
  moreover have "0 \<in> ?free s'" if "v = 1" using c f v that by auto
  ultimately show ?thesis using r v by blast
qed

text \<open>C40: Let a variable in a proper queue get an activity above that of the first variable of the queue.
  If \<open>copy\<close> gives it this activity, or \<open>set_activity\<close> does while it is assigned or eliminated, the queue
  stays as it is: it is no heap any more, fails the check of the source, and the next variable that is
  taken from it is the old first one, though the other is more active.\<close>

theorem unreported_changes_break_heap:
  assumes "activity_ok s" "v \<in> heap_set (m_case_split_queue s)"
    and "m_activity s ! nat (min_var (m_case_split_queue s)) < a" "v \<noteq> min_var (m_case_split_queue s)"
    and "eliminated \<or> \<not> undef"
    and "s' = inherit_activity v a s \<or> s' = set_activity eliminated undef v a s"
  shows "m_case_split_queue s' = m_case_split_queue s
    \<and> \<not> check_invariant (act_lt (m_activity s')) (m_case_split_queue s')
    \<and> fst (next_var (m_activity s') (m_case_split_queue s')) = min_var (m_case_split_queue s)
    \<and> more_active (m_activity s') v (min_var (m_case_split_queue s))"
proof -
  let ?q = "m_case_split_queue s" and ?m = "min_var (m_case_split_queue s)"
  have q: "queue_ok (m_activity s) ?q" using assms(1) by (simp add: activity_ok_def)
  note Q = queue_okD [OF q]
  have ix: "index_ok ?q" using Q(1) by (simp add: wf_heap_def)
  have ne: "heap_set ?q \<noteq> {}" using assms(2) by auto
  note m = act.min_value_ok [OF Q(1) ne, folded min_var_def]
  have v: "0 \<le> v" "nat v < num_vars s" using heap_set_nonneg [OF assms(2)] Q(2) [OF assms(2)] by simp_all
  define act' where "act' = (m_activity s)[nat v := a]"
  have nth: "act' ! nat w = (if w = v then a else m_activity s ! nat w)" if "w \<in> heap_set ?q" for w
    using v heap_set_nonneg [OF that] by (auto simp: act'_def nth_list_update eq_nat_nat_iff)
  have above: "\<not> act_lt act' w v" if "w \<in> heap_set ?q" for w
    using m(2) [OF that] assms(3) nth [OF that] nth [OF assms(2)] by (auto simp: act_lt_def not_less)
  have "increased (act_lt act') v ?q = ?q"
    using move_down_still [OF ix index_okV(1,2) [OF ix assms(2)], of "act_lt act'"] index_okV(3) [OF ix assms(2)] above
    by (simp add: increased_def)
  then have s': "m_activity s' = act'" "m_case_split_queue s' = ?q"
    using assms(5,6) contains_iff [OF v(1), of ?q] assms(2)
    by (auto simp: inherit_activity_def set_activity_def activity_changed_eh_def act'_def Let_def)
  have more: "act_lt act' v ?m" using nth [OF assms(2)] nth [OF m(1)] assms(3,4) by (simp add: act_lt_def)
  have "\<not> check_invariant (act_lt act') ?q"
  proof
    assume "check_invariant (act_lt act') ?q"
    then have "wf_heap (act_lt act') ?q" using check_invariant_correct [OF ix] by blast
    then show False using act.min_value_ok(2) [OF _ ne assms(2)] more by (simp add: min_var_def)
  qed
  moreover have "fst (next_var act' ?q) = ?m"
    using erase_min_tables(1) [OF ix ne, of "act_lt act'"] by (metis next_var_def min_var_def prod.collapse)
  ultimately show ?thesis using s' more by (simp add: more_active_def)
qed

theorem unreported_changes_break_heap_witness:
  "\<not> check_invariant (act_lt [0, 5]) (m_case_split_queue (inherit_activity 1 5 two_vars))
    \<and> \<not> check_invariant (act_lt [0, 5]) (m_case_split_queue (set_activity False False 1 5 two_vars))"
proof -
  have ok: "activity_ok two_vars" using reachable_ok [OF two_vars_reachable] by simp
  have c: "heap_contains (m_case_split_queue two_vars) 1" "m_activity two_vars ! nat (min_var (m_case_split_queue two_vars)) < 5"
    "1 \<noteq> min_var (m_case_split_queue two_vars)" "m_activity (inherit_activity 1 5 two_vars) = [0, 5]"
    "m_activity (set_activity False False 1 5 two_vars) = [0, 5]" by code_simp+
  then have h: "1 \<in> heap_set (m_case_split_queue two_vars)" by (simp add: heap_set_def)
  note u = unreported_changes_break_heap [OF ok h c(2,3), of False False]
  have "\<not> check_invariant (act_lt (m_activity (inherit_activity 1 5 two_vars))) (m_case_split_queue (inherit_activity 1 5 two_vars))"
    "\<not> check_invariant (act_lt (m_activity (set_activity False False 1 5 two_vars)))
      (m_case_split_queue (set_activity False False 1 5 two_vars))" using u by blast+
  then show ?thesis unfolding c(4,5) ..
qed

end
