(* ===== verification/Union_Find.thy ===== *)
theory Union_Find
  imports Prelude "HOL-Library.While_Combinator" "HOL-Library.Monad_Syntax"
begin

text \<open>
  \<open>util/union_find.h\<close>: the two union-find structures of Z3. \<open>union_find\<close> records its changes on the
  trail stack of its context (\<open>util/trail.h\<close>) and is taken back by \<open>pop_scope\<close>; the context is the
  default one, whose call-backs do nothing. \<open>basic_union_find\<close> cannot be taken back and treats every
  number as a variable. Variables and sizes are natural numbers: a size is at most the number of
  variables. A loop that follows parents until a root is a \<open>while_option\<close>: \<open>None\<close> if it never ends.
\<close>

subsection \<open>The arrays\<close>

record union_find =
  m_find :: "nat list"
  m_size :: "nat list"
  m_next :: "nat list"

definition get_num_vars :: "union_find \<Rightarrow> nat" where
  "get_num_vars u = length (m_find u)"

definition uf_find :: "union_find \<Rightarrow> nat \<Rightarrow> nat option" where
  "uf_find u v = while_option (\<lambda>v. m_find u ! v \<noteq> v) (\<lambda>v. m_find u ! v) v"

definition uf_next :: "union_find \<Rightarrow> nat \<Rightarrow> nat" where
  "uf_next u v = m_next u ! v"

definition uf_size :: "union_find \<Rightarrow> nat \<Rightarrow> nat option" where
  "uf_size u v = map_option (\<lambda>r. m_size u ! r) (uf_find u v)"

definition is_root :: "union_find \<Rightarrow> nat \<Rightarrow> bool" where
  "is_root u v \<longleftrightarrow> m_find u ! v = v"

definition empty_uf :: union_find where
  "empty_uf = \<lparr>m_find = [], m_size = [], m_next = []\<rparr>"

text \<open>The three \<open>push_back\<close>s of \<open>mk_var\<close>, which returns the number of variables before, and the \<open>pop_back\<close>s that undo them.\<close>

definition push_node :: "union_find \<Rightarrow> union_find" where
  "push_node u =
    (let r = length (m_find u)
     in u\<lparr>m_find := m_find u @ [r], m_size := m_size u @ [1], m_next := m_next u @ [r]\<rparr>)"

definition pop_node :: "union_find \<Rightarrow> union_find" where
  "pop_node u =
    u\<lparr>m_find := butlast (m_find u), m_size := butlast (m_size u), m_next := butlast (m_next u)\<rparr>"

definition swap_next :: "nat \<Rightarrow> nat \<Rightarrow> union_find \<Rightarrow> union_find" where
  "swap_next r1 r2 u = u\<lparr>m_next := (m_next u)[r1 := m_next u ! r2, r2 := m_next u ! r1]\<rparr>"

text \<open>The three writes that hang the root \<open>r1\<close> under the root \<open>r2\<close>.\<close>

definition link :: "nat \<Rightarrow> nat \<Rightarrow> union_find \<Rightarrow> union_find" where
  "link r1 r2 u =
    swap_next r1 r2
      (u\<lparr>m_find := (m_find u)[r1 := r2], m_size := (m_size u)[r2 := m_size u ! r2 + m_size u ! r1]\<rparr>)"

definition set_root :: "nat \<Rightarrow> nat \<Rightarrow> union_find \<Rightarrow> union_find" where
  "set_root v root u = link v root u"

definition unmerge :: "nat \<Rightarrow> union_find \<Rightarrow> union_find" where
  "unmerge r1 u =
    (let r2 = m_find u ! r1
     in swap_next r1 r2
          (u\<lparr>m_size := (m_size u)[r2 := m_size u ! r2 - m_size u ! r1], m_find := (m_find u)[r1 := r1]\<rparr>))"

definition dissolve_step :: "nat \<Rightarrow> union_find \<Rightarrow> union_find" where
  "dissolve_step v u =
    u\<lparr>m_size := (m_size u)[v := 1], m_find := (m_find u)[v := v], m_next := (m_next u)[v := v]\<rparr>"

definition dissolve :: "nat \<Rightarrow> union_find \<Rightarrow> union_find option" where
  "dissolve v u =
    map_option fst
      (while_option (\<lambda>(u, w). w \<noteq> v) (\<lambda>(u, w). (dissolve_step v u, uf_next u v))
        (dissolve_step v u, uf_next u v))"

text \<open>The check of the debug version: the cycle of every root is its class.\<close>

definition check_class :: "union_find \<Rightarrow> nat \<Rightarrow> bool option" where
  "check_class u v =
    map_option (\<lambda>(ok, sz, curr). ok \<and> m_size u ! v = sz)
      (while_option (\<lambda>(ok, sz, curr). curr \<noteq> v)
        (\<lambda>(ok, sz, curr). (ok \<and> uf_find u curr = Some v, sz + 1, uf_next u curr))
        (uf_find u v = Some v, 1, uf_next u v))"

fun check_classes :: "union_find \<Rightarrow> nat list \<Rightarrow> bool option" where
  "check_classes u [] = Some True"
| "check_classes u (v # vs) = do {
     ok \<leftarrow> if is_root u v then check_class u v else Some True;
     oks \<leftarrow> check_classes u vs;
     Some (ok \<and> oks)
   }"

definition uf_check_invariant :: "union_find \<Rightarrow> bool option" where
  "uf_check_invariant u = check_classes u [0..<get_num_vars u]"

subsection \<open>The trail\<close>

datatype uf_trail = Mk_Var_Trail | Merge_Trail nat

record uf_state =
  m_uf :: union_find
  m_trail_stack :: "uf_trail list"
  m_scopes :: "nat list"

definition new_union_find :: uf_state where
  "new_union_find = \<lparr>m_uf = empty_uf, m_trail_stack = [], m_scopes = []\<rparr>"

definition uf_mk_var :: "uf_state \<Rightarrow> uf_state" where
  "uf_mk_var s = s\<lparr>m_uf := push_node (m_uf s), m_trail_stack := m_trail_stack s @ [Mk_Var_Trail]\<rparr>"

function uf_reserve :: "nat \<Rightarrow> uf_state \<Rightarrow> uf_state" where
  "uf_reserve v s = (if get_num_vars (m_uf s) \<le> v then uf_reserve v (uf_mk_var s) else s)"
  by pat_completeness auto

termination uf_reserve
  by (relation "measure (\<lambda>(v, s). Suc v - get_num_vars (m_uf s))")
    (auto simp: uf_mk_var_def push_node_def get_num_vars_def Let_def)

declare uf_reserve.simps [simp del]

definition uf_merge :: "nat \<Rightarrow> nat \<Rightarrow> uf_state \<Rightarrow> uf_state option" where
  "uf_merge v1 v2 s = do {
     r1 \<leftarrow> uf_find (m_uf s) v1;
     r2 \<leftarrow> uf_find (m_uf s) v2;
     if r1 = r2 then Some s
     else let (r1, r2) = if m_size (m_uf s) ! r1 > m_size (m_uf s) ! r2 then (r2, r1) else (r1, r2)
          in Some (s\<lparr>m_uf := link r1 r2 (m_uf s), m_trail_stack := m_trail_stack s @ [Merge_Trail r1]\<rparr>)
   }"

fun undo :: "uf_trail \<Rightarrow> union_find \<Rightarrow> union_find" where
  "undo Mk_Var_Trail u = pop_node u"
| "undo (Merge_Trail r1) u = unmerge r1 u"

definition undo_trail_stack :: "nat \<Rightarrow> uf_state \<Rightarrow> uf_state" where
  "undo_trail_stack old_size s =
    s\<lparr>m_uf := fold undo (rev (drop old_size (m_trail_stack s))) (m_uf s),
      m_trail_stack := take old_size (m_trail_stack s)\<rparr>"

definition push_scope :: "uf_state \<Rightarrow> uf_state" where
  "push_scope s = s\<lparr>m_scopes := m_scopes s @ [length (m_trail_stack s)]\<rparr>"

definition pop_scope :: "nat \<Rightarrow> uf_state \<Rightarrow> uf_state" where
  "pop_scope num_scopes s =
    (if num_scopes = 0 then s
     else let new_lvl = length (m_scopes s) - num_scopes
          in (undo_trail_stack (m_scopes s ! new_lvl) s)\<lparr>m_scopes := take new_lvl (m_scopes s)\<rparr>)"

definition reset_trail :: "uf_state \<Rightarrow> uf_state" where
  "reset_trail s = undo_trail_stack 0 (pop_scope (length (m_scopes s)) s)"

subsection \<open>\<open>basic_union_find\<close>\<close>

definition basic_find :: "union_find \<Rightarrow> nat \<Rightarrow> nat option" where
  "basic_find u v = (if v \<ge> get_num_vars u then Some v else uf_find u v)"

definition basic_next :: "union_find \<Rightarrow> nat \<Rightarrow> nat" where
  "basic_next u v = (if v \<ge> get_num_vars u then v else m_next u ! v)"

definition basic_is_root :: "union_find \<Rightarrow> nat \<Rightarrow> bool" where
  "basic_is_root u v \<longleftrightarrow> v \<ge> get_num_vars u \<or> m_find u ! v = v"

function ensure_size :: "nat \<Rightarrow> union_find \<Rightarrow> union_find" where
  "ensure_size v u = (if v \<ge> get_num_vars u then ensure_size v (push_node u) else u)"
  by pat_completeness auto

termination ensure_size
  by (relation "measure (\<lambda>(v, u). Suc v - get_num_vars u)")
    (auto simp: push_node_def get_num_vars_def Let_def)

declare ensure_size.simps [simp del]

definition basic_merge :: "nat \<Rightarrow> nat \<Rightarrow> union_find \<Rightarrow> union_find option" where
  "basic_merge v1 v2 u = do {
     r1 \<leftarrow> basic_find u v1;
     r2 \<leftarrow> basic_find u v2;
     if r1 = r2 then Some u
     else let u = ensure_size v2 (ensure_size v1 u);
              (r1, r2) = if m_size u ! r1 > m_size u ! r2 then (r2, r1) else (r1, r2)
          in Some (link r1 r2 u)
   }"

definition basic_reset :: "union_find \<Rightarrow> union_find" where
  "basic_reset u = u\<lparr>m_find := [], m_next := [], m_size := []\<rparr>"

subsection \<open>Following parents and following \<open>m_next\<close>\<close>

inductive leads :: "union_find \<Rightarrow> nat \<Rightarrow> nat \<Rightarrow> nat \<Rightarrow> bool" for u where
  leads_root: "m_find u ! r = r \<Longrightarrow> leads u 0 r r"
| leads_parent: "m_find u ! v \<noteq> v \<Longrightarrow> leads u d (m_find u ! v) r \<Longrightarrow> leads u (Suc d) v r"

inductive_cases leads_zeroE: "leads u 0 v r"
inductive_cases leads_SucE: "leads u (Suc d) v r"

lemma leads_is_root: "leads u d v r \<Longrightarrow> is_root u r"
  by (induction rule: leads.induct) (simp_all add: is_root_def)

lemma leads_find: "leads u d v r \<Longrightarrow> uf_find u v = Some r"
  unfolding uf_find_def by (induction rule: leads.induct) (simp_all add: while_option_unfold)

lemma leads_root_iff: "is_root u v \<Longrightarrow> leads u d v r \<longleftrightarrow> d = 0 \<and> r = v"
  by (auto simp: is_root_def intro: leads_root elim: leads.cases)

definition members :: "union_find \<Rightarrow> nat \<Rightarrow> nat set" where
  "members u r = {v. v < get_num_vars u \<and> uf_find u v = Some r}"

definition orbit :: "(nat \<Rightarrow> nat) \<Rightarrow> nat \<Rightarrow> nat set" where
  "orbit f v = {w. (v, w) \<in> {(x, f x) |x. True}\<^sup>*}"

lemma orbit_self [simp]: "v \<in> orbit f v"
  by (simp add: orbit_def)

lemma orbit_step: "w \<in> orbit f v \<Longrightarrow> f w \<in> orbit f v"
  unfolding orbit_def by (auto intro: rtrancl.rtrancl_into_rtrancl)

lemma orbit_trans: "w \<in> orbit f v \<Longrightarrow> x \<in> orbit f w \<Longrightarrow> x \<in> orbit f v"
  unfolding orbit_def by auto

lemma orbit_induct [consumes 1, case_names self step]:
  assumes "w \<in> orbit f v" "P v" "\<And>w. w \<in> orbit f v \<Longrightarrow> P w \<Longrightarrow> P (f w)"
  shows "P w"
proof -
  have "(v, w) \<in> {(x, f x) |x. True}\<^sup>*" using assms(1) by (simp add: orbit_def)
  then show ?thesis
    by (induction rule: rtrancl_induct) (use assms(2,3) in \<open>auto simp: orbit_def\<close>)
qed

lemma orbit_induct_back [consumes 1, case_names self step]:
  assumes "w \<in> orbit f v" "P w" "\<And>v. w \<in> orbit f (f v) \<Longrightarrow> P (f v) \<Longrightarrow> P v"
  shows "P v"
proof -
  have "(v, w) \<in> {(x, f x) |x. True}\<^sup>*" using assms(1) by (simp add: orbit_def)
  then show ?thesis
    by (induction rule: converse_rtrancl_induct) (use assms(2,3) in \<open>auto simp: orbit_def\<close>)
qed

lemma orbit_closed: "(\<And>a. a \<in> A \<Longrightarrow> orbit f a = A) \<Longrightarrow> a \<in> A \<Longrightarrow> f a \<in> A"
  by (metis orbit_self orbit_step)

text \<open>Exchanging the successors of two elements of different cycles joins the cycles.\<close>

lemma orbit_exchange_from:
  assumes A: "\<And>a. a \<in> A \<Longrightarrow> orbit f a = A" and B: "\<And>b. b \<in> B \<Longrightarrow> orbit f b = B"
    and disj: "A \<inter> B = {}" and x: "x \<in> A" and y: "y \<in> B"
    and g: "g x = f y" "\<And>z. z \<in> A \<union> B \<Longrightarrow> z \<noteq> x \<Longrightarrow> z \<noteq> y \<Longrightarrow> g z = f z" and a: "a \<in> A"
  shows "B \<subseteq> orbit g a"
proof -
  have "x \<in> orbit f a" using A [OF a] x by simp
  then have "a \<in> A \<longrightarrow> x \<in> orbit g a"
  proof (induction rule: orbit_induct_back)
    case (step a)
    show ?case
    proof
      assume a: "a \<in> A"
      have fa: "f a \<in> A" by (rule orbit_closed [OF A a])
      show "x \<in> orbit g a"
      proof (cases "a = x")
        case False
        then have "g a = f a" using g(2) [of a] a y disj by blast
        then show ?thesis using step fa orbit_step [of a g a] by (metis orbit_self orbit_trans)
      qed simp
    qed
  qed simp
  then have x_a: "f y \<in> orbit g a" using orbit_step [of x g a] g(1) a by simp
  have fy: "f y \<in> B" by (rule orbit_closed [OF B y])
  have "b \<in> orbit g (f y)" if "b \<in> B" for b
  proof -
    have "b \<in> orbit f (f y)" using B [OF fy] that by simp
    then show ?thesis
    proof (induction rule: orbit_induct)
      case (step w)
      have w: "w \<in> B" using step(1) B [OF fy] by simp
      show ?case
      proof (cases "w = y")
        case False
        then have "g w = f w" using g(2) [of w] w x disj by blast
        then show ?thesis using orbit_step [OF step(2)] by simp
      qed simp
    qed simp
  qed
  then show ?thesis using x_a orbit_trans by blast
qed

lemma orbit_exchange:
  assumes A: "\<And>a. a \<in> A \<Longrightarrow> orbit f a = A" and B: "\<And>b. b \<in> B \<Longrightarrow> orbit f b = B"
    and disj: "A \<inter> B = {}" and x: "x \<in> A" and y: "y \<in> B" and v: "v \<in> A \<union> B"
  shows "orbit (f(x := f y, y := f x)) v = A \<union> B"
proof -
  let ?g = "f(x := f y, y := f x)"
  have xy: "x \<noteq> y" using disj x y by blast
  have B_sub: "B \<subseteq> orbit ?g a" if "a \<in> A" for a
    by (rule orbit_exchange_from [OF A B disj x y _ _ that]) (use xy in auto)
  have A_sub: "A \<subseteq> orbit ?g b" if "b \<in> B" for b
    by (rule orbit_exchange_from [OF B A _ y x _ _ that]) (use xy disj in auto)
  have sub: "A \<union> B \<subseteq> orbit ?g v"
    using v A_sub B_sub x y orbit_trans [of _ ?g v] by blast
  note closed = orbit_closed [OF A] orbit_closed [OF B]
  have "w \<in> A \<union> B" if "w \<in> orbit ?g v" for w
    using that by (induction rule: orbit_induct) (use v closed x y in auto)
  then show ?thesis using sub by blast
qed

lemma orbit_cong:
  assumes "\<And>a. a \<in> A \<Longrightarrow> f a \<in> A" "\<And>a. a \<in> A \<Longrightarrow> g a = f a" "v \<in> A"
  shows "orbit g v = orbit f v"
proof -
  have "w \<in> orbit f v \<and> w \<in> A" if "w \<in> orbit g v" for w
    using that by (induction rule: orbit_induct) (use assms in \<open>auto intro: orbit_step\<close>)
  moreover have "w \<in> orbit g v \<and> w \<in> A" if "w \<in> orbit f v" for w
    using that
  proof (induction rule: orbit_induct)
    case (step w)
    then show ?case using assms orbit_step [of w g v] by auto
  qed (use assms in simp)
  ultimately show ?thesis by blast
qed

subsection \<open>The invariant\<close>

text \<open>
  Every variable leads to a root in at most the logarithm of the size of its class many steps; the
  size of a root is that of its class; following \<open>m_next\<close> runs through the class.
\<close>

definition uf_ok :: "union_find \<Rightarrow> bool" where
  "uf_ok u \<longleftrightarrow>
    length (m_size u) = get_num_vars u \<and> length (m_next u) = get_num_vars u
    \<and> (\<forall>v < get_num_vars u. m_find u ! v < get_num_vars u)
    \<and> (\<forall>v < get_num_vars u. \<exists>d r. leads u d v r \<and> r < get_num_vars u \<and> 2 ^ d \<le> m_size u ! r)
    \<and> (\<forall>r < get_num_vars u. is_root u r \<longrightarrow> m_size u ! r = card (members u r))
    \<and> (\<forall>v < get_num_vars u. orbit (uf_next u) v = {w. w < get_num_vars u \<and> uf_find u w = uf_find u v})"

lemma uf_okD:
  assumes "uf_ok u"
  shows "length (m_size u) = get_num_vars u" "length (m_next u) = get_num_vars u"
    "v < get_num_vars u \<Longrightarrow> m_find u ! v < get_num_vars u"
    "r < get_num_vars u \<Longrightarrow> is_root u r \<Longrightarrow> m_size u ! r = card (members u r)"
    "v < get_num_vars u \<Longrightarrow> orbit (uf_next u) v = {w. w < get_num_vars u \<and> uf_find u w = uf_find u v}"
  using assms unfolding uf_ok_def by blast+

lemma uf_ok_leads:
  assumes "uf_ok u" "v < get_num_vars u"
  obtains d r where "leads u d v r" "uf_find u v = Some r" "r < get_num_vars u" "is_root u r"
    "2 ^ d \<le> m_size u ! r"
proof -
  obtain d r where "leads u d v r" "r < get_num_vars u" "2 ^ d \<le> m_size u ! r"
    using assms unfolding uf_ok_def by blast
  then show thesis using that leads_find leads_is_root by blast
qed

lemma find_root: "is_root u r \<Longrightarrow> uf_find u r = Some r"
  by (simp add: leads_find leads_root_iff)

lemma uf_find_Some:
  assumes "uf_ok u" "v < get_num_vars u" "uf_find u v = Some r"
  shows "is_root u r \<and> r < get_num_vars u \<and> uf_find u r = Some r"
  using uf_ok_leads [OF assms(1,2)] assms(3) find_root by (metis option.inject)

lemma members_root:
  assumes "is_root u r" "r < get_num_vars u"
  shows "r \<in> members u r"
  using assms find_root by (simp add: members_def)

lemma members_disjoint: "r1 \<noteq> r2 \<Longrightarrow> members u r1 \<inter> members u r2 = {}"
  by (auto simp: members_def)

lemma finite_members [simp]: "finite (members u r)"
  by (simp add: members_def)

lemma orbit_members:
  assumes "uf_ok u" "v \<in> members u r"
  shows "orbit (uf_next u) v = members u r"
  using assms uf_okD(5) [OF assms(1)] by (simp add: members_def)

lemma uf_ok_empty: "uf_ok empty_uf"
  by (simp add: uf_ok_def empty_uf_def get_num_vars_def)

paragraph \<open>New variables\<close>

lemma push_node_sel [simp]:
  "m_find (push_node u) = m_find u @ [get_num_vars u]"
  "m_size (push_node u) = m_size u @ [1]"
  "m_next (push_node u) = m_next u @ [get_num_vars u]"
  "get_num_vars (push_node u) = Suc (get_num_vars u)"
  by (simp_all add: push_node_def get_num_vars_def Let_def)

lemma pop_push_node [simp]: "pop_node (push_node u) = u"
  by (simp add: pop_node_def)

lemma leads_cong:
  assumes "leads u d v r" "v \<in> A" "\<And>w. w \<in> A \<Longrightarrow> m_find u' ! w = m_find u ! w \<and> m_find u ! w \<in> A"
  shows "leads u' d v r"
  using assms(1,2)
proof (induction rule: leads.induct)
  case (leads_root r)
  then show ?case using assms(3) by (auto intro: leads.leads_root)
next
  case (leads_parent v d r)
  then show ?case using assms(3) by (auto intro: leads.leads_parent)
qed

lemma leads_push_node:
  assumes "uf_ok u" "v < get_num_vars u" "leads u d v r"
  shows "leads (push_node u) d v r"
  by (rule leads_cong [OF assms(3), of "{..< get_num_vars u}"])
    (use assms(1,2) uf_okD(3) in \<open>auto simp: nth_append get_num_vars_def\<close>)

lemma is_root_push_node: "is_root (push_node u) (get_num_vars u)"
  by (simp add: is_root_def nth_append get_num_vars_def)

lemma find_push_node:
  assumes "uf_ok u"
  shows "v < get_num_vars u \<Longrightarrow> uf_find (push_node u) v = uf_find u v"
    "uf_find (push_node u) (get_num_vars u) = Some (get_num_vars u)"
  using uf_ok_leads [OF assms] leads_push_node [OF assms] leads_find
  by (metis, simp add: find_root is_root_push_node)

lemma members_push_node:
  assumes "uf_ok u"
  shows "r < get_num_vars u \<Longrightarrow> members (push_node u) r = members u r"
    "members (push_node u) (get_num_vars u) = {get_num_vars u}"
  using find_push_node [OF assms] uf_ok_leads [OF assms]
  by (auto simp: members_def less_Suc_eq) (metis nat_neq_iff option.inject)+

lemma uf_ok_push_node:
  assumes ok: "uf_ok u"
  shows "uf_ok (push_node u)"
proof -
  let ?n = "get_num_vars u" and ?u = "push_node u"
  have lens: "length (m_find u) = ?n" "length (m_size u) = ?n" "length (m_next u) = ?n"
    using uf_okD(1,2) [OF ok] by (simp_all add: get_num_vars_def)
  have "\<exists>d r. leads ?u d v r \<and> r < Suc ?n \<and> 2 ^ d \<le> m_size ?u ! r" if "v < Suc ?n" for v
  proof (cases "v = ?n")
    case True
    then have "leads ?u 0 v v" using is_root_push_node leads_root_iff by blast
    then show ?thesis using True lens by (force simp: nth_append)
  next
    case False
    then have "v < ?n" using that by simp
    then obtain d r where "leads u d v r" "r < ?n" "2 ^ d \<le> m_size u ! r"
      using uf_ok_leads [OF ok] by blast
    then show ?thesis using leads_push_node [OF ok \<open>v < ?n\<close>] lens by (force simp: nth_append)
  qed
  moreover have "m_size ?u ! r = card (members ?u r)" if "r < Suc ?n" "is_root ?u r" for r
    using that uf_okD(4) [OF ok] members_push_node [OF ok] lens
    by (cases "r = ?n") (auto simp: nth_append is_root_def)
  moreover have "orbit (uf_next ?u) v = {w. w < Suc ?n \<and> uf_find ?u w = uf_find ?u v}" if "v < Suc ?n" for v
  proof (cases "v = ?n")
    case True
    have "orbit (uf_next ?u) v = orbit id v"
      by (rule orbit_cong [of "{v}"]) (use True lens in \<open>auto simp: uf_next_def nth_append\<close>)
    moreover have "w \<in> orbit id v \<Longrightarrow> w = v" for w by (induction rule: orbit_induct) auto
    moreover have "{w. w < Suc ?n \<and> uf_find ?u w = uf_find ?u v} = members ?u ?n"
      using True find_push_node(2) [OF ok] by (auto simp: members_def)
    ultimately show ?thesis using True members_push_node(2) [OF ok] by auto
  next
    case False
    then have v: "v < ?n" using that by simp
    have "uf_next u w < ?n" if "w < ?n" for w
      using uf_okD(5) [OF ok that] orbit_step [OF orbit_self] by blast
    then have "orbit (uf_next ?u) v = orbit (uf_next u) v"
      using v lens by (intro orbit_cong [of "{..< ?n}"]) (auto simp: uf_next_def nth_append)
    moreover have "uf_find u v \<noteq> Some ?n" using uf_ok_leads [OF ok v] by (metis nat_neq_iff option.inject)
    moreover have "{w. w < Suc ?n \<and> uf_find ?u w = uf_find ?u v} = {w. w < ?n \<and> uf_find u w = uf_find u v}"
      if "uf_find u v \<noteq> Some ?n"
      using that find_push_node [OF ok] v by (auto simp: less_Suc_eq)
    ultimately show ?thesis using uf_okD(5) [OF ok v] by simp
  qed
  ultimately show ?thesis
    using lens uf_okD(3) [OF ok] by (auto simp: uf_ok_def nth_append less_Suc_eq)
qed

paragraph \<open>Merged classes\<close>

lemma link_sel [simp]:
  "m_find (link r1 r2 u) = (m_find u)[r1 := r2]"
  "m_size (link r1 r2 u) = (m_size u)[r2 := m_size u ! r2 + m_size u ! r1]"
  "m_next (link r1 r2 u) = (m_next u)[r1 := m_next u ! r2, r2 := m_next u ! r1]"
  "get_num_vars (link r1 r2 u) = get_num_vars u"
  by (simp_all add: link_def swap_next_def get_num_vars_def)

definition can_link :: "nat \<Rightarrow> nat \<Rightarrow> union_find \<Rightarrow> bool" where
  "can_link r1 r2 u \<longleftrightarrow>
    uf_ok u \<and> is_root u r1 \<and> is_root u r2 \<and> r1 < get_num_vars u \<and> r2 < get_num_vars u \<and> r1 \<noteq> r2
    \<and> m_size u ! r1 \<le> m_size u ! r2"

lemma can_linkD:
  assumes "can_link r1 r2 u"
  shows "uf_ok u" "is_root u r1" "is_root u r2" "r1 < get_num_vars u" "r2 < get_num_vars u" "r1 \<noteq> r2"
    "m_size u ! r1 \<le> m_size u ! r2"
    "length (m_find u) = get_num_vars u" "length (m_size u) = get_num_vars u" "length (m_next u) = get_num_vars u"
  using assms uf_okD(1,2) by (auto simp: can_link_def get_num_vars_def)

lemma unmerge_link:
  assumes "can_link r1 r2 u"
  shows "unmerge r1 (link r1 r2 u) = u"
  using can_linkD [OF assms]
  by (simp add: unmerge_def link_def swap_next_def Let_def is_root_def list_update_swap list_update_same_conv)

lemma leads_link:
  assumes l: "can_link r1 r2 u" and "leads u d v r"
  shows "leads (link r1 r2 u) (if r = r1 then Suc d else d) v (if r = r1 then r2 else r)"
  using assms(2)
proof (induction rule: leads.induct)
  case (leads_root r)
  note l = can_linkD [OF l]
  have r2: "leads (link r1 r2 u) 0 r2 r2"
    by (rule leads.leads_root) (use l in \<open>simp add: is_root_def\<close>)
  show ?case
  proof (cases "r = r1")
    case True
    have "leads (link r1 r2 u) (Suc 0) r1 r2"
      by (rule leads.leads_parent) (use l r2 in simp_all)
    then show ?thesis using True by simp
  next
    case False
    then have "m_find (link r1 r2 u) ! r = r" using leads_root by simp
    then show ?thesis using False leads.leads_root by simp
  qed
next
  case (leads_parent v d r)
  have "v \<noteq> r1" using leads_parent(1) can_linkD(2) [OF l] by (auto simp: is_root_def)
  then have "m_find (link r1 r2 u) ! v = m_find u ! v" by simp
  then show ?case using leads_parent leads.leads_parent [of "link r1 r2 u" v] by (simp split: if_splits)
qed

lemma find_link:
  assumes "can_link r1 r2 u" "v < get_num_vars u"
  shows "uf_find (link r1 r2 u) v = (if uf_find u v = Some r1 then Some r2 else uf_find u v)"
proof -
  obtain d r where "leads u d v r" "uf_find u v = Some r"
    by (rule uf_ok_leads [OF can_linkD(1) [OF assms(1)] assms(2)])
  then show ?thesis using leads_find [OF leads_link [OF assms(1)]] by auto
qed

lemma is_root_link:
  assumes "can_link r1 r2 u"
  shows "is_root (link r1 r2 u) r \<longleftrightarrow> is_root u r \<and> r \<noteq> r1"
  using can_linkD [OF assms] by (auto simp: is_root_def nth_list_update)

lemma members_link:
  assumes "can_link r1 r2 u"
  shows "members (link r1 r2 u) r2 = members u r1 \<union> members u r2"
    "r \<noteq> r1 \<Longrightarrow> r \<noteq> r2 \<Longrightarrow> members (link r1 r2 u) r = members u r"
  using find_link [OF assms] can_linkD(6) [OF assms] by (auto simp: members_def split: if_splits)

lemma orbit_link:
  assumes l: "can_link r1 r2 u" and v: "v < get_num_vars u" "uf_find (link r1 r2 u) v = Some r"
  shows "orbit (uf_next (link r1 r2 u)) v = members (link r1 r2 u) r"
proof -
  note l' = can_linkD [OF l]
  let ?f = "uf_next u"
  have nx: "uf_next (link r1 r2 u) = ?f(r1 := ?f r2, r2 := ?f r1)"
    using l' by (auto simp: uf_next_def fun_eq_iff nth_list_update)
  obtain q where q: "uf_find u v = Some q" by (rule uf_ok_leads [OF l'(1) v(1)])
  have in_q: "v \<in> members u q" using q v(1) by (simp add: members_def)
  note orb = orbit_members [OF l'(1)]
  show ?thesis
  proof (cases "q = r1 \<or> q = r2")
    case True
    then have "r = r2" using find_link [OF l v(1)] q v(2) by (auto split: if_splits)
    moreover have "orbit (?f(r1 := ?f r2, r2 := ?f r1)) v = members u r1 \<union> members u r2"
      by (rule orbit_exchange [OF orb orb members_disjoint [OF l'(6)] members_root members_root])
        (use l' in_q True in auto)
    ultimately show ?thesis using members_link(1) [OF l] nx by simp
  next
    case False
    then have r: "r = q" using find_link [OF l v(1)] q v(2) by simp
    have "orbit (uf_next (link r1 r2 u)) v = orbit ?f v"
    proof (rule orbit_cong [OF _ _ in_q])
      show "?f a \<in> members u q" if "a \<in> members u q" for a by (rule orbit_closed [OF orb that])
      show "uf_next (link r1 r2 u) a = ?f a" if "a \<in> members u q" for a
        using that False find_root l'(2,3) unfolding nx by (auto simp: members_def)
    qed
    then show ?thesis using orb [OF in_q] members_link(2) [OF l] False r by simp
  qed
qed

lemma uf_ok_link:
  assumes l: "can_link r1 r2 u"
  shows "uf_ok (link r1 r2 u)"
proof -
  note l' = can_linkD [OF l]
  let ?n = "get_num_vars u" and ?u = "link r1 r2 u"
  have depth: "\<exists>d r. leads ?u d v r \<and> r < ?n \<and> 2 ^ d \<le> m_size ?u ! r" if v: "v < ?n" for v
  proof -
    obtain d r where r: "leads u d v r" "r < ?n" "2 ^ d \<le> m_size u ! r" by (rule uf_ok_leads [OF l'(1) v])
    have "(2::nat) ^ (if r = r1 then Suc d else d) \<le> m_size ?u ! (if r = r1 then r2 else r)"
      using r(2,3) l' by (auto simp: nth_list_update)
    then show ?thesis using leads_link [OF l r(1)] r(2) l'(5) by (metis (full_types))
  qed
  have size: "m_size ?u ! r = card (members ?u r)" if "r < ?n" "is_root ?u r" for r
  proof (cases "r = r2")
    case True
    then have "card (members ?u r) = card (members u r1) + card (members u r2)"
      using members_link(1) [OF l] card_Un_disjoint [OF _ _ members_disjoint [OF l'(6)]] by simp
    then show ?thesis using True uf_okD(4) [OF l'(1)] l' by simp
  next
    case False
    then show ?thesis
      using that uf_okD(4) [OF l'(1)] members_link(2) [OF l] is_root_link [OF l] l'(9) by simp
  qed
  have orbit: "orbit (uf_next ?u) v = {w. w < ?n \<and> uf_find ?u w = uf_find ?u v}" if v: "v < ?n" for v
  proof -
    obtain r where "uf_find ?u v = Some r"
      using find_link [OF l v] uf_ok_leads [OF l'(1) v] by metis
    then show ?thesis using orbit_link [OF l v] by (simp add: members_def)
  qed
  show ?thesis
    unfolding uf_ok_def using depth size orbit l' uf_okD(3) [OF l'(1)] by (simp add: nth_list_update)
qed


subsection \<open>Partitions\<close>

type_synonym partition = "nat \<times> (nat \<times> nat) set"

definition same :: "union_find \<Rightarrow> (nat \<times> nat) set" where
  "same u = {(x, y). x < get_num_vars u \<and> y < get_num_vars u \<and> uf_find u x = uf_find u y}"

definition partition_of :: "union_find \<Rightarrow> partition" where
  "partition_of u = (get_num_vars u, same u)"

definition join :: "nat \<Rightarrow> nat \<Rightarrow> (nat \<times> nat) set \<Rightarrow> (nat \<times> nat) set" where
  "join a b R = R \<union> {(x, y). (x, a) \<in> R \<and> (b, y) \<in> R \<or> (x, b) \<in> R \<and> (a, y) \<in> R}"

lemma partition_push_node:
  assumes "uf_ok u"
  shows "partition_of (push_node u) = (Suc (get_num_vars u), insert (get_num_vars u, get_num_vars u) (same u))"
proof -
  have "uf_find u v \<noteq> Some (get_num_vars u)" if "v < get_num_vars u" for v
    using uf_ok_leads [OF assms that] by (metis nat_neq_iff option.inject)
  then show ?thesis
    using find_push_node [OF assms] by (auto simp: partition_of_def same_def less_Suc_eq)
qed

lemma same_link:
  assumes "can_link r1 r2 u" "a < get_num_vars u" "b < get_num_vars u"
    and "(uf_find u a, uf_find u b) \<in> {(Some r1, Some r2), (Some r2, Some r1)}"
  shows "same (link r1 r2 u) = join a b (same u)"
proof -
  have "(x, y) \<in> same (link r1 r2 u) \<longleftrightarrow> (x, y) \<in> join a b (same u)" for x y
  proof (cases "x < get_num_vars u \<and> y < get_num_vars u")
    case True
    note link = find_link [OF assms(1) conjunct1 [OF True]] find_link [OF assms(1) conjunct2 [OF True]]
    consider "uf_find u a = Some r1" "uf_find u b = Some r2" | "uf_find u a = Some r2" "uf_find u b = Some r1"
      using assms(4) by blast
    then show ?thesis
      using True assms(2,3) can_linkD(6) [OF assms(1)] by cases (auto simp: same_def join_def link)
  qed (auto simp: same_def join_def)
  then show ?thesis by auto
qed

lemma join_same:
  assumes "(a, b) \<in> same u"
  shows "join a b (same u) = same u"
  using assms by (auto simp: join_def same_def)

text \<open>The choice of the roots, shared by both structures.\<close>

lemma merge_roots:
  assumes "uf_ok u" "a < get_num_vars u" "b < get_num_vars u"
    "uf_find u a = Some r1" "uf_find u b = Some r2" "r1 \<noteq> r2"
    "(q1, q2) = (if m_size u ! r1 > m_size u ! r2 then (r2, r1) else (r1, r2))"
  shows "can_link q1 q2 u \<and> same (link q1 q2 u) = join a b (same u)"
proof -
  have "can_link q1 q2 u"
    using assms(1,6,7) uf_find_Some [OF assms(1,2,4)] uf_find_Some [OF assms(1,3,5)]
    by (auto simp: can_link_def split: if_splits)
  moreover have "(uf_find u a, uf_find u b) \<in> {(Some q1, Some q2), (Some q2, Some q1)}"
    using assms(4,5,7) by (auto split: if_splits)
  ultimately show ?thesis using same_link assms(2,3) by blast
qed

subsection \<open>Backtracking\<close>

text \<open>The structures that a sequence of changes leads to, with their trail.\<close>

inductive history :: "union_find \<Rightarrow> uf_trail list \<Rightarrow> bool" where
  history_start: "history empty_uf []"
| history_mk_var: "history u ts \<Longrightarrow> history (push_node u) (ts @ [Mk_Var_Trail])"
| history_merge: "history u ts \<Longrightarrow> can_link r1 r2 u \<Longrightarrow> history (link r1 r2 u) (ts @ [Merge_Trail r1])"

lemma history_ok: "history u ts \<Longrightarrow> uf_ok u"
  by (induction rule: history.induct) (simp_all add: uf_ok_empty uf_ok_push_node uf_ok_link)

inductive_cases history_NilE: "history u []"

lemma history_undo:
  "history u ts \<Longrightarrow> k \<le> length ts \<Longrightarrow> history (fold undo (rev (drop k ts)) u) (take k ts)"
proof (induction rule: history.induct)
  case (history_mk_var u ts)
  then show ?case using history.history_mk_var [of u ts] by (cases "k \<le> length ts") (auto simp: le_Suc_eq)
next
  case (history_merge u ts r1 r2)
  then show ?case
    using history.history_merge [of u ts r1 r2] unmerge_link
    by (cases "k \<le> length ts") (auto simp: le_Suc_eq)
qed (simp add: history_start)

definition uf_inv :: "uf_state \<Rightarrow> bool" where
  "uf_inv s \<longleftrightarrow> history (m_uf s) (m_trail_stack s) \<and> sorted (m_scopes s @ [length (m_trail_stack s)])"

lemma uf_inv_ok: "uf_inv s \<Longrightarrow> uf_ok (m_uf s)"
  by (auto simp: uf_inv_def history_ok)

text \<open>The structure at an earlier size of the trail, and the partitions of all scopes, innermost first.\<close>

definition back_to :: "nat \<Rightarrow> uf_state \<Rightarrow> union_find" where
  "back_to k s = fold undo (rev (drop k (m_trail_stack s))) (m_uf s)"

definition levels :: "uf_state \<Rightarrow> partition list" where
  "levels s = rev (map (\<lambda>k. partition_of (back_to k s)) (m_scopes s @ [length (m_trail_stack s)]))"

lemma back_to_now [simp]: "back_to (length (m_trail_stack s)) s = m_uf s"
  by (simp add: back_to_def)

lemma hd_levels [simp]: "hd (levels s) = partition_of (m_uf s)"
  by (simp add: levels_def)

lemma length_levels [simp]: "length (levels s) = Suc (length (m_scopes s))"
  by (simp add: levels_def)

lemma levels_extend:
  assumes "uf_inv s" "undo t u = m_uf s"
  shows "levels (s\<lparr>m_uf := u, m_trail_stack := m_trail_stack s @ [t]\<rparr>) = partition_of u # tl (levels s)"
proof -
  have "k \<le> length (m_trail_stack s)" if "k \<in> set (m_scopes s)" for k
    using assms(1) that by (auto simp: uf_inv_def sorted_append)
  then show ?thesis using assms(2) by (simp add: levels_def back_to_def)
qed

lemma uf_inv_extend:
  assumes "uf_inv s" "history u (m_trail_stack s @ [t])"
  shows "uf_inv (s\<lparr>m_uf := u, m_trail_stack := m_trail_stack s @ [t]\<rparr>)"
  using assms by (auto simp: uf_inv_def sorted_append intro: le_SucI)

lemma uf_inv_new: "uf_inv new_union_find" "levels new_union_find = [(0, {})]"
proof -
  show "uf_inv new_union_find" by (simp add: uf_inv_def new_union_find_def history_start)
  show "levels new_union_find = [(0, {})]"
    by (simp add: new_union_find_def levels_def back_to_def partition_of_def same_def get_num_vars_def
        empty_uf_def)
qed

lemma uf_mk_var_ok:
  assumes "uf_inv s"
  shows "uf_inv (uf_mk_var s)"
    "levels (uf_mk_var s) = partition_of (push_node (m_uf s)) # tl (levels s)"
proof -
  have "history (push_node (m_uf s)) (m_trail_stack s @ [Mk_Var_Trail])"
    using assms by (simp add: uf_inv_def history_mk_var)
  then show "uf_inv (uf_mk_var s)"
    "levels (uf_mk_var s) = partition_of (push_node (m_uf s)) # tl (levels s)"
    unfolding uf_mk_var_def using uf_inv_extend [OF assms] levels_extend [OF assms] by auto
qed

lemma uf_merge_ok:
  assumes s: "uf_inv s" "a < get_num_vars (m_uf s)" "b < get_num_vars (m_uf s)"
  obtains s' where "uf_merge a b s = Some s'" "uf_inv s'" "same (m_uf s') = join a b (same (m_uf s))"
    "get_num_vars (m_uf s') = get_num_vars (m_uf s)" "levels s' = partition_of (m_uf s') # tl (levels s)"
proof -
  note ok = uf_inv_ok [OF s(1)]
  obtain r1 r2 where r: "uf_find (m_uf s) a = Some r1" "uf_find (m_uf s) b = Some r2"
    using uf_ok_leads [OF ok s(2)] uf_ok_leads [OF ok s(3)] by metis
  show thesis
  proof (cases "r1 = r2")
    case True
    then have "(a, b) \<in> same (m_uf s)" using r s by (simp add: same_def)
    then have "join a b (same (m_uf s)) = same (m_uf s)" by (rule join_same)
    moreover have "levels s = partition_of (m_uf s) # tl (levels s)"
      by (metis hd_levels length_levels list.collapse list.size(3) nat.distinct(1))
    ultimately show thesis using that [of s] s r True by (simp add: uf_merge_def)
  next
    case False
    obtain q1 q2 where q: "(q1, q2) = (if m_size (m_uf s) ! r1 > m_size (m_uf s) ! r2 then (r2, r1) else (r1, r2))"
      by (metis surj_pair)
    note l = merge_roots [OF ok s(2,3) r False q]
    let ?s = "s\<lparr>m_uf := link q1 q2 (m_uf s), m_trail_stack := m_trail_stack s @ [Merge_Trail q1]\<rparr>"
    have "uf_merge a b s = Some ?s" using r False q [symmetric] by (simp add: uf_merge_def)
    moreover have "uf_inv ?s"
      by (rule uf_inv_extend [OF s(1)]) (use s l in \<open>auto simp: uf_inv_def intro: history_merge\<close>)
    moreover have "levels ?s = partition_of (link q1 q2 (m_uf s)) # tl (levels s)"
      by (rule levels_extend [OF s(1)]) (use l unmerge_link in simp)
    ultimately show thesis using that l by simp
  qed
qed

lemma push_scope_ok:
  assumes "uf_inv s"
  shows "uf_inv (push_scope s)" "levels (push_scope s) = hd (levels s) # levels s"
  using assms by (auto simp: push_scope_def uf_inv_def levels_def back_to_def sorted_append)

lemma undo_trail_stack_ok:
  assumes "uf_inv s" "k \<le> length (m_trail_stack s)"
  shows "history (m_uf (undo_trail_stack k s)) (m_trail_stack (undo_trail_stack k s))"
    "j \<le> k \<Longrightarrow> back_to j (undo_trail_stack k s) = back_to j s"
proof -
  show "history (m_uf (undo_trail_stack k s)) (m_trail_stack (undo_trail_stack k s))"
    using assms history_undo by (simp add: undo_trail_stack_def uf_inv_def)
  assume "j \<le> k"
  then have "drop j (m_trail_stack s) = drop j (take k (m_trail_stack s)) @ drop k (m_trail_stack s)"
    by (metis append_take_drop_id assms(2) drop_append diff_is_0_eq drop0 length_take min.absorb2)
  then show "back_to j (undo_trail_stack k s) = back_to j s"
    by (simp add: back_to_def undo_trail_stack_def)
qed

lemma pop_scope_ok:
  assumes s: "uf_inv s" and k: "k \<le> length (m_scopes s)"
  shows "uf_inv (pop_scope k s)" "levels (pop_scope k s) = drop k (levels s)"
proof -
  have "uf_inv (pop_scope k s) \<and> levels (pop_scope k s) = drop k (levels s)"
  proof (cases "k = 0")
    case False
    define lvl old where "lvl = length (m_scopes s) - k" and "old = m_scopes s ! lvl"
    have lvl: "lvl < length (m_scopes s)" using False k by (simp add: lvl_def)
    let ?t = "length (m_trail_stack s)" and ?s = "(undo_trail_stack old s)\<lparr>m_scopes := take lvl (m_scopes s)\<rparr>"
    have pop: "pop_scope k s = ?s" using False by (simp add: pop_scope_def lvl_def old_def Let_def)
    have sorted: "sorted (m_scopes s @ [?t])" using s by (simp add: uf_inv_def)
    have old: "old \<le> ?t" using sorted lvl by (simp add: old_def sorted_append)
    note undone = undo_trail_stack_ok [OF s old]
    have trail: "length (m_trail_stack ?s) = old" using old by (simp add: undo_trail_stack_def)
    have scopes: "take lvl (m_scopes s) @ [old] = take (Suc lvl) (m_scopes s @ [?t])"
      using lvl by (simp add: old_def take_Suc_conv_app_nth)
    have "sorted (take lvl (m_scopes s) @ [old])"
      unfolding scopes by (rule sorted_wrt_take [OF sorted])
    then have inv: "uf_inv ?s" using undone(1) trail by (simp add: uf_inv_def)
    have below: "j \<le> old" if "j \<in> set (take lvl (m_scopes s) @ [old])" for j
      using that \<open>sorted (take lvl (m_scopes s) @ [old])\<close> by (auto simp: sorted_append)
    have "levels ?s = rev (map (\<lambda>k. partition_of (back_to k ?s)) (take lvl (m_scopes s) @ [old]))"
      unfolding levels_def trail by simp
    also have "map (\<lambda>k. partition_of (back_to k ?s)) (take lvl (m_scopes s) @ [old])
        = map (\<lambda>k. partition_of (back_to k s)) (take lvl (m_scopes s) @ [old])"
      by (rule map_cong) (use undone(2) below in \<open>auto simp: back_to_def\<close>)
    finally have eq: "levels ?s = rev (map (\<lambda>k. partition_of (back_to k s)) (take (Suc lvl) (m_scopes s @ [?t])))"
      unfolding scopes .
    have "rev (map f (take (Suc lvl) xs)) = drop (length xs - Suc lvl) (rev (map f xs))"
      for f :: "nat \<Rightarrow> partition" and xs by (simp add: take_map [symmetric] rev_take)
    then have "levels ?s = drop k (levels s)"
      unfolding eq unfolding levels_def using k lvl False by (simp add: lvl_def drop_Cons')
    then show ?thesis using inv pop by simp
  qed (use s in \<open>simp add: pop_scope_def\<close>)
  then show "uf_inv (pop_scope k s)" "levels (pop_scope k s) = drop k (levels s)" by simp_all
qed

lemma reset_trail_ok:
  assumes "uf_inv s"
  shows "reset_trail s = new_union_find"
proof -
  note pop = pop_scope_ok [OF assms order_refl]
  have "history (m_uf (reset_trail s)) (m_trail_stack (reset_trail s))"
    unfolding reset_trail_def by (rule undo_trail_stack_ok(1) [OF pop(1)]) simp
  moreover have "m_trail_stack (reset_trail s) = []" by (simp add: reset_trail_def undo_trail_stack_def)
  ultimately have "m_uf (reset_trail s) = empty_uf" by (auto elim: history_NilE)
  moreover have "m_scopes (reset_trail s) = []"
    by (simp add: reset_trail_def undo_trail_stack_def pop_scope_def Let_def)
  ultimately show ?thesis using \<open>m_trail_stack (reset_trail s) = []\<close> by (simp add: new_union_find_def)
qed


subsection \<open>Cycles\<close>

lemma orbit_funpow: "orbit f v = {(f ^^ i) v |i. True}"
proof -
  have "\<exists>i. w = (f ^^ i) v" if "w \<in> orbit f v" for w
    using that
  proof (induction rule: orbit_induct)
    case self
    show ?case by (rule exI [of _ 0]) simp
  next
    case (step w)
    then obtain i where "w = (f ^^ i) v" by blast
    then show ?case by (intro exI [of _ "Suc i"]) simp
  qed
  moreover have "(f ^^ i) v \<in> orbit f v" for i
    by (induction i) (simp_all add: orbit_step)
  ultimately show ?thesis by blast
qed

text \<open>A cycle comes back to its start for the first time after as many steps as it has elements.\<close>

lemma cycle_length:
  assumes "v \<in> orbit f (f v)"
  obtains k where "(f ^^ Suc k) v = v" "\<forall>i. 0 < i \<longrightarrow> i \<le> k \<longrightarrow> (f ^^ i) v \<noteq> v"
    "card (orbit f v) = Suc k"
proof -
  define k where "k = (LEAST i. (f ^^ Suc i) v = v)"
  obtain i where "v = (f ^^ i) (f v)" using assms unfolding orbit_funpow by blast
  then have "(f ^^ Suc i) v = v" by (simp add: funpow_swap1)
  then have k: "(f ^^ Suc k) v = v" unfolding k_def by (rule LeastI)
  have least: "(f ^^ i) v \<noteq> v" if "0 < i" "i \<le> k" for i
    using not_less_Least [of "i - 1" "\<lambda>i. (f ^^ Suc i) v = v"] that by (cases i) (auto simp: k_def)
  have "(f ^^ i) v = (f ^^ (i mod Suc k)) v" for i
    by (rule funpow_mod_eq [OF k, symmetric])
  then have "orbit f v = (\<lambda>i. (f ^^ i) v) ` {..<Suc k}"
    unfolding orbit_funpow by (auto, metis imageI lessThan_iff mod_less_divisor zero_less_Suc)
  moreover have "inj_on (\<lambda>i. (f ^^ i) v) {..<Suc k}"
  proof (rule linorder_inj_onI)
    fix i j :: nat
    assume ij: "i < j" "i \<in> {..<Suc k}" "j \<in> {..<Suc k}"
    show "(f ^^ i) v \<noteq> (f ^^ j) v"
    proof
      assume "(f ^^ i) v = (f ^^ j) v"
      then have "(f ^^ (Suc k - j)) ((f ^^ i) v) = (f ^^ (Suc k - j)) ((f ^^ j) v)" by simp
      then have "(f ^^ (Suc k - j + i)) v = (f ^^ (Suc k - j + j)) v"
        by (simp only: funpow_add comp_apply)
      also have "Suc k - j + j = Suc k" using ij(3) by simp
      finally have "(f ^^ (Suc k - j + i)) v = v" unfolding k .
      moreover have "0 < Suc k - j + i" "Suc k - j + i \<le> k" using ij(1,3) unfolding lessThan_iff by arith+
      ultimately show False using least [of "Suc k - j + i"] by (simp only: not_True_eq_False)
    qed
  qed auto
  ultimately have "card (orbit f v) = Suc k" by (simp add: card_image)
  then show thesis using that [OF k] least by blast
qed

lemma uf_next_cycle:
  assumes "uf_ok u" "v < get_num_vars u"
  shows "v \<in> orbit (uf_next u) (uf_next u v)"
proof -
  have "uf_next u v \<in> orbit (uf_next u) v" by (simp add: orbit_step)
  then have "uf_next u v < get_num_vars u" "uf_find u (uf_next u v) = uf_find u v"
    using uf_okD(5) [OF assms] by auto
  then show ?thesis using uf_okD(5) [OF assms(1)] assms(2) by simp
qed

text \<open>A loop that runs along the cycle of \<open>v\<close> until it is back.\<close>

lemma cycle_loop:
  assumes "uf_ok u" "v < get_num_vars u"
    and step: "\<And>st. cur (f st) = uf_next u (cur st)"
    and start: "cur st = uf_next u v"
  shows "while_option (\<lambda>st. cur st \<noteq> v) f st
    = Some ((f ^^ (card (orbit (uf_next u) v) - 1)) st)"
proof -
  obtain k where k: "(uf_next u ^^ Suc k) v = v"
    "\<forall>i. 0 < i \<longrightarrow> i \<le> k \<longrightarrow> (uf_next u ^^ i) v \<noteq> v" "card (orbit (uf_next u) v) = Suc k"
    by (rule cycle_length [OF uf_next_cycle [OF assms(1,2)]])
  have at: "cur ((f ^^ i) st) = (uf_next u ^^ Suc i) v" for i
    by (induction i) (simp_all add: step start)
  have "while_option (\<lambda>st. cur st \<noteq> v) f ((f ^^ (k - i)) st) = Some ((f ^^ k) st)" if "i \<le> k" for i
    using that
  proof (induction i)
    case 0
    then show ?case using at [of k] k(1) by (simp add: while_option_unfold)
  next
    case (Suc i)
    have "cur ((f ^^ (k - Suc i)) st) \<noteq> v"
      using at [of "k - Suc i"] k(2) [rule_format, of "Suc (k - Suc i)"] Suc.prems by simp
    moreover have "f ((f ^^ (k - Suc i)) st) = (f ^^ (k - i)) st"
      using Suc.prems by (metis Suc_diff_Suc Suc_le_eq comp_apply funpow.simps(2))
    ultimately show ?case using Suc by (simp add: while_option_unfold)
  qed
  from this [of k] show ?thesis using k(3) by simp
qed

lemma check_class_ok:
  assumes ok: "uf_ok u" and v: "v < get_num_vars u" "is_root u v"
  shows "check_class u v = Some True"
proof -
  let ?f = "\<lambda>(ok, sz, w). (ok \<and> uf_find u w = Some v, sz + 1, uf_next u w)"
  let ?s = "(uf_find u v = Some v, 1 :: nat, uf_next u v)"
  have members: "orbit (uf_next u) v = members u v"
    by (rule orbit_members [OF ok members_root [OF v(2,1)]])
  have "(?f ^^ i) ?s = (True, Suc i, (uf_next u ^^ Suc i) v)" for i
  proof (induction i)
    case (Suc i)
    have "(uf_next u ^^ Suc i) v \<in> members u v" unfolding members [symmetric] orbit_funpow by blast
    then show ?case using Suc by (simp add: members_def)
  qed (simp add: find_root v)
  moreover have "card (members u v) = m_size u ! v" using uf_okD(4) [OF ok v] by simp
  moreover have "0 < card (members u v)" using members_root [OF v(2,1)] by (auto simp: card_gt_0_iff)
  moreover have "(case st of (ok, sz, w) \<Rightarrow> w \<noteq> v) = (snd (snd st) \<noteq> v)" for st :: "bool \<times> nat \<times> nat"
    by (simp add: split_def)
  ultimately show ?thesis
    using cycle_loop [OF ok v(1), of "\<lambda>st. snd (snd st)" ?f ?s]
    by (simp add: check_class_def members split_def)
qed

lemma uf_check_invariant_ok:
  assumes "uf_ok u"
  shows "uf_check_invariant u = Some True"
proof -
  have "check_classes u vs = Some True" if "\<forall>v \<in> set vs. v < get_num_vars u" for vs
    using that by (induction vs) (simp_all add: check_class_ok [OF assms])
  then show ?thesis by (simp add: uf_check_invariant_def)
qed


subsection \<open>Sequences of operations\<close>

datatype uf_op = Mk_Var | Reserve nat | Merge nat nat | Push_Scope | Pop_Scope nat | Reset

fun uf_exec :: "uf_op \<Rightarrow> uf_state \<Rightarrow> uf_state option" where
  "uf_exec Mk_Var s = Some (uf_mk_var s)"
| "uf_exec (Reserve v) s = Some (uf_reserve v s)"
| "uf_exec (Merge a b) s = uf_merge a b s"
| "uf_exec Push_Scope s = Some (push_scope s)"
| "uf_exec (Pop_Scope k) s = Some (pop_scope k s)"
| "uf_exec Reset s = Some (reset_trail s)"

fun uf_run :: "uf_op list \<Rightarrow> uf_state \<Rightarrow> uf_state option" where
  "uf_run [] s = Some s"
| "uf_run (op # ops) s = do { s \<leftarrow> uf_exec op s; uf_run ops s }"

text \<open>The specification: a stack of partitions, one for each scope, the current one first.\<close>

fun spec_exec :: "uf_op \<Rightarrow> partition list \<Rightarrow> partition list" where
  "spec_exec Mk_Var Ls = (let (n, R) = hd Ls in (Suc n, insert (n, n) R) # tl Ls)"
| "spec_exec (Reserve v) Ls =
    (let (n, R) = hd Ls in (max n (Suc v), R \<union> {(w, w) |w. n \<le> w \<and> w \<le> v}) # tl Ls)"
| "spec_exec (Merge a b) Ls = (let (n, R) = hd Ls in (n, join a b R) # tl Ls)"
| "spec_exec Push_Scope Ls = hd Ls # Ls"
| "spec_exec (Pop_Scope k) Ls = drop k Ls"
| "spec_exec Reset Ls = [(0, {})]"

fun valid_op :: "partition list \<Rightarrow> uf_op \<Rightarrow> bool" where
  "valid_op Ls (Merge a b) \<longleftrightarrow> a < fst (hd Ls) \<and> b < fst (hd Ls)"
| "valid_op Ls (Pop_Scope k) \<longleftrightarrow> k < length Ls"
| "valid_op Ls _ \<longleftrightarrow> True"

fun valid_ops :: "partition list \<Rightarrow> uf_op list \<Rightarrow> bool" where
  "valid_ops Ls [] \<longleftrightarrow> True"
| "valid_ops Ls (op # ops) \<longleftrightarrow> valid_op Ls op \<and> valid_ops (spec_exec op Ls) ops"

lemma uf_reserve_ok:
  assumes "uf_inv s"
  shows "uf_inv (uf_reserve v s) \<and> levels (uf_reserve v s) = spec_exec (Reserve v) (levels s)"
  using assms
proof (induction v s rule: uf_reserve.induct)
  case (1 v s)
  have Ls: "levels s = (get_num_vars (m_uf s), same (m_uf s)) # tl (levels s)"
    by (metis hd_levels partition_of_def length_levels list.collapse list.size(3) nat.distinct(1))
  show ?case
  proof (cases "get_num_vars (m_uf s) \<le> v")
    case True
    note mk = uf_mk_var_ok [OF 1(2)] partition_push_node [OF uf_inv_ok [OF 1(2)]]
    have IH: "uf_inv (uf_reserve v (uf_mk_var s))"
      "levels (uf_reserve v (uf_mk_var s)) = spec_exec (Reserve v) (levels (uf_mk_var s))"
      using 1(1) [OF True mk(1)] by simp_all
    have "{(w, w) |w. get_num_vars (m_uf s) \<le> w \<and> w \<le> v}
        = insert (get_num_vars (m_uf s), get_num_vars (m_uf s)) {(w, w) |w. Suc (get_num_vars (m_uf s)) \<le> w \<and> w \<le> v}"
      using True by (auto simp: Suc_le_eq)
    then have "spec_exec (Reserve v) (levels (uf_mk_var s)) = spec_exec (Reserve v) (levels s)"
      using True by (subst Ls) (simp add: mk)
    then show ?thesis using IH True by (simp add: uf_reserve.simps [of v s])
  next
    case False
    then have "uf_reserve v s = s" by (simp add: uf_reserve.simps)
    moreover have "spec_exec (Reserve v) (levels s) = levels s"
      using False by (subst (1 2) Ls) auto
    ultimately show ?thesis using 1(2) by simp
  qed
qed

lemma uf_exec_ok:
  assumes s: "uf_inv s" "valid_op (levels s) op"
  obtains s' where "uf_exec op s = Some s'" "uf_inv s'" "levels s' = spec_exec op (levels s)"
proof (cases op)
  case Mk_Var
  then show thesis
    using that uf_mk_var_ok [OF s(1)] partition_push_node [OF uf_inv_ok [OF s(1)]]
    by (simp add: partition_of_def)
next
  case (Merge a b)
  have ab: "a < get_num_vars (m_uf s)" "b < get_num_vars (m_uf s)"
    using s(2) Merge by (simp_all add: partition_of_def)
  show thesis by (rule uf_merge_ok [OF s(1) ab]) (use that Merge in \<open>simp add: partition_of_def\<close>)
next
  case (Pop_Scope k)
  then show thesis using that pop_scope_ok [OF s(1)] s(2) by simp
qed (use that s uf_reserve_ok push_scope_ok reset_trail_ok uf_inv_new in simp_all)

lemma uf_run_ok:
  "uf_inv s \<Longrightarrow> valid_ops (levels s) ops
    \<Longrightarrow> \<exists>s'. uf_run ops s = Some s' \<and> uf_inv s' \<and> levels s' = fold spec_exec ops (levels s)"
proof (induction ops arbitrary: s)
  case (Cons op ops)
  then have "valid_op (levels s) op" by simp
  from uf_exec_ok [OF Cons.prems(1) this] show ?case using Cons.IH Cons.prems(2) by (metis
    bind.bind_lunit fold_simps(2) uf_run.simps(2) valid_ops.simps(2))
qed simp


subsection \<open>The contract of both structures\<close>

fun merge_all :: "(nat \<Rightarrow> nat \<Rightarrow> 's \<Rightarrow> 's option) \<Rightarrow> (nat \<times> nat) list \<Rightarrow> 's \<Rightarrow> 's option" where
  "merge_all merge [] s = Some s"
| "merge_all merge ((a, b) # ps) s = do { s \<leftarrow> merge a b s; merge_all merge ps s }"

locale partition_structure =
  fixes inv :: "'s \<Rightarrow> bool"
    and valid :: "'s \<Rightarrow> nat \<Rightarrow> bool"
    and find :: "'s \<Rightarrow> nat \<Rightarrow> nat option"
    and merge :: "nat \<Rightarrow> nat \<Rightarrow> 's \<Rightarrow> 's option"
  assumes find_returns: "inv s \<Longrightarrow> valid s v \<Longrightarrow> find s v \<noteq> None"
    and merge_returns: "inv s \<Longrightarrow> valid s a \<Longrightarrow> valid s b
      \<Longrightarrow> \<exists>s'. merge a b s = Some s' \<and> inv s' \<and> valid s' = valid s
        \<and> {(x, y). valid s x \<and> valid s y \<and> find s' x = find s' y}
          = join a b {(x, y). valid s x \<and> valid s y \<and> find s x = find s y}"
begin

definition classes :: "'s \<Rightarrow> (nat \<times> nat) set" where
  "classes s = {(x, y). valid s x \<and> valid s y \<and> find s x = find s y}"

lemma classes_equiv:
  "sym (classes s)" "trans (classes s)" "valid s x \<Longrightarrow> (x, x) \<in> classes s"
  by (auto simp: classes_def sym_def trans_def)

lemma merge_classes:
  assumes "inv s" "valid s a" "valid s b"
  obtains s' where "merge a b s = Some s'" "inv s'" "valid s' = valid s" "classes s' = join a b (classes s)"
proof -
  obtain s' where s': "merge a b s = Some s'" "inv s'" "valid s' = valid s"
    "{(x, y). valid s x \<and> valid s y \<and> find s' x = find s' y} = join a b (classes s)"
    using merge_returns [OF assms] unfolding classes_def by blast
  then have "classes s' = join a b (classes s)" unfolding classes_def [of s'] by (simp only: s'(3))
  then show thesis using that s' by blast
qed

text \<open>Merging the pairs of a list gives the least equivalence that contains them.\<close>

lemma merge_all_closure:
  assumes "inv s" "\<forall>(a, b) \<in> set ps. valid s a \<and> valid s b"
  shows "\<exists>s'. merge_all merge ps s = Some s' \<and> inv s' \<and> valid s' = valid s
    \<and> (\<forall>x y. valid s x \<longrightarrow> (x, y) \<in> classes s' \<longleftrightarrow> (x, y) \<in> (classes s \<union> set ps \<union> (set ps)\<inverse>)\<^sup>*)"
  using assms
proof (induction ps arbitrary: s)
  case Nil
  have "(x, y) \<in> classes s" if "(x, y) \<in> (classes s)\<^sup>*" "valid s x" for x y
    using that by (induction rule: rtrancl_induct) (use classes_equiv in \<open>auto dest: transD\<close>)
  then show ?case using Nil by auto
next
  case (Cons p ps)
  obtain a b where p: "p = (a, b)" by (cases p)
  have ab: "valid s a" "valid s b" using Cons.prems(2) p by auto
  obtain s1 where s1: "merge a b s = Some s1" "inv s1" "valid s1 = valid s"
    "classes s1 = join a b (classes s)"
    by (rule merge_classes [OF Cons.prems(1) ab])
  have valid: "\<forall>(a, b) \<in> set ps. valid s1 a \<and> valid s1 b" using Cons.prems(2) s1(3) by simp
  let ?R = "classes s \<union> set (p # ps) \<union> (set (p # ps))\<inverse>"
  let ?S = "classes s1 \<union> set ps \<union> (set ps)\<inverse>"
  have edge: "(a, b) \<in> ?R\<^sup>*" "(b, a) \<in> ?R\<^sup>*" using p by auto
  have "(x, y) \<in> ?R\<^sup>*" if "(x, y) \<in> classes s1" for x y
  proof -
    have sub: "classes s \<subseteq> ?R\<^sup>*" by auto
    consider "(x, y) \<in> classes s" | "(x, a) \<in> classes s" "(b, y) \<in> classes s"
      | "(x, b) \<in> classes s" "(a, y) \<in> classes s"
      using \<open>(x, y) \<in> classes s1\<close> unfolding s1(4) join_def by blast
    then show ?thesis using sub edge by cases (blast intro: rtrancl_trans)+
  qed
  then have "?S \<subseteq> ?R\<^sup>*" by auto
  moreover have "(a, b) \<in> classes s1" "(b, a) \<in> classes s1" "classes s \<subseteq> classes s1"
    using classes_equiv(3) ab unfolding s1(4) join_def by auto
  then have "?R \<subseteq> ?S" using p by auto
  ultimately have "?S\<^sup>* = ?R\<^sup>*" by (meson rtrancl_subset_rtrancl rtrancl_mono subset_antisym)
  then show ?case using Cons.IH [OF s1(2) valid] s1(1,3) p by auto
qed

end

text \<open>The structure with a trail, whose variables have to exist, and the one without.\<close>

interpretation uf: partition_structure
  uf_inv "\<lambda>s v. v < get_num_vars (m_uf s)" "\<lambda>s. uf_find (m_uf s)" uf_merge
proof
  show "uf_find (m_uf s) v \<noteq> None" if "uf_inv s" "v < get_num_vars (m_uf s)" for s v
    using uf_ok_leads [OF uf_inv_ok [OF that(1)] that(2)] by (metis option.distinct(1))
next
  fix s a b
  assume s: "uf_inv s" "a < get_num_vars (m_uf s)" "b < get_num_vars (m_uf s)"
  show "\<exists>s'. uf_merge a b s = Some s' \<and> uf_inv s'
      \<and> (\<lambda>v. v < get_num_vars (m_uf s')) = (\<lambda>v. v < get_num_vars (m_uf s))
      \<and> {(x, y). x < get_num_vars (m_uf s) \<and> y < get_num_vars (m_uf s)
            \<and> uf_find (m_uf s') x = uf_find (m_uf s') y}
        = join a b {(x, y). x < get_num_vars (m_uf s) \<and> y < get_num_vars (m_uf s)
            \<and> uf_find (m_uf s) x = uf_find (m_uf s) y}"
    by (rule uf_merge_ok [OF s]) (simp add: same_def)
qed

lemma ensure_size_ok:
  "uf_ok u \<Longrightarrow> uf_ok (ensure_size v u) \<and> v < get_num_vars (ensure_size v u)
    \<and> get_num_vars u \<le> get_num_vars (ensure_size v u) \<and> basic_find (ensure_size v u) = basic_find u"
proof (induction v u rule: ensure_size.induct)
  case (1 v u)
  show ?case
  proof (cases "get_num_vars u \<le> v")
    case True
    have "basic_find (push_node u) w = basic_find u w" for w
      using find_push_node [OF 1(2)] by (auto simp: basic_find_def not_less_eq_eq le_less_Suc_eq)
    then have "basic_find (push_node u) = basic_find u" by blast
    then show ?thesis
      using 1(1) [OF True uf_ok_push_node [OF 1(2)]] True by (simp add: ensure_size.simps [of v u])
  next
    case False
    then show ?thesis using 1(2) by (simp add: ensure_size.simps [of v u])
  qed
qed

lemma basic_find_inside: "v < get_num_vars u \<Longrightarrow> basic_find u v = uf_find u v"
  by (simp add: basic_find_def)

lemma join_redirect:
  assumes "\<And>x. g x = (if f x = p then q else f x)" "f a = p \<and> f b = q \<or> f a = q \<and> f b = p"
  shows "{(x, y). g x = g y} = join a b {(x, y). f x = f y}"
proof -
  have eq: "g x = g y \<longleftrightarrow> f x = f y \<or> f x = p \<and> q = f y \<or> f x = q \<and> p = f y" for x y
    unfolding assms(1) [of x] assms(1) [of y] by (cases "f x = p"; cases "f y = p") auto
  have "g x = g y \<longleftrightarrow> (x, y) \<in> join a b {(x, y). f x = f y}" for x y
    using assms(2) unfolding eq by (auto simp: join_def)
  then show ?thesis by auto
qed

lemma basic_merge_ok:
  assumes ok: "uf_ok u"
  shows "\<exists>u'. basic_merge a b u = Some u' \<and> uf_ok u'
    \<and> {(x, y). basic_find u' x = basic_find u' y} = join a b {(x, y). basic_find u x = basic_find u y}"
proof -
  define w where "w = ensure_size b (ensure_size a u)"
  have w: "uf_ok w" "a < get_num_vars w" "b < get_num_vars w" and find: "basic_find w = basic_find u"
    using ensure_size_ok [OF ok, of a] ensure_size_ok [of "ensure_size a u" b] by (auto simp: w_def)
  obtain r1 r2 where r: "uf_find w a = Some r1" "uf_find w b = Some r2"
    using uf_ok_leads [OF w(1,2)] uf_ok_leads [OF w(1,3)] by metis
  then have r': "basic_find u a = Some r1" "basic_find u b = Some r2"
    using find basic_find_inside w(2,3) by metis+
  show ?thesis
  proof (cases "r1 = r2")
    case True
    then show ?thesis using ok r' by (auto simp: basic_merge_def join_def)
  next
    case False
    obtain q1 q2 where q: "(q1, q2) = (if m_size w ! r1 > m_size w ! r2 then (r2, r1) else (r1, r2))"
      by (metis surj_pair)
    have l: "can_link q1 q2 w" using merge_roots [OF w r False q] ..
    have "basic_merge a b u = Some (link q1 q2 w)"
      using r' False q [symmetric] by (simp add: basic_merge_def w_def)
    moreover have "basic_find (link q1 q2 w) x = (if basic_find u x = Some q1 then Some q2 else basic_find u x)"
      for x
      using find_link [OF l] can_linkD(4) [OF l] by (auto simp: find [symmetric] basic_find_def)
    then have "{(x, y). basic_find (link q1 q2 w) x = basic_find (link q1 q2 w) y}
        = join a b {(x, y). basic_find u x = basic_find u y}"
      by (rule join_redirect [where p = "Some q1" and q = "Some q2"])
        (use q r' in \<open>auto split: if_splits\<close>)
    ultimately show ?thesis using uf_ok_link [OF l] by blast
  qed
qed

interpretation buf: partition_structure uf_ok "\<lambda>u v. True" basic_find basic_merge
proof
  show "basic_find u v \<noteq> None" if "uf_ok u" for u v
  proof (cases "v < get_num_vars u")
    case True
    then show ?thesis using uf_ok_leads [OF that True] by (metis basic_find_inside option.distinct(1))
  qed (simp add: basic_find_def)
  show "\<exists>u'. basic_merge a b u = Some u' \<and> uf_ok u' \<and> (\<lambda>v. True) = (\<lambda>v. True)
      \<and> {(x, y). True \<and> True \<and> basic_find u' x = basic_find u' y}
        = join a b {(x, y). True \<and> True \<and> basic_find u x = basic_find u y}" if "uf_ok u" for u a b
    using basic_merge_ok [OF that] by simp
qed


subsection \<open>\<open>dissolve\<close>\<close>

lemma dissolve_once:
  assumes "uf_ok u" "v < get_num_vars u"
  shows "dissolve v u = Some (dissolve_step v u)"
proof -
  have "dissolve_step v (dissolve_step v u) = dissolve_step v u" by (simp add: dissolve_step_def)
  moreover have "uf_next (dissolve_step v u) v = v"
    using assms uf_okD(2) [OF assms(1)] by (simp add: dissolve_step_def uf_next_def)
  ultimately show ?thesis
    by (cases "uf_next u v = v") (simp_all add: dissolve_def while_option_unfold)
qed

text \<open>A variable reaches \<open>v\<close> if \<open>v\<close> lies on its way to the root.\<close>

abbreviation reaches :: "union_find \<Rightarrow> nat \<Rightarrow> nat \<Rightarrow> bool" where
  "reaches u v w \<equiv> \<exists>i. ((\<lambda>x. m_find u ! x) ^^ i) w = v"

lemma reaches_parent: "w \<noteq> v \<Longrightarrow> reaches u v w \<longleftrightarrow> reaches u v (m_find u ! w)"
  by (metis funpow_0 funpow_simps_right(2) comp_apply not0_implies_Suc)

lemma find_dissolve_step:
  assumes "leads u d w r" "v < get_num_vars u"
  shows "uf_find (dissolve_step v u) w = (if reaches u v w then Some v else Some r)"
  using assms
proof (induction rule: leads.induct)
  case (leads_root r)
  have "((\<lambda>x. m_find u ! x) ^^ i) r = r" for i using leads_root(1) by (induction i) simp_all
  then have "reaches u v r \<longleftrightarrow> r = v" by auto
  then show ?case
    using leads_root by (simp add: uf_find_def while_option_unfold dissolve_step_def nth_list_update get_num_vars_def)
next
  case (leads_parent w d r)
  show ?case
  proof (cases "w = v")
    case True
    moreover have "((\<lambda>x. m_find u ! x) ^^ 0) v = v" by simp
    then have "reaches u v v" by blast
    ultimately show ?thesis
      using leads_parent(4) by (simp add: uf_find_def while_option_unfold dissolve_step_def get_num_vars_def)
  next
    case False
    then have "uf_find (dissolve_step v u) w = uf_find (dissolve_step v u) (m_find u ! w)"
      using leads_parent(1) unfolding uf_find_def by (subst while_option_unfold) (simp add: dissolve_step_def)
    then show ?thesis using leads_parent.IH [OF leads_parent.prems] reaches_parent [OF False] by simp
  qed
qed

subsection \<open>The properties\<close>

text \<open>C36: Every sequence of valid operations returns, and its result represents the stack of partitions
  that the specification computes: a new variable is a class of its own, \<open>merge\<close> joins two classes,
  \<open>pop_scope\<close> restores the partitions of the scopes it leaves and \<open>reset\<close> the empty structure.\<close>
theorem union_find_refines:
  assumes "valid_ops [(0, {})] ops"
  shows "\<exists>s. uf_run ops new_union_find = Some s \<and> levels s = fold spec_exec ops [(0, {})]
    \<and> partition_of (m_uf s) = hd (fold spec_exec ops [(0, {})])"
  using uf_run_ok [OF uf_inv_new(1)] uf_inv_new(2) assms hd_levels by metis

definition sample_ops :: "uf_op list" where
  "sample_ops =
    [Reserve 4, Merge 0 1, Push_Scope, Merge 2 3, Merge 1 2, Push_Scope, Mk_Var, Merge 5 4, Pop_Scope 1]"

lemma sample_ops_valid: "valid_ops [(0, {})] sample_ops"
  by (simp add: sample_ops_def)

theorem union_find_refines_witness:
  "\<exists>s. uf_run sample_ops new_union_find = Some s \<and> levels s = fold spec_exec sample_ops [(0, {})]
    \<and> partition_of (m_uf s) = hd (fold spec_exec sample_ops [(0, {})])"
  by (rule union_find_refines [OF sample_ops_valid])

text \<open>C37: After a sequence of valid operations the debug check of the structure succeeds, and for every
  variable: the search for its root ends after at most the logarithm of the size of its class many
  steps, \<open>size\<close> is the size of its class, and following \<open>next\<close> that often runs through its class.\<close>
theorem union_find_queries:
  assumes "valid_ops [(0, {})] ops" "hd (fold spec_exec ops [(0, {})]) = (n, R)" "v < n"
  shows "\<exists>s. uf_run ops new_union_find = Some s \<and> uf_check_invariant (m_uf s) = Some True
    \<and> (\<exists>d r. leads (m_uf s) d v r \<and> uf_find (m_uf s) v = Some r \<and> 2 ^ d \<le> card (R `` {v}))
    \<and> uf_size (m_uf s) v = Some (card (R `` {v}))
    \<and> R `` {v} = {(uf_next (m_uf s) ^^ i) v |i. True}"
proof -
  obtain s where s: "uf_run ops new_union_find = Some s" "uf_inv s" "levels s = fold spec_exec ops [(0, {})]"
    using uf_run_ok [OF uf_inv_new(1)] uf_inv_new(2) assms(1) by metis
  have ok: "uf_ok (m_uf s)" by (rule uf_inv_ok [OF s(2)])
  have part: "n = get_num_vars (m_uf s)" "R = same (m_uf s)"
    using hd_levels [of s] s(3) assms(2) by (simp_all add: partition_of_def)
  obtain d r where r: "leads (m_uf s) d v r" "uf_find (m_uf s) v = Some r" "r < n" "is_root (m_uf s) r"
    "2 ^ d \<le> m_size (m_uf s) ! r"
    using uf_ok_leads [OF ok] assms(3) part(1) by metis
  have "R `` {v} = members (m_uf s) r" using r(2) assms(3) part by (auto simp: same_def members_def)
  moreover have "m_size (m_uf s) ! r = card (members (m_uf s) r)" using uf_okD(4) [OF ok] r part by simp
  moreover have "members (m_uf s) r = orbit (uf_next (m_uf s)) v"
    using orbit_members [OF ok, of v r] r(2) assms(3) part by (simp add: members_def)
  ultimately have "uf_size (m_uf s) v = Some (card (R `` {v}))" "2 ^ d \<le> card (R `` {v})"
    "R `` {v} = {(uf_next (m_uf s) ^^ i) v |i. True}"
    using r(2,5) by (simp_all add: uf_size_def orbit_funpow)
  then show ?thesis using s(1) r(1,2) uf_check_invariant_ok [OF ok] by blast
qed

lemma sample_ops_result: "fst (hd (fold spec_exec sample_ops [(0, {})])) = 5"
  by (simp add: sample_ops_def)

theorem union_find_queries_witness:
  "\<exists>s. uf_run sample_ops new_union_find = Some s \<and> uf_check_invariant (m_uf s) = Some True
    \<and> uf_find (m_uf s) 3 = Some 3"
proof -
  let ?R = "snd (hd (fold spec_exec sample_ops [(0, {})]))"
  have hd: "hd (fold spec_exec sample_ops [(0, {})]) = (5, ?R)"
    using sample_ops_result by (metis prod.collapse)
  have "\<exists>s. uf_run sample_ops new_union_find = Some s \<and> uf_check_invariant (m_uf s) = Some True"
    using union_find_queries [OF sample_ops_valid hd, of 3] by auto
  moreover have "map_option (\<lambda>s. uf_find (m_uf s) 3) (uf_run sample_ops new_union_find) = Some (Some 3)"
    by code_simp
  ultimately show ?thesis by auto
qed

text \<open>C38: \<open>basic_union_find\<close> needs no preparation: merging the pairs of any list, starting from the empty
  structure, returns, and two numbers have the same root afterwards if and only if the pairs connect
  them.\<close>
theorem basic_merge_closure:
  "\<exists>u. merge_all basic_merge ps empty_uf = Some u
    \<and> (\<forall>x y. basic_find u x = basic_find u y \<longleftrightarrow> (x, y) \<in> (set ps \<union> (set ps)\<inverse>)\<^sup>*)"
proof -
  have empty: "buf.classes empty_uf = Id"
    by (auto simp: buf.classes_def basic_find_def empty_uf_def get_num_vars_def)
  have "(Id \<union> set ps \<union> (set ps)\<inverse>)\<^sup>* = (set ps \<union> (set ps)\<inverse>)\<^sup>*"
    by (metis Un_assoc Un_commute rtrancl_reflcl)
  then show ?thesis
    using buf.merge_all_closure [OF uf_ok_empty, of ps] unfolding empty
    by (auto simp: buf.classes_def)
qed

text \<open>C39: \<open>dissolve\<close> does not dissolve a class: its loop never leaves the first variable, and the
  only change is that the entries of that variable make it a root of size 1 with itself as the next
  member. Afterwards it is the root of exactly the variables whose way to the root led through it, and
  every other variable keeps its root. So from a root all members of the class stay in it, though its
  size says that it is alone.\<close>
theorem dissolve_only_first:
  assumes "uf_ok u" "v < get_num_vars u"
  shows "\<exists>u'. dissolve v u = Some u'
    \<and> u' = \<lparr>m_find = (m_find u)[v := v], m_size = (m_size u)[v := 1], m_next = (m_next u)[v := v]\<rparr>
    \<and> (\<forall>w < get_num_vars u. uf_find u' w = (if reaches u v w then Some v else uf_find u w))
    \<and> uf_size u' v = Some 1
    \<and> (is_root u v \<longrightarrow> (\<forall>w < get_num_vars u. uf_find u' w = uf_find u w))"
proof -
  let ?u = "dissolve_step v u"
  have find: "uf_find ?u w = (if reaches u v w then Some v else uf_find u w)" if w: "w < get_num_vars u" for w
    using uf_ok_leads [OF assms(1) w] find_dissolve_step [OF _ assms(2)] by metis
  have "((\<lambda>x. m_find u ! x) ^^ 0) v = v" by simp
  then have "reaches u v v" by (rule exI)
  then have "uf_find ?u v = Some v" using find [OF assms(2)] by (simp only: if_True)
  moreover have "m_size ?u ! v = 1" using uf_okD(1) [OF assms(1)] assms(2) by (simp add: dissolve_step_def)
  ultimately have "uf_size ?u v = Some 1" by (simp add: uf_size_def)
  moreover have "uf_find ?u w = uf_find u w" if "is_root u v" for w
  proof -
    have "(m_find u)[v := v] = m_find u" using that list_update_id [of "m_find u" v] by (simp add: is_root_def)
    then show ?thesis by (simp add: uf_find_def dissolve_step_def)
  qed
  moreover have "?u = \<lparr>m_find = (m_find u)[v := v], m_size = (m_size u)[v := 1], m_next = (m_next u)[v := v]\<rparr>"
    by (simp add: dissolve_step_def)
  ultimately show ?thesis using dissolve_once [OF assms] find by blast
qed

text \<open>The variable 0 hangs under the root 1: a call at 1 leaves the class, a call at 0 splits it.\<close>

theorem dissolve_only_first_witness:
  "(\<exists>u. dissolve 1 (link 0 1 (push_node (push_node empty_uf))) = Some u
      \<and> uf_size u 1 = Some 1 \<and> uf_find u 0 = Some 1)
    \<and> (\<exists>u. dissolve 0 (link 0 1 (push_node (push_node empty_uf))) = Some u
      \<and> uf_find u 0 = Some 0 \<and> uf_find u 1 = Some 1)"
proof -
  let ?w = "push_node (push_node empty_uf)" and ?u = "link 0 1 (push_node (push_node empty_uf))"
  have "uf_ok ?w" by (simp add: uf_ok_push_node uf_ok_empty)
  then have "can_link 0 1 ?w" by (simp add: can_link_def is_root_def empty_uf_def get_num_vars_def)
  then have ok: "uf_ok ?u" by (rule uf_ok_link)
  have n: "0 < get_num_vars ?u" "1 < get_num_vars ?u" "is_root ?u 1"
    by (simp_all add: is_root_def empty_uf_def get_num_vars_def)
  have find: "uf_find ?u 0 = Some 1" "uf_find ?u 1 = Some 1" "\<not> reaches ?u 0 1"
  proof -
    show "uf_find ?u 0 = Some 1" "uf_find ?u 1 = Some 1" by code_simp+
    have "((\<lambda>x. m_find ?u ! x) ^^ i) 1 = 1" for i
      using n(3) by (induction i) (simp_all add: is_root_def)
    then show "\<not> reaches ?u 0 1" by simp
  qed
  have "((\<lambda>x. m_find ?u ! x) ^^ 0) 0 = 0" by simp
  then have "reaches ?u 0 0" by blast
  then show ?thesis
    using dissolve_only_first [OF ok n(2)] dissolve_only_first [OF ok n(1)] n find by (metis (mono_tags, lifting))
qed

end
