(* ===== verification/Psort_Base.thy ===== *)
theory Psort_Base
  imports Ast
begin

text \<open>
  Cardinality constraints, first part: the interface \<open>psort_expr\<close> of the template \<open>psort_nw\<close> in
  \<open>util/sorting_network.h\<close> and the literals it builds. The template argument is the one of
  \<open>ast/rewriter/pb2bv_rewriter.cpp\<close> (and, with the same functions, of \<open>opt/sortmax.cpp\<close>): literals are
  Boolean expressions, \<open>mk_max\<close> and \<open>mk_min\<close> are disjunction and conjunction, \<open>fresh\<close> makes a new
  constant and \<open>mk_clause\<close> adds a disjunction to the list of lemmas. The counters of \<open>m_stats\<close> are left
  out.

  The meaning of the construction is what its lemmas force: \<open>computes\<close> says that a list of output
  literals counts as the mode \<open>m_t\<close> promises, and that every interpretation of the old symbols can be
  extended to the new ones.
\<close>

subsection \<open>The context\<close>

record psort =
  m_lemmas :: "expr list"
  m_next_const :: nat

definition ctx_mk_not :: "expr \<Rightarrow> expr" where
  "ctx_mk_not a = (case a of expr.Not b \<Rightarrow> b | _ \<Rightarrow> expr.Not a)"

definition ctx_mk_max :: "expr list \<Rightarrow> expr" where
  "ctx_mk_max lits = Or lits"

definition ctx_mk_min :: "expr list \<Rightarrow> expr" where
  "ctx_mk_min lits = And lits"

definition fresh_const :: "psort \<Rightarrow> expr \<times> psort" where
  "fresh_const s = (Fun (m_next_const s) BoolS [], s\<lparr>m_next_const := Suc (m_next_const s)\<rparr>)"

definition clause_expr :: "expr list \<Rightarrow> expr" where
  "clause_expr lits = (case lits of [] \<Rightarrow> FalseE | [l] \<Rightarrow> l | _ \<Rightarrow> Or lits)"

definition ctx_mk_clause :: "expr list \<Rightarrow> psort \<Rightarrow> psort" where
  "ctx_mk_clause lits s = s\<lparr>m_lemmas := m_lemmas s @ [clause_expr lits]\<rparr>"

subsection \<open>Literals of \<open>psort_nw\<close>\<close>

definition ps_mk_not :: "expr \<Rightarrow> expr" where
  "ps_mk_not lit = (if lit = TrueE then FalseE else if lit = FalseE then TrueE else ctx_mk_not lit)"

definition ps_mk_max :: "expr \<Rightarrow> expr \<Rightarrow> expr" where
  "ps_mk_max a b = (if a = b then a else ctx_mk_max [a, b])"

definition ps_mk_min :: "expr \<Rightarrow> expr \<Rightarrow> expr" where
  "ps_mk_min a b = (if a = b then a else ctx_mk_min [a, b])"

definition ps_mk_or :: "expr list \<Rightarrow> expr" where
  "ps_mk_or lits =
    (if TrueE \<in> set lits then TrueE
     else case filter (\<lambda>l. l \<noteq> FalseE) lits of
         [] \<Rightarrow> FalseE
       | [l] \<Rightarrow> l
       | ors \<Rightarrow> ctx_mk_max ors)"

definition ps_mk_and :: "expr list \<Rightarrow> expr" where
  "ps_mk_and lits =
    (if FalseE \<in> set lits then FalseE
     else case filter (\<lambda>l. l \<noteq> TrueE) lits of
         [] \<Rightarrow> TrueE
       | [l] \<Rightarrow> l
       | [l1, l2] \<Rightarrow> ps_mk_min l1 l2
       | ands \<Rightarrow> ctx_mk_min ands)"

definition add_clause :: "expr list \<Rightarrow> psort \<Rightarrow> psort" where
  "add_clause lits s = (if TrueE \<in> set lits then s else ctx_mk_clause lits s)"

text \<open>A loop that adds clauses or makes constants.\<close>

definition add_clauses :: "expr list list \<Rightarrow> psort \<Rightarrow> psort" where
  "add_clauses cs s = fold add_clause cs s"

fun freshes :: "nat \<Rightarrow> psort \<Rightarrow> expr list \<times> psort" where
  "freshes 0 s = ([], s)"
| "freshes (Suc n) s = (let (x, s) = fresh_const s; (xs, s) = freshes n s in (x # xs, s))"

subsection \<open>Truth of the literals\<close>

named_theorems psort_simps "truth and symbols of literals"

lemma holds_ctx [psort_simps]:
  "holds I (ctx_mk_not a) \<longleftrightarrow> \<not> holds I a"
  "holds I (ctx_mk_max lits) \<longleftrightarrow> (\<exists>l \<in> set lits. holds I l)"
  "holds I (ctx_mk_min lits) \<longleftrightarrow> (\<forall>l \<in> set lits. holds I l)"
  "holds I (clause_expr lits) \<longleftrightarrow> (\<exists>l \<in> set lits. holds I l)"
  by (simp_all add: ctx_mk_not_def ctx_mk_max_def ctx_mk_min_def clause_expr_def split: expr.split list.split)

lemma holds_mk_not [psort_simps]: "holds I (ps_mk_not a) \<longleftrightarrow> \<not> holds I a"
  by (auto simp: ps_mk_not_def psort_simps)

lemma holds_mk_max_min [psort_simps]:
  "holds I (ps_mk_max a b) \<longleftrightarrow> holds I a \<or> holds I b"
  "holds I (ps_mk_min a b) \<longleftrightarrow> holds I a \<and> holds I b"
  by (auto simp: ps_mk_max_def ps_mk_min_def psort_simps)

lemma holds_mk_or [psort_simps]: "holds I (ps_mk_or lits) \<longleftrightarrow> (\<exists>l \<in> set lits. holds I l)"
proof (cases "TrueE \<in> set lits")
  case True
  then show ?thesis by (auto simp: ps_mk_or_def intro: bexI [of _ TrueE])
next
  case False
  have ls: "holds I (case xs of [] \<Rightarrow> FalseE | [l] \<Rightarrow> l | ors \<Rightarrow> ctx_mk_max ors) \<longleftrightarrow> (\<exists>l \<in> set xs. holds I l)" for xs
    by (cases xs rule: remdups_adj.cases) (auto simp: psort_simps)
  show ?thesis using False unfolding ps_mk_or_def if_not_P [OF False] ls by auto
qed

lemma holds_mk_and [psort_simps]: "holds I (ps_mk_and lits) \<longleftrightarrow> (\<forall>l \<in> set lits. holds I l)"
proof (cases "FalseE \<in> set lits")
  case True
  then show ?thesis by (auto simp: ps_mk_and_def intro: bexI [of _ FalseE])
next
  case False
  have ls: "holds I (case xs of [] \<Rightarrow> TrueE | [l] \<Rightarrow> l | [l1, l2] \<Rightarrow> ps_mk_min l1 l2 | ands \<Rightarrow> ctx_mk_min ands)
    \<longleftrightarrow> (\<forall>l \<in> set xs. holds I l)" for xs
    by (cases xs rule: remdups_adj.cases; cases "tl (tl xs)") (auto simp: psort_simps)
  show ?thesis using False unfolding ps_mk_and_def if_not_P [OF False] ls by auto
qed

subsection \<open>The symbols of a literal\<close>

fun funs :: "expr \<Rightarrow> nat set" where
  "funs TrueE = {}"
| "funs FalseE = {}"
| "funs (expr.Not a) = funs a"
| "funs (And as) = (\<Union>a \<in> set as. funs a)"
| "funs (Or as) = (\<Union>a \<in> set as. funs a)"
| "funs (Eq a b) = funs a \<union> funs b"
| "funs (Ite c t e) = funs c \<union> funs t \<union> funs e"
| "funs (Implies a b) = funs a \<union> funs b"
| "funs (Xor a b) = funs a \<union> funs b"
| "funs (Distinct as) = (\<Union>a \<in> set as. funs a)"
| "funs (Xor3 a b c) = funs a \<union> funs b \<union> funs c"
| "funs (Carry a b c) = funs a \<union> funs b \<union> funs c"
| "funs (MVal k i) = {}"
| "funs (Fun f s as) = insert f (\<Union>a \<in> set as. funs a)"

definition known :: "nat \<Rightarrow> expr \<Rightarrow> bool" where
  "known n e \<longleftrightarrow> (\<forall>f \<in> funs e. f < n)"

definition agree :: "nat \<Rightarrow> interp \<Rightarrow> interp \<Rightarrow> bool" where
  "agree n I J \<longleftrightarrow> (\<forall>f < n. I f = J f)"

lemma agree_refl [simp]: "agree n I I"
  by (simp add: agree_def)

lemma agree_trans: "agree n I J \<Longrightarrow> agree m J K \<Longrightarrow> n \<le> m \<Longrightarrow> agree n I K"
  by (simp add: agree_def)

lemma eval_cong_funs: "(\<And>f. f \<in> funs e \<Longrightarrow> I f = J f) \<Longrightarrow> eval I e = eval J e"
proof (induction e)
  case (Distinct as)
  then have "map (eval I) as = map (eval J) as" by (auto intro!: Distinct.IH)
  then show ?case by (simp del: map_eq_conv)
next
  case (Fun f s as)
  then have "map (eval I) as = map (eval J) as" by (auto intro!: Fun.IH)
  then show ?case using Fun.prems by (simp del: map_eq_conv)
next
  case (And as)
  then have "\<forall>a \<in> set as. eval I a = eval J a" by (auto intro!: And.IH)
  then show ?case by simp
next
  case (Or as)
  then have "\<forall>a \<in> set as. eval I a = eval J a" by (auto intro!: Or.IH)
  then show ?case by simp
qed simp_all

lemma holds_agree: "agree n I J \<Longrightarrow> known n e \<Longrightarrow> holds I e = holds J e"
  using eval_cong_funs [of e I J] by (auto simp: holds_def agree_def known_def)

lemma known_mono: "known n e \<Longrightarrow> n \<le> m \<Longrightarrow> known m e"
  by (auto simp: known_def)

lemma known_consts [simp]: "known n TrueE" "known n FalseE" "known n (expr.Not a) \<longleftrightarrow> known n a"
  "known n (Or as) \<longleftrightarrow> (\<forall>a \<in> set as. known n a)" "known n (And as) \<longleftrightarrow> (\<forall>a \<in> set as. known n a)"
  "known n (Fun f BoolS []) \<longleftrightarrow> f < n"
  by (auto simp: known_def)

lemma known_ctx [simp]:
  "known n (ctx_mk_not a) \<longleftrightarrow> known n a"
  "known n (ctx_mk_max lits) \<longleftrightarrow> (\<forall>l \<in> set lits. known n l)"
  "known n (ctx_mk_min lits) \<longleftrightarrow> (\<forall>l \<in> set lits. known n l)"
  "known n (clause_expr lits) \<longleftrightarrow> (\<forall>l \<in> set lits. known n l)"
  by (simp_all add: ctx_mk_not_def ctx_mk_max_def ctx_mk_min_def clause_expr_def split: expr.split list.split)

lemma known_mk [simp]:
  "known n (ps_mk_not a) \<longleftrightarrow> known n a"
  "known n (ps_mk_max a b) \<longleftrightarrow> known n a \<and> known n b"
  "known n (ps_mk_min a b) \<longleftrightarrow> known n a \<and> known n b"
  by (auto simp: ps_mk_not_def ps_mk_max_def ps_mk_min_def)

lemma known_mk_or: "(\<forall>l \<in> set lits. known n l) \<Longrightarrow> known n (ps_mk_or lits)"
proof -
  assume k: "\<forall>l \<in> set lits. known n l"
  have "known n (case xs of [] \<Rightarrow> FalseE | [l] \<Rightarrow> l | ors \<Rightarrow> ctx_mk_max ors)" if "\<forall>l \<in> set xs. known n l" for xs
    using that by (cases xs rule: remdups_adj.cases) auto
  then show ?thesis using k by (simp add: ps_mk_or_def)
qed

lemma known_mk_and: "(\<forall>l \<in> set lits. known n l) \<Longrightarrow> known n (ps_mk_and lits)"
proof -
  assume k: "\<forall>l \<in> set lits. known n l"
  have "known n (case xs of [] \<Rightarrow> TrueE | [l] \<Rightarrow> l | [l1, l2] \<Rightarrow> ps_mk_min l1 l2 | ands \<Rightarrow> ctx_mk_min ands)"
    if "\<forall>l \<in> set xs. known n l" for xs
    using that by (cases xs rule: remdups_adj.cases; cases "tl (tl xs)") auto
  then show ?thesis using k by (simp add: ps_mk_and_def)
qed

subsection \<open>The lemmas of a context\<close>

definition sat :: "interp \<Rightarrow> psort \<Rightarrow> bool" where
  "sat I s \<longleftrightarrow> (\<forall>c \<in> set (m_lemmas s). holds I c)"

definition wf_psort :: "psort \<Rightarrow> bool" where
  "wf_psort s \<longleftrightarrow> (\<forall>c \<in> set (m_lemmas s). known (m_next_const s) c)"

abbreviation knowns :: "psort \<Rightarrow> expr list \<Rightarrow> bool" where
  "knowns s lits \<equiv> \<forall>l \<in> set lits. known (m_next_const s) l"

definition clause_true :: "interp \<Rightarrow> expr list \<Rightarrow> bool" where
  "clause_true I lits \<longleftrightarrow> (\<exists>l \<in> set lits. holds I l)"

definition clauses_true :: "interp \<Rightarrow> expr list list \<Rightarrow> bool" where
  "clauses_true I cs \<longleftrightarrow> (\<forall>c \<in> set cs. clause_true I c)"

lemma clause_true_simps [simp]:
  "\<not> clause_true I []" "clause_true I (l # lits) \<longleftrightarrow> holds I l \<or> clause_true I lits"
  "clause_true I (as @ bs) \<longleftrightarrow> clause_true I as \<or> clause_true I bs"
  by (auto simp: clause_true_def)

lemma clauses_true_simps [simp]:
  "clauses_true I []" "clauses_true I (c # cs) \<longleftrightarrow> clause_true I c \<and> clauses_true I cs"
  "clauses_true I (cs @ ds) \<longleftrightarrow> clauses_true I cs \<and> clauses_true I ds"
  "clauses_true I (concat (map g xs)) \<longleftrightarrow> (\<forall>x \<in> set xs. clauses_true I (g x))"
  "clauses_true I (if b then ds else []) \<longleftrightarrow> (b \<longrightarrow> clauses_true I ds)"
  "clauses_true I (map f xs) \<longleftrightarrow> (\<forall>x \<in> set xs. clause_true I (f x))"
  by (auto simp: clauses_true_def)

lemma sat_add_clauses [simp]: "sat I (add_clauses cs s) \<longleftrightarrow> sat I s \<and> clauses_true I cs"
proof -
  have "sat I (add_clause c s) \<longleftrightarrow> sat I s \<and> clause_true I c" for c s
    by (auto simp: add_clause_def ctx_mk_clause_def sat_def clause_true_def psort_simps intro: bexI [of _ TrueE])
  then show ?thesis by (induction cs arbitrary: s) (auto simp: add_clauses_def clauses_true_def)
qed

lemma next_add_clauses [simp]: "m_next_const (add_clauses cs s) = m_next_const s"
  by (induction cs arbitrary: s) (simp_all add: add_clauses_def add_clause_def ctx_mk_clause_def)

lemma wf_add_clauses:
  "wf_psort s \<Longrightarrow> \<forall>c \<in> set cs. knowns s c \<Longrightarrow> wf_psort (add_clauses cs s)"
proof (induction cs arbitrary: s)
  case (Cons c cs)
  have "wf_psort (add_clause c s)" "m_next_const (add_clause c s) = m_next_const s"
    using Cons.prems by (auto simp: add_clause_def ctx_mk_clause_def wf_psort_def)
  then show ?case using Cons by (simp add: add_clauses_def)
qed (simp add: add_clauses_def)

lemma sat_agree: "wf_psort s \<Longrightarrow> agree (m_next_const s) I J \<Longrightarrow> sat I s \<Longrightarrow> sat J s"
  using holds_agree by (auto simp: sat_def wf_psort_def)

abbreviation const :: "nat \<Rightarrow> expr" where
  "const f \<equiv> Fun f BoolS []"

lemma freshes_eq:
  "freshes n s = (map const [m_next_const s..<m_next_const s + n], s\<lparr>m_next_const := m_next_const s + n\<rparr>)"
  by (induction n arbitrary: s) (simp_all add: fresh_const_def upt_rec)

lemma sat_next [simp]: "sat I (s\<lparr>m_next_const := n\<rparr>) = sat I s"
  by (simp add: sat_def)

lemma wf_next: "wf_psort s \<Longrightarrow> m_next_const s \<le> n \<Longrightarrow> wf_psort (s\<lparr>m_next_const := n\<rparr>)"
  using known_mono by (auto simp: wf_psort_def)

text \<open>Values for new constants.\<close>

definition set_consts :: "interp \<Rightarrow> nat \<Rightarrow> (nat \<Rightarrow> bool) \<Rightarrow> interp" where
  "set_consts I n b = (\<lambda>f. if n \<le> f then (\<lambda>_. VBool (b (f - n))) else I f)"

lemma agree_set_consts [simp]: "agree n I (set_consts I n b)"
  by (simp add: agree_def set_consts_def)

lemma holds_set_consts [simp]: "n \<le> f \<Longrightarrow> holds (set_consts I n b) (const f) = b (f - n)"
  by (simp add: holds_def set_consts_def)

lemma knowns_mono: "knowns s lits \<Longrightarrow> m_next_const s \<le> m_next_const s' \<Longrightarrow> knowns s' lits"
  using known_mono by blast

subsection \<open>What a network computes\<close>

text \<open>
  A sorted list of outputs stands for a number \<open>N\<close>: no output from position \<open>N\<close> on is true
  (\<open>upper\<close>), every output below is (\<open>lower\<close>).
\<close>

definition upper :: "interp \<Rightarrow> expr list \<Rightarrow> nat \<Rightarrow> bool" where
  "upper I lits N \<longleftrightarrow> (\<forall>i < length lits. holds I (lits ! i) \<longrightarrow> i < N)"

definition lower :: "interp \<Rightarrow> expr list \<Rightarrow> nat \<Rightarrow> bool" where
  "lower I lits N \<longleftrightarrow> (\<forall>i < length lits. i < N \<longrightarrow> holds I (lits ! i))"

lemma upper_Nil [simp]: "upper I [] N" and lower_Nil [simp]: "lower I [] N"
  by (simp_all add: upper_def lower_def)

lemma upper_agree: "agree n I J \<Longrightarrow> (\<forall>l \<in> set lits. known n l) \<Longrightarrow> upper I lits N = upper J lits N"
  and lower_agree: "agree n I J \<Longrightarrow> (\<forall>l \<in> set lits. known n l) \<Longrightarrow> lower I lits N = lower J lits N"
  using holds_agree by (auto simp: upper_def lower_def)

text \<open>
  The transition from \<open>s\<close> to \<open>s'\<close> with outputs \<open>out\<close>: if the inputs stand for the parameter \<open>p\<close> from
  above (from below), the outputs stand for the number \<open>val p\<close>, in the direction that the mode
  promises, whenever the new lemmas hold; and if the inputs are exact, there are values for the new
  constants under which the new lemmas hold and the outputs are exact.
\<close>

definition computes ::
  "bool \<Rightarrow> bool \<Rightarrow> psort \<Rightarrow> psort \<Rightarrow> (interp \<Rightarrow> 'p \<Rightarrow> bool) \<Rightarrow> (interp \<Rightarrow> 'p \<Rightarrow> bool) \<Rightarrow> ('p \<Rightarrow> nat)
    \<Rightarrow> expr list \<Rightarrow> bool" where
  "computes down up s s' gi li val out \<longleftrightarrow>
    wf_psort s' \<and> m_next_const s \<le> m_next_const s' \<and> knowns s' out
    \<and> (\<forall>I. sat I s' \<longrightarrow> sat I s)
    \<and> (\<forall>I p. down \<longrightarrow> sat I s' \<longrightarrow> gi I p \<longrightarrow> upper I out (val p))
    \<and> (\<forall>I p. up \<longrightarrow> sat I s' \<longrightarrow> li I p \<longrightarrow> lower I out (val p))
    \<and> (\<forall>I p. sat I s \<longrightarrow> gi I p \<longrightarrow> li I p \<longrightarrow>
        (\<exists>J. agree (m_next_const s) I J \<and> sat J s' \<and> upper J out (val p) \<and> lower J out (val p)))"

lemma computesD:
  assumes "computes down up s s' gi li val out"
  shows "wf_psort s'" "m_next_const s \<le> m_next_const s'" "knowns s' out" "sat I s' \<Longrightarrow> sat I s"
    "down \<Longrightarrow> sat I s' \<Longrightarrow> gi I p \<Longrightarrow> upper I out (val p)"
    "up \<Longrightarrow> sat I s' \<Longrightarrow> li I p \<Longrightarrow> lower I out (val p)"
  using assms unfolding computes_def by blast+

lemma computes_extend:
  assumes "computes down up s s' gi li val out" "sat I s" "gi I p" "li I p"
  obtains J where "agree (m_next_const s) I J" "sat J s'" "upper J out (val p)" "lower J out (val p)"
  using assms unfolding computes_def by blast

text \<open>A network of gates: outputs that are determined by the inputs, and clauses that say nothing new.\<close>

lemma computes_gates:
  assumes "wf_psort s" "knowns s out" "\<forall>c \<in> set cs. knowns s c"
    and "\<And>I. clauses_true I cs"
    and "\<And>I p. gi I p \<Longrightarrow> upper I out (val p)" "\<And>I p. li I p \<Longrightarrow> lower I out (val p)"
  shows "computes down up s (add_clauses cs s) gi li val out"
  unfolding computes_def
proof (intro conjI allI impI)
  show "wf_psort (add_clauses cs s)" by (rule wf_add_clauses [OF assms(1,3)])
  show "\<exists>J. agree (m_next_const s) I J \<and> sat J (add_clauses cs s) \<and> upper J out (val p) \<and> lower J out (val p)"
    if "sat I s" "gi I p" "li I p" for I p
    using that assms(4-6) by (intro exI [of _ I]) simp
qed (use assms(2,5,6) in simp_all)

text \<open>The inputs may promise more, the outputs may be read for less.\<close>

lemma computes_cong:
  assumes "computes down up s s' gi li val out"
    and "\<And>I p. gi' I p \<Longrightarrow> gi I (f p)" "\<And>I p. li' I p \<Longrightarrow> li I (f p)"
    and "\<And>I p. gi' I p \<Longrightarrow> upper I out (val (f p)) \<Longrightarrow> upper I out (val' p)"
    and "\<And>I p. li' I p \<Longrightarrow> lower I out (val (f p)) \<Longrightarrow> lower I out (val' p)"
    and "\<And>I J p. agree (m_next_const s) I J \<Longrightarrow> gi' I p \<Longrightarrow> gi' J p"
    and "\<And>I J p. agree (m_next_const s) I J \<Longrightarrow> li' I p \<Longrightarrow> li' J p"
  shows "computes down up s s' gi' li' val' out"
  unfolding computes_def
proof (intro conjI allI impI)
  note c = assms(1)
  show "wf_psort s'" "m_next_const s \<le> m_next_const s'" "knowns s' out" by (rule computesD [OF c])+
  fix I p
  show "sat I s' \<Longrightarrow> sat I s" by (rule computesD [OF c])
  show "upper I out (val' p)" if "down" "sat I s'" "gi' I p"
    using assms(2,4) computesD(5) [OF c] that by blast
  show "lower I out (val' p)" if "up" "sat I s'" "li' I p"
    using assms(3,5) computesD(6) [OF c] that by blast
  show "\<exists>J. agree (m_next_const s) I J \<and> sat J s' \<and> upper J out (val' p) \<and> lower J out (val' p)"
    if p: "sat I s" "gi' I p" "li' I p"
    using computes_extend [OF c p(1) assms(2) [OF p(2)] assms(3) [OF p(3)]] assms(4-7) p(2,3) by metis
qed

text \<open>Two networks one after the other.\<close>

lemma computes_seq:
  assumes c1: "computes down up s s1 g1 l1 val1 out1" and c2: "computes down up s1 s2 g2 l2 val2 out2"
    and g2: "\<forall>I J p. agree (m_next_const s) I J \<longrightarrow> g2 I p \<longrightarrow> g2 J p"
    and l2: "\<forall>I J p. agree (m_next_const s) I J \<longrightarrow> l2 I p \<longrightarrow> l2 J p"
  shows "wf_psort s2" "m_next_const s \<le> m_next_const s2" "knowns s2 out1" "knowns s2 out2"
    "sat I s2 \<Longrightarrow> sat I s"
    "down \<Longrightarrow> sat I s2 \<Longrightarrow> g1 I p \<Longrightarrow> g2 I q \<Longrightarrow> upper I out1 (val1 p) \<and> upper I out2 (val2 q)"
    "up \<Longrightarrow> sat I s2 \<Longrightarrow> l1 I p \<Longrightarrow> l2 I q \<Longrightarrow> lower I out1 (val1 p) \<and> lower I out2 (val2 q)"
    "sat I s \<Longrightarrow> g1 I p \<Longrightarrow> l1 I p \<Longrightarrow> g2 I q \<Longrightarrow> l2 I q \<Longrightarrow>
      \<exists>J. agree (m_next_const s) I J \<and> sat J s2 \<and> upper J out1 (val1 p) \<and> lower J out1 (val1 p)
        \<and> upper J out2 (val2 q) \<and> lower J out2 (val2 q)"
proof -
  note d1 = computesD [OF c1] and d2 = computesD [OF c2]
  show "wf_psort s2" "m_next_const s \<le> m_next_const s2" "knowns s2 out2" using d1 d2 by auto
  show "knowns s2 out1" by (rule knowns_mono [OF d1(3) d2(2)])
  show "sat I s2 \<Longrightarrow> sat I s" using d1(4) d2(4) by blast
  show "down \<Longrightarrow> sat I s2 \<Longrightarrow> g1 I p \<Longrightarrow> g2 I q \<Longrightarrow> upper I out1 (val1 p) \<and> upper I out2 (val2 q)"
    using d1(5) d2(4,5) by blast
  show "up \<Longrightarrow> sat I s2 \<Longrightarrow> l1 I p \<Longrightarrow> l2 I q \<Longrightarrow> lower I out1 (val1 p) \<and> lower I out2 (val2 q)"
    using d1(6) d2(4,6) by blast
  assume p: "sat I s" "g1 I p" "l1 I p" and q: "g2 I q" "l2 I q"
  obtain J where J: "agree (m_next_const s) I J" "sat J s1" "upper J out1 (val1 p)" "lower J out1 (val1 p)"
    by (rule computes_extend [OF c1 p])
  obtain K where K: "agree (m_next_const s1) J K" "sat K s2" "upper K out2 (val2 q)" "lower K out2 (val2 q)"
    by (rule computes_extend [OF c2 J(2) g2 [rule_format, OF J(1) q(1)] l2 [rule_format, OF J(1) q(2)]])
  have "agree (m_next_const s) I K" by (rule agree_trans [OF J(1) K(1) d1(2)])
  moreover have "upper K out1 (val1 p)" "lower K out1 (val1 p)"
    using J(3,4) upper_agree [OF K(1) d1(3)] lower_agree [OF K(1) d1(3)] by simp_all
  ultimately show "\<exists>J. agree (m_next_const s) I J \<and> sat J s2 \<and> upper J out1 (val1 p) \<and> lower J out1 (val1 p)
      \<and> upper J out2 (val2 q) \<and> lower J out2 (val2 q)"
    using K by blast
qed

end
