(* ===== verification/Psort_Network.thy ===== *)
theory Psort_Network
  imports Psort_Base Word_Lists
begin

text \<open>
  Cardinality constraints, second part: the sorting and merging networks of \<open>psort_nw\<close>
  (\<open>util/sorting_network.h\<close>), which choose by an estimate of variables and clauses (\<open>vc\<close>, unsigned
  numbers) between odd-even merging and direct encodings. Lists of literals carry their length; numbers
  of literals are natural numbers.

  The mode \<open>m_t\<close> is a parameter, written \<open>t\<close>. An output list of a network is sorted: true literals
  first.
\<close>

subsection \<open>Estimates\<close>

datatype cmp_t = LE | GE | EQ | GE_FULL | LE_FULL

record vc =
  vc_v :: u32
  vc_c :: u32

definition vc_to_int :: "vc \<Rightarrow> u32" where
  "vc_to_int x = 5 * vc_v x + vc_c x"

definition vc_less :: "vc \<Rightarrow> vc \<Rightarrow> bool" where
  "vc_less x y \<longleftrightarrow> vc_to_int x < vc_to_int y"

definition vc_plus :: "vc \<Rightarrow> vc \<Rightarrow> vc" where
  "vc_plus x y = \<lparr>vc_v = vc_v x + vc_v y, vc_c = vc_c x + vc_c y\<rparr>"

definition vc_minus :: "vc \<Rightarrow> vc \<Rightarrow> vc" where
  "vc_minus x y = \<lparr>vc_v = vc_v x - vc_v y, vc_c = vc_c x - vc_c y\<rparr>"

definition vc_times :: "vc \<Rightarrow> u32 \<Rightarrow> vc" where
  "vc_times x n = \<lparr>vc_v = n * vc_v x, vc_c = n * vc_c x\<rparr>"

definition vc_cmp :: "cmp_t \<Rightarrow> vc" where
  "vc_cmp t = \<lparr>vc_v = 2, vc_c = if t = EQ then 6 else 3\<rparr>"

definition ceil2 :: "nat \<Rightarrow> nat" where
  "ceil2 n = n div 2 + (if odd n then 1 else 0)"

definition floor2 :: "nat \<Rightarrow> nat" where
  "floor2 n = n div 2"

definition power2 :: "nat \<Rightarrow> u32" where
  "power2 n = push_bit n 1"

definition vc_interleave :: "cmp_t \<Rightarrow> nat \<Rightarrow> nat \<Rightarrow> vc" where
  "vc_interleave t a b = vc_times (vc_cmp t) (min (of_nat a - 1) (of_nat b))"

definition vc_dsmerge :: "cmp_t \<Rightarrow> nat \<Rightarrow> nat \<Rightarrow> nat \<Rightarrow> vc" where
  "vc_dsmerge t a b c =
    (let v = \<lparr>vc_v = of_nat c, vc_c = 0\<rparr>;
         h = of_nat (min a c) * of_nat (min b c) div 2;
         v = (if t \<noteq> GE then vc_plus v \<lparr>vc_v = 0, vc_c = of_nat a + of_nat b + h\<rparr> else v)
     in if t \<noteq> LE then vc_plus v \<lparr>vc_v = 0, vc_c = h\<rparr> else v)"

definition vc_dsorting :: "cmp_t \<Rightarrow> nat \<Rightarrow> nat \<Rightarrow> vc" where
  "vc_dsorting t m n =
    (let v = \<lparr>vc_v = of_nat m, vc_c = 0\<rparr>;
         v = (if t \<noteq> GE then vc_plus v \<lparr>vc_v = 0, vc_c = power2 (n - 1)\<rparr> else v)
     in if t \<noteq> LE then vc_plus v \<lparr>vc_v = 0, vc_c = power2 (n - 1)\<rparr> else v)"

lemma ceil2_less: "1 < a \<Longrightarrow> ceil2 a < a" and ceil2_le: "ceil2 a \<le> a"
  by (auto simp: ceil2_def elim: oddE)

lemma floor2_le_ceil2: "floor2 a \<le> ceil2 a"
  by (simp add: floor2_def ceil2_def)

lemma ceil2_sum_less: "0 < a \<Longrightarrow> 0 < b \<Longrightarrow> \<not> (a = 1 \<and> b = 1) \<Longrightarrow> ceil2 a + ceil2 b < a + b"
  using ceil2_less [of a] ceil2_less [of b] ceil2_le [of a] ceil2_le [of b]
  by (cases "1 < a"; cases "1 < b") auto

lemma ceil2_measure:
  assumes "0 < a" "0 < b" "a \<noteq> Suc 0 \<or> b \<noteq> Suc 0"
  shows "3 + (6 * ceil2 a + 6 * ceil2 b) < 6 * a + 6 * b" "Suc (Suc (6 * ceil2 a + 6 * ceil2 b)) < 6 * a + 6 * b" "Suc (6 * ceil2 a + 6 * ceil2 b) < 6 * a + 6 * b"
    "6 * ceil2 a + 6 * ceil2 b < 6 * a + 6 * b"
  using ceil2_sum_less [of a b] assms by auto

lemma floor2_measure: "6 * floor2 a + 6 * floor2 b \<le> 6 * ceil2 a + 6 * ceil2 b"
  using floor2_le_ceil2 [of a] floor2_le_ceil2 [of b] by simp

function vc_merge :: "cmp_t \<Rightarrow> nat \<Rightarrow> nat \<Rightarrow> vc"
  and vc_merge_rec :: "cmp_t \<Rightarrow> nat \<Rightarrow> nat \<Rightarrow> vc"
  and vc_smerge :: "cmp_t \<Rightarrow> nat \<Rightarrow> nat \<Rightarrow> nat \<Rightarrow> vc"
  and vc_smerge_rec :: "cmp_t \<Rightarrow> nat \<Rightarrow> nat \<Rightarrow> nat \<Rightarrow> vc"
  and use_dsmerge :: "cmp_t \<Rightarrow> nat \<Rightarrow> nat \<Rightarrow> nat \<Rightarrow> bool" where
  "vc_merge t a b =
    (if a = 1 \<and> b = 1 then vc_cmp t
     else if a = 0 \<or> b = 0 then \<lparr>vc_v = 0, vc_c = 0\<rparr>
     else if use_dsmerge t a b (a + b) then vc_dsmerge t a b (a + b)
     else vc_merge_rec t a b)"
| "vc_merge_rec t a b =
    vc_minus
      (vc_plus (vc_plus (vc_merge t (ceil2 a) (ceil2 b)) (vc_merge t (floor2 a) (floor2 b)))
        (vc_interleave t (ceil2 a + ceil2 b) (floor2 a + floor2 b)))
      \<lparr>vc_v = 0, vc_c = 2\<rparr>"
| "vc_smerge t a b c =
    (if a = 1 \<and> b = 1 \<and> c = 1 then
       (let v = \<lparr>vc_v = 1, vc_c = 0\<rparr>;
            v = (if t \<noteq> GE then vc_plus v \<lparr>vc_v = 0, vc_c = 2\<rparr> else v)
        in if t \<noteq> LE then vc_plus v \<lparr>vc_v = 0, vc_c = 1\<rparr> else v)
     else if a = 0 \<or> b = 0 then \<lparr>vc_v = 0, vc_c = 0\<rparr>
     else if a > c then vc_smerge t c b c
     else if b > c then vc_smerge t a c c
     else if a + b \<le> c then vc_merge t a b
     else if use_dsmerge t a b c then vc_dsmerge t a b c
     else vc_smerge_rec t a b c)"
| "vc_smerge_rec t a b c =
    vc_plus
      (vc_plus
        (vc_plus
          (vc_plus
            (vc_plus
              (vc_smerge t (ceil2 a) (ceil2 b) (if even c then 1 + c div 2 else (c + 1) div 2))
              (vc_smerge t (floor2 a) (floor2 b) (if even c then c div 2 else (c - 1) div 2)))
            (vc_interleave t (ceil2 a + ceil2 b) (floor2 a + floor2 b)))
          \<lparr>vc_v = 1, vc_c = 0\<rparr>)
        (if t \<noteq> GE then \<lparr>vc_v = 0, vc_c = 2\<rparr> else \<lparr>vc_v = 0, vc_c = 0\<rparr>))
      (if t \<noteq> LE then \<lparr>vc_v = 0, vc_c = 1\<rparr> else \<lparr>vc_v = 0, vc_c = 0\<rparr>)"
| "use_dsmerge t a b c \<longleftrightarrow>
    a < 10 \<and> b < 10 \<and> vc_less (vc_dsmerge t a b (a + b)) (vc_smerge_rec t a b c)"
  by pat_completeness auto

termination
  by (relation "measure (\<lambda>x. case x of
      Inl (Inl (t, a, b)) \<Rightarrow> 6 * (a + b) + 2
    | Inl (Inr (t, a, b)) \<Rightarrow> 6 * (ceil2 a + ceil2 b) + 3
    | Inr (Inl (t, a, b, c)) \<Rightarrow> 6 * (a + b) + 3
    | Inr (Inr (Inl (t, a, b, c))) \<Rightarrow> 6 * (ceil2 a + ceil2 b) + 4
    | Inr (Inr (Inr (t, a, b, c))) \<Rightarrow> 6 * (ceil2 a + ceil2 b) + 5)")
    (auto intro: ceil2_measure le_imp_less_Suc floor2_measure)

declare vc_merge.simps [simp del] vc_merge_rec.simps [simp del] vc_smerge.simps [simp del]
  vc_smerge_rec.simps [simp del] use_dsmerge.simps [simp del]

function vc_sorting :: "cmp_t \<Rightarrow> nat \<Rightarrow> vc"
  and vc_sorting_rec :: "cmp_t \<Rightarrow> nat \<Rightarrow> vc"
  and use_dsorting :: "cmp_t \<Rightarrow> nat \<Rightarrow> bool" where
  "vc_sorting t n =
    (if n = 0 \<or> n = 1 then \<lparr>vc_v = 0, vc_c = 0\<rparr>
     else if n = 2 then vc_merge t 1 1
     else if use_dsorting t n then vc_dsorting t n n
     else vc_sorting_rec t n)"
| "vc_sorting_rec t n =
    (let l = n div 2 in vc_plus (vc_plus (vc_sorting t l) (vc_sorting t (n - l))) (vc_merge t l (n - l)))"
| "use_dsorting t n \<longleftrightarrow> n < 10 \<and> vc_less (vc_dsorting t n n) (vc_sorting_rec t n)"
  by pat_completeness auto

termination
  by (relation "measure (\<lambda>x. case x of
      Inl (t, n) \<Rightarrow> 4 * n | Inr (Inl (t, n)) \<Rightarrow> 4 * (n - n div 2) + 1 | Inr (Inr (t, n)) \<Rightarrow> 4 * (n - n div 2) + 2)")
    auto

declare vc_sorting.simps [simp del] vc_sorting_rec.simps [simp del] use_dsorting.simps [simp del]

lemma half_measure: "1 < n \<Longrightarrow> Suc (Suc (4 * (n - n div 2))) < 4 * n" for n :: nat
  by presburger

lemma half_less: "n \<noteq> 0 \<Longrightarrow> n \<noteq> 1 \<Longrightarrow> n - n div 2 < n" for n :: nat
  by presburger

text \<open>
  The estimate of \<open>card\<close>; \<open>le\<close>, \<open>ge\<close> and \<open>eq\<close> ask for at least one output (\<open>0 < k\<close>), without
  which the recursion of the source would not end.
\<close>

function vc_card :: "cmp_t \<Rightarrow> nat \<Rightarrow> nat \<Rightarrow> vc"
  and vc_card_rec :: "cmp_t \<Rightarrow> nat \<Rightarrow> nat \<Rightarrow> vc"
  and use_dcard :: "cmp_t \<Rightarrow> nat \<Rightarrow> nat \<Rightarrow> bool" where
  "vc_card t k n =
    (if n \<le> k \<or> k = 0 then vc_sorting t n
     else if use_dcard t k n then vc_dsorting t k n
     else vc_card_rec t k n)"
| "vc_card_rec t k n =
    (let l = n div 2 in vc_plus (vc_plus (vc_card t k l) (vc_card t k (n - l))) (vc_smerge t k l (n - l)))"
| "use_dcard t k n \<longleftrightarrow> n < 10 \<and> vc_less (vc_dsorting t k n) (vc_card_rec t k n)"
  by pat_completeness auto

termination
  by (relation "measure (\<lambda>x. case x of
      Inl (t, k, n) \<Rightarrow> 4 * n | Inr (Inl (t, k, n)) \<Rightarrow> 4 * (n - n div 2) + 1
    | Inr (Inr (t, k, n)) \<Rightarrow> 4 * (n - n div 2) + 2)")
    (auto intro: half_measure)

declare vc_card.simps [simp del] vc_card_rec.simps [simp del] use_dcard.simps [simp del]

subsection \<open>Comparators\<close>

definition cmp_ge :: "expr \<Rightarrow> expr \<Rightarrow> expr \<Rightarrow> expr \<Rightarrow> expr list list" where
  "cmp_ge x1 x2 y1 y2 = [[ps_mk_not y2, x1], [ps_mk_not y2, x2], [ps_mk_not y1, x1, x2]]"

definition cmp_le :: "expr \<Rightarrow> expr \<Rightarrow> expr \<Rightarrow> expr \<Rightarrow> expr list list" where
  "cmp_le x1 x2 y1 y2 = [[ps_mk_not x1, y1], [ps_mk_not x2, y1], [ps_mk_not x1, ps_mk_not x2, y2]]"

definition cmp_eq :: "expr \<Rightarrow> expr \<Rightarrow> expr \<Rightarrow> expr \<Rightarrow> expr list list" where
  "cmp_eq x1 x2 y1 y2 = cmp_ge x1 x2 y1 y2 @ cmp_le x1 x2 y1 y2"

definition cmp_clauses :: "cmp_t \<Rightarrow> expr \<Rightarrow> expr \<Rightarrow> expr \<Rightarrow> expr \<Rightarrow> expr list list" where
  "cmp_clauses t x1 x2 y1 y2 =
    (case t of
       LE \<Rightarrow> cmp_le x1 x2 y1 y2
     | LE_FULL \<Rightarrow> cmp_le x1 x2 y1 y2
     | GE \<Rightarrow> cmp_ge x1 x2 y1 y2
     | GE_FULL \<Rightarrow> cmp_ge x1 x2 y1 y2
     | EQ \<Rightarrow> cmp_eq x1 x2 y1 y2)"

text \<open>\<open>split\<close>: the literals at even and at odd positions.\<close>

fun evens :: "'a list \<Rightarrow> 'a list" and odds :: "'a list \<Rightarrow> 'a list" where
  "evens [] = []"
| "evens (x # xs) = x # odds xs"
| "odds [] = []"
| "odds (x # xs) = evens xs"

definition interleave :: "cmp_t \<Rightarrow> expr list \<Rightarrow> expr list \<Rightarrow> psort \<Rightarrow> expr list \<times> psort" where
  "interleave t as bs s =
    (let sz = min (length as - 1) (length bs)
     in (as ! 0 # concat (map (\<lambda>i. [ps_mk_max (as ! (i + 1)) (bs ! i), ps_mk_min (as ! (i + 1)) (bs ! i)]) [0..<sz])
           @ (if length as = length bs then [bs ! sz]
              else if length as = length bs + 2 then [as ! (sz + 1)] else []),
         add_clauses
           (concat (map (\<lambda>i. cmp_clauses t (as ! (i + 1)) (bs ! i)
             (ps_mk_max (as ! (i + 1)) (bs ! i)) (ps_mk_min (as ! (i + 1)) (bs ! i))) [0..<sz])) s))"

subsection \<open>Merging\<close>

definition dsmerge_le :: "nat \<Rightarrow> expr list \<Rightarrow> expr list \<Rightarrow> expr list \<Rightarrow> expr list list" where
  "dsmerge_le c as bs out =
    map (\<lambda>i. [ps_mk_not (as ! i), out ! i]) [0..<length as]
    @ map (\<lambda>i. [ps_mk_not (bs ! i), out ! i]) [0..<length bs]
    @ concat (map (\<lambda>i. concat (map (\<lambda>j.
        if i + j \<le> c then [[ps_mk_not (as ! (i - 1)), ps_mk_not (bs ! (j - 1)), out ! (i + j - 1)]] else [])
        [1..<length bs + 1])) [1..<length as + 1])"

definition dsmerge_ge :: "nat \<Rightarrow> expr list \<Rightarrow> expr list \<Rightarrow> expr list \<Rightarrow> expr list list" where
  "dsmerge_ge c as bs out =
    concat (map (\<lambda>k.
      (if length as \<le> k then [[ps_mk_not (out ! k), bs ! (k - length as)]] else [])
      @ (if length bs \<le> k then [[ps_mk_not (out ! k), as ! (k - length bs)]] else [])
      @ concat (map (\<lambda>i. if k - i < length bs then [[ps_mk_not (out ! k), as ! i, bs ! (k - i)]] else [])
          [0..<min (length as) (k + 1)])) [0..<c])"

definition dsmerge :: "cmp_t \<Rightarrow> nat \<Rightarrow> expr list \<Rightarrow> expr list \<Rightarrow> psort \<Rightarrow> expr list \<times> psort" where
  "dsmerge t c as bs s =
    (let (out, s) = freshes c s;
         s = (if t \<noteq> GE then add_clauses (dsmerge_le c as bs out) s else s);
         s = (if t \<noteq> LE then add_clauses (dsmerge_ge c as bs out) s else s)
     in (out, s))"

lemma length_evens: "length (evens xs) = ceil2 (length xs)"
  and length_odds: "length (odds xs) = floor2 (length xs)"
  by (induction xs rule: evens_odds.induct) (simp_all add: ceil2_def floor2_def)

lemma merge_measure:
  assumes "0 < a" "0 < b" "\<not> (a = 1 \<and> b = 1)"
  shows "2 * (ceil2 a + ceil2 b) + 1 < 2 * (a + b)" "2 * (floor2 a + floor2 b) + 1 < 2 * (a + b)"
  using ceil2_sum_less [OF assms] floor2_le_ceil2 [of a] floor2_le_ceil2 [of b] by simp_all

function ps_merge :: "cmp_t \<Rightarrow> expr list \<Rightarrow> expr list \<Rightarrow> psort \<Rightarrow> expr list \<times> psort" where
  "ps_merge t as bs s =
    (let a = length as; b = length bs
     in if a = 1 \<and> b = 1 then
          (let y1 = ps_mk_max (as ! 0) (bs ! 0); y2 = ps_mk_min (as ! 0) (bs ! 0)
           in ([y1, y2], add_clauses (cmp_clauses t (as ! 0) (bs ! 0) y1 y2) s))
        else if a = 0 then (bs, s)
        else if b = 0 then (as, s)
        else if use_dsmerge t a b (a + b) then dsmerge t (a + b) as bs s
        else if even a \<and> odd b then ps_merge t bs as s
        else (let (out1, s) = ps_merge t (evens as) (evens bs) s;
                  (out2, s) = ps_merge t (odds as) (odds bs) s
              in interleave t out1 out2 s))"
  by pat_completeness auto

termination
proof (relation "measure (\<lambda>(t, as, bs, s).
    2 * (length as + length bs) + (if even (length as) \<and> odd (length bs) then 1 else 0))", goal_cases)
  case (3 t as bs s a b)
  then show ?case using merge_measure(1) [of a b] by (auto simp: length_evens)
next
  case (4 t as bs s a b)
  then show ?case using merge_measure(2) [of a b] by (auto simp: length_odds)
qed auto

declare ps_merge.simps [simp del]

function ps_smerge :: "cmp_t \<Rightarrow> nat \<Rightarrow> expr list \<Rightarrow> expr list \<Rightarrow> psort \<Rightarrow> expr list \<times> psort" where
  "ps_smerge t c as bs s =
    (let a = length as; b = length bs
     in if a = 1 \<and> b = 1 \<and> c = 1 then
          (let y = ps_mk_max (as ! 0) (bs ! 0)
           in ([y], add_clauses
                ((if t \<noteq> GE then [[ps_mk_not (as ! 0), y], [ps_mk_not (bs ! 0), y]] else [])
                 @ (if t \<noteq> LE then [[ps_mk_not y, as ! 0, bs ! 0]] else [])) s))
        else if a = 0 then (take c bs, s)
        else if b = 0 then (take c as, s)
        else if a > c then ps_smerge t c (take c as) bs s
        else if b > c then ps_smerge t c as (take c bs) s
        else if a + b \<le> c then ps_merge t as bs s
        else if use_dsmerge t a b c then dsmerge t c as bs s
        else
          (let (c1, c2) = (if even c then (1 + c div 2, c div 2) else ((c + 1) div 2, (c - 1) div 2));
               (out1, s) = ps_smerge t c1 (evens as) (evens bs) s;
               (out2, s) = ps_smerge t c2 (odds as) (odds bs) s
           in if even c then
                (let z1 = last out1; z2 = last out2; y = ps_mk_max z1 z2;
                     s = add_clauses
                       ((if t \<noteq> GE then [[ps_mk_not z1, y], [ps_mk_not z2, y]] else [])
                        @ (if t \<noteq> LE then [[ps_mk_not y, z1, z2]] else [])) s;
                     (out, s) = interleave t (butlast out1) (butlast out2) s
                 in (out @ [y], s))
              else interleave t out1 out2 s))"
  by pat_completeness auto

termination
proof (relation "measure (\<lambda>(t, c, as, bs, s). length as + length bs)", goal_cases)
  case (4 t c as bs s a b)
  then have "0 < a" "0 < b" "\<not> (a = 1 \<and> b = 1)" by auto
  then show ?case using ceil2_sum_less [of a b] 4 by (auto simp: length_evens)
next
  case (5 t c as bs s a b)
  then have "0 < a" "0 < b" "\<not> (a = 1 \<and> b = 1)" by auto
  then show ?case
    using ceil2_sum_less [of a b] floor2_le_ceil2 [of a] floor2_le_ceil2 [of b] 5 by (auto simp: length_odds)
qed auto

declare ps_smerge.simps [simp del]

subsection \<open>Sorting\<close>

fun add_subset :: "bool \<Rightarrow> nat \<Rightarrow> nat \<Rightarrow> expr list \<Rightarrow> expr list \<Rightarrow> expr list list" where
  "add_subset polarity 0 offset lits xs = [lits]"
| "add_subset polarity (Suc k) offset lits xs =
    concat (map (\<lambda>i. add_subset polarity k (i + 1) (lits @ [if polarity then ps_mk_not (xs ! i) else xs ! i]) xs)
      [offset..<length xs - Suc k + 1])"

definition dsorting :: "cmp_t \<Rightarrow> nat \<Rightarrow> expr list \<Rightarrow> psort \<Rightarrow> expr list \<times> psort" where
  "dsorting t m xs s =
    (let n = length xs;
         (out, s) = freshes m s;
         s = (if t \<noteq> GE then
                add_clauses (concat (map (\<lambda>k. add_subset True k 0 [out ! (k - 1)] xs) [1..<m + 1])) s else s);
         s = (if t \<noteq> LE then
                add_clauses (concat (map (\<lambda>k. add_subset False (n - k + 1) 0 [ps_mk_not (out ! (k - 1))] xs)
                  [1..<m + 1])) s else s)
     in (out, s))"

function ps_sorting :: "cmp_t \<Rightarrow> expr list \<Rightarrow> psort \<Rightarrow> expr list \<times> psort" where
  "ps_sorting t xs s =
    (let n = length xs
     in if n = 0 then ([], s)
        else if n = 1 then ([xs ! 0], s)
        else if n = 2 then ps_merge t [xs ! 0] [xs ! 1] s
        else if use_dsorting t n then dsorting t n xs s
        else (let half = n div 2;
                  (out1, s) = ps_sorting t (take half xs) s;
                  (out2, s) = ps_sorting t (drop half xs) s
              in ps_merge t out1 out2 s))"
  by pat_completeness auto

termination by (relation "measure (\<lambda>(t, xs, s). length xs)") (auto intro: half_less)

declare ps_sorting.simps [simp del]

text \<open>The first \<open>k\<close> outputs of a sorting network; as above, with \<open>0 < k\<close>.\<close>

function ps_card :: "cmp_t \<Rightarrow> nat \<Rightarrow> expr list \<Rightarrow> psort \<Rightarrow> expr list \<times> psort" where
  "ps_card t k xs s =
    (let n = length xs
     in if n \<le> k \<or> k = 0 then ps_sorting t xs s
        else if use_dcard t k n then dsorting t k xs s
        else (let half = n div 2;
                  (out1, s) = ps_card t k (take half xs) s;
                  (out2, s) = ps_card t k (drop half xs) s
              in ps_smerge t k out1 out2 s))"
  by pat_completeness auto

termination by (relation "measure (\<lambda>(t, k, xs, s). length xs)") (auto intro: half_less)

declare ps_card.simps [simp del]

end
