(* ===== verification/Psort_Correct.thy ===== *)
theory Psort_Correct
  imports Psort_Network
begin

text \<open>
  Cardinality constraints, third part: the networks count. Merging adds the numbers that its inputs
  stand for, sorting counts the true literals, whatever the estimates choose; truncated networks give
  the first outputs.
\<close>

subsection \<open>Comparators and interleaving\<close>

lemma evens_nth: "2 * i < length xs \<Longrightarrow> evens xs ! i = xs ! (2 * i)"
  and odds_nth: "2 * i + 1 < length xs \<Longrightarrow> odds xs ! i = xs ! (2 * i + 1)"
proof (induction xs arbitrary: i and i rule: evens_odds.induct)
  case (2 x xs)
  then show ?case by (cases i) auto
qed simp_all

lemma evens_odds_set: "set (evens xs) \<subseteq> set xs" "set (odds xs) \<subseteq> set xs"
  by (induction xs rule: evens_odds.induct) auto

lemma less_ceil2: "i < ceil2 n \<longleftrightarrow> 2 * i < n" and less_floor2: "i < floor2 n \<longleftrightarrow> 2 * i + 1 < n"
  unfolding ceil2_def floor2_def by (simp_all, presburger+)

lemma ceil2_plus_floor2: "ceil2 n + floor2 n = n"
  unfolding ceil2_def floor2_def by presburger

lemma ceil2_eq: "ceil2 n = (n + 1) div 2"
  by (cases "even n") (auto simp: ceil2_def elim!: evenE oddE)

lemma ceil2_mono: "m \<le> n \<Longrightarrow> ceil2 m \<le> ceil2 n" and floor2_mono: "m \<le> n \<Longrightarrow> floor2 m \<le> floor2 n"
  unfolding ceil2_eq floor2_def by (rule div_le_mono, simp)+

lemma cut_sizes:
  assumes "c < a + b"
  shows "(if even c then 1 + c div 2 else (c + 1) div 2) \<le> ceil2 a + ceil2 b"
    "(if even c then c div 2 else (c - 1) div 2) \<le> floor2 a + floor2 b"
  using assms unfolding ceil2_def floor2_def
  by (cases "even c"; cases "even a"; cases "even b"; auto elim!: evenE oddE)+

lemma upper_evens: "upper I as A \<Longrightarrow> upper I (evens as) (ceil2 A)"
  and upper_odds: "upper I as A \<Longrightarrow> upper I (odds as) (floor2 A)"
  by (auto simp: upper_def length_evens length_odds evens_nth odds_nth less_ceil2 less_floor2)

lemma lower_evens: "lower I as A \<Longrightarrow> lower I (evens as) (ceil2 A)"
  and lower_odds: "lower I as A \<Longrightarrow> lower I (odds as) (floor2 A)"
  by (auto simp: lower_def length_evens length_odds evens_nth odds_nth less_ceil2 less_floor2)

lemma cmp_clauses_true: "clauses_true I (cmp_clauses t x1 x2 (ps_mk_max x1 x2) (ps_mk_min x1 x2))"
  by (cases t) (auto simp: cmp_clauses_def cmp_ge_def cmp_le_def cmp_eq_def psort_simps)

lemma cmp_clauses_known:
  "known n x1 \<Longrightarrow> known n x2 \<Longrightarrow> c \<in> set (cmp_clauses t x1 x2 (ps_mk_max x1 x2) (ps_mk_min x1 x2))
    \<Longrightarrow> l \<in> set c \<Longrightarrow> known n l"
  by (cases t) (auto simp: cmp_clauses_def cmp_ge_def cmp_le_def cmp_eq_def)

lemma pairs_nth:
  "length (concat (map (\<lambda>i. [f i, g i]) [0..<n])) = 2 * n"
  "i < n \<Longrightarrow> concat (map (\<lambda>i. [f i, g i]) [0..<n]) ! (2 * i) = f i"
  "i < n \<Longrightarrow> concat (map (\<lambda>i. [f i, g i]) [0..<n]) ! (2 * i + 1) = g i"
proof -
  show len: "length (concat (map (\<lambda>i. [f i, g i]) [0..<n])) = 2 * n" for n by (induction n) simp_all
  have "concat (map (\<lambda>i. [f i, g i]) [0..<n]) ! (2 * i) = f i
      \<and> concat (map (\<lambda>i. [f i, g i]) [0..<n]) ! (2 * i + 1) = g i" if "i < n"
    using that
  proof (induction n)
    case (Suc n)
    then show ?case using len [of n] by (cases "i = n") (auto simp: nth_append)
  qed simp
  then show "i < n \<Longrightarrow> concat (map (\<lambda>i. [f i, g i]) [0..<n]) ! (2 * i) = f i"
    "i < n \<Longrightarrow> concat (map (\<lambda>i. [f i, g i]) [0..<n]) ! (2 * i + 1) = g i" by blast+
qed

definition pair_max :: "expr list \<Rightarrow> expr list \<Rightarrow> nat \<Rightarrow> expr" where
  "pair_max as bs i = ps_mk_max (as ! (i + 1)) (bs ! i)"

definition pair_min :: "expr list \<Rightarrow> expr list \<Rightarrow> nat \<Rightarrow> expr" where
  "pair_min as bs i = ps_mk_min (as ! (i + 1)) (bs ! i)"

definition fit :: "'a list \<Rightarrow> 'a list \<Rightarrow> bool" where
  "fit as bs \<longleftrightarrow> as \<noteq> [] \<and> length bs \<le> length as \<and> length as \<le> length bs + 2"

abbreviation out_of :: "cmp_t \<Rightarrow> expr list \<Rightarrow> expr list \<Rightarrow> expr list" where
  "out_of t as bs \<equiv> fst (interleave t as bs \<lparr>m_lemmas = [], m_next_const = 0\<rparr>)"

lemma interleave_fst: "fst (interleave t as bs s) = out_of t as bs"
  by (simp add: interleave_def Let_def)

lemma out_of_eq:
  "out_of t as bs =
    as ! 0 # concat (map (\<lambda>i. [pair_max as bs i, pair_min as bs i]) [0..<min (length as - 1) (length bs)])
      @ (if length as = length bs then [bs ! min (length as - 1) (length bs)]
         else if length as = length bs + 2 then [as ! (min (length as - 1) (length bs) + 1)] else [])"
  by (simp add: interleave_def Let_def pair_max_def pair_min_def)

lemma length_out_of: "fit as bs \<Longrightarrow> length (out_of t as bs) = length as + length bs"
  unfolding out_of_eq by (cases as) (auto simp: fit_def pairs_nth(1) min_def)

text \<open>The positions of the outputs.\<close>

lemma out_of_nth:
  assumes "fit as bs" "i < length as + length bs"
  obtains (first) "i = 0" "out_of t as bs ! i = as ! 0"
    | (max) j where "i = 2 * j + 1" "j + 1 < length as" "j < length bs" "out_of t as bs ! i = pair_max as bs j"
    | (min) j where "i = 2 * j + 2" "j + 1 < length as" "j < length bs" "out_of t as bs ! i = pair_min as bs j"
    | (last_b) j where "i = 2 * j + 1" "length as = length bs" "length bs = j + 1" "out_of t as bs ! i = bs ! j"
    | (last_a) j where "i = 2 * j + 1" "length as = length bs + 2" "length bs = j" "out_of t as bs ! i = as ! (j + 1)"
proof -
  define sz where "sz = min (length as - 1) (length bs)"
  define ps where "ps = concat (map (\<lambda>i. [pair_max as bs i, pair_min as bs i]) [0..<sz])"
  define tl where "tl = (if length as = length bs then [bs ! sz]
         else if length as = length bs + 2 then [as ! (sz + 1)] else [])"
  have out: "out_of t as bs = as ! 0 # ps @ tl" unfolding out_of_eq ps_def tl_def sz_def by simp
  have len: "length ps = 2 * sz" unfolding ps_def by (rule pairs_nth(1))
  have sz: "sz < length as" "sz \<le> length bs" using assms(1) by (cases as; auto simp: sz_def fit_def)+
  show thesis
  proof (cases "i = 0")
    case True
    then show thesis using first out by simp
  next
    case False
    then obtain k where k: "i = Suc k" by (cases i) auto
    show thesis
    proof (cases "k < 2 * sz")
      case True
      define j where "j = k div 2"
      have j: "j < sz" "k = 2 * j \<or> k = 2 * j + 1" using True by (auto simp: j_def)
      have at: "out_of t as bs ! i = ps ! k" using out k len True by (simp add: nth_append)
      have jj: "j + 1 < length as" "j < length bs" using j(1) by (auto simp: sz_def)
      have pj: "ps ! (2 * j) = pair_max as bs j" "ps ! (2 * j + 1) = pair_min as bs j"
        unfolding ps_def by (rule pairs_nth(2) [OF j(1)], rule pairs_nth(3) [OF j(1)])
      from j(2) show thesis
      proof
        assume "k = 2 * j"
        then show thesis using max [of j] at k jj pj by simp
      next
        assume "k = 2 * j + 1"
        then show thesis using min [of j] at k jj pj by simp
      qed
    next
      case False
      have "length as + length bs = Suc (2 * sz + length tl)"
        using out len length_out_of [OF assms(1), of t] by simp
      then have tl: "k = 2 * sz" "length tl = 1"
        using False assms(2) k by (auto simp: tl_def split: if_splits)
      have at: "out_of t as bs ! i = tl ! 0" using out k len tl by (simp add: nth_append)
      show thesis
      proof (cases "length as = length bs")
        case True
        then have "length bs = sz + 1" using assms(1) by (cases as) (auto simp: sz_def fit_def)
        moreover have "tl = [bs ! sz]" using True by (simp add: tl_def)
        ultimately show thesis using True at k tl(1) by (intro last_b [of sz]) (simp only: nth_Cons_0 Suc_eq_plus1)+
      next
        case False
        then have "length as = length bs + 2" using tl(2) by (simp add: tl_def split: if_splits)
        moreover from this have "length bs = sz" "tl = [as ! (sz + 1)]" by (simp_all add: sz_def tl_def)
        ultimately show thesis using at k tl(1) by (intro last_a [of sz]) (simp_all only: nth_Cons_0 Suc_eq_plus1)
      qed
    qed
  qed
qed

lemma upper_out_of:
  assumes fit: "fit as bs" and EO: "upper I as E" "upper I bs O'" "O' \<le> E" "E \<le> O' + 2"
  shows "upper I (out_of t as bs) (E + O')"
  unfolding upper_def
proof (intro allI impI)
  fix i
  assume "i < length (out_of t as bs)" and h: "holds I (out_of t as bs ! i)"
  then have i: "i < length as + length bs" using length_out_of [OF fit] by simp
  have a: "holds I (as ! j) \<Longrightarrow> j < E" if "j < length as" for j using EO(1) that by (simp add: upper_def)
  have b: "holds I (bs ! j) \<Longrightarrow> j < O'" if "j < length bs" for j using EO(2) that by (simp add: upper_def)
  have a0: "0 < length as" using fit by (simp add: fit_def)
  show "i < E + O'"
    using out_of_nth [OF fit i, where t = t, case_names first max min last_b last_a]
  proof cases
    case first
    then show ?thesis using a [of 0] a0 h by simp
  next
    case (max j)
    then show ?thesis using a [of "j + 1"] b [of j] h EO(3,4) by (auto simp: pair_max_def psort_simps)
  next
    case (min j)
    then show ?thesis using a [of "j + 1"] b [of j] h EO(3,4) by (auto simp: pair_min_def psort_simps)
  next
    case (last_b j)
    then show ?thesis using b [of j] h EO(3,4) by auto
  next
    case (last_a j)
    then show ?thesis using a [of "j + 1"] h EO(3,4) by auto
  qed
qed

lemma lower_out_of:
  assumes fit: "fit as bs" and EO: "lower I as E" "lower I bs O'" "O' \<le> E" "E \<le> O' + 2"
    and tl: "length as = length bs \<Longrightarrow> E \<le> length as" "length as = length bs + 2 \<Longrightarrow> O' \<le> length bs"
  shows "lower I (out_of t as bs) (E + O')"
  unfolding lower_def
proof (intro allI impI)
  fix i
  assume "i < length (out_of t as bs)" and EOi: "i < E + O'"
  then have i: "i < length as + length bs" using length_out_of [OF fit] by simp
  have a: "j < E \<Longrightarrow> holds I (as ! j)" if "j < length as" for j using EO(1) that by (simp add: lower_def)
  have b: "j < O' \<Longrightarrow> holds I (bs ! j)" if "j < length bs" for j using EO(2) that by (simp add: lower_def)
  have a0: "0 < length as" using fit by (simp add: fit_def)
  show "holds I (out_of t as bs ! i)"
    using out_of_nth [OF fit i, where t = t, case_names first max min last_b last_a]
  proof cases
    case first
    then show ?thesis using a [of 0] a0 EOi EO(3) by simp
  next
    case (max j)
    then have "j < O' \<or> j + 1 < E" using EOi EO(3,4) by linarith
    then show ?thesis using a [of "j + 1"] b [of j] max by (auto simp: pair_max_def psort_simps)
  next
    case (min j)
    then have "j < O'" "j + 1 < E" using EOi EO(3,4) by linarith+
    then show ?thesis using a [of "j + 1"] b [of j] min by (auto simp: pair_min_def psort_simps)
  next
    case (last_b j)
    then show ?thesis using b [of j] EOi EO(3,4) tl(1) by auto
  next
    case (last_a j)
    then show ?thesis using a [of "j + 1"] EOi EO(3,4) tl(2) by auto
  qed
qed

definition interleave_clauses :: "cmp_t \<Rightarrow> expr list \<Rightarrow> expr list \<Rightarrow> expr list list" where
  "interleave_clauses t as bs =
    concat (map (\<lambda>i. cmp_clauses t (as ! (i + 1)) (bs ! i)
      (ps_mk_max (as ! (i + 1)) (bs ! i)) (ps_mk_min (as ! (i + 1)) (bs ! i)))
      [0..<min (length as - 1) (length bs)])"

lemma interleave_snd: "snd (interleave t as bs s) = add_clauses (interleave_clauses t as bs) s"
  by (simp add: interleave_def Let_def interleave_clauses_def)

lemma interleave_clauses_true: "clauses_true I (interleave_clauses t as bs)"
  by (simp add: interleave_clauses_def cmp_clauses_true)

lemma interleave_clauses_known:
  assumes "\<forall>l \<in> set as. known n l" "\<forall>l \<in> set bs. known n l" "c \<in> set (interleave_clauses t as bs)" "l \<in> set c"
  shows "known n l"
proof -
  obtain i where "i < length as - 1" "i < length bs"
    "c \<in> set (cmp_clauses t (as ! (i + 1)) (bs ! i) (ps_mk_max (as ! (i + 1)) (bs ! i)) (ps_mk_min (as ! (i + 1)) (bs ! i)))"
    using assms(3) by (auto simp: interleave_clauses_def)
  then show ?thesis using cmp_clauses_known assms(1,2,4) by (metis less_diff_conv nth_mem)
qed

lemma out_of_known:
  assumes "fit as bs" "\<forall>l \<in> set as. known n l" "\<forall>l \<in> set bs. known n l"
  shows "\<forall>l \<in> set (out_of t as bs). known n l"
proof
  fix l
  assume "l \<in> set (out_of t as bs)"
  then obtain i where i: "i < length as + length bs" "l = out_of t as bs ! i"
    using length_out_of [OF assms(1)] by (metis in_set_conv_nth)
  have ab: "\<And>i. i < length as \<Longrightarrow> known n (as ! i)" "\<And>i. i < length bs \<Longrightarrow> known n (bs ! i)"
    using assms(2,3) by auto
  show "known n l"
    by (cases rule: out_of_nth [OF assms(1) i(1), where t = t])
      (use i(2) ab assms(1) in \<open>auto simp: pair_max_def pair_min_def fit_def\<close>)
qed

subsection \<open>Merging\<close>

abbreviation down :: "cmp_t \<Rightarrow> bool" where "down t \<equiv> t \<noteq> LE"
abbreviation up :: "cmp_t \<Rightarrow> bool" where "up t \<equiv> t \<noteq> GE"

definition upper2 :: "expr list \<Rightarrow> expr list \<Rightarrow> interp \<Rightarrow> nat \<times> nat \<Rightarrow> bool" where
  "upper2 as bs I p \<longleftrightarrow> upper I as (fst p) \<and> upper I bs (snd p)"

text \<open>A list that is too short for its number has at least the \<open>c\<close> literals that matter.\<close>

definition lower2 :: "nat \<Rightarrow> expr list \<Rightarrow> expr list \<Rightarrow> interp \<Rightarrow> nat \<times> nat \<Rightarrow> bool" where
  "lower2 c as bs I p \<longleftrightarrow> lower I as (fst p) \<and> lower I bs (snd p)
    \<and> (fst p \<le> length as \<or> c \<le> length as) \<and> (snd p \<le> length bs \<or> c \<le> length bs)"

definition sum2 :: "nat \<times> nat \<Rightarrow> nat" where
  "sum2 p = fst p + snd p"

abbreviation merges :: "cmp_t \<Rightarrow> nat \<Rightarrow> expr list \<Rightarrow> expr list \<Rightarrow> psort \<Rightarrow> psort \<Rightarrow> expr list \<Rightarrow> bool" where
  "merges t c as bs s s' out \<equiv>
    computes (down t) (up t) s s' (upper2 as bs) (lower2 c as bs) sum2 out"

lemma upper2_agree: "knowns s as \<Longrightarrow> knowns s bs \<Longrightarrow> agree (m_next_const s) I J \<Longrightarrow> upper2 as bs I p \<Longrightarrow> upper2 as bs J p"
  and lower2_agree: "knowns s as \<Longrightarrow> knowns s bs \<Longrightarrow> agree (m_next_const s) I J \<Longrightarrow> lower2 c as bs I p \<Longrightarrow> lower2 c as bs J p"
  by (simp_all add: upper2_def lower2_def upper_agree lower_agree)

text \<open>The direct encoding of a merge.\<close>

lemma dsmerge_le_true:
  assumes "length as \<le> c" "length bs \<le> c"
  shows "clauses_true I (dsmerge_le c as bs out) \<longleftrightarrow>
    (\<forall>i < length as. holds I (as ! i) \<longrightarrow> holds I (out ! i))
    \<and> (\<forall>i < length bs. holds I (bs ! i) \<longrightarrow> holds I (out ! i))
    \<and> (\<forall>i < length as. \<forall>j < length bs. i + j + 1 < c \<longrightarrow> holds I (as ! i) \<longrightarrow> holds I (bs ! j) \<longrightarrow> holds I (out ! (i + j + 1)))"
  (is "?l \<longleftrightarrow> ?a \<and> ?b \<and> ?c")
proof -
  have "?l \<longleftrightarrow> ?a \<and> ?b \<and> (\<forall>i \<in> {1..<length as + 1}. \<forall>j \<in> {1..<length bs + 1}. i + j \<le> c \<longrightarrow>
      holds I (as ! (i - 1)) \<longrightarrow> holds I (bs ! (j - 1)) \<longrightarrow> holds I (out ! (i + j - 1)))"
    unfolding dsmerge_le_def clauses_true_simps set_upt
    by (auto simp: psort_simps)
  also have "(\<forall>i \<in> {1..<length as + 1}. \<forall>j \<in> {1..<length bs + 1}. i + j \<le> c \<longrightarrow>
      holds I (as ! (i - 1)) \<longrightarrow> holds I (bs ! (j - 1)) \<longrightarrow> holds I (out ! (i + j - 1))) \<longleftrightarrow> ?c"
  proof
    assume h: "\<forall>i \<in> {1..<length as + 1}. \<forall>j \<in> {1..<length bs + 1}. i + j \<le> c \<longrightarrow>
      holds I (as ! (i - 1)) \<longrightarrow> holds I (bs ! (j - 1)) \<longrightarrow> holds I (out ! (i + j - 1))"
    show ?c
    proof (intro allI impI)
      fix i j
      assume "i < length as" "j < length bs" "i + j + 1 < c" "holds I (as ! i)" "holds I (bs ! j)"
      then show "holds I (out ! (i + j + 1))" using h [rule_format, of "i + 1" "j + 1"] by simp
    qed
  next
    assume h: ?c
    show "\<forall>i \<in> {1..<length as + 1}. \<forall>j \<in> {1..<length bs + 1}. i + j \<le> c \<longrightarrow>
      holds I (as ! (i - 1)) \<longrightarrow> holds I (bs ! (j - 1)) \<longrightarrow> holds I (out ! (i + j - 1))"
    proof (intro ballI impI)
      fix i j
      assume ij: "i \<in> {1..<length as + 1}" "j \<in> {1..<length bs + 1}" "i + j \<le> c"
        "holds I (as ! (i - 1))" "holds I (bs ! (j - 1))"
      obtain i' j' where "i = Suc i'" "j = Suc j'" using ij(1,2) by (cases i; cases j) auto
      then show "holds I (out ! (i + j - 1))" using h [rule_format, of i' j'] ij by simp
    qed
  qed
  finally show ?thesis .
qed

lemma dsmerge_ge_true:
  "clauses_true I (dsmerge_ge c as bs out) \<longleftrightarrow>
    (\<forall>k < c. holds I (out ! k) \<longrightarrow>
      (length as \<le> k \<longrightarrow> holds I (bs ! (k - length as))) \<and> (length bs \<le> k \<longrightarrow> holds I (as ! (k - length bs)))
      \<and> (\<forall>i < length as. i \<le> k \<longrightarrow> k - i < length bs \<longrightarrow> holds I (as ! i) \<or> holds I (bs ! (k - i))))"
proof -
  let ?C = "\<lambda>k i. k - i < length bs \<longrightarrow> holds I (out ! k) \<longrightarrow> holds I (as ! i) \<or> holds I (bs ! (k - i))"
  have e: "clauses_true I (dsmerge_ge c as bs out) \<longleftrightarrow>
    (\<forall>k \<in> {0..<c}. (length as \<le> k \<longrightarrow> holds I (out ! k) \<longrightarrow> holds I (bs ! (k - length as)))
      \<and> (length bs \<le> k \<longrightarrow> holds I (out ! k) \<longrightarrow> holds I (as ! (k - length bs)))
      \<and> (\<forall>i \<in> {0..<min (length as) (k + 1)}. ?C k i))"
    unfolding dsmerge_ge_def clauses_true_simps set_upt by (simp add: psort_simps)
  have "(\<forall>i \<in> {0..<min (length as) (k + 1)}. ?C k i) \<longleftrightarrow> (\<forall>i < length as. i \<le> k \<longrightarrow> ?C k i)" for k
    by auto
  then show ?thesis unfolding e by auto
qed

text \<open>New constants with clauses over them, as in the direct encodings.\<close>

lemma computes_fresh:
  fixes s :: psort and c :: nat and cs ds :: "expr list list"
  defines "out \<equiv> map const [m_next_const s..<m_next_const s + c]"
    and "s1 \<equiv> s\<lparr>m_next_const := m_next_const s + c\<rparr>"
  assumes wf: "wf_psort s" and known: "\<forall>cl \<in> set (cs @ ds). knowns s1 cl"
    and ge: "\<And>I p. clauses_true I ds \<Longrightarrow> gi I p \<Longrightarrow> upper I out (val p)"
    and le: "\<And>I p. clauses_true I cs \<Longrightarrow> li I p \<Longrightarrow> lower I out (val p)"
    and exact: "\<And>I p. gi I p \<Longrightarrow> li I p \<Longrightarrow> \<forall>k < c. holds I (out ! k) = (k < val p)
      \<Longrightarrow> clauses_true I cs \<and> clauses_true I ds"
    and agree: "\<And>I J p. agree (m_next_const s) I J \<Longrightarrow> gi I p \<Longrightarrow> gi J p"
      "\<And>I J p. agree (m_next_const s) I J \<Longrightarrow> li I p \<Longrightarrow> li J p"
  shows "computes d u s (add_clauses ((if u then cs else []) @ (if d then ds else [])) s1) gi li val out"
proof -
  let ?cs = "(if u then cs else []) @ (if d then ds else [])"
  have wf1: "wf_psort s1" using wf_next [OF wf] by (simp add: s1_def)
  show ?thesis
    unfolding computes_def
  proof (intro conjI allI impI)
    show "wf_psort (add_clauses ?cs s1)" by (rule wf_add_clauses [OF wf1]) (use known in auto)
    show "m_next_const s \<le> m_next_const (add_clauses ?cs s1)" by (simp add: s1_def)
    show "knowns (add_clauses ?cs s1) out" by (auto simp: out_def s1_def)
    show "sat I s" if "sat I (add_clauses ?cs s1)" for I using that by (simp add: s1_def)
    show "upper I out (val p)" if "d" "sat I (add_clauses ?cs s1)" "gi I p" for I p using that ge by simp
    show "lower I out (val p)" if "u" "sat I (add_clauses ?cs s1)" "li I p" for I p using that le by simp
    fix I p
    assume I: "sat I s" "gi I p" "li I p"
    define J where "J = set_consts I (m_next_const s) (\<lambda>k. k < val p)"
    have ag: "agree (m_next_const s) I J" by (simp add: J_def)
    have out: "\<forall>k < c. holds J (out ! k) = (k < val p)" by (simp add: out_def J_def)
    have "clauses_true J cs \<and> clauses_true J ds"
      using exact [OF agree(1) [OF ag I(2)] agree(2) [OF ag I(3)] out] .
    then have "sat J (add_clauses ?cs s1)" using sat_agree [OF wf ag I(1)] by (simp add: s1_def)
    moreover have "upper J out (val p)" "lower J out (val p)"
      using out by (auto simp: upper_def lower_def out_def)
    ultimately show "\<exists>J. agree (m_next_const s) I J \<and> sat J (add_clauses ?cs s1) \<and> upper J out (val p) \<and> lower J out (val p)"
      using ag by blast
  qed
qed

lemma add_clauses_append: "add_clauses ds (add_clauses cs s) = add_clauses (cs @ ds) s"
  by (simp add: add_clauses_def)

lemma dsmerge_eq:
  "dsmerge t c as bs s =
    (let out = map const [m_next_const s..<m_next_const s + c]
     in (out, add_clauses ((if up t then dsmerge_le c as bs out else []) @ (if down t then dsmerge_ge c as bs out else []))
          (s\<lparr>m_next_const := m_next_const s + c\<rparr>)))"
  by (auto simp: dsmerge_def freshes_eq Let_def add_clauses_append)

lemma dsmerge_merges:
  assumes wf: "wf_psort s" "knowns s as" "knowns s bs" and c: "length as \<le> c" "length bs \<le> c" "c \<le> length as + length bs"
    and run: "dsmerge t c as bs s = (out, s')"
  shows "merges t c as bs s s' out \<and> length out = c"
proof -
  let ?s = "s\<lparr>m_next_const := m_next_const s + c\<rparr>"
  have out: "out = map const [m_next_const s..<m_next_const s + c]"
    and s': "s' = add_clauses ((if up t then dsmerge_le c as bs out else []) @ (if down t then dsmerge_ge c as bs out else [])) ?s"
    using run by (auto simp: dsmerge_eq Let_def)
  have len: "length out = c" by (simp add: out)
  have ab: "knowns ?s as" "knowns ?s bs" using wf known_mono by (fastforce)+
  have outk: "\<And>k. k < c \<Longrightarrow> known (m_next_const ?s) (out ! k)" by (simp add: out)
  have known: "\<forall>cl \<in> set (dsmerge_le c as bs out @ dsmerge_ge c as bs out). knowns ?s cl"
    using ab outk c by (auto simp: dsmerge_le_def dsmerge_ge_def split: if_splits)
  show ?thesis
    unfolding s' out
  proof (rule conjI, rule computes_fresh)
    show "\<forall>cl \<in> set (dsmerge_le c as bs (map const [m_next_const s..<m_next_const s + c])
        @ dsmerge_ge c as bs (map const [m_next_const s..<m_next_const s + c])). knowns ?s cl"
      using known unfolding out .
    fix I :: interp and p :: "nat \<times> nat"
    show "upper I (map const [m_next_const s..<m_next_const s + c]) (sum2 p)"
      if cl: "clauses_true I (dsmerge_ge c as bs (map const [m_next_const s..<m_next_const s + c]))" and u: "upper2 as bs I p"
      unfolding out [symmetric] upper_def
    proof (intro allI impI)
      fix k
      assume k: "k < length out" "holds I (out ! k)"
      have cl: "length as \<le> k \<Longrightarrow> holds I (bs ! (k - length as))" "length bs \<le> k \<Longrightarrow> holds I (as ! (k - length bs))"
        "\<And>i. i < length as \<Longrightarrow> i \<le> k \<Longrightarrow> k - i < length bs \<Longrightarrow> holds I (as ! i) \<or> holds I (bs ! (k - i))"
        using cl k len unfolding out [symmetric] dsmerge_ge_true by auto
      have as: "\<And>i. i < length as \<Longrightarrow> holds I (as ! i) \<Longrightarrow> i < fst p"
        and bs: "\<And>i. i < length bs \<Longrightarrow> holds I (bs ! i) \<Longrightarrow> i < snd p"
        using u by (auto simp: upper2_def upper_def)
      have kc: "k < length as + length bs" using k len c by simp
      show "k < sum2 p"
      proof (rule ccontr)
        assume "\<not> k < sum2 p"
        then have le: "fst p + snd p \<le> k" by (simp add: sum2_def)
        show False
        proof (cases "length as \<le> fst p")
          case True
          then have "length as \<le> k" "k - length as < length bs" using le kc by arith+
          then show False using cl(1) bs [of "k - length as"] le True by auto
        next
          case False
          show False
          proof (cases "k - fst p < length bs")
            case True
            then show False using cl(3) [of "fst p"] as [of "fst p"] bs [of "k - fst p"] le False by auto
          next
            case False': False
            then have "length bs \<le> k" "k - length bs < length as" "\<not> k - length bs < fst p"
              using le kc by arith+
            then show False using cl(2) as [of "k - length bs"] by blast
          qed
        qed
      qed
    qed
    show "lower I (map const [m_next_const s..<m_next_const s + c]) (sum2 p)"
      if cl: "clauses_true I (dsmerge_le c as bs (map const [m_next_const s..<m_next_const s + c]))" and l: "lower2 c as bs I p"
      unfolding out [symmetric] lower_def
    proof (intro allI impI)
      fix k
      assume k: "k < length out" "k < sum2 p"
      have cl: "\<And>i. i < length as \<Longrightarrow> holds I (as ! i) \<Longrightarrow> holds I (out ! i)"
        "\<And>i. i < length bs \<Longrightarrow> holds I (bs ! i) \<Longrightarrow> holds I (out ! i)"
        "\<And>i j. i < length as \<Longrightarrow> j < length bs \<Longrightarrow> i + j + 1 < c \<Longrightarrow> holds I (as ! i) \<Longrightarrow> holds I (bs ! j)
          \<Longrightarrow> holds I (out ! (i + j + 1))"
        using cl unfolding out [symmetric] dsmerge_le_true [OF c(1,2)] by auto
      have as: "\<And>i. i < length as \<Longrightarrow> i < fst p \<Longrightarrow> holds I (as ! i)"
        and bs: "\<And>i. i < length bs \<Longrightarrow> i < snd p \<Longrightarrow> holds I (bs ! i)"
        and fit: "fst p \<le> length as \<or> c \<le> length as" "snd p \<le> length bs \<or> c \<le> length bs"
        using l by (auto simp: lower2_def lower_def)
      consider "k < length as" "k < fst p" | "k < length bs" "k < snd p"
        | "fst p \<le> length as" "fst p \<le> k" "snd p \<le> length bs" "snd p \<le> k"
        using fit k len by linarith
      then show "holds I (out ! k)"
      proof cases
        case 3
        then have "holds I (out ! ((fst p - 1) + (k - fst p) + 1))"
          using k len as [of "fst p - 1"] bs [of "k - fst p"] by (intro cl(3)) (auto simp: sum2_def)
        moreover have "(fst p - 1) + (k - fst p) + 1 = k" using 3 k by (simp add: sum2_def)
        ultimately show ?thesis by simp
      qed (use cl as bs in blast)+
    qed
    show "clauses_true I (dsmerge_le c as bs (map const [m_next_const s..<m_next_const s + c]))
        \<and> clauses_true I (dsmerge_ge c as bs (map const [m_next_const s..<m_next_const s + c]))"
      if u: "upper2 as bs I p" and l: "lower2 c as bs I p"
        and o: "\<forall>k < c. holds I (map const [m_next_const s..<m_next_const s + c] ! k) = (k < sum2 p)"
    proof -
      have as: "\<And>i. i < length as \<Longrightarrow> holds I (as ! i) = (i < fst p)"
        and bs: "\<And>i. i < length bs \<Longrightarrow> holds I (bs ! i) = (i < snd p)"
        and fit: "fst p \<le> length as \<or> c \<le> length as" "snd p \<le> length bs \<or> c \<le> length bs"
        using u l by (auto simp: lower2_def lower_def upper2_def upper_def)
      have o: "\<And>k. k < c \<Longrightarrow> holds I (out ! k) = (k < fst p + snd p)"
        using o unfolding out by (simp add: sum2_def)
      have "clauses_true I (dsmerge_le c as bs out)"
        unfolding dsmerge_le_true [OF c(1,2)] using as bs o c by auto
      moreover have "clauses_true I (dsmerge_ge c as bs out)"
        unfolding dsmerge_ge_true
      proof (intro allI impI conjI)
        fix k
        assume k: "k < c" "holds I (out ! k)"
        then have lt: "k < fst p + snd p" "k < length as + length bs" using o c by auto
        show "holds I (bs ! (k - length as))" if "length as \<le> k"
          using bs [of "k - length as"] fit that k lt by auto
        show "holds I (as ! (k - length bs))" if "length bs \<le> k"
          using as [of "k - length bs"] fit that k lt by auto
        show "holds I (as ! i) \<or> holds I (bs ! (k - i))" if "i < length as" "i \<le> k" "k - i < length bs" for i
          using as [of i] bs [of "k - i"] that lt by auto
      qed
      ultimately show ?thesis unfolding out by blast
    qed
  qed (use wf upper2_agree lower2_agree in \<open>auto simp: len [unfolded out]\<close>)
qed

definition half_up :: "nat \<times> nat \<Rightarrow> nat \<times> nat" where
  "half_up p = (ceil2 (fst p), ceil2 (snd p))"

definition half_down :: "nat \<times> nat \<Rightarrow> nat \<times> nat" where
  "half_down p = (floor2 (fst p), floor2 (snd p))"

lemma sum2_halves:
  "sum2 (half_up p) + sum2 (half_down p) = sum2 p" "sum2 (half_down p) \<le> sum2 (half_up p)"
  "sum2 (half_up p) \<le> sum2 (half_down p) + 2"
  unfolding sum2_def half_up_def half_down_def ceil2_def floor2_def by (simp_all, presburger+)

lemma upper2_halves:
  assumes "upper2 as bs I p"
  shows "upper2 (evens as) (evens bs) I (half_up p)" "upper2 (odds as) (odds bs) I (half_down p)"
  using assms upper_evens upper_odds by (auto simp: upper2_def half_up_def half_down_def)

lemma lower2_halves:
  assumes "lower2 c as bs I p" "fst p \<le> length as" "snd p \<le> length bs"
  shows "lower2 c1 (evens as) (evens bs) I (half_up p)" "lower2 c2 (odds as) (odds bs) I (half_down p)"
proof -
  have "ceil2 (fst p) \<le> ceil2 (length as)" "ceil2 (snd p) \<le> ceil2 (length bs)"
    "floor2 (fst p) \<le> floor2 (length as)" "floor2 (snd p) \<le> floor2 (length bs)"
    using assms(2,3) by (simp_all add: ceil2_mono floor2_mono)
  then show "lower2 c1 (evens as) (evens bs) I (half_up p)" "lower2 c2 (odds as) (odds bs) I (half_down p)"
    using assms lower_evens lower_odds
    by (auto simp: lower2_def half_up_def half_down_def length_evens length_odds)
qed

lemma knowns_halves:
  assumes "knowns s as"
  shows "knowns s (evens as)" "knowns s (odds as)"
  using assms evens_odds_set [of as] by blast+

definition exact2 :: "expr list \<Rightarrow> expr list \<Rightarrow> interp \<Rightarrow> nat \<times> nat \<Rightarrow> bool" where
  "exact2 as bs I p \<longleftrightarrow> lower I as (fst p) \<and> lower I bs (snd p) \<and> fst p \<le> length as \<and> snd p \<le> length bs"

lemma exact2_agree: "knowns s as \<Longrightarrow> knowns s bs \<Longrightarrow> agree (m_next_const s) I J \<Longrightarrow> exact2 as bs I p \<Longrightarrow> exact2 as bs J p"
  by (simp add: exact2_def lower_agree)

lemma exact2_halves:
  assumes "exact2 as bs I p"
  shows "lower2 c1 (evens as) (evens bs) I (half_up p)" "lower2 c2 (odds as) (odds bs) I (half_down p)"
proof -
  have p: "lower2 0 as bs I p" "fst p \<le> length as" "snd p \<le> length bs"
    using assms by (simp_all add: exact2_def lower2_def)
  show "lower2 c1 (evens as) (evens bs) I (half_up p)" "lower2 c2 (odds as) (odds bs) I (half_down p)"
    by (rule lower2_halves(1) [OF p], rule lower2_halves(2) [OF p])
qed

text \<open>The recursive step of both merging networks, with the first \<open>n\<close> outputs.\<close>

lemma interleave_merges:
  assumes c1: "merges t k1 (evens as) (evens bs) s s1 out1" and c2: "merges t k2 (odds as) (odds bs) s1 s2 out2"
    and ab: "knowns s as" "knowns s bs" and fit: "fit out1 out2"
    and tl: "\<And>p. fst p \<le> length as \<Longrightarrow> snd p \<le> length bs \<Longrightarrow> length out1 = length out2 \<Longrightarrow> sum2 (half_up p) \<le> length out1"
      "\<And>p. fst p \<le> length as \<Longrightarrow> snd p \<le> length bs \<Longrightarrow> length out1 = length out2 + 2 \<Longrightarrow> sum2 (half_down p) \<le> length out2"
    and cs: "\<And>I. clauses_true I cs" "\<forall>c \<in> set cs. knowns s2 c"
    and out: "out = take n (out_of t out1 out2)"
  shows "computes (down t) (up t) s (add_clauses cs s2) (upper2 as bs) (exact2 as bs) sum2 out"
proof -
  note odds_known = knowns_halves(2) [OF ab(1)] knowns_halves(2) [OF ab(2)]
  have u: "\<forall>I J p. agree (m_next_const s) I J \<longrightarrow> upper2 (odds as) (odds bs) I p \<longrightarrow> upper2 (odds as) (odds bs) J p"
    and l: "\<forall>I J p. agree (m_next_const s) I J \<longrightarrow> lower2 k2 (odds as) (odds bs) I p \<longrightarrow> lower2 k2 (odds as) (odds bs) J p"
    using upper2_agree [OF odds_known] lower2_agree [OF odds_known] by blast+
  note seq = computes_seq [OF c1 c2 u l]
  have outs: "upper I (out_of t out1 out2) N \<Longrightarrow> upper I out N" "lower I (out_of t out1 out2) N \<Longrightarrow> lower I out N" for I N
    by (auto simp: out upper_def lower_def)
  have up: "upper I out (sum2 p)" if "upper I out1 (sum2 (half_up p))" "upper I out2 (sum2 (half_down p))" for I p
    using outs(1) upper_out_of [OF fit that sum2_halves(2,3), of t] by (simp add: sum2_halves(1))
  have lo: "lower I out (sum2 p)"
    if "lower I out1 (sum2 (half_up p))" "lower I out2 (sum2 (half_down p))" "exact2 as bs I p" for I p
  proof -
    have "fst p \<le> length as" "snd p \<le> length bs" using that(3) by (simp_all add: exact2_def)
    then show ?thesis
      using outs(2) lower_out_of [OF fit that(1,2) sum2_halves(2,3) tl, of t] by (simp add: sum2_halves(1))
  qed
  show ?thesis
    unfolding computes_def
  proof (intro conjI allI impI)
    show "wf_psort (add_clauses cs s2)" by (rule wf_add_clauses [OF seq(1) cs(2)])
    show "m_next_const s \<le> m_next_const (add_clauses cs s2)" using seq(2) by simp
    have "\<forall>l \<in> set (out_of t out1 out2). known (m_next_const s2) l" by (rule out_of_known [OF fit seq(3,4)])
    then show "knowns (add_clauses cs s2) out" by (auto simp: out dest: in_set_takeD)
    show "sat I s" if "sat I (add_clauses cs s2)" for I using that seq(5) by simp
    fix I p
    show "upper I out (sum2 p)" if "down t" "sat I (add_clauses cs s2)" "upper2 as bs I p"
      using up seq(6) [OF that(1) _ upper2_halves [OF that(3)]] that(2) by simp
    show "lower I out (sum2 p)" if "up t" "sat I (add_clauses cs s2)" "exact2 as bs I p"
      using lo seq(7) [OF that(1) _ exact2_halves [OF that(3)]] that(2,3) by simp
    assume I: "sat I s" "upper2 as bs I p" "exact2 as bs I p"
    obtain J where J: "agree (m_next_const s) I J" "sat J s2" "upper J out1 (sum2 (half_up p))" "lower J out1 (sum2 (half_up p))"
      "upper J out2 (sum2 (half_down p))" "lower J out2 (sum2 (half_down p))"
      using seq(8) [OF I(1) upper2_halves(1) [OF I(2)] exact2_halves(1) [OF I(3)] upper2_halves(2) [OF I(2)] exact2_halves(2) [OF I(3)]]
      by blast
    have "lower J out (sum2 p)" by (rule lo [OF J(4,6) exact2_agree [OF ab J(1) I(3)]])
    then show "\<exists>J. agree (m_next_const s) I J \<and> sat J (add_clauses cs s2) \<and> upper J out (sum2 p) \<and> lower J out (sum2 p)"
      using J(1,2) up [OF J(3,5)] cs(1) by auto
  qed
qed

lemma merges_step:
  assumes "computes d u s s' (upper2 as bs) (exact2 as bs) sum2 out"
    and c: "length out \<le> c" and ab: "knowns s as" "knowns s bs"
  shows "computes d u s s' (upper2 as bs) (lower2 c as bs) sum2 out"
proof (rule computes_cong [OF assms(1), where f = "\<lambda>p. (min (fst p) (length as), min (snd p) (length bs))"])
  fix I p
  let ?p = "(min (fst p) (length as), min (snd p) (length bs))"
  show "upper2 as bs I p \<Longrightarrow> upper2 as bs I ?p" by (auto simp: upper2_def upper_def)
  show "lower2 c as bs I p \<Longrightarrow> exact2 as bs I ?p" by (auto simp: lower2_def exact2_def lower_def)
  show "upper2 as bs I p \<Longrightarrow> upper I out (sum2 ?p) \<Longrightarrow> upper I out (sum2 p)"
    by (fastforce simp: upper_def sum2_def)
  show "lower2 c as bs I p \<Longrightarrow> lower I out (sum2 ?p) \<Longrightarrow> lower I out (sum2 p)"
    using c by (fastforce simp: lower2_def lower_def sum2_def min_def split: if_splits)
qed (use upper2_agree lower2_agree ab in blast)+

lemma merges_swap:
  assumes "merges t c bs as s s' out" "knowns s as" "knowns s bs"
  shows "merges t c as bs s s' out"
  by (rule computes_cong [OF assms(1), where f = prod.swap])
    (use upper2_agree lower2_agree assms(2,3) in \<open>auto simp: upper2_def lower2_def sum2_def upper_agree lower_agree add.commute\<close>)

text \<open>Outputs that are the inputs.\<close>

lemma merges_trivial:
  assumes "wf_psort s" "knowns s as"
  shows "merges t c as [] s s (take c as)" "merges t c [] as s s (take c as)"
proof -
  have as: "computes (down t) (up t) s (add_clauses [] s) (upper2 as []) (lower2 c as []) sum2 (take c as)"
    by (rule computes_gates)
      (use assms in \<open>auto simp: upper2_def lower2_def sum2_def upper_def lower_def dest: in_set_takeD\<close>)
  have "computes (down t) (up t) s (add_clauses [] s) (upper2 [] as) (lower2 c [] as) sum2 (take c as)"
    by (rule computes_gates)
      (use assms in \<open>auto simp: upper2_def lower2_def sum2_def upper_def lower_def dest: in_set_takeD\<close>)
  then show "merges t c as [] s s (take c as)" "merges t c [] as s s (take c as)"
    using as by (simp_all add: add_clauses_def)
qed

lemma ps_merge_ok:
  assumes "wf_psort s" "knowns s as" "knowns s bs" "ps_merge t as bs s = (out, s')"
  shows "merges t (length as + length bs) as bs s s' out \<and> length out = length as + length bs"
  using assms
proof (induction t as bs s arbitrary: out s' rule: ps_merge.induct)
  case (1 t as bs s)
  let ?a = "length as" and ?b = "length bs"
  note wf = 1(4-6)
  consider (one) "?a = 1 \<and> ?b = 1" | (no_a) "?a = 0" | (no_b) "0 < ?a" "?b = 0"
    | (direct) "\<not> (?a = 1 \<and> ?b = 1)" "0 < ?a" "0 < ?b" "use_dsmerge t ?a ?b (?a + ?b)"
    | (swap) "\<not> (?a = 1 \<and> ?b = 1)" "0 < ?a" "0 < ?b" "\<not> use_dsmerge t ?a ?b (?a + ?b)" "even ?a \<and> odd ?b"
    | (rec) "\<not> (?a = 1 \<and> ?b = 1)" "0 < ?a" "0 < ?b" "\<not> use_dsmerge t ?a ?b (?a + ?b)" "\<not> (even ?a \<and> odd ?b)"
    by fastforce
  then show ?case
  proof cases
    case one
    then obtain x y where xy: "as = [x]" "bs = [y]" by (auto simp: length_Suc_conv)
    have out: "out = [ps_mk_max x y, ps_mk_min x y]"
      "s' = add_clauses (cmp_clauses t x y (ps_mk_max x y) (ps_mk_min x y)) s"
      using 1(7) xy by (simp_all add: ps_merge.simps Let_def)
    show ?thesis
      unfolding out(2)
    proof (rule conjI, rule computes_gates)
      show "clauses_true I (cmp_clauses t x y (ps_mk_max x y) (ps_mk_min x y))" for I
        by (rule cmp_clauses_true)
      show "\<forall>c \<in> set (cmp_clauses t x y (ps_mk_max x y) (ps_mk_min x y)). knowns s c"
        using cmp_clauses_known wf xy by (metis list.set_intros(1))
    qed (use wf xy out in \<open>auto simp: upper2_def lower2_def sum2_def upper_def lower_def less_Suc_eq psort_simps\<close>)
  next
    case no_a
    then show ?thesis using 1(7) merges_trivial(2) [of s bs t ?b] wf by (simp add: ps_merge.simps [of t "[]" bs s])
  next
    case no_b
    then have bs: "bs = []" by simp
    have "out = as" "s' = s" using 1(7) no_b(1) unfolding bs ps_merge.simps [of t as "[]" s] by simp_all
    then show ?thesis using merges_trivial(1) [OF wf(1,2), of t ?a] bs by simp
  next
    case direct
    then have "dsmerge t (?a + ?b) as bs s = (out, s')" using 1(7) by (auto simp: ps_merge.simps [of t as bs s] Let_def)
    from dsmerge_merges [OF wf _ _ _ this] show ?thesis by simp
  next
    case swap
    then have "ps_merge t as bs s = ps_merge t bs as s"
      by (auto simp: ps_merge.simps [of t as bs s] Let_def simp del: length_0_conv length_greater_0_conv)
    then have "ps_merge t bs as s = (out, s')" using 1(7) by simp
    then have "merges t (?b + ?a) bs as s s' out \<and> length out = ?b + ?a"
      using 1(1) [OF refl refl] swap wf by blast
    then show ?thesis using merges_swap [OF _ wf(2,3)] by (simp add: add.commute)
  next
    case rec
    obtain out1 s1 where r1: "ps_merge t (evens as) (evens bs) s = (out1, s1)" by (metis surj_pair)
    obtain out2 s2 where r2: "ps_merge t (odds as) (odds bs) s1 = (out2, s2)" by (metis surj_pair)
    have "ps_merge t as bs s = interleave t out1 out2 s2"
      using rec r1 r2 by (auto simp: ps_merge.simps [of t as bs s] Let_def simp del: length_0_conv length_greater_0_conv)
    then have run: "interleave t out1 out2 s2 = (out, s')" using 1(7) by simp
    note evens_known = knowns_halves(1) [OF wf(2)] knowns_halves(1) [OF wf(3)]
    note odds_known = knowns_halves(2) [OF wf(2)] knowns_halves(2) [OF wf(3)]
    have c1: "merges t (ceil2 ?a + ceil2 ?b) (evens as) (evens bs) s s1 out1" "length out1 = ceil2 ?a + ceil2 ?b"
      using 1(2) [OF refl refl _ _ _ _ _ wf(1) evens_known r1] rec by (auto simp: length_evens)
    have s1: "wf_psort s1" "m_next_const s \<le> m_next_const s1" by (rule computesD [OF c1(1)])+
    have odds_known1: "knowns s1 (odds as)" "knowns s1 (odds bs)"
      using knowns_mono [OF _ s1(2)] odds_known by blast+
    have c2: "merges t (floor2 ?a + floor2 ?b) (odds as) (odds bs) s1 s2 out2" "length out2 = floor2 ?a + floor2 ?b"
      using 1(3) [OF refl refl _ _ _ _ _ r1 [symmetric] refl s1(1) odds_known1 r2] rec by (auto simp: length_odds)
    have fit: "fit out1 out2"
      using rec c1(2) c2(2) unfolding fit_def ceil2_def floor2_def by auto
    have out: "out = take (?a + ?b) (out_of t out1 out2)" "s' = add_clauses (interleave_clauses t out1 out2) s2"
      using interleave_fst [of t out1 out2 s2] interleave_snd [of t out1 out2 s2] run length_out_of [OF fit, of t]
        c1(2) c2(2) ceil2_plus_floor2 [of ?a] ceil2_plus_floor2 [of ?b] by simp_all
    have len: "length out = ?a + ?b"
      using out(1) length_out_of [OF fit, of t] c1(2) c2(2) ceil2_plus_floor2 [of ?a] ceil2_plus_floor2 [of ?b] by simp
    have known2: "knowns s2 out1" "knowns s2 out2"
      using knowns_mono [OF computesD(3) [OF c1(1)] computesD(2) [OF c2(1)]] computesD(3) [OF c2(1)] .
    have "computes (down t) (up t) s (add_clauses (interleave_clauses t out1 out2) s2) (upper2 as bs) (exact2 as bs) sum2 out"
    proof (rule interleave_merges [OF c1(1) c2(1) wf(2,3) fit _ _ interleave_clauses_true _ out(1)])
      show "\<forall>c \<in> set (interleave_clauses t out1 out2). knowns s2 c"
        using interleave_clauses_known known2 by blast
      fix p :: "nat \<times> nat"
      assume p: "fst p \<le> ?a" "snd p \<le> ?b"
      show "sum2 (half_up p) \<le> length out1"
        unfolding c1(2) sum2_def half_up_def fst_conv snd_conv by (intro add_mono ceil2_mono p)
      show "sum2 (half_down p) \<le> length out2"
        unfolding c2(2) sum2_def half_down_def fst_conv snd_conv by (intro add_mono floor2_mono p)
    qed
    then show ?thesis using merges_step [OF _ _ wf(2,3)] out(2) len by simp
  qed
qed

subsection \<open>Truncated merging\<close>

lemma out_of_butlast:
  assumes "length as = k + 1" "length bs = k" "0 < k"
  shows "out_of t (butlast as) (butlast bs) @ [pair_max as bs (k - 1)] = take (2 * k) (out_of t as bs)"
proof -
  obtain n where n: "k = Suc n" using assms(3) by (cases k) auto
  let ?P = "\<lambda>as bs. concat (map (\<lambda>i. [pair_max as bs i, pair_min as bs i]) [0..<n])"
  have "out_of t as bs = as ! 0 # ?P as bs @ [pair_max as bs n, pair_min as bs n]"
    using assms n by (simp add: out_of_eq)
  then have "take (2 * k) (out_of t as bs) = as ! 0 # ?P as bs @ [pair_max as bs n]"
    using n pairs_nth(1) [of "pair_max as bs" "pair_min as bs" n] by simp
  moreover have "out_of t (butlast as) (butlast bs) = as ! 0 # ?P (butlast as) (butlast bs)"
    using assms n by (simp add: out_of_eq nth_butlast)
  moreover have "?P (butlast as) (butlast bs) = ?P as bs"
    using assms n by (intro arg_cong [of _ _ concat] map_cong) (auto simp: pair_max_def pair_min_def nth_butlast)
  ultimately show ?thesis using n by simp
qed

lemma lower2_weaken:
  assumes "c' \<le> c" "lower2 c as bs I p"
  shows "lower2 c' as bs I p"
  using assms by (auto simp: lower2_def)

lemma merges_weaken:
  assumes "merges t c as bs s s' out" "length out \<le> c'" "c \<le> length as + length bs" "knowns s as" "knowns s bs"
  shows "merges t c' as bs s s' out"
proof (rule merges_step [OF _ assms(2,4,5)])
  show "computes (down t) (up t) s s' (upper2 as bs) (exact2 as bs) sum2 out"
    by (rule computes_cong [OF assms(1), where f = id])
      (use assms(4,5) upper2_agree exact2_agree in \<open>auto simp: exact2_def lower2_def\<close>)
qed

lemma merges_take:
  assumes "merges t c (take c as) bs s s' out" "length out \<le> c" "c \<le> length as" "knowns s as" "knowns s bs"
  shows "merges t c as bs s s' out" 
proof (rule merges_step [OF _ assms(2,4,5)])
  show "computes (down t) (up t) s s' (upper2 as bs) (exact2 as bs) sum2 out"
  proof (rule computes_cong [OF assms(1), where f = id])
    fix I :: interp and p :: "nat \<times> nat"
    show "upper2 as bs I p \<Longrightarrow> upper2 (take c as) bs I (id p)" by (auto simp: upper2_def upper_def)
    show "exact2 as bs I p \<Longrightarrow> lower2 c (take c as) bs I (id p)"
      using assms(3) by (auto simp: exact2_def lower2_def lower_def)
  qed (use assms(4,5) upper2_agree exact2_agree in auto)
qed

lemma ps_smerge_ok:
  assumes "wf_psort s" "knowns s as" "knowns s bs" "ps_smerge t c as bs s = (out, s')"
  shows "merges t c as bs s s' out \<and> length out = min (length as + length bs) c"
  using assms
proof (induction t c as bs s arbitrary: out s' rule: ps_smerge.induct)
  case (1 t c as bs s)
  let ?a = "length as" and ?b = "length bs"
  note wf = 1(5-7)
  consider (one) "?a = 1 \<and> ?b = 1 \<and> c = 1" | (no_a) "?a = 0" | (no_b) "?a \<noteq> 0" "?b = 0"
    | (cut_a) "?a \<noteq> 0" "?b \<noteq> 0" "c < ?a" "\<not> (?a = 1 \<and> ?b = 1 \<and> c = 1)"
    | (cut_b) "?a \<noteq> 0" "?b \<noteq> 0" "\<not> c < ?a" "c < ?b" "\<not> (?a = 1 \<and> ?b = 1 \<and> c = 1)"
    | (all) "?a \<noteq> 0" "?b \<noteq> 0" "\<not> c < ?a" "\<not> c < ?b" "?a + ?b \<le> c" "\<not> (?a = 1 \<and> ?b = 1 \<and> c = 1)"
    | (direct) "?a \<noteq> 0" "?b \<noteq> 0" "\<not> c < ?a" "\<not> c < ?b" "\<not> ?a + ?b \<le> c" "use_dsmerge t ?a ?b c" "\<not> (?a = 1 \<and> ?b = 1 \<and> c = 1)"
    | (rec) "?a \<noteq> 0" "?b \<noteq> 0" "\<not> c < ?a" "\<not> c < ?b" "\<not> ?a + ?b \<le> c" "\<not> use_dsmerge t ?a ?b c" "\<not> (?a = 1 \<and> ?b = 1 \<and> c = 1)"
    by blast
  then show ?case
  proof cases
    case one
    then obtain x y where xy: "as = [x]" "bs = [y]" by (auto simp: length_Suc_conv)
    let ?cs = "(if up t then [[ps_mk_not x, ps_mk_max x y], [ps_mk_not y, ps_mk_max x y]] else [])
      @ (if down t then [[ps_mk_not (ps_mk_max x y), x, y]] else [])"
    have out: "out = [ps_mk_max x y]" "s' = add_clauses ?cs s"
      using 1(8) xy one by (auto simp: ps_smerge.simps [of t "Suc 0" "[x]" "[y]" s] Let_def)
    show ?thesis
      unfolding out(2)
    proof (rule conjI, rule computes_gates)
      show "clauses_true I ?cs" for I by (auto simp: psort_simps)
      show "\<forall>c \<in> set ?cs. knowns s c" using wf xy by (auto split: if_splits)
    qed (use wf xy out one in \<open>auto simp: upper2_def lower2_def sum2_def upper_def lower_def less_Suc_eq psort_simps\<close>)
  next
    case no_a
    then show ?thesis
      using 1(8) merges_trivial(2) [of s bs t c] wf by (auto simp: ps_smerge.simps [of t c "[]" bs s] min.commute)
  next
    case no_b
    then have bs: "bs = []" by simp
    have "out = take c as" "s' = s" using 1(8) no_b(1) unfolding bs ps_smerge.simps [of t c as "[]" s] by simp_all
    then show ?thesis using merges_trivial(1) [OF wf(1,2), of t c] bs by simp
  next
    case cut_a
    then have "ps_smerge t c as bs s = ps_smerge t c (take c as) bs s"
      by (auto simp: ps_smerge.simps [of t c as bs s] Let_def simp del: length_0_conv length_greater_0_conv)
    then have "ps_smerge t c (take c as) bs s = (out, s')" using 1(8) by simp
    moreover have "knowns s (take c as)" using wf(2) by (auto dest: in_set_takeD)
    ultimately have ih: "merges t c (take c as) bs s s' out" "length out = min (length (take c as) + ?b) c"
      using 1(1) [OF refl refl _ _ _ _ wf(1) _ wf(3)] cut_a by blast+
    show ?thesis using merges_take [OF ih(1) _ _ wf(2,3)] ih(2) cut_a by simp
  next
    case cut_b
    then have "ps_smerge t c as bs s = ps_smerge t c as (take c bs) s"
      by (auto simp: ps_smerge.simps [of t c as bs s] Let_def simp del: length_0_conv length_greater_0_conv)
    then have "ps_smerge t c as (take c bs) s = (out, s')" using 1(8) by simp
    moreover have kb: "knowns s (take c bs)" using wf(3) by (auto dest: in_set_takeD)
    ultimately have ih: "merges t c as (take c bs) s s' out \<and> length out = min (?a + length (take c bs)) c"
      using 1(2) [OF refl refl _ _ _ _ _ wf(1,2)] cut_b by blast
    have "merges t c (take c bs) as s s' out" by (rule merges_swap [OF conjunct1 [OF ih] kb wf(2)])
    from merges_take [OF this _ _ wf(3,2)] have "merges t c bs as s s' out" using cut_b ih by simp
    then show ?thesis using merges_swap [OF _ wf(2,3)] ih cut_b by simp
  next
    case all
    then have "ps_smerge t c as bs s = ps_merge t as bs s"
      by (auto simp: ps_smerge.simps [of t c as bs s] Let_def simp del: length_0_conv length_greater_0_conv)
    then have run: "ps_merge t as bs s = (out, s')" using 1(8) by simp
    have m: "merges t (?a + ?b) as bs s s' out \<and> length out = ?a + ?b" by (rule ps_merge_ok [OF wf run])
    show ?thesis using merges_weaken [OF conjunct1 [OF m] _ _ wf(2,3), of c] m all by simp
  next
    case direct
    then have "ps_smerge t c as bs s = dsmerge t c as bs s"
      by (auto simp: ps_smerge.simps [of t c as bs s] Let_def simp del: length_0_conv length_greater_0_conv)
    then have "dsmerge t c as bs s = (out, s')" using 1(8) by simp
    from dsmerge_merges [OF wf _ _ _ this] show ?thesis using direct by simp
  next
    case rec
    define c1 where "c1 = (if even c then 1 + c div 2 else (c + 1) div 2)"
    define c2 where "c2 = (if even c then c div 2 else (c - 1) div 2)"
    have cc: "(c1, c2) = (if even c then (1 + c div 2, c div 2) else ((c + 1) div 2, (c - 1) div 2))"
      by (simp add: c1_def c2_def)
    obtain out1 s1 where r1: "ps_smerge t c1 (evens as) (evens bs) s = (out1, s1)" by (metis surj_pair)
    obtain out2 s2 where r2: "ps_smerge t c2 (odds as) (odds bs) s1 = (out2, s2)" by (metis surj_pair)
    note evens_known = knowns_halves(1) [OF wf(2)] knowns_halves(1) [OF wf(3)]
    note odds_known = knowns_halves(2) [OF wf(2)] knowns_halves(2) [OF wf(3)]
    have i1: "merges t c1 (evens as) (evens bs) s s1 out1" "length out1 = min (ceil2 ?a + ceil2 ?b) c1"
      using 1(3) [OF refl refl _ _ _ _ _ _ _ refl cc wf(1) evens_known r1] rec by (auto simp: length_evens)
    have s1: "wf_psort s1" "m_next_const s \<le> m_next_const s1" by (rule computesD [OF i1(1)])+
    have odds_known1: "knowns s1 (odds as)" "knowns s1 (odds bs)"
      using knowns_mono [OF _ s1(2)] odds_known by blast+
    have i2: "merges t c2 (odds as) (odds bs) s1 s2 out2" "length out2 = min (floor2 ?a + floor2 ?b) c2"
      using 1(4) [OF refl refl _ _ _ _ _ _ _ refl cc r1 [symmetric] refl s1(1) odds_known1 r2] rec
      by (auto simp: length_odds)
    have "c1 \<le> ceil2 ?a + ceil2 ?b" "c2 \<le> floor2 ?a + floor2 ?b"
      using rec cut_sizes [of c ?a ?b] unfolding c1_def c2_def by simp_all
    then have l1: "length out1 = c1" and l2: "length out2 = c2" using i1(2) i2(2) by simp_all
    have c_pos: "1 < c" using rec by auto
    have c12: "c1 = c2 + 1" "c1 + c2 = (if even c then c + 1 else c)" "0 < c2"
      using c_pos unfolding c1_def c2_def by (auto elim!: oddE evenE)
    have fit: "fit out1 out2" using l1 l2 c12 by (auto simp: fit_def)
    have known2: "knowns s2 out1" "knowns s2 out2"
      using knowns_mono [OF computesD(3) [OF i1(1)] computesD(2) [OF i2(1)]] computesD(3) [OF i2(1)] .
    have step: "merges t c as bs s (add_clauses cs s2) (take c (out_of t out1 out2))
        \<and> length (take c (out_of t out1 out2)) = min (?a + ?b) c"
      if cs: "\<And>I. clauses_true I cs" "\<forall>c \<in> set cs. knowns s2 c" for cs
    proof -
      have "computes (down t) (up t) s (add_clauses cs s2) (upper2 as bs) (exact2 as bs) sum2 (take c (out_of t out1 out2))"
        by (rule interleave_merges [OF i1(1) i2(1) wf(2,3) fit _ _ cs refl]) (use l1 l2 c12 in simp_all)
      moreover have "length (take c (out_of t out1 out2)) = c"
        using length_out_of [OF fit, of t] l1 l2 c12 by (simp split: if_splits)
      ultimately show ?thesis using merges_step [OF _ _ wf(2,3)] rec by simp
    qed
    show ?thesis
    proof (cases "even c")
      case False
      have "ps_smerge t c as bs s = interleave t out1 out2 s2"
        using rec r1 r2 cc False
        by (auto simp: ps_smerge.simps [of t c as bs s] Let_def simp del: length_0_conv length_greater_0_conv)
      then have "interleave t out1 out2 s2 = (out, s')" using 1(8) by simp
      then have "s' = add_clauses (interleave_clauses t out1 out2) s2" "out = take c (out_of t out1 out2)"
        using interleave_fst [of t out1 out2 s2] interleave_snd [of t out1 out2 s2] length_out_of [OF fit, of t] l1 l2 c12 False
        by simp_all
      moreover have "\<forall>c \<in> set (interleave_clauses t out1 out2). knowns s2 c"
        using interleave_clauses_known known2 by blast
      ultimately show ?thesis using step [OF interleave_clauses_true] by blast
    next
      case True
      define y where "y = ps_mk_max (last out1) (last out2)"
      define cs where "cs = (if up t then [[ps_mk_not (last out1), y], [ps_mk_not (last out2), y]] else [])
          @ (if down t then [[ps_mk_not y, last out1, last out2]] else [])"
      let ?o1 = "butlast out1" and ?o2 = "butlast out2"
      obtain o' s3 where o': "interleave t ?o1 ?o2 (add_clauses cs s2) = (o', s3)" by (metis surj_pair)
      have "ps_smerge t c as bs s = (o' @ [y], s3)"
        using rec r1 r2 cc True o'
        by (auto simp: ps_smerge.simps [of t c as bs s] Let_def y_def cs_def simp del: length_0_conv length_greater_0_conv)
      then have "(out, s') = (o' @ [y], s3)" using 1(8) by simp
      then have out: "out = out_of t ?o1 ?o2 @ [y]" and s': "s' = add_clauses (cs @ interleave_clauses t ?o1 ?o2) s2"
        using interleave_fst [of t ?o1 ?o2 "add_clauses cs s2"] interleave_snd [of t ?o1 ?o2 "add_clauses cs s2"] o'
        by (simp_all add: add_clauses_append)
      have ne: "out1 \<noteq> []" "out2 \<noteq> []" using l1 l2 c12 by auto
      have "c = 2 * c2" using True by (simp add: c2_def)
      then have "out_of t ?o1 ?o2 @ [y] = take c (out_of t out1 out2)"
        using out_of_butlast [of out1 c2 out2 t] l1 l2 c12 True last_conv_nth [OF ne(1)] last_conv_nth [OF ne(2)]
        by (simp add: y_def pair_max_def)
      moreover have "clauses_true I (cs @ interleave_clauses t ?o1 ?o2)" for I
        using interleave_clauses_true by (auto simp: cs_def y_def psort_simps)
      moreover have "\<forall>c \<in> set (cs @ interleave_clauses t ?o1 ?o2). knowns s2 c"
      proof -
        have "knowns s2 ?o1" "knowns s2 ?o2" using known2 by (auto dest: in_set_butlastD)
        then have "\<forall>c \<in> set (interleave_clauses t ?o1 ?o2). knowns s2 c"
          using interleave_clauses_known by blast
        moreover have "known (m_next_const s2) (last out1)" "known (m_next_const s2) (last out2)"
          using known2 ne by simp_all
        ultimately show ?thesis by (auto simp: cs_def y_def split: if_splits)
      qed
      ultimately show ?thesis using step out s' by metis
    qed
  qed
qed

end
