(* ===== verification/Psort_Sort.thy ===== *)
theory Psort_Sort
  imports Psort_Correct
begin

text \<open>
  Cardinality constraints, fourth part: sorting networks and their truncation \<open>card\<close>. The outputs
  stand for the number of true literals, in the direction that the mode promises.
\<close>

subsection \<open>The number of true literals\<close>

definition count_true :: "interp \<Rightarrow> expr list \<Rightarrow> nat" where
  "count_true I xs = length (filter (holds I) xs)"

lemma count_true_simps [simp]:
  "count_true I [] = 0" "count_true I (x # xs) = (if holds I x then Suc (count_true I xs) else count_true I xs)"
  "count_true I (xs @ ys) = count_true I xs + count_true I ys"
  by (simp_all add: count_true_def)

lemma count_true_le: "count_true I xs \<le> length xs"
  by (simp add: count_true_def)

lemma count_true_agree: "agree n I J \<Longrightarrow> (\<forall>x \<in> set xs. known n x) \<Longrightarrow> count_true I xs = count_true J xs"
  by (induction xs) (auto simp: holds_agree)

lemma count_true_card: "count_true I xs = card {i. i < length xs \<and> holds I (xs ! i)}"
  by (simp add: count_true_def length_filter_conv_card)

lemma count_false_card: "length xs - count_true I xs = card {i. i < length xs \<and> \<not> holds I (xs ! i)}"
proof -
  have "length xs = count_true I xs + length (filter (\<lambda>x. \<not> holds I x) xs)"
    by (simp add: count_true_def sum_length_filter_compl)
  then show ?thesis by (simp add: length_filter_conv_card)
qed

subsection \<open>Direct sorting\<close>

definition remaining :: "(nat \<Rightarrow> bool) \<Rightarrow> nat \<Rightarrow> nat \<Rightarrow> nat" where
  "remaining bad n off = card {i. off \<le> i \<and> i < n \<and> bad i}"

lemma remaining_step:
  "i < n \<Longrightarrow> remaining bad n i = (if bad i then Suc (remaining bad n (Suc i)) else remaining bad n (Suc i))"
proof -
  assume i: "i < n"
  have "{j. i \<le> j \<and> j < n \<and> bad j} = (if bad i then insert i else id) {j. Suc i \<le> j \<and> j < n \<and> bad j}"
    using i by (auto simp: le_less_Suc_eq less_eq_Suc_le [symmetric] order_le_less)
  then show ?thesis by (simp add: remaining_def)
qed

lemma remaining_end: "n \<le> i \<Longrightarrow> remaining bad n i = 0"
  by (simp add: remaining_def)

lemma remaining_le: "remaining bad n i \<le> n - i"
proof -
  have "remaining bad n i \<le> card {i..<n}" unfolding remaining_def by (intro card_mono) auto
  then show ?thesis by simp
qed

lemma remaining_antimono: "i \<le> j \<Longrightarrow> remaining bad n j \<le> remaining bad n i"
  unfolding remaining_def by (intro card_mono) auto

text \<open>The first remaining bad position.\<close>

lemma remaining_first:
  assumes "remaining bad n i = Suc m"
  obtains j where "i \<le> j" "j < n" "bad j" "remaining bad n (Suc j) = m"
  using assms
proof (induction "n - i" arbitrary: i thesis)
  case 0
  then show ?case by (simp add: remaining_end)
next
  case (Suc d)
  then have i: "i < n" by simp
  show ?case
  proof (cases "bad i")
    case True
    then show ?thesis using Suc.prems remaining_step [OF i, of bad] i by auto
  next
    case False
    then have "remaining bad n (Suc i) = Suc m" using Suc.prems(2) remaining_step [OF i, of bad] by simp
    moreover have "d = n - Suc i" using Suc.hyps(2) by simp
    ultimately obtain j where "Suc i \<le> j" "j < n" "bad j" "remaining bad n (Suc j) = m"
      by (rule Suc.hyps(1) [rotated 2])
    then show ?thesis using Suc.prems(1) [of j] by simp
  qed
qed

lemma remaining_less_iff:
  assumes "Suc k + off \<le> n"
  shows "remaining bad n off < Suc k \<longleftrightarrow>
    (\<forall>i \<in> {off..<n - Suc k + 1}. bad i \<longrightarrow> remaining bad n (Suc i) < k)"
proof
  assume lt: "remaining bad n off < Suc k"
  show "\<forall>i \<in> {off..<n - Suc k + 1}. bad i \<longrightarrow> remaining bad n (Suc i) < k"
  proof (intro ballI impI)
    fix i
    assume i: "i \<in> {off..<n - Suc k + 1}" "bad i"
    then have "i < n" using assms by auto
    from remaining_step [OF this, of bad] show "remaining bad n (Suc i) < k"
      using remaining_antimono [of off i bad n] i lt by simp
  qed
next
  assume h: "\<forall>i \<in> {off..<n - Suc k + 1}. bad i \<longrightarrow> remaining bad n (Suc i) < k"
  show "remaining bad n off < Suc k"
  proof (rule ccontr)
    assume "\<not> remaining bad n off < Suc k"
    then obtain m where m: "remaining bad n off = Suc m" "k \<le> m" by (cases "remaining bad n off") auto
    obtain j where j: "off \<le> j" "j < n" "bad j" "remaining bad n (Suc j) = m"
      by (rule remaining_first [OF m(1)])
    then have "m \<le> n - Suc j" using remaining_le [of bad n "Suc j"] by simp
    then have "j \<in> {off..<n - Suc k + 1}" using j m(2) by auto
    then show False using h j m(2) by auto
  qed
qed

lemma add_subset_true:
  "k + off \<le> length xs \<Longrightarrow> clauses_true I (add_subset pol k off lits xs) \<longleftrightarrow>
    clause_true I lits \<or> remaining (\<lambda>i. holds I (xs ! i) = pol) (length xs) off < k"
proof (induction pol k off lits xs rule: add_subset.induct)
  case (2 pol k off lits xs)
  let ?bad = "\<lambda>i. holds I (xs ! i) = pol"
  have IH: "clauses_true I (add_subset pol k (i + 1) (lits @ [if pol then ps_mk_not (xs ! i) else xs ! i]) xs) \<longleftrightarrow>
      clause_true I lits \<or> \<not> ?bad i \<or> remaining ?bad (length xs) (Suc i) < k"
    if "i \<in> {off..<length xs - Suc k + 1}" for i
  proof -
    have "k + (i + 1) \<le> length xs" "i \<in> set [off..<length xs - Suc k + 1]" using 2(2) that by auto
    from 2(1) [OF this(2,1)] show ?thesis by (auto simp: psort_simps)
  qed
  have "clauses_true I (add_subset pol (Suc k) off lits xs) \<longleftrightarrow>
      (\<forall>i \<in> {off..<length xs - Suc k + 1}. clause_true I lits \<or> \<not> ?bad i \<or> remaining ?bad (length xs) (Suc i) < k)"
    unfolding add_subset.simps clauses_true_simps set_upt by (intro ball_cong refl IH)
  then show ?case
    using remaining_less_iff [of k off "length xs" ?bad] 2(2) by auto
qed simp

lemma add_subset_known:
  "k + off \<le> length xs \<Longrightarrow> \<forall>l \<in> set lits. known n l \<Longrightarrow> \<forall>x \<in> set xs. known n x
    \<Longrightarrow> \<forall>c \<in> set (add_subset pol k off lits xs). \<forall>l \<in> set c. known n l"
proof (induction pol k off lits xs rule: add_subset.induct)
  case (2 pol k off lits xs)
  have "\<forall>c \<in> set (add_subset pol k (i + 1) (lits @ [if pol then ps_mk_not (xs ! i) else xs ! i]) xs).
      \<forall>l \<in> set c. known n l" if "i \<in> {off..<length xs - Suc k + 1}" for i
    using that 2(2-4) by (intro 2(1)) auto
  then show ?case unfolding add_subset.simps set_concat set_map set_upt by blast
qed simp

lemma ball_Suc: "(\<forall>k \<in> {1..<m + 1}. Q k) \<longleftrightarrow> (\<forall>k < m. Q (Suc k))"
proof -
  have "{1..<m + 1} = Suc ` {..<m}" by (simp add: image_Suc_lessThan atLeastLessThanSuc_atLeastAtMost)
  then show ?thesis by auto
qed

abbreviation sorts :: "cmp_t \<Rightarrow> expr list \<Rightarrow> psort \<Rightarrow> psort \<Rightarrow> expr list \<Rightarrow> bool" where
  "sorts t xs s s' out \<equiv>
    computes (down t) (up t) s s' (\<lambda>I p. p = count_true I xs) (\<lambda>I p. p = count_true I xs) (\<lambda>p. p) out"

lemma dsorting_sorts:
  assumes wf: "wf_psort s" "knowns s xs" and m: "m \<le> length xs" and run: "dsorting t m xs s = (out, s')"
  shows "sorts t xs s s' out \<and> length out = m"
proof -
  let ?s = "s\<lparr>m_next_const := m_next_const s + m\<rparr>" and ?n = "length xs"
  define cs where "cs out = concat (map (\<lambda>k. add_subset True k 0 [out ! (k - 1)] xs) [1..<m + 1])" for out
  define ds where "ds out = concat (map (\<lambda>k. add_subset False (?n - k + 1) 0 [ps_mk_not (out ! (k - 1))] xs) [1..<m + 1])" for out
  define o' where "o' = map const [m_next_const s..<m_next_const s + m]"
  have out: "out = o'" and s': "s' = add_clauses ((if up t then cs o' else []) @ (if down t then ds o' else [])) ?s"
    using run by (auto simp: dsorting_def freshes_eq Let_def add_clauses_append cs_def ds_def o'_def)
  have len: "length o' = m" by (simp add: o'_def)
  have cs: "clauses_true I (cs o') \<longleftrightarrow> (\<forall>k < m. holds I (o' ! k) \<or> count_true I xs < Suc k)" for I
  proof -
    have "clauses_true I (cs o') \<longleftrightarrow> (\<forall>k \<in> {1..<m + 1}. holds I (o' ! (k - 1)) \<or> count_true I xs < k)"
      unfolding cs_def clauses_true_simps set_upt using m
      by (intro ball_cong refl) (simp add: add_subset_true remaining_def count_true_card)
    then show ?thesis unfolding ball_Suc by simp
  qed
  have ds: "clauses_true I (ds o') \<longleftrightarrow> (\<forall>k < m. \<not> holds I (o' ! k) \<or> k < count_true I xs)" for I
  proof -
    have "clauses_true I (ds o') \<longleftrightarrow> (\<forall>k \<in> {1..<m + 1}. \<not> holds I (o' ! (k - 1)) \<or> ?n - count_true I xs < ?n - k + 1)"
      unfolding ds_def clauses_true_simps set_upt using m
      by (intro ball_cong refl) (subst add_subset_true, auto simp: remaining_def count_false_card psort_simps)
    also have "\<dots> \<longleftrightarrow> (\<forall>k \<in> {1..<m + 1}. \<not> holds I (o' ! (k - 1)) \<or> k \<le> count_true I xs)"
      using m count_true_le [of I xs] by (intro ball_cong refl) auto
    finally show ?thesis unfolding ball_Suc by (simp add: less_eq_Suc_le)
  qed
  have ks: "\<forall>x \<in> set xs. known (m_next_const ?s) x" using wf(2) by (auto intro: known_mono)
  have ko: "known (m_next_const ?s) (o' ! (k - 1))" if "k \<in> {1..<m + 1}" for k using that by (auto simp: o'_def)
  have known: "\<forall>cl \<in> set (cs o' @ ds o'). knowns ?s cl"
  proof
    fix cl
    assume "cl \<in> set (cs o' @ ds o')"
    then obtain k where k: "k \<in> {1..<m + 1}"
      and "cl \<in> set (add_subset True k 0 [o' ! (k - 1)] xs) \<or> cl \<in> set (add_subset False (?n - k + 1) 0 [ps_mk_not (o' ! (k - 1))] xs)"
      unfolding cs_def ds_def set_append set_concat set_map set_upt by blast
    moreover have "k + 0 \<le> ?n" "?n - k + 1 + 0 \<le> ?n" using k m by auto
    moreover have "\<forall>l \<in> set [o' ! (k - 1)]. known (m_next_const ?s) l"
      "\<forall>l \<in> set [ps_mk_not (o' ! (k - 1))]. known (m_next_const ?s) l" using ko [OF k] by simp_all
    ultimately show "knowns ?s cl" using add_subset_known [OF _ _ ks] by metis
  qed
  show ?thesis
    unfolding out s'
  proof (rule conjI)
    show "sorts t xs s (add_clauses ((if up t then cs o' else []) @ (if down t then ds o' else [])) ?s) o'"
      unfolding o'_def
    proof (rule computes_fresh, unfold o'_def [symmetric])
      show "\<forall>cl \<in> set (cs o' @ ds o'). knowns ?s cl" by (rule known)
      fix I J :: interp and p :: nat
      show "agree (m_next_const s) I J \<Longrightarrow> p = count_true I xs \<Longrightarrow> p = count_true J xs"
        using count_true_agree wf(2) by blast
      show "clauses_true I (ds o') \<Longrightarrow> p = count_true I xs \<Longrightarrow> upper I o' p" using ds by (auto simp: upper_def len)
      show "clauses_true I (cs o') \<Longrightarrow> p = count_true I xs \<Longrightarrow> lower I o' p" using cs by (auto simp: lower_def len)
      show "p = count_true I xs \<Longrightarrow> \<forall>k<m. holds I (o' ! k) = (k < p) \<Longrightarrow> clauses_true I (cs o') \<and> clauses_true I (ds o')"
        using cs ds by auto
    qed (use wf count_true_agree in auto)
  qed (rule len)
qed

subsection \<open>Sorting networks\<close>

text \<open>Two sorted halves, merged. The outputs of a half are all of its literals or enough of them.\<close>

lemma sorts_merge:
  assumes c1: "sorts t as s s1 out1" and c2: "sorts t bs s1 s2 out2" and c3: "merges t c out1 out2 s2 s3 out"
    and ab: "knowns s as" "knowns s bs"
    and len: "length as \<le> length out1 \<or> c \<le> length out1" "length bs \<le> length out2 \<or> c \<le> length out2"
  shows "sorts t (as @ bs) s s3 out"
proof -
  have g2: "\<forall>I J p. agree (m_next_const s) I J \<longrightarrow> p = count_true I bs \<longrightarrow> p = count_true J bs"
    using count_true_agree ab(2) by blast
  note seq = computes_seq [OF c1 c2 g2 g2, simplified]
  note d3 = computesD [OF c3]
  have fit: "count_true I as \<le> length out1 \<or> c \<le> length out1" "count_true I bs \<le> length out2 \<or> c \<le> length out2" for I
    using len count_true_le [of I as] count_true_le [of I bs] by linarith+
  let ?p = "\<lambda>I. (count_true I as, count_true I bs)"
  show ?thesis
    unfolding computes_def
  proof (intro conjI allI impI)
    show "wf_psort s3" "knowns s3 out" by (rule d3)+
    show "m_next_const s \<le> m_next_const s3" using seq(2) d3(2) by simp
    show "sat I s3 \<Longrightarrow> sat I s" for I using seq(5) d3(4) by blast
    fix I and p :: nat
    assume p: "p = count_true I (as @ bs)"
    show "upper I out p" if "down t" "sat I s3"
      using d3(5) [OF that, of "?p I"] seq(6) [OF that(1) d3(4) [OF that(2)]] p by (simp add: upper2_def sum2_def)
    show "lower I out p" if "up t" "sat I s3"
      using d3(6) [OF that, of "?p I"] seq(7) [OF that(1) d3(4) [OF that(2)]] p fit [of I] by (simp add: lower2_def sum2_def)
    assume I: "sat I s"
    obtain J where J: "agree (m_next_const s) I J" "sat J s2" "upper J out1 (count_true I as)" "lower J out1 (count_true I as)"
      "upper J out2 (count_true I bs)" "lower J out2 (count_true I bs)"
      using seq(8) [OF I] by blast
    have "upper2 out1 out2 J (?p I)" "lower2 c out1 out2 J (?p I)" using J(3-6) fit [of I] by (simp_all add: upper2_def lower2_def)
    from computes_extend [OF c3 J(2) this] obtain K
      where K: "agree (m_next_const s2) J K" "sat K s3" "upper K out (sum2 (?p I))" "lower K out (sum2 (?p I))" .
    then show "\<exists>J. agree (m_next_const s) I J \<and> sat J s3 \<and> upper J out p \<and> lower J out p"
      using agree_trans [OF J(1) K(1) seq(2)] p by (auto simp: sum2_def)
  qed
qed

lemma sorts_single:
  assumes "wf_psort s" "knowns s xs" "length xs \<le> 1"
  shows "sorts t xs s s xs"
proof -
  have "sorts t xs s (add_clauses [] s) xs"
    by (rule computes_gates)
      (use assms in \<open>auto simp: upper_def lower_def le_Suc_eq length_Suc_conv split: if_splits\<close>)
  then show ?thesis by (simp add: add_clauses_def)
qed

lemma ps_sorting_ok:
  assumes "wf_psort s" "knowns s xs" "ps_sorting t xs s = (out, s')"
  shows "sorts t xs s s' out \<and> length out = length xs"
  using assms
proof (induction t xs s arbitrary: out s' rule: ps_sorting.induct)
  case (1 t xs s)
  let ?n = "length xs" and ?as = "take (length xs div 2) xs" and ?bs = "drop (length xs div 2) xs"
  note wf = 1(3,4)
  consider (small) "?n \<le> 1" | (two) "?n = 2" | (direct) "2 < ?n" "use_dsorting t ?n" | (rec) "2 < ?n" "\<not> use_dsorting t ?n"
    by linarith
  then show ?case
  proof cases
    case small
    then have "ps_sorting t xs s = (xs, s)"
      by (cases xs) (simp_all add: ps_sorting.simps [of t "[]" s] ps_sorting.simps [of t "[a]" s for a] Let_def)
    then show ?thesis using sorts_single [OF wf small] 1(5) by simp
  next
    case two
    then obtain x y where xs: "xs = [x, y]" by (auto simp: numeral_2_eq_2 length_Suc_conv)
    then have "ps_merge t [x] [y] s = (out, s')" using 1(5) by (simp add: ps_sorting.simps [of t "[x, y]" s] Let_def)
    from ps_merge_ok [OF wf(1) _ _ this] have m: "merges t (Suc (Suc 0)) [x] [y] s s' out" "length out = 2"
      using wf(2) xs by simp_all
    have "sorts t ([x] @ [y]) s s' out"
      by (rule sorts_merge [OF sorts_single sorts_single m(1)]) (use wf xs in auto)
    then show ?thesis using m(2) xs by simp
  next
    case direct
    then have "dsorting t ?n xs s = (out, s')" using 1(5) by (simp add: ps_sorting.simps [of t xs s] Let_def del: length_0_conv length_greater_0_conv)
    then show ?thesis using dsorting_sorts [OF wf order_refl] by blast
  next
    case rec
    obtain out1 s1 where r1: "ps_sorting t ?as s = (out1, s1)" by (metis surj_pair)
    obtain out2 s2 where r2: "ps_sorting t ?bs s1 = (out2, s2)" by (metis surj_pair)
    have run: "ps_merge t out1 out2 s2 = (out, s')"
      using 1(5) rec r1 r2 by (simp add: ps_sorting.simps [of t xs s] Let_def del: length_0_conv length_greater_0_conv)
    have ab: "knowns s ?as" "knowns s ?bs" using wf(2) by (auto dest: in_set_takeD in_set_dropD)
    have n: "?n \<noteq> 0" "?n \<noteq> 1" "?n \<noteq> 2" using rec by auto
    have i1: "sorts t ?as s s1 out1 \<and> length out1 = length ?as"
      using 1(1) [OF refl n rec(2) refl wf(1) ab(1) r1] rec by simp
    have s1: "wf_psort s1" "m_next_const s \<le> m_next_const s1" "knowns s1 out1" by (rule computesD [OF conjunct1 [OF i1]])+
    have b1: "knowns s1 ?bs" by (rule knowns_mono [OF ab(2) s1(2)])
    have i2: "sorts t ?bs s1 s2 out2 \<and> length out2 = length ?bs"
      using 1(2) [OF refl n rec(2) refl r1 [symmetric] refl s1(1) b1 r2] by simp
    have s2: "wf_psort s2" "m_next_const s1 \<le> m_next_const s2" "knowns s2 out2" by (rule computesD [OF conjunct1 [OF i2]])+
    have o1: "knowns s2 out1" by (rule knowns_mono [OF s1(3) s2(2)])
    have m: "merges t (length out1 + length out2) out1 out2 s2 s' out \<and> length out = length out1 + length out2"
      by (rule ps_merge_ok [OF s2(1) o1 s2(3) run])
    have "sorts t (?as @ ?bs) s s' out"
      by (rule sorts_merge [OF conjunct1 [OF i1] conjunct1 [OF i2] conjunct1 [OF m] ab]) (use i1 i2 in simp_all)
    then show ?thesis using m i1 i2 by simp
  qed
qed

lemma ps_card_ok:
  assumes "wf_psort s" "knowns s xs" "ps_card t k xs s = (out, s')" "0 < k"
  shows "sorts t xs s s' out \<and> length out = min k (length xs)"
  using assms
proof (induction t k xs s arbitrary: out s' rule: ps_card.induct)
  case (1 t k xs s)
  let ?n = "length xs" and ?as = "take (length xs div 2) xs" and ?bs = "drop (length xs div 2) xs"
  note wf = 1(3,4)
  consider (all) "?n \<le> k" | (direct) "k < ?n" "use_dcard t k ?n" | (rec) "k < ?n" "\<not> use_dcard t k ?n"
    by linarith
  then show ?case
  proof cases
    case all
    then have "ps_sorting t xs s = (out, s')" using 1(5) by (simp add: ps_card.simps [of t k xs s] Let_def del: length_0_conv length_greater_0_conv)
    then show ?thesis using ps_sorting_ok [OF wf] all by simp
  next
    case direct
    then have "dsorting t k xs s = (out, s')" using 1(5,6) by (simp add: ps_card.simps [of t k xs s] Let_def del: length_0_conv length_greater_0_conv)
    then show ?thesis using dsorting_sorts [OF wf, of k] direct by simp
  next
    case rec
    obtain out1 s1 where r1: "ps_card t k ?as s = (out1, s1)" by (metis surj_pair)
    obtain out2 s2 where r2: "ps_card t k ?bs s1 = (out2, s2)" by (metis surj_pair)
    have run: "ps_smerge t k out1 out2 s2 = (out, s')"
      using 1(5,6) rec r1 r2 by (simp add: ps_card.simps [of t k xs s] Let_def del: length_0_conv length_greater_0_conv)
    have ab: "knowns s ?as" "knowns s ?bs" using wf(2) by (auto dest: in_set_takeD in_set_dropD)
    have n: "\<not> (?n \<le> k \<or> k = 0)" using rec 1(6) by simp
    have i1: "sorts t ?as s s1 out1 \<and> length out1 = min k (length ?as)"
      using 1(1) [OF refl n rec(2) refl wf(1) ab(1) r1 1(6)] by simp
    have s1: "wf_psort s1" "m_next_const s \<le> m_next_const s1" "knowns s1 out1" by (rule computesD [OF conjunct1 [OF i1]])+
    have b1: "knowns s1 ?bs" by (rule knowns_mono [OF ab(2) s1(2)])
    have i2: "sorts t ?bs s1 s2 out2 \<and> length out2 = min k (length ?bs)"
      using 1(2) [OF refl n rec(2) refl r1 [symmetric] refl s1(1) b1 r2 1(6)] by simp
    have s2: "wf_psort s2" "m_next_const s1 \<le> m_next_const s2" "knowns s2 out2" by (rule computesD [OF conjunct1 [OF i2]])+
    have o1: "knowns s2 out1" by (rule knowns_mono [OF s1(3) s2(2)])
    have m: "merges t k out1 out2 s2 s' out \<and> length out = min (length out1 + length out2) k"
      by (rule ps_smerge_ok [OF s2(1) o1 s2(3) run])
    have "sorts t (?as @ ?bs) s s' out"
      by (rule sorts_merge [OF conjunct1 [OF i1] conjunct1 [OF i2] conjunct1 [OF m] ab]) (use i1 i2 in auto)
    moreover have "length out = k" using m i1 i2 rec by simp
    ultimately show ?thesis using rec by simp
  qed
qed

end
