(* ===== verification/Psort_Gates.thy ===== *)
theory Psort_Gates
  imports Psort_Sort
begin

text \<open>
  Cardinality constraints, fifth part: what it means that a literal stands for a constraint, and the
  encodings of \<open>psort_nw\<close> that are gates only: unary addition (\<open>unate_cmp\<close>) and binary addition
  (\<open>circuit_cmp\<close>).
\<close>

subsection \<open>A literal for a property\<close>

text \<open>
  Between \<open>s\<close> and \<open>s'\<close> lemmas were added such that \<open>r\<close> implies \<open>P\<close>, and with \<open>full\<close> is equivalent to
  it; every interpretation of the old symbols extends to one in which \<open>r\<close> is equivalent to \<open>P\<close>, so the
  lemmas exclude nothing.
\<close>

definition reifies :: "bool \<Rightarrow> psort \<Rightarrow> psort \<Rightarrow> expr \<Rightarrow> (interp \<Rightarrow> bool) \<Rightarrow> bool" where
  "reifies full s s' r P \<longleftrightarrow>
    wf_psort s' \<and> m_next_const s \<le> m_next_const s' \<and> known (m_next_const s') r
    \<and> (\<forall>I. sat I s' \<longrightarrow> sat I s)
    \<and> (\<forall>I. sat I s' \<longrightarrow> holds I r \<longrightarrow> P I)
    \<and> (\<forall>I. full \<longrightarrow> sat I s' \<longrightarrow> P I \<longrightarrow> holds I r)
    \<and> (\<forall>I. sat I s \<longrightarrow> (\<exists>J. agree (m_next_const s) I J \<and> sat J s' \<and> holds J r = P I))"

lemma reifiesD:
  assumes "reifies full s s' r P"
  shows "wf_psort s'" "m_next_const s \<le> m_next_const s'" "known (m_next_const s') r" "sat I s' \<Longrightarrow> sat I s"
    "sat I s' \<Longrightarrow> holds I r \<Longrightarrow> P I" "full \<Longrightarrow> sat I s' \<Longrightarrow> P I \<Longrightarrow> holds I r"
    "sat I s \<Longrightarrow> \<exists>J. agree (m_next_const s) I J \<and> sat J s' \<and> holds J r = P I"
  using assms unfolding reifies_def by blast+

lemma reifies_cong: "reifies full s s' r P \<Longrightarrow> (\<And>I. P I = Q I) \<Longrightarrow> reifies full s s' r Q"
  unfolding reifies_def by simp

lemma reifies_gate:
  assumes "wf_psort s" "known (m_next_const s) r" "\<And>I. holds I r = P I"
  shows "reifies full s s r P"
  unfolding reifies_def using assms agree_refl by blast

subsection \<open>Unary addition\<close>

definition unate_carry :: "expr \<Rightarrow> expr list \<Rightarrow> expr list" where
  "unate_carry x carry =
    fold (\<lambda>j carry.
        let c0 = if 0 < j then carry ! (j - 1) else TrueE
        in carry[j := ps_mk_or [ps_mk_and [x, c0], carry ! j]])
      (rev [0..<length carry]) carry"

text \<open>\<open>carry[k-1]\<close> with \<open>k = 0\<close> is outside of the vector: no result.\<close>

definition unate_cmp :: "cmp_t \<Rightarrow> nat \<Rightarrow> expr list \<Rightarrow> expr option" where
  "unate_cmp cmp k xs =
    (let last = (if cmp = LE \<or> cmp = EQ \<or> cmp = LE_FULL then k + 1 else k);
         carry = fold unate_carry xs (replicate last FalseE)
     in case cmp of
          LE \<Rightarrow> Some (ps_mk_not (carry ! k))
        | LE_FULL \<Rightarrow> Some (ps_mk_not (carry ! k))
        | GE \<Rightarrow> (if k = 0 then None else Some (carry ! (k - 1)))
        | GE_FULL \<Rightarrow> (if k = 0 then None else Some (carry ! (k - 1)))
        | EQ \<Rightarrow> (if k = 0 then None else Some (ps_mk_and [ps_mk_not (carry ! k), carry ! (k - 1)])))"

definition unate_ge :: "bool \<Rightarrow> nat \<Rightarrow> expr list \<Rightarrow> expr option" where
  "unate_ge full k xs = unate_cmp (if full then GE_FULL else GE) k xs"

definition unate_le :: "bool \<Rightarrow> nat \<Rightarrow> expr list \<Rightarrow> expr option" where
  "unate_le full k xs = unate_cmp (if full then LE_FULL else LE) k xs"

definition unate_eq :: "nat \<Rightarrow> expr list \<Rightarrow> expr option" where
  "unate_eq k xs = unate_cmp EQ k xs"

lemma unate_carry_loop:
  fixes x :: expr
  defines "f \<equiv> \<lambda>j carry. let c0 = if 0 < j then carry ! (j - 1) else TrueE
        in carry[j := ps_mk_or [ps_mk_and [x, c0], carry ! j]]"
  assumes "m \<le> length c"
  shows "length (fold f (rev [m..<length c]) c) = length c
    \<and> (\<forall>j < length c. fold f (rev [m..<length c]) c ! j =
        (if j < m then c ! j else ps_mk_or [ps_mk_and [x, if 0 < j then c ! (j - 1) else TrueE], c ! j]))"
  using assms(2)
proof (induction m rule: inc_induct)
  case (step m)
  let ?c = "fold f (rev [Suc m..<length c]) c"
  have e: "fold f (rev [m..<length c]) c = f m ?c" using step(2) by (simp add: upt_conv_Cons)
  have len: "length ?c = length c"
    and at: "\<And>j. j < length c \<Longrightarrow> ?c ! j = (if j < Suc m then c ! j else ps_mk_or [ps_mk_and [x, if 0 < j then c ! (j - 1) else TrueE], c ! j])"
    using step(3) by blast+
  have "f m ?c = ?c[m := ps_mk_or [ps_mk_and [x, if 0 < m then c ! (m - 1) else TrueE], c ! m]]"
  proof -
    have "?c ! m = c ! m" "0 < m \<longrightarrow> ?c ! (m - 1) = c ! (m - 1)" using at step(2) by auto
    then show ?thesis unfolding f_def Let_def by simp
  qed
  then show ?case unfolding e using len at by (auto simp: nth_list_update)
qed simp

lemma length_unate_carry [simp]: "length (unate_carry x c) = length c"
  using unate_carry_loop [of 0 c x] by (simp add: unate_carry_def Let_def)

lemma unate_carry_nth:
  "j < length c \<Longrightarrow> unate_carry x c ! j = ps_mk_or [ps_mk_and [x, if 0 < j then c ! (j - 1) else TrueE], c ! j]"
  using unate_carry_loop [of 0 c x] by (simp add: unate_carry_def Let_def)

lemma unate_fold:
  "(\<forall>j < length c. holds I (c ! j) = (j < N)) \<Longrightarrow>
    length (fold unate_carry xs c) = length c
    \<and> (\<forall>j < length c. holds I (fold unate_carry xs c ! j) = (j < N + count_true I xs))"
proof (induction xs arbitrary: c N)
  case (Cons x xs)
  let ?c = "unate_carry x c" and ?N = "N + (if holds I x then 1 else 0)"
  have "\<forall>j < length ?c. holds I (?c ! j) = (j < ?N)"
    using Cons.prems by (auto simp: unate_carry_nth psort_simps)
  from Cons.IH [OF this] show ?case by simp
qed simp

lemma unate_known:
  "(\<forall>l \<in> set c. known n l) \<Longrightarrow> (\<forall>x \<in> set xs. known n x) \<Longrightarrow> \<forall>l \<in> set (fold unate_carry xs c). known n l"
proof (induction xs arbitrary: c)
  case (Cons x xs)
  have "\<forall>l \<in> set (unate_carry x c). known n l"
  proof
    fix l
    assume "l \<in> set (unate_carry x c)"
    then obtain j where j: "j < length c" "l = unate_carry x c ! j" by (metis in_set_conv_nth length_unate_carry)
    have "known n (c ! j)" "known n (if 0 < j then c ! (j - 1) else TrueE)" using Cons.prems(1) j(1) by auto
    moreover from this have "known n (ps_mk_and [x, if 0 < j then c ! (j - 1) else TrueE])"
      using Cons.prems(2) by (intro known_mk_and) simp
    ultimately have "known n (ps_mk_or [ps_mk_and [x, if 0 < j then c ! (j - 1) else TrueE], c ! j])"
      by (intro known_mk_or) simp
    then show "known n l" using j by (simp add: unate_carry_nth)
  qed
  from Cons.IH [OF this] show ?case using Cons.prems(2) by simp
qed simp

definition cmp_count :: "cmp_t \<Rightarrow> nat \<Rightarrow> nat \<Rightarrow> bool" where
  "cmp_count cmp k N = (if cmp = EQ then N = k else if cmp = LE \<or> cmp = LE_FULL then N \<le> k else k \<le> N)"

lemma unate_cmp_gate:
  assumes "cmp = LE \<or> cmp = LE_FULL \<or> 0 < k"
  obtains r where "unate_cmp cmp k xs = Some r" "\<And>I. holds I r = cmp_count cmp k (count_true I xs)"
    "\<And>n. \<forall>x \<in> set xs. known n x \<Longrightarrow> known n r"
proof -
  define m where "m = (if cmp = LE \<or> cmp = EQ \<or> cmp = LE_FULL then k + 1 else k)"
  define c where "c = fold unate_carry xs (replicate m FalseE)"
  have c: "length c = m" "\<And>I j. j < m \<Longrightarrow> holds I (c ! j) = (j < count_true I xs)"
    using unate_fold [of "replicate m FalseE" _ 0 xs] by (simp_all add: c_def)
  have known: "\<And>n j. \<forall>x \<in> set xs. known n x \<Longrightarrow> j < m \<Longrightarrow> known n (c ! j)"
    using unate_known [of "replicate m FalseE" _ xs] c(1) by (simp add: c_def)
  have run: "unate_cmp cmp k xs = (case cmp of
          LE \<Rightarrow> Some (ps_mk_not (c ! k))
        | LE_FULL \<Rightarrow> Some (ps_mk_not (c ! k))
        | GE \<Rightarrow> (if k = 0 then None else Some (c ! (k - 1)))
        | GE_FULL \<Rightarrow> (if k = 0 then None else Some (c ! (k - 1)))
        | EQ \<Rightarrow> (if k = 0 then None else Some (ps_mk_and [ps_mk_not (c ! k), c ! (k - 1)])))"
    unfolding c_def m_def unate_cmp_def Let_def by (cases cmp) simp_all
  show thesis
    using assms that c(2) known run
    by (cases cmp; simp add: m_def cmp_count_def psort_simps known_mk_and; force simp: psort_simps)
qed

subsection \<open>Binary addition\<close>

definition mk_unit_circuit :: "nat \<Rightarrow> expr \<Rightarrow> expr list" where
  "mk_unit_circuit k x = x # replicate (k - 1) FalseE"

text \<open>The two summands have the same length.\<close>

fun mk_add_circuit :: "expr \<Rightarrow> expr list \<Rightarrow> expr list \<Rightarrow> expr list \<times> expr" where
  "mk_add_circuit c (x # xs) (y # ys) =
    (let o' = ps_mk_or [ps_mk_and [c, ps_mk_not x, ps_mk_not y], ps_mk_and [x, ps_mk_not c, ps_mk_not y],
                 ps_mk_and [y, ps_mk_not c, ps_mk_not x], ps_mk_and [c, x, y]];
         c' = ps_mk_or [ps_mk_and [c, x], ps_mk_and [c, y], ps_mk_and [x, y]];
         (out, c'') = mk_add_circuit c' xs ys
     in (o' # out, c''))"
| "mk_add_circuit c _ _ = ([], c)"

function circuit_add :: "nat \<Rightarrow> expr list \<Rightarrow> expr list \<times> expr" where
  "circuit_add k xs =
    (case xs of
       [] \<Rightarrow> (replicate k FalseE, FalseE)
     | [x] \<Rightarrow> (mk_unit_circuit k x, FalseE)
     | _ \<Rightarrow>
         (let half = length xs div 2;
              (o1, ovfl1) = circuit_add k (take half xs);
              (o2, ovfl2) = circuit_add k (drop half xs);
              (out, ovfl3) = mk_add_circuit FalseE o1 o2
          in (out, ps_mk_or [ovfl1, ovfl2, ovfl3])))"
  by pat_completeness auto

termination by (relation "measure (\<lambda>(k, xs). length xs)") auto

declare circuit_add.simps [simp del]

definition circuit_mk_ge :: "expr list \<Rightarrow> expr list \<Rightarrow> expr" where
  "circuit_mk_ge x y =
    snd (fold (\<lambda>j (g, r).
        let g = ps_mk_or [g, ps_mk_and [r, ps_mk_and [x ! j, ps_mk_not (y ! j)]]];
            r = ps_mk_or [g, ps_mk_and [r, ps_mk_or [x ! j, ps_mk_not (y ! j)]]]
        in (g, r)) (rev [0..<length x]) (FalseE, TrueE))"

fun num_bits :: "nat \<Rightarrow> nat" where
  "num_bits k0 = (if k0 > 0 then Suc (num_bits (k0 div 2)) else 0)"

declare num_bits.simps [simp del]

definition circuit_cmp :: "cmp_t \<Rightarrow> nat \<Rightarrow> expr list \<Rightarrow> expr" where
  "circuit_cmp cmp k xs =
    (let k1 = (if cmp = LE \<or> cmp = LE_FULL then k + 1 else k);
         n = num_bits k1;
         kvec = map (\<lambda>i. if odd (k1 div 2 ^ i) then TrueE else FalseE) [0..<n];
         (out, ovfl) = circuit_add n xs
     in case cmp of
          LE \<Rightarrow> ps_mk_not (ps_mk_or [ovfl, circuit_mk_ge out kvec])
        | LE_FULL \<Rightarrow> ps_mk_not (ps_mk_or [ovfl, circuit_mk_ge out kvec])
        | GE \<Rightarrow> ps_mk_or [ovfl, circuit_mk_ge out kvec]
        | GE_FULL \<Rightarrow> ps_mk_or [ovfl, circuit_mk_ge out kvec]
        | EQ \<Rightarrow> ps_mk_and
            (concat (map (\<lambda>i. [ps_mk_or [ps_mk_not (kvec ! i), out ! i], ps_mk_or [kvec ! i, ps_mk_not (out ! i)]]) [0..<n])
             @ [ps_mk_not ovfl]))"

definition circuit_ge :: "bool \<Rightarrow> nat \<Rightarrow> expr list \<Rightarrow> expr" where
  "circuit_ge full k xs = circuit_cmp (if full then GE_FULL else GE) k xs"

definition circuit_le :: "bool \<Rightarrow> nat \<Rightarrow> expr list \<Rightarrow> expr" where
  "circuit_le full k xs = circuit_cmp (if full then LE_FULL else LE) k xs"

definition circuit_eq :: "nat \<Rightarrow> expr list \<Rightarrow> expr" where
  "circuit_eq k xs = circuit_cmp EQ k xs"

text \<open>The number of a list of bits, least significant first.\<close>

fun bits_val :: "interp \<Rightarrow> expr list \<Rightarrow> nat" where
  "bits_val I [] = 0"
| "bits_val I (x # xs) = (if holds I x then 1 else 0) + 2 * bits_val I xs"

lemma bits_val_less: "bits_val I xs < 2 ^ length xs"
  by (induction xs) auto

lemma bits_val_zero [simp]: "bits_val I (replicate k FalseE) = 0"
  by (induction k) simp_all

lemma mk_add_circuit_val:
  "length xs = length ys \<Longrightarrow> mk_add_circuit c xs ys = (out, c') \<Longrightarrow>
    length out = length xs \<and> bits_val I out + 2 ^ length xs * (if holds I c' then 1 else 0) =
      bits_val I xs + bits_val I ys + (if holds I c then 1 else 0)"
proof (induction xs ys arbitrary: c out rule: list_induct2)
  case (Cons x xs y ys)
  let ?c = "ps_mk_or [ps_mk_and [c, x], ps_mk_and [c, y], ps_mk_and [x, y]]"
  obtain out' where rec: "mk_add_circuit ?c xs ys = (out', c')" using Cons.prems by (auto simp: Let_def split: prod.splits)
  have out: "out = ps_mk_or [ps_mk_and [c, ps_mk_not x, ps_mk_not y], ps_mk_and [x, ps_mk_not c, ps_mk_not y],
                 ps_mk_and [y, ps_mk_not c, ps_mk_not x], ps_mk_and [c, x, y]] # out'"
    using Cons.prems rec by (simp add: Let_def)
  have IH: "length out' = length xs" "bits_val I out' + 2 ^ length xs * (if holds I c' then 1 else 0) =
      bits_val I xs + bits_val I ys + (if holds I ?c then 1 else 0)"
    using Cons.IH [OF rec] by simp_all
  then have "bits_val I out' + 2 ^ length xs * (if holds I c' then 1 else 0) =
      bits_val I xs + bits_val I ys + (if holds I c \<and> holds I x \<or> holds I c \<and> holds I y \<or> holds I x \<and> holds I y then 1 else 0)"
    by (simp add: psort_simps)
  then show ?case unfolding out using IH(1) by (auto simp: psort_simps split: if_splits)
qed simp

lemma mk_add_circuit_known:
  "known n c \<Longrightarrow> \<forall>x \<in> set xs. known n x \<Longrightarrow> \<forall>y \<in> set ys. known n y \<Longrightarrow> mk_add_circuit c xs ys = (out, c')
    \<Longrightarrow> known n c' \<and> (\<forall>x \<in> set out. known n x)"
proof (induction c xs ys arbitrary: out rule: mk_add_circuit.induct)
  case (1 c x xs y ys)
  let ?c = "ps_mk_or [ps_mk_and [c, x], ps_mk_and [c, y], ps_mk_and [x, y]]"
  obtain out' where rec: "mk_add_circuit ?c xs ys = (out', c')" using 1(5) by (auto simp: Let_def split: prod.splits)
  have out: "out = ps_mk_or [ps_mk_and [c, ps_mk_not x, ps_mk_not y], ps_mk_and [x, ps_mk_not c, ps_mk_not y],
                 ps_mk_and [y, ps_mk_not c, ps_mk_not x], ps_mk_and [c, x, y]] # out'"
    using 1(5) rec by (simp add: Let_def)
  have k: "known n c" "known n x" "known n y" using 1(2-4) by simp_all
  then have "known n ?c" by (intro known_mk_or) (simp add: known_mk_and)
  from 1(1) [OF refl refl this _ _ rec] have "known n c' \<and> (\<forall>x \<in> set out'. known n x)" using 1 by simp
  moreover have "known n (hd out)" unfolding out list.sel by (intro known_mk_or) (simp add: k known_mk_and)
  ultimately show ?case using out by simp
qed simp_all

lemma circuit_add_small:
  "circuit_add k [] = (replicate k FalseE, FalseE)" "circuit_add k [x] = (mk_unit_circuit k x, FalseE)"
  by (subst circuit_add.simps, simp)+

lemma circuit_add_rec:
  "2 \<le> length xs \<Longrightarrow> circuit_add k xs =
    (let half = length xs div 2;
         (o1, ovfl1) = circuit_add k (take half xs);
         (o2, ovfl2) = circuit_add k (drop half xs);
         (out, ovfl3) = mk_add_circuit FalseE o1 o2
     in (out, ps_mk_or [ovfl1, ovfl2, ovfl3]))"
  by (subst circuit_add.simps) (auto split: list.split)

lemma add_overflow:
  fixes K N1 N2 n1 n2 n3 N :: nat
  assumes "b1 = (K \<le> N1)" "b2 = (K \<le> N2)" "N1 < K \<longrightarrow> n1 = N1" "N2 < K \<longrightarrow> n2 = N2"
    and "n3 + K * (if b3 then 1 else 0) = n1 + n2" "n3 < K" "N = N1 + N2"
  shows "(b1 \<or> b2 \<or> b3) = (K \<le> N) \<and> (N < K \<longrightarrow> n3 = N)"
proof (cases "K \<le> N1 \<or> K \<le> N2")
  case True
  then show ?thesis using assms(1,2,7) by auto
next
  case False
  then show ?thesis using assms by (cases b3) auto
qed

lemma circuit_add_val:
  "0 < k \<Longrightarrow> circuit_add k xs = (out, ovfl) \<Longrightarrow>
    length out = k \<and> holds I ovfl = (2 ^ k \<le> count_true I xs) \<and> (count_true I xs < 2 ^ k \<longrightarrow> bits_val I out = count_true I xs)"
proof (induction k xs arbitrary: out ovfl rule: circuit_add.induct)
  case (1 k xs)
  consider (none) "xs = []" | (one) x where "xs = [x]" | (more) x y zs where "xs = x # y # zs"
    by (cases xs rule: remdups_adj.cases) auto
  then show ?case
  proof cases
    case none
    then show ?thesis using 1(4) by (auto simp: circuit_add_small)
  next
    case one
    obtain k' where k: "k = Suc k'" using 1(3) by (cases k) auto
    have out: "out = x # replicate k' FalseE" "ovfl = FalseE"
      using 1(4) one k by (simp_all add: circuit_add_small mk_unit_circuit_def)
    have "count_true I xs \<le> 1" "bits_val I out = count_true I xs" using one out(1) by simp_all
    moreover have "(1::nat) < 2 ^ k" using 1(3) one_less_power [of "2::nat" k] by simp
    ultimately have "count_true I xs < 2 ^ k" "bits_val I out = count_true I xs" by linarith+
    then show ?thesis using out k by (simp add: not_le del: power_Suc)
  next
    case more
    let ?h = "length xs div 2"
    obtain o1 v1 where r1: "circuit_add k (take ?h xs) = (o1, v1)" by (metis surj_pair)
    obtain o2 v2 where r2: "circuit_add k (drop ?h xs) = (o2, v2)" by (metis surj_pair)
    obtain o3 v3 where r3: "mk_add_circuit FalseE o1 o2 = (o3, v3)" by (metis surj_pair)
    have out: "out = o3" "ovfl = ps_mk_or [v1, v2, v3]"
      using 1(4) more r1 r2 r3 by (simp_all add: circuit_add_rec Let_def)
    have i1: "length o1 = k \<and> holds I v1 = (2 ^ k \<le> count_true I (take ?h xs))
        \<and> (count_true I (take ?h xs) < 2 ^ k \<longrightarrow> bits_val I o1 = count_true I (take ?h xs))"
      by (rule 1(1) [OF more refl refl 1(3) r1])
    have i2: "length o2 = k \<and> holds I v2 = (2 ^ k \<le> count_true I (drop ?h xs))
        \<and> (count_true I (drop ?h xs) < 2 ^ k \<longrightarrow> bits_val I o2 = count_true I (drop ?h xs))"
      by (rule 1(2) [OF more refl refl r1 [symmetric] refl 1(3) r2])
    have c: "count_true I xs = count_true I (take ?h xs) + count_true I (drop ?h xs)"
      using count_true_simps(3) [of I "take ?h xs" "drop ?h xs"] by (simp del: count_true_simps)
    have a: "length o3 = k" "bits_val I o3 + 2 ^ k * (if holds I v3 then 1 else 0) = bits_val I o1 + bits_val I o2"
      using mk_add_circuit_val [OF _ r3, of I] i1 i2 by simp_all
    have n3: "bits_val I o3 < 2 ^ k" using bits_val_less [of I o3] a(1) by simp
    have "(holds I v1 \<or> holds I v2 \<or> holds I v3) = (2 ^ k \<le> count_true I xs)
        \<and> (count_true I xs < 2 ^ k \<longrightarrow> bits_val I o3 = count_true I xs)"
      by (rule add_overflow [OF _ _ _ _ a(2) n3 c]) (use i1 i2 in simp_all)
    then show ?thesis unfolding out using a(1) by (simp add: psort_simps)
  qed
qed

lemma circuit_add_known:
  "\<forall>x \<in> set xs. known n x \<Longrightarrow> circuit_add k xs = (out, ovfl) \<Longrightarrow> known n ovfl \<and> (\<forall>x \<in> set out. known n x)"
proof (induction k xs arbitrary: out ovfl rule: circuit_add.induct)
  case (1 k xs)
  consider (none) "xs = []" | (one) x where "xs = [x]" | (more) x y zs where "xs = x # y # zs"
    by (cases xs rule: remdups_adj.cases) auto
  then show ?case
  proof cases
    case more
    let ?h = "length xs div 2"
    obtain o1 v1 where r1: "circuit_add k (take ?h xs) = (o1, v1)" by (metis surj_pair)
    obtain o2 v2 where r2: "circuit_add k (drop ?h xs) = (o2, v2)" by (metis surj_pair)
    obtain o3 v3 where r3: "mk_add_circuit FalseE o1 o2 = (o3, v3)" by (metis surj_pair)
    have out: "out = o3" "ovfl = ps_mk_or [v1, v2, v3]"
      using 1(4) more r1 r2 r3 by (simp_all add: circuit_add_rec Let_def)
    have i1: "known n v1 \<and> (\<forall>x \<in> set o1. known n x)"
      by (rule 1(1) [OF more refl refl _ r1]) (use 1(3) in \<open>auto dest: in_set_takeD\<close>)
    have i2: "known n v2 \<and> (\<forall>x \<in> set o2. known n x)"
      by (rule 1(2) [OF more refl refl r1 [symmetric] refl _ r2]) (use 1(3) in \<open>auto dest: in_set_dropD\<close>)
    have "known n v3 \<and> (\<forall>x \<in> set o3. known n x)"
      by (rule mk_add_circuit_known [OF _ _ _ r3]) (use i1 i2 in simp_all)
    then show ?thesis unfolding out using i1 i2 by (auto intro: known_mk_or)
  qed (use 1(3,4) in \<open>auto simp: circuit_add_small mk_unit_circuit_def\<close>)
qed

text \<open>Comparison of two numbers of the same length, from the highest bit down.\<close>

lemma bits_val_append: "bits_val I (xs @ ys) = bits_val I xs + 2 ^ length xs * bits_val I ys"
  by (induction xs) auto

definition ge_step :: "expr list \<Rightarrow> expr list \<Rightarrow> nat \<Rightarrow> expr \<times> expr \<Rightarrow> expr \<times> expr" where
  "ge_step x y j = (\<lambda>(g, r).
    let g = ps_mk_or [g, ps_mk_and [r, ps_mk_and [x ! j, ps_mk_not (y ! j)]]];
        r = ps_mk_or [g, ps_mk_and [r, ps_mk_or [x ! j, ps_mk_not (y ! j)]]]
    in (g, r))"

lemma circuit_mk_ge_step: "circuit_mk_ge x y = snd (fold (ge_step x y) (rev [0..<length x]) (FalseE, TrueE))"
  unfolding circuit_mk_ge_def ge_step_def ..

lemma ge_loop:
  assumes "length y = length x" "m \<le> length x"
  shows "holds I (fst (fold (ge_step x y) (rev [m..<length x]) (FalseE, TrueE))) = (bits_val I (drop m y) < bits_val I (drop m x))
    \<and> holds I (snd (fold (ge_step x y) (rev [m..<length x]) (FalseE, TrueE))) = (bits_val I (drop m y) \<le> bits_val I (drop m x))"
  using assms(2)
proof (induction m rule: inc_induct)
  case base
  then show ?case using assms(1) by simp
next
  case (step m)
  let ?gr = "fold (ge_step x y) (rev [Suc m..<length x]) (FalseE, TrueE)"
  obtain g r where gr: "?gr = (g, r)" by (metis surj_pair)
  have e: "fold (ge_step x y) (rev [m..<length x]) (FalseE, TrueE) = ge_step x y m (g, r)"
    using step(2) gr by (simp add: upt_conv_Cons)
  have d: "drop m x = x ! m # drop (Suc m) x" "drop m y = y ! m # drop (Suc m) y"
    using step(2) assms(1) by (simp_all add: Cons_nth_drop_Suc)
  have "holds I g = (bits_val I (drop (Suc m) y) < bits_val I (drop (Suc m) x))"
    "holds I r = (bits_val I (drop (Suc m) y) \<le> bits_val I (drop (Suc m) x))"
    using step(3) gr by simp_all
  then show ?case unfolding e d by (auto simp: ge_step_def Let_def psort_simps)
qed

lemma circuit_mk_ge_val:
  "length y = length x \<Longrightarrow> holds I (circuit_mk_ge x y) = (bits_val I y \<le> bits_val I x)"
  using ge_loop [of y x 0 I] by (simp add: circuit_mk_ge_step)

lemma circuit_mk_ge_known:
  assumes "\<forall>l \<in> set x. known n l" "\<forall>l \<in> set y. known n l" "length y = length x"
  shows "known n (circuit_mk_ge x y)"
proof -
  have "known n (fst (fold (ge_step x y) js gr)) \<and> known n (snd (fold (ge_step x y) js gr))"
    if "known n (fst gr)" "known n (snd gr)" "\<forall>j \<in> set js. j < length x" for js gr
    using that
  proof (induction js arbitrary: gr)
    case (Cons j js)
    have "known n (x ! j)" "known n (y ! j)" using Cons.prems(3) assms by auto
    then have "known n (fst (ge_step x y j gr))" "known n (snd (ge_step x y j gr))"
      using Cons.prems(1,2) by (auto simp: ge_step_def Let_def split: prod.splits intro!: known_mk_or known_mk_and)
    then show ?case using Cons by simp
  qed simp
  then show ?thesis by (simp add: circuit_mk_ge_step)
qed

lemma num_bits_less: "k < 2 ^ num_bits k"
proof (induction k rule: num_bits.induct)
  case (1 k)
  show ?case
  proof (cases "k = 0")
    case False
    then have "k div 2 < 2 ^ num_bits (k div 2)" using 1 by simp
    then have "k < 2 * 2 ^ num_bits (k div 2)" by linarith
    then show ?thesis using False by (simp add: num_bits.simps [of k])
  qed (simp add: num_bits.simps [of 0])
qed

lemma num_bits_pos: "0 < k \<Longrightarrow> 0 < num_bits k"
  by (simp add: num_bits.simps [of k])

lemma bits_val_kvec: "bits_val I (map (\<lambda>i. if odd (k div 2 ^ i) then TrueE else FalseE) [0..<n]) = k mod 2 ^ n"
proof (induction n arbitrary: k)
  case (Suc n)
  have "map (\<lambda>i. if odd (k div 2 ^ i) then TrueE else FalseE) [0..<Suc n] =
      (if odd k then TrueE else FalseE) # map (\<lambda>i. if odd (k div 2 div 2 ^ i) then TrueE else FalseE) [0..<n]"
    by (simp add: upt_conv_Cons map_Suc_upt [symmetric] div_mult2_eq del: upt_Suc)
  then show ?case using Suc [of "k div 2"] by (simp add: mod_mult2_eq odd_iff_mod_2_eq_one)
qed simp

lemma circuit_eq_bits:
  "length y = length x \<Longrightarrow> (\<forall>i < length x. holds I (y ! i) = holds I (x ! i)) \<longleftrightarrow> bits_val I y = bits_val I x"
proof (induction y x rule: list_induct2)
  case (Cons y ys x xs)
  have "(\<forall>i < length (x # xs). holds I ((y # ys) ! i) = holds I ((x # xs) ! i)) \<longleftrightarrow>
      holds I y = holds I x \<and> (\<forall>i < length xs. holds I (ys ! i) = holds I (xs ! i))"
    by (auto simp: less_Suc_eq_0_disj)
  then show ?case using Cons
    by (cases "holds I x"; cases "holds I y") (simp_all add: double_not_eq_Suc_double Suc_double_not_eq_double)
qed simp

lemma circuit_cmp_gate:
  assumes "cmp = LE \<or> cmp = LE_FULL \<or> 0 < k"
  shows "holds I (circuit_cmp cmp k xs) = cmp_count cmp k (count_true I xs)"
    and "\<forall>x \<in> set xs. known n x \<Longrightarrow> known n (circuit_cmp cmp k xs)"
proof -
  define k1 where "k1 = (if cmp = LE \<or> cmp = LE_FULL then k + 1 else k)"
  define m where "m = num_bits k1"
  define kvec where "kvec = map (\<lambda>i. if odd (k1 div 2 ^ i) then TrueE else FalseE) [0..<m]"
  obtain out ovfl where add: "circuit_add m xs = (out, ovfl)" by (metis surj_pair)
  have m: "0 < m" "k1 < 2 ^ m" using assms num_bits_pos [of k1] num_bits_less [of k1] by (auto simp: m_def k1_def)
  have v: "length out = m" "length kvec = m" "bits_val I kvec = k1"
    "holds I ovfl = (2 ^ m \<le> count_true I xs)" "count_true I xs < 2 ^ m \<longrightarrow> bits_val I out = count_true I xs"
    using circuit_add_val [OF m(1) add, of I] m(2) by (auto simp: kvec_def bits_val_kvec)
  define eqs where "eqs = concat (map (\<lambda>i. [ps_mk_or [ps_mk_not (kvec ! i), out ! i], ps_mk_or [kvec ! i, ps_mk_not (out ! i)]]) [0..<m])"
  have ge: "holds I (ps_mk_or [ovfl, circuit_mk_ge out kvec]) = (k1 \<le> count_true I xs)"
    using v m(2) by (auto simp: psort_simps circuit_mk_ge_val)
  have run: "circuit_cmp cmp k xs = (case cmp of
          LE \<Rightarrow> ps_mk_not (ps_mk_or [ovfl, circuit_mk_ge out kvec])
        | LE_FULL \<Rightarrow> ps_mk_not (ps_mk_or [ovfl, circuit_mk_ge out kvec])
        | GE \<Rightarrow> ps_mk_or [ovfl, circuit_mk_ge out kvec]
        | GE_FULL \<Rightarrow> ps_mk_or [ovfl, circuit_mk_ge out kvec]
        | EQ \<Rightarrow> ps_mk_and (eqs @ [ps_mk_not ovfl]))"
    using add unfolding circuit_cmp_def Let_def k1_def [symmetric] m_def [symmetric] kvec_def [symmetric] eqs_def by simp
  have "(\<forall>l \<in> set eqs. holds I l) \<longleftrightarrow> (\<forall>i < length out. holds I (kvec ! i) = holds I (out ! i))"
    using v(1) by (auto simp: eqs_def psort_simps)
  then have eq: "holds I (ps_mk_and (eqs @ [ps_mk_not ovfl])) = (k1 = count_true I xs)"
    using circuit_eq_bits [of kvec out I] v m(2) by (auto simp: psort_simps)
  show "holds I (circuit_cmp cmp k xs) = cmp_count cmp k (count_true I xs)"
    unfolding run using ge eq by (cases cmp) (auto simp: cmp_count_def k1_def psort_simps)
  assume xs: "\<forall>x \<in> set xs. known n x"
  have kn: "known n ovfl" "\<forall>x \<in> set out. known n x" "\<forall>x \<in> set kvec. known n x"
    using circuit_add_known [OF xs add] by (auto simp: kvec_def)
  have "known n (ps_mk_or [ovfl, circuit_mk_ge out kvec])"
    using kn circuit_mk_ge_known [OF kn(2,3)] v by (intro known_mk_or) simp
  moreover have "known n (ps_mk_and (eqs @ [ps_mk_not ovfl]))"
  proof (rule known_mk_and)
    have "known n (kvec ! i)" "known n (out ! i)" if "i < m" for i using kn v that by auto
    then show "\<forall>l \<in> set (eqs @ [ps_mk_not ovfl]). known n l"
      using kn(1) by (auto simp: eqs_def intro!: known_mk_or)
  qed
  ultimately show "known n (circuit_cmp cmp k xs)" unfolding run by (cases cmp) simp_all
qed

text \<open>With \<open>k = 0\<close> there are no bits, but \<open>mk_unit_circuit\<close> writes one: the literal says at most one.\<close>

lemma circuit_add_no_bits:
  "circuit_add 0 xs = (out, ovfl) \<Longrightarrow>
    length out = min 1 (length xs) \<and> holds I ovfl = (2 \<le> count_true I xs) \<and> (count_true I xs < 2 \<longrightarrow> bits_val I out = count_true I xs)"
proof (induction "0 :: nat" xs arbitrary: out ovfl rule: circuit_add.induct)
  case (1 xs)
  consider (none) "xs = []" | (one) x where "xs = [x]" | (more) x y zs where "xs = x # y # zs"
    by (cases xs rule: remdups_adj.cases) auto
  then show ?case
  proof cases
    case more
    let ?h = "length xs div 2"
    obtain o1 v1 where r1: "circuit_add 0 (take ?h xs) = (o1, v1)" by (metis surj_pair)
    obtain o2 v2 where r2: "circuit_add 0 (drop ?h xs) = (o2, v2)" by (metis surj_pair)
    obtain o3 v3 where r3: "mk_add_circuit FalseE o1 o2 = (o3, v3)" by (metis surj_pair)
    have out: "out = o3" "ovfl = ps_mk_or [v1, v2, v3]"
      using 1(3) more r1 r2 r3 by (simp_all add: circuit_add_rec Let_def)
    have h: "1 \<le> ?h" "1 \<le> length xs - ?h" using more by auto
    have i1: "length o1 = min 1 (length (take ?h xs)) \<and> holds I v1 = (2 \<le> count_true I (take ?h xs))
        \<and> (count_true I (take ?h xs) < 2 \<longrightarrow> bits_val I o1 = count_true I (take ?h xs))"
      by (rule 1(1) [OF more refl refl r1])
    have i2: "length o2 = min 1 (length (drop ?h xs)) \<and> holds I v2 = (2 \<le> count_true I (drop ?h xs))
        \<and> (count_true I (drop ?h xs) < 2 \<longrightarrow> bits_val I o2 = count_true I (drop ?h xs))"
      by (rule 1(2) [OF more refl refl r1 [symmetric] refl r2])
    have len: "length o1 = 1" "length o2 = 1" using i1 i2 h by (simp_all add: min_def split: if_splits)
    have c: "count_true I xs = count_true I (take ?h xs) + count_true I (drop ?h xs)"
      using count_true_simps(3) [of I "take ?h xs" "drop ?h xs"] by (simp del: count_true_simps)
    have a: "length o3 = 1" "bits_val I o3 + 2 * (if holds I v3 then 1 else 0) = bits_val I o1 + bits_val I o2"
      using mk_add_circuit_val [OF _ r3, of I] len by simp_all
    have n3: "bits_val I o3 < 2" using bits_val_less [of I o3] a(1) by simp
    have "(holds I v1 \<or> holds I v2 \<or> holds I v3) = (2 \<le> count_true I xs)
        \<and> (count_true I xs < 2 \<longrightarrow> bits_val I o3 = count_true I xs)"
      by (rule add_overflow [OF _ _ _ _ a(2) n3 c]) (use i1 i2 in simp_all)
    then show ?thesis unfolding out using a(1) more by (simp add: psort_simps)
  qed (use 1(3) in \<open>auto simp: circuit_add_small mk_unit_circuit_def split: if_splits\<close>)
qed

lemma circuit_eq_zero: "holds I (circuit_eq 0 xs) = (count_true I xs \<le> 1)"
proof -
  obtain out ovfl where add: "circuit_add 0 xs = (out, ovfl)" by (metis surj_pair)
  then have "circuit_eq 0 xs = ps_mk_and [ps_mk_not ovfl]"
    by (simp add: circuit_eq_def circuit_cmp_def Let_def num_bits.simps [of 0])
  then show ?thesis using circuit_add_no_bits [OF add, of I] by (auto simp: psort_simps)
qed

end
