(* ===== verification/Psort_One.thy ===== *)
theory Psort_One
  imports Psort_Gates
begin

text \<open>
  Cardinality constraints, sixth part: the encodings of \<open>psort_nw\<close> for at most one and exactly one
  (\<open>mk_at_most_1\<close>, \<open>mk_at_most_1_bimander\<close>, \<open>mk_ordered_1\<close>, \<open>mk_exactly_1\<close>).
\<close>

subsection \<open>Groups\<close>

text \<open>The pieces of a loop \<open>for (i = 0; i < n; i += inc)\<close>, with \<open>0 < inc\<close>.\<close>

function chunks :: "nat \<Rightarrow> 'a list \<Rightarrow> 'a list list" where
  "chunks inc xs = (if xs = [] \<or> inc = 0 then [] else take inc xs # chunks inc (drop inc xs))"
  by pat_completeness auto

termination by (relation "measure (\<lambda>(inc, xs). length xs)") auto

declare chunks.simps [simp del]

definition at_most_1_pairs :: "expr \<Rightarrow> expr list \<Rightarrow> expr list list" where
  "at_most_1_pairs result xs =
    concat (map (\<lambda>i. map (\<lambda>j. [ps_mk_not result, ps_mk_not (xs ! i), ps_mk_not (xs ! j)])
      [i + 1..<length xs]) [0..<length xs])"

definition at_most_1_ands :: "expr \<Rightarrow> expr list \<Rightarrow> expr list list" where
  "at_most_1_ands and_i xs =
    map (\<lambda>i. and_i # map (\<lambda>j. xs ! j) (filter (\<lambda>j. j \<noteq> i) [0..<length xs])) [0..<length xs]"

definition mk_at_most_1_small :: "bool \<Rightarrow> expr list \<Rightarrow> expr \<Rightarrow> expr list \<Rightarrow> psort \<Rightarrow> expr list \<times> psort" where
  "mk_at_most_1_small full xs result ands s =
    (if length xs = 1 then (ands, s)
     else
       let s = add_clauses (at_most_1_pairs result xs) s
       in if full then
            (let (and_i, s) = fresh_const s;
                 s = add_clauses (at_most_1_ands and_i xs) s
             in (ands @ [ps_mk_not and_i], s))
          else (ands, s))"

text \<open>The loop over the groups of one round; \<open>push\<close> is \<open>use_ors || n > inc_size\<close>.\<close>

fun at_most_1_groups ::
  "bool \<Rightarrow> bool \<Rightarrow> expr \<Rightarrow> expr list list \<Rightarrow> expr list \<Rightarrow> expr list \<Rightarrow> psort \<Rightarrow> expr list \<times> expr list \<times> psort" where
  "at_most_1_groups full push result [] ors ands s = (ors, ands, s)"
| "at_most_1_groups full push result (g # gs) ors ands s =
    (let (ands, s) = mk_at_most_1_small full g result ands s;
         ors = (if push then ors @ [ps_mk_or g] else ors)
     in at_most_1_groups full push result gs ors ands s)"

lemma length_chunks_less:
  assumes "1 < inc" "inc < length xs"
  shows "length (chunks inc xs) < length xs"
proof -
  have le: "length (chunks inc xs) \<le> length xs" if "0 < inc" for xs :: "'a list"
    using that
  proof (induction inc xs rule: chunks.induct)
    case (1 inc xs)
    then show ?case by (cases xs) (auto simp: chunks.simps [of inc "[]"] chunks.simps [of inc "a # as" for a as])
  qed
  have "length (chunks inc xs) = Suc (length (chunks inc (drop inc xs)))"
    using assms by (subst chunks.simps) auto
  also have "\<dots> \<le> Suc (length xs - inc)" using le [of "drop inc xs"] assms by simp
  also have "\<dots> < length xs" using assms by simp
  finally show ?thesis .
qed

lemma at_most_1_groups_ors:
  "at_most_1_groups full push result gs ors ands s = (ors', ands', s') \<Longrightarrow>
    ors' = ors @ (if push then map ps_mk_or gs else [])"
proof (induction gs arbitrary: ors ands s)
  case (Cons g gs)
  obtain a t where st: "mk_at_most_1_small full g result ands s = (a, t)" by (metis surj_pair)
  then have "at_most_1_groups full push result gs (if push then ors @ [ps_mk_or g] else ors) a t = (ors', ands', s')"
    using Cons.prems by (simp add: Let_def)
  from Cons.IH [OF this] show ?case by simp
qed simp

text \<open>The rounds; \<open>inc_size\<close> starts with 4 and grows, it is \<open>4 + d\<close> here.\<close>

function at_most_1_loop ::
  "bool \<Rightarrow> bool \<Rightarrow> expr \<Rightarrow> nat \<Rightarrow> expr list \<Rightarrow> expr list \<Rightarrow> expr list \<Rightarrow> psort \<Rightarrow> expr list \<times> expr list \<times> psort" where
  "at_most_1_loop full use_ors result d xs ors ands s =
    (if xs = [] then (ors, ands, s)
     else
       let n = length xs;
           d = (if n + 1 = 4 + d then d + 1 else d);
           (ors, ands, s) =
             at_most_1_groups full (use_ors \<or> n > 4 + d) result (chunks (4 + d) xs) [] ands s
       in if n \<le> 4 + d then (ors, ands, s)
          else at_most_1_loop full use_ors result d ors ors ands s)"
  by pat_completeness auto

termination
proof (relation "measure (\<lambda>(full, use_ors, result, d, xs, ors, ands, s). length xs)", goal_cases)
  case (2 full use_ors result d xs ors ands s n d' p ors' q ands' s')
  have "at_most_1_groups full (use_ors \<or> 4 + d' < n) result (chunks (4 + d') xs) [] ands s = (ors', ands', s')"
    using 2(4-6) by simp
  from at_most_1_groups_ors [OF this] have "length ors' = length (chunks (4 + d') xs)" using 2(7) by simp
  moreover have "length (chunks (4 + d') xs) < length xs" using 2(2,7) by (intro length_chunks_less) simp_all
  ultimately show ?case by simp
qed simp

declare at_most_1_loop.simps [simp del]

definition mk_at_most_1 :: "bool \<Rightarrow> expr list \<Rightarrow> bool \<Rightarrow> psort \<Rightarrow> expr \<times> expr list \<times> psort" where
  "mk_at_most_1 full xs use_ors s =
    (let (result, s) = fresh_const s;
         (ors, ands, s) = at_most_1_loop full use_ors result 0 xs [] [result] s;
         s = (if full then add_clauses [ands] s else s)
     in (result, ors, s))"

subsection \<open>Bimander encoding\<close>

text \<open>The number of bits for the groups: the least \<open>nbits\<close> with \<open>m \<le> 1 << nbits\<close>.\<close>

function bimander_nbits :: "nat \<Rightarrow> nat \<Rightarrow> nat" where
  "bimander_nbits nbits m = (if 2 ^ nbits < m then bimander_nbits (nbits + 1) m else nbits)"
  by pat_completeness auto

termination by (relation "measure (\<lambda>(nbits, m). m - 2 ^ nbits)") (auto intro!: diff_less_mono2)

declare bimander_nbits.simps [simp del]

text \<open>The groups of two are the loop above with \<open>inc_size\<close> 2; \<open>full\<close> is false in it.\<close>

definition mk_at_most_1_bimander :: "bool \<Rightarrow> expr list \<Rightarrow> psort \<Rightarrow> expr \<times> expr list \<times> psort" where
  "mk_at_most_1_bimander full xs s =
    (if full then mk_at_most_1 full xs True s
     else
       let (result, s) = fresh_const s;
           (ors, ands, s) = at_most_1_groups full True result (chunks 2 xs) [] [] s;
           nbits = bimander_nbits 0 (length ors);
           (bits, s) = freshes nbits s;
           s = add_clauses (concat (map (\<lambda>i. map (\<lambda>k.
                 [ps_mk_not result, ps_mk_not (ors ! i),
                  if odd (i div 2 ^ k) then bits ! k else ps_mk_not (bits ! k)])
                 [0..<nbits]) [0..<length ors])) s
       in (result, ors, s))"

subsection \<open>Ordered encoding\<close>

definition ordered_base :: "expr list \<Rightarrow> expr \<Rightarrow> expr list \<Rightarrow> bool \<Rightarrow> expr list list" where
  "ordered_base xs r ys exactly =
    (let n = length xs
     in map (\<lambda>i. [ps_mk_not (ys ! i), ys ! (i + 1)]) [0..<n - 2]
        @ concat (map (\<lambda>i. [[ps_mk_not (xs ! i), ys ! i],
            [ps_mk_not r, ps_mk_not (ys ! i), ps_mk_not (xs ! (i + 1))]]) [0..<n - 1])
        @ (if exactly then [[ps_mk_not r, ys ! (n - 2), xs ! (n - 1)]] else [])
        @ map (\<lambda>i. [ps_mk_not (ys ! i), xs ! i, ys ! (i - 1)]) [1..<n - 1]
        @ [[ps_mk_not (ys ! 0), xs ! 0]])"

definition ordered_twos :: "expr list \<Rightarrow> expr list \<Rightarrow> expr list \<Rightarrow> expr list list" where
  "ordered_twos xs ys twos =
    [[ps_mk_not (twos ! 0), ys ! 0], [ps_mk_not (twos ! 0), xs ! 1]]
    @ concat (map (\<lambda>i. [[ps_mk_not (twos ! i), ys ! i, twos ! (i - 1)],
        [ps_mk_not (twos ! i), xs ! (i + 1), twos ! (i - 1)]]) [1..<length xs - 1])"

definition mk_ordered_1 :: "bool \<Rightarrow> bool \<Rightarrow> expr list \<Rightarrow> psort \<Rightarrow> expr \<times> psort" where
  "mk_ordered_1 full exactly xs s =
    (let n = length xs
     in if n \<le> 1 \<and> \<not> exactly then (TrueE, s)
        else if n = 0 then (FalseE, s)
        else if n = 1 then (xs ! 0, s)
        else
          let (r, s) = fresh_const s;
              (ys, s) = freshes (n - 1) s;
              s = add_clauses (ordered_base xs r ys exactly) s
          in if full then
               let (twos, s) = freshes (n - 1) s;
                   s = add_clauses (ordered_twos xs ys twos) s
               in if exactly then
                    (let (zero, s) = fresh_const s
                     in (r, add_clauses [[ps_mk_not zero, ps_mk_not (xs ! (n - 1))],
                              [ps_mk_not zero, ps_mk_not (ys ! (n - 2))], [r, zero, last twos]] s))
                  else (r, add_clauses [[r, last twos]] s)
             else (r, s))"

subsection \<open>Exactly one\<close>

datatype sn_encoding = sorted_at_most | grouped_at_most | bimander_at_most | ordered_at_most
  | unate_at_most | circuit_at_most

definition mk_exactly_1 :: "sn_encoding \<Rightarrow> bool \<Rightarrow> expr list \<Rightarrow> psort \<Rightarrow> expr \<times> psort" where
  "mk_exactly_1 enc full xs s =
    (if enc = ordered_at_most then mk_ordered_1 full True xs s
     else
       let (r1, ors, s) =
             (if enc = bimander_at_most then mk_at_most_1_bimander full xs s else mk_at_most_1 full xs True s)
       in if full then (ps_mk_and [r1, ps_mk_or ors], s)
          else (r1, add_clauses [ors @ [ps_mk_not r1]] s))"

subsection \<open>At most one in a group\<close>

text \<open>
  Lemmas that say \<open>Q\<close> if \<open>r\<close> holds; with \<open>full\<close>, the literals \<open>news\<close> are false when \<open>Q\<close> does, and
  need not all be false when it does not.
\<close>

definition restricts :: "bool \<Rightarrow> psort \<Rightarrow> psort \<Rightarrow> expr \<Rightarrow> expr list \<Rightarrow> (interp \<Rightarrow> bool) \<Rightarrow> bool" where
  "restricts full s s' r news Q \<longleftrightarrow>
    wf_psort s' \<and> m_next_const s \<le> m_next_const s' \<and> knowns s' news
    \<and> (\<forall>I. sat I s' \<longrightarrow> sat I s)
    \<and> (\<forall>I. sat I s' \<longrightarrow> holds I r \<longrightarrow> Q I)
    \<and> (\<forall>I. full \<longrightarrow> sat I s' \<longrightarrow> Q I \<longrightarrow> (\<forall>l \<in> set news. \<not> holds I l))
    \<and> (\<forall>I. sat I s \<longrightarrow> (holds I r \<longrightarrow> Q I) \<longrightarrow>
        (\<exists>J. agree (m_next_const s) I J \<and> sat J s' \<and> (full \<longrightarrow> (\<forall>l \<in> set news. \<not> holds J l) \<longrightarrow> Q I)))"

lemma restrictsD:
  assumes "restricts full s s' r news Q"
  shows "wf_psort s'" "m_next_const s \<le> m_next_const s'" "knowns s' news" "sat I s' \<Longrightarrow> sat I s"
    "sat I s' \<Longrightarrow> holds I r \<Longrightarrow> Q I" "full \<Longrightarrow> sat I s' \<Longrightarrow> Q I \<Longrightarrow> \<forall>l \<in> set news. \<not> holds I l"
    "sat I s \<Longrightarrow> (holds I r \<Longrightarrow> Q I) \<Longrightarrow>
      \<exists>J. agree (m_next_const s) I J \<and> sat J s' \<and> (full \<longrightarrow> (\<forall>l \<in> set news. \<not> holds J l) \<longrightarrow> Q I)"
  using assms unfolding restricts_def by blast+

lemma restricts_cong: "restricts full s s' r news P \<Longrightarrow> (\<And>I. P I = Q I) \<Longrightarrow> restricts full s s' r news Q"
  unfolding restricts_def by simp

lemma restricts_refl: "wf_psort s \<Longrightarrow> (\<And>I. Q I) \<Longrightarrow> restricts full s s r [] Q"
  unfolding restricts_def by (auto intro: agree_refl)

lemma restricts_seq:
  assumes 1: "restricts full s s1 r n1 Q1" and 2: "restricts full s1 s2 r n2 Q2" and r: "known (m_next_const s) r"
    and Q2: "\<And>I J. agree (m_next_const s) I J \<Longrightarrow> Q2 I = Q2 J"
  shows "restricts full s s2 r (n1 @ n2) (\<lambda>I. Q1 I \<and> Q2 I)"
  unfolding restricts_def
proof (intro conjI allI impI)
  note d1 = restrictsD [OF 1] and d2 = restrictsD [OF 2]
  show "wf_psort s2" by (rule d2)
  show "m_next_const s \<le> m_next_const s2" using d1(2) d2(2) by simp
  show "knowns s2 (n1 @ n2)" using knowns_mono [OF d1(3) d2(2)] d2(3) by auto
  fix I
  show "sat I s" if "sat I s2" using d1(4) d2(4) that by blast
  show "Q1 I" "Q2 I" if "sat I s2" "holds I r" using d1(5) d2(4,5) that by blast+
  show "\<forall>l \<in> set (n1 @ n2). \<not> holds I l" if "full" "sat I s2" "Q1 I \<and> Q2 I"
    using d1(6) d2(4,6) that by auto
  assume I: "sat I s" "holds I r \<longrightarrow> Q1 I \<and> Q2 I"
  then obtain J where J: "agree (m_next_const s) I J" "sat J s1" "full \<longrightarrow> (\<forall>l \<in> set n1. \<not> holds J l) \<longrightarrow> Q1 I"
    using d1(7) [of I] by blast
  have "holds J r \<Longrightarrow> Q2 J" using I(2) holds_agree [OF J(1) r] Q2 [OF J(1)] by simp
  then obtain K where K: "agree (m_next_const s1) J K" "sat K s2" "full \<longrightarrow> (\<forall>l \<in> set n2. \<not> holds K l) \<longrightarrow> Q2 J"
    using d2(7) [OF J(2)] by blast
  have "\<forall>l \<in> set n1. holds J l = holds K l" using holds_agree [OF K(1)] d1(3) by blast
  then show "\<exists>J. agree (m_next_const s) I J \<and> sat J s2 \<and> (full \<longrightarrow> (\<forall>l \<in> set (n1 @ n2). \<not> holds J l) \<longrightarrow> Q1 I \<and> Q2 I)"
    using agree_trans [OF J(1) K(1) d1(2)] K(2,3) J(3) Q2 [OF J(1)] by (intro exI [of _ K]) auto
qed

lemma count_le_1_nth: "count_true I xs \<le> 1 \<longleftrightarrow>
    (\<forall>i < length xs. \<forall>j < length xs. i < j \<longrightarrow> \<not> (holds I (xs ! i) \<and> holds I (xs ! j)))"
proof -
  let ?A = "{i. i < length xs \<and> holds I (xs ! i)}"
  have "count_true I xs \<le> 1 \<longleftrightarrow> (\<forall>i \<in> ?A. \<forall>j \<in> ?A. i = j)"
    using card_le_Suc0_iff_eq [of ?A] by (simp add: count_true_card)
  also have "\<dots> \<longleftrightarrow> (\<forall>i \<in> ?A. \<forall>j \<in> ?A. \<not> i < j)"
  proof (intro iffI ballI)
    fix i j
    assume "\<forall>i \<in> ?A. \<forall>j \<in> ?A. i = j" "i \<in> ?A" "j \<in> ?A"
    then have "i = j" by blast
    then show "\<not> i < j" by simp
  next
    fix i j
    assume "\<forall>i \<in> ?A. \<forall>j \<in> ?A. \<not> i < j" "i \<in> ?A" "j \<in> ?A"
    then have "\<not> i < j" "\<not> j < i" by blast+
    then show "i = j" by simp
  qed
  finally show ?thesis by blast
qed

lemma at_most_1_pairs_true:
  "clauses_true I (at_most_1_pairs r xs) \<longleftrightarrow> (holds I r \<longrightarrow> count_true I xs \<le> 1)"
  unfolding count_le_1_nth by (auto simp: at_most_1_pairs_def psort_simps)

lemma at_most_1_ands_true:
  assumes "xs \<noteq> []"
  shows "clauses_true I (at_most_1_ands a xs) \<longleftrightarrow> holds I a \<or> \<not> count_true I xs \<le> 1"
proof -
  let ?n = "length xs"
  have "(\<forall>i < ?n. \<exists>j < ?n. j \<noteq> i \<and> holds I (xs ! j)) \<longleftrightarrow>
      (\<exists>i < ?n. \<exists>j < ?n. i < j \<and> holds I (xs ! i) \<and> holds I (xs ! j))"
  proof
    assume h: "\<forall>i < ?n. \<exists>j < ?n. j \<noteq> i \<and> holds I (xs ! j)"
    obtain j where j: "j < ?n" "holds I (xs ! j)" using h assms by (metis length_greater_0_conv)
    obtain j' where j': "j' < ?n" "j' \<noteq> j" "holds I (xs ! j')" using h j(1) by blast
    show "\<exists>i < ?n. \<exists>j < ?n. i < j \<and> holds I (xs ! i) \<and> holds I (xs ! j)"
      using j j' by (meson linorder_neqE_nat)
  next
    assume "\<exists>i < ?n. \<exists>j < ?n. i < j \<and> holds I (xs ! i) \<and> holds I (xs ! j)"
    then show "\<forall>i < ?n. \<exists>j < ?n. j \<noteq> i \<and> holds I (xs ! j)" by (metis less_irrefl)
  qed
  moreover have "clauses_true I (at_most_1_ands a xs) \<longleftrightarrow> (\<forall>i < ?n. holds I a \<or> (\<exists>j < ?n. j \<noteq> i \<and> holds I (xs ! j)))"
    by (auto simp: at_most_1_ands_def clause_true_def)
  ultimately show ?thesis unfolding count_le_1_nth using assms by (auto simp: Suc_le_eq)
qed

lemma known_pairs: "known n r \<Longrightarrow> \<forall>x \<in> set xs. known n x \<Longrightarrow> \<forall>c \<in> set (at_most_1_pairs r xs). \<forall>l \<in> set c. known n l"
  by (auto simp: at_most_1_pairs_def)

lemma known_ands: "known n a \<Longrightarrow> \<forall>x \<in> set xs. known n x \<Longrightarrow> \<forall>c \<in> set (at_most_1_ands a xs). \<forall>l \<in> set c. known n l"
  by (auto simp: at_most_1_ands_def)

lemma add_clauses_next:
  "(add_clauses cs s)\<lparr>m_next_const := n\<rparr> = add_clauses cs (s\<lparr>m_next_const := n\<rparr>)"
proof (induction cs arbitrary: s)
  case (Cons c cs)
  have "(add_clause c s)\<lparr>m_next_const := n\<rparr> = add_clause c (s\<lparr>m_next_const := n\<rparr>)"
    by (cases s) (simp add: add_clause_def ctx_mk_clause_def)
  then show ?case using Cons by (simp add: add_clauses_def)
qed (simp add: add_clauses_def)

text \<open>A new constant with the value \<open>b\<close>, and clauses over it.\<close>

lemma fresh_extend:
  assumes "wf_psort s" "sat I s"
  obtains J where "agree (m_next_const s) I J" "sat J s" "holds J (const (m_next_const s)) = b"
proof -
  have "agree (m_next_const s) I (set_consts I (m_next_const s) (\<lambda>_. b))" by simp
  then show thesis using that [of "set_consts I (m_next_const s) (\<lambda>_. b)"] sat_agree [OF assms(1) _ assms(2)] by simp
qed

lemma small_restricts:
  assumes wf: "wf_psort s" "knowns s xs" "known (m_next_const s) r" "xs \<noteq> []"
    and run: "mk_at_most_1_small full xs r ands s = (ands', s')"
  shows "\<exists>news. ands' = ands @ news \<and> restricts full s s' r news (\<lambda>I. count_true I xs \<le> 1)"
proof -
  let ?c = "const (m_next_const s)" and ?s = "s\<lparr>m_next_const := Suc (m_next_const s)\<rparr>"
  consider (one) "length xs = 1" | (plain) "length xs \<noteq> 1" "\<not> full" | (full) "length xs \<noteq> 1" full by blast
  then show ?thesis
  proof cases
    case one
    then have "ands' = ands" "s' = s" using run by (simp_all add: mk_at_most_1_small_def)
    moreover have "count_true I xs \<le> 1" for I using count_true_le [of I xs] one by simp
    ultimately show ?thesis using restricts_refl [OF wf(1)] by auto
  next
    case plain
    then have s': "ands' = ands" "s' = add_clauses (at_most_1_pairs r xs) s"
      using run by (auto simp: mk_at_most_1_small_def Let_def)
    have "wf_psort s'" unfolding s'(2) by (rule wf_add_clauses [OF wf(1) known_pairs [OF wf(3,2)]])
    then have "restricts full s s' r [] (\<lambda>I. count_true I xs \<le> 1)"
      unfolding restricts_def s'(2) using plain(2) by (auto simp: at_most_1_pairs_true intro!: exI [of _ I for I])
    then show ?thesis using s'(1) by auto
  next
    case full
    let ?cs = "at_most_1_pairs r xs @ at_most_1_ands ?c xs"
    have s': "ands' = ands @ [ps_mk_not ?c]" "s' = add_clauses ?cs ?s"
      using run full
      by (simp_all add: mk_at_most_1_small_def Let_def fresh_const_def add_clauses_append [symmetric] add_clauses_next)
    have kn: "known (m_next_const ?s) r" "knowns ?s xs" "known (m_next_const ?s) ?c"
      using wf(2,3) by (auto intro: known_mono)
    have wf': "wf_psort s'" unfolding s'(2)
      using known_pairs [OF kn(1,2)] known_ands [OF kn(3,2)]
      by (intro wf_add_clauses wf_next [OF wf(1)]) auto
    have sat': "sat I s' \<longleftrightarrow> sat I s \<and> (holds I r \<longrightarrow> count_true I xs \<le> 1) \<and> (holds I ?c \<or> \<not> count_true I xs \<le> 1)" for I
      unfolding s'(2) by (simp add: at_most_1_pairs_true at_most_1_ands_true [OF wf(4)])
    have "restricts full s s' r [ps_mk_not ?c] (\<lambda>I. count_true I xs \<le> 1)"
      unfolding restricts_def
    proof (intro conjI allI impI)
      show "wf_psort s'" by (rule wf')
      show "m_next_const s \<le> m_next_const s'" "knowns s' [ps_mk_not ?c]" using kn(3) by (simp_all add: s'(2))
      fix I
      assume I: "sat I s" "holds I r \<longrightarrow> count_true I xs \<le> 1"
      obtain J where J: "agree (m_next_const s) I J" "sat J s" "holds J ?c = (count_true I xs \<le> 1)"
        by (rule fresh_extend [OF wf(1) I(1)])
      then show "\<exists>J. agree (m_next_const s) I J \<and> sat J s'
          \<and> (full \<longrightarrow> (\<forall>l \<in> set [ps_mk_not ?c]. \<not> holds J l) \<longrightarrow> count_true I xs \<le> 1)"
        using count_true_agree [OF J(1) wf(2)] holds_agree [OF J(1) wf(3)] I(2) sat' by (intro exI [of _ J]) (auto simp: psort_simps)
    qed (auto simp: sat' psort_simps)
    then show ?thesis using s'(1) by blast
  qed
qed

lemma groups_restricts:
  "wf_psort s \<Longrightarrow> known (m_next_const s) r \<Longrightarrow> \<forall>g \<in> set gs. g \<noteq> [] \<and> knowns s g
    \<Longrightarrow> at_most_1_groups full push r gs ors ands s = (ors', ands', s')
    \<Longrightarrow> \<exists>news. ands' = ands @ news \<and> restricts full s s' r news (\<lambda>I. \<forall>g \<in> set gs. count_true I g \<le> 1)"
proof (induction gs arbitrary: ors ands s)
  case Nil
  then show ?case using restricts_refl by auto
next
  case (Cons g gs)
  obtain a t where st: "mk_at_most_1_small full g r ands s = (a, t)" by (metis surj_pair)
  then have run: "at_most_1_groups full push r gs (if push then ors @ [ps_mk_or g] else ors) a t = (ors', ands', s')"
    using Cons.prems by (simp add: Let_def)
  obtain n1 where n1: "a = ands @ n1" "restricts full s t r n1 (\<lambda>I. count_true I g \<le> 1)"
    using small_restricts [OF Cons.prems(1) _ Cons.prems(2) _ st] Cons.prems(3) by auto
  note d1 = restrictsD [OF n1(2)]
  have "known (m_next_const t) r" using Cons.prems(2) d1(2) by (rule known_mono)
  moreover have "\<forall>g \<in> set gs. g \<noteq> [] \<and> knowns t g" using Cons.prems(3) known_mono [OF _ d1(2)] by auto
  ultimately obtain n2 where n2: "ands' = a @ n2" "restricts full t s' r n2 (\<lambda>I. \<forall>g \<in> set gs. count_true I g \<le> 1)"
    using Cons.IH [OF d1(1) _ _ run] by blast
  have "count_true I g' = count_true J g'" if "agree (m_next_const s) I J" "g' \<in> set gs" for I J g'
    using count_true_agree [OF that(1)] Cons.prems(3) that(2) by auto
  then have "restricts full s s' r (n1 @ n2) (\<lambda>I. count_true I g \<le> 1 \<and> (\<forall>g \<in> set gs. count_true I g \<le> 1))"
    by (intro restricts_seq [OF n1(2) n2(2) Cons.prems(2)]) auto
  then show ?case using n1(1) n2(1) by (intro exI [of _ "n1 @ n2"]) simp
qed

subsection \<open>At most one\<close>

lemma concat_chunks: "0 < inc \<Longrightarrow> concat (chunks inc xs) = xs"
proof (induction inc xs rule: chunks.induct)
  case (1 inc xs)
  then show ?case
    by (cases "xs = []") (simp add: chunks.simps [of inc "[]"], subst chunks.simps, simp)
qed

lemma chunks_not_Nil: "g \<in> set (chunks inc xs) \<Longrightarrow> g \<noteq> []"
proof (induction inc xs rule: chunks.induct)
  case (1 inc xs)
  from 1(2) have ne: "\<not> (xs = [] \<or> inc = 0)" by (subst (asm) chunks.simps) (auto split: if_splits)
  then have "g = take inc xs \<or> g \<in> set (chunks inc (drop inc xs))"
    using 1(2) by (subst (asm) chunks.simps) simp
  then show ?case using 1(1) ne by auto
qed

text \<open>The groups and their disjunctions.\<close>

lemma count_groups:
  "count_true I (map ps_mk_or gs) = 0 \<longleftrightarrow> count_true I (concat gs) = 0"
  "count_true I (concat gs) \<le> 1 \<longleftrightarrow> (\<forall>g \<in> set gs. count_true I g \<le> 1) \<and> count_true I (map ps_mk_or gs) \<le> 1"
proof -
  have zero: "(\<exists>l \<in> set g. holds I l) \<longleftrightarrow> count_true I g \<noteq> 0" for g
    by (auto simp: count_true_def filter_empty_conv)
  have "(count_true I (map ps_mk_or gs) = 0 \<longleftrightarrow> count_true I (concat gs) = 0)
    \<and> (count_true I (concat gs) \<le> 1 \<longleftrightarrow> (\<forall>g \<in> set gs. count_true I g \<le> 1) \<and> count_true I (map ps_mk_or gs) \<le> 1)"
  proof (induction gs)
    case (Cons g gs)
    then show ?case
      by (cases "count_true I g = 0"; cases "count_true I (concat gs) = 0") (auto simp: psort_simps zero)
  qed simp
  then show "count_true I (map ps_mk_or gs) = 0 \<longleftrightarrow> count_true I (concat gs) = 0"
    "count_true I (concat gs) \<le> 1 \<longleftrightarrow> (\<forall>g \<in> set gs. count_true I g \<le> 1) \<and> count_true I (map ps_mk_or gs) \<le> 1"
    by blast+
qed

lemma count_chunks:
  assumes "0 < inc"
  shows "count_true I (map ps_mk_or (chunks inc xs)) = 0 \<longleftrightarrow> count_true I xs = 0"
    "count_true I xs \<le> 1 \<longleftrightarrow> (\<forall>g \<in> set (chunks inc xs). count_true I g \<le> 1) \<and> count_true I (map ps_mk_or (chunks inc xs)) \<le> 1"
  using count_groups [where gs = "chunks inc xs"] concat_chunks [OF assms, of xs] by simp_all

lemma known_chunks:
  assumes "0 < inc" "\<forall>x \<in> set xs. known n x"
  shows "\<forall>g \<in> set (chunks inc xs). g \<noteq> [] \<and> (\<forall>x \<in> set g. known n x)" "\<forall>x \<in> set (map ps_mk_or (chunks inc xs)). known n x"
proof -
  have "g \<in> set (chunks inc xs) \<Longrightarrow> set g \<subseteq> set xs" for g
    using concat_chunks [OF assms(1), of xs] set_concat [of "chunks inc xs"] by auto
  then show "\<forall>g \<in> set (chunks inc xs). g \<noteq> [] \<and> (\<forall>x \<in> set g. known n x)"
    using chunks_not_Nil assms(2) by blast
  then show "\<forall>x \<in> set (map ps_mk_or (chunks inc xs)). known n x" by (auto intro!: known_mk_or)
qed

lemma at_most_1_loop_ok:
  assumes "wf_psort s" "knowns s xs" "known (m_next_const s) r" "xs \<noteq> []"
    and "at_most_1_loop full use_ors r d xs ors ands s = (ors', ands', s')"
  shows "(\<exists>news. ands' = ands @ news \<and> restricts full s s' r news (\<lambda>I. count_true I xs \<le> 1))
    \<and> (use_ors \<longrightarrow> (\<forall>n. (\<forall>x \<in> set xs. known n x) \<longrightarrow> (\<forall>x \<in> set ors'. known n x))
        \<and> (\<forall>I. count_true I ors' = 0 \<longleftrightarrow> count_true I xs = 0))"
  using assms
proof (induction full use_ors r d xs ors ands s arbitrary: ors' ands' s' rule: at_most_1_loop.induct)
  case (1 full use_ors r d xs ors ands s)
  note wf = 1(2-5)
  define d' where "d' = (if length xs + 1 = 4 + d then d + 1 else d)"
  obtain o1 a1 s1 where run1: "at_most_1_groups full (use_ors \<or> length xs > 4 + d') r (chunks (4 + d') xs) [] ands s = (o1, a1, s1)"
    by (metis prod_cases3)
  note gs = known_chunks [of "4 + d'" xs "m_next_const s", OF _ wf(2)]
  have o1: "o1 = (if use_ors \<or> length xs > 4 + d' then map ps_mk_or (chunks (4 + d') xs) else [])"
    using at_most_1_groups_ors [OF run1] by simp
  obtain n1 where n1: "a1 = ands @ n1" "restricts full s s1 r n1 (\<lambda>I. \<forall>g \<in> set (chunks (4 + d') xs). count_true I g \<le> 1)"
    using groups_restricts [OF wf(1,3) _ run1] gs(1) by auto
  have ors: "(\<forall>x \<in> set xs. known n x) \<Longrightarrow> (\<forall>x \<in> set o1. known n x)" "use_ors \<or> length xs > 4 + d' \<Longrightarrow> count_true I o1 = 0 \<longleftrightarrow> count_true I xs = 0" for n I
  proof -
    show "(\<forall>x \<in> set xs. known n x) \<Longrightarrow> (\<forall>x \<in> set o1. known n x)"
      using known_chunks(2) [of "4 + d'" xs n] by (auto simp: o1)
    show "use_ors \<or> length xs > 4 + d' \<Longrightarrow> count_true I o1 = 0 \<longleftrightarrow> count_true I xs = 0"
      using count_chunks(1) [of "4 + d'" I xs] by (simp add: o1)
  qed
  have step: "at_most_1_loop full use_ors r d xs ors ands s =
      (if length xs \<le> 4 + d' then (o1, a1, s1) else at_most_1_loop full use_ors r d' o1 o1 a1 s1)"
    using wf(4) run1 by (subst at_most_1_loop.simps, unfold Let_def d'_def [symmetric]) simp
  show ?case
  proof (cases "length xs \<le> 4 + d'")
    case True
    then have res: "ors' = o1" "ands' = a1" "s' = s1" using 1(6) step by simp_all
    have "chunks (4 + d') xs = [xs]"
      using True wf(4) by (subst chunks.simps) (simp add: chunks.simps [of "4 + d'" "[]"])
    then have "restricts full s s1 r n1 (\<lambda>I. count_true I xs \<le> 1)" using n1(2) by simp
    then show ?thesis using n1(1) ors unfolding res by auto
  next
    case False
    then have run2: "at_most_1_loop full use_ors r d' o1 o1 a1 s1 = (ors', ands', s')" using 1(6) step by simp
    have o1': "o1 = map ps_mk_or (chunks (4 + d') xs)" using False o1 by simp
    note d1 = restrictsD [OF n1(2)]
    have ne: "o1 \<noteq> []" unfolding o1' using wf(4) by (subst chunks.simps) simp
    have known1: "knowns s o1" using ors(1) wf(2) .
    have IH: "(\<exists>news. ands' = a1 @ news \<and> restricts full s1 s' r news (\<lambda>I. count_true I o1 \<le> 1))
      \<and> (use_ors \<longrightarrow> (\<forall>n. (\<forall>x \<in> set o1. known n x) \<longrightarrow> (\<forall>x \<in> set ors'. known n x))
        \<and> (\<forall>I. count_true I ors' = 0 \<longleftrightarrow> count_true I o1 = 0))"
      by (rule 1(1) [OF wf(4) refl d'_def run1 [symmetric] refl refl False d1(1) knowns_mono [OF known1 d1(2)]
          known_mono [OF wf(3) d1(2)] ne run2])
    then obtain n2 where n2: "ands' = a1 @ n2" "restricts full s1 s' r n2 (\<lambda>I. count_true I o1 \<le> 1)" by blast
    have "restricts full s s' r (n1 @ n2) (\<lambda>I. (\<forall>g \<in> set (chunks (4 + d') xs). count_true I g \<le> 1) \<and> count_true I o1 \<le> 1)"
      by (rule restricts_seq [OF n1(2) n2(2) wf(3)], drule count_true_agree [OF _ known1], simp)
    then have "restricts full s s' r (n1 @ n2) (\<lambda>I. count_true I xs \<le> 1)"
      by (rule restricts_cong) (use count_chunks(2) [of "4 + d'" _ xs] o1' in simp)
    moreover have "use_ors \<longrightarrow> (\<forall>n. (\<forall>x \<in> set xs. known n x) \<longrightarrow> (\<forall>x \<in> set ors'. known n x))
        \<and> (\<forall>I. count_true I ors' = 0 \<longleftrightarrow> count_true I xs = 0)"
      using IH ors False by auto
    ultimately show ?thesis using n1(1) n2(1) by auto
  qed
qed

text \<open>
  What the encodings of at most one give: as \<open>reifies\<close>, but without \<open>full\<close> the literal can also be made
  false when the constraint holds.
\<close>

definition at_most_one :: "bool \<Rightarrow> psort \<Rightarrow> psort \<Rightarrow> expr \<Rightarrow> expr list \<Rightarrow> bool" where
  "at_most_one full s s' r xs \<longleftrightarrow>
    wf_psort s' \<and> m_next_const s \<le> m_next_const s' \<and> known (m_next_const s') r
    \<and> (\<forall>I. sat I s' \<longrightarrow> sat I s)
    \<and> (\<forall>I. sat I s' \<longrightarrow> holds I r \<longrightarrow> count_true I xs \<le> 1)
    \<and> (\<forall>I. full \<longrightarrow> sat I s' \<longrightarrow> count_true I xs \<le> 1 \<longrightarrow> holds I r)
    \<and> (\<forall>I b. sat I s \<longrightarrow> (b \<longrightarrow> count_true I xs \<le> 1) \<longrightarrow> (full \<longrightarrow> count_true I xs \<le> 1 \<longrightarrow> b) \<longrightarrow>
        (\<exists>J. agree (m_next_const s) I J \<and> sat J s' \<and> holds J r = b))"

lemma at_most_one_reifies:
  assumes "at_most_one full s s' r xs"
  shows "reifies full s s' r (\<lambda>I. count_true I xs \<le> 1)"
  using assms unfolding at_most_one_def reifies_def by blast

lemma mk_at_most_1_ok:
  assumes wf: "wf_psort s" "knowns s xs" "xs \<noteq> []" and run: "mk_at_most_1 full xs use_ors s = (r, ors, s')"
  shows "at_most_one full s s' r xs
    \<and> (use_ors \<longrightarrow> knowns s ors \<and> (\<forall>I. count_true I ors = 0 \<longleftrightarrow> count_true I xs = 0))"
proof -
  let ?r = "const (m_next_const s)" and ?s = "s\<lparr>m_next_const := Suc (m_next_const s)\<rparr>"
  obtain ands s1 where loop: "at_most_1_loop full use_ors ?r 0 xs [] [?r] ?s = (ors, ands, s1)"
    and r: "r = ?r" and s': "s' = (if full then add_clauses [ands] s1 else s1)"
    using run by (auto simp: mk_at_most_1_def fresh_const_def Let_def split: prod.splits)
  have wf1: "wf_psort ?s" "knowns ?s xs" "known (m_next_const ?s) ?r"
    using wf wf_next [OF wf(1)] by (auto intro: known_mono)
  note ok = at_most_1_loop_ok [OF wf1 wf(3) loop]
  then obtain news where news: "ands = ?r # news" "restricts full ?s s1 ?r news (\<lambda>I. count_true I xs \<le> 1)" by auto
  note d = restrictsD [OF news(2)]
  have kn: "known (m_next_const s1) ?r" using wf1(3) d(2) by (rule known_mono)
  have "at_most_one full s s' ?r xs"
    unfolding at_most_one_def
  proof (intro conjI allI impI)
    show "wf_psort s'" unfolding s' using d(1,3) kn news(1) by (auto intro!: wf_add_clauses)
    show "m_next_const s \<le> m_next_const s'" "known (m_next_const s') ?r" using d(2) kn by (simp_all add: s')
    fix I
    show "sat I s" if "sat I s'" using that d(4) [of I] by (auto simp: s' split: if_splits)
    show "count_true I xs \<le> 1" if "sat I s'" "holds I ?r" using that d(5) [of I] by (auto simp: s' split: if_splits)
    show "holds I ?r" if "full" "sat I s'" "count_true I xs \<le> 1"
      using that d(6) [of I] news(1) by (auto simp: s' clause_true_def)
    fix b
    assume I: "sat I s" "b \<longrightarrow> count_true I xs \<le> 1" "full \<longrightarrow> count_true I xs \<le> 1 \<longrightarrow> b"
    obtain J where J: "agree (m_next_const s) I J" "sat J s" "holds J ?r = b" by (rule fresh_extend [OF wf(1) I(1)])
    have c: "count_true J xs = count_true I xs" using count_true_agree [OF J(1) wf(2)] by simp
    have "sat J ?s" "holds J ?r \<Longrightarrow> count_true J xs \<le> 1" using J(2,3) I(2) c by simp_all
    from d(7) [OF this] obtain K where K: "agree (m_next_const ?s) J K" "sat K s1"
      "full \<longrightarrow> (\<forall>l \<in> set news. \<not> holds K l) \<longrightarrow> count_true J xs \<le> 1" by blast
    have rK: "holds K ?r = b" using holds_agree [OF K(1) wf1(3)] J(3) by simp
    have "full \<Longrightarrow> \<not> b \<Longrightarrow> \<exists>l \<in> set news. holds K l" using K(3) c I(3) by auto
    then have "sat K s'" using K(2) rK news(1) by (auto simp: s' clause_true_def)
    moreover have "agree (m_next_const s) I K" using agree_trans [OF J(1) K(1)] by simp
    ultimately show "\<exists>J. agree (m_next_const s) I J \<and> sat J s' \<and> holds J ?r = b" using rK by blast
  qed
  then show ?thesis using ok wf(2) by (auto simp: r)
qed

subsection \<open>The bimander encoding\<close>

lemma bimander_nbits_le: "m \<le> 2 ^ bimander_nbits n m"
proof (induction n m rule: bimander_nbits.induct)
  case (1 n m)
  then show ?case by (subst bimander_nbits.simps) auto
qed

lemma bits_differ:
  "i \<noteq> j \<Longrightarrow> i < 2 ^ n \<Longrightarrow> j < 2 ^ n \<Longrightarrow> \<exists>k < n. odd (i div 2 ^ k) \<noteq> odd (j div 2 ^ k)" for i j :: nat
proof (induction n arbitrary: i j)
  case (Suc n)
  show ?case
  proof (cases "odd i = odd j")
    case True
    then have "i div 2 \<noteq> j div 2" using Suc.prems(1) by (metis bit_eq_rec even_of_nat)
    moreover have "i div 2 < 2 ^ n" "j div 2 < 2 ^ n" using Suc.prems(2,3) by auto
    ultimately obtain k where "k < n" "odd (i div 2 div 2 ^ k) \<noteq> odd (j div 2 div 2 ^ k)" using Suc.IH by blast
    then show ?thesis by (intro exI [of _ "Suc k"]) (simp add: div_mult2_eq)
  qed (intro exI [of _ 0], simp)
qed simp

definition bimander_clauses :: "expr \<Rightarrow> expr list \<Rightarrow> nat \<Rightarrow> expr list \<Rightarrow> expr list list" where
  "bimander_clauses r ors nbits bits =
    concat (map (\<lambda>i. map (\<lambda>k. [ps_mk_not r, ps_mk_not (ors ! i), if odd (i div 2 ^ k) then bits ! k else ps_mk_not (bits ! k)])
      [0..<nbits]) [0..<length ors])"

lemma bimander_clauses_true:
  "clauses_true I (bimander_clauses r ors nbits bits) \<longleftrightarrow>
    (\<forall>i < length ors. \<forall>k < nbits. holds I r \<longrightarrow> holds I (ors ! i) \<longrightarrow> holds I (bits ! k) = odd (i div 2 ^ k))"
  unfolding bimander_clauses_def by (auto simp: psort_simps)

lemma bimander_restricts:
  fixes s :: psort and r :: expr
  assumes wf: "wf_psort s" "knowns s ors" "known (m_next_const s) r" and n: "length ors \<le> 2 ^ n"
    and bits: "freshes n s = (bits, t)"
  shows "restricts False s (add_clauses (bimander_clauses r ors n bits) t) r [] (\<lambda>I. count_true I ors \<le> 1)"
proof -
  have b: "bits = map const [m_next_const s..<m_next_const s + n]" "t = s\<lparr>m_next_const := m_next_const s + n\<rparr>"
    using bits by (simp_all add: freshes_eq)
  let ?s' = "add_clauses (bimander_clauses r ors n bits) t"
  show ?thesis
    unfolding restricts_def
  proof (intro conjI allI impI)
    have "\<forall>l \<in> set ors. known (m_next_const s + n) l" "known (m_next_const s + n) r"
      using wf(2,3) by (auto intro: known_mono)
    then have "\<forall>c \<in> set (bimander_clauses r ors n bits). knowns t c"
      by (auto simp: bimander_clauses_def b)
    then show "wf_psort ?s'" using wf_next [OF wf(1)] by (intro wf_add_clauses) (simp_all add: b(2))
    show "m_next_const s \<le> m_next_const ?s'" by (simp add: b(2))
    fix I
    show "sat I s" if "sat I ?s'" using that by (simp add: b(2))
    show "count_true I ors \<le> 1" if "sat I ?s'" "holds I r"
      unfolding count_le_1_nth
    proof (intro allI impI notI)
      fix i j
      assume ij: "i < length ors" "j < length ors" "i < j" "holds I (ors ! i) \<and> holds I (ors ! j)"
      obtain k where k: "k < n" "odd (i div 2 ^ k) \<noteq> odd (j div 2 ^ k)" using bits_differ [of i j n] ij n by auto
      have "\<forall>i < length ors. \<forall>k < n. holds I r \<longrightarrow> holds I (ors ! i) \<longrightarrow> holds I (bits ! k) = odd (i div 2 ^ k)"
        using that(1) by (simp add: bimander_clauses_true)
      then show False using ij k that(2) by blast
    qed
    assume I: "sat I s" "holds I r \<longrightarrow> count_true I ors \<le> 1"
    have "\<exists>i. \<forall>j < length ors. holds I r \<longrightarrow> holds I (ors ! j) \<longrightarrow> j = i"
    proof (cases "\<exists>i < length ors. holds I (ors ! i)")
      case True
      then obtain i where i: "i < length ors" "holds I (ors ! i)" by blast
      have "j = i" if "j < length ors" "holds I r" "holds I (ors ! j)" for j
      proof (rule ccontr)
        assume "j \<noteq> i"
        then have "i < j \<or> j < i" by arith
        moreover have "\<forall>a < length ors. \<forall>b < length ors. a < b \<longrightarrow> \<not> (holds I (ors ! a) \<and> holds I (ors ! b))"
          using I(2) that(2) unfolding count_le_1_nth by blast
        ultimately show False using that i by blast
      qed
      then show ?thesis by blast
    qed blast
    then obtain i where i: "\<And>j. holds I r \<Longrightarrow> j < length ors \<Longrightarrow> holds I (ors ! j) \<Longrightarrow> j = i" by blast
    define J where "J = set_consts I (m_next_const s) (\<lambda>k. odd (i div 2 ^ k))"
    have ag: "agree (m_next_const s) I J" by (simp add: J_def)
    have same: "holds J r = holds I r" "\<And>j. j < length ors \<Longrightarrow> holds J (ors ! j) = holds I (ors ! j)"
      using holds_agree [OF ag] wf(2,3) by simp_all
    have "clauses_true J (bimander_clauses r ors n bits)"
      unfolding bimander_clauses_true using i same by (auto simp: b(1) J_def)
    then have "sat J ?s'" using sat_agree [OF wf(1) ag I(1)] by (simp add: b(2))
    then show "\<exists>J. agree (m_next_const s) I J \<and> sat J ?s' \<and> (False \<longrightarrow> (\<forall>l \<in> set []. \<not> holds J l) \<longrightarrow> count_true I ors \<le> 1)"
      using ag by blast
  qed simp_all
qed

lemma mk_at_most_1_bimander_ok:
  assumes wf: "wf_psort s" "knowns s xs" "xs \<noteq> []" and run: "mk_at_most_1_bimander full xs s = (r, ors, s')"
  shows "at_most_one full s s' r xs \<and> knowns s ors \<and> (\<forall>I. count_true I ors = 0 \<longleftrightarrow> count_true I xs = 0)"
proof (cases full)
  case True
  then show ?thesis using mk_at_most_1_ok [OF wf, of full True r ors s'] run by (simp add: mk_at_most_1_bimander_def)
next
  case False
  let ?r = "const (m_next_const s)" and ?s = "s\<lparr>m_next_const := Suc (m_next_const s)\<rparr>"
  obtain o1 ands s1 where groups: "at_most_1_groups False True ?r (chunks 2 xs) [] [] ?s = (o1, ands, s1)" by (metis prod_cases3)
  obtain bits t where bits: "freshes (bimander_nbits 0 (length o1)) s1 = (bits, t)" by (metis surj_pair)
  have res: "r = ?r" "ors = o1" "s' = add_clauses (bimander_clauses ?r o1 (bimander_nbits 0 (length o1)) bits) t"
    using run False groups bits by (auto simp: mk_at_most_1_bimander_def fresh_const_def Let_def bimander_clauses_def)
  have wf1: "wf_psort ?s" "knowns ?s xs" "known (m_next_const ?s) ?r"
    using wf wf_next [OF wf(1)] by (auto intro: known_mono)
  have o1: "o1 = map ps_mk_or (chunks 2 xs)" using at_most_1_groups_ors [OF groups] by simp
  obtain n1 where g: "restricts False ?s s1 ?r n1 (\<lambda>I. \<forall>g \<in> set (chunks 2 xs). count_true I g \<le> 1)"
    using groups_restricts [OF wf1(1,3) _ groups] known_chunks(1) [of 2 xs, OF _ wf1(2)] by auto
  note d = restrictsD [OF g]
  have known0: "\<forall>l \<in> set o1. known n l" if "\<forall>x \<in> set xs. known n x" for n
    using known_chunks(2) [of 2 xs n] that o1 by simp
  have b: "restricts False s1 s' ?r [] (\<lambda>I. count_true I o1 \<le> 1)"
    unfolding res(3)
    by (rule bimander_restricts [OF d(1) knowns_mono [OF known0 [OF wf1(2)] d(2)] known_mono [OF wf1(3) d(2)] bimander_nbits_le bits])
  have "restricts False ?s s' ?r (n1 @ []) (\<lambda>I. (\<forall>g \<in> set (chunks 2 xs). count_true I g \<le> 1) \<and> count_true I o1 \<le> 1)"
    by (rule restricts_seq [OF g b wf1(3)], drule count_true_agree [OF _ known0 [OF wf1(2)]], simp)
  then have all: "restricts False ?s s' ?r n1 (\<lambda>I. count_true I xs \<le> 1)"
    using restricts_cong [OF _ count_chunks(2) [of 2 _ xs, symmetric]] o1 by simp
  note e = restrictsD [OF all]
  have "at_most_one full s s' ?r xs"
    unfolding at_most_one_def
  proof (intro conjI allI impI)
    show "wf_psort s'" by (rule e)
    show "m_next_const s \<le> m_next_const s'" using e(2) by simp
    show "known (m_next_const s') ?r" using wf1(3) e(2) by (rule known_mono)
    fix I
    show "sat I s" if "sat I s'" using e(4) [OF that] by simp
    show "count_true I xs \<le> 1" if "sat I s'" "holds I ?r" using e(5) that by blast
    show "holds I ?r" if "full" using that False by simp
    fix b
    assume I: "sat I s" "b \<longrightarrow> count_true I xs \<le> 1"
    obtain J where J: "agree (m_next_const s) I J" "sat J s" "holds J ?r = b" by (rule fresh_extend [OF wf(1) I(1)])
    have "sat J ?s" "holds J ?r \<Longrightarrow> count_true J xs \<le> 1"
      using J I(2) count_true_agree [OF J(1) wf(2)] by simp_all
    from e(7) [OF this] obtain K where K: "agree (m_next_const ?s) J K" "sat K s'" by blast
    then show "\<exists>J. agree (m_next_const s) I J \<and> sat J s' \<and> holds J ?r = b"
      using agree_trans [OF J(1) K(1)] holds_agree [OF K(1) wf1(3)] J(3) by (intro exI [of _ K]) auto
  qed
  moreover have "count_true I o1 = 0 \<longleftrightarrow> count_true I xs = 0" for I using count_chunks(1) [of 2 I xs] o1 by simp
  ultimately show ?thesis using known0 [OF wf(2)] unfolding res(1,2) by blast
qed

end
