(* ===== verification/Psort_Exactly.thy ===== *)
theory Psort_Exactly
  imports Psort_One
begin

text \<open>
  Cardinality constraints, seventh part: the ordered encoding of at most one and exactly one, and
  exactly one from the other encodings.
\<close>

subsection \<open>The ordered encoding\<close>

definition prefix_true :: "interp \<Rightarrow> expr list \<Rightarrow> nat \<Rightarrow> bool" where
  "prefix_true I xs i \<longleftrightarrow> (\<exists>j \<le> i. holds I (xs ! j))"

definition two_true :: "interp \<Rightarrow> expr list \<Rightarrow> nat \<Rightarrow> bool" where
  "two_true I xs i \<longleftrightarrow> (\<exists>j \<le> i. prefix_true I xs j \<and> holds I (xs ! (j + 1)))"

lemma prefix_true_simps:
  "prefix_true I xs 0 \<longleftrightarrow> holds I (xs ! 0)"
  "prefix_true I xs (Suc i) \<longleftrightarrow> prefix_true I xs i \<or> holds I (xs ! Suc i)"
  by (auto simp: prefix_true_def le_Suc_eq)

lemma two_true_simps:
  "two_true I xs 0 \<longleftrightarrow> holds I (xs ! 0) \<and> holds I (xs ! 1)"
  "two_true I xs (Suc i) \<longleftrightarrow> two_true I xs i \<or> prefix_true I xs (Suc i) \<and> holds I (xs ! Suc (Suc i))"
  by (auto simp: two_true_def prefix_true_simps le_Suc_eq)

lemma two_true_count:
  assumes "length xs = Suc (Suc m)"
  shows "two_true I xs m \<longleftrightarrow> \<not> count_true I xs \<le> 1"
proof
  assume "two_true I xs m"
  then obtain j i where "j \<le> m" "i \<le> j" "holds I (xs ! i)" "holds I (xs ! (j + 1))"
    by (auto simp: two_true_def prefix_true_def)
  moreover from this have "i < length xs" "j + 1 < length xs" "i < j + 1" using assms by auto
  ultimately show "\<not> count_true I xs \<le> 1" unfolding count_le_1_nth by blast
next
  assume "\<not> count_true I xs \<le> 1"
  then obtain i j where ij: "i < length xs" "j < length xs" "i < j" "holds I (xs ! i)" "holds I (xs ! j)"
    unfolding count_le_1_nth by blast
  then have "j - 1 \<le> m" "i \<le> j - 1" "j - 1 + 1 = j" using assms by auto
  then show "two_true I xs m" unfolding two_true_def prefix_true_def using ij(4,5) by metis
qed

lemma prefix_true_count:
  assumes "length xs = Suc m"
  shows "prefix_true I xs m \<longleftrightarrow> count_true I xs \<noteq> 0"
  using assms by (simp add: prefix_true_def count_true_def filter_empty_conv Bex_def [symmetric] flip: less_Suc_eq_le)
    (metis in_set_conv_nth)

lemma prefix_links:
  assumes "0 < m"
  shows "(\<forall>i < m - 1. y i \<longrightarrow> y (Suc i)) \<and> (\<forall>i < m. holds I (xs ! i) \<longrightarrow> y i)
      \<and> (\<forall>i \<in> {1..<m}. y i \<longrightarrow> holds I (xs ! i) \<or> y (i - 1)) \<and> (y 0 \<longrightarrow> holds I (xs ! 0))
    \<longleftrightarrow> (\<forall>i < m. y i = prefix_true I xs i)"
proof
  assume h: "(\<forall>i < m - 1. y i \<longrightarrow> y (Suc i)) \<and> (\<forall>i < m. holds I (xs ! i) \<longrightarrow> y i)
      \<and> (\<forall>i \<in> {1..<m}. y i \<longrightarrow> holds I (xs ! i) \<or> y (i - 1)) \<and> (y 0 \<longrightarrow> holds I (xs ! 0))"
  show "\<forall>i < m. y i = prefix_true I xs i"
  proof (intro allI impI)
    fix i
    assume "i < m"
    then show "y i = prefix_true I xs i"
    proof (induction i)
      case (Suc i)
      have "Suc i \<in> {1..<m}" "i < m - 1" using Suc.prems by auto
      then have "y (Suc i) \<longrightarrow> holds I (xs ! Suc i) \<or> y (Suc i - 1)" "y i \<longrightarrow> y (Suc i)" "holds I (xs ! Suc i) \<longrightarrow> y (Suc i)"
        using h Suc.prems by blast+
      then show ?case using Suc by (auto simp: prefix_true_simps)
    qed (use h in \<open>auto simp: prefix_true_simps\<close>)
  qed
next
  assume h: "\<forall>i < m. y i = prefix_true I xs i"
  have "y i \<longrightarrow> y (Suc i)" if "i < m - 1" for i using h that by (simp add: prefix_true_simps)
  moreover have "holds I (xs ! i) \<longrightarrow> y i" if "i < m" for i using h that by (auto simp: prefix_true_def)
  moreover have "y i \<longrightarrow> holds I (xs ! i) \<or> y (i - 1)" if "i \<in> {1..<m}" for i
    using h that by (cases i) (auto simp: prefix_true_simps)
  moreover have "y 0 \<longrightarrow> holds I (xs ! 0)" using h assms by (simp add: prefix_true_simps)
  ultimately show "(\<forall>i < m - 1. y i \<longrightarrow> y (Suc i)) \<and> (\<forall>i < m. holds I (xs ! i) \<longrightarrow> y i)
      \<and> (\<forall>i \<in> {1..<m}. y i \<longrightarrow> holds I (xs ! i) \<or> y (i - 1)) \<and> (y 0 \<longrightarrow> holds I (xs ! 0))" by blast
qed

definition one_count :: "bool \<Rightarrow> interp \<Rightarrow> expr list \<Rightarrow> bool" where
  "one_count exactly I xs \<longleftrightarrow> count_true I xs \<le> 1 \<and> (exactly \<longrightarrow> count_true I xs = 1)"

lemma ordered_base_true:
  assumes n: "length xs = Suc (Suc m)"
  shows "clauses_true I (ordered_base xs r ys exactly) \<longleftrightarrow>
    (\<forall>i < Suc m. holds I (ys ! i) = prefix_true I xs i) \<and> (holds I r \<longrightarrow> one_count exactly I xs)"
proof -
  let ?y = "\<lambda>i. holds I (ys ! i)"
  have c: "clauses_true I (ordered_base xs r ys exactly) \<longleftrightarrow>
    ((\<forall>i < Suc m - 1. ?y i \<longrightarrow> ?y (Suc i)) \<and> (\<forall>i < Suc m. holds I (xs ! i) \<longrightarrow> ?y i)
      \<and> (\<forall>i \<in> {1..<Suc m}. ?y i \<longrightarrow> holds I (xs ! i) \<or> ?y (i - 1)) \<and> (?y 0 \<longrightarrow> holds I (xs ! 0)))
    \<and> (\<forall>i < Suc m. holds I r \<longrightarrow> ?y i \<longrightarrow> \<not> holds I (xs ! (i + 1)))
    \<and> (exactly \<longrightarrow> holds I r \<longrightarrow> ?y m \<or> holds I (xs ! Suc m))"
    unfolding ordered_base_def Let_def clauses_true_simps set_upt using n by (auto simp: psort_simps Ball_def)
  have two: "(\<forall>i < Suc m. prefix_true I xs i \<longrightarrow> \<not> holds I (xs ! (i + 1))) \<longleftrightarrow> count_true I xs \<le> 1"
    using two_true_count [OF n] by (auto simp: two_true_def less_Suc_eq_le)
  have one: "prefix_true I xs m \<or> holds I (xs ! Suc m) \<longleftrightarrow> count_true I xs \<noteq> 0"
    using prefix_true_count [OF n, of I] by (simp add: prefix_true_simps)
  show ?thesis
    unfolding c prefix_links [of "Suc m" ?y I xs, OF zero_less_Suc] one_count_def
    using two one by (auto simp: le_Suc_eq)
qed

lemma ordered_twos_true:
  assumes n: "length xs = Suc (Suc m)" and y: "\<forall>i < Suc m. holds I (ys ! i) = prefix_true I xs i"
  shows "clauses_true I (ordered_twos xs ys twos) \<Longrightarrow> holds I (twos ! m) \<Longrightarrow> \<not> count_true I xs \<le> 1"
    and "(\<And>i. i < Suc m \<Longrightarrow> holds I (twos ! i) = two_true I xs i) \<Longrightarrow> clauses_true I (ordered_twos xs ys twos)"
proof -
  have c: "clauses_true I (ordered_twos xs ys twos) \<longleftrightarrow>
      (holds I (twos ! 0) \<longrightarrow> prefix_true I xs 0 \<and> holds I (xs ! 1))
      \<and> (\<forall>i \<in> {1..<Suc m}. holds I (twos ! i) \<longrightarrow> prefix_true I xs i \<and> holds I (xs ! (i + 1)) \<or> holds I (twos ! (i - 1)))"
    unfolding ordered_twos_def clauses_true_simps set_upt using n y by (auto simp: psort_simps Ball_def)
  show "clauses_true I (ordered_twos xs ys twos) \<Longrightarrow> holds I (twos ! m) \<Longrightarrow> \<not> count_true I xs \<le> 1"
  proof -
    assume h: "clauses_true I (ordered_twos xs ys twos)" "holds I (twos ! m)"
    have "i < Suc m \<Longrightarrow> holds I (twos ! i) \<longrightarrow> two_true I xs i" for i
    proof (induction i)
      case 0
      then show ?case using h(1) unfolding c by (simp add: two_true_simps prefix_true_simps)
    next
      case (Suc i)
      have "Suc i \<in> {1..<Suc m}" using Suc.prems by simp
      then have "holds I (twos ! Suc i) \<longrightarrow> prefix_true I xs (Suc i) \<and> holds I (xs ! (Suc i + 1)) \<or> holds I (twos ! (Suc i - 1))"
        using h(1) unfolding c by blast
      then show ?case using Suc by (auto simp: two_true_simps)
    qed
    then show ?thesis using h(2) two_true_count [OF n, of I] by simp
  qed
  assume h: "\<And>i. i < Suc m \<Longrightarrow> holds I (twos ! i) = two_true I xs i"
  have "holds I (twos ! i) \<longrightarrow> prefix_true I xs i \<and> holds I (xs ! (i + 1)) \<or> holds I (twos ! (i - 1))" if "i \<in> {1..<Suc m}" for i
    using that h by (cases i) (auto simp: two_true_simps)
  then show "clauses_true I (ordered_twos xs ys twos)" unfolding c using h by (auto simp: two_true_simps prefix_true_simps)
qed

definition ordered_full :: "expr list \<Rightarrow> expr \<Rightarrow> expr list \<Rightarrow> expr list \<Rightarrow> expr \<Rightarrow> bool \<Rightarrow> expr list list" where
  "ordered_full xs r ys twos zero exactly =
    ordered_twos xs ys twos
    @ (if exactly then
        [[ps_mk_not zero, ps_mk_not (xs ! (length xs - 1))], [ps_mk_not zero, ps_mk_not (ys ! (length xs - 2))], [r, zero, last twos]]
       else [[r, last twos]])"

lemma add_clauses_Nil: "add_clauses [] s = s"
  by (simp add: add_clauses_def)

lemma mk_ordered_1_run:
  fixes s :: psort and xs :: "expr list"
  defines "N \<equiv> m_next_const s" and "n \<equiv> length xs"
  assumes n: "2 \<le> length xs"
  shows "mk_ordered_1 full exactly xs s =
    (const N, add_clauses
      (ordered_base xs (const N) (map const [N + 1..<N + n]) exactly
       @ (if full then ordered_full xs (const N) (map const [N + 1..<N + n]) (map const [N + n..<N + 2 * n - 1]) (const (N + 2 * n - 1)) exactly
          else []))
      (s\<lparr>m_next_const := N + (if full then if exactly then 2 * n else 2 * n - 1 else n)\<rparr>))"
proof -
  have "Suc N + (n - Suc 0) = N + n" "N + n + (n - Suc 0) = N + 2 * n - 1" "Suc (N + 2 * n - 1) = N + 2 * n"
    using n by (simp_all add: n_def)
  then show ?thesis
    using n by (simp add: mk_ordered_1_def fresh_const_def freshes_eq Let_def add_clauses_next ordered_full_def N_def [symmetric]
        n_def [symmetric] add_clauses_append [symmetric] add_clauses_Nil)
qed

lemma mk_ordered_1_reifies:
  assumes wf: "wf_psort s" "knowns s xs" and run: "mk_ordered_1 full exactly xs s = (r, s')"
  shows "reifies full s s' r (\<lambda>I. one_count exactly I xs)"
proof (cases "length xs < 2")
  case True
  then consider "xs = []" | x where "xs = [x]" by (cases xs) auto
  then show ?thesis
  proof cases
    case 1
    then have "r = (if exactly then FalseE else TrueE)" "s' = s" using run by (auto simp: mk_ordered_1_def split: if_splits)
    then show ?thesis using 1 wf(1) by (auto intro!: reifies_gate simp: one_count_def)
  next
    case 2
    then have "r = (if exactly then x else TrueE)" "s' = s" using run by (auto simp: mk_ordered_1_def split: if_splits)
    then show ?thesis using 2 wf by (auto intro!: reifies_gate simp: one_count_def)
  qed
next
  case False
  then obtain m where m: "length xs = Suc (Suc m)" by (cases "length xs"; cases "length xs - 1") auto
  define N where "N = m_next_const s"
  define ys where "ys = map const [N + 1..<N + length xs]"
  define twos where "twos = map const [N + length xs..<N + 2 * length xs - 1]"
  define zero where "zero = const (N + 2 * length xs - 1)"
  define M where "M = N + (if full then if exactly then 2 * length xs else 2 * length xs - 1 else length xs)"
  define cs where "cs = ordered_base xs (const N) ys exactly @ (if full then ordered_full xs (const N) ys twos zero exactly else [])"
  have r: "r = const N" and s': "s' = add_clauses cs (s\<lparr>m_next_const := M\<rparr>)"
    using run mk_ordered_1_run [of xs full exactly s] m by (auto simp: N_def ys_def twos_def zero_def M_def cs_def)
  have NM: "N < M" using m by (simp add: M_def)
  have ysM: "\<And>i. i < Suc m \<Longrightarrow> ys ! i = const (N + 1 + i) \<and> N + 1 + i < M" using m by (simp add: ys_def M_def del: upt_Suc)
  have twosM: "\<And>i. i < Suc m \<Longrightarrow> twos ! i = const (N + length xs + i)" "full \<Longrightarrow> i < Suc m \<Longrightarrow> N + length xs + i < M" for i
    using m by (simp_all add: twos_def M_def del: upt_Suc)
  have last: "last twos = twos ! m" using m by (simp add: twos_def last_conv_nth del: upt_Suc)
  have sat': "sat I s' \<longleftrightarrow> sat I s \<and> clauses_true I cs" for I by (simp add: s')
  have base: "clauses_true I (ordered_base xs (const N) ys exactly) \<longleftrightarrow>
      (\<forall>i < Suc m. holds I (ys ! i) = prefix_true I xs i) \<and> (holds I (const N) \<longrightarrow> one_count exactly I xs)" for I
    by (rule ordered_base_true [OF m])
  have zero': "prefix_true I xs m \<or> holds I (xs ! Suc m) \<longleftrightarrow> count_true I xs \<noteq> 0" for I
    using prefix_true_count [OF m, of I] by (simp add: prefix_true_simps)
  have full: "clauses_true I (ordered_full xs (const N) ys twos zero exactly) \<longleftrightarrow>
      clauses_true I (ordered_twos xs ys twos)
      \<and> (exactly \<longrightarrow> (holds I zero \<longrightarrow> count_true I xs = 0) \<and> (holds I (const N) \<or> holds I zero \<or> holds I (twos ! m)))
      \<and> (\<not> exactly \<longrightarrow> holds I (const N) \<or> holds I (twos ! m))"
    if "\<forall>i < Suc m. holds I (ys ! i) = prefix_true I xs i" for I
    using that zero' [of I] m by (auto simp: ordered_full_def psort_simps last)
  show ?thesis
    unfolding reifies_def
  proof (intro conjI allI impI)
    show "m_next_const s \<le> m_next_const s'" "known (m_next_const s') r"
      using NM by (simp_all add: s' r N_def)
    have xsM: "\<And>i. i < length xs \<Longrightarrow> known M (xs ! i)" using wf(2) known_mono [of N _ M] NM by (simp add: N_def)
    have ky: "\<And>i. i < Suc m \<Longrightarrow> known M (ys ! i)" using ysM by simp
    have kt: "\<And>i. full \<Longrightarrow> i < Suc m \<Longrightarrow> known M (twos ! i)" using twosM by simp
    have kz: "\<lbrakk>full; exactly\<rbrakk> \<Longrightarrow> known M zero" using m by (simp add: zero_def M_def)
    have kbase: "\<forall>c \<in> set (ordered_base xs (const N) ys exactly). \<forall>l \<in> set c. known M l"
      using m NM ky xsM by (auto simp: ordered_base_def)
    have kfull: "\<forall>c \<in> set (ordered_full xs (const N) ys twos zero exactly). \<forall>l \<in> set c. known M l" if full
      using m NM ky xsM kt [OF that] kz [OF that] by (auto simp: ordered_full_def ordered_twos_def last)
    show "wf_psort s'" unfolding s'
      by (rule wf_add_clauses [OF wf_next [OF wf(1)]]) (use NM kbase kfull in \<open>auto simp: cs_def N_def\<close>)
    fix I
    show "sat I s" if "sat I s'" using that sat' by simp
    show "one_count exactly I xs" if "sat I s'" "holds I r" using that base r by (simp add: sat' cs_def)
    show "holds I r" if "full" "sat I s'" "one_count exactly I xs"
    proof -
      have b: "\<forall>i < Suc m. holds I (ys ! i) = prefix_true I xs i" and "clauses_true I (ordered_full xs (const N) ys twos zero exactly)"
        using that base by (simp_all add: sat' cs_def)
      then show ?thesis
        using that(3) ordered_twos_true(1) [OF m b] unfolding full [OF b] r one_count_def by (cases exactly) auto
    qed
    assume I: "sat I s"
    define J where "J = set_consts I N (\<lambda>k. if k = 0 then one_count exactly I xs
      else if k < length xs then prefix_true I xs (k - 1)
      else if k < 2 * length xs - 1 then two_true I xs (k - length xs) else count_true I xs = 0)"
    have ag: "agree (m_next_const s) I J" by (simp add: J_def N_def)
    have xs: "\<And>i. i < length xs \<Longrightarrow> holds J (xs ! i) = holds I (xs ! i)" "count_true J xs = count_true I xs"
      using holds_agree [OF ag] count_true_agree [OF ag] wf(2) by auto
    have pre: "prefix_true J xs i = prefix_true I xs i" if "i < length xs" for i
      using that xs(1) by (auto simp: prefix_true_def)
    have two: "two_true J xs i = two_true I xs i" if "i < Suc m" for i
      using that xs(1) pre m by (auto simp: two_true_def)
    have one: "one_count exactly J xs = one_count exactly I xs" using xs(2) by (simp add: one_count_def)
    have vals: "holds J (const N) = one_count exactly I xs" "\<And>i. i < Suc m \<Longrightarrow> holds J (ys ! i) = prefix_true I xs i"
      "\<And>i. i < Suc m \<Longrightarrow> holds J (twos ! i) = two_true I xs i" "holds J zero = (count_true I xs = 0)"
      using m ysM twosM(1) by (simp_all add: J_def zero_def)
    have b: "\<forall>i < Suc m. holds J (ys ! i) = prefix_true J xs i" using vals(2) pre m by simp
    have t: "clauses_true J (ordered_twos xs ys twos)"
      by (rule ordered_twos_true(2) [OF m b]) (use vals(3) two in simp)
    have "clauses_true J (ordered_full xs (const N) ys twos zero exactly)"
      unfolding full [OF b] using t vals(1,4) vals(3) [of m] two_true_count [OF m, of I] xs(2) by (auto simp: one_count_def)
    moreover have "clauses_true J (ordered_base xs (const N) ys exactly)" unfolding base using b vals(1) one by simp
    ultimately have "sat J s'" using sat_agree [OF wf(1) ag I] by (simp add: sat' cs_def)
    then show "\<exists>J. agree (m_next_const s) I J \<and> sat J s' \<and> holds J r = one_count exactly I xs"
      using ag vals(1) r by blast
  qed
qed

subsection \<open>Exactly one from at most one\<close>

lemma mk_exactly_1_reifies:
  assumes wf: "wf_psort s" "knowns s xs" "xs \<noteq> []" and run: "mk_exactly_1 enc full xs s = (r, s')"
  shows "reifies full s s' r (\<lambda>I. count_true I xs = 1)"
proof (cases "enc = ordered_at_most")
  case True
  then have "reifies full s s' r (\<lambda>I. one_count True I xs)"
    using mk_ordered_1_reifies [OF wf(1,2)] run by (simp add: mk_exactly_1_def)
  then show ?thesis by (rule reifies_cong) (auto simp: one_count_def)
next
  case False
  obtain r1 ors s1 where amo: "(if enc = bimander_at_most then mk_at_most_1_bimander full xs s else mk_at_most_1 full xs True s) = (r1, ors, s1)"
    by (metis prod_cases3)
  have a: "at_most_one full s s1 r1 xs" and ors: "knowns s ors" "\<And>I. count_true I ors = 0 \<longleftrightarrow> count_true I xs = 0"
    using mk_at_most_1_ok [OF wf, of full True r1 ors s1] mk_at_most_1_bimander_ok [OF wf, of full r1 ors s1] amo
    by (auto split: if_splits)
  have orsI: "(\<exists>l \<in> set ors. holds I l) \<longleftrightarrow> count_true I xs \<noteq> 0" for I
    using ors(2) [of I] by (auto simp: count_true_def filter_empty_conv)
  have a': "wf_psort s1" "m_next_const s \<le> m_next_const s1" "known (m_next_const s1) r1" "\<And>I. sat I s1 \<Longrightarrow> sat I s"
    "\<And>I. sat I s1 \<Longrightarrow> holds I r1 \<Longrightarrow> count_true I xs \<le> 1" "\<And>I. full \<Longrightarrow> sat I s1 \<Longrightarrow> count_true I xs \<le> 1 \<Longrightarrow> holds I r1"
    "\<And>I b. sat I s \<Longrightarrow> (b \<longrightarrow> count_true I xs \<le> 1) \<Longrightarrow> (full \<longrightarrow> count_true I xs \<le> 1 \<longrightarrow> b) \<Longrightarrow>
        \<exists>J. agree (m_next_const s) I J \<and> sat J s1 \<and> holds J r1 = b"
    using a unfolding at_most_one_def by blast+
  have ors1: "knowns s1 ors" by (rule knowns_mono [OF ors(1) a'(2)])
  have same: "count_true J xs = count_true I xs" if "agree (m_next_const s) I J" for I J
    using count_true_agree [OF that wf(2)] by simp
  show ?thesis
  proof (cases full)
    case full: True
    have res: "r = ps_mk_and [r1, ps_mk_or ors]" "s' = s1" using run False full unfolding mk_exactly_1_def amo by simp_all
    have r: "holds I r \<longleftrightarrow> holds I r1 \<and> count_true I xs \<noteq> 0" for I using orsI by (simp add: res(1) psort_simps)
    have "known (m_next_const s1) r" unfolding res(1) using a'(3) ors1 by (intro known_mk_and) (simp add: known_mk_or)
    moreover have "\<exists>J. agree (m_next_const s) I J \<and> sat J s1 \<and> holds J r = (count_true I xs = 1)" if "sat I s" for I
    proof -
      have "\<exists>J. agree (m_next_const s) I J \<and> sat J s1 \<and> holds J r1 = (count_true I xs \<le> 1)"
        by (rule a'(7) [OF that]) (use full in simp_all)
      then obtain J where "agree (m_next_const s) I J" "sat J s1" "holds J r1 = (count_true I xs \<le> 1)" by blast
      then show ?thesis using same r by (intro exI [of _ J]) auto
    qed
    moreover have "count_true I xs = 1" if "sat I s1" "holds I r" for I
    proof -
      have "count_true I xs \<le> 1" "count_true I xs \<noteq> 0" using a'(5) [OF that(1)] that(2) r by simp_all
      then show ?thesis by linarith
    qed
    moreover have "holds I r" if "sat I s1" "count_true I xs = 1" for I
      using a'(6) [OF full that(1)] that(2) r by simp
    ultimately show ?thesis unfolding reifies_def res(2) using a'(1,2,4) by blast
  next
    case part: False
    have res: "r = r1" "s' = add_clauses [ors @ [ps_mk_not r1]] s1" using run False part unfolding mk_exactly_1_def amo by auto
    have sat': "sat I s' \<longleftrightarrow> sat I s1 \<and> (holds I r1 \<longrightarrow> count_true I xs \<noteq> 0)" for I
      using orsI [of I] by (auto simp: res(2) psort_simps clause_true_def)
    have "wf_psort s'" unfolding res(2) by (rule wf_add_clauses [OF a'(1)]) (use ors1 a'(3) in auto)
    moreover have "\<exists>J. agree (m_next_const s) I J \<and> sat J s' \<and> holds J r = (count_true I xs = 1)" if "sat I s" for I
    proof -
      have "\<exists>J. agree (m_next_const s) I J \<and> sat J s1 \<and> holds J r1 = (count_true I xs = 1)"
        by (rule a'(7) [OF that]) (use part in simp_all)
      then obtain J where "agree (m_next_const s) I J" "sat J s1" "holds J r1 = (count_true I xs = 1)" by blast
      then show ?thesis using same sat' res(1) by (intro exI [of _ J]) auto
    qed
    moreover have "m_next_const s' = m_next_const s1" by (simp add: res(2))
    moreover have "count_true I xs = 1" if "sat I s'" "holds I r" for I
    proof -
      have "count_true I xs \<le> 1" "count_true I xs \<noteq> 0" using a'(5) [of I] that sat' [of I] res(1) by simp_all
      then show ?thesis by linarith
    qed
    moreover have "sat I s" if "sat I s'" for I using a'(4) that sat' by blast
    ultimately show ?thesis unfolding reifies_def using a'(2,3) res(1) part by simp
  qed
qed

end
