(* ===== verification/Psort_Card.thy ===== *)
theory Psort_Card
  imports Psort_Exactly
begin

text \<open>
  Cardinality constraints, eighth part: \<open>ge\<close>, \<open>le\<close> and \<open>eq\<close> of \<open>psort_nw\<close>, with all encodings. The weighted
  constraints by binary merging are not modelled.
\<close>

subsection \<open>Constraints from a truncated network\<close>

lemma holds_nth_agree: "sat I s \<Longrightarrow> upper I out N \<Longrightarrow> lower I out N \<Longrightarrow> k < length out \<Longrightarrow> holds I (out ! k) = (k < N)"
  by (auto simp: upper_def lower_def)

lemma sorts_values:
  assumes c: "sorts t xs s s' out" and k: "knowns s xs" and I: "sat I s"
  obtains J where "agree (m_next_const s) I J" "sat J s'" "count_true J xs = count_true I xs"
    "\<And>k. k < length out \<Longrightarrow> holds J (out ! k) = (k < count_true I xs)"
proof -
  obtain J where J: "agree (m_next_const s) I J" "sat J s'" "upper J out (count_true I xs)" "lower J out (count_true I xs)"
    using computes_extend [OF c I refl refl] .
  show thesis
    by (rule that [OF J(1,2)]) (use J count_true_agree [OF J(1) k] holds_nth_agree in auto)
qed

lemma sorts_ge_reifies:
  assumes c: "sorts t xs s s' out" and k: "knowns s xs" "0 < k" "k \<le> length out" and t: "down t" "full \<longrightarrow> up t"
  shows "reifies full s s' (out ! (k - 1)) (\<lambda>I. k \<le> count_true I xs)"
  unfolding reifies_def
proof (intro conjI allI impI)
  note d = computesD [OF c]
  show "wf_psort s'" "m_next_const s \<le> m_next_const s'" by (rule d)+
  show "known (m_next_const s') (out ! (k - 1))" using d(3) k by simp
  fix I
  show "sat I s" if "sat I s'" using d(4) that .
  show "k \<le> count_true I xs" if "sat I s'" "holds I (out ! (k - 1))"
  proof -
    have "k - 1 < length out" using k by simp
    then have "k - 1 < count_true I xs" using d(5) [OF t(1) that(1) refl] that(2) unfolding upper_def by blast
    then show ?thesis by simp
  qed
  show "holds I (out ! (k - 1))" if "full" "sat I s'" "k \<le> count_true I xs"
    using d(6) [OF _ that(2) refl] t(2) that(1,3) k by (simp add: lower_def)
  assume "sat I s"
  from sorts_values [OF c k(1) this] show "\<exists>J. agree (m_next_const s) I J \<and> sat J s' \<and> holds J (out ! (k - 1)) = (k \<le> count_true I xs)"
    using k(2,3) by (metis Suc_diff_1 Suc_le_eq)
qed

lemma sorts_le_reifies:
  assumes c: "sorts t xs s s' out" and k: "knowns s xs" "k < length out" and t: "up t" "full \<longrightarrow> down t"
  shows "reifies full s s' (ps_mk_not (out ! k)) (\<lambda>I. count_true I xs \<le> k)"
  unfolding reifies_def
proof (intro conjI allI impI)
  note d = computesD [OF c]
  show "wf_psort s'" "m_next_const s \<le> m_next_const s'" by (rule d)+
  show "known (m_next_const s') (ps_mk_not (out ! k))" using d(3) k by simp
  fix I
  show "sat I s" if "sat I s'" using d(4) that .
  show "count_true I xs \<le> k" if "sat I s'" "holds I (ps_mk_not (out ! k))"
  proof (rule ccontr)
    assume "\<not> ?thesis"
    then have "holds I (out ! k)" using d(6) [OF t(1) that(1) refl] k(2) unfolding lower_def by simp
    then show False using that(2) by (simp add: psort_simps)
  qed
  show "holds I (ps_mk_not (out ! k))" if "full" "sat I s'" "count_true I xs \<le> k"
  proof -
    have "down t" using t(2) that(1) by simp
    then have "\<not> holds I (out ! k)" using d(5) [OF _ that(2) refl] that(3) k(2) unfolding upper_def by (meson not_less)
    then show ?thesis by (simp add: psort_simps)
  qed
  assume "sat I s"
  from sorts_values [OF c k(1) this] show "\<exists>J. agree (m_next_const s) I J \<and> sat J s' \<and> holds J (ps_mk_not (out ! k)) = (count_true I xs \<le> k)"
    using k(2) holds_mk_not by (metis not_less)
qed

lemma sorts_eq_reifies:
  assumes c: "sorts EQ xs s s' out" and k: "knowns s xs" "k < length out"
  shows "reifies full s s' (if k = 0 then ps_mk_not (out ! k) else ps_mk_min (out ! (k - 1)) (ps_mk_not (out ! k)))
    (\<lambda>I. count_true I xs = k)"
proof -
  let ?r = "if k = 0 then ps_mk_not (out ! k) else ps_mk_min (out ! (k - 1)) (ps_mk_not (out ! k))"
  note d = computesD [OF c]
  have r: "holds I ?r = (N = k)" if "\<And>k. k < length out \<Longrightarrow> holds I (out ! k) = (k < N)" for I N
    using that [of k] that [of "k - 1"] k(2) by (auto simp: psort_simps)
  have exact: "holds I ?r = (count_true I xs = k)" if "sat I s'" for I
    by (rule r, rule holds_nth_agree [OF that d(5) [OF _ that refl] d(6) [OF _ that refl]]) simp_all
  have "\<exists>J. agree (m_next_const s) I J \<and> sat J s' \<and> holds J ?r = (count_true I xs = k)" if "sat I s" for I
    using sorts_values [OF c k(1) that] r [of _ "count_true I xs"] by metis
  moreover have "known (m_next_const s') (out ! i)" if "i \<le> k" for i using d(3) k(2) that by simp
  then have "known (m_next_const s') ?r" by simp
  ultimately show ?thesis unfolding reifies_def using d(1,2,4) exact by blast
qed

subsection \<open>Unweighted constraints\<close>

definition dualize :: "nat \<Rightarrow> expr list \<Rightarrow> (nat \<times> expr list) option" where
  "dualize k xs = (if 2 * k \<le> length xs then None else Some (length xs - k, map ps_mk_not xs))"

definition ge_direct :: "sn_encoding \<Rightarrow> bool \<Rightarrow> nat \<Rightarrow> expr list \<Rightarrow> psort \<Rightarrow> (expr \<times> psort) option" where
  "ge_direct enc full k xs s =
    (case enc of
       unate_at_most \<Rightarrow> map_option (\<lambda>r. (r, s)) (unate_ge full k xs)
     | circuit_at_most \<Rightarrow> Some (circuit_ge full k xs, s)
     | _ \<Rightarrow> (let (out, s) = ps_card (if full then GE_FULL else GE) k xs s in Some (out ! (k - 1), s)))"

definition le_direct :: "sn_encoding \<Rightarrow> bool \<Rightarrow> nat \<Rightarrow> expr list \<Rightarrow> psort \<Rightarrow> (expr \<times> psort) option" where
  "le_direct enc full k xs s =
    (case enc of
       unate_at_most \<Rightarrow> map_option (\<lambda>r. (r, s)) (unate_le full k xs)
     | circuit_at_most \<Rightarrow> Some (circuit_le full k xs, s)
     | _ \<Rightarrow> (let (out, s) = ps_card (if full then LE_FULL else LE) (k + 1) xs s in Some (ps_mk_not (out ! k), s)))"

definition le_one :: "sn_encoding \<Rightarrow> bool \<Rightarrow> expr list \<Rightarrow> psort \<Rightarrow> expr \<times> psort" where
  "le_one enc full xs s =
    (case enc of
       bimander_at_most \<Rightarrow> (let (r, ors, s) = mk_at_most_1_bimander full xs s in (r, s))
     | ordered_at_most \<Rightarrow> mk_ordered_1 full False xs s
     | _ \<Rightarrow> (let (r, ors, s) = mk_at_most_1 full xs False s in (r, s)))"

function ps_ge :: "sn_encoding \<Rightarrow> bool \<Rightarrow> nat \<Rightarrow> expr list \<Rightarrow> psort \<Rightarrow> (expr \<times> psort) option"
  and ps_le :: "sn_encoding \<Rightarrow> bool \<Rightarrow> nat \<Rightarrow> expr list \<Rightarrow> psort \<Rightarrow> (expr \<times> psort) option" where
  "ps_ge enc full k xs s =
    (if k > length xs then Some (FalseE, s)
     else if k = 0 then Some (TrueE, s)
     else if k = 1 then Some (ps_mk_or xs, s)
     else case dualize k xs of
         Some (k', ins) \<Rightarrow> ps_le enc full k' ins s
       | None \<Rightarrow> ge_direct enc full k xs s)"
| "ps_le enc full k xs s =
    (if k \<ge> length xs then Some (TrueE, s)
     else case dualize k xs of
         Some (k', ins) \<Rightarrow> ps_ge enc full k' ins s
       | None \<Rightarrow>
           if k = 1 then Some (le_one enc full xs s)
           else le_direct enc full k xs s)"
  by pat_completeness auto

termination
  by (relation "measure (\<lambda>x. case x of
      Inl (enc, full, k, xs, s) \<Rightarrow> if length xs < 2 * k then 1 else 0
    | Inr (enc, full, k, xs, s) \<Rightarrow> if length xs < 2 * k then 1 else 0)")
    (auto simp: dualize_def split: if_splits)

declare ps_ge.simps [simp del] ps_le.simps [simp del]

definition eq_direct :: "sn_encoding \<Rightarrow> nat \<Rightarrow> expr list \<Rightarrow> psort \<Rightarrow> (expr \<times> psort) option" where
  "eq_direct enc k xs s =
    (case enc of
       unate_at_most \<Rightarrow> map_option (\<lambda>r. (r, s)) (unate_eq k xs)
     | circuit_at_most \<Rightarrow> Some (circuit_eq k xs, s)
     | _ \<Rightarrow> (let (out, s) = ps_card EQ (k + 1) xs s
            in if length out \<le> k then None
               else Some (if k = 0 then ps_mk_not (out ! k) else ps_mk_min (out ! (k - 1)) (ps_mk_not (out ! k)), s)))"

function ps_eq :: "sn_encoding \<Rightarrow> bool \<Rightarrow> nat \<Rightarrow> expr list \<Rightarrow> psort \<Rightarrow> (expr \<times> psort) option" where
  "ps_eq enc full k xs s =
    (if k > length xs then Some (FalseE, s)
     else case dualize k xs of
         Some (k', ins) \<Rightarrow> ps_eq enc full k' ins s
       | None \<Rightarrow>
           if k = 1 then Some (mk_exactly_1 enc full xs s)
           else eq_direct enc k xs s)"
  by pat_completeness auto

termination
  by (relation "measure (\<lambda>(enc, full, k, xs, s). if length xs < 2 * k then 1 else 0)")
    (auto simp: dualize_def split: if_splits)

declare ps_eq.simps [simp del]

lemma count_negated: "count_true I (map ps_mk_not xs) = length xs - count_true I xs"
proof (induction xs)
  case (Cons x xs)
  then show ?case using count_true_le [of I xs] by (auto simp: psort_simps)
qed simp

lemma knowns_negated: "knowns s xs \<Longrightarrow> knowns s (map ps_mk_not xs)"
  by simp

lemma ge_direct_reifies:
  assumes wf: "wf_psort s" "knowns s xs" and k: "1 < k" "k \<le> length xs"
  shows "\<exists>r s'. ge_direct enc full k xs s = Some (r, s') \<and> reifies full s s' r (\<lambda>I. k \<le> count_true I xs)"
proof (cases "enc = unate_at_most \<or> enc = circuit_at_most")
  case True
  then show ?thesis
  proof
    assume "enc = circuit_at_most"
    then show ?thesis
      using circuit_cmp_gate [where cmp = "if full then GE_FULL else GE" and k = k and xs = xs] k wf
      by (auto simp: ge_direct_def circuit_ge_def cmp_count_def intro!: reifies_gate)
  next
    assume "enc = unate_at_most"
    moreover obtain r where "unate_cmp (if full then GE_FULL else GE) k xs = Some r" "\<And>I. holds I r = cmp_count (if full then GE_FULL else GE) k (count_true I xs)"
      "\<And>n. \<forall>x \<in> set xs. known n x \<Longrightarrow> known n r"
      by (rule unate_cmp_gate [of "if full then GE_FULL else GE" k xs]) (use k in auto)
    then have "unate_ge full k xs = Some r" "\<And>I. holds I r = (k \<le> count_true I xs)" "\<And>n. \<forall>x \<in> set xs. known n x \<Longrightarrow> known n r"
      by (simp_all add: unate_ge_def cmp_count_def)
    ultimately show ?thesis using wf by (auto simp: ge_direct_def intro!: reifies_gate)
  qed
next
  case False
  let ?t = "if full then GE_FULL else GE"
  obtain out s' where run: "ps_card ?t k xs s = (out, s')" by (metis surj_pair)
  have "sorts ?t xs s s' out \<and> length out = min k (length xs)" using ps_card_ok [OF wf run] k by simp
  then have "reifies full s s' (out ! (k - 1)) (\<lambda>I. k \<le> count_true I xs)"
    using wf k by (intro sorts_ge_reifies [where t = ?t]) auto
  then show ?thesis using False run by (cases enc) (auto simp: ge_direct_def)
qed

lemma le_direct_reifies:
  assumes wf: "wf_psort s" "knowns s xs" and k: "k < length xs"
  shows "\<exists>r s'. le_direct enc full k xs s = Some (r, s') \<and> reifies full s s' r (\<lambda>I. count_true I xs \<le> k)"
proof (cases "enc = unate_at_most \<or> enc = circuit_at_most")
  case True
  then show ?thesis
  proof
    assume "enc = circuit_at_most"
    then show ?thesis
      using circuit_cmp_gate [where cmp = "if full then LE_FULL else LE" and k = k and xs = xs] k wf
      by (auto simp: le_direct_def circuit_le_def cmp_count_def intro!: reifies_gate)
  next
    assume "enc = unate_at_most"
    moreover obtain r where "unate_cmp (if full then LE_FULL else LE) k xs = Some r" "\<And>I. holds I r = cmp_count (if full then LE_FULL else LE) k (count_true I xs)"
      "\<And>n. \<forall>x \<in> set xs. known n x \<Longrightarrow> known n r"
      by (rule unate_cmp_gate [of "if full then LE_FULL else LE" k xs]) (use k in auto)
    then have "unate_le full k xs = Some r" "\<And>I. holds I r = (count_true I xs \<le> k)" "\<And>n. \<forall>x \<in> set xs. known n x \<Longrightarrow> known n r"
      by (simp_all add: unate_le_def cmp_count_def)
    ultimately show ?thesis using wf by (auto simp: le_direct_def intro!: reifies_gate)
  qed
next
  case False
  let ?t = "if full then LE_FULL else LE"
  obtain out s' where run: "ps_card ?t (k + 1) xs s = (out, s')" by (metis surj_pair)
  have "sorts ?t xs s s' out \<and> length out = min (k + 1) (length xs)" using ps_card_ok [OF wf run] k by simp
  then have "reifies full s s' (ps_mk_not (out ! k)) (\<lambda>I. count_true I xs \<le> k)"
    using wf k by (intro sorts_le_reifies [where t = ?t]) auto
  then show ?thesis using False run by (cases enc) (auto simp: le_direct_def)
qed

lemma le_one_reifies:
  assumes wf: "wf_psort s" "knowns s xs" "xs \<noteq> []" and run: "le_one enc full xs s = (r, s')"
  shows "reifies full s s' r (\<lambda>I. count_true I xs \<le> 1)"
proof -
  consider (bi) "enc = bimander_at_most" | (ord) "enc = ordered_at_most"
    | (other) "enc \<noteq> bimander_at_most" "enc \<noteq> ordered_at_most" by blast
  then show ?thesis
  proof cases
    case bi
    then obtain ors where "mk_at_most_1_bimander full xs s = (r, ors, s')"
      using run by (auto simp: le_one_def split: prod.splits)
    from mk_at_most_1_bimander_ok [OF wf this] show ?thesis using at_most_one_reifies by blast
  next
    case ord
    then have "reifies full s s' r (\<lambda>I. one_count False I xs)"
      using mk_ordered_1_reifies [OF wf(1,2)] run by (simp add: le_one_def)
    then show ?thesis by (rule reifies_cong) (simp add: one_count_def)
  next
    case other
    then obtain ors where "mk_at_most_1 full xs False s = (r, ors, s')"
      using run by (cases enc) (auto simp: le_one_def split: prod.splits)
    from mk_at_most_1_ok [OF wf this] show ?thesis using at_most_one_reifies by blast
  qed
qed

lemma eq_direct_reifies:
  assumes wf: "wf_psort s" "knowns s xs" and k: "k < length xs" "k = 0 \<longrightarrow> enc \<noteq> unate_at_most \<and> enc \<noteq> circuit_at_most"
  shows "\<exists>r s'. eq_direct enc k xs s = Some (r, s') \<and> reifies full s s' r (\<lambda>I. count_true I xs = k)"
proof (cases "enc = unate_at_most \<or> enc = circuit_at_most")
  case True
  then have k0: "0 < k" using k by auto
  from True show ?thesis
  proof
    assume "enc = circuit_at_most"
    then show ?thesis
      using circuit_cmp_gate [where cmp = EQ and k = k and xs = xs] k0 wf by (auto simp: eq_direct_def circuit_eq_def cmp_count_def intro!: reifies_gate)
  next
    assume "enc = unate_at_most"
    moreover obtain r where "unate_cmp (EQ) k xs = Some r" "\<And>I. holds I r = cmp_count (EQ) k (count_true I xs)"
      "\<And>n. \<forall>x \<in> set xs. known n x \<Longrightarrow> known n r"
      by (rule unate_cmp_gate [of "EQ" k xs]) (use k0 in auto)
    then have "unate_eq k xs = Some r" "\<And>I. holds I r = (count_true I xs = k)" "\<And>n. \<forall>x \<in> set xs. known n x \<Longrightarrow> known n r"
      by (simp_all add: unate_eq_def cmp_count_def)
    ultimately show ?thesis using wf by (auto simp: eq_direct_def intro!: reifies_gate)
  qed
next
  case False
  obtain out s' where run: "ps_card EQ (k + 1) xs s = (out, s')" by (metis surj_pair)
  have ok: "sorts EQ xs s s' out \<and> length out = min (k + 1) (length xs)" using ps_card_ok [OF wf run] by simp
  then have "reifies full s s' (if k = 0 then ps_mk_not (out ! k) else ps_mk_min (out ! (k - 1)) (ps_mk_not (out ! k)))
      (\<lambda>I. count_true I xs = k)"
    using wf k by (intro sorts_eq_reifies) auto
  then show ?thesis using False run ok k by (cases enc) (auto simp: eq_direct_def)
qed

lemma ps_ge_le_ok:
  "wf_psort s \<Longrightarrow> knowns s xs \<Longrightarrow>
    \<exists>r s'. ps_ge enc full k xs s = Some (r, s') \<and> reifies full s s' r (\<lambda>I. k \<le> count_true I xs)"
  "wf_psort s \<Longrightarrow> knowns s xs \<Longrightarrow>
    \<exists>r s'. ps_le enc full k xs s = Some (r, s') \<and> reifies full s s' r (\<lambda>I. count_true I xs \<le> k)"
proof (induction enc full k xs s and enc full k xs s rule: ps_ge_ps_le.induct)
  case (1 enc full k xs s)
  note wf = 1(2,3)
  consider (false) "length xs < k" | (true) "k = 0" | (or) "k \<le> length xs" "k = 1"
    | (dual) "1 < k" "k \<le> length xs" "length xs < 2 * k" | (direct) "1 < k" "k \<le> length xs" "2 * k \<le> length xs"
    by linarith
  then show ?case
  proof cases
    case false
    have "\<not> k \<le> count_true I xs" for I using count_true_le [of I xs] false by simp
    then show ?thesis using false wf by (auto simp: ps_ge.simps [of enc full k xs s] intro!: reifies_gate)
  next
    case true
    then show ?thesis using wf by (auto simp: ps_ge.simps [of enc full 0 xs s] intro!: reifies_gate)
  next
    case or
    have "holds I (ps_mk_or xs) \<longleftrightarrow> 1 \<le> count_true I xs" for I
      by (auto simp: psort_simps count_true_def Suc_le_eq filter_empty_conv)
    then show ?thesis using or wf known_mk_or
      by (auto simp: ps_ge.simps [of enc full "Suc 0" xs s] intro!: reifies_gate)
  next
    case dual
    then have d: "dualize k xs = Some (length xs - k, map ps_mk_not xs)" by (simp add: dualize_def)
    obtain r s' where r: "ps_le enc full (length xs - k) (map ps_mk_not xs) s = Some (r, s')"
      "reifies full s s' r (\<lambda>I. count_true I (map ps_mk_not xs) \<le> length xs - k)"
      using 1(1) [OF _ _ _ d refl wf(1) knowns_negated [OF wf(2)]] dual by auto
    have "reifies full s s' r (\<lambda>I. k \<le> count_true I xs)"
      by (rule reifies_cong [OF r(2)]) (use count_true_le dual(2) in \<open>auto simp: count_negated\<close>)
    moreover have "ps_ge enc full k xs s = Some (r, s')" using dual d r(1) by (simp add: ps_ge.simps [of enc full k xs s])
    ultimately show ?thesis by blast
  next
    case direct
    then have "ps_ge enc full k xs s = ge_direct enc full k xs s" by (simp add: ps_ge.simps [of enc full k xs s] dualize_def)
    then show ?thesis using ge_direct_reifies [OF wf direct(1,2)] by simp
  qed
next
  case (2 enc full k xs s)
  note wf = 2(2,3)
  consider (true) "length xs \<le> k" | (dual) "k < length xs" "length xs < 2 * k"
    | (one) "k < length xs" "2 * k \<le> length xs" "k = 1" | (direct) "k < length xs" "2 * k \<le> length xs" "k \<noteq> 1"
    by linarith
  then show ?case
  proof cases
    case true
    have "count_true I xs \<le> k" for I using count_true_le [of I xs] true by simp
    then show ?thesis using true wf by (auto simp: ps_le.simps [of enc full k xs s] intro!: reifies_gate)
  next
    case dual
    then have d: "dualize k xs = Some (length xs - k, map ps_mk_not xs)" by (simp add: dualize_def)
    obtain r s' where r: "ps_ge enc full (length xs - k) (map ps_mk_not xs) s = Some (r, s')"
      "reifies full s s' r (\<lambda>I. length xs - k \<le> count_true I (map ps_mk_not xs))"
      using 2(1) [OF _ d refl wf(1) knowns_negated [OF wf(2)]] dual by auto
    have "reifies full s s' r (\<lambda>I. count_true I xs \<le> k)"
    proof (rule reifies_cong [OF r(2)])
      fix I
      show "(length xs - k \<le> count_true I (map ps_mk_not xs)) = (count_true I xs \<le> k)"
        using count_true_le [of I xs] dual(1) unfolding count_negated by linarith
    qed
    moreover have "ps_le enc full k xs s = Some (r, s')" using dual d r(1) by (simp add: ps_le.simps [of enc full k xs s])
    ultimately show ?thesis by blast
  next
    case one
    obtain r s' where r: "le_one enc full xs s = (r, s')" by (metis surj_pair)
    have "ps_le enc full k xs s = Some (r, s')" using one r by (simp add: ps_le.simps [of enc full "Suc 0" xs s] dualize_def)
    moreover have "xs \<noteq> []" using one by auto
    ultimately show ?thesis using le_one_reifies [OF wf _ r] one(3) by blast
  next
    case direct
    then have "ps_le enc full k xs s = le_direct enc full k xs s" by (simp add: ps_le.simps [of enc full k xs s] dualize_def)
    then show ?thesis using le_direct_reifies [OF wf direct(1)] by simp
  qed
qed

text \<open>
  \<open>eq\<close> with at least one literal is right unless the unary or the binary encoding is asked for no true literal, directly or
  after the dualization of \<open>k = n\<close>.
\<close>

lemma ps_eq_ok:
  "wf_psort s \<Longrightarrow> knowns s xs \<Longrightarrow>
    (enc = unate_at_most \<or> enc = circuit_at_most \<longrightarrow> 0 < k \<and> k \<noteq> length xs) \<Longrightarrow>
    xs \<noteq> [] \<Longrightarrow>
    \<exists>r s'. ps_eq enc full k xs s = Some (r, s') \<and> reifies full s s' r (\<lambda>I. count_true I xs = k)"
proof (induction enc full k xs s rule: ps_eq.induct)
  case (1 enc full k xs s)
  note wf = 1(2,3)
  consider (false) "length xs < k" | (dual) "k \<le> length xs" "length xs < 2 * k"
    | (one) "2 * k \<le> length xs" "k = 1" | (direct) "2 * k \<le> length xs" "k \<noteq> 1"
    by linarith
  then show ?case
  proof cases
    case false
    have "count_true I xs \<noteq> k" for I using count_true_le [of I xs] false by simp
    then show ?thesis using false wf by (auto simp: ps_eq.simps [of enc full k xs s] intro!: reifies_gate)
  next
    case dual
    then have d: "dualize k xs = Some (length xs - k, map ps_mk_not xs)" by (simp add: dualize_def)
    have "\<not> length xs < k" "map ps_mk_not xs \<noteq> []" using dual 1(5) by simp_all
    moreover have "enc = unate_at_most \<or> enc = circuit_at_most \<longrightarrow> 0 < length xs - k \<and> length xs - k \<noteq> length (map ps_mk_not xs)"
      using dual 1(4) by simp linarith
    ultimately obtain r s' where r: "ps_eq enc full (length xs - k) (map ps_mk_not xs) s = Some (r, s')"
      "reifies full s s' r (\<lambda>I. count_true I (map ps_mk_not xs) = length xs - k)"
      using 1(1) [OF _ d refl wf(1) knowns_negated [OF wf(2)]] by blast
    have "reifies full s s' r (\<lambda>I. count_true I xs = k)"
    proof (rule reifies_cong [OF r(2)])
      fix I
      show "(count_true I (map ps_mk_not xs) = length xs - k) = (count_true I xs = k)"
        using count_true_le [of I xs] dual(1) unfolding count_negated by linarith
    qed
    moreover have "ps_eq enc full k xs s = Some (r, s')" using dual d r(1) by (simp add: ps_eq.simps [of enc full k xs s])
    ultimately show ?thesis by blast
  next
    case one
    obtain r s' where r: "mk_exactly_1 enc full xs s = (r, s')" by (metis surj_pair)
    have "ps_eq enc full k xs s = Some (r, s')" using one r 1(5) by (simp add: ps_eq.simps [of enc full "Suc 0" xs s] dualize_def)
    then show ?thesis using mk_exactly_1_reifies [OF wf 1(5) r] one(2) by auto
  next
    case direct
    have k: "k < length xs" using direct(1) 1(5) by (cases k) auto
    have "ps_eq enc full k xs s = eq_direct enc k xs s"
      using direct by (simp add: ps_eq.simps [of enc full k xs s] dualize_def)
    then show ?thesis using eq_direct_reifies [OF wf k] 1(4) by auto
  qed
qed

text \<open>
  The numbers for which it is not: the binary encoding of none is wrong, the unary one has no result,
  and neither has a network for none of no literals (it has no output to read).
\<close>

lemma ps_eq_no_result:
  "xs \<noteq> [] \<Longrightarrow> ps_eq unate_at_most full 0 xs s = None"
  "enc \<noteq> unate_at_most \<Longrightarrow> enc \<noteq> circuit_at_most \<Longrightarrow> ps_eq enc full 0 [] s = None"
proof -
  show "xs \<noteq> [] \<Longrightarrow> ps_eq unate_at_most full 0 xs s = None"
    by (simp add: ps_eq.simps [of _ full 0 _ s] dualize_def eq_direct_def unate_eq_def unate_cmp_def)
  show "ps_eq enc full 0 [] s = None" if "enc \<noteq> unate_at_most" "enc \<noteq> circuit_at_most"
    using that
    by (cases enc) (simp_all add: ps_eq.simps [of _ full 0 _ s] dualize_def eq_direct_def
      ps_card.simps [of EQ "Suc 0" "[]" s] ps_sorting.simps [of EQ "[]" s])
qed

lemma ps_eq_circuit_zero:
  assumes "xs \<noteq> []"
  shows "ps_eq circuit_at_most full 0 xs s = Some (circuit_eq 0 xs, s)"
  using assms by (simp add: ps_eq.simps [of circuit_at_most full 0 xs s] dualize_def eq_direct_def)

lemma ps_eq_circuit_all:
  assumes "xs \<noteq> []"
  shows "ps_eq circuit_at_most full (length xs) xs s = Some (circuit_eq 0 (map ps_mk_not xs), s)"
proof -
  have "ps_eq circuit_at_most full (length xs) xs s = ps_eq circuit_at_most full 0 (map ps_mk_not xs) s"
    using assms by (subst ps_eq.simps) (simp add: dualize_def)
  then show ?thesis using ps_eq_circuit_zero [of "map ps_mk_not xs" full s] assms by simp
qed

subsection \<open>Properties\<close>

definition three_consts :: "psort" where
  "three_consts = \<lparr>m_lemmas = [], m_next_const = 3\<rparr>"

lemma three_consts_wf: "wf_psort three_consts" "knowns three_consts [const 0, const 1, const 2]"
  by (simp_all add: wf_psort_def three_consts_def)

text \<open>C15: For every encoding, \<open>ge\<close> and \<open>le\<close> return a literal that stands for "at least k" and "at most k" of
  the given literals: with the added clauses it implies the constraint, with \<open>full\<close> it is equivalent to it, and every
  interpretation of the old symbols extends to the new ones so that the clauses hold and the literal has the
  value of the constraint.\<close>

theorem ge_le_correct:
  assumes "wf_psort s" "knowns s xs"
  shows "(\<exists>r s'. ps_ge enc full k xs s = Some (r, s') \<and> reifies full s s' r (\<lambda>I. k \<le> count_true I xs))
    \<and> (\<exists>r s'. ps_le enc full k xs s = Some (r, s') \<and> reifies full s s' r (\<lambda>I. count_true I xs \<le> k))"
  using ps_ge_le_ok [OF assms] by blast

theorem ge_le_correct_witness:
  "(\<exists>r s'. ps_ge sorted_at_most True 2 [const 0, const 1, const 2] three_consts = Some (r, s')
      \<and> reifies True three_consts s' r (\<lambda>I. 2 \<le> count_true I [const 0, const 1, const 2]))
    \<and> (\<exists>r s'. ps_le sorted_at_most True 2 [const 0, const 1, const 2] three_consts = Some (r, s')
      \<and> reifies True three_consts s' r (\<lambda>I. count_true I [const 0, const 1, const 2] \<le> 2))"
  by (rule ge_le_correct [OF three_consts_wf])

text \<open>C16: \<open>eq\<close> returns a literal that stands for "exactly k": with the encodings by a network for every
  number and every list of literals, except none of no literals, where it reads outside of the empty
  output of the network; with the unary and the binary encoding for numbers that are neither 0 nor the
  number of the literals.\<close>

theorem eq_correct:
  assumes "wf_psort s" "knowns s xs" "xs \<noteq> [] \<or> 0 < k"
    and "enc = unate_at_most \<or> enc = circuit_at_most \<longrightarrow> 0 < k \<and> k \<noteq> length xs"
  shows "(\<exists>r s'. ps_eq enc full k xs s = Some (r, s') \<and> reifies full s s' r (\<lambda>I. count_true I xs = k))
    \<and> (enc \<noteq> unate_at_most \<longrightarrow> enc \<noteq> circuit_at_most \<longrightarrow> ps_eq enc full 0 [] s = None)"
proof (intro conjI impI)
  show "\<exists>r s'. ps_eq enc full k xs s = Some (r, s') \<and> reifies full s s' r (\<lambda>I. count_true I xs = k)"
  proof (cases "xs = []")
    case True
    then have k: "0 < k" using assms(3) by simp
    then have "reifies full s s FalseE (\<lambda>I. count_true I xs = k)"
      using assms(1) True by (intro reifies_gate) simp_all
    then show ?thesis using True k by (simp add: ps_eq.simps [of enc full k "[]" s])
  qed (use ps_eq_ok assms in blast)
qed (rule ps_eq_no_result(2))

theorem eq_correct_witness:
  "(\<exists>r s'. ps_eq circuit_at_most False 2 [const 0, const 1, const 2] three_consts = Some (r, s')
      \<and> reifies False three_consts s' r (\<lambda>I. count_true I [const 0, const 1, const 2] = 2))
    \<and> ps_eq sorted_at_most True 0 [] three_consts = None"
proof
  show "\<exists>r s'. ps_eq circuit_at_most False 2 [const 0, const 1, const 2] three_consts = Some (r, s')
      \<and> reifies False three_consts s' r (\<lambda>I. count_true I [const 0, const 1, const 2] = 2)"
    by (rule eq_correct [THEN conjunct1, OF three_consts_wf]) simp_all
  have "knowns three_consts []" by simp
  then show "ps_eq sorted_at_most True 0 [] three_consts = None"
    using eq_correct [where xs = "[]" and k = 1 and enc = sorted_at_most and full = True, OF three_consts_wf(1)]
    by simp
qed

text \<open>C18: With the binary encoding, \<open>eq\<close> for none of the literals is true when at most one of them is, and
  \<open>eq\<close> for all of them when at most one is false: the adder of width zero still has one digit. With the
  unary encoding \<open>eq\<close> for none reads outside of its vector.\<close>

theorem eq_none_wrong:
  assumes "xs \<noteq> []"
  shows "(\<exists>r. ps_eq circuit_at_most full 0 xs s = Some (r, s) \<and> (\<forall>I. holds I r \<longleftrightarrow> count_true I xs \<le> 1))
    \<and> (\<exists>r. ps_eq circuit_at_most full (length xs) xs s = Some (r, s)
        \<and> (\<forall>I. holds I r \<longleftrightarrow> length xs \<le> count_true I xs + 1))
    \<and> ps_eq unate_at_most full 0 xs s = None"
proof -
  have "holds I (circuit_eq 0 (map ps_mk_not xs)) \<longleftrightarrow> length xs \<le> count_true I xs + 1" for I
    unfolding circuit_eq_zero count_negated by arith
  then show ?thesis
    using ps_eq_circuit_zero [OF assms] ps_eq_circuit_all [OF assms] circuit_eq_zero ps_eq_no_result(1) [OF assms] by blast
qed

theorem eq_none_wrong_witness:
  "(\<exists>r. ps_eq circuit_at_most True 0 [const 0, const 1] three_consts = Some (r, three_consts)
      \<and> (\<forall>I. holds I r \<longleftrightarrow> count_true I [const 0, const 1] \<le> 1))
    \<and> (\<exists>r. ps_eq circuit_at_most True (length [const 0, const 1]) [const 0, const 1] three_consts = Some (r, three_consts)
      \<and> (\<forall>I. holds I r \<longleftrightarrow> length [const 0, const 1] \<le> count_true I [const 0, const 1] + 1))
    \<and> ps_eq unate_at_most True 0 [const 0, const 1] three_consts = None"
  by (rule eq_none_wrong) simp

text \<open>C17: The truncated sorting network \<open>card\<close> returns the first \<open>k\<close> outputs of a sorted list: with the
  added clauses, output \<open>i\<close> is true only if more than \<open>i\<close> inputs are (not in mode \<open>LE\<close>) and is true if more than
  \<open>i\<close> inputs are (not in mode \<open>GE\<close>), whichever networks the estimates choose; and every interpretation of the old
  symbols extends to one in which the outputs are sorted.\<close>

theorem card_sorts:
  assumes "wf_psort s" "knowns s xs" "0 < k" "ps_card t k xs s = (out, s')"
  shows "length out = min k (length xs)
    \<and> (\<forall>I. sat I s' \<longrightarrow>
        sat I s \<and> (\<forall>i < length out. (t \<noteq> LE \<longrightarrow> holds I (out ! i) \<longrightarrow> i < count_true I xs)
          \<and> (t \<noteq> GE \<longrightarrow> i < count_true I xs \<longrightarrow> holds I (out ! i))))
    \<and> (\<forall>I. sat I s \<longrightarrow> (\<exists>J. agree (m_next_const s) I J \<and> sat J s'
        \<and> (\<forall>i < length out. holds J (out ! i) = (i < count_true I xs))))"
proof -
  have c: "sorts t xs s s' out" "length out = min k (length xs)" using ps_card_ok [OF assms(1,2,4,3)] by blast+
  have "\<exists>J. agree (m_next_const s) I J \<and> sat J s' \<and> (\<forall>i < length out. holds J (out ! i) = (i < count_true I xs))"
    if "sat I s" for I
    by (rule sorts_values [OF c(1) assms(2) that]) blast
  then show ?thesis
    using c(2) computesD(4) [OF c(1)] computesD(5) [OF c(1) _ _ refl] computesD(6) [OF c(1) _ _ refl]
    unfolding upper_def lower_def by blast
qed

theorem card_sorts_witness:
  "\<exists>out s'. length out = 2 \<and> (\<forall>I. sat I s' \<longrightarrow> (\<forall>i < 2. holds I (out ! i) = (i < count_true I [const 0, const 1, const 2])))"
proof -
  define xs where "xs = [const 0, const 1, const 2]"
  obtain out s' where run: "ps_card GE_FULL 2 xs three_consts = (out, s')" by (metis surj_pair)
  have "knowns three_consts xs" "0 < (2::nat)" using three_consts_wf(2) by (simp_all add: xs_def)
  note card = card_sorts [OF three_consts_wf(1) this run]
  have "length out = 2" using conjunct1 [OF card] by (simp add: xs_def)
  then have "length out = 2 \<and> (\<forall>I. sat I s' \<longrightarrow> (\<forall>i < 2. holds I (out ! i) = (i < count_true I xs)))"
    using card by auto
  then show ?thesis unfolding xs_def by blast
qed

end
