(* ===== verification/Finite_Arena.thy ===== *)
theory Finite_Arena
  imports Prelude
begin

text \<open>
  \<open>code/finite_case/finite_arena.py\<close>: the attractor of a set of vertices in a finite game arena. An
  arena is kept as the lists of predecessors of its vertices and the owners of the vertices. Every
  list access that Python checks is checked here: \<open>None\<close> is the \<open>IndexError\<close>. Vertices are natural
  numbers; Python's negative indices, which count from the end, are not used.
\<close>

subsection \<open>The arena\<close>

record arena =
  preds :: "nat list list"
  players :: "int list"

definition finite_arena :: "nat \<Rightarrow> arena" where
  "finite_arena n = \<lparr>preds = replicate n [], players = replicate n 0\<rparr>"

definition addPreds :: "nat \<Rightarrow> nat list \<Rightarrow> arena \<Rightarrow> arena option" where
  "addPreds index pred_list a =
     (if index < length (preds a) then Some (a\<lparr>preds := (preds a)[index := preds a ! index @ pred_list]\<rparr>)
      else None)"

definition setPlayers :: "int list \<Rightarrow> arena \<Rightarrow> arena" where
  "setPlayers ps a = (if length ps = length (preds a) then a\<lparr>players := ps\<rparr> else a)"

subsection \<open>The attractor\<close>

text \<open>A loop over a list whose body can fail.\<close>

fun for_each :: "('a \<Rightarrow> 's \<Rightarrow> 's option) \<Rightarrow> 'a list \<Rightarrow> 's \<Rightarrow> 's option" where
  "for_each f [] s = Some s"
| "for_each f (x # xs) s = (case f x s of None \<Rightarrow> None | Some s \<Rightarrow> for_each f xs s)"

definition count_edge :: "nat \<Rightarrow> int list \<Rightarrow> int list option" where
  "count_edge pred degs = (if pred < length degs then Some (degs[pred := degs ! pred + 1]) else None)"

definition out_degrees :: "arena \<Rightarrow> int list option" where
  "out_degrees a = for_each (for_each count_edge) (preds a) (replicate (length (preds a)) 0)"

definition mark :: "nat \<Rightarrow> int list \<Rightarrow> int list option" where
  "mark index attr = (if index < length attr then Some (attr[index := 1]) else None)"

text \<open>The body of the inner loop: the new vertices and the counters.\<close>

definition visit :: "arena \<Rightarrow> int \<Rightarrow> int list \<Rightarrow> nat \<Rightarrow> nat list \<times> int list \<Rightarrow> (nat list \<times> int list) option" where
  "visit a player attr pred = (\<lambda>(new, degs).
     if length attr \<le> pred then None
     else if attr ! pred = 0 then
       (if length (players a) \<le> pred then None
        else if players a ! pred = player then Some (new @ [pred], degs)
        else if length degs \<le> pred then None
        else
          (let degs = degs[pred := degs ! pred - 1]
           in if degs ! pred = 0 then Some (new @ [pred], degs) else Some (new, degs)))
     else Some (new, degs))"

definition check_vertex :: "arena \<Rightarrow> int \<Rightarrow> int list \<Rightarrow> nat \<Rightarrow> nat list \<times> int list \<Rightarrow> (nat list \<times> int list) option" where
  "check_vertex a player attr index s =
     (if index < length (preds a) then for_each (visit a player attr) (preds a ! index) s else None)"

text \<open>What is new in a round is not yet in the attractor, so the rounds end.\<close>

lemma for_each_append: "for_each f (xs @ ys) s = Option.bind (for_each f xs s) (for_each f ys)"
  by (induction xs arbitrary: s) (auto split: option.splits)

lemma for_each_invariant:
  assumes "for_each f xs s = Some s'" "P s" "\<And>x s s'. x \<in> set xs \<Longrightarrow> P s \<Longrightarrow> f x s = Some s' \<Longrightarrow> P s'"
  shows "P s'"
  using assms
proof (induction xs arbitrary: s)
  case (Cons x xs)
  obtain t where t: "f x s = Some t" "for_each f xs t = Some s'" using Cons.prems(1) by (auto split: option.splits)
  have "P t" using Cons.prems(2,3) t(1) by auto
  then show ?case using Cons.IH [OF t(2)] Cons.prems(3) by auto
qed simp

definition fresh :: "int list \<Rightarrow> nat list \<times> int list \<Rightarrow> bool" where
  "fresh attr s = (\<forall>v \<in> set (fst s). v < length attr \<and> attr ! v = 0)"

lemma round_fresh:
  assumes "for_each (check_vertex a player attr) to_check ([], degs) = Some s"
  shows "fresh attr s"
  using assms
proof (rule for_each_invariant)
  fix u s s' assume "fresh attr s" "check_vertex a player attr u s = Some s'"
  then show "fresh attr s'"
    by (auto simp: check_vertex_def split: if_splits elim!: for_each_invariant)
      (auto simp: fresh_def visit_def Let_def split: if_splits)
qed (simp add: fresh_def)

definition zeros :: "int list \<Rightarrow> nat" where
  "zeros attr = length (filter (\<lambda>x. x = 0) attr)"

lemma mark_all:
  assumes "for_each mark vs attr = Some attr'"
  shows "length attr' = length attr" "\<forall>v \<in> set vs. v < length attr"
    "v < length attr \<Longrightarrow> attr' ! v = (if v \<in> set vs then 1 else attr ! v)"
  using assms
proof (induction vs arbitrary: attr)
  case (Cons u vs)
  have u: "u < length attr" "for_each mark vs (attr[u := 1]) = Some attr'"
    if "for_each mark (u # vs) attr = Some attr'" for attr
    using that by (auto simp: mark_def split: if_splits)
  { case 1 show ?case using Cons.IH(1) u [OF 1] by simp
  next case 2 show ?case using Cons.IH(2) [OF u(2) [OF 2]] u(1) [OF 2] by simp
  next case 3 show ?case using Cons.IH(3) [OF _ u(2) [OF 3(2)]] u(1) [OF 3(2)] 3(1) by (auto simp: nth_list_update) }
qed simp_all

lemma mark_ok: "\<forall>v \<in> set vs. v < length attr \<Longrightarrow> for_each mark vs attr \<noteq> None"
  by (induction vs arbitrary: attr) (auto simp: mark_def)

lemma zeros_decrease:
  assumes "for_each mark vs attr = Some attr'" "fresh attr (vs, degs)" "vs \<noteq> []"
  shows "zeros attr' < zeros attr"
proof -
  note m = mark_all [OF assms(1)]
  obtain v where v: "v \<in> set vs" using assms(3) by (cases vs) auto
  have f: "\<And>v. v \<in> set vs \<Longrightarrow> v < length attr \<and> attr ! v = 0" using assms(2) by (simp add: fresh_def)
  have "{i. i < length attr' \<and> attr' ! i = 0} \<subset> {i. i < length attr \<and> attr ! i = 0}"
  proof (rule psubsetI)
    show "{i. i < length attr' \<and> attr' ! i = 0} \<subseteq> {i. i < length attr \<and> attr ! i = 0}"
      using m by (auto split: if_splits)
    have "v \<in> {i. i < length attr \<and> attr ! i = 0}" "v \<notin> {i. i < length attr' \<and> attr' ! i = 0}"
      using v f m(3) [of v] by auto
    then show "{i. i < length attr' \<and> attr' ! i = 0} \<noteq> {i. i < length attr \<and> attr ! i = 0}" by blast
  qed
  then show ?thesis
    unfolding zeros_def length_filter_conv_card by (intro psubset_card_mono) auto
qed

function attractor_loop :: "arena \<Rightarrow> int \<Rightarrow> nat list \<Rightarrow> int list \<Rightarrow> int list \<Rightarrow> int \<Rightarrow> int list option" where
  "attractor_loop a player new attr degs i =
     (if new \<noteq> [] \<and> i \<noteq> 0 then
        (case for_each (check_vertex a player attr) new ([], degs) of None \<Rightarrow> None
         | Some (new, degs) \<Rightarrow>
             (case for_each mark new attr of None \<Rightarrow> None
              | Some attr \<Rightarrow> attractor_loop a player new attr degs (i - 1)))
      else Some attr)"
  by pat_completeness auto

termination attractor_loop
proof (relation "measure (\<lambda>(a, player, new, attr, degs, i). zeros attr + (if new = [] then 0 else 1))", goal_cases)
  case (2 a player new attr degs i s new' degs' attr')
  then have "fresh attr (new', degs')" "for_each mark new' attr = Some attr'" "new \<noteq> []"
    using round_fresh by auto
  moreover have "attr' = attr" if "new' = []" using that calculation by simp
  ultimately show ?case using zeros_decrease [of new' attr attr' degs'] by auto
qed simp

declare attractor_loop.simps [simp del]

definition attractor :: "arena \<Rightarrow> nat list \<Rightarrow> int \<Rightarrow> int \<Rightarrow> int list option" where
  "attractor a F player i =
     (case out_degrees a of None \<Rightarrow> None
      | Some degs \<Rightarrow>
          (case for_each mark F (replicate (length (preds a)) 0) of None \<Rightarrow> None
           | Some attr \<Rightarrow> attractor_loop a player F attr degs i))"

subsection \<open>The game\<close>

text \<open>
  The attractor of \<open>F\<close>: the vertices from which the player can force a visit to \<open>F\<close>. A vertex of the
  player needs one edge into the attractor, a vertex of the opponent all its edges, and at least one.
\<close>

inductive_set attr_set :: "arena \<Rightarrow> nat list \<Rightarrow> int \<Rightarrow> nat set" for a F player where
  target: "v \<in> set F \<Longrightarrow> v \<in> attr_set a F player"
| own: "players a ! v = player \<Longrightarrow> u < length (preds a) \<Longrightarrow> v \<in> set (preds a ! u) \<Longrightarrow> u \<in> attr_set a F player \<Longrightarrow>
    v \<in> attr_set a F player"
| opponent: "players a ! v \<noteq> player \<Longrightarrow> u < length (preds a) \<Longrightarrow> v \<in> set (preds a ! u) \<Longrightarrow>
    (\<And>w. w < length (preds a) \<Longrightarrow> v \<in> set (preds a ! w) \<Longrightarrow> w \<in> attr_set a F player) \<Longrightarrow> v \<in> attr_set a F player"

definition wf_arena :: "arena \<Rightarrow> bool" where
  "wf_arena a = (length (players a) = length (preds a) \<and> (\<forall>ps \<in> set (preds a). \<forall>v \<in> set ps. v < length (preds a)))"

text \<open>The edges from \<open>v\<close> to a list of vertices.\<close>

definition edges_to :: "arena \<Rightarrow> nat list \<Rightarrow> nat \<Rightarrow> int" where
  "edges_to a us v = int (count_list (concat (map (\<lambda>u. preds a ! u) us)) v)"

lemma edges_to_append [simp]: "edges_to a (us @ vs) v = edges_to a us v + edges_to a vs v"
  by (simp add: edges_to_def)

lemma edges_to_nonneg [simp]: "0 \<le> edges_to a us v"
  by (simp add: edges_to_def)

lemma edges_to_zero: "edges_to a us v = 0 \<longleftrightarrow> (\<forall>u \<in> set us. v \<notin> set (preds a ! u))"
  by (auto simp: edges_to_def count_list_0_iff)

lemma edges_to_sum: "edges_to a us v = (\<Sum>u\<leftarrow>us. int (count_list (preds a ! u) v))"
  by (induction us) (simp_all add: edges_to_def)

definition outdeg :: "arena \<Rightarrow> nat \<Rightarrow> int" where
  "outdeg a v = edges_to a [0..<length (preds a)] v"

lemma edges_distinct:
  assumes "distinct us" "set us \<subseteq> {..<length (preds a)}"
  shows "outdeg a v = edges_to a us v + edges_to a (filter (\<lambda>u. u \<notin> set us) [0..<length (preds a)]) v"
proof -
  let ?f = "\<lambda>u. int (count_list (preds a ! u) v)"
  have "outdeg a v = sum ?f {..<length (preds a)}"
    by (simp add: outdeg_def edges_to_sum sum_list_distinct_conv_sum_set atLeast0LessThan)
  also have "\<dots> = sum ?f (set us) + sum ?f ({..<length (preds a)} - set us)"
    using assms(2) by (metis add.commute finite_lessThan sum.subset_diff)
  also have "{..<length (preds a)} - set us = set (filter (\<lambda>u. u \<notin> set us) [0..<length (preds a)])" by auto
  finally show ?thesis
    using assms(1) by (simp only: edges_to_sum sum_list_distinct_conv_sum_set distinct_filter distinct_upt)
qed

lemma edges_covered:
  assumes "\<And>u. u < length (preds a) \<Longrightarrow> v \<in> set (preds a ! u) \<Longrightarrow> u \<in> set us"
  shows "outdeg a v \<le> edges_to a us v"
proof -
  define us' where "us' = filter (\<lambda>u. u < length (preds a)) (remdups us)"
  have "edges_to a (filter (\<lambda>u. u \<notin> set us') [0..<length (preds a)]) v = 0"
    using assms by (auto simp: edges_to_zero us'_def)
  then have "outdeg a v = edges_to a us' v"
    using edges_distinct [of us' a v] by (auto simp: us'_def)
  also have "\<dots> \<le> edges_to a us v"
    unfolding us'_def edges_to_sum
    by (induction us) (auto intro: order_trans)
  finally show ?thesis .
qed

subsection \<open>What the loops compute\<close>

lemma count_edge_Some: "count_edge v degs = Some d \<longleftrightarrow> v < length degs \<and> d = degs[v := degs ! v + 1]"
  by (auto simp: count_edge_def)

lemma count_edges:
  assumes "for_each count_edge ps degs = Some degs'"
  shows "length degs' = length degs \<and> (\<forall>v \<in> set ps. v < length degs)
    \<and> (\<forall>v < length degs. degs' ! v = degs ! v + int (count_list ps v))"
  using assms
proof (induction ps arbitrary: degs)
  case (Cons p ps)
  then have p: "p < length degs" "for_each count_edge ps (degs[p := degs ! p + 1]) = Some degs'"
    by (auto simp: count_edge_Some split: option.splits)
  then show ?case using Cons.IH [OF p(2)] by (auto simp: nth_list_update)
qed simp

lemma count_edges_ok: "\<forall>v \<in> set ps. v < length degs \<Longrightarrow> for_each count_edge ps degs \<noteq> None"
  by (induction ps arbitrary: degs) (auto simp: count_edge_def)

lemma out_degrees_loop:
  assumes "for_each (for_each count_edge) pss degs = Some degs'"
  shows "length degs' = length degs \<and> (\<forall>ps \<in> set pss. \<forall>v \<in> set ps. v < length degs)
    \<and> (\<forall>v < length degs. degs' ! v = degs ! v + int (count_list (concat pss) v))"
  using assms
proof (induction pss arbitrary: degs)
  case (Cons ps pss)
  then obtain d where d: "for_each count_edge ps degs = Some d" "for_each (for_each count_edge) pss d = Some degs'"
    by (auto split: option.splits)
  then show ?case using Cons.IH [OF d(2)] count_edges [OF d(1)] by auto
qed simp

lemma out_degrees_loop_ok:
  assumes "\<forall>ps \<in> set pss. \<forall>v \<in> set ps. v < length degs"
  shows "for_each (for_each count_edge) pss degs \<noteq> None"
  using assms
proof (induction pss arbitrary: degs)
  case (Cons ps pss)
  obtain d where d: "for_each count_edge ps degs = Some d" using count_edges_ok [of ps degs] Cons.prems by auto
  then show ?case using Cons.IH [of d] Cons.prems count_edges [OF d] by auto
qed simp

lemma out_degrees:
  "out_degrees a = Some degs \<Longrightarrow> length degs = length (preds a) \<and> (\<forall>v < length (preds a). degs ! v = outdeg a v)"
  using out_degrees_loop [of "preds a" "replicate (length (preds a)) 0" degs]
  by (simp add: out_degrees_def outdeg_def edges_to_def map_nth)

lemma out_degrees_fails: "out_degrees a = None \<longleftrightarrow> \<not> (\<forall>ps \<in> set (preds a). \<forall>v \<in> set ps. v < length (preds a))"
  using out_degrees_loop [of "preds a" "replicate (length (preds a)) 0"]
    out_degrees_loop_ok [of "preds a" "replicate (length (preds a)) 0"]
  by (cases "out_degrees a") (auto simp: out_degrees_def)

lemma visits:
  assumes "for_each (visit a player attr) ps (new, degs) = Some (new', degs')"
  shows "length degs' = length degs
    \<and> (\<forall>v < length degs. degs' ! v = degs ! v - (if attr ! v = 0 \<and> players a ! v \<noteq> player then int (count_list ps v) else 0))
    \<and> (\<forall>v < length degs. count_list new' v = count_list new v + (if attr ! v \<noteq> 0 then 0 else
          if players a ! v = player then count_list ps v else of_bool (0 < degs ! v \<and> degs' ! v \<le> 0)))
    \<and> set new' \<subseteq> set new \<union> set ps"
  using assms
proof (induction ps arbitrary: new degs)
  case (Cons p ps)
  then obtain n d where n: "visit a player attr p (new, degs) = Some (n, d)"
    "for_each (visit a player attr) ps (n, d) = Some (new', degs')" by (auto split: option.splits)
  note ih = Cons.IH [OF n(2)]
  consider "attr ! p \<noteq> 0" "n = new" "d = degs"
    | "attr ! p = 0" "players a ! p = player" "n = new @ [p]" "d = degs"
    | "attr ! p = 0" "players a ! p \<noteq> player" "p < length degs" "d = degs[p := degs ! p - 1]"
      "n = (if degs ! p = 1 then new @ [p] else new)"
    using n(1) by (auto simp: visit_def Let_def split: if_splits)
  then show ?case
  proof cases
    case 1
    then show ?thesis using ih by auto
  next
    case 2
    then show ?thesis using ih by auto
  next
    case 3
    have "d ! v = (if v = p then degs ! p - 1 else degs ! v)" if "v < length degs" for v
      using 3 that by (simp add: nth_list_update)
    moreover have "length d = length degs" using 3 by simp
    ultimately show ?thesis using ih 3 by (auto split: if_splits)
  qed
qed simp

lemma check_vertex_Some:
  "check_vertex a player attr u s = Some s' \<longleftrightarrow>
    u < length (preds a) \<and> for_each (visit a player attr) (preds a ! u) s = Some s'"
  by (simp add: check_vertex_def)

lemma check_vertices:
  assumes "for_each (check_vertex a player attr) us s = Some s'"
  shows "for_each (visit a player attr) (concat (map (\<lambda>u. preds a ! u) us)) s = Some s' \<and> (\<forall>u \<in> set us. u < length (preds a))"
  using assms
proof (induction us arbitrary: s)
  case (Cons u us)
  then obtain t where "u < length (preds a)" "for_each (visit a player attr) (preds a ! u) s = Some t"
    "for_each (check_vertex a player attr) us t = Some s'"
    by (auto simp: check_vertex_Some split: option.splits)
  then show ?case using Cons.IH [of t] by (simp add: for_each_append)
qed simp

lemma visits_ok:
  assumes "\<forall>v \<in> set ps. v < length attr" "length (players a) = length attr" "length (snd s) = length attr"
  shows "for_each (visit a player attr) ps s \<noteq> None"
  using assms
proof (induction ps arbitrary: s)
  case (Cons p ps)
  obtain new degs where s: "s = (new, degs)" by force
  have "\<exists>t. visit a player attr p s = Some t \<and> length (snd t) = length attr"
    using Cons.prems by (simp add: s visit_def Let_def)
  then obtain t where t: "visit a player attr p s = Some t" "length (snd t) = length attr" by blast
  then show ?case using Cons.IH [of t] Cons.prems by simp
qed simp

lemma check_vertices_ok:
  assumes "\<forall>u \<in> set us. u < length (preds a)" "wf_arena a" "length attr = length (preds a)" "length (snd s) = length attr"
  shows "for_each (check_vertex a player attr) us s \<noteq> None"
  using assms
proof (induction us arbitrary: s)
  case (Cons u us)
  obtain new degs where s: "s = (new, degs)" by force
  have "\<forall>v \<in> set (preds a ! u). v < length attr" using Cons.prems by (auto simp: wf_arena_def)
  then obtain t where t: "for_each (visit a player attr) (preds a ! u) s = Some t"
    using visits_ok [of "preds a ! u" attr a s player] Cons.prems by (auto simp: wf_arena_def)
  then have "length (snd t) = length attr"
    using visits [of a player attr "preds a ! u" new degs "fst t" "snd t"] Cons.prems s by simp
  then show ?case using Cons.IH [of t] Cons.prems t check_vertex_Some [of a player attr u s t] by simp
qed simp

text \<open>One round, for the vertices not yet in the attractor.\<close>

lemma round:
  assumes "for_each (check_vertex a player attr) us ([], degs) = Some (new, degs')"
    and "length degs = length (preds a)" "v < length (preds a)" "attr ! v = 0"
  shows "players a ! v \<noteq> player \<Longrightarrow> degs' ! v = degs ! v - edges_to a us v"
    and "players a ! v = player \<Longrightarrow> int (count_list new v) = edges_to a us v"
    and "players a ! v \<noteq> player \<Longrightarrow> count_list new v = of_bool (0 < degs ! v \<and> degs' ! v \<le> 0)"
  using visits [OF conjunct1 [OF check_vertices [OF assms(1)]]] assms(2-4)
  by (simp_all add: edges_to_def)

text \<open>
  The state between two rounds: \<open>procs\<close> are the vertices whose predecessors have been visited, in the
  order and as often as they were visited.
\<close>

definition between :: "arena \<Rightarrow> int \<Rightarrow> nat list \<Rightarrow> nat list \<Rightarrow> int list \<Rightarrow> int list \<Rightarrow> bool" where
  "between a player procs new attr degs \<longleftrightarrow>
     length attr = length (preds a) \<and> length degs = length (preds a)
     \<and> set procs \<union> set new \<subseteq> {..<length (preds a)}
     \<and> (\<forall>v < length (preds a). attr ! v = of_bool (v \<in> set procs \<union> set new))
     \<and> (\<forall>v < length (preds a). attr ! v = 0 \<longrightarrow>
          (if players a ! v = player then edges_to a procs v = 0
           else degs ! v = outdeg a v - edges_to a procs v \<and> (0 < degs ! v \<or> outdeg a v = 0)))"

lemma between_round:
  assumes b: "between a player procs us attr degs"
    and r: "for_each (check_vertex a player attr) us ([], degs) = Some (new, degs')"
    and m: "for_each mark new attr = Some attr'"
  shows "between a player (procs @ us) new attr' degs'"
proof -
  define n where "n = length (preds a)"
  have B: "length attr = n" "length degs = n" "set procs \<union> set us \<subseteq> {..<n}"
    "\<And>v. v < n \<Longrightarrow> attr ! v = of_bool (v \<in> set procs \<union> set us)"
    "\<And>v. v < n \<Longrightarrow> attr ! v = 0 \<Longrightarrow> players a ! v = player \<Longrightarrow> edges_to a procs v = 0"
    "\<And>v. v < n \<Longrightarrow> attr ! v = 0 \<Longrightarrow> players a ! v \<noteq> player \<Longrightarrow>
      degs ! v = outdeg a v - edges_to a procs v \<and> (0 < degs ! v \<or> outdeg a v = 0)"
    using b by (auto simp: between_def n_def)
  note M = mark_all [OF m]
  have fr: "\<And>v. v \<in> set new \<Longrightarrow> v < n \<and> attr ! v = 0" using round_fresh [OF r] B(1) by (simp add: fresh_def)
  have len: "length degs' = n"
    using visits [OF conjunct1 [OF check_vertices [OF r]]] B(2) by simp
  have new: "attr ! v = 0 \<and> v \<notin> set new" if "v < n" "attr' ! v = 0" for v
    using M(3) [of v] that B(1) by (auto split: if_splits)
  have "edges_to a (procs @ us) v = 0" if "v < n" "attr' ! v = 0" "players a ! v = player" for v
    using round(2) [OF r _ _ conjunct1 [OF new [OF that(1,2)]] that(3)] new [OF that(1,2)] B(2) B(5) [of v] that
    by (simp add: n_def count_list_0_iff)
  moreover have "degs' ! v = outdeg a v - edges_to a (procs @ us) v \<and> (0 < degs' ! v \<or> outdeg a v = 0)"
    if "v < n" "attr' ! v = 0" "players a ! v \<noteq> player" for v
    using round(1,3) [OF r _ _ conjunct1 [OF new [OF that(1,2)]] that(3)] new [OF that(1,2)] B(2) B(6) [of v] that
    by (auto simp: n_def count_list_0_iff)
  moreover have "attr' ! v = of_bool (v \<in> set (procs @ us) \<union> set new)" if "v < n" for v
    using M(3) [of v] B(1,4) that by auto
  moreover have "set (procs @ us) \<union> set new \<subseteq> {..<n}" using B(3) fr by auto
  moreover have "length attr' = n" using M(1) B(1) by simp
  ultimately show ?thesis
    unfolding between_def n_def [symmetric] if_bool_eq_conj using len by blast
qed

lemma between_start:
  assumes "out_degrees a = Some degs" "for_each mark F (replicate (length (preds a)) 0) = Some attr"
  shows "between a player [] F attr degs"
proof -
  note m = mark_all [OF assms(2)]
  have "0 < outdeg a v \<or> outdeg a v = 0" for v using edges_to_nonneg [of a _ v] by (simp add: outdeg_def less_le)
  then show ?thesis
    using m out_degrees [OF assms(1)] by (auto simp: between_def edges_to_def)
qed

text \<open>When nothing is new the marked vertices contain the attractor.\<close>

lemma between_end:
  assumes "between a player procs [] attr degs" "wf_arena a" "set F \<subseteq> set procs" "v \<in> attr_set a F player"
  shows "v \<in> set procs"
  using assms(4)
proof (induction rule: attr_set.induct)
  case (target v)
  then show ?case using assms(3) by auto
next
  case (own v u)
  then have "v < length (preds a)" using assms(2) by (auto simp: wf_arena_def)
  then show ?case
    using own assms(1) by (auto simp: between_def edges_to_zero split: if_splits)
next
  case (opponent v u)
  have v: "v < length (preds a)" using opponent assms(2) by (auto simp: wf_arena_def)
  show ?case
  proof (rule ccontr)
    assume "v \<notin> set procs"
    then have "degs ! v = outdeg a v - edges_to a procs v" "0 < degs ! v \<or> outdeg a v = 0"
      using assms(1) v opponent(1) by (auto simp: between_def)
    moreover have "outdeg a v \<le> edges_to a procs v" using opponent(5) by (intro edges_covered) auto
    ultimately have "outdeg a v = 0" by linarith
    then have "\<forall>u \<in> set [0..<length (preds a)]. v \<notin> set (preds a ! u)" unfolding outdeg_def edges_to_zero .
    then show False using opponent(2,3) by auto
  qed
qed

text \<open>One more round in a proper arena.\<close>

lemma next_round:
  assumes "between a player procs new attr degs" "wf_arena a"
  obtains new' degs' attr' where "for_each (check_vertex a player attr) new ([], degs) = Some (new', degs')"
    "for_each mark new' attr = Some attr'" "between a player (procs @ new) new' attr' degs'"
proof -
  have b: "length attr = length (preds a)" "length degs = length (preds a)" "\<forall>u \<in> set new. u < length (preds a)"
    using assms(1) by (auto simp: between_def)
  obtain new' degs' where r: "for_each (check_vertex a player attr) new ([], degs) = Some (new', degs')"
    using check_vertices_ok [OF b(3) assms(2) b(1), of "([], degs)" player] b by auto
  obtain attr' where m: "for_each mark new' attr = Some attr'"
    using mark_ok [of new' attr] round_fresh [OF r] by (auto simp: fresh_def)
  show thesis using that [OF r m between_round [OF assms(1) r m]] .
qed

text \<open>The loop never fails in a proper arena, and ends with the attractor contained in the result.\<close>

lemma loop_contains:
  assumes "between a player procs new attr degs" "wf_arena a" "set F \<subseteq> set procs \<union> set new"
  shows "\<exists>res. attractor_loop a player new attr degs i = Some res \<and> length res = length (preds a)
    \<and> (\<forall>v < length (preds a). res ! v = 0 \<or> res ! v = 1) \<and> (i < 0 \<longrightarrow> (\<forall>v \<in> attr_set a F player. res ! v = 1))"
  using assms
proof (induction a player new attr degs i arbitrary: procs rule: attractor_loop.induct)
  case (1 a player new attr degs i)
  show ?case
  proof (cases "new \<noteq> [] \<and> i \<noteq> 0")
    case True
    obtain new' degs' attr' where r: "for_each (check_vertex a player attr) new ([], degs) = Some (new', degs')"
      "for_each mark new' attr = Some attr'" "between a player (procs @ new) new' attr' degs'"
      by (rule next_round [OF 1(2,3)])
    have l: "attractor_loop a player new attr degs i = attractor_loop a player new' attr' degs' (i - 1)"
      using True r by (simp add: attractor_loop.simps [of a player new])
    have "set F \<subseteq> set (procs @ new) \<union> set new'" using 1(4) by auto
    from 1(1) [OF True r(1) refl r(2,3) 1(3) this] show ?thesis unfolding l by auto
  next
    case False
    have "\<forall>v \<in> attr_set a F player. attr ! v = 1" if "i < 0"
    proof
      fix v assume v: "v \<in> attr_set a F player"
      have n: "new = []" using False that by auto
      then have "v \<in> set procs" using between_end [of a player procs attr degs F v] 1(2-4) v by simp
      then show "attr ! v = 1" using 1(2) by (auto simp: between_def n)
    qed
    moreover have "attractor_loop a player new attr degs i = Some attr"
      using False by (auto simp: attractor_loop.simps [of a player new])
    moreover have "length attr = length (preds a)" "\<forall>v < length (preds a). attr ! v = 0 \<or> attr ! v = 1"
      using 1(2) by (auto simp: between_def)
    ultimately show ?thesis by simp
  qed
qed

text \<open>
  The converse needs that no vertex is listed twice in a round: the counters of its predecessors would
  be decremented twice for one edge. That is the case when every vertex of the player outside \<open>F\<close> has
  at most one edge into the attractor.
\<close>

definition one_edge :: "arena \<Rightarrow> nat list \<Rightarrow> int \<Rightarrow> bool" where
  "one_edge a F player \<longleftrightarrow>
     (\<forall>v. players a ! v = player \<longrightarrow> v \<notin> set F \<longrightarrow>
        (\<forall>us. distinct us \<longrightarrow> set us \<subseteq> attr_set a F player \<longrightarrow> set us \<subseteq> {..<length (preds a)} \<longrightarrow> edges_to a us v \<le> 1))"

lemma round_sound:
  assumes b: "between a player procs us attr degs"
    and r: "for_each (check_vertex a player attr) us ([], degs) = Some (new, degs')"
    and s: "distinct (procs @ us)" "set (procs @ us) \<subseteq> attr_set a F player" "set F \<subseteq> set (procs @ us)"
    and one: "one_edge a F player"
  shows "distinct (procs @ us @ new) \<and> set new \<subseteq> attr_set a F player"
proof -
  define n where "n = length (preds a)"
  have B: "length degs = n" "set (procs @ us) \<subseteq> {..<n}" "\<And>v. v < n \<Longrightarrow> attr ! v = of_bool (v \<in> set (procs @ us))" "length attr = n"
    using b by (auto simp: between_def n_def)
  have fr: "\<And>v. v \<in> set new \<Longrightarrow> v < n \<and> attr ! v = 0" using round_fresh [OF r] B(4) by (simp add: fresh_def)
  have out: "v \<notin> set (procs @ us)" if "v \<in> set new" for v using fr [OF that] B(3) [of v] by auto
  have each: "count_list new v = 1 \<and> v \<in> attr_set a F player" if v: "v \<in> set new" for v
  proof (cases "players a ! v = player")
    case True
    have e: "int (count_list new v) = edges_to a us v"
      using round(2) [OF r _ _ _ True] fr [OF v] B(1) by (simp add: n_def)
    have pos: "count_list new v \<noteq> 0" using v by (simp add: count_list_0_iff)
    have "edges_to a us v \<le> 1"
      using one True out [OF v] s B(2) by (auto simp: one_edge_def n_def)
    moreover have "\<not> (\<forall>u \<in> set us. v \<notin> set (preds a ! u))" using e pos edges_to_zero [of a us v] by linarith
    then obtain u where "u \<in> set us" "v \<in> set (preds a ! u)" by blast
    then have "v \<in> attr_set a F player"
      using s(2) B(2) True by (intro attr_set.own [of a v player u]) (auto simp: n_def)
    ultimately show ?thesis using e pos by linarith
  next
    case False
    have c: "count_list new v = of_bool (0 < degs ! v \<and> degs' ! v \<le> 0)"
      using round(3) [OF r _ _ _ False] fr [OF v] B(1) by (simp add: n_def)
    have pos: "count_list new v \<noteq> 0" using v by (simp add: count_list_0_iff)
    have d: "degs' ! v = degs ! v - edges_to a us v" "degs ! v = outdeg a v - edges_to a procs v"
      using round(1) [OF r _ _ _ False] fr [OF v] B(1) b False by (auto simp: between_def n_def)
    have "outdeg a v \<le> edges_to a (procs @ us) v" using c pos d by (auto split: if_splits)
    then have "edges_to a (filter (\<lambda>u. u \<notin> set (procs @ us)) [0..<n]) v = 0"
      using edges_distinct [OF s(1), of a v] B(2) edges_to_nonneg [of a "filter (\<lambda>u. u \<notin> set (procs @ us)) [0..<n]" v]
      unfolding n_def by linarith
    then have all: "w \<in> set (procs @ us)" if "w < n" "v \<in> set (preds a ! w)" for w
      using that unfolding edges_to_zero by auto
    have "0 < degs ! v" using c pos by (auto split: if_splits)
    then have "0 < outdeg a v" using d edges_to_nonneg [of a procs v] by linarith
    then have "\<not> (\<forall>u \<in> set [0..<n]. v \<notin> set (preds a ! u))"
      using edges_to_zero [of a "[0..<n]" v] unfolding outdeg_def n_def by linarith
    then obtain u where u: "u < n" "v \<in> set (preds a ! u)" by auto
    have "v \<in> attr_set a F player"
      using False u all s(2) by (intro attr_set.opponent [of a v player u]) (auto simp: n_def)
    then show ?thesis using c pos by (auto split: if_splits)
  qed
  have "distinct new"
    unfolding distinct_count_atmost_1 count_mset using each by (auto simp: count_list_0_iff)
  then show ?thesis using s(1) out each by auto
qed

lemma loop_sound:
  assumes "between a player procs new attr degs" "wf_arena a" "one_edge a F player"
    and "distinct (procs @ new)" "set (procs @ new) \<subseteq> attr_set a F player" "set F \<subseteq> set (procs @ new)"
    and "attractor_loop a player new attr degs i = Some res" "v < length (preds a)" "res ! v = 1"
  shows "v \<in> attr_set a F player"
  using assms
proof (induction a player new attr degs i arbitrary: procs rule: attractor_loop.induct)
  case (1 a player new attr degs i)
  show ?case
  proof (cases "new \<noteq> [] \<and> i \<noteq> 0")
    case True
    obtain new' degs' attr' where r: "for_each (check_vertex a player attr) new ([], degs) = Some (new', degs')"
      "for_each mark new' attr = Some attr'" "between a player (procs @ new) new' attr' degs'"
      by (rule next_round [OF 1(2,3)])
    have l: "attractor_loop a player new' attr' degs' (i - 1) = Some res"
      using True r 1(8) by (simp add: attractor_loop.simps [of a player new])
    have s: "distinct ((procs @ new) @ new')" "set ((procs @ new) @ new') \<subseteq> attr_set a F player"
      using round_sound [OF 1(2) r(1) 1(5-7,4)] 1(6) by auto
    have F: "set F \<subseteq> set ((procs @ new) @ new')" using 1(7) by auto
    from 1(1) [OF True r(1) refl r(2,3) 1(3,4) s F l 1(9,10)] show ?thesis .
  next
    case False
    then have "res = attr" using 1(8) by (auto simp: attractor_loop.simps [of a player new])
    then have "v \<in> set (procs @ new)" using 1(2,9,10) by (auto simp: between_def split: if_splits)
    then show ?thesis using 1(6) by auto
  qed
qed

lemma attractor_start:
  assumes "wf_arena a" "\<forall>v \<in> set F. v < length (preds a)"
  obtains attr degs where "attractor a F player i = attractor_loop a player F attr degs i" "between a player [] F attr degs"
proof -
  obtain degs where d: "out_degrees a = Some degs"
    using out_degrees_fails [of a] assms(1) by (auto simp: wf_arena_def)
  obtain attr where m: "for_each mark F (replicate (length (preds a)) 0) = Some attr"
    using mark_ok [of F "replicate (length (preds a)) 0"] assms(2) by auto
  show thesis using that [of attr degs] d m between_start [OF d m] by (simp add: attractor_def)
qed

subsection \<open>Properties\<close>

text \<open>C12: in a proper arena the computation ends without an error and marks every vertex from which the
  player can force a visit to \<open>F\<close>, when the number of rounds is not bounded; it fails exactly when a
  predecessor or a vertex of \<open>F\<close> is out of range.\<close>

theorem attractor_contains:
  assumes "length (players a) = length (preds a)"
  shows "case attractor a F player i of
      None \<Rightarrow> \<not> wf_arena a \<or> \<not> (\<forall>v \<in> set F. v < length (preds a))
    | Some res \<Rightarrow> wf_arena a \<and> (\<forall>v \<in> set F. v < length (preds a)) \<and> length res = length (preds a)
        \<and> (\<forall>v < length (preds a). res ! v = 0 \<or> res ! v = 1)
        \<and> (i < 0 \<longrightarrow> (\<forall>v \<in> attr_set a F player. res ! v = 1))"
proof (cases "wf_arena a \<and> (\<forall>v \<in> set F. v < length (preds a))")
  case True
  obtain attr degs where s: "attractor a F player i = attractor_loop a player F attr degs i" "between a player [] F attr degs"
    using attractor_start True by blast
  then show ?thesis using loop_contains [OF s(2), of F i] True by auto
next
  case False
  have "attractor a F player i = None"
  proof (cases "out_degrees a")
    case (Some degs)
    then have "wf_arena a" using out_degrees_fails [of a] assms by (auto simp: wf_arena_def)
    then have "for_each mark F (replicate (length (preds a)) 0) = None"
      using False mark_all(2) [of F "replicate (length (preds a)) 0"] by (cases "for_each mark F (replicate (length (preds a)) 0)") auto
    then show ?thesis by (simp add: attractor_def Some)
  qed (simp add: attractor_def)
  then show ?thesis using False by auto
qed

text \<open>The arena built at the end of the program.\<close>

definition sample_arena :: arena where
  "sample_arena = \<lparr>preds = [[6, 7], [3, 4], [1, 3], [4, 5], [8], [2, 4, 8], [0, 7], [8], [5, 9], [8, 10], [8, 6]],
     players = [0, 0, 0, 1, 1, 0, 0, 1, 1, 0, 1]\<rparr>"

theorem attractor_contains_witness:
  "attractor sample_arena [0, 1, 2] 0 (- 1) = Some [1, 1, 1, 1, 1, 1, 1, 1, 0, 0, 0]
    \<and> wf_arena sample_arena \<and> 8 \<notin> attr_set sample_arena [0, 1, 2] 0 \<and> attractor sample_arena [11] 0 (- 1) = None"
proof -
  have run: "attractor sample_arena [0, 1, 2] 0 (- 1) = Some [1, 1, 1, 1, 1, 1, 1, 1, 0, 0, 0]"
    "attractor sample_arena [11] 0 (- 1) = None" by code_simp+
  have len: "length (players sample_arena) = length (preds sample_arena)" by (simp add: sample_arena_def)
  show ?thesis
    using attractor_contains [OF len, where F = "[0, 1, 2]" and player = 0 and i = "- 1"] run by auto
qed

text \<open>C13: when \<open>F\<close> has no duplicates and every vertex of the player outside it has at most one edge into
  the attractor, the computed vertices are exactly the attractor.\<close>

theorem attractor_exact:
  assumes "wf_arena a" "\<forall>v \<in> set F. v < length (preds a)" "distinct F" "one_edge a F player" "i < 0"
  shows "\<exists>res. attractor a F player i = Some res \<and> {v. v < length (preds a) \<and> res ! v = 1} = attr_set a F player"
proof -
  obtain attr degs where s: "attractor a F player i = attractor_loop a player F attr degs i" "between a player [] F attr degs"
    using attractor_start assms(1,2) by blast
  obtain res where r: "attractor_loop a player F attr degs i = Some res" "\<forall>v \<in> attr_set a F player. res ! v = 1"
    using loop_contains [OF s(2) assms(1), of F i] assms(5) by auto
  have "set F \<subseteq> attr_set a F player" by (auto intro: attr_set.target)
  then have sound: "v \<in> attr_set a F player" if "v < length (preds a)" "res ! v = 1" for v
    using loop_sound [OF s(2) assms(1,4) _ _ _ r(1) that] assms(3) by simp
  have "v < length (preds a)" if "v \<in> attr_set a F player" for v
    using that assms(1,2) by (induction rule: attr_set.induct) (auto simp: wf_arena_def)
  then show ?thesis using s(1) r sound by auto
qed

text \<open>Here the opponent's vertex 2 has an edge outside the attractor, the player's vertex 1 one edge inside.\<close>

definition one_path :: arena where
  "one_path = \<lparr>preds = [[1], [2], [], [2, 3]], players = [0, 0, 1, 0]\<rparr>"

theorem attractor_exact_witness:
  "\<exists>res. attractor one_path [0] 0 (- 1) = Some res \<and> {v. v < length (preds one_path) \<and> res ! v = 1} = attr_set one_path [0] 0"
proof (rule attractor_exact)
  show "wf_arena one_path" by code_simp
  have "edges_to one_path us v \<le> 1" if "distinct us" "set us \<subseteq> {..<length (preds one_path)}" "players one_path ! v = 0" for us v
  proof -
    have "edges_to one_path us v \<le> outdeg one_path v"
      using edges_distinct [of us one_path v] that(1,2) by simp
    also have "outdeg one_path v \<le> 1"
      using that(3) by (cases "v = 2") (simp_all add: outdeg_def edges_to_def one_path_def upt_rec)
    finally show ?thesis .
  qed
  then show "one_edge one_path [0] 0" by (simp add: one_edge_def)
qed (simp_all add: one_path_def)

text \<open>C14: in general it marks too much. The vertex 2 of the player has two edges into \<open>F\<close> and is listed
  twice in the first round; in the second round the counter of the opponent's vertex 3 is
  decremented twice for its one edge to 2, so that 3 is marked although its other edge leads to 4,
  outside the attractor.\<close>

definition two_paths :: arena where
  "two_paths = \<lparr>preds = [[2], [2], [3], [], [3, 4]], players = [0, 0, 0, 1, 0]\<rparr>"

theorem attractor_overcounts:
  "attractor two_paths [0, 1] 0 (- 1) = Some [1, 1, 1, 1, 0] \<and> 3 \<notin> attr_set two_paths [0, 1] 0
    \<and> wf_arena two_paths"
proof -
  have four: "v \<in> attr_set two_paths [0, 1] 0 \<Longrightarrow> v \<noteq> 4 \<and> v \<noteq> 3" for v
  proof (induction rule: attr_set.induct)
    case (own v u)
    then have "u < 5" "u \<noteq> 3" "u \<noteq> 4" by (auto simp: two_paths_def)
    then have "u = 0 \<or> u = 1 \<or> u = 2" by linarith
    then show ?case using own by (elim disjE) (simp_all add: two_paths_def)
  next
    case (opponent v u)
    have "u < 5" using opponent(2) by (simp add: two_paths_def)
    then have "u = 0 \<or> u = 1 \<or> u = 2 \<or> u = 3 \<or> u = 4" by linarith
    then have "v = 2 \<or> v = 3 \<or> v = 4" using opponent(3) by (elim disjE) (auto simp: two_paths_def)
    then show ?case
      using opponent(1) opponent(5) [of 4] by (elim disjE) (simp_all add: two_paths_def)
  next
    case (target v)
    then show ?case by auto
  qed
  moreover have "attractor two_paths [0, 1] 0 (- 1) = Some [1, 1, 1, 1, 0]" by code_simp
  moreover have "wf_arena two_paths" by code_simp
  ultimately show ?thesis by blast
qed

end
