(* ===== verification/Automaton.thy ===== *)
theory Automaton
  imports Prelude
begin

text \<open>
  Finite automata of the package \<open>transducer\<close> (a copy of \<open>dk.brics.automaton\<close> that the learner for
  infinite games works with): \<open>Transition\<close>, \<open>State\<close> and \<open>Automaton\<close> as records, runs of words and the
  language of an automaton.

  A \<open>State\<close> object is represented by its number, its position in \<open>au_states\<close>, which is the set
  \<open>getStates()\<close> in the order that \<open>setStateNumbers\<close> numbers it in; a Java \<open>HashSet\<close> of transitions is
  the list of its members in some order. Nothing below depends on either order.
\<close>

subsection \<open>Data\<close>

type_synonym jchar = "16 word"
type_synonym jstring = "jchar list"

record transition =
  t_min :: jchar
  t_max :: jchar
  t_to :: nat

record state =
  st_accept :: bool
  st_transitions :: "transition list"

record automaton =
  au_initial :: nat
  au_states :: "state list"
  au_deterministic :: bool
  au_singleton :: "jstring option"

definition char_transition :: "jchar \<Rightarrow> nat \<Rightarrow> transition" where
  "char_transition c to = \<lparr>t_min = c, t_max = c, t_to = to\<rparr>"

definition range_transition :: "jchar \<Rightarrow> jchar \<Rightarrow> nat \<Rightarrow> transition" where
  "range_transition lo hi to =
    (if hi < lo then \<lparr>t_min = hi, t_max = lo, t_to = to\<rparr>
     else \<lparr>t_min = lo, t_max = hi, t_to = to\<rparr>)"

definition new_state :: state where
  "new_state = \<lparr>st_accept = False, st_transitions = []\<rparr>"

definition new_automaton :: automaton where
  "new_automaton =
    \<lparr>au_initial = 0, au_states = [new_state], au_deterministic = True, au_singleton = None\<rparr>"

definition make_string :: "jstring \<Rightarrow> automaton" where
  "make_string s = new_automaton\<lparr>au_singleton := Some s, au_deterministic := True\<rparr>"

abbreviation state_of :: "automaton \<Rightarrow> nat \<Rightarrow> state" where
  "state_of A q \<equiv> au_states A ! q"

abbreviation accepting :: "automaton \<Rightarrow> nat \<Rightarrow> bool" where
  "accepting A q \<equiv> st_accept (state_of A q)"

abbreviation transitions_of :: "automaton \<Rightarrow> nat \<Rightarrow> transition list" where
  "transitions_of A q \<equiv> st_transitions (state_of A q)"

text \<open>The chain of states for a string: the states of \<open>expandSingleton\<close>.\<close>

definition string_states :: "jstring \<Rightarrow> state list" where
  "string_states s =
    map (\<lambda>i. \<lparr>st_accept = False, st_transitions = [char_transition (s ! i) (Suc i)]\<rparr>) [0..<length s]
    @ [\<lparr>st_accept = True, st_transitions = []\<rparr>]"

definition expand_singleton :: "automaton \<Rightarrow> automaton" where
  "expand_singleton A =
    (case au_singleton A of
       None \<Rightarrow> A
     | Some s \<Rightarrow> \<lparr>au_initial = 0, au_states = string_states s, au_deterministic = True,
                  au_singleton = None\<rparr>)"

definition get_number_of_states :: "automaton \<Rightarrow> nat" where
  "get_number_of_states A =
    (case au_singleton A of
       None \<Rightarrow> length (au_states A)
     | Some s \<Rightarrow> length s + 1)"

definition get_accept_states :: "automaton \<Rightarrow> nat list" where
  "get_accept_states A =
    (let A = expand_singleton A in filter (accepting A) [0..<length (au_states A)])"

subsection \<open>Runs\<close>

definition matches :: "transition \<Rightarrow> jchar \<Rightarrow> bool" where
  "matches t c = (t_min t \<le> c \<and> c \<le> t_max t)"

definition step_det :: "state \<Rightarrow> jchar \<Rightarrow> nat option" where
  "step_det s c = map_option t_to (find (\<lambda>t. matches t c) (st_transitions s))"

definition step_all :: "state \<Rightarrow> jchar \<Rightarrow> nat list" where
  "step_all s c = map t_to (filter (\<lambda>t. matches t c) (st_transitions s))"

fun run_det :: "automaton \<Rightarrow> nat \<Rightarrow> jstring \<Rightarrow> bool" where
  "run_det A p [] = accepting A p"
| "run_det A p (c # s) =
    (case step_det (state_of A p) c of None \<Rightarrow> False | Some q \<Rightarrow> run_det A q s)"

fun run_all :: "automaton \<Rightarrow> nat list \<Rightarrow> bool \<Rightarrow> jstring \<Rightarrow> bool" where
  "run_all A pp accept [] = accept"
| "run_all A pp accept (c # s) =
    (let dest = concat (map (\<lambda>p. step_all (state_of A p) c) pp)
     in run_all A (remdups dest) (list_ex (accepting A) dest) s)"

definition run :: "automaton \<Rightarrow> jstring \<Rightarrow> bool" where
  "run A s =
    (case au_singleton A of
       Some x \<Rightarrow> s = x
     | None \<Rightarrow>
         if au_deterministic A then run_det A (au_initial A) s
         else run_all A [au_initial A] (accepting A (au_initial A)) s)"

subsection \<open>Language and well-formedness\<close>

fun delta :: "automaton \<Rightarrow> jstring \<Rightarrow> nat \<Rightarrow> nat set" where
  "delta A [] p = {p}"
| "delta A (c # w) p = \<Union> (delta A w ` set (step_all (state_of A p) c))"

definition lang :: "automaton \<Rightarrow> jstring set" where
  "lang A =
    (let A = expand_singleton A
     in {w. \<exists>q \<in> delta A w (au_initial A). accepting A q})"

definition wf_automaton :: "automaton \<Rightarrow> bool" where
  "wf_automaton A \<longleftrightarrow>
    (au_singleton A = None \<longrightarrow>
      au_initial A < length (au_states A)
      \<and> (\<forall>s \<in> set (au_states A). \<forall>t \<in> set (st_transitions s). t_to t < length (au_states A)))"

text \<open>What the flag \<open>deterministic\<close> promises: no two transitions of a state share a character and
  lead to different states.\<close>

definition deterministic_state :: "state \<Rightarrow> bool" where
  "deterministic_state s \<longleftrightarrow>
    (\<forall>t \<in> set (st_transitions s). \<forall>u \<in> set (st_transitions s). \<forall>c.
       matches t c \<longrightarrow> matches u c \<longrightarrow> t_to t = t_to u)"

definition flag_ok :: "automaton \<Rightarrow> bool" where
  "flag_ok A \<longleftrightarrow>
    (au_singleton A = None \<longrightarrow> au_deterministic A \<longrightarrow> (\<forall>s \<in> set (au_states A). deterministic_state s))"

lemma matches_char_transition [simp]: "matches (char_transition c q) d \<longleftrightarrow> d = c"
  by (auto simp: matches_def char_transition_def)

lemma char_transition_sel [simp]:
  "t_min (char_transition c q) = c" "t_max (char_transition c q) = c"
  "t_to (char_transition c q) = q"
  by (simp_all add: char_transition_def)

lemma char_transition_inject [simp]:
  "char_transition c q = char_transition d r \<longleftrightarrow> c = d \<and> q = r"
  by (simp add: char_transition_def)

lemma set_step_all: "set (step_all s c) = {t_to t | t. t \<in> set (st_transitions s) \<and> matches t c}"
  by (auto simp: step_all_def)

lemma delta_append: "delta A (v @ w) p = (\<Union>q \<in> delta A v p. delta A w q)"
  by (induction v arbitrary: p) auto

lemma delta_snoc: "delta A (w @ [c]) p = (\<Union>q \<in> delta A w p. set (step_all (state_of A q) c))"
  by (auto simp: delta_append)

lemma wf_automaton_step:
  assumes "wf_automaton A" "au_singleton A = None" "p < length (au_states A)"
    and "q \<in> set (step_all (state_of A p) c)"
  shows "q < length (au_states A)"
  using assms by (force simp: wf_automaton_def set_step_all)

lemma wf_automaton_delta:
  assumes "wf_automaton A" "au_singleton A = None"
  shows "p < length (au_states A) \<Longrightarrow> q \<in> delta A w p \<Longrightarrow> q < length (au_states A)"
proof (induction w arbitrary: p)
  case (Cons c w)
  then show ?case using wf_automaton_step [OF assms] by auto
qed simp

subsection \<open>Singletons\<close>

lemma expand_singleton_None [simp]: "au_singleton (expand_singleton A) = None"
  by (simp add: expand_singleton_def split: option.splits)

lemma expand_singleton_id [simp]: "au_singleton A = None \<Longrightarrow> expand_singleton A = A"
  by (simp add: expand_singleton_def)

lemma length_string_states [simp]: "length (string_states s) = Suc (length s)"
  by (simp add: string_states_def)

lemma string_states_nth:
  "i \<le> length s \<Longrightarrow> string_states s ! i =
    (if i = length s then \<lparr>st_accept = True, st_transitions = []\<rparr>
     else \<lparr>st_accept = False, st_transitions = [char_transition (s ! i) (Suc i)]\<rparr>)"
  by (simp add: string_states_def nth_append)

lemma delta_string_states:
  assumes "au_states A = string_states s"
  shows "i \<le> length s \<Longrightarrow>
    delta A w i = (if take (length w) (drop i s) = w then {i + length w} else {})"
proof (induction w arbitrary: i)
  case (Cons c w)
  show ?case
  proof (cases "i = length s")
    case True
    then show ?thesis by (simp add: assms string_states_nth step_all_def)
  next
    case False
    with Cons.prems have "i < length s" by simp
    then have "drop i s = s ! i # drop (Suc i) s" by (simp add: Cons_nth_drop_Suc)
    moreover have "step_all (state_of A i) c = (if c = s ! i then [Suc i] else [])"
      using \<open>i < length s\<close> by (simp add: assms string_states_nth step_all_def)
    ultimately show ?thesis using Cons.IH [of "Suc i"] \<open>i < length s\<close> by auto
  qed
qed simp

lemma lang_singleton: "au_singleton A = Some s \<Longrightarrow> lang A = {s}"
proof -
  assume s: "au_singleton A = Some s"
  define B where "B = expand_singleton A"
  have B: "au_states B = string_states s" "au_initial B = 0"
    by (simp_all add: B_def expand_singleton_def s)
  have d: "delta B w 0 = (if take (length w) s = w then {length w} else {})" for w
    using delta_string_states [OF B(1), of 0 w] by simp
  have "w \<in> lang A \<longleftrightarrow> w = s" for w
  proof (cases "take (length w) s = w")
    case True
    then have "length w \<le> length s" by (metis length_take min.cobounded1)
    have "w \<in> lang A \<longleftrightarrow> accepting B (length w)"
      unfolding lang_def Let_def B_def [symmetric] B(2) by (simp add: d True)
    also have "\<dots> \<longleftrightarrow> length w = length s"
      using \<open>length w \<le> length s\<close> by (simp add: B(1) string_states_nth)
    also have "\<dots> \<longleftrightarrow> w = s" by (metis True take_all_iff order_refl)
    finally show ?thesis .
  next
    case False
    have "w \<notin> lang A"
      unfolding lang_def Let_def B_def [symmetric] B(2) by (simp add: d False)
    then show ?thesis using False by auto
  qed
  then show ?thesis by auto
qed

lemma lang_make_string [simp]: "lang (make_string s) = {s}"
  by (simp add: lang_singleton make_string_def)

lemma wf_make_string [simp]: "wf_automaton (make_string s)"
  by (simp add: make_string_def wf_automaton_def)

lemma lang_expand_singleton [simp]: "lang (expand_singleton A) = lang A"
  by (simp add: lang_def)

lemma wf_expand_singleton [simp]: "wf_automaton A \<Longrightarrow> wf_automaton (expand_singleton A)"
  by (auto simp: expand_singleton_def wf_automaton_def string_states_def split: option.splits)

lemma length_expand_singleton [simp]:
  "length (au_states (expand_singleton A)) = get_number_of_states A"
  by (simp add: expand_singleton_def get_number_of_states_def split: option.splits)

lemma initial_expand_singleton:
  "wf_automaton A \<Longrightarrow> au_initial (expand_singleton A) < get_number_of_states A"
  by (auto simp: expand_singleton_def wf_automaton_def get_number_of_states_def split: option.splits)

lemma set_get_accept_states [simp]:
  "set (get_accept_states A) =
    {q. q < get_number_of_states A \<and> accepting (expand_singleton A) q}"
  by (auto simp: get_accept_states_def Let_def)

subsection \<open>\<open>run\<close> decides the language\<close>

lemma step_det_all:
  assumes "deterministic_state s"
  shows "set (step_all s c) = set_option (step_det s c)"
proof (cases "find (\<lambda>t. matches t c) (st_transitions s)")
  case None
  have "step_det s c = None" by (simp add: step_det_def None)
  moreover have "step_all s c = []" using None
    unfolding find_None_iff by (simp add: step_all_def filter_empty_conv)
  ultimately show ?thesis by simp
next
  case (Some t)
  then have t: "t \<in> set (st_transitions s)" "matches t c"
    by (auto simp: find_Some_iff)
  moreover have "t_to u = t_to t" if "u \<in> set (st_transitions s)" "matches u c" for u
    using assms t that unfolding deterministic_state_def by blast
  ultimately have "set (step_all s c) = {t_to t}"
    unfolding set_step_all by blast
  then show ?thesis using Some by (simp add: step_det_def)
qed

lemma run_det_iff:
  assumes "wf_automaton A" "au_singleton A = None" "\<forall>s \<in> set (au_states A). deterministic_state s"
  shows "p < length (au_states A) \<Longrightarrow> run_det A p w \<longleftrightarrow> (\<exists>q \<in> delta A w p. accepting A q)"
proof (induction w arbitrary: p)
  case (Cons c w)
  have "set (step_all (state_of A p) c) = set_option (step_det (state_of A p) c)"
    using assms(3) Cons.prems by (intro step_det_all) simp
  moreover have "q < length (au_states A)" if "q \<in> set (step_all (state_of A p) c)" for q
    using wf_automaton_step [OF assms(1,2) Cons.prems that] .
  ultimately show ?case
    using Cons.IH by (cases "step_det (state_of A p) c") auto
qed simp

lemma run_all_iff:
  "w \<noteq> [] \<Longrightarrow> run_all A pp acc w \<longleftrightarrow> (\<exists>p \<in> set pp. \<exists>q \<in> delta A w p. accepting A q)"
proof (induction w arbitrary: pp acc)
  case (Cons c w)
  show ?case
  proof (cases "w = []")
    case True
    then show ?thesis by (auto simp: list_ex_iff)
  next
    case False
    then show ?thesis using Cons.IH by (auto simp: Let_def)
  qed
qed simp

lemma run_all_initial:
  "run_all A [p] (accepting A p) w \<longleftrightarrow> (\<exists>q \<in> delta A w p. accepting A q)"
  by (cases "w = []") (simp_all add: run_all_iff)

lemma run_iff_lang:
  assumes "wf_automaton A" "flag_ok A"
  shows "run A w \<longleftrightarrow> w \<in> lang A"
proof (cases "au_singleton A")
  case None
  then show ?thesis using assms
    by (auto simp: run_def lang_def flag_ok_def run_all_initial wf_automaton_def run_det_iff)
next
  case (Some s)
  then show ?thesis by (auto simp: run_def lang_singleton)
qed

end
