(* ===== verification/Prefix_Tree.thy ===== *)
theory Prefix_Tree
  imports Automaton "HOL-Library.Sublist"
begin

text \<open>
  The learner's data: the sample of counter-examples (\<open>learner/Sample.java\<close>,
  \<open>teacher/CounterExample.java\<close>) and the prefix tree of the words of the sample
  (\<open>learner/PrefixTree.java\<close>, \<open>learner/Node.java\<close>).

  The \<open>Node\<close> objects of a tree live in the list \<open>pt_nodes\<close>, a reference is a position in it and
  \<open>null\<close> is \<open>None\<close>. A Java exception (a character that the map does not know) is \<open>None\<close>. The
  functional behaviour is stated on the map from the stored words to their acceptance
  (\<open>tree_map\<close>): adding a word adds its prefixes and decides its acceptance, unless it is decided.
\<close>

subsection \<open>Counter-examples and samples\<close>

record counter_example =
  ce_u :: jstring
  ce_a :: automaton

record sample =
  sa_pos :: "jstring list"
  sa_neg :: "jstring list"
  sa_ex :: "counter_example list"
  sa_uni :: "counter_example list"
  sa_size :: nat

definition new_sample :: sample where
  "new_sample = \<lparr>sa_pos = [], sa_neg = [], sa_ex = [], sa_uni = [], sa_size = 0\<rparr>"

definition add_pos :: "jstring \<Rightarrow> sample \<Rightarrow> sample" where
  "add_pos u s =
    (if u \<notin> set (sa_pos s) then s\<lparr>sa_size := sa_size s + 1, sa_pos := sa_pos s @ [u]\<rparr> else s)"

definition add_neg :: "jstring \<Rightarrow> sample \<Rightarrow> sample" where
  "add_neg u s =
    (if u \<notin> set (sa_neg s) then s\<lparr>sa_size := sa_size s + 1, sa_neg := sa_neg s @ [u]\<rparr> else s)"

text \<open>\<open>CounterExample.equals\<close> compares the words and, with \<open>Automaton.equals\<close>, the languages; the
  comparison of the automata is the parameter \<open>aeq\<close>.\<close>

definition ce_equals ::
  "(automaton \<Rightarrow> automaton \<Rightarrow> bool) \<Rightarrow> counter_example \<Rightarrow> counter_example \<Rightarrow> bool" where
  "ce_equals aeq x y = (x = y \<or> ce_u x = ce_u y \<and> aeq (ce_a x) (ce_a y))"

definition add_ex ::
  "(automaton \<Rightarrow> automaton \<Rightarrow> bool) \<Rightarrow> jstring \<Rightarrow> automaton \<Rightarrow> sample \<Rightarrow> sample" where
  "add_ex aeq u a s =
    (let cex = \<lparr>ce_u = u, ce_a = a\<rparr>
     in if \<not> list_ex (ce_equals aeq cex) (sa_ex s)
        then s\<lparr>sa_size := sa_size s + 1, sa_ex := sa_ex s @ [cex]\<rparr> else s)"

definition add_uni ::
  "(automaton \<Rightarrow> automaton \<Rightarrow> bool) \<Rightarrow> jstring \<Rightarrow> automaton \<Rightarrow> sample \<Rightarrow> sample" where
  "add_uni aeq u a s =
    (let cuni = \<lparr>ce_u = u, ce_a = a\<rparr>
     in if \<not> list_ex (ce_equals aeq cuni) (sa_uni s)
        then s\<lparr>sa_size := sa_size s + 1, sa_uni := sa_uni s @ [cuni]\<rparr> else s)"

text \<open>What a set of words owes to a sample.\<close>

definition consistent :: "jstring set \<Rightarrow> sample \<Rightarrow> bool" where
  "consistent W s \<longleftrightarrow>
    set (sa_pos s) \<subseteq> W \<and> set (sa_neg s) \<inter> W = {}
    \<and> (\<forall>c \<in> set (sa_ex s). ce_u c \<in> W \<longrightarrow> lang (ce_a c) \<inter> W \<noteq> {})
    \<and> (\<forall>c \<in> set (sa_uni s). ce_u c \<in> W \<longrightarrow> lang (ce_a c) \<subseteq> W)"

definition sample_inv :: "sample \<Rightarrow> bool" where
  "sample_inv s \<longleftrightarrow>
    sa_size s = length (sa_pos s) + length (sa_neg s) + length (sa_ex s) + length (sa_uni s)
    \<and> distinct (sa_pos s) \<and> distinct (sa_neg s) \<and> distinct (sa_ex s) \<and> distinct (sa_uni s)"

lemma sample_inv_new [simp]: "sample_inv new_sample"
  by (simp add: sample_inv_def new_sample_def)

lemma sample_inv_add [simp]:
  assumes "sample_inv s"
  shows "sample_inv (add_pos u s)" "sample_inv (add_neg u s)"
    "sample_inv (add_ex aeq u a s)" "sample_inv (add_uni aeq u a s)"
  using assms
  by (auto simp: sample_inv_def add_pos_def add_neg_def add_ex_def add_uni_def Let_def
      list_ex_iff ce_equals_def)

subsection \<open>Nodes and trees\<close>

record node =
  nd_id :: nat
  nd_children :: "nat option list"
  nd_accept :: int
  nd_word :: jstring

definition set_accept :: "int \<Rightarrow> node \<Rightarrow> node" where
  "set_accept a d =
    (if nd_accept d = 0
     then if a > 0 then d\<lparr>nd_accept := 1\<rparr> else if a < 0 then d\<lparr>nd_accept := -1\<rparr> else d
     else d)"

definition new_node :: "nat \<Rightarrow> nat \<Rightarrow> int \<Rightarrow> jstring \<Rightarrow> node" where
  "new_node alphabet_size i a w =
    set_accept a \<lparr>nd_id = i, nd_children = replicate alphabet_size None, nd_accept = 0, nd_word = w\<rparr>"

record prefix_tree =
  pt_initial :: nat
  pt_nodes :: "node list"
  pt_alphabet_size :: nat
  pt_size :: nat
  pt_map :: "jchar \<Rightarrow> nat option"

definition new_prefix_tree :: "nat \<Rightarrow> (jchar \<Rightarrow> nat option) \<Rightarrow> prefix_tree" where
  "new_prefix_tree alphabet_size m =
    \<lparr>pt_initial = 0, pt_nodes = [new_node alphabet_size 0 0 [45]],
     pt_alphabet_size = alphabet_size, pt_size = 1, pt_map = m\<rparr>"

abbreviation node_of :: "prefix_tree \<Rightarrow> nat \<Rightarrow> node" where
  "node_of t i \<equiv> pt_nodes t ! i"

text \<open>The \<open>else\<close> branch of \<open>addWord\<close>: a new node, hung into the child array of \<open>current\<close>.\<close>

definition add_child :: "prefix_tree \<Rightarrow> nat \<Rightarrow> nat \<Rightarrow> jstring \<Rightarrow> prefix_tree" where
  "add_child t current c w =
    (let n = length (pt_nodes t); ns = pt_nodes t @ [new_node (pt_alphabet_size t) (pt_size t) 0 w];
         d = ns ! current
     in t\<lparr>pt_nodes := ns[current := d\<lparr>nd_children := (nd_children d)[c := Some n]\<rparr>],
          pt_size := pt_size t + 1\<rparr>)"

text \<open>The loop of \<open>addWord\<close>; \<open>pre\<close> is the part of the word that is read, \<open>s.substring(0,i)\<close>.\<close>

fun add_word_loop ::
  "prefix_tree \<Rightarrow> jstring \<Rightarrow> jstring \<Rightarrow> nat \<Rightarrow> (prefix_tree \<times> nat) option" where
  "add_word_loop t pre [] current = Some (t, current)"
| "add_word_loop t pre (ch # s) current =
    (case pt_map t ch of
       None \<Rightarrow> None
     | Some c \<Rightarrow>
         if c \<ge> length (nd_children (node_of t current)) then None
         else (case nd_children (node_of t current) ! c of
             Some next \<Rightarrow> add_word_loop t (pre @ [ch]) s next
           | None \<Rightarrow>
               add_word_loop (add_child t current c (pre @ [ch])) (pre @ [ch]) s
                 (length (pt_nodes t))))"

definition add_word :: "jstring \<Rightarrow> int \<Rightarrow> prefix_tree \<Rightarrow> (prefix_tree \<times> nat) option" where
  "add_word s a t =
    map_option
      (\<lambda>(t, current).
         (t\<lparr>pt_nodes := (pt_nodes t)[current := set_accept a (node_of t current)]\<rparr>, current))
      (add_word_loop t [] s (pt_initial t))"

definition get_node :: "jstring \<Rightarrow> prefix_tree \<Rightarrow> (prefix_tree \<times> nat) option" where
  "get_node s t = add_word s 0 t"

text \<open>The search of \<open>getWord\<close>: the queue \<open>nodes\<close>, and the same node again when it is empty.\<close>

definition child_nodes :: "prefix_tree \<Rightarrow> nat \<Rightarrow> nat list" where
  "child_nodes t i = map the (filter (\<lambda>c. c \<noteq> None) (nd_children (node_of t i)))"

partial_function (option) get_word_loop ::
  "prefix_tree \<Rightarrow> nat \<Rightarrow> nat list \<Rightarrow> nat \<Rightarrow> jstring option" where
  "get_word_loop t i nodes current =
    (if nd_id (node_of t current) \<noteq> i then
       let nodes = nodes @ child_nodes t current
       in (case nodes of
             [] \<Rightarrow> get_word_loop t i [] current
           | x # rest \<Rightarrow> get_word_loop t i rest x)
     else Some (nd_word (node_of t current)))"

declare get_word_loop.simps [code]

definition get_word :: "nat \<Rightarrow> prefix_tree \<Rightarrow> jstring option" where
  "get_word i t = get_word_loop t i [] (pt_initial t)"

subsection \<open>The invariant\<close>

text \<open>The word of a node; the root carries the word \<open>"-"\<close> but stands for the empty word.\<close>

definition path_word :: "prefix_tree \<Rightarrow> nat \<Rightarrow> jstring" where
  "path_word t i = (if i = pt_initial t then [] else nd_word (node_of t i))"

definition edge :: "prefix_tree \<Rightarrow> nat \<Rightarrow> nat \<Rightarrow> nat \<Rightarrow> bool" where
  "edge t i c j \<longleftrightarrow>
    i < length (pt_nodes t) \<and> c < length (nd_children (node_of t i))
    \<and> nd_children (node_of t i) ! c = Some j"

definition map_ok :: "prefix_tree \<Rightarrow> bool" where
  "map_ok t \<longleftrightarrow> inj_on (pt_map t) (dom (pt_map t))
    \<and> (\<forall>ch c. pt_map t ch = Some c \<longrightarrow> c < pt_alphabet_size t)"

definition tree_inv :: "prefix_tree \<Rightarrow> bool" where
  "tree_inv t \<longleftrightarrow>
    map_ok t \<and> pt_initial t = 0 \<and> pt_nodes t \<noteq> [] \<and> pt_size t = length (pt_nodes t)
    \<and> (\<forall>i < length (pt_nodes t).
         nd_id (node_of t i) = i \<and> length (nd_children (node_of t i)) = pt_alphabet_size t
         \<and> nd_accept (node_of t i) \<in> {-1, 0, 1})
    \<and> (\<forall>i c j. edge t i c j \<longrightarrow>
         i < j \<and> j < length (pt_nodes t)
         \<and> (\<exists>ch. pt_map t ch = Some c \<and> path_word t j = path_word t i @ [ch]))
    \<and> (\<forall>j. 0 < j \<longrightarrow> j < length (pt_nodes t) \<longrightarrow> (\<exists>i c. edge t i c j))"

text \<open>The node of a word, if it is stored, and the map a tree stands for.\<close>

fun find_node :: "prefix_tree \<Rightarrow> jstring \<Rightarrow> nat \<Rightarrow> nat option" where
  "find_node t [] i = Some i"
| "find_node t (ch # s) i =
    (case pt_map t ch of
       None \<Rightarrow> None
     | Some c \<Rightarrow>
         if c \<ge> length (nd_children (node_of t i)) then None
         else (case nd_children (node_of t i) ! c of None \<Rightarrow> None | Some j \<Rightarrow> find_node t s j))"

definition tree_map :: "prefix_tree \<Rightarrow> jstring \<Rightarrow> int option" where
  "tree_map t w = map_option (\<lambda>i. nd_accept (node_of t i)) (find_node t w (pt_initial t))"

lemma set_accept_sel [simp]:
  "nd_id (set_accept a d) = nd_id d" "nd_children (set_accept a d) = nd_children d"
  "nd_word (set_accept a d) = nd_word d"
  by (simp_all add: set_accept_def)

lemma nd_accept_set_accept: "nd_accept (set_accept a d) = (if nd_accept d = 0 then sgn a else nd_accept d)"
  by (simp add: set_accept_def sgn_if)

lemma new_node_sel [simp]:
  "nd_id (new_node k i a w) = i" "nd_children (new_node k i a w) = replicate k None"
  "nd_word (new_node k i a w) = w" "nd_accept (new_node k i a w) = sgn a"
  by (simp_all add: new_node_def nd_accept_set_accept)

lemma tree_inv_new:
  assumes "inj_on m (dom m)" "\<And>ch c. m ch = Some c \<Longrightarrow> c < k"
  shows "tree_inv (new_prefix_tree k m)"
  using assms by (auto simp: tree_inv_def new_prefix_tree_def map_ok_def edge_def)

lemma tree_map_new: "tree_map (new_prefix_tree k m) = [[] \<mapsto> 0]"
proof
  fix w
  show "tree_map (new_prefix_tree k m) w = [[] \<mapsto> 0] w"
    by (cases w) (auto simp: tree_map_def new_prefix_tree_def split: option.splits)
qed

lemma tree_invD:
  assumes "tree_inv t"
  shows "map_ok t" "pt_initial t = 0" "0 < length (pt_nodes t)" "pt_size t = length (pt_nodes t)"
  using assms by (auto simp: tree_inv_def)

lemma tree_inv_map: "tree_inv t \<Longrightarrow> pt_map t ch = Some c \<Longrightarrow> c < pt_alphabet_size t"
  using tree_invD(1) by (auto simp: map_ok_def)

lemma tree_inv_node:
  assumes "tree_inv t" "i < length (pt_nodes t)"
  shows "nd_id (node_of t i) = i" "length (nd_children (node_of t i)) = pt_alphabet_size t"
  using assms by (auto simp: tree_inv_def)

lemma tree_inv_edge:
  assumes "tree_inv t" "edge t i c j"
  shows "i < j" "j < length (pt_nodes t)"
    "\<exists>ch. pt_map t ch = Some c \<and> path_word t j = path_word t i @ [ch]"
  using assms by (auto simp: tree_inv_def)

lemma tree_inv_parent:
  assumes "tree_inv t" "0 < j" "j < length (pt_nodes t)"
  obtains i c where "edge t i c j"
  using assms unfolding tree_inv_def by blast

lemma edge_char:
  assumes "tree_inv t" "edge t i c j" "pt_map t ch = Some c"
  shows "path_word t j = path_word t i @ [ch]"
proof -
  obtain ch' where ch': "pt_map t ch' = Some c" "path_word t j = path_word t i @ [ch']"
    using tree_inv_edge(3) [OF assms(1,2)] by blast
  have "inj_on (pt_map t) (dom (pt_map t))" using tree_invD(1) [OF assms(1)] by (simp add: map_ok_def)
  then have "ch' = ch"
    by (rule inj_onD) (use ch'(1) assms(3) in auto)
  with ch' show ?thesis by simp
qed

lemma find_node_append:
  "find_node t (v @ w) i = Option.bind (find_node t v i) (find_node t w)"
  by (induction t v i rule: find_node.induct) (auto split: option.splits)

lemma find_node_step:
  "find_node t (ch # s) i =
    (case pt_map t ch of None \<Rightarrow> None
     | Some c \<Rightarrow> if c < length (nd_children (node_of t i))
                then Option.bind (nd_children (node_of t i) ! c) (find_node t s) else None)"
  by (auto split: option.splits)

lemma find_node_sound:
  assumes "tree_inv t"
  shows "i < length (pt_nodes t) \<Longrightarrow> find_node t w i = Some j \<Longrightarrow>
    j < length (pt_nodes t) \<and> path_word t j = path_word t i @ w"
proof (induction w arbitrary: i)
  case (Cons ch w)
  from Cons.prems(2) obtain c k where c: "pt_map t ch = Some c" "edge t i c k" "find_node t w k = Some j"
    using Cons.prems(1) by (auto simp: edge_def not_le split: option.splits if_splits)
  have "k < length (pt_nodes t)" "path_word t k = path_word t i @ [ch]"
    using tree_inv_edge(2) [OF assms c(2)] edge_char [OF assms c(2,1)] .
  with Cons.IH [OF _ c(3)] show ?case by simp
qed simp

lemma path_word_root [simp]: "tree_inv t \<Longrightarrow> path_word t 0 = []"
  by (simp add: path_word_def tree_invD(2))

lemma find_node_complete:
  assumes "tree_inv t"
  shows "j < length (pt_nodes t) \<Longrightarrow> find_node t (path_word t j) 0 = Some j"
proof (induction j rule: less_induct)
  case (less j)
  show ?case
  proof (cases "j = 0")
    case True
    then show ?thesis by (simp add: assms)
  next
    case False
    then obtain i c where e: "edge t i c j"
      using tree_inv_parent [OF assms, of j] less.prems by auto
    then obtain ch where ch: "pt_map t ch = Some c" "path_word t j = path_word t i @ [ch]"
      using tree_inv_edge(3) [OF assms] by blast
    have "find_node t (path_word t i) 0 = Some i"
      using less.IH [of i] tree_inv_edge(1) [OF assms e] e by (simp add: edge_def)
    moreover have "find_node t [ch] i = Some j"
      using e ch(1) by (simp add: edge_def)
    ultimately show ?thesis by (simp add: ch(2) find_node_append)
  qed
qed

lemma find_node_iff:
  assumes "tree_inv t"
  shows "find_node t w 0 = Some i \<longleftrightarrow> i < length (pt_nodes t) \<and> path_word t i = w"
  using find_node_sound [OF assms, of 0 w i] find_node_complete [OF assms, of i] assms
  by (auto dest: tree_invD(3))

lemma path_word_inject:
  assumes "tree_inv t" "i < length (pt_nodes t)" "j < length (pt_nodes t)"
  shows "path_word t i = path_word t j \<longleftrightarrow> i = j"
  by (metis assms find_node_complete option.inject)

lemma tree_map_iff:
  assumes "tree_inv t"
  shows "tree_map t w = Some a \<longleftrightarrow>
    (\<exists>i < length (pt_nodes t). path_word t i = w \<and> nd_accept (node_of t i) = a)"
proof -
  have "tree_map t w = Some a \<longleftrightarrow> (\<exists>i. find_node t w 0 = Some i \<and> nd_accept (node_of t i) = a)"
    by (auto simp: tree_map_def tree_invD(2) [OF assms])
  then show ?thesis by (simp add: find_node_iff [OF assms] conj_assoc)
qed

lemma tree_map_None_iff:
  assumes "tree_inv t"
  shows "tree_map t w = None \<longleftrightarrow> (\<forall>i < length (pt_nodes t). path_word t i \<noteq> w)"
  using tree_map_iff [OF assms, of w] by (metis not_None_eq)

subsection \<open>A new child\<close>

lemma add_child_sel [simp]:
  "length (pt_nodes (add_child t current c w)) = Suc (length (pt_nodes t))"
  "pt_initial (add_child t current c w) = pt_initial t"
  "pt_alphabet_size (add_child t current c w) = pt_alphabet_size t"
  "pt_map (add_child t current c w) = pt_map t"
  "pt_size (add_child t current c w) = Suc (pt_size t)"
  by (simp_all add: add_child_def Let_def)

lemma add_child_node:
  assumes "current < length (pt_nodes t)"
  shows "i < length (pt_nodes t) \<Longrightarrow> node_of (add_child t current c w) i =
      (if i = current
       then (node_of t i)\<lparr>nd_children := (nd_children (node_of t i))[c := Some (length (pt_nodes t))]\<rparr>
       else node_of t i)"
    and "node_of (add_child t current c w) (length (pt_nodes t)) =
      new_node (pt_alphabet_size t) (pt_size t) 0 w"
  using assms by (auto simp: add_child_def Let_def nth_append nth_list_update)

lemma add_child_word:
  assumes "tree_inv t" "current < length (pt_nodes t)"
  shows "i < length (pt_nodes t) \<Longrightarrow> path_word (add_child t current c w) i = path_word t i"
    and "path_word (add_child t current c w) (length (pt_nodes t)) = w"
  using add_child_node [OF assms(2)] tree_invD(2,3) [OF assms(1)]
  by (auto simp: path_word_def)

lemma add_child_edge:
  assumes "tree_inv t" "current < length (pt_nodes t)" "c < pt_alphabet_size t"
    and "nd_children (node_of t current) ! c = None"
  shows "edge (add_child t current c w) i d j \<longleftrightarrow>
    edge t i d j \<or> i = current \<and> d = c \<and> j = length (pt_nodes t)"
proof -
  consider "i < length (pt_nodes t)" | "i = length (pt_nodes t)" | "i > length (pt_nodes t)"
    by linarith
  then show ?thesis
  proof cases
    case 1
    then show ?thesis using assms(3,4) tree_inv_node(2) [OF assms(1,2)]
      by (auto simp: edge_def add_child_node(1) [OF assms(2)] nth_list_update)
  next
    case 2
    then show ?thesis using assms(2) add_child_node(2) [OF assms(2), of c w]
      by (auto simp: edge_def)
  qed (use assms(2) in \<open>auto simp: edge_def\<close>)
qed

lemma tree_inv_add_child:
  assumes t: "tree_inv t" and cur: "current < length (pt_nodes t)"
    and ch: "pt_map t ch = Some c" and none: "nd_children (node_of t current) ! c = None"
  shows "tree_inv (add_child t current c (path_word t current @ [ch]))"
proof -
  let ?t = "add_child t current c (path_word t current @ [ch])"
  let ?n = "length (pt_nodes t)"
  have c: "c < pt_alphabet_size t" using tree_invD(1) [OF t] ch by (auto simp: map_ok_def)
  note edges = add_child_edge [OF t cur c none]
  note word = add_child_word [OF t cur]
  note node = add_child_node [OF cur]
  have "map_ok ?t" using tree_invD(1) [OF t] by (simp add: map_ok_def)
  moreover have "nd_id (node_of ?t i) = i \<and> length (nd_children (node_of ?t i)) = pt_alphabet_size t
      \<and> nd_accept (node_of ?t i) \<in> {-1, 0, 1}" if "i < Suc ?n" for i
    using that t node tree_invD(4) [OF t] by (cases "i = ?n") (auto simp: tree_inv_def)
  moreover have "i < j \<and> j < Suc ?n \<and> (\<exists>ch. pt_map t ch = Some d \<and> path_word ?t j = path_word ?t i @ [ch])"
    if "edge ?t i d j" for i d j
    using that unfolding edges
  proof
    assume e: "edge t i d j"
    then have "i < ?n" by (simp add: edge_def)
    with e show ?thesis using tree_inv_edge [OF t e] word by auto
  next
    assume "i = current \<and> d = c \<and> j = ?n"
    then show ?thesis using cur ch word by auto
  qed
  moreover have "\<exists>i d. edge ?t i d j" if "0 < j" "j < Suc ?n" for j
    using that edges tree_inv_parent [OF t, of j] by (cases "j = ?n") (auto, metis less_antisym)
  moreover have "pt_nodes ?t \<noteq> []" by (metis Zero_not_Suc add_child_sel(1) list.size(3))
  ultimately show ?thesis
    using tree_invD(2,4) [OF t] by (simp add: tree_inv_def)
qed

lemma tree_map_add_child:
  assumes t: "tree_inv t" and cur: "current < length (pt_nodes t)"
    and ch: "pt_map t ch = Some c" and none: "nd_children (node_of t current) ! c = None"
  shows "tree_map (add_child t current c (path_word t current @ [ch])) =
    (tree_map t)(path_word t current @ [ch] \<mapsto> 0)"
proof
  let ?v = "path_word t current @ [ch]"
  let ?t = "add_child t current c ?v"
  let ?n = "length (pt_nodes t)"
  have inv: "tree_inv ?t" by (rule tree_inv_add_child [OF assms])
  have word: "path_word ?t i = path_word t i" "nd_accept (node_of ?t i) = nd_accept (node_of t i)"
    if "i < ?n" for i
    using that add_child_word(1) [OF t cur that] add_child_node(1) [OF cur that] by simp_all
  have new: "path_word ?t ?n = ?v" "nd_accept (node_of ?t ?n) = 0"
    using add_child_word(2) [OF t cur] add_child_node(2) [OF cur] by simp_all
  have fresh: "path_word t i \<noteq> ?v" if "i < ?n" for i
  proof -
    have "path_word ?t i \<noteq> path_word ?t ?n"
      using path_word_inject [OF inv, of i ?n] that by simp
    then show ?thesis using word(1) [OF that] new(1) by simp
  qed
  fix w
  have iff: "tree_map ?t w = Some a \<longleftrightarrow> ((tree_map t)(?v \<mapsto> 0)) w = Some a" for a
  proof (cases "w = ?v")
    case True
    then show ?thesis
      using new fresh word by (auto simp: tree_map_iff [OF inv] less_Suc_eq)
  next
    case False
    then show ?thesis
      using new word by (auto simp: tree_map_iff [OF inv] tree_map_iff [OF t] less_Suc_eq)
  qed
  then show "tree_map ?t w = ((tree_map t)(?v \<mapsto> 0)) w"
    by (metis not_None_eq)
qed

subsection \<open>\<open>addWord\<close>\<close>

text \<open>Adding the prefixes of a word below a node.\<close>

definition add_prefixes :: "jstring \<Rightarrow> jstring \<Rightarrow> (jstring \<Rightarrow> int option) \<Rightarrow> jstring \<Rightarrow> int option" where
  "add_prefixes pre s m w =
    (if m w = None \<and> prefix pre w \<and> prefix w (pre @ s) then Some 0 else m w)"

lemma add_prefixes_Nil: "m pre \<noteq> None \<Longrightarrow> add_prefixes pre [] m = m"
  by (auto simp: add_prefixes_def fun_eq_iff dest: prefix_order.antisym)

lemma add_prefixes_Cons:
  assumes "m pre \<noteq> None" "m (pre @ [c]) \<noteq> None"
  shows "add_prefixes pre (c # s) m = add_prefixes (pre @ [c]) s m"
proof
  fix w
  have "prefix pre w \<and> prefix w (pre @ c # s) \<longleftrightarrow> w = pre \<or> prefix (pre @ [c]) w \<and> prefix w (pre @ c # s)"
    by (auto simp: prefix_def append_eq_append_conv2 Cons_eq_append_conv)
  then show "add_prefixes pre (c # s) m w = add_prefixes (pre @ [c]) s m w"
    using assms by (auto simp: add_prefixes_def)
qed

lemma add_prefixes_new:
  assumes "m pre \<noteq> None" "m (pre @ [c]) = None"
  shows "add_prefixes (pre @ [c]) s (m(pre @ [c] \<mapsto> 0)) = add_prefixes pre (c # s) m"
proof -
  have "add_prefixes (pre @ [c]) s (m(pre @ [c] \<mapsto> 0)) = add_prefixes pre (c # s) (m(pre @ [c] \<mapsto> 0))"
    using assms by (intro add_prefixes_Cons [symmetric]) auto
  also have "\<dots> = add_prefixes pre (c # s) m"
    using assms by (auto simp: add_prefixes_def fun_eq_iff prefix_def)
  finally show ?thesis .
qed

lemma tree_map_path_word:
  assumes "tree_inv t" "i < length (pt_nodes t)"
  shows "tree_map t (path_word t i) = Some (nd_accept (node_of t i))"
  using assms tree_map_iff [OF assms(1)] by blast

lemma add_word_loop_spec:
  assumes "tree_inv t" "current < length (pt_nodes t)" "pre = path_word t current"
    and "set s \<subseteq> dom (pt_map t)"
  shows "\<exists>t' i. add_word_loop t pre s current = Some (t', i) \<and> tree_inv t'
    \<and> pt_map t' = pt_map t \<and> pt_alphabet_size t' = pt_alphabet_size t
    \<and> i < length (pt_nodes t') \<and> path_word t' i = pre @ s
    \<and> tree_map t' = add_prefixes pre s (tree_map t)"
  using assms
proof (induction t pre s current rule: add_word_loop.induct)
  case (1 t pre current)
  then show ?case by (simp add: add_prefixes_Nil tree_map_path_word)
next
  case (2 t pre ch s current)
  from "2.prems"(4) obtain c where c: "pt_map t ch = Some c" by auto
  have len: "\<not> length (nd_children (node_of t current)) \<le> c"
    using tree_inv_map [OF "2.prems"(1) c] tree_inv_node(2) [OF "2.prems"(1,2)] by simp
  have pre: "tree_map t pre \<noteq> None"
    using tree_map_path_word [OF "2.prems"(1,2)] "2.prems"(3) by simp
  have s: "set s \<subseteq> dom (pt_map t)" using "2.prems"(4) by simp
  show ?case
  proof (cases "nd_children (node_of t current) ! c")
    case None
    let ?t = "add_child t current c (pre @ [ch])"
    have t': "tree_inv ?t" "tree_map ?t = (tree_map t)(pre @ [ch] \<mapsto> 0)"
      using tree_inv_add_child [OF "2.prems"(1,2) c None] tree_map_add_child [OF "2.prems"(1,2) c None]
      by (simp_all add: "2.prems"(3))
    have word: "path_word ?t (length (pt_nodes t)) = pre @ [ch]"
      by (rule add_child_word(2) [OF "2.prems"(1,2)])
    have fresh: "tree_map t (pre @ [ch]) = None"
    proof -
      have "path_word t i \<noteq> pre @ [ch]" if "i < length (pt_nodes t)" for i
        using path_word_inject [OF t'(1), of i "length (pt_nodes t)"] that word
          add_child_word(1) [OF "2.prems"(1,2) that, of c "pre @ [ch]"] by simp
      then show ?thesis by (simp add: tree_map_None_iff [OF "2.prems"(1)])
    qed
    have "add_prefixes (pre @ [ch]) s (tree_map ?t) = add_prefixes pre (ch # s) (tree_map t)"
      unfolding t'(2) by (rule add_prefixes_new [OF pre fresh])
    then show ?thesis
      using "2.IH"(1) [OF c len None t'(1) _ word [symmetric]] s c len None by auto
  next
    case (Some j)
    then have e: "edge t current c j" using len "2.prems"(2) by (simp add: edge_def)
    have j: "j < length (pt_nodes t)" "path_word t j = pre @ [ch]"
      using tree_inv_edge(2) [OF "2.prems"(1) e] edge_char [OF "2.prems"(1) e c] "2.prems"(3) by simp_all
    then have "tree_map t (pre @ [ch]) \<noteq> None" using tree_map_path_word [OF "2.prems"(1), of j] by simp
    with "2.IH"(2) [OF c len Some "2.prems"(1) j(1) j(2) [symmetric]] s c len Some show ?thesis
      by (auto simp: add_prefixes_Cons [where m = "tree_map t", OF pre])
  qed
qed

lemma add_word_loop_unknown:
  "tree_inv t \<Longrightarrow> current < length (pt_nodes t) \<Longrightarrow> pre = path_word t current \<Longrightarrow>
    \<not> set s \<subseteq> dom (pt_map t) \<Longrightarrow> add_word_loop t pre s current = None"
proof (induction t pre s current rule: add_word_loop.induct)
  case (2 t pre ch s current)
  show ?case
  proof (cases "pt_map t ch")
    case (Some c)
    have len: "\<not> length (nd_children (node_of t current)) \<le> c"
      using tree_inv_map [OF "2.prems"(1) Some] tree_inv_node(2) [OF "2.prems"(1,2)] by simp
    have s: "\<not> set s \<subseteq> dom (pt_map t)" using "2.prems"(4) Some by auto
    show ?thesis
    proof (cases "nd_children (node_of t current) ! c")
      case None
      then show ?thesis
        using "2.IH"(1) [OF Some len None] s Some len tree_inv_add_child [OF "2.prems"(1,2) Some None]
          add_child_word(2) [OF "2.prems"(1,2)] by (simp add: "2.prems"(3))
    next
      case (Some j)
      then have e: "edge t current c j" using len "2.prems"(2) by (simp add: edge_def)
      show ?thesis
        using "2.IH"(2) [OF \<open>pt_map t ch = Some c\<close> len Some "2.prems"(1)] s \<open>pt_map t ch = Some c\<close> len Some
          tree_inv_edge(2) [OF "2.prems"(1) e] edge_char [OF "2.prems"(1) e \<open>pt_map t ch = Some c\<close>]
        by (simp add: "2.prems"(3))
    qed
  qed simp
qed simp

text \<open>Marking a node.\<close>

definition mark_node :: "int \<Rightarrow> nat \<Rightarrow> prefix_tree \<Rightarrow> prefix_tree" where
  "mark_node a i t = t\<lparr>pt_nodes := (pt_nodes t)[i := set_accept a (node_of t i)]\<rparr>"

lemma mark_node_sel [simp]:
  "length (pt_nodes (mark_node a i t)) = length (pt_nodes t)" "pt_initial (mark_node a i t) = pt_initial t"
  "pt_alphabet_size (mark_node a i t) = pt_alphabet_size t" "pt_map (mark_node a i t) = pt_map t"
  "pt_size (mark_node a i t) = pt_size t"
  by (simp_all add: mark_node_def)

lemma node_of_mark_node:
  "i < length (pt_nodes t) \<Longrightarrow>
    node_of (mark_node a i t) j = (if j = i then set_accept a (node_of t i) else node_of t j)"
  by (simp add: mark_node_def nth_list_update)

lemma mark_node_word_edge:
  assumes "i < length (pt_nodes t)"
  shows "path_word (mark_node a i t) = path_word t" "edge (mark_node a i t) = edge t"
  by (auto simp: path_word_def edge_def fun_eq_iff node_of_mark_node [OF assms])

lemma tree_inv_mark_node:
  assumes "tree_inv t" "i < length (pt_nodes t)"
  shows "tree_inv (mark_node a i t)"
proof -
  have "pt_nodes (mark_node a i t) \<noteq> []"
    using tree_invD(3) [OF assms(1)] by (metis length_greater_0_conv mark_node_sel(1))
  moreover have "nd_accept (set_accept a (node_of t i)) \<in> {-1, 0, 1}"
    using assms by (auto simp: nd_accept_set_accept tree_inv_def sgn_if)
  ultimately show ?thesis
    using assms
    by (auto simp: tree_inv_def mark_node_word_edge node_of_mark_node map_ok_def)
qed

definition decide_accept :: "int \<Rightarrow> int \<Rightarrow> int" where
  "decide_accept old a = (if old = 0 then sgn a else old)"

lemma tree_map_mark_node:
  assumes "tree_inv t" "i < length (pt_nodes t)"
  shows "tree_map (mark_node a i t) =
    (tree_map t)(path_word t i \<mapsto> decide_accept (nd_accept (node_of t i)) a)"
proof
  fix w
  note inv = tree_inv_mark_node [OF assms, of a]
  have "tree_map (mark_node a i t) w = Some b \<longleftrightarrow>
    ((tree_map t)(path_word t i \<mapsto> decide_accept (nd_accept (node_of t i)) a)) w = Some b" for b
    using path_word_inject [OF assms(1) _ assms(2)] assms(2)
    by (auto simp: tree_map_iff [OF inv] tree_map_iff [OF assms(1)] mark_node_word_edge
        node_of_mark_node nd_accept_set_accept decide_accept_def)
  then show "tree_map (mark_node a i t) w =
    ((tree_map t)(path_word t i \<mapsto> decide_accept (nd_accept (node_of t i)) a)) w"
    by (metis not_None_eq)
qed

text \<open>The map after \<open>addWord\<close>.\<close>

definition add_word_map :: "jstring \<Rightarrow> int \<Rightarrow> (jstring \<Rightarrow> int option) \<Rightarrow> jstring \<Rightarrow> int option" where
  "add_word_map s a m w =
    (if w = s then Some (decide_accept (case m s of None \<Rightarrow> 0 | Some b \<Rightarrow> b) a)
     else if m w = None \<and> prefix w s then Some 0 else m w)"

lemma add_word_Some:
  assumes "tree_inv t" "set s \<subseteq> dom (pt_map t)"
  obtains t' i where "add_word s a t = Some (t', i)" "tree_inv t'" "pt_map t' = pt_map t"
    "pt_alphabet_size t' = pt_alphabet_size t" "i < length (pt_nodes t')" "path_word t' i = s"
    "tree_map t' = add_word_map s a (tree_map t)"
proof -
  have "pt_initial t = 0" "0 < length (pt_nodes t)" "[] = path_word t 0"
    using tree_invD(2,3) [OF assms(1)] assms(1) by simp_all
  then obtain t1 i where t1: "add_word_loop t [] s (pt_initial t) = Some (t1, i)" "tree_inv t1"
    "pt_map t1 = pt_map t" "pt_alphabet_size t1 = pt_alphabet_size t" "i < length (pt_nodes t1)"
    "path_word t1 i = s" "tree_map t1 = add_prefixes [] s (tree_map t)"
    using add_word_loop_spec [OF assms(1), of 0 "[]" s] assms(2) by auto
  have acc: "Some (nd_accept (node_of t1 i)) = add_prefixes [] s (tree_map t) s"
    using tree_map_path_word [OF t1(2,5)] t1(6,7) by simp
  have "tree_map (mark_node a i t1) = add_word_map s a (tree_map t)"
    using acc unfolding tree_map_mark_node [OF t1(2,5)] t1(6,7)
    by (auto simp: add_word_map_def add_prefixes_def fun_eq_iff split: if_splits)
  then show thesis
    using that [of "mark_node a i t1" i] t1 tree_inv_mark_node [OF t1(2,5), of a]
    by (simp add: add_word_def mark_node_def [symmetric] mark_node_word_edge)
qed

lemma add_word_None:
  assumes "tree_inv t" "\<not> set s \<subseteq> dom (pt_map t)"
  shows "add_word s a t = None"
  using add_word_loop_unknown [OF assms(1), of "pt_initial t" "[]" s] assms tree_invD(2,3) [OF assms(1)]
  by (simp add: add_word_def)

subsection \<open>\<open>getNode\<close> and \<open>getWord\<close>\<close>

lemma add_word_loop_stored:
  "find_node t s current = Some i \<Longrightarrow> add_word_loop t pre s current = Some (t, i)"
  by (induction t s current arbitrary: pre rule: find_node.induct)
    (auto split: option.splits if_splits)

lemma get_node_stored:
  assumes "tree_inv t" "i < length (pt_nodes t)"
  shows "get_node (path_word t i) t = Some (t, i)"
proof -
  have "add_word_loop t [] (path_word t i) (pt_initial t) = Some (t, i)"
    using find_node_complete [OF assms] by (intro add_word_loop_stored) (simp add: tree_invD(2) [OF assms(1)])
  then show ?thesis by (simp add: get_node_def add_word_def set_accept_def)
qed

definition tree_edges :: "prefix_tree \<Rightarrow> (nat \<times> nat) set" where
  "tree_edges t = {(i, j). \<exists>c. edge t i c j}"

lemma set_child_nodes:
  "i < length (pt_nodes t) \<Longrightarrow> set (child_nodes t i) = {j. (i, j) \<in> tree_edges t}"
  by (force simp: child_nodes_def tree_edges_def edge_def in_set_conv_nth)

lemma length_child_nodes:
  "tree_inv t \<Longrightarrow> i < length (pt_nodes t) \<Longrightarrow> length (child_nodes t i) \<le> pt_alphabet_size t"
  using length_filter_le [of "\<lambda>c. c \<noteq> None" "nd_children (node_of t i)"]
  by (simp add: child_nodes_def tree_inv_node(2))

lemma tree_edges_less:
  assumes "tree_inv t" "(i, j) \<in> tree_edges t"
  shows "i < j" "j < length (pt_nodes t)"
  using assms tree_inv_edge(1,2) by (auto simp: tree_edges_def)

lemma reachable_from_root:
  assumes "tree_inv t"
  shows "j < length (pt_nodes t) \<Longrightarrow> (0, j) \<in> (tree_edges t)\<^sup>*"
proof (induction j rule: less_induct)
  case (less j)
  show ?case
  proof (cases "j = 0")
    case False
    then obtain i c where e: "edge t i c j" using tree_inv_parent [OF assms] less.prems by blast
    then have "(0, i) \<in> (tree_edges t)\<^sup>*"
      using less.IH tree_inv_edge(1) [OF assms e] by (simp add: edge_def)
    with e show ?thesis by (auto simp: tree_edges_def intro: rtrancl_into_rtrancl)
  qed simp
qed

text \<open>A measure for searches with a queue: a node counts more than all its children together.\<close>

definition node_weight :: "prefix_tree \<Rightarrow> nat \<Rightarrow> nat" where
  "node_weight t i = Suc (pt_alphabet_size t) ^ (length (pt_nodes t) - i)"

lemma child_weights_less:
  assumes "tree_inv t" "i < length (pt_nodes t)"
  shows "sum_list (map (node_weight t) (child_nodes t i)) < node_weight t i"
proof -
  let ?b = "Suc (pt_alphabet_size t)" and ?d = "length (pt_nodes t) - Suc i"
  have "node_weight t j \<le> ?b ^ ?d" if "j \<in> set (child_nodes t i)" for j
    using that tree_edges_less(1) [OF assms(1), of i j] unfolding node_weight_def
    by (intro power_increasing) (auto simp: set_child_nodes [OF assms(2)])
  then have "sum_list (map (node_weight t) (child_nodes t i)) \<le> sum_list (map (\<lambda>_. ?b ^ ?d) (child_nodes t i))"
    by (rule sum_list_mono)
  also have "\<dots> = length (child_nodes t i) * ?b ^ ?d" by (simp add: sum_list_triv)
  also have "\<dots> \<le> pt_alphabet_size t * ?b ^ ?d"
    using length_child_nodes [OF assms] by simp
  also have "\<dots> < ?b * ?b ^ ?d" by simp
  also have "\<dots> = node_weight t i"
    using assms(2) by (simp add: node_weight_def Suc_diff_Suc flip: power_Suc)
  finally show ?thesis .
qed

lemma get_word_loop_returns:
  assumes "tree_inv t"
  shows "set (current # nodes) \<subseteq> {..<length (pt_nodes t)} \<Longrightarrow>
    \<exists>x \<in> set (current # nodes). (x, i) \<in> (tree_edges t)\<^sup>* \<Longrightarrow>
    get_word_loop t i nodes current = Some (nd_word (node_of t i))"
proof (induction "sum_list (map (node_weight t) (current # nodes))" arbitrary: current nodes
    rule: less_induct)
  case less
  have cur: "current < length (pt_nodes t)" using less.prems(1) by simp
  have id: "nd_id (node_of t current) = current" by (rule tree_inv_node(1) [OF assms cur])
  show ?case
  proof (cases "current = i")
    case True
    then show ?thesis using id by (subst get_word_loop.simps) simp
  next
    case False
    have "\<exists>x \<in> set (nodes @ child_nodes t current). (x, i) \<in> (tree_edges t)\<^sup>*"
    proof (cases "(current, i) \<in> (tree_edges t)\<^sup>*")
      case True
      then obtain j where "(current, j) \<in> tree_edges t" "(j, i) \<in> (tree_edges t)\<^sup>*"
        using False by (meson converse_rtranclE)
      then show ?thesis by (auto simp: set_child_nodes [OF cur])
    next
      case False
      then show ?thesis using less.prems(2) by auto
    qed
    then obtain x rest where q: "nodes @ child_nodes t current = x # rest"
      "\<exists>x \<in> set (x # rest). (x, i) \<in> (tree_edges t)\<^sup>*"
      by (cases "nodes @ child_nodes t current") auto
    have "sum_list (map (node_weight t) (x # rest)) < sum_list (map (node_weight t) (current # nodes))"
      using child_weights_less [OF assms cur] unfolding q(1) [symmetric] by simp
    moreover have "set (x # rest) \<subseteq> {..<length (pt_nodes t)}"
      using less.prems(1) tree_edges_less(2) [OF assms]
      unfolding q(1) [symmetric] by (auto simp: set_child_nodes [OF cur])
    ultimately have "get_word_loop t i rest x = Some (nd_word (node_of t i))"
      using less.hyps q(2) by blast
    then show ?thesis using False id q(1) by (subst get_word_loop.simps) (simp add: Let_def)
  qed
qed

lemma get_word_loop_id:
  assumes "tree_inv t" "get_word_loop t i nodes current = Some w"
    and "set (current # nodes) \<subseteq> {..<length (pt_nodes t)}"
  shows "i < length (pt_nodes t)"
proof -
  have "tree_inv t \<longrightarrow> set (current # nodes) \<subseteq> {..<length (pt_nodes t)} \<longrightarrow> i < length (pt_nodes t)"
  proof (rule get_word_loop.raw_induct [where P = "\<lambda>t i nodes current w. tree_inv t \<longrightarrow>
      set (current # nodes) \<subseteq> {..<length (pt_nodes t)} \<longrightarrow> i < length (pt_nodes t)", OF _ assms(2)])
    fix loop :: "prefix_tree \<Rightarrow> nat \<Rightarrow> nat list \<Rightarrow> nat \<Rightarrow> jstring option"
    fix t i nodes current w
    assume IH: "\<And>t i nodes current w. loop t i nodes current = Some w \<Longrightarrow> tree_inv t \<longrightarrow>
        set (current # nodes) \<subseteq> {..<length (pt_nodes t)} \<longrightarrow> i < length (pt_nodes t)"
      and step: "(if nd_id (node_of t current) \<noteq> i then
          let nodes = nodes @ child_nodes t current
          in (case nodes of [] \<Rightarrow> loop t i [] current | x # rest \<Rightarrow> loop t i rest x)
        else Some (nd_word (node_of t current))) = Some w"
    show "tree_inv t \<longrightarrow> set (current # nodes) \<subseteq> {..<length (pt_nodes t)} \<longrightarrow> i < length (pt_nodes t)"
    proof (intro impI)
      assume t: "tree_inv t" and q: "set (current # nodes) \<subseteq> {..<length (pt_nodes t)}"
      have cur: "current < length (pt_nodes t)" using q by simp
      show "i < length (pt_nodes t)"
      proof (cases "nd_id (node_of t current) = i")
        case True
        then show ?thesis using tree_inv_node(1) [OF t cur] cur by simp
      next
        case False
        have sub: "set (nodes @ child_nodes t current) \<subseteq> {..<length (pt_nodes t)}"
          using q tree_edges_less(2) [OF t] by (auto simp: set_child_nodes [OF cur])
        show ?thesis
        proof (cases "nodes @ child_nodes t current")
          case Nil
          then have "loop t i [] current = Some w" using step False by (simp add: Let_def)
          then show ?thesis using IH [of t i "[]" current w] t cur by simp
        next
          case (Cons x rest)
          then have "loop t i rest x = Some w" using step False by (simp add: Let_def)
          then show ?thesis using IH [of t i rest x w] t sub Cons by simp
        qed
      qed
    qed
  qed
  with assms show ?thesis by simp
qed

lemma get_word_iff:
  assumes "tree_inv t"
  shows "get_word i t = (if i < length (pt_nodes t) then Some (nd_word (node_of t i)) else None)"
proof (cases "i < length (pt_nodes t)")
  case True
  then show ?thesis
    using get_word_loop_returns [OF assms, of 0 "[]" i] tree_invD(2,3) [OF assms]
      reachable_from_root [OF assms True] by (simp add: get_word_def)
next
  case False
  then show ?thesis
    using get_word_loop_id [OF assms, of i "[]" 0] tree_invD(2,3) [OF assms]
    by (cases "get_word i t") (auto simp: get_word_def)
qed

text \<open>C10: getWord ends with the word of the node for every id that a node has, although its loop has no
  exit for an empty queue; for any other id it never ends.\<close>
theorem get_word_correct:
  assumes "tree_inv t"
  shows "get_word i t = (if i < pt_size t then Some (nd_word (node_of t i)) else None)"
  using get_word_iff [OF assms] tree_invD(4) [OF assms] by simp

theorem get_word_correct_witness:
  "get_word 0 (new_prefix_tree 2 Map.empty) = Some [45] \<and> get_word 1 (new_prefix_tree 2 Map.empty) = None"
proof -
  have t: "tree_inv (new_prefix_tree 2 Map.empty)" by (rule tree_inv_new) simp_all
  show ?thesis
    using get_word_correct [OF t, of 0] get_word_correct [OF t, of 1] by (simp add: new_prefix_tree_def)
qed

text \<open>C9: addWord keeps the invariant of the tree, returns the node of the word and changes the map from
  stored words to acceptance in one way: the word and its prefixes are stored, and the word gets the sign of
  the argument unless it was decided before. It fails exactly on words with unknown characters.\<close>
theorem add_word_correct:
  assumes "tree_inv t"
  shows "if set s \<subseteq> dom (pt_map t)
    then \<exists>t' i. add_word s a t = Some (t', i) \<and> tree_inv t' \<and> i < pt_size t' \<and> path_word t' i = s
      \<and> tree_map t' = add_word_map s a (tree_map t)
    else add_word s a t = None"
proof (cases "set s \<subseteq> dom (pt_map t)")
  case True
  obtain t' i where "add_word s a t = Some (t', i)" "tree_inv t'" "i < length (pt_nodes t')"
    "path_word t' i = s" "tree_map t' = add_word_map s a (tree_map t)"
    by (rule add_word_Some [OF assms True])
  then show ?thesis using True tree_invD(4) by auto
next
  case False
  then show ?thesis using add_word_None [OF assms] by simp
qed

theorem add_word_correct_witness:
  "add_word [97] 1 (new_prefix_tree 2 Map.empty) = None"
proof -
  have t: "tree_inv (new_prefix_tree 2 Map.empty)" by (rule tree_inv_new) simp_all
  show ?thesis using add_word_correct [OF t, of "[97]" 1] by (simp add: new_prefix_tree_def)
qed

end
