(* ===== verification/Learner_Sat.thy ===== *)
theory Learner_Sat
  imports Prefix_Tree "HOL-Library.Monad_Syntax"
begin

text \<open>
  The propositional encoding of the learner (\<open>constructSAT\<close> of \<open>learner/Learner.java\<close>): the formulas
  asserted for a sample and a number \<open>n\<close> of states, and the automaton a model is translated to
  (\<open>translateModel\<close>). A Java exception is \<open>None\<close>.

  The arrays \<open>f\<close>, \<open>d\<close>, \<open>x\<close>, \<open>y\<close>, \<open>z\<close> of Boolean constants are the constructors of \<open>svar\<close>; the name of
  a constant is the running number \<open>varID\<close> or, in debug mode, a description.
\<close>

subsection \<open>Formulas\<close>

datatype var_name =
    VarID nat
  | Name_f nat
  | Name_d nat jchar nat
  | Name_x jstring nat
  | Name_y nat nat
  | Name_z nat nat nat

datatype bexpr =
    BTrue
  | BFalse
  | BConst var_name
  | BNot bexpr
  | BAnd bexpr bexpr
  | BOr bexpr bexpr
  | BImplies bexpr bexpr

primrec beval :: "(var_name \<Rightarrow> bool) \<Rightarrow> bexpr \<Rightarrow> bool" where
  "beval I BTrue = True"
| "beval I BFalse = False"
| "beval I (BConst v) = I v"
| "beval I (BNot e) = (\<not> beval I e)"
| "beval I (BAnd e f) = (beval I e \<and> beval I f)"
| "beval I (BOr e f) = (beval I e \<or> beval I f)"
| "beval I (BImplies e f) = (beval I e \<longrightarrow> beval I f)"

definition models :: "(var_name \<Rightarrow> bool) \<Rightarrow> bexpr list \<Rightarrow> bool" where
  "models I cs \<longleftrightarrow> (\<forall>c \<in> set cs. beval I c)"

lemma models_append [simp]: "models I (cs @ ds) \<longleftrightarrow> models I cs \<and> models I ds"
  by (auto simp: models_def)

lemma models_Nil [simp]: "models I []"
  by (simp add: models_def)

lemma models_Cons [simp]: "models I (c # cs) \<longleftrightarrow> beval I c \<and> models I cs"
  by (simp add: models_def)

lemma models_map: "models I (map f xs) \<longleftrightarrow> (\<forall>x \<in> set xs. beval I (f x))"
  by (simp add: models_def)

lemma models_concat: "models I (concat css) \<longleftrightarrow> (\<forall>cs \<in> set css. models I cs)"
  by (auto simp: models_def)

subsection \<open>The learner's state\<close>

record learner =
  ln_n :: nat
  ln_alphabet :: "jchar list"
  ln_map :: "jchar \<Rightarrow> nat option"
  ln_inverted_map :: "nat \<Rightarrow> jchar option"
  ln_sample :: sample
  ln_debug :: bool

abbreviation alphabet_size :: "learner \<Rightarrow> nat" where
  "alphabet_size L \<equiv> length (ln_alphabet L)"

definition new_learner :: "jchar list \<Rightarrow> bool \<Rightarrow> learner" where
  "new_learner alphabet debug =
    \<lparr>ln_n = 1, ln_alphabet = alphabet,
     ln_map = fold (\<lambda>i m. m(alphabet ! i \<mapsto> i)) [0..<length alphabet] Map.empty,
     ln_inverted_map = fold (\<lambda>i m. m(i \<mapsto> alphabet ! i)) [0..<length alphabet] Map.empty,
     ln_sample = new_sample, ln_debug = debug\<rparr>"

subsection \<open>The variables\<close>

datatype svar =
    VF nat
  | VD nat nat nat
  | VX nat nat
  | VY nat nat nat
  | VZ nat nat nat nat

text \<open>What the names of the variables depend on: the learner, \<open>n\<close> and the tree when the arrays are
  made.\<close>

record encoding =
  en_learner :: learner
  en_n :: nat
  en_tree :: prefix_tree

abbreviation en_k :: "encoding \<Rightarrow> nat" where
  "en_k E \<equiv> alphabet_size (en_learner E)"

abbreviation en_uni :: "encoding \<Rightarrow> counter_example list" where
  "en_uni E \<equiv> sa_uni (ln_sample (en_learner E))"

abbreviation en_ex :: "encoding \<Rightarrow> counter_example list" where
  "en_ex E \<equiv> sa_ex (ln_sample (en_learner E))"

abbreviation ce_states :: "counter_example \<Rightarrow> nat" where
  "ce_states c \<equiv> get_number_of_states (ce_a c)"

definition l_max :: "encoding \<Rightarrow> counter_example \<Rightarrow> nat" where
  "l_max E c = en_n E * ce_states c - 1"

text \<open>The value of \<open>varID\<close> when the constant is made, in the order of the loops.\<close>

definition x_base :: "encoding \<Rightarrow> nat" where
  "x_base E = en_n E + en_n E * en_k E * en_n E"

definition y_base :: "encoding \<Rightarrow> nat \<Rightarrow> nat" where
  "y_base E u =
    x_base E + pt_size (en_tree E) * en_n E
    + sum_list (map (\<lambda>c. en_n E * ce_states c) (take u (en_uni E)))"

definition z_base :: "encoding \<Rightarrow> nat \<Rightarrow> nat" where
  "z_base E e =
    y_base E (length (en_uni E))
    + sum_list (map (\<lambda>c. en_n E * ce_states c * l_max E c) (take e (en_ex E)))"

fun var_id :: "encoding \<Rightarrow> svar \<Rightarrow> nat" where
  "var_id E (VF q) = q"
| "var_id E (VD p a q) = en_n E + (p * en_k E + a) * en_n E + q"
| "var_id E (VX u q) = x_base E + u * en_n E + q"
| "var_id E (VY u p p2) = y_base E u + p * ce_states (en_uni E ! u) + p2"
| "var_id E (VZ e p p2 l) =
    z_base E e + (p * ce_states (en_ex E ! e) + p2) * l_max E (en_ex E ! e) + l"

fun debug_name :: "encoding \<Rightarrow> svar \<Rightarrow> var_name" where
  "debug_name E (VF q) = Name_f q"
| "debug_name E (VD p a q) = Name_d p (the (ln_inverted_map (en_learner E) a)) q"
| "debug_name E (VX u q) = Name_x (the (get_word u (en_tree E))) q"
| "debug_name E (VY u p p2) = Name_y p p2"
| "debug_name E (VZ e p p2 l) = Name_z p p2 l"

definition bool_const :: "encoding \<Rightarrow> svar \<Rightarrow> bexpr" where
  "bool_const E v =
    BConst (if ln_debug (en_learner E) then debug_name E v else VarID (var_id E v))"

subsection \<open>Universal counter-examples\<close>

definition labels_known :: "learner \<Rightarrow> automaton \<Rightarrow> bool" where
  "labels_known L A =
    list_all (\<lambda>s. list_all (\<lambda>t. ln_map L (t_min t) \<noteq> None) (st_transitions s)) (au_states A)"

definition label :: "encoding \<Rightarrow> transition \<Rightarrow> nat" where
  "label E t = the (ln_map (en_learner E) (t_min t))"

definition uni_transitions :: "encoding \<Rightarrow> nat \<Rightarrow> automaton \<Rightarrow> bexpr list" where
  "uni_transitions E u A =
    concat (map (\<lambda>s. concat (map (\<lambda>t. concat (map (\<lambda>p. map (\<lambda>q.
      BImplies (BAnd (bool_const E (VY u p s)) (bool_const E (VD p (label E t) q))) (bool_const E (VY u q (t_to t))))
      [0..<en_n E]) [0..<en_n E])) (transitions_of A s))) [0..<length (au_states A)])"

definition accept_ante :: "encoding \<Rightarrow> nat \<Rightarrow> bexpr" where
  "accept_ante E i =
    foldl (\<lambda>e q. BOr e (BAnd (bool_const E (VX i q)) (bool_const E (VF q)))) BFalse [0..<en_n E]"

definition accept_uni_cons :: "encoding \<Rightarrow> nat \<Rightarrow> automaton \<Rightarrow> bexpr" where
  "accept_uni_cons E u A =
    foldl (\<lambda>e q. foldl (\<lambda>e fa. BAnd e (BImplies (bool_const E (VY u q fa)) (bool_const E (VF q)))) e
      (get_accept_states A)) BTrue [0..<en_n E]"

definition uni_constraints ::
  "encoding \<Rightarrow> nat \<Rightarrow> counter_example \<Rightarrow> prefix_tree \<Rightarrow> (bexpr list \<times> prefix_tree) option" where
  "uni_constraints E u c t =
    (let A = expand_singleton (ce_a c)
     in if \<not> labels_known (en_learner E) A then None
        else do {
          (t, node) \<leftarrow> get_node (ce_u c) t;
          let i = nd_id (node_of t node);
          if i \<ge> pt_size (en_tree E) then None
          else Some ([bool_const E (VY u 0 (au_initial A))] @ uni_transitions E u A
                 @ [BImplies (accept_ante E i) (accept_uni_cons E u A)], t)
        })"

fun uni_loop ::
  "encoding \<Rightarrow> nat \<Rightarrow> counter_example list \<Rightarrow> prefix_tree \<Rightarrow> (bexpr list \<times> prefix_tree) option" where
  "uni_loop E u [] t = Some ([], t)"
| "uni_loop E u (c # cs) t = do {
     (fs, t) \<leftarrow> uni_constraints E u c t;
     (gs, t) \<leftarrow> uni_loop E (Suc u) cs t;
     Some (fs @ gs, t)
   }"

subsection \<open>Existential counter-examples\<close>

definition ex_initial :: "encoding \<Rightarrow> nat \<Rightarrow> automaton \<Rightarrow> bexpr list" where
  "ex_initial E e A =
    bool_const E (VZ e 0 (au_initial A) 0)
    # concat (map (\<lambda>s. concat (map (\<lambda>q.
        if s = au_initial A \<and> q = 0 then [] else [BNot (bool_const E (VZ e q s 0))])
        [0..<en_n E])) [0..<length (au_states A)])"

definition ex_transitions :: "encoding \<Rightarrow> nat \<Rightarrow> automaton \<Rightarrow> nat \<Rightarrow> nat \<Rightarrow> bexpr list" where
  "ex_transitions E e A lm s =
    concat (map (\<lambda>t. concat (map (\<lambda>p. concat (map (\<lambda>q. map (\<lambda>l.
      BImplies (BAnd (bool_const E (VZ e p s l)) (bool_const E (VD p (label E t) q)))
        (bool_const E (VZ e q (t_to t) (l + 1))))
      [0..<lm - 1]) [0..<en_n E])) [0..<en_n E])) (transitions_of A s))"

definition reverse_transition :: "encoding \<Rightarrow> nat \<Rightarrow> automaton \<Rightarrow> nat \<Rightarrow> nat \<Rightarrow> nat \<Rightarrow> bexpr \<times> bool" where
  "reverse_transition E e A s q l =
    foldl (\<lambda>rh s2. foldl (\<lambda>(r, had) t.
        if t_to t = s
        then (foldl (\<lambda>r p. BOr r (BAnd (bool_const E (VD p (label E t) q)) (bool_const E (VZ e p s2 (l - 1)))))
                r [0..<en_n E], True)
        else (r, had)) rh (transitions_of A s2))
      (BFalse, False) [0..<length (au_states A)]"

definition ex_reverse :: "encoding \<Rightarrow> nat \<Rightarrow> automaton \<Rightarrow> nat \<Rightarrow> nat \<Rightarrow> bexpr list" where
  "ex_reverse E e A lm s =
    concat (map (\<lambda>q. map (\<lambda>l.
      let (r, had) = reverse_transition E e A s q l
      in if had then BImplies (bool_const E (VZ e q s l)) r else BNot (bool_const E (VZ e q s l)))
      [1..<lm]) [0..<en_n E])"

definition accept_ex_cons :: "encoding \<Rightarrow> nat \<Rightarrow> automaton \<Rightarrow> nat \<Rightarrow> bexpr" where
  "accept_ex_cons E e A lm =
    foldl (\<lambda>r q. foldl (\<lambda>r fa. foldl (\<lambda>r l.
        BOr r (BAnd (bool_const E (VZ e q fa l)) (bool_const E (VF q)))) r [0..<lm]) r
      (get_accept_states A)) BFalse [0..<en_n E]"

text \<open>The elements of the array \<open>z[e]\<close>, which is made with the lengths \<open>n\<close>, \<open>na\<close> and
  \<open>l_max\<close>; any other index raises an exception. \<open>constructSAT\<close> reads
  \<open>z[e][0][cea.initial.number][0]\<close> first.\<close>

definition z_declared :: "encoding \<Rightarrow> counter_example \<Rightarrow> nat \<Rightarrow> nat \<Rightarrow> nat \<Rightarrow> bool" where
  "z_declared E c q s l \<longleftrightarrow> q < en_n E \<and> s < ce_states c \<and> l < l_max E c"

definition ex_constraints ::
  "encoding \<Rightarrow> nat \<Rightarrow> counter_example \<Rightarrow> prefix_tree \<Rightarrow> (bexpr list \<times> prefix_tree) option" where
  "ex_constraints E e c t =
    (let A = expand_singleton (ce_a c); lm = l_max E c
     in if \<not> z_declared E c 0 (au_initial A) 0 \<or> \<not> labels_known (en_learner E) A then None
        else do {
          (t, node) \<leftarrow> get_node (ce_u c) t;
          let i = nd_id (node_of t node);
          if i \<ge> pt_size (en_tree E) then None
          else Some (ex_initial E e A
                 @ concat (map (\<lambda>s. ex_transitions E e A lm s @ ex_reverse E e A lm s)
                     [0..<length (au_states A)])
                 @ [BImplies (accept_ante E i) (accept_ex_cons E e A lm)], t)
        })"

fun ex_loop ::
  "encoding \<Rightarrow> nat \<Rightarrow> counter_example list \<Rightarrow> prefix_tree \<Rightarrow> (bexpr list \<times> prefix_tree) option" where
  "ex_loop E e [] t = Some ([], t)"
| "ex_loop E e (c # cs) t = do {
     (fs, t) \<leftarrow> ex_constraints E e c t;
     (gs, t) \<leftarrow> ex_loop E (Suc e) cs t;
     Some (fs @ gs, t)
   }"

subsection \<open>The automaton and the words of the sample\<close>

definition d_constraints :: "encoding \<Rightarrow> bexpr list" where
  "d_constraints E =
    concat (map (\<lambda>p. concat (map (\<lambda>a.
      concat (map (\<lambda>q. map (\<lambda>q2. BNot (BAnd (bool_const E (VD p a q)) (bool_const E (VD p a q2))))
        [q + 1..<en_n E]) [0..<en_n E])
      @ [foldl (\<lambda>r q. BOr r (bool_const E (VD p a q))) BFalse [0..<en_n E]])
      [0..<en_k E])) [0..<en_n E])"

definition initial_constraints :: "encoding \<Rightarrow> prefix_tree \<Rightarrow> bexpr list" where
  "initial_constraints E t =
    (let i = nd_id (node_of t (pt_initial t))
     in bool_const E (VX i 0) # map (\<lambda>q. BNot (bool_const E (VX i q))) [1..<en_n E])"

definition node_constraints :: "encoding \<Rightarrow> prefix_tree \<Rightarrow> nat \<Rightarrow> bexpr list" where
  "node_constraints E t node =
    (let d = node_of t node; i = nd_id d
     in concat (map (\<lambda>q1. map (\<lambda>q2. BNot (BAnd (bool_const E (VX i q1)) (bool_const E (VX i q2))))
          [q1 + 1..<en_n E]) [0..<en_n E])
        @ concat (map (\<lambda>a. case nd_children d ! a of
              None \<Rightarrow> []
            | Some child \<Rightarrow> concat (map (\<lambda>p. map (\<lambda>q.
                BImplies (BAnd (bool_const E (VX i p)) (bool_const E (VD p a q)))
                  (bool_const E (VX (nd_id (node_of t child)) q)))
                [0..<en_n E]) [0..<en_n E])) [0..<en_k E])
        @ (if nd_accept d > 0
           then map (\<lambda>q. BImplies (bool_const E (VX i q)) (bool_const E (VF q))) [0..<en_n E]
           else if nd_accept d < 0
           then map (\<lambda>q. BImplies (bool_const E (VX i q)) (BNot (bool_const E (VF q)))) [0..<en_n E]
           else []))"

partial_function (option) prefix_loop ::
  "encoding \<Rightarrow> prefix_tree \<Rightarrow> nat list \<Rightarrow> bexpr list option" where
  "prefix_loop E t nodes =
    (case nodes of
       [] \<Rightarrow> Some []
     | node # rest \<Rightarrow> do {
         cs \<leftarrow> prefix_loop E t (rest @ child_nodes t node);
         Some (node_constraints E t node @ cs)
       })"

declare prefix_loop.simps [code]

fun add_all_words :: "jstring list \<Rightarrow> int \<Rightarrow> prefix_tree \<Rightarrow> prefix_tree option" where
  "add_all_words [] a t = Some t"
| "add_all_words (w # ws) a t = do { (t, _) \<leftarrow> add_word w a t; add_all_words ws a t }"

definition sample_tree :: "learner \<Rightarrow> prefix_tree option" where
  "sample_tree L =
    (let s = ln_sample L
     in do {
       t \<leftarrow> add_all_words (sa_pos s) 1 (new_prefix_tree (alphabet_size L) (ln_map L));
       t \<leftarrow> add_all_words (sa_neg s) (-1) t;
       t \<leftarrow> add_all_words (map ce_u (sa_uni s)) 0 t;
       add_all_words (map ce_u (sa_ex s)) 0 t
     })"

definition construct_sat :: "learner \<Rightarrow> nat \<Rightarrow> bexpr list option" where
  "construct_sat L n = do {
     t \<leftarrow> sample_tree L;
     let E = \<lparr>en_learner = L, en_n = n, en_tree = t\<rparr>;
     (us, t) \<leftarrow> uni_loop E 0 (en_uni E) t;
     (es, t) \<leftarrow> ex_loop E 0 (en_ex E) t;
     ps \<leftarrow> prefix_loop E t [pt_initial t];
     Some (us @ es @ d_constraints E @ initial_constraints E t @ ps)
   }"

subsection \<open>From a model to an automaton\<close>

definition model_state :: "encoding \<Rightarrow> (var_name \<Rightarrow> bool) \<Rightarrow> nat \<Rightarrow> state" where
  "model_state E I p =
    \<lparr>st_accept = beval I (bool_const E (VF p)),
     st_transitions =
       concat (map (\<lambda>a. concat (map (\<lambda>q.
         if beval I (bool_const E (VD p a q))
         then [char_transition (the (ln_inverted_map (en_learner E) a)) q] else [])
         [0..<en_n E])) [0..<en_k E])\<rparr>"

text \<open>The automaton before \<open>minimize\<close>, which is skipped in debug mode.\<close>

definition model_automaton :: "encoding \<Rightarrow> (var_name \<Rightarrow> bool) \<Rightarrow> automaton" where
  "model_automaton E I =
    \<lparr>au_initial = 0, au_states = map (model_state E I) [0..<en_n E],
     au_deterministic = True, au_singleton = None\<rparr>"

definition translate_model ::
  "(automaton \<Rightarrow> automaton) \<Rightarrow> encoding \<Rightarrow> (var_name \<Rightarrow> bool) \<Rightarrow> automaton" where
  "translate_model minimize E I =
    (if \<not> ln_debug (en_learner E) then minimize (model_automaton E I) else model_automaton E I)"

subsection \<open>The meaning of the formulas\<close>

named_theorems sat_simps "truth of the learner's formulas"

lemma ball_below: "(\<forall>x \<in> {0..<n}. P x) \<longleftrightarrow> (\<forall>x < n. P x)" for n :: nat
  by auto

lemma beval_foldl_or:
  assumes "\<And>e x. x \<in> set xs \<Longrightarrow> beval I (f e x) \<longleftrightarrow> beval I e \<or> P x"
  shows "beval I (foldl f e xs) \<longleftrightarrow> beval I e \<or> (\<exists>x \<in> set xs. P x)"
  using assms by (induction xs arbitrary: e) auto

lemma beval_foldl_and:
  assumes "\<And>e x. x \<in> set xs \<Longrightarrow> beval I (f e x) \<longleftrightarrow> beval I e \<and> P x"
  shows "beval I (foldl f e xs) \<longleftrightarrow> beval I e \<and> (\<forall>x \<in> set xs. P x)"
  using assms by (induction xs arbitrary: e) auto

abbreviation truth :: "encoding \<Rightarrow> (var_name \<Rightarrow> bool) \<Rightarrow> svar \<Rightarrow> bool" where
  "truth E I v \<equiv> beval I (bool_const E v)"

lemma accept_ante_iff [sat_simps]:
  "beval I (accept_ante E i) \<longleftrightarrow> (\<exists>q < en_n E. truth E I (VX i q) \<and> truth E I (VF q))"
  unfolding accept_ante_def
  by (subst beval_foldl_or [where P = "\<lambda>q. truth E I (VX i q) \<and> truth E I (VF q)"]) auto

lemma accept_uni_cons_iff [sat_simps]:
  "beval I (accept_uni_cons E u A) \<longleftrightarrow>
    (\<forall>q < en_n E. \<forall>fa \<in> set (get_accept_states A). truth E I (VY u q fa) \<longrightarrow> truth E I (VF q))"
  unfolding accept_uni_cons_def
  by (subst beval_foldl_and [where P = "\<lambda>q. \<forall>fa \<in> set (get_accept_states A).
        truth E I (VY u q fa) \<longrightarrow> truth E I (VF q)"],
      subst beval_foldl_and [where P = "\<lambda>fa. truth E I (VY u q fa) \<longrightarrow> truth E I (VF q)" for q])
    auto

lemma accept_ex_cons_iff [sat_simps]:
  "beval I (accept_ex_cons E e A lm) \<longleftrightarrow>
    (\<exists>q < en_n E. \<exists>fa \<in> set (get_accept_states A). \<exists>l < lm.
       truth E I (VZ e q fa l) \<and> truth E I (VF q))"
proof -
  have 1: "beval I (foldl (\<lambda>r l. BOr r (BAnd (bool_const E (VZ e q fa l)) (bool_const E (VF q)))) r [0..<lm])
    \<longleftrightarrow> beval I r \<or> (\<exists>l < lm. truth E I (VZ e q fa l) \<and> truth E I (VF q))" for r q fa
    by (subst beval_foldl_or [where P = "\<lambda>l. truth E I (VZ e q fa l) \<and> truth E I (VF q)"]) auto
  have 2: "beval I (foldl (\<lambda>r fa. foldl (\<lambda>r l. BOr r (BAnd (bool_const E (VZ e q fa l)) (bool_const E (VF q)))) r [0..<lm]) r
      (get_accept_states A))
    \<longleftrightarrow> beval I r \<or> (\<exists>fa \<in> set (get_accept_states A). \<exists>l < lm. truth E I (VZ e q fa l) \<and> truth E I (VF q))" for r q
    by (rule beval_foldl_or, rule 1)
  show ?thesis unfolding accept_ex_cons_def
    by (subst beval_foldl_or [OF 2]) (simp add: Bex_def)
qed

lemma uni_transitions_iff [sat_simps]:
  "models I (uni_transitions E u A) \<longleftrightarrow>
    (\<forall>s < length (au_states A). \<forall>t \<in> set (transitions_of A s). \<forall>p < en_n E. \<forall>q < en_n E.
       truth E I (VY u p s) \<and> truth E I (VD p (label E t) q) \<longrightarrow> truth E I (VY u q (t_to t)))"
  by (auto simp: uni_transitions_def models_def)

lemma ex_initial_iff [sat_simps]:
  "models I (ex_initial E e A) \<longleftrightarrow>
    truth E I (VZ e 0 (au_initial A) 0)
    \<and> (\<forall>s < length (au_states A). \<forall>q < en_n E.
         s = au_initial A \<and> q = 0 \<or> \<not> truth E I (VZ e q s 0))"
  by (fastforce simp: ex_initial_def models_def)

lemma ex_transitions_iff [sat_simps]:
  "models I (ex_transitions E e A lm s) \<longleftrightarrow>
    (\<forall>t \<in> set (transitions_of A s). \<forall>p < en_n E. \<forall>q < en_n E. \<forall>l < lm - 1.
       truth E I (VZ e p s l) \<and> truth E I (VD p (label E t) q) \<longrightarrow> truth E I (VZ e q (t_to t) (l + 1)))"
  by (auto simp: ex_transitions_def models_def)

definition reverse_step :: "encoding \<Rightarrow> (svar \<Rightarrow> bool) \<Rightarrow> nat \<Rightarrow> automaton \<Rightarrow> nat \<Rightarrow> nat \<Rightarrow> nat \<Rightarrow> bool" where
  "reverse_step E V e A s q l \<longleftrightarrow>
    (\<exists>s2 < length (au_states A). \<exists>t \<in> set (transitions_of A s2). t_to t = s
       \<and> (\<exists>p < en_n E. V (VD p (label E t) q) \<and> V (VZ e p s2 (l - 1))))"

lemma foldl_pair_or:
  assumes "\<And>r h x. x \<in> set xs \<Longrightarrow> (beval I (fst (f (r, h) x)) \<longleftrightarrow> beval I r \<or> P x)
    \<and> (snd (f (r, h) x) \<longleftrightarrow> h \<or> Q x)"
  shows "(beval I (fst (foldl f (r, h) xs)) \<longleftrightarrow> beval I r \<or> (\<exists>x \<in> set xs. P x))
    \<and> (snd (foldl f (r, h) xs) \<longleftrightarrow> h \<or> (\<exists>x \<in> set xs. Q x))"
  using assms
proof (induction xs arbitrary: r h)
  case (Cons x xs)
  obtain r' h' where rh: "f (r, h) x = (r', h')" by fastforce
  with Cons.prems [of x r h] have "beval I r' \<longleftrightarrow> beval I r \<or> P x" "h' \<longleftrightarrow> h \<or> Q x"
    by simp_all
  with Cons.IH [of r' h'] Cons.prems show ?case by (auto simp: rh)
qed simp

definition reverse_step_in :: "encoding \<Rightarrow> automaton \<Rightarrow> nat \<Rightarrow> nat \<Rightarrow> nat \<Rightarrow> nat \<Rightarrow>
    bexpr \<times> bool \<Rightarrow> nat \<Rightarrow> bexpr \<times> bool" where
  "reverse_step_in E A s q l e rh s2 =
    foldl (\<lambda>(r, had) t.
        if t_to t = s
        then (foldl (\<lambda>r p. BOr r (BAnd (bool_const E (VD p (label E t) q)) (bool_const E (VZ e p s2 (l - 1)))))
                r [0..<en_n E], True)
        else (r, had)) rh (transitions_of A s2)"

lemma reverse_step_in_iff:
  "(beval I (fst (reverse_step_in E A s q l e (r, h) s2)) \<longleftrightarrow>
      beval I r \<or> (\<exists>t \<in> set (transitions_of A s2). t_to t = s
        \<and> (\<exists>p < en_n E. truth E I (VD p (label E t) q) \<and> truth E I (VZ e p s2 (l - 1)))))
    \<and> (snd (reverse_step_in E A s q l e (r, h) s2) \<longleftrightarrow>
        h \<or> (\<exists>t \<in> set (transitions_of A s2). t_to t = s))"
proof -
  have 1: "beval I (foldl (\<lambda>r p. BOr r (BAnd (bool_const E (VD p (label E t) q)) (bool_const E (VZ e p s2 (l - 1))))) r [0..<en_n E])
    \<longleftrightarrow> beval I r \<or> (\<exists>p < en_n E. truth E I (VD p (label E t) q) \<and> truth E I (VZ e p s2 (l - 1)))" for r t
    by (subst beval_foldl_or [where P = "\<lambda>p. truth E I (VD p (label E t) q) \<and> truth E I (VZ e p s2 (l - 1))"]) auto
  show ?thesis unfolding reverse_step_in_def
    by (rule foldl_pair_or) (use 1 in \<open>simp split: if_split\<close>)
qed

lemma reverse_transition_iff:
  "(beval I (fst (reverse_transition E e A s q l)) \<longleftrightarrow> reverse_step E (truth E I) e A s q l)
    \<and> (snd (reverse_transition E e A s q l) \<longleftrightarrow>
        (\<exists>s2 < length (au_states A). \<exists>t \<in> set (transitions_of A s2). t_to t = s))"
proof -
  have "reverse_transition E e A s q l
      = foldl (reverse_step_in E A s q l e) (BFalse, False) [0..<length (au_states A)]"
    unfolding reverse_transition_def reverse_step_in_def [abs_def] ..
  then show ?thesis
    using foldl_pair_or [of "[0..<length (au_states A)]" I "reverse_step_in E A s q l e", OF reverse_step_in_iff,
        of BFalse False]
    by (simp add: reverse_step_def Bex_def)
qed

lemma ex_reverse_iff [sat_simps]:
  "models I (ex_reverse E e A lm s) \<longleftrightarrow>
    (\<forall>q < en_n E. \<forall>l \<in> {1..<lm}. truth E I (VZ e q s l) \<longrightarrow> reverse_step E (truth E I) e A s q l)"
proof -
  have "beval I (let (r, had) = reverse_transition E e A s q l
      in if had then BImplies (bool_const E (VZ e q s l)) r else BNot (bool_const E (VZ e q s l)))
    \<longleftrightarrow> (truth E I (VZ e q s l) \<longrightarrow> reverse_step E (truth E I) e A s q l)" for q l
    using reverse_transition_iff [of I E e A s q l]
    by (auto simp: reverse_step_def split: prod.splits)
  then show ?thesis by (auto simp: ex_reverse_def models_concat models_map)
qed

lemma d_constraints_iff [sat_simps]:
  "models I (d_constraints E) \<longleftrightarrow>
    (\<forall>p < en_n E. \<forall>a < en_k E.
       (\<forall>q < en_n E. \<forall>q2 \<in> {q + 1..<en_n E}. \<not> (truth E I (VD p a q) \<and> truth E I (VD p a q2)))
       \<and> (\<exists>q < en_n E. truth E I (VD p a q)))"
proof -
  have 1: "beval I (foldl (\<lambda>r q. BOr r (bool_const E (VD p a q))) BFalse [0..<en_n E])
    \<longleftrightarrow> (\<exists>q < en_n E. truth E I (VD p a q))" for p a
    by (subst beval_foldl_or [where P = "\<lambda>q. truth E I (VD p a q)"]) auto
  show ?thesis
    unfolding d_constraints_def by (simp add: 1 models_concat models_map ball_below)
qed

lemma initial_constraints_iff [sat_simps]:
  "models I (initial_constraints E t) \<longleftrightarrow>
    truth E I (VX (nd_id (node_of t (pt_initial t))) 0)
    \<and> (\<forall>q \<in> {1..<en_n E}. \<not> truth E I (VX (nd_id (node_of t (pt_initial t))) q))"
  by (auto simp: initial_constraints_def Let_def models_map)

definition node_ok :: "encoding \<Rightarrow> prefix_tree \<Rightarrow> (svar \<Rightarrow> bool) \<Rightarrow> nat \<Rightarrow> bool" where
  "node_ok E t V i \<longleftrightarrow>
    (\<forall>q1 < en_n E. \<forall>q2 \<in> {q1 + 1..<en_n E}. \<not> (V (VX i q1) \<and> V (VX i q2)))
    \<and> (\<forall>a j p q. edge t i a j \<longrightarrow> p < en_n E \<longrightarrow> q < en_n E \<longrightarrow> V (VX i p) \<longrightarrow> V (VD p a q) \<longrightarrow> V (VX j q))
    \<and> (nd_accept (node_of t i) > 0 \<longrightarrow> (\<forall>q < en_n E. V (VX i q) \<longrightarrow> V (VF q)))
    \<and> (nd_accept (node_of t i) < 0 \<longrightarrow> (\<forall>q < en_n E. V (VX i q) \<longrightarrow> \<not> V (VF q)))"

lemma node_constraints_iff:
  assumes t: "tree_inv t" and i: "i < length (pt_nodes t)" and k: "pt_alphabet_size t = en_k E"
  shows "models I (node_constraints E t i) \<longleftrightarrow> node_ok E t (truth E I) i"
proof -
  have id: "nd_id (node_of t i) = i" by (rule tree_inv_node(1) [OF t i])
  let ?e = "\<lambda>a. case nd_children (node_of t i) ! a of
        None \<Rightarrow> []
      | Some child \<Rightarrow> concat (map (\<lambda>p. map (\<lambda>q.
          BImplies (BAnd (bool_const E (VX i p)) (bool_const E (VD p a q)))
            (bool_const E (VX (nd_id (node_of t child)) q)))
          [0..<en_n E]) [0..<en_n E])"
  have edges: "models I (?e a) \<longleftrightarrow>
      (\<forall>j p q. edge t i a j \<longrightarrow> p < en_n E \<longrightarrow> q < en_n E \<longrightarrow> truth E I (VX i p) \<longrightarrow>
        truth E I (VD p a q) \<longrightarrow> truth E I (VX j q))" if "a < en_k E" for a
  proof (cases "nd_children (node_of t i) ! a")
    case None
    then show ?thesis by (simp add: edge_def)
  next
    case (Some j)
    then have e: "edge t i a j" using that i k tree_inv_node(2) [OF t i] by (simp add: edge_def)
    have j: "nd_id (node_of t j) = j" by (rule tree_inv_node(1) [OF t tree_inv_edge(2) [OF t e]])
    have "edge t i a j' \<longleftrightarrow> j' = j" for j' using e by (auto simp: edge_def)
    then show ?thesis by (auto simp: Some j models_concat models_map ball_below)
  qed
  have bound: "edge t i a j \<Longrightarrow> a < en_k E" for a j
    using k tree_inv_node(2) [OF t i] by (simp add: edge_def)
  have acc: "models I (if nd_accept (node_of t i) > 0
           then map (\<lambda>q. BImplies (bool_const E (VX i q)) (bool_const E (VF q))) [0..<en_n E]
           else if nd_accept (node_of t i) < 0
           then map (\<lambda>q. BImplies (bool_const E (VX i q)) (BNot (bool_const E (VF q)))) [0..<en_n E]
           else []) \<longleftrightarrow>
      (nd_accept (node_of t i) > 0 \<longrightarrow> (\<forall>q < en_n E. truth E I (VX i q) \<longrightarrow> truth E I (VF q)))
    \<and> (nd_accept (node_of t i) < 0 \<longrightarrow> (\<forall>q < en_n E. truth E I (VX i q) \<longrightarrow> \<not> truth E I (VF q)))"
    by (simp add: models_map ball_below)
  have "models I (node_constraints E t i) \<longleftrightarrow>
      (\<forall>q1 < en_n E. \<forall>q2 \<in> {q1 + 1..<en_n E}. \<not> (truth E I (VX i q1) \<and> truth E I (VX i q2)))
    \<and> (\<forall>a < en_k E. models I (?e a))
    \<and> (nd_accept (node_of t i) > 0 \<longrightarrow> (\<forall>q < en_n E. truth E I (VX i q) \<longrightarrow> truth E I (VF q)))
    \<and> (nd_accept (node_of t i) < 0 \<longrightarrow> (\<forall>q < en_n E. truth E I (VX i q) \<longrightarrow> \<not> truth E I (VF q)))"
    unfolding node_constraints_def Let_def id models_append acc
    by (simp add: models_concat models_map ball_below)
  also have "(\<forall>a < en_k E. models I (?e a)) \<longleftrightarrow> (\<forall>a j p q. edge t i a j \<longrightarrow> p < en_n E \<longrightarrow> q < en_n E \<longrightarrow>
      truth E I (VX i p) \<longrightarrow> truth E I (VD p a q) \<longrightarrow> truth E I (VX j q))"
    using edges bound by blast
  finally show ?thesis unfolding node_ok_def .
qed

lemma prefix_loop_returns:
  assumes t: "tree_inv t"
  shows "set nodes \<subseteq> {..<length (pt_nodes t)} \<Longrightarrow>
    \<exists>cs. prefix_loop E t nodes = Some cs
      \<and> (\<forall>I. models I cs \<longleftrightarrow>
           (\<forall>x. (\<exists>r \<in> set nodes. (r, x) \<in> (tree_edges t)\<^sup>*) \<longrightarrow> models I (node_constraints E t x)))"
proof (induction "sum_list (map (node_weight t) nodes)" arbitrary: nodes rule: less_induct)
  case less
  show ?case
  proof (cases nodes)
    case Nil
    then show ?thesis by (subst prefix_loop.simps) simp
  next
    case (Cons x rest)
    have x: "x < length (pt_nodes t)" using less.prems Cons by simp
    let ?nodes = "rest @ child_nodes t x"
    have "sum_list (map (node_weight t) ?nodes) < sum_list (map (node_weight t) nodes)"
      using child_weights_less [OF t x] by (simp add: Cons)
    moreover have "set ?nodes \<subseteq> {..<length (pt_nodes t)}"
      using less.prems tree_edges_less(2) [OF t] by (auto simp: Cons set_child_nodes [OF x])
    ultimately obtain cs where cs: "prefix_loop E t ?nodes = Some cs"
      "\<And>I. models I cs \<longleftrightarrow>
         (\<forall>y. (\<exists>r \<in> set ?nodes. (r, y) \<in> (tree_edges t)\<^sup>*) \<longrightarrow> models I (node_constraints E t y))"
      using less.hyps by meson
    have "(\<exists>r \<in> set nodes. (r, y) \<in> (tree_edges t)\<^sup>*) \<longleftrightarrow>
        y = x \<or> (\<exists>r \<in> set ?nodes. (r, y) \<in> (tree_edges t)\<^sup>*)" for y
      by (auto simp: Cons set_child_nodes [OF x] intro: converse_rtrancl_into_rtrancl
          elim: converse_rtranclE)
    then have "models I (node_constraints E t x @ cs) \<longleftrightarrow>
        (\<forall>y. (\<exists>r \<in> set nodes. (r, y) \<in> (tree_edges t)\<^sup>*) \<longrightarrow> models I (node_constraints E t y))" for I
      using cs(2) [of I] by auto
    then show ?thesis using cs(1) by (subst prefix_loop.simps) (simp add: Cons)
  qed
qed

lemma prefix_loop_root:
  assumes t: "tree_inv t" and k: "pt_alphabet_size t = en_k E"
  obtains cs where "prefix_loop E t [pt_initial t] = Some cs"
    "\<And>I. models I cs \<longleftrightarrow> (\<forall>i < length (pt_nodes t). node_ok E t (truth E I) i)"
proof -
  have root: "pt_initial t = 0" "0 < length (pt_nodes t)" using tree_invD(2,3) [OF t] .
  have reach: "(0, i) \<in> (tree_edges t)\<^sup>* \<longleftrightarrow> i < length (pt_nodes t)" for i
    using reachable_from_root [OF t] tree_edges_less(2) [OF t] root(2) by (auto elim: rtranclE)
  obtain cs where "prefix_loop E t [pt_initial t] = Some cs"
    and "\<And>I. models I cs \<longleftrightarrow> (\<forall>i < length (pt_nodes t). models I (node_constraints E t i))"
    using prefix_loop_returns [OF t, of "[pt_initial t]" E] root by (auto simp: reach)
  with that show thesis by (simp add: node_constraints_iff [OF t _ k])
qed

subsection \<open>The conditions an encoding states\<close>

definition uni_ok :: "encoding \<Rightarrow> (svar \<Rightarrow> bool) \<Rightarrow> nat \<Rightarrow> automaton \<Rightarrow> nat \<Rightarrow> bool" where
  "uni_ok E V u A i \<longleftrightarrow>
    V (VY u 0 (au_initial A))
    \<and> (\<forall>s < length (au_states A). \<forall>t \<in> set (transitions_of A s). \<forall>p < en_n E. \<forall>q < en_n E.
         V (VY u p s) \<and> V (VD p (label E t) q) \<longrightarrow> V (VY u q (t_to t)))
    \<and> ((\<exists>q < en_n E. V (VX i q) \<and> V (VF q)) \<longrightarrow>
       (\<forall>q < en_n E. \<forall>fa \<in> set (get_accept_states A). V (VY u q fa) \<longrightarrow> V (VF q)))"

definition ex_ok :: "encoding \<Rightarrow> (svar \<Rightarrow> bool) \<Rightarrow> nat \<Rightarrow> automaton \<Rightarrow> nat \<Rightarrow> nat \<Rightarrow> bool" where
  "ex_ok E V e A lm i \<longleftrightarrow>
    V (VZ e 0 (au_initial A) 0)
    \<and> (\<forall>s < length (au_states A). \<forall>q < en_n E. s = au_initial A \<and> q = 0 \<or> \<not> V (VZ e q s 0))
    \<and> (\<forall>s < length (au_states A).
         (\<forall>t \<in> set (transitions_of A s). \<forall>p < en_n E. \<forall>q < en_n E. \<forall>l < lm - 1.
            V (VZ e p s l) \<and> V (VD p (label E t) q) \<longrightarrow> V (VZ e q (t_to t) (l + 1)))
         \<and> (\<forall>q < en_n E. \<forall>l \<in> {1..<lm}. V (VZ e q s l) \<longrightarrow> reverse_step E V e A s q l))
    \<and> ((\<exists>q < en_n E. V (VX i q) \<and> V (VF q)) \<longrightarrow>
       (\<exists>q < en_n E. \<exists>fa \<in> set (get_accept_states A). \<exists>l < lm. V (VZ e q fa l) \<and> V (VF q)))"

definition encodes :: "encoding \<Rightarrow> (svar \<Rightarrow> bool) \<Rightarrow> bool" where
  "encodes E V \<longleftrightarrow>
    (\<forall>p < en_n E. \<forall>a < en_k E.
       (\<forall>q < en_n E. \<forall>q2 \<in> {q + 1..<en_n E}. \<not> (V (VD p a q) \<and> V (VD p a q2)))
       \<and> (\<exists>q < en_n E. V (VD p a q)))
    \<and> V (VX 0 0) \<and> (\<forall>q \<in> {1..<en_n E}. \<not> V (VX 0 q))
    \<and> (\<forall>i < length (pt_nodes (en_tree E)). node_ok E (en_tree E) V i)
    \<and> (\<forall>u < length (en_uni E). \<forall>i < length (pt_nodes (en_tree E)).
         path_word (en_tree E) i = ce_u (en_uni E ! u) \<longrightarrow>
           uni_ok E V u (expand_singleton (ce_a (en_uni E ! u))) i)
    \<and> (\<forall>e < length (en_ex E). \<forall>i < length (pt_nodes (en_tree E)).
         path_word (en_tree E) i = ce_u (en_ex E ! e) \<longrightarrow>
           ex_ok E V e (expand_singleton (ce_a (en_ex E ! e))) (l_max E (en_ex E ! e)) i)"

definition stored :: "prefix_tree \<Rightarrow> jstring \<Rightarrow> bool" where
  "stored t w \<longleftrightarrow> (\<exists>i < length (pt_nodes t). path_word t i = w)"

lemma uni_constraints_Some:
  assumes t: "tree_inv t" and E: "en_tree E = t" and w: "stored t (ce_u c)"
    and l: "labels_known (en_learner E) (expand_singleton (ce_a c))"
  obtains cs where "uni_constraints E u c t = Some (cs, t)"
    "\<And>I. models I cs \<longleftrightarrow> (\<forall>i < length (pt_nodes t). path_word t i = ce_u c \<longrightarrow>
        uni_ok E (truth E I) u (expand_singleton (ce_a c)) i)"
proof -
  obtain i where i: "i < length (pt_nodes t)" "path_word t i = ce_u c"
    using w by (auto simp: stored_def)
  have i_iff: "j < length (pt_nodes t) \<and> path_word t j = ce_u c \<longleftrightarrow> j = i" for j
    using path_word_inject [OF t _ i(1)] i by auto
  have one: "(\<forall>j < length (pt_nodes t). path_word t j = ce_u c \<longrightarrow> P j) \<longleftrightarrow> P i" for P
    by (simp only: i_iff imp_conjL [symmetric] simp_thms)
  have g: "get_node (ce_u c) t = Some (t, i)" using get_node_stored [OF t i(1)] i(2) by simp
  have id: "nd_id (node_of t i) = i" "i < pt_size t"
    using tree_inv_node(1) [OF t i(1)] tree_invD(4) [OF t] i(1) by simp_all
  let ?A = "expand_singleton (ce_a c)"
  let ?cs = "[bool_const E (VY u 0 (au_initial ?A))] @ uni_transitions E u ?A
      @ [BImplies (accept_ante E i) (accept_uni_cons E u ?A)]"
  have "uni_constraints E u c t = Some (?cs, t)"
    using l id by (simp add: uni_constraints_def Let_def g E not_le)
  moreover have "models I ?cs \<longleftrightarrow> uni_ok E (truth E I) u ?A i" for I
    by (simp add: uni_ok_def sat_simps)
  ultimately show thesis by (rule that [unfolded one])
qed

lemma ex_constraints_Some:
  assumes t: "tree_inv t" and E: "en_tree E = t" and w: "stored t (ce_u c)"
    and l: "labels_known (en_learner E) (expand_singleton (ce_a c))" and n: "1 < en_n E * ce_states c"
    and i0: "au_initial (expand_singleton (ce_a c)) < ce_states c"
  obtains cs where "ex_constraints E e c t = Some (cs, t)"
    "\<And>I. models I cs \<longleftrightarrow> (\<forall>i < length (pt_nodes t). path_word t i = ce_u c \<longrightarrow>
        ex_ok E (truth E I) e (expand_singleton (ce_a c)) (l_max E c) i)"
proof -
  obtain i where i: "i < length (pt_nodes t)" "path_word t i = ce_u c"
    using w by (auto simp: stored_def)
  have i_iff: "j < length (pt_nodes t) \<and> path_word t j = ce_u c \<longleftrightarrow> j = i" for j
    using path_word_inject [OF t _ i(1)] i by auto
  have one: "(\<forall>j < length (pt_nodes t). path_word t j = ce_u c \<longrightarrow> P j) \<longleftrightarrow> P i" for P
    by (simp only: i_iff imp_conjL [symmetric] simp_thms)
  have g: "get_node (ce_u c) t = Some (t, i)" using get_node_stored [OF t i(1)] i(2) by simp
  have id: "nd_id (node_of t i) = i" "i < pt_size t"
    using tree_inv_node(1) [OF t i(1)] tree_invD(4) [OF t] i(1) by simp_all
  let ?A = "expand_singleton (ce_a c)" and ?lm = "l_max E c"
  let ?cs = "ex_initial E e ?A
      @ concat (map (\<lambda>s. ex_transitions E e ?A ?lm s @ ex_reverse E e ?A ?lm s) [0..<length (au_states ?A)])
      @ [BImplies (accept_ante E i) (accept_ex_cons E e ?A ?lm)]"
  have z: "z_declared E c 0 (au_initial ?A) 0" using n i0 by (cases "en_n E") (simp_all add: z_declared_def l_max_def)
  have "ex_constraints E e c t = Some (?cs, t)"
    using l id z by (simp add: ex_constraints_def Let_def g E not_le)
  moreover have "models I ?cs \<longleftrightarrow> ex_ok E (truth E I) e ?A ?lm i" for I
    by (simp add: ex_ok_def sat_simps models_concat ball_below)
  ultimately show thesis by (rule that [unfolded one])
qed

lemma uni_loop_Some:
  assumes "tree_inv t" "en_tree E = t"
    and "\<forall>c \<in> set cs. stored t (ce_u c) \<and> labels_known (en_learner E) (expand_singleton (ce_a c))"
  shows "\<exists>fs. uni_loop E u cs t = Some (fs, t)
    \<and> (\<forall>I. models I fs \<longleftrightarrow> (\<forall>j < length cs. \<forall>i < length (pt_nodes t). path_word t i = ce_u (cs ! j) \<longrightarrow>
          uni_ok E (truth E I) (u + j) (expand_singleton (ce_a (cs ! j))) i))"
  using assms(3)
proof (induction cs arbitrary: u)
  case (Cons c cs)
  obtain fs where fs: "uni_constraints E u c t = Some (fs, t)"
    "\<And>I. models I fs \<longleftrightarrow> (\<forall>i < length (pt_nodes t). path_word t i = ce_u c \<longrightarrow>
        uni_ok E (truth E I) u (expand_singleton (ce_a c)) i)"
    using uni_constraints_Some [OF assms(1,2), of c u] Cons.prems by (metis list.set_intros(1))
  obtain gs where gs: "uni_loop E (Suc u) cs t = Some (gs, t)"
    "\<And>I. models I gs \<longleftrightarrow> (\<forall>j < length cs. \<forall>i < length (pt_nodes t). path_word t i = ce_u (cs ! j) \<longrightarrow>
        uni_ok E (truth E I) (Suc u + j) (expand_singleton (ce_a (cs ! j))) i)"
    using Cons.IH [of "Suc u"] Cons.prems by auto
  show ?case
    using fs gs by (simp add: All_less_Suc2)
qed simp

lemma ex_loop_Some:
  assumes "tree_inv t" "en_tree E = t"
    and "\<forall>c \<in> set cs. stored t (ce_u c) \<and> labels_known (en_learner E) (expand_singleton (ce_a c))
      \<and> 1 < en_n E * ce_states c \<and> au_initial (expand_singleton (ce_a c)) < ce_states c"
  shows "\<exists>fs. ex_loop E e cs t = Some (fs, t)
    \<and> (\<forall>I. models I fs \<longleftrightarrow> (\<forall>j < length cs. \<forall>i < length (pt_nodes t). path_word t i = ce_u (cs ! j) \<longrightarrow>
          ex_ok E (truth E I) (e + j) (expand_singleton (ce_a (cs ! j))) (l_max E (cs ! j)) i))"
  using assms(3)
proof (induction cs arbitrary: e)
  case (Cons c cs)
  obtain fs where fs: "ex_constraints E e c t = Some (fs, t)"
    "\<And>I. models I fs \<longleftrightarrow> (\<forall>i < length (pt_nodes t). path_word t i = ce_u c \<longrightarrow>
        ex_ok E (truth E I) e (expand_singleton (ce_a c)) (l_max E c) i)"
    using ex_constraints_Some [OF assms(1,2), of c e] Cons.prems by (metis list.set_intros(1))
  obtain gs where gs: "ex_loop E (Suc e) cs t = Some (gs, t)"
    "\<And>I. models I gs \<longleftrightarrow> (\<forall>j < length cs. \<forall>i < length (pt_nodes t). path_word t i = ce_u (cs ! j) \<longrightarrow>
        ex_ok E (truth E I) (Suc e + j) (expand_singleton (ce_a (cs ! j))) (l_max E (cs ! j)) i)"
    using Cons.IH [of "Suc e"] Cons.prems by auto
  show ?case
    using fs gs by (simp add: All_less_Suc2)
qed simp

subsection \<open>The tree of a sample\<close>

definition add_all_words_map ::
  "jstring list \<Rightarrow> int \<Rightarrow> (jstring \<Rightarrow> int option) \<Rightarrow> jstring \<Rightarrow> int option" where
  "add_all_words_map ws a m w =
    (if (\<exists>v \<in> set ws. prefix w v) \<or> m w \<noteq> None
     then Some (let old = (case m w of None \<Rightarrow> 0 | Some b \<Rightarrow> b)
                in if w \<in> set ws then decide_accept old a else old)
     else None)"

lemma add_all_words_map_Nil: "add_all_words_map [] a m = m"
  by (auto simp: add_all_words_map_def fun_eq_iff split: option.splits)

lemma add_all_words_map_Cons: "add_all_words_map ws a (add_word_map v a m) = add_all_words_map (v # ws) a m"
proof
  fix w
  have "decide_accept (decide_accept b a) a = decide_accept b a" for b
    by (simp add: decide_accept_def)
  then show "add_all_words_map ws a (add_word_map v a m) w = add_all_words_map (v # ws) a m w"
    by (cases "m w"; cases "w = v"; simp add: add_all_words_map_def add_word_map_def Let_def)
qed

lemma add_all_words_Some:
  assumes "tree_inv t" "\<forall>w \<in> set ws. set w \<subseteq> dom (pt_map t)"
  obtains t' where "add_all_words ws a t = Some t'" "tree_inv t'" "pt_map t' = pt_map t"
    "pt_alphabet_size t' = pt_alphabet_size t" "tree_map t' = add_all_words_map ws a (tree_map t)"
  using assms
proof (induction ws arbitrary: t thesis)
  case Nil
  then show ?case by (simp add: add_all_words_map_Nil)
next
  case (Cons v ws)
  have v: "set v \<subseteq> dom (pt_map t)" using Cons.prems(3) by simp
  obtain t1 i where t1: "add_word v a t = Some (t1, i)" "tree_inv t1" "pt_map t1 = pt_map t"
    "pt_alphabet_size t1 = pt_alphabet_size t" "tree_map t1 = add_word_map v a (tree_map t)"
    by (rule add_word_Some [OF Cons.prems(2) v])
  have ws: "\<forall>w \<in> set ws. set w \<subseteq> dom (pt_map t1)" using Cons.prems(3) t1(3) by simp
  obtain t' where t': "add_all_words ws a t1 = Some t'" "tree_inv t'" "pt_map t' = pt_map t1"
    "pt_alphabet_size t' = pt_alphabet_size t1" "tree_map t' = add_all_words_map ws a (tree_map t1)"
    by (rule Cons.IH [OF _ t1(2) ws])
  show ?case
    by (rule Cons.prems(1) [of t']) (simp_all add: t1 t' add_all_words_map_Cons)
qed

definition maps_ok :: "learner \<Rightarrow> bool" where
  "maps_ok L \<longleftrightarrow>
    distinct (ln_alphabet L)
    \<and> (\<forall>ch i. ln_map L ch = Some i \<longleftrightarrow> i < alphabet_size L \<and> ln_alphabet L ! i = ch)
    \<and> (\<forall>i < alphabet_size L. ln_inverted_map L i = Some (ln_alphabet L ! i))"

lemma maps_ok_new:
  assumes "distinct alphabet"
  shows "maps_ok (new_learner alphabet debug)"
proof -
  have 1: "fold (\<lambda>i m. m(alphabet ! i \<mapsto> i)) [0..<n] Map.empty ch = Some i \<longleftrightarrow> i < n \<and> alphabet ! i = ch"
    if "n \<le> length alphabet" for n ch i
    using that
  proof (induction n)
    case (Suc n)
    have "\<not> (alphabet ! n = ch \<and> i < n \<and> alphabet ! i = ch)"
      using assms Suc.prems by (auto simp: nth_eq_iff_index_eq)
    with Suc show ?case by (auto simp: less_Suc_eq)
  qed simp
  have 2: "i < n \<Longrightarrow> fold (\<lambda>i m. m(i \<mapsto> alphabet ! i)) [0..<n] Map.empty i = Some (alphabet ! i)" for n i
    by (induction n) auto
  show ?thesis unfolding maps_ok_def new_learner_def
    using assms 1 [OF order_refl] 2 [where n = "length alphabet"] by simp
qed

lemma maps_ok_map:
  assumes "maps_ok L"
  shows "inj_on (ln_map L) (dom (ln_map L))" "dom (ln_map L) = set (ln_alphabet L)"
    "ln_map L ch = Some c \<Longrightarrow> c < alphabet_size L"
proof -
  have L: "ln_map L ch = Some i \<longleftrightarrow> i < alphabet_size L \<and> ln_alphabet L ! i = ch" for ch i
    using assms by (simp add: maps_ok_def)
  show "inj_on (ln_map L) (dom (ln_map L))"
  proof (rule inj_onI)
    fix x y assume "x \<in> dom (ln_map L)" "y \<in> dom (ln_map L)" "ln_map L x = ln_map L y"
    then obtain i where "ln_map L x = Some i" "ln_map L y = Some i" by auto
    then show "x = y" by (simp add: L)
  qed
  show "dom (ln_map L) = set (ln_alphabet L)"
    by (auto simp: dom_def L in_set_conv_nth)
  show "ln_map L ch = Some c \<Longrightarrow> c < alphabet_size L" by (simp add: L)
qed

definition sample_words :: "sample \<Rightarrow> jstring set" where
  "sample_words s = set (sa_pos s) \<union> set (sa_neg s) \<union> ce_u ` set (sa_uni s) \<union> ce_u ` set (sa_ex s)"

text \<open>The automata of counter-examples: single characters of the alphabet on all transitions.\<close>

definition letters_only :: "jchar set \<Rightarrow> automaton \<Rightarrow> bool" where
  "letters_only S A \<longleftrightarrow>
    (\<forall>s \<in> set (au_states (expand_singleton A)). \<forall>t \<in> set (st_transitions s). t_min t = t_max t \<and> t_min t \<in> S)"

definition sample_ok :: "learner \<Rightarrow> bool" where
  "sample_ok L \<longleftrightarrow>
    (\<forall>w \<in> sample_words (ln_sample L). set w \<subseteq> set (ln_alphabet L))
    \<and> (\<forall>c \<in> set (sa_uni (ln_sample L)) \<union> set (sa_ex (ln_sample L)).
         wf_automaton (ce_a c) \<and> letters_only (set (ln_alphabet L)) (ce_a c))"

definition sample_map :: "sample \<Rightarrow> jstring \<Rightarrow> int option" where
  "sample_map s w =
    (if w = [] \<or> (\<exists>v \<in> sample_words s. prefix w v)
     then Some (if w \<in> set (sa_pos s) then 1 else if w \<in> set (sa_neg s) then -1 else 0) else None)"

lemma sample_tree_Some:
  assumes "maps_ok L" "\<forall>w \<in> sample_words (ln_sample L). set w \<subseteq> set (ln_alphabet L)"
  obtains t where "sample_tree L = Some t" "tree_inv t" "pt_alphabet_size t = alphabet_size L"
    "pt_map t = ln_map L" "tree_map t = sample_map (ln_sample L)"
proof -
  let ?s = "ln_sample L"
  have words: "\<forall>w \<in> set (sa_pos ?s). set w \<subseteq> dom (ln_map L)" "\<forall>w \<in> set (sa_neg ?s). set w \<subseteq> dom (ln_map L)"
    "\<forall>w \<in> set (map ce_u (sa_uni ?s)). set w \<subseteq> dom (ln_map L)"
    "\<forall>w \<in> set (map ce_u (sa_ex ?s)). set w \<subseteq> dom (ln_map L)"
    using assms(2) by (auto simp: maps_ok_map(2) [OF assms(1)] sample_words_def)
  define t0 where "t0 = new_prefix_tree (alphabet_size L) (ln_map L)"
  have t0: "tree_inv t0" "pt_map t0 = ln_map L" "pt_alphabet_size t0 = alphabet_size L"
    "tree_map t0 = [[] \<mapsto> 0]"
    using tree_inv_new [OF maps_ok_map(1,3) [OF assms(1)]] tree_map_new
    by (simp_all add: t0_def new_prefix_tree_def)
  obtain t1 where t1: "add_all_words (sa_pos ?s) 1 t0 = Some t1" "tree_inv t1" "pt_map t1 = pt_map t0"
    "pt_alphabet_size t1 = pt_alphabet_size t0" "tree_map t1 = add_all_words_map (sa_pos ?s) 1 (tree_map t0)"
    by (rule add_all_words_Some [OF t0(1) words(1) [folded t0(2)]])
  obtain t2 where t2: "add_all_words (sa_neg ?s) (-1) t1 = Some t2" "tree_inv t2" "pt_map t2 = pt_map t1"
    "pt_alphabet_size t2 = pt_alphabet_size t1" "tree_map t2 = add_all_words_map (sa_neg ?s) (-1) (tree_map t1)"
    by (rule add_all_words_Some [OF t1(2) words(2) [folded t0(2) t1(3)]])
  obtain t3 where t3: "add_all_words (map ce_u (sa_uni ?s)) 0 t2 = Some t3" "tree_inv t3" "pt_map t3 = pt_map t2"
    "pt_alphabet_size t3 = pt_alphabet_size t2"
    "tree_map t3 = add_all_words_map (map ce_u (sa_uni ?s)) 0 (tree_map t2)"
    by (rule add_all_words_Some [OF t2(2) words(3) [folded t0(2) t1(3) t2(3)]])
  obtain t4 where t4: "add_all_words (map ce_u (sa_ex ?s)) 0 t3 = Some t4" "tree_inv t4" "pt_map t4 = pt_map t3"
    "pt_alphabet_size t4 = pt_alphabet_size t3"
    "tree_map t4 = add_all_words_map (map ce_u (sa_ex ?s)) 0 (tree_map t3)"
    by (rule add_all_words_Some [OF t3(2) words(4) [folded t0(2) t1(3) t2(3) t3(3)]])
  have undecided: "add_all_words_map ws 0 m w =
      (if \<exists>v \<in> set ws. prefix w v then Some (case m w of None \<Rightarrow> 0 | Some b \<Rightarrow> b) else m w)" for ws m w
    by (cases "m w") (simp_all add: add_all_words_map_def decide_accept_def)
  have m: "tree_map t4 = sample_map ?s"
  proof
    fix w
    have self: "\<not> (\<exists>v \<in> set ws. prefix w v) \<Longrightarrow> w \<notin> set ws" for ws :: "jstring list"
      by auto
    show "tree_map t4 w = sample_map ?s w"
      unfolding t4(5) t3(5) t2(5) t1(5) t0(4) undecided
      using self [of "sa_pos ?s"] self [of "sa_neg ?s"]
      by (simp add: add_all_words_map_def sample_map_def sample_words_def decide_accept_def Let_def bex_Un)
  qed
  have "sample_tree L = Some t4"
    using t1(1) t2(1) t3(1) t4(1) by (simp add: sample_tree_def t0_def)
  then show thesis using that [of t4] t4 m t3 t2 t1 t0 by simp
qed

end
