(* ===== verification/Learner_Encoding.thy ===== *)
theory Learner_Encoding
  imports Learner_Sat
begin

text \<open>
  What the encoding of \<open>Learner_Sat\<close> means: every model is an automaton with \<open>n\<close> states that is
  consistent with the sample (soundness), and an automaton with \<open>n\<close> states that is consistent with
  the sample gives a model, if its existential obligations have witnesses shorter than the words that
  the \<open>z\<close> variables are made for (completeness).
\<close>

subsection \<open>\<open>constructSAT\<close> returns\<close>

lemma stored_iff: "tree_inv t \<Longrightarrow> stored t w \<longleftrightarrow> tree_map t w \<noteq> None"
  by (auto simp: stored_def tree_map_None_iff)

lemma labels_known_letters:
  assumes "maps_ok L" "letters_only (set (ln_alphabet L)) A"
  shows "labels_known L (expand_singleton A)"
proof -
  have "ln_map L ch \<noteq> None" if "ch \<in> set (ln_alphabet L)" for ch
    using that maps_ok_map(2) [OF assms(1)] by blast
  then show ?thesis using assms(2) unfolding labels_known_def letters_only_def list_all_iff by blast
qed

lemma construct_sat_Some:
  assumes L: "maps_ok L" "sample_ok L"
    and n: "\<forall>c \<in> set (sa_ex (ln_sample L)). 1 < n * ce_states c"
  obtains t cs where "sample_tree L = Some t" "tree_inv t" "tree_map t = sample_map (ln_sample L)"
    "pt_map t = ln_map L" "pt_alphabet_size t = alphabet_size L" "construct_sat L n = Some cs"
    "\<And>I. models I cs \<longleftrightarrow> encodes \<lparr>en_learner = L, en_n = n, en_tree = t\<rparr>
        (truth \<lparr>en_learner = L, en_n = n, en_tree = t\<rparr> I)"
proof -
  have words: "\<forall>w \<in> sample_words (ln_sample L). set w \<subseteq> set (ln_alphabet L)"
    using L(2) by (simp add: sample_ok_def)
  obtain t where t: "sample_tree L = Some t" "tree_inv t" "pt_alphabet_size t = alphabet_size L"
    "pt_map t = ln_map L" "tree_map t = sample_map (ln_sample L)"
    by (rule sample_tree_Some [OF L(1) words])
  define E where "E = \<lparr>en_learner = L, en_n = n, en_tree = t\<rparr>"
  have E [simp]: "en_learner E = L" "en_n E = n" "en_tree E = t" by (simp_all add: E_def)
  have st: "stored t (ce_u c)" "labels_known (en_learner E) (expand_singleton (ce_a c))"
    "au_initial (expand_singleton (ce_a c)) < ce_states c"
    if "c \<in> set (en_uni E) \<union> set (en_ex E)" for c
  proof -
    have "ce_u c \<in> sample_words (ln_sample L)" using that by (auto simp: sample_words_def)
    then show "stored t (ce_u c)" by (auto simp: stored_iff [OF t(2)] t(5) sample_map_def)
    show "labels_known (en_learner E) (expand_singleton (ce_a c))"
      using that L labels_known_letters [OF L(1)] by (auto simp: sample_ok_def)
    have "wf_automaton (ce_a c)" using that L(2) by (auto simp: sample_ok_def)
    then show "au_initial (expand_singleton (ce_a c)) < ce_states c" by (rule initial_expand_singleton)
  qed
  obtain us where us: "uni_loop E 0 (en_uni E) t = Some (us, t)"
    "\<And>I. models I us \<longleftrightarrow> (\<forall>j < length (en_uni E). \<forall>i < length (pt_nodes t).
        path_word t i = ce_u (en_uni E ! j) \<longrightarrow>
          uni_ok E (truth E I) j (expand_singleton (ce_a (en_uni E ! j))) i)"
    using uni_loop_Some [OF t(2) E(3), of "en_uni E" 0] st by auto
  obtain es where es: "ex_loop E 0 (en_ex E) t = Some (es, t)"
    "\<And>I. models I es \<longleftrightarrow> (\<forall>j < length (en_ex E). \<forall>i < length (pt_nodes t).
        path_word t i = ce_u (en_ex E ! j) \<longrightarrow>
          ex_ok E (truth E I) j (expand_singleton (ce_a (en_ex E ! j))) (l_max E (en_ex E ! j)) i)"
    using ex_loop_Some [OF t(2) E(3), of "en_ex E" 0] st n by auto
  obtain ps where ps: "prefix_loop E t [pt_initial t] = Some ps"
    "\<And>I. models I ps \<longleftrightarrow> (\<forall>i < length (pt_nodes t). node_ok E t (truth E I) i)"
    using prefix_loop_root [OF t(2), of E] t(3) by auto
  let ?cs = "us @ es @ d_constraints E @ initial_constraints E t @ ps"
  have "construct_sat L n = Some ?cs"
    using us(1) es(1) ps(1) by (simp add: construct_sat_def t(1) E_def [symmetric] Let_def)
  moreover have "nd_id (node_of t (pt_initial t)) = 0"
    using tree_inv_node(1) [OF t(2)] tree_invD(2,3) [OF t(2)] by simp
  then have "models I ?cs \<longleftrightarrow> encodes E (truth E I)" for I
    unfolding models_append us(2) es(2) ps(2) d_constraints_iff initial_constraints_iff encodes_def
    by auto
  ultimately show thesis using that [of t ?cs] t by (simp add: E_def)
qed

lemma ex_loop_None:
  "c \<in> set cs \<Longrightarrow> en_n E * ce_states c \<le> 1 \<Longrightarrow> ex_loop E e cs t = None"
proof (induction cs arbitrary: e t)
  case (Cons d cs)
  show ?case
  proof (cases "d = c")
    case True
    then show ?thesis using Cons.prems(2) by (simp add: ex_constraints_def z_declared_def l_max_def Let_def)
  next
    case False
    then have "ex_loop E (Suc e) cs t' = None" for t' using Cons by simp
    then show ?thesis by (simp split: bind_split prod.split)
  qed
qed simp

lemma construct_sat_None:
  assumes "c \<in> set (sa_ex (ln_sample L))" "n * ce_states c \<le> 1"
  shows "construct_sat L n = None"
  using ex_loop_None [of c "sa_ex (ln_sample L)" "\<lparr>en_learner = L, en_n = n, en_tree = t\<rparr>" for t] assms
  by (auto simp: construct_sat_def Let_def split: bind_split)

subsection \<open>The automaton of a model\<close>

lemma encodesD:
  assumes "encodes E V"
  shows "\<forall>p < en_n E. \<forall>a < en_k E.
       (\<forall>q < en_n E. \<forall>q2 \<in> {q + 1..<en_n E}. \<not> (V (VD p a q) \<and> V (VD p a q2)))
       \<and> (\<exists>q < en_n E. V (VD p a q))"
    "V (VX 0 0)" "\<forall>q \<in> {1..<en_n E}. \<not> V (VX 0 q)"
    "\<forall>i < length (pt_nodes (en_tree E)). node_ok E (en_tree E) V i"
    "\<forall>u < length (en_uni E). \<forall>i < length (pt_nodes (en_tree E)).
         path_word (en_tree E) i = ce_u (en_uni E ! u) \<longrightarrow>
           uni_ok E V u (expand_singleton (ce_a (en_uni E ! u))) i"
    "\<forall>e < length (en_ex E). \<forall>i < length (pt_nodes (en_tree E)).
         path_word (en_tree E) i = ce_u (en_ex E ! e) \<longrightarrow>
           ex_ok E V e (expand_singleton (ce_a (en_ex E ! e))) (l_max E (en_ex E ! e)) i"
proof -
  note e = assms [unfolded encodes_def]
  note e2 = e [THEN conjunct2] note e3 = e2 [THEN conjunct2] note e4 = e3 [THEN conjunct2]
  note e5 = e4 [THEN conjunct2]
  show "\<forall>p < en_n E. \<forall>a < en_k E.
       (\<forall>q < en_n E. \<forall>q2 \<in> {q + 1..<en_n E}. \<not> (V (VD p a q) \<and> V (VD p a q2)))
       \<and> (\<exists>q < en_n E. V (VD p a q))" by (rule e [THEN conjunct1])
  show "V (VX 0 0)" by (rule e2 [THEN conjunct1])
  show "\<forall>q \<in> {1..<en_n E}. \<not> V (VX 0 q)" by (rule e3 [THEN conjunct1])
  show "\<forall>i < length (pt_nodes (en_tree E)). node_ok E (en_tree E) V i" by (rule e4 [THEN conjunct1])
  show "\<forall>u < length (en_uni E). \<forall>i < length (pt_nodes (en_tree E)).
         path_word (en_tree E) i = ce_u (en_uni E ! u) \<longrightarrow>
           uni_ok E V u (expand_singleton (ce_a (en_uni E ! u))) i" by (rule e5 [THEN conjunct1])
  show "\<forall>e < length (en_ex E). \<forall>i < length (pt_nodes (en_tree E)).
         path_word (en_tree E) i = ce_u (en_ex E ! e) \<longrightarrow>
           ex_ok E V e (expand_singleton (ce_a (en_ex E ! e))) (l_max E (en_ex E ! e)) i"
    by (rule e5 [THEN conjunct2])
qed

lemma at_most_oneD:
  fixes n :: nat
  assumes "\<forall>q < n. \<forall>q2 \<in> {q + 1..<n}. \<not> (P q \<and> P q2)" and "P a" "P b" "a < n" "b < n"
  shows "a = b"
proof (rule ccontr)
  assume "a \<noteq> b"
  then consider "a < b" | "b < a" by linarith
  then show False
  proof cases
    case 1
    then have "b \<in> {a + 1..<n}" using assms(5) by simp
    then show False using assms(1-4) by blast
  next
    case 2
    then have "a \<in> {b + 1..<n}" using assms(4) by simp
    then show False using assms(1-3,5) by blast
  qed
qed

definition next_state :: "encoding \<Rightarrow> (svar \<Rightarrow> bool) \<Rightarrow> nat \<Rightarrow> jchar \<Rightarrow> nat" where
  "next_state E V p ch = (LEAST q. V (VD p (the (ln_map (en_learner E) ch)) q))"

definition run_state :: "encoding \<Rightarrow> (svar \<Rightarrow> bool) \<Rightarrow> jstring \<Rightarrow> nat" where
  "run_state E V w = foldl (next_state E V) 0 w"

abbreviation alphabet :: "encoding \<Rightarrow> jchar set" where
  "alphabet E \<equiv> set (ln_alphabet (en_learner E))"

lemma maps_ok_index:
  assumes "maps_ok L" "ch \<in> set (ln_alphabet L)"
  obtains a where "a < alphabet_size L" "ln_map L ch = Some a" "ln_alphabet L ! a = ch"
    "\<forall>b < alphabet_size L. ln_alphabet L ! b = ch \<longleftrightarrow> b = a"
proof -
  obtain a where a: "a < alphabet_size L" "ln_alphabet L ! a = ch"
    using assms(2) by (auto simp: in_set_conv_nth)
  moreover have "ln_map L ch = Some a" using a assms(1) by (simp add: maps_ok_def)
  moreover have "ln_alphabet L ! b = ch \<longleftrightarrow> b = a" if "b < alphabet_size L" for b
    using a that assms(1) by (auto simp: maps_ok_def nth_eq_iff_index_eq)
  ultimately show thesis using that by blast
qed

lemma encodes_next:
  assumes "encodes E V" "maps_ok (en_learner E)" "p < en_n E" "ch \<in> alphabet E"
  shows "next_state E V p ch < en_n E"
    and "q < en_n E \<Longrightarrow> V (VD p (the (ln_map (en_learner E) ch)) q) \<longleftrightarrow> q = next_state E V p ch"
proof -
  obtain a where a: "a < en_k E" "ln_map (en_learner E) ch = Some a"
    using maps_ok_index [OF assms(2,4)] by metis
  have uniq: "\<forall>q < en_n E. \<forall>q2 \<in> {q + 1..<en_n E}. \<not> (V (VD p a q) \<and> V (VD p a q2))"
    and ex: "\<exists>q < en_n E. V (VD p a q)"
    using encodesD(1) [OF assms(1)] assms(3) a(1) by blast+
  have one: "V (VD p a q) \<Longrightarrow> V (VD p a r) \<Longrightarrow> q < en_n E \<Longrightarrow> r < en_n E \<Longrightarrow> q = r" for q r
    by (rule at_most_oneD [where P = "\<lambda>q. V (VD p a q)", OF uniq])
  from ex obtain r where r: "r < en_n E" "V (VD p a r)" by blast
  have least: "V (VD p a (next_state E V p ch))" "next_state E V p ch \<le> r"
    unfolding next_state_def a(2) option.sel
    using r by (auto intro: LeastI Least_le)
  show less: "next_state E V p ch < en_n E" using least(2) r(1) by simp
  show "V (VD p (the (ln_map (en_learner E) ch)) q) \<longleftrightarrow> q = next_state E V p ch" if "q < en_n E"
    unfolding a(2) option.sel using one [OF _ least(1) that less] least(1) by blast
qed

lemma run_state_Nil [simp]: "run_state E V [] = 0"
  by (simp add: run_state_def)

lemma run_state_snoc [simp]: "run_state E V (w @ [c]) = next_state E V (run_state E V w) c"
  by (simp add: run_state_def)

lemma run_state_less:
  assumes "encodes E V" "maps_ok (en_learner E)" "0 < en_n E" "set w \<subseteq> alphabet E"
  shows "run_state E V w < en_n E"
  using assms(4)
proof (induction w rule: rev_induct)
  case (snoc c w)
  then show ?case using encodes_next(1) [OF assms(1,2)] by simp
qed (use assms(3) in simp)

lemma model_automaton_step:
  assumes "encodes E (truth E I)" "maps_ok (en_learner E)" "p < en_n E"
  shows "set (step_all (state_of (model_automaton E I) p) ch) =
    (if ch \<in> alphabet E then {next_state E (truth E I) p ch} else {})"
proof -
  have inv: "a < en_k E \<Longrightarrow> the (ln_inverted_map (en_learner E) a) = ln_alphabet (en_learner E) ! a" for a
    using assms(2) by (simp add: maps_ok_def)
  have st: "set (step_all (state_of (model_automaton E I) p) ch) =
    {q. q < en_n E \<and> (\<exists>a < en_k E. ln_alphabet (en_learner E) ! a = ch \<and> truth E I (VD p a q))}"
  proof -
    have tr: "set (transitions_of (model_automaton E I) p) =
        {char_transition (ln_alphabet (en_learner E) ! a) q | a q. a < en_k E \<and> q < en_n E \<and> truth E I (VD p a q)}"
      using assms(3) inv by (auto simp: model_automaton_def model_state_def)
    show ?thesis
    proof (intro set_eqI iffI)
      fix q
      assume "q \<in> {q. q < en_n E \<and> (\<exists>a < en_k E. ln_alphabet (en_learner E) ! a = ch \<and> truth E I (VD p a q))}"
      then have "char_transition ch q \<in> set (transitions_of (model_automaton E I) p)"
        unfolding tr by blast
      then show "q \<in> set (step_all (state_of (model_automaton E I) p) ch)"
        unfolding set_step_all by (metis (mono_tags, lifting) char_transition_sel(3) matches_char_transition mem_Collect_eq)
    qed (auto simp: set_step_all tr)
  qed
  show ?thesis
  proof (cases "ch \<in> alphabet E")
    case True
    then obtain a where a: "a < en_k E" "ln_map (en_learner E) ch = Some a" "ln_alphabet (en_learner E) ! a = ch"
      "\<forall>b < en_k E. ln_alphabet (en_learner E) ! b = ch \<longleftrightarrow> b = a"
      by (rule maps_ok_index [OF assms(2)])
    have "(\<exists>b < en_k E. ln_alphabet (en_learner E) ! b = ch \<and> truth E I (VD p b q)) \<longleftrightarrow> truth E I (VD p a q)" for q
      using a(1,4) by blast
    then show ?thesis
      using True encodes_next [OF assms True] a(2) unfolding st by auto
  next
    case False
    then show ?thesis unfolding st by auto
  qed
qed

lemma model_automaton_delta:
  assumes "encodes E (truth E I)" "maps_ok (en_learner E)" "0 < en_n E"
  shows "delta (model_automaton E I) w 0 =
    (if set w \<subseteq> alphabet E then {run_state E (truth E I) w} else {})"
proof (induction w rule: rev_induct)
  case (snoc c w)
  show ?case
  proof (cases "set w \<subseteq> alphabet E")
    case True
    have "run_state E (truth E I) w < en_n E" by (rule run_state_less [OF assms True])
    then show ?thesis
      using True by (simp add: delta_snoc snoc.IH model_automaton_step [OF assms(1,2)])
  next
    case False
    then show ?thesis by (simp add: delta_snoc snoc.IH)
  qed
qed simp

lemma model_automaton_lang:
  assumes "encodes E (truth E I)" "maps_ok (en_learner E)" "0 < en_n E"
  shows "lang (model_automaton E I) =
    {w. set w \<subseteq> alphabet E \<and> truth E I (VF (run_state E (truth E I) w))}"
proof -
  have A: "au_singleton (model_automaton E I) = None" "au_initial (model_automaton E I) = 0"
    by (simp_all add: model_automaton_def)
  have acc: "accepting (model_automaton E I) q \<longleftrightarrow> truth E I (VF q)" if "q < en_n E" for q
    using that by (simp add: model_automaton_def model_state_def)
  show ?thesis
    using model_automaton_delta [OF assms] run_state_less [OF assms] acc
    by (auto simp: lang_def A split: if_splits)
qed

subsection \<open>Soundness\<close>

lemma path_word_alphabet:
  assumes t: "tree_inv t"
  shows "i < length (pt_nodes t) \<Longrightarrow> set (path_word t i) \<subseteq> dom (pt_map t)"
proof (induction i rule: less_induct)
  case (less i)
  show ?case
  proof (cases "i = 0")
    case True
    then show ?thesis by (simp add: t)
  next
    case False
    then obtain j c where e: "edge t j c i" using tree_inv_parent [OF t] less.prems by blast
    then obtain ch where "pt_map t ch = Some c" "path_word t i = path_word t j @ [ch]"
      using tree_inv_edge(3) [OF t] by blast
    then show ?thesis using less.IH [of j] tree_inv_edge(1) [OF t e] e by (auto simp: edge_def)
  qed
qed

lemma encodes_nodes:
  assumes V: "encodes E V" and t: "tree_inv (en_tree E)" "pt_map (en_tree E) = ln_map (en_learner E)"
    and L: "maps_ok (en_learner E)" and n: "0 < en_n E"
  shows "i < length (pt_nodes (en_tree E)) \<Longrightarrow> V (VX i (run_state E V (path_word (en_tree E) i)))"
proof (induction i rule: less_induct)
  case (less i)
  show ?case
  proof (cases "i = 0")
    case True
    then show ?thesis using encodesD(2) [OF V] t(1) by simp
  next
    case False
    then obtain j c where e: "edge (en_tree E) j c i" using tree_inv_parent [OF t(1)] less.prems by blast
    then obtain ch where ch: "ln_map (en_learner E) ch = Some c"
      "path_word (en_tree E) i = path_word (en_tree E) j @ [ch]"
      using tree_inv_edge(3) [OF t(1)] t(2) by metis
    have j: "j < length (pt_nodes (en_tree E))" using e by (simp add: edge_def)
    let ?p = "run_state E V (path_word (en_tree E) j)"
    have al: "set (path_word (en_tree E) j) \<subseteq> alphabet E" "ch \<in> alphabet E"
      using path_word_alphabet [OF t(1) j] ch(1) maps_ok_map(2) [OF L] t(2) by auto
    have p: "?p < en_n E" by (rule run_state_less [OF V L n al(1)])
    have "V (VX j ?p)" using less.IH [OF tree_inv_edge(1) [OF t(1) e] j] .
    moreover have "V (VD ?p c (next_state E V ?p ch))" "next_state E V ?p ch < en_n E"
      using encodes_next [OF V L p al(2)] ch(1) by simp_all
    moreover have "node_ok E (en_tree E) V j" using encodesD(4) [OF V] j by blast
    ultimately have "V (VX i (next_state E V ?p ch))" using e p unfolding node_ok_def by blast
    then show ?thesis by (simp add: ch(2))
  qed
qed

lemma encodes_nodes_iff:
  assumes V: "encodes E V" and t: "tree_inv (en_tree E)" "pt_map (en_tree E) = ln_map (en_learner E)"
    and L: "maps_ok (en_learner E)" and n: "0 < en_n E"
    and i: "i < length (pt_nodes (en_tree E))" and q: "q < en_n E"
  shows "V (VX i q) \<longleftrightarrow> q = run_state E V (path_word (en_tree E) i)"
proof -
  let ?r = "run_state E V (path_word (en_tree E) i)"
  have r: "V (VX i ?r)" by (rule encodes_nodes [OF V t L n i])
  have "?r < en_n E"
    using path_word_alphabet [OF t(1) i] maps_ok_map(2) [OF L] t(2) by (intro run_state_less [OF V L n]) simp
  moreover have "\<forall>q1 < en_n E. \<forall>q2 \<in> {q1 + 1..<en_n E}. \<not> (V (VX i q1) \<and> V (VX i q2))"
    using encodesD(4) [OF V] i unfolding node_ok_def by blast
  ultimately show ?thesis using r q at_most_oneD [where P = "\<lambda>q. V (VX i q)"] by blast
qed

lemma letters_step:
  assumes "letters_only S A" "s < get_number_of_states A"
  shows "s' \<in> set (step_all (state_of (expand_singleton A) s) ch) \<longleftrightarrow>
    (\<exists>t \<in> set (transitions_of (expand_singleton A) s). t_to t = s' \<and> t_min t = ch \<and> ch \<in> S)"
proof -
  have st: "state_of (expand_singleton A) s \<in> set (au_states (expand_singleton A))"
    using assms(2) by simp
  have m: "matches t ch \<longleftrightarrow> t_min t = ch" and S: "t_min t \<in> S"
    if "t \<in> set (transitions_of (expand_singleton A) s)" for t
  proof -
    have "t_min t = t_max t" "t_min t \<in> S"
      using assms(1) st that unfolding letters_only_def by blast+
    then show "matches t ch \<longleftrightarrow> t_min t = ch" "t_min t \<in> S"
      by (auto simp: matches_def)
  qed
  show ?thesis unfolding set_step_all using m S by blast
qed

lemma delta_less:
  assumes "wf_automaton A" "s \<in> delta (expand_singleton A) w (au_initial (expand_singleton A))"
  shows "s < get_number_of_states A"
  using wf_automaton_delta [OF wf_expand_singleton [OF assms(1)] expand_singleton_None _ assms(2)]
    initial_expand_singleton [OF assms(1)] by simp

lemma delta_letters:
  assumes "wf_automaton A" "letters_only S A"
  shows "s \<in> delta (expand_singleton A) w (au_initial (expand_singleton A)) \<Longrightarrow> set w \<subseteq> S"
proof (induction w arbitrary: s rule: rev_induct)
  case (snoc c w)
  then obtain s1 where s1: "s1 \<in> delta (expand_singleton A) w (au_initial (expand_singleton A))"
    "s \<in> set (step_all (state_of (expand_singleton A) s1) c)"
    by (auto simp: delta_snoc)
  then have "c \<in> S" using letters_step [OF assms(2) delta_less [OF assms(1) s1(1)]] by blast
  then show ?case using snoc.IH [OF s1(1)] by simp
qed simp

lemma uni_runs:
  assumes V: "encodes E V" and L: "maps_ok (en_learner E)" and n: "0 < en_n E"
    and A: "wf_automaton A" "letters_only (alphabet E) A"
    and u: "uni_ok E V u (expand_singleton A) i"
  shows "s \<in> delta (expand_singleton A) w (au_initial (expand_singleton A)) \<Longrightarrow>
    V (VY u (run_state E V w) s)"
proof (induction w arbitrary: s rule: rev_induct)
  case Nil
  then show ?case using u by (simp add: uni_ok_def)
next
  case (snoc c w)
  let ?A = "expand_singleton A"
  from snoc.prems obtain s1 where s1: "s1 \<in> delta ?A w (au_initial ?A)"
    "s \<in> set (step_all (state_of ?A s1) c)"
    by (auto simp: delta_snoc)
  have s1_less: "s1 < get_number_of_states A" by (rule delta_less [OF A(1) s1(1)])
  then obtain t where t: "t \<in> set (transitions_of ?A s1)" "t_to t = s" "t_min t = c" "c \<in> alphabet E"
    using letters_step [OF A(2)] s1(2) by blast
  let ?p = "run_state E V w"
  have p: "?p < en_n E" using run_state_less [OF V L n delta_letters [OF A s1(1)]] .
  have "V (VD ?p (label E t) (next_state E V ?p c))" "next_state E V ?p c < en_n E"
    using encodes_next [OF V L p t(4)] t(3) by (simp_all add: label_def)
  moreover have "V (VY u ?p s1)" by (rule snoc.IH [OF s1(1)])
  moreover have "\<forall>s < length (au_states ?A). \<forall>t \<in> set (transitions_of ?A s). \<forall>p < en_n E. \<forall>q < en_n E.
         V (VY u p s) \<and> V (VD p (label E t) q) \<longrightarrow> V (VY u q (t_to t))"
    using u unfolding uni_ok_def by (elim conjE)
  ultimately have "V (VY u (next_state E V ?p c) (t_to t))"
    using s1_less t(1) p by simp
  then show ?case by (simp add: t(2))
qed

lemma ex_runs:
  assumes V: "encodes E V" and L: "maps_ok (en_learner E)" and n: "0 < en_n E"
    and A: "wf_automaton A" "letters_only (alphabet E) A"
    and e: "ex_ok E V e (expand_singleton A) lm i"
  shows "l < lm \<Longrightarrow> q < en_n E \<Longrightarrow> s < get_number_of_states A \<Longrightarrow> V (VZ e q s l) \<Longrightarrow>
    \<exists>w. length w = l \<and> set w \<subseteq> alphabet E \<and> run_state E V w = q
      \<and> s \<in> delta (expand_singleton A) w (au_initial (expand_singleton A))"
proof (induction l arbitrary: q s)
  case 0
  have "\<forall>s < length (au_states (expand_singleton A)). \<forall>q < en_n E.
      s = au_initial (expand_singleton A) \<and> q = 0 \<or> \<not> V (VZ e q s 0)"
    using e unfolding ex_ok_def by (elim conjE)
  then have "s = au_initial (expand_singleton A) \<and> q = 0"
    using 0 unfolding length_expand_singleton by blast
  then show ?case by simp
next
  case (Suc l)
  let ?A = "expand_singleton A"
  have "\<forall>s < length (au_states ?A). (\<forall>t \<in> set (transitions_of ?A s). \<forall>p < en_n E. \<forall>q < en_n E. \<forall>l < lm - 1.
            V (VZ e p s l) \<and> V (VD p (label E t) q) \<longrightarrow> V (VZ e q (t_to t) (l + 1)))
         \<and> (\<forall>q < en_n E. \<forall>l \<in> {1..<lm}. V (VZ e q s l) \<longrightarrow> reverse_step E V e ?A s q l)"
    using e unfolding ex_ok_def by (elim conjE)
  then have "reverse_step E V e ?A s q (Suc l)" using Suc.prems by simp
  then obtain s2 t p where r: "s2 < get_number_of_states A" "t \<in> set (transitions_of ?A s2)" "t_to t = s"
    "p < en_n E" "V (VD p (label E t) q)" "V (VZ e p s2 l)"
    by (auto simp: reverse_step_def)
  from Suc.IH [OF _ r(4,1,6)] Suc.prems(1) obtain w where w: "length w = l" "set w \<subseteq> alphabet E"
    "run_state E V w = p" "s2 \<in> delta ?A w (au_initial ?A)" by auto
  let ?c = "t_min t"
  have c: "?c \<in> alphabet E"
  proof -
    have "state_of ?A s2 \<in> set (au_states ?A)" using r(1) by simp
    then show ?thesis using A(2) r(2) unfolding letters_only_def by blast
  qed
  have "s \<in> set (step_all (state_of ?A s2) ?c)"
    using letters_step [OF A(2) r(1)] r(2,3) c by blast
  moreover have "next_state E V p ?c = q"
    using encodes_next(2) [OF V L r(4) c Suc.prems(2)] r(5) by (simp add: label_def)
  ultimately have "length (w @ [?c]) = Suc l \<and> set (w @ [?c]) \<subseteq> alphabet E \<and> run_state E V (w @ [?c]) = q
      \<and> s \<in> delta ?A (w @ [?c]) (au_initial ?A)"
    using w c by (auto simp: delta_snoc)
  then show ?case by blast
qed

text \<open>Soundness: the automaton of a model is consistent with the sample.\<close>

lemma encodes_sound:
  assumes V: "encodes E (truth E I)" and L: "maps_ok (en_learner E)" "sample_ok (en_learner E)"
    and n: "0 < en_n E"
    and t: "tree_inv (en_tree E)" "pt_map (en_tree E) = ln_map (en_learner E)"
      "tree_map (en_tree E) = sample_map (ln_sample (en_learner E))"
    and no_contradiction: "set (sa_pos (ln_sample (en_learner E))) \<inter> set (sa_neg (ln_sample (en_learner E))) = {}"
  shows "consistent (lang (model_automaton E I)) (ln_sample (en_learner E))"
proof -
  let ?V = "truth E I" and ?s = "ln_sample (en_learner E)"
  let ?run = "run_state E ?V"
  note lang = model_automaton_lang [OF V L(1) n]
  note X = encodes_nodes_iff [OF V t(1,2) L(1) n]
  have words: "set w \<subseteq> alphabet E" if "w \<in> sample_words ?s" for w
    using that L(2) by (simp add: sample_ok_def)
  have node: "\<exists>i < length (pt_nodes (en_tree E)). path_word (en_tree E) i = w \<and> nd_accept (node_of (en_tree E) i) = a"
    if "sample_map ?s w = Some a" for w a
    using that t(3) tree_map_iff [OF t(1)] by simp
  have stored: "\<exists>i < length (pt_nodes (en_tree E)). path_word (en_tree E) i = w" if "w \<in> sample_words ?s" for w
  proof -
    have "\<exists>a. sample_map ?s w = Some a" using that by (auto simp: sample_map_def)
    then show ?thesis using node by blast
  qed
  have run: "?run w < en_n E" if "set w \<subseteq> alphabet E" for w
    by (rule run_state_less [OF V L(1) n that])
  have pos: "w \<in> lang (model_automaton E I)" if "w \<in> set (sa_pos ?s)" for w
  proof -
    have w: "w \<in> sample_words ?s" using that by (simp add: sample_words_def)
    then have "sample_map ?s w = Some 1" using that by (auto simp: sample_map_def)
    then obtain i where i: "i < length (pt_nodes (en_tree E))" "path_word (en_tree E) i = w"
      "nd_accept (node_of (en_tree E) i) = 1" using node by blast
    then have "\<forall>q < en_n E. ?V (VX i q) \<longrightarrow> ?V (VF q)"
      using encodesD(4) [OF V] unfolding node_ok_def by (metis zero_less_one)
    then have "?V (VF (?run w))" using X [OF i(1) run [OF words [OF w]]] run [OF words [OF w]] i(2) by blast
    then show ?thesis using words [OF w] unfolding lang by blast
  qed
  have neg: "w \<notin> lang (model_automaton E I)" if "w \<in> set (sa_neg ?s)" for w
  proof -
    have w: "w \<in> sample_words ?s" using that by (simp add: sample_words_def)
    then have "sample_map ?s w = Some (- 1)" using that no_contradiction by (auto simp: sample_map_def)
    then obtain i where i: "i < length (pt_nodes (en_tree E))" "path_word (en_tree E) i = w"
      "nd_accept (node_of (en_tree E) i) = - 1" using node by blast
    then have "\<forall>q < en_n E. ?V (VX i q) \<longrightarrow> \<not> ?V (VF q)"
      using encodesD(4) [OF V] unfolding node_ok_def by (metis neg_less_0_iff_less zero_less_one)
    then have "\<not> ?V (VF (?run w))" using X [OF i(1) run [OF words [OF w]]] run [OF words [OF w]] i(2) by blast
    then show ?thesis unfolding lang by blast
  qed
  have ante: "\<exists>q < en_n E. ?V (VX i q) \<and> ?V (VF q)"
    if "w \<in> lang (model_automaton E I)" "i < length (pt_nodes (en_tree E))" "path_word (en_tree E) i = w" for w i
  proof -
    have w: "set w \<subseteq> alphabet E" "?V (VF (?run w))" using that(1) unfolding lang by blast+
    then show ?thesis using X [OF that(2) run [OF w(1)]] run [OF w(1)] that(3) by blast
  qed
  have ex: "lang (ce_a c) \<inter> lang (model_automaton E I) \<noteq> {}"
    if c: "c \<in> set (sa_ex ?s)" and u: "ce_u c \<in> lang (model_automaton E I)" for c
  proof -
    obtain e where e: "e < length (sa_ex ?s)" "sa_ex ?s ! e = c" using c by (auto simp: in_set_conv_nth)
    obtain i where i: "i < length (pt_nodes (en_tree E))" "path_word (en_tree E) i = ce_u c"
      using stored [of "ce_u c"] c by (auto simp: sample_words_def)
    have A: "wf_automaton (ce_a c)" "letters_only (alphabet E) (ce_a c)"
      using L(2) c by (auto simp: sample_ok_def)
    have ok: "ex_ok E ?V e (expand_singleton (ce_a c)) (l_max E c) i"
      using encodesD(6) [OF V] e i by metis
    then have "(\<exists>q < en_n E. ?V (VX i q) \<and> ?V (VF q)) \<longrightarrow>
       (\<exists>q < en_n E. \<exists>fa \<in> set (get_accept_states (expand_singleton (ce_a c))).
          \<exists>l < l_max E c. ?V (VZ e q fa l) \<and> ?V (VF q))"
      unfolding ex_ok_def by (elim conjE)
    then obtain q fa l where z: "q < en_n E" "fa \<in> set (get_accept_states (expand_singleton (ce_a c)))"
      "l < l_max E c" "?V (VZ e q fa l)" "?V (VF q)" using ante [OF u i] by blast
    have fa: "fa < get_number_of_states (ce_a c)" "accepting (expand_singleton (ce_a c)) fa"
      using z(2) by (simp_all add: get_number_of_states_def)
    obtain w where w: "set w \<subseteq> alphabet E" "?run w = q"
      "fa \<in> delta (expand_singleton (ce_a c)) w (au_initial (expand_singleton (ce_a c)))"
      using ex_runs [OF V L(1) n A ok z(3,1) fa(1) z(4)] by blast
    have "w \<in> lang (ce_a c)" using w(3) fa(2) by (auto simp: lang_def Let_def)
    moreover have "w \<in> lang (model_automaton E I)" using w(1,2) z(5) unfolding lang by blast
    ultimately show ?thesis by blast
  qed
  have uni: "lang (ce_a c) \<subseteq> lang (model_automaton E I)"
    if c: "c \<in> set (sa_uni ?s)" and u: "ce_u c \<in> lang (model_automaton E I)" for c
  proof
    fix v assume v: "v \<in> lang (ce_a c)"
    obtain k where k: "k < length (sa_uni ?s)" "sa_uni ?s ! k = c" using c by (auto simp: in_set_conv_nth)
    obtain i where i: "i < length (pt_nodes (en_tree E))" "path_word (en_tree E) i = ce_u c"
      using stored [of "ce_u c"] c by (auto simp: sample_words_def)
    have A: "wf_automaton (ce_a c)" "letters_only (alphabet E) (ce_a c)"
      using L(2) c by (auto simp: sample_ok_def)
    have ok: "uni_ok E ?V k (expand_singleton (ce_a c)) i"
      using encodesD(5) [OF V] k i by metis
    then have "(\<exists>q < en_n E. ?V (VX i q) \<and> ?V (VF q)) \<longrightarrow>
       (\<forall>q < en_n E. \<forall>fa \<in> set (get_accept_states (expand_singleton (ce_a c))). ?V (VY k q fa) \<longrightarrow> ?V (VF q))"
      unfolding uni_ok_def by (elim conjE)
    then have f: "?V (VF q)" if "q < en_n E" "fa \<in> set (get_accept_states (expand_singleton (ce_a c)))" "?V (VY k q fa)" for q fa
      using ante [OF u i] that by blast
    obtain fa where fa: "fa \<in> delta (expand_singleton (ce_a c)) v (au_initial (expand_singleton (ce_a c)))"
      "accepting (expand_singleton (ce_a c)) fa" using v by (auto simp: lang_def Let_def)
    have v_al: "set v \<subseteq> alphabet E" by (rule delta_letters [OF A fa(1)])
    have "fa \<in> set (get_accept_states (expand_singleton (ce_a c)))"
      using delta_less [OF A(1) fa(1)] fa(2) by (simp add: get_number_of_states_def)
    then have "?V (VF (?run v))"
      using f [OF run [OF v_al]] uni_runs [OF V L(1) n A ok fa(1)] by blast
    then show "v \<in> lang (model_automaton E I)" using v_al unfolding lang by blast
  qed
  show ?thesis using pos neg ex uni unfolding consistent_def by blast
qed

end
