(* ===== verification/Learner_Complete.thy ===== *)
theory Learner_Complete
  imports Learner_Encoding
begin

text \<open>
  Completeness of the encoding: the runs of an automaton that is consistent with the sample make all
  formulas true. The numbers \<open>varID\<close> of the variables are different, so that the truth values can
  be chosen freely.
\<close>

subsection \<open>Complete deterministic automata\<close>

definition complete_dfa :: "jchar list \<Rightarrow> nat \<Rightarrow> automaton \<Rightarrow> bool" where
  "complete_dfa al n A \<longleftrightarrow>
    au_singleton A = None \<and> au_initial A = 0 \<and> 0 < n \<and> length (au_states A) = n
    \<and> (\<forall>p < n. \<forall>ch \<in> set al. \<exists>q < n. set (step_all (state_of A p) ch) = {q})"

definition dfa_state :: "automaton \<Rightarrow> jstring \<Rightarrow> nat" where
  "dfa_state A w = the_elem (delta A w 0)"

lemma dfa_state:
  assumes "complete_dfa al n A"
  shows "set w \<subseteq> set al \<Longrightarrow> delta A w 0 = {dfa_state A w} \<and> dfa_state A w < n"
proof (induction w rule: rev_induct)
  case Nil
  then show ?case using assms by (simp add: complete_dfa_def dfa_state_def)
next
  case (snoc c w)
  then have w: "delta A w 0 = {dfa_state A w}" "dfa_state A w < n" "c \<in> set al" by simp_all
  then obtain q where "q < n" "set (step_all (state_of A (dfa_state A w)) c) = {q}"
    using assms unfolding complete_dfa_def by blast
  then have "delta A (w @ [c]) 0 = {q}" "q < n" by (simp_all add: delta_snoc w(1))
  then show ?case by (simp add: dfa_state_def)
qed

lemma dfa_state_Nil [simp]: "dfa_state A [] = 0"
  by (simp add: dfa_state_def)

lemma dfa_step:
  assumes A: "complete_dfa al n A" and "set w \<subseteq> set al" "c \<in> set al"
  shows "set (step_all (state_of A (dfa_state A w)) c) = {dfa_state A (w @ [c])}"
proof -
  have "set (w @ [c]) \<subseteq> set al" using assms(2,3) by simp
  then have "delta A (w @ [c]) 0 = {dfa_state A (w @ [c])}" using dfa_state [OF A] by blast
  then show ?thesis using dfa_state [OF A assms(2)] by (simp add: delta_snoc)
qed

lemma dfa_lang:
  assumes A: "complete_dfa al n A" and "set w \<subseteq> set al"
  shows "w \<in> lang A \<longleftrightarrow> accepting A (dfa_state A w)"
  using assms(1) dfa_state [OF A assms(2)] by (simp add: lang_def complete_dfa_def)

subsection \<open>Truth values from runs\<close>

fun run_val :: "encoding \<Rightarrow> automaton \<Rightarrow> svar \<Rightarrow> bool" where
  "run_val E A (VF q) = accepting A q"
| "run_val E A (VD p a q) = (q \<in> set (step_all (state_of A p) (ln_alphabet (en_learner E) ! a)))"
| "run_val E A (VX i q) = (q = dfa_state A (path_word (en_tree E) i))"
| "run_val E A (VY u q s) =
    (let B = expand_singleton (ce_a (en_uni E ! u))
     in \<exists>w. set w \<subseteq> alphabet E \<and> q = dfa_state A w \<and> s \<in> delta B w (au_initial B))"
| "run_val E A (VZ e q s l) =
    (let B = expand_singleton (ce_a (en_ex E ! e))
     in \<exists>w. length w = l \<and> set w \<subseteq> alphabet E \<and> q = dfa_state A w \<and> s \<in> delta B w (au_initial B))"

text \<open>Existential obligations with a witness that the \<open>z\<close> variables of the encoding can see.\<close>

definition short_witnesses :: "nat \<Rightarrow> automaton \<Rightarrow> sample \<Rightarrow> bool" where
  "short_witnesses n A s \<longleftrightarrow>
    (\<forall>c \<in> set (sa_ex s). ce_u c \<in> lang A \<longrightarrow>
       (\<exists>v \<in> lang (ce_a c) \<inter> lang A. length v < n * ce_states c - 1))"

lemma maps_ok_nth:
  assumes "maps_ok L" "ln_map L ch = Some a"
  shows "a < alphabet_size L" "ln_alphabet L ! a = ch"
  using assms by (auto simp: maps_ok_def)

lemma label_letter:
  assumes "maps_ok (en_learner E)" "t_min t \<in> alphabet E"
  shows "label E t < en_k E" "ln_alphabet (en_learner E) ! label E t = t_min t"
proof -
  obtain a where "ln_map (en_learner E) (t_min t) = Some a"
    using maps_ok_index [OF assms] by blast
  then show "label E t < en_k E" "ln_alphabet (en_learner E) ! label E t = t_min t"
    using maps_ok_nth [OF assms(1)] by (simp_all add: label_def)
qed

lemma path_word_al:
  assumes "maps_ok (en_learner E)" "tree_inv (en_tree E)" "pt_map (en_tree E) = ln_map (en_learner E)"
    and "i < length (pt_nodes (en_tree E))"
  shows "set (path_word (en_tree E) i) \<subseteq> alphabet E"
  using path_word_alphabet [OF assms(2,4)] maps_ok_map(2) [OF assms(1)] assms(3) by simp

lemma run_val_d:
  assumes L: "maps_ok (en_learner E)" and A: "complete_dfa (ln_alphabet (en_learner E)) (en_n E) A"
    and p: "p < en_n E" and a: "a < en_k E"
  shows "(\<forall>q < en_n E. \<forall>q2 \<in> {q + 1..<en_n E}. \<not> (run_val E A (VD p a q) \<and> run_val E A (VD p a q2)))
    \<and> (\<exists>q < en_n E. run_val E A (VD p a q))"
proof -
  have "ln_alphabet (en_learner E) ! a \<in> alphabet E" using a by simp
  then obtain q where "q < en_n E" "set (step_all (state_of A p) (ln_alphabet (en_learner E) ! a)) = {q}"
    using A p unfolding complete_dfa_def by blast
  then show ?thesis by auto
qed

lemma run_val_step:
  assumes L: "maps_ok (en_learner E)" and A: "complete_dfa (ln_alphabet (en_learner E)) (en_n E) A"
    and w: "set w \<subseteq> alphabet E" and c: "ln_map (en_learner E) c = Some a"
  shows "run_val E A (VD (dfa_state A w) a q) \<longleftrightarrow> q = dfa_state A (w @ [c])"
proof -
  have "c \<in> alphabet E" using c maps_ok_map(2) [OF L] by blast
  then show ?thesis using dfa_step [OF A w] maps_ok_nth(2) [OF L c] by simp
qed

lemma run_val_node:
  assumes L: "maps_ok (en_learner E)"
    and t: "tree_inv (en_tree E)" "pt_map (en_tree E) = ln_map (en_learner E)"
      "tree_map (en_tree E) = sample_map (ln_sample (en_learner E))"
    and A: "complete_dfa (ln_alphabet (en_learner E)) (en_n E) A"
    and C: "consistent (lang A) (ln_sample (en_learner E))"
    and i: "i < length (pt_nodes (en_tree E))"
  shows "node_ok E (en_tree E) (run_val E A) i"
proof -
  let ?w = "path_word (en_tree E) i" and ?s = "ln_sample (en_learner E)"
  have w: "set ?w \<subseteq> alphabet E" by (rule path_word_al [OF L t(1,2) i])
  have acc: "sample_map ?s ?w = Some (nd_accept (node_of (en_tree E) i))"
    using tree_map_path_word [OF t(1) i] t(3) by simp
  have "run_val E A (VX j q)"
    if e: "edge (en_tree E) i a j" and "run_val E A (VX i p)" "run_val E A (VD p a q)" for a j p q
  proof -
    obtain c where c: "ln_map (en_learner E) c = Some a" "path_word (en_tree E) j = ?w @ [c]"
      using tree_inv_edge(3) [OF t(1) e] t(2) by auto
    then show ?thesis using run_val_step [OF L A w c(1), of q] that(2,3) by simp
  qed
  moreover have "accepting A (dfa_state A ?w)" if "nd_accept (node_of (en_tree E) i) > 0"
  proof -
    have "?w \<in> set (sa_pos ?s)" using acc that by (auto simp: sample_map_def split: if_splits)
    then show ?thesis using C dfa_lang [OF A w] by (auto simp: consistent_def)
  qed
  moreover have "\<not> accepting A (dfa_state A ?w)" if "nd_accept (node_of (en_tree E) i) < 0"
  proof -
    have "?w \<in> set (sa_neg ?s)" using acc that by (auto simp: sample_map_def split: if_splits)
    then show ?thesis using C dfa_lang [OF A w] by (auto simp: consistent_def)
  qed
  ultimately show ?thesis unfolding node_ok_def by auto
qed

lemma product_step:
  assumes L: "maps_ok (en_learner E)" and A: "complete_dfa (ln_alphabet (en_learner E)) (en_n E) A"
    and B: "letters_only (alphabet E) B" and s: "s < get_number_of_states B"
    and tr: "tr \<in> set (transitions_of (expand_singleton B) s)"
    and w: "set w \<subseteq> alphabet E" "s \<in> delta (expand_singleton B) w (au_initial (expand_singleton B))"
    and q: "run_val E A (VD (dfa_state A w) (label E tr) q)"
  shows "set (w @ [t_min tr]) \<subseteq> alphabet E" "q = dfa_state A (w @ [t_min tr])"
    "t_to tr \<in> delta (expand_singleton B) (w @ [t_min tr]) (au_initial (expand_singleton B))"
proof -
  have "state_of (expand_singleton B) s \<in> set (au_states (expand_singleton B))" using s by simp
  then have S: "t_min tr \<in> alphabet E" using B tr unfolding letters_only_def by blast
  then show "set (w @ [t_min tr]) \<subseteq> alphabet E" using w(1) by simp
  obtain a where a: "ln_map (en_learner E) (t_min tr) = Some a" by (rule maps_ok_index [OF L S])
  then show "q = dfa_state A (w @ [t_min tr])"
    using run_val_step [OF L A w(1) a] q by (simp add: label_def)
  have "t_to tr \<in> set (step_all (state_of (expand_singleton B) s) (t_min tr))"
    using letters_step [OF B s] tr S by blast
  then show "t_to tr \<in> delta (expand_singleton B) (w @ [t_min tr]) (au_initial (expand_singleton B))"
    using w(2) by (auto simp: delta_snoc)
qed

lemma product_lang:
  assumes B: "wf_automaton B" "letters_only S B"
    and fa: "fa \<in> delta (expand_singleton B) w (au_initial (expand_singleton B))"
      "fa \<in> set (get_accept_states (expand_singleton B))"
  shows "w \<in> lang B"
  using fa by (auto simp: lang_def Let_def)

lemma run_val_uni:
  assumes L: "maps_ok (en_learner E)"
    and t: "tree_inv (en_tree E)" "pt_map (en_tree E) = ln_map (en_learner E)"
    and A: "complete_dfa (ln_alphabet (en_learner E)) (en_n E) A"
    and C: "consistent (lang A) (ln_sample (en_learner E))"
    and u: "u < length (en_uni E)"
    and B: "wf_automaton (ce_a (en_uni E ! u))" "letters_only (alphabet E) (ce_a (en_uni E ! u))"
    and i: "i < length (pt_nodes (en_tree E))" "path_word (en_tree E) i = ce_u (en_uni E ! u)"
  shows "uni_ok E (run_val E A) u (expand_singleton (ce_a (en_uni E ! u))) i"
proof -
  let ?c = "en_uni E ! u"
  let ?B = "expand_singleton (ce_a ?c)"
  have w: "set (ce_u ?c) \<subseteq> alphabet E" using path_word_al [OF L t i(1)] i(2) by simp
  have "run_val E A (VY u 0 (au_initial ?B))"
    by (auto simp: Let_def intro!: exI [of _ "[]"])
  moreover have "run_val E A (VY u q (t_to tr))"
    if s: "s < length (au_states ?B)" "tr \<in> set (transitions_of ?B s)"
      and y: "run_val E A (VY u p s)" "run_val E A (VD p (label E tr) q)" for s tr p q
  proof -
    obtain v where v: "set v \<subseteq> alphabet E" "p = dfa_state A v" "s \<in> delta ?B v (au_initial ?B)"
      using y(1) by (auto simp: Let_def)
    have "s < get_number_of_states (ce_a ?c)" using s(1) by simp
    note step = product_step [OF L A B(2) this s(2) v(1,3) y(2) [unfolded v(2)]]
    show ?thesis using step unfolding run_val.simps Let_def by blast
  qed
  moreover have "run_val E A (VF q)"
    if ante: "run_val E A (VX i p)" "run_val E A (VF p)"
      and fa: "fa \<in> set (get_accept_states ?B)" "run_val E A (VY u q fa)" for p q fa
  proof -
    have "ce_u ?c \<in> lang A" using ante dfa_lang [OF A w] by (simp add: i(2))
    then have sub: "lang (ce_a ?c) \<subseteq> lang A" using C u by (auto simp: consistent_def)
    obtain v where v: "set v \<subseteq> alphabet E" "q = dfa_state A v" "fa \<in> delta ?B v (au_initial ?B)"
      using fa(2) by (auto simp: Let_def)
    have "v \<in> lang A" using product_lang [OF B v(3) fa(1)] sub by blast
    then show ?thesis using dfa_lang [OF A v(1)] v(2) by simp
  qed
  ultimately show ?thesis unfolding uni_ok_def by blast
qed

lemma run_val_ex:
  assumes L: "maps_ok (en_learner E)"
    and t: "tree_inv (en_tree E)" "pt_map (en_tree E) = ln_map (en_learner E)"
    and A: "complete_dfa (ln_alphabet (en_learner E)) (en_n E) A"
    and S: "short_witnesses (en_n E) A (ln_sample (en_learner E))"
    and e: "e < length (en_ex E)"
    and B: "wf_automaton (ce_a (en_ex E ! e))" "letters_only (alphabet E) (ce_a (en_ex E ! e))"
    and i: "i < length (pt_nodes (en_tree E))" "path_word (en_tree E) i = ce_u (en_ex E ! e)"
  shows "ex_ok E (run_val E A) e (expand_singleton (ce_a (en_ex E ! e))) (l_max E (en_ex E ! e)) i"
proof -
  let ?c = "en_ex E ! e"
  let ?B = "expand_singleton (ce_a ?c)"
  have w: "set (ce_u ?c) \<subseteq> alphabet E" using path_word_al [OF L t i(1)] i(2) by simp
  have "run_val E A (VZ e 0 (au_initial ?B) 0)" by (simp add: Let_def)
  moreover have "s = au_initial ?B \<and> q = 0" if "run_val E A (VZ e q s 0)" for q s
    using that by (simp add: Let_def)
  moreover have "run_val E A (VZ e q (t_to tr) (l + 1))"
    if s: "s < length (au_states ?B)" "tr \<in> set (transitions_of ?B s)"
      and z: "run_val E A (VZ e p s l)" "run_val E A (VD p (label E tr) q)" for s tr p q l
  proof -
    obtain v where v: "length v = l" "set v \<subseteq> alphabet E" "p = dfa_state A v" "s \<in> delta ?B v (au_initial ?B)"
      using z(1) by (auto simp: Let_def)
    have "s < get_number_of_states (ce_a ?c)" using s(1) by simp
    note step = product_step [OF L A B(2) this s(2) v(2,4) z(2) [unfolded v(3)]]
    have "length (v @ [t_min tr]) = l + 1" using v(1) by simp
    then show ?thesis using step unfolding run_val.simps Let_def by blast
  qed
  moreover have "reverse_step E (run_val E A) e ?B s q l"
    if l: "l \<in> {1..<l_max E ?c}" and z: "run_val E A (VZ e q s l)" for s q l
  proof -
    obtain v where v: "length v = l" "set v \<subseteq> alphabet E" "q = dfa_state A v" "s \<in> delta ?B v (au_initial ?B)"
      using z by (auto simp: Let_def)
    then obtain v' c where v': "v = v' @ [c]" using l by (cases v rule: rev_cases) auto
    obtain s2 where s2: "s2 \<in> delta ?B v' (au_initial ?B)" "s \<in> set (step_all (state_of ?B s2) c)"
      using v(4) by (auto simp: v' delta_snoc)
    have s2_less: "s2 < get_number_of_states (ce_a ?c)" by (rule delta_less [OF B(1) s2(1)])
    then obtain tr where tr: "tr \<in> set (transitions_of ?B s2)" "t_to tr = s" "t_min tr = c" "c \<in> alphabet E"
      using letters_step [OF B(2)] s2(2) by blast
    obtain a where a: "ln_map (en_learner E) c = Some a" by (rule maps_ok_index [OF L tr(4)])
    have v'_al: "set v' \<subseteq> alphabet E" using v(2) by (simp add: v')
    have "run_val E A (VD (dfa_state A v') (label E tr) q)"
      using run_val_step [OF L A v'_al a] v(3) by (simp add: v' label_def tr(3) a)
    moreover have "run_val E A (VZ e (dfa_state A v') s2 (l - 1))"
      using s2(1) v'_al v(1) by (auto simp: Let_def v' intro!: exI [of _ v'])
    moreover have "dfa_state A v' < en_n E" using dfa_state [OF A v'_al] by blast
    ultimately show ?thesis using s2_less tr(1,2) unfolding reverse_step_def by auto
  qed
  moreover have "\<exists>q < en_n E. \<exists>fa \<in> set (get_accept_states ?B). \<exists>l < l_max E ?c.
      run_val E A (VZ e q fa l) \<and> run_val E A (VF q)"
    if ante: "run_val E A (VX i p)" "run_val E A (VF p)" for p
  proof -
    have "ce_u ?c \<in> lang A" using ante dfa_lang [OF A w] by (simp add: i(2))
    then obtain v where v: "v \<in> lang (ce_a ?c)" "v \<in> lang A" "length v < l_max E ?c"
      using S e unfolding short_witnesses_def l_max_def by (meson IntE nth_mem)
    then obtain fa where fa: "fa \<in> delta ?B v (au_initial ?B)" "accepting ?B fa"
      by (auto simp: lang_def Let_def)
    have v_al: "set v \<subseteq> alphabet E" by (rule delta_letters [OF B fa(1)])
    have "fa \<in> set (get_accept_states ?B)"
      using delta_less [OF B(1) fa(1)] fa(2) by (simp add: get_number_of_states_def)
    moreover have "run_val E A (VZ e (dfa_state A v) fa (length v))"
      using fa(1) v_al by (auto simp: Let_def)
    moreover have "run_val E A (VF (dfa_state A v))" using dfa_lang [OF A v_al] v(2) by simp
    ultimately show ?thesis using dfa_state [OF A v_al] v(3) by blast
  qed
  ultimately show ?thesis unfolding ex_ok_def by blast
qed

lemma encodes_run_val:
  assumes L: "maps_ok (en_learner E)" "sample_ok (en_learner E)"
    and t: "tree_inv (en_tree E)" "pt_map (en_tree E) = ln_map (en_learner E)"
      "tree_map (en_tree E) = sample_map (ln_sample (en_learner E))"
    and A: "complete_dfa (ln_alphabet (en_learner E)) (en_n E) A"
    and C: "consistent (lang A) (ln_sample (en_learner E))"
    and S: "short_witnesses (en_n E) A (ln_sample (en_learner E))"
  shows "encodes E (run_val E A)"
proof -
  have B: "wf_automaton (ce_a c)" "letters_only (alphabet E) (ce_a c)"
    if "c \<in> set (en_uni E) \<union> set (en_ex E)" for c
    using that L(2) by (auto simp: sample_ok_def)
  have "run_val E A (VX 0 0)" "\<forall>q \<in> {1..<en_n E}. \<not> run_val E A (VX 0 q)"
    using t(1) by simp_all
  moreover have "uni_ok E (run_val E A) u (expand_singleton (ce_a (en_uni E ! u))) i"
    if "u < length (en_uni E)" "i < length (pt_nodes (en_tree E))"
      "path_word (en_tree E) i = ce_u (en_uni E ! u)" for u i
    by (rule run_val_uni [OF L(1) t(1,2) A C that(1) B(1) B(2) that(2,3)]) (use that(1) in simp_all)
  moreover have "ex_ok E (run_val E A) e (expand_singleton (ce_a (en_ex E ! e))) (l_max E (en_ex E ! e)) i"
    if "e < length (en_ex E)" "i < length (pt_nodes (en_tree E))"
      "path_word (en_tree E) i = ce_u (en_ex E ! e)" for e i
    by (rule run_val_ex [OF L(1) t(1,2) A S that(1) B(1) B(2) that(2,3)]) (use that(1) in simp_all)
  ultimately show ?thesis
    unfolding encodes_def using run_val_d [OF L(1) A] run_val_node [OF L(1) t A C] by blast
qed

subsection \<open>The numbers of the variables\<close>

text \<open>The indices of the arrays.\<close>

fun in_bounds :: "encoding \<Rightarrow> svar \<Rightarrow> bool" where
  "in_bounds E (VF q) = (q < en_n E)"
| "in_bounds E (VD p a q) = (p < en_n E \<and> a < en_k E \<and> q < en_n E)"
| "in_bounds E (VX u q) = (u < pt_size (en_tree E) \<and> q < en_n E)"
| "in_bounds E (VY u p p2) = (u < length (en_uni E) \<and> p < en_n E \<and> p2 < ce_states (en_uni E ! u))"
| "in_bounds E (VZ e p p2 l) =
    (e < length (en_ex E) \<and> p < en_n E \<and> p2 < ce_states (en_ex E ! e) \<and> l < l_max E (en_ex E ! e))"

lemma digit_less: "a < m \<Longrightarrow> b < n \<Longrightarrow> a * n + b < m * n" for a b :: nat
proof -
  assume "a < m" "b < n"
  then have "a * n + b < a * n + n" "Suc a * n \<le> m * n" by simp_all (metis Suc_leI mult_le_mono1 mult_Suc)
  then show ?thesis by simp
qed

lemma digit_inject: "b < n \<Longrightarrow> b' < n \<Longrightarrow> a * n + b = a' * n + b' \<longleftrightarrow> a = a' \<and> b = b'" for a b :: nat
proof
  assume b: "b < n" "b' < n" and "a * n + b = a' * n + b'"
  then have "(a * n + b) div n = (a' * n + b') div n" "(a * n + b) mod n = (a' * n + b') mod n" by simp_all
  then show "a = a' \<and> b = b'" using b by simp
qed simp

lemma y_base_Suc:
  "u < length (en_uni E) \<Longrightarrow> y_base E (Suc u) = y_base E u + en_n E * ce_states (en_uni E ! u)"
  by (simp add: y_base_def take_Suc_conv_app_nth)

lemma z_base_Suc:
  "e < length (en_ex E) \<Longrightarrow>
    z_base E (Suc e) = z_base E e + en_n E * ce_states (en_ex E ! e) * l_max E (en_ex E ! e)"
  by (simp add: z_base_def take_Suc_conv_app_nth)

lemma sum_take_mono: "i \<le> j \<Longrightarrow> sum_list (map f (take i xs)) \<le> sum_list (map f (take j xs))"
  for f :: "'a \<Rightarrow> nat"
  by (metis le_add1 min.absorb1 nat_le_iff_add sum_list_append map_append take_add)

lemma y_base_mono: "i \<le> j \<Longrightarrow> y_base E i \<le> y_base E j"
  by (simp add: y_base_def sum_take_mono)

lemma z_base_mono: "i \<le> j \<Longrightarrow> z_base E i \<le> z_base E j"
  by (simp add: z_base_def sum_take_mono)

lemma y_range:
  assumes "in_bounds E (VY u p p2)"
  shows "y_base E u \<le> var_id E (VY u p p2)" "var_id E (VY u p p2) < y_base E (Suc u)"
  using assms digit_less [of p "en_n E" p2 "ce_states (en_uni E ! u)"] by (simp_all add: y_base_Suc)

lemma z_range:
  assumes "in_bounds E (VZ e p p2 l)"
  shows "z_base E e \<le> var_id E (VZ e p p2 l)" "var_id E (VZ e p p2 l) < z_base E (Suc e)"
proof -
  let ?m = "ce_states (en_ex E ! e)" and ?lm = "l_max E (en_ex E ! e)"
  have "p * ?m + p2 < en_n E * ?m" using assms by (intro digit_less) simp_all
  then have "(p * ?m + p2) * ?lm + l < en_n E * ?m * ?lm" using assms by (intro digit_less) simp_all
  then show "z_base E e \<le> var_id E (VZ e p p2 l)" "var_id E (VZ e p p2 l) < z_base E (Suc e)"
    using assms by (simp_all add: z_base_Suc)
qed

text \<open>The blocks that the loops of \<open>constructSAT\<close> number, in their order.\<close>

fun block :: "encoding \<Rightarrow> svar \<Rightarrow> nat \<times> nat" where
  "block E (VF q) = (0, en_n E)"
| "block E (VD p a q) = (en_n E, x_base E)"
| "block E (VX u q) = (x_base E, y_base E 0)"
| "block E (VY u p p2) = (y_base E 0, y_base E (length (en_uni E)))"
| "block E (VZ e p p2 l) = (z_base E 0, z_base E (length (en_ex E)))"

lemma d_less:
  assumes "p < en_n E" "a < en_k E" "q < en_n E"
  shows "(p * en_k E + a) * en_n E + q < en_n E * en_k E * en_n E"
  using assms by (intro digit_less) simp_all

lemma var_id_block:
  assumes "in_bounds E v"
  shows "fst (block E v) \<le> var_id E v" "var_id E v < snd (block E v)"
proof -
  show "fst (block E v) \<le> var_id E v"
  proof (cases v)
    case (VY u p p2)
    then show ?thesis using y_range(1) assms y_base_mono [of 0 u E] by (metis block.simps(4) fst_conv le_trans zero_le)
  next
    case (VZ e p p2 l)
    then show ?thesis using z_range(1) assms z_base_mono [of 0 e E] by (metis block.simps(5) fst_conv le_trans zero_le)
  qed simp_all
  show "var_id E v < snd (block E v)"
  proof (cases v)
    case (VD p a q)
    then show ?thesis using assms d_less by (simp add: x_base_def)
  next
    case (VX u q)
    then show ?thesis using assms digit_less [of u "pt_size (en_tree E)" q "en_n E"] by (simp add: y_base_def)
  next
    case (VY u p p2)
    then have "Suc u \<le> length (en_uni E)" using assms by simp
    then show ?thesis using y_range(2) [of E u p p2] assms y_base_mono [of "Suc u" "length (en_uni E)" E] VY by simp
  next
    case (VZ e p p2 l)
    then have "Suc e \<le> length (en_ex E)" using assms by simp
    then show ?thesis using z_range(2) [of E e p p2 l] assms z_base_mono [of "Suc e" "length (en_ex E)" E] VZ by simp
  qed (use assms in simp_all)
qed

lemma blocks_ordered:
  "x_base E = en_n E + en_n E * en_k E * en_n E" "x_base E \<le> y_base E 0"
  "y_base E 0 \<le> y_base E (length (en_uni E))" "y_base E (length (en_uni E)) = z_base E 0"
proof -
  show "x_base E = en_n E + en_n E * en_k E * en_n E" by (rule x_base_def)
  show "x_base E \<le> y_base E 0" by (simp add: y_base_def)
  show "y_base E 0 \<le> y_base E (length (en_uni E))" by (simp add: y_base_mono)
  show "y_base E (length (en_uni E)) = z_base E 0" by (simp add: z_base_def)
qed

lemma var_id_inject:
  assumes "in_bounds E v" "in_bounds E v'" "var_id E v = var_id E v'"
  shows "v = v'"
proof -
  note b = var_id_block [OF assms(1)] var_id_block [OF assms(2)] blocks_ordered [of E]
  show ?thesis
  proof (cases v)
    case (VF q)
    then show ?thesis using assms(3) b by (cases v') auto
  next
    case (VD p a q)
    show ?thesis
    proof (cases v')
      case (VD p' a' q')
      then have "(p * en_k E + a) * en_n E + q = (p' * en_k E + a') * en_n E + q'"
        using assms(3) \<open>v = VD p a q\<close> by simp
      then show ?thesis using assms(1,2) VD \<open>v = VD p a q\<close> by (simp add: digit_inject)
    qed (use VD assms(3) b in auto)
  next
    case (VX u q)
    show ?thesis
    proof (cases v')
      case (VX u' q')
      then show ?thesis using assms \<open>v = VX u q\<close> by (simp add: digit_inject)
    qed (use VX assms(3) b in auto)
  next
    case (VY u p p2)
    show ?thesis
    proof (cases v')
      case (VY u' p' p2')
      have "u = u'"
      proof (rule ccontr)
        assume "u \<noteq> u'"
        then have "Suc u \<le> u' \<or> Suc u' \<le> u" by linarith
        then show False
          using y_range [of E u p p2] y_range [of E u' p' p2'] y_base_mono [of "Suc u" u' E]
            y_base_mono [of "Suc u'" u E] assms VY \<open>v = VY u p p2\<close> by auto
      qed
      then show ?thesis using assms VY \<open>v = VY u p p2\<close> by (simp add: digit_inject)
    qed (use VY assms(3) b in auto)
  next
    case (VZ e p p2 l)
    show ?thesis
    proof (cases v')
      case (VZ e' p' p2' l')
      have "e = e'"
      proof (rule ccontr)
        assume "e \<noteq> e'"
        then have "Suc e \<le> e' \<or> Suc e' \<le> e" by linarith
        then show False
          using z_range [of E e p p2 l] z_range [of E e' p' p2' l'] z_base_mono [of "Suc e" e' E]
            z_base_mono [of "Suc e'" e E] assms VZ \<open>v = VZ e p p2 l\<close> by auto
      qed
      then show ?thesis using assms VZ \<open>v = VZ e p p2 l\<close> by (simp add: digit_inject)
    qed (use VZ assms(3) b in auto)
  qed
qed

subsection \<open>Completeness\<close>

text \<open>An encoding reads only the variables of the arrays.\<close>

lemma node_ok_cong:
  assumes t: "tree_inv (en_tree E)" "pt_alphabet_size (en_tree E) = en_k E"
    and i: "i < length (pt_nodes (en_tree E))"
    and eq: "\<And>v. in_bounds E v \<Longrightarrow> V v = V' v"
  shows "node_ok E (en_tree E) V i \<longleftrightarrow> node_ok E (en_tree E) V' i"
proof -
  have X: "V (VX j q) = V' (VX j q)" if "j < length (pt_nodes (en_tree E))" "q < en_n E" for j q
    using that tree_invD(4) [OF t(1)] by (intro eq) simp
  have e: "a < en_k E" "j < length (pt_nodes (en_tree E))" if "edge (en_tree E) i a j" for a j
    using that tree_inv_edge(2) [OF t(1) that] tree_inv_node(2) [OF t(1) i] t(2) by (simp_all add: edge_def)
  have "(\<forall>q1 < en_n E. \<forall>q2 \<in> {q1 + 1..<en_n E}. \<not> (V (VX i q1) \<and> V (VX i q2)))
      = (\<forall>q1 < en_n E. \<forall>q2 \<in> {q1 + 1..<en_n E}. \<not> (V' (VX i q1) \<and> V' (VX i q2)))"
    by (intro all_cong ball_cong refl) (simp add: X [OF i])
  moreover have "(edge (en_tree E) i a j \<longrightarrow> p < en_n E \<longrightarrow> q < en_n E \<longrightarrow> V (VX i p) \<longrightarrow> V (VD p a q) \<longrightarrow> V (VX j q))
      = (edge (en_tree E) i a j \<longrightarrow> p < en_n E \<longrightarrow> q < en_n E \<longrightarrow> V' (VX i p) \<longrightarrow> V' (VD p a q) \<longrightarrow> V' (VX j q))" for a j p q
    using X [OF i] X e eq [of "VD p a q"] by auto
  moreover have "(\<forall>q < en_n E. V (VX i q) \<longrightarrow> V (VF q)) = (\<forall>q < en_n E. V' (VX i q) \<longrightarrow> V' (VF q))"
    "(\<forall>q < en_n E. V (VX i q) \<longrightarrow> \<not> V (VF q)) = (\<forall>q < en_n E. V' (VX i q) \<longrightarrow> \<not> V' (VF q))"
    using X [OF i] eq by (intro all_cong; simp)+
  ultimately show ?thesis unfolding node_ok_def by (simp only:)
qed

lemma uni_ok_cong:
  assumes L: "maps_ok (en_learner E)" and n: "0 < en_n E" and u: "u < length (en_uni E)"
    and B: "wf_automaton (ce_a (en_uni E ! u))" "letters_only (alphabet E) (ce_a (en_uni E ! u))"
    and i: "i < pt_size (en_tree E)" and eq: "\<And>v. in_bounds E v \<Longrightarrow> V v = V' v"
  shows "uni_ok E V u (expand_singleton (ce_a (en_uni E ! u))) i \<longleftrightarrow>
    uni_ok E V' u (expand_singleton (ce_a (en_uni E ! u))) i"
proof -
  let ?B = "expand_singleton (ce_a (en_uni E ! u))"
  have Y: "V (VY u p s) = V' (VY u p s)" if "p < en_n E" "s < length (au_states ?B)" for p s
    using that u by (intro eq) simp
  have tr: "t_to t < length (au_states ?B)" "label E t < en_k E"
    if "s < length (au_states ?B)" "t \<in> set (transitions_of ?B s)" for s t
  proof -
    have s: "state_of ?B s \<in> set (au_states ?B)" using that(1) by simp
    then show "t_to t < length (au_states ?B)"
      using that(2) wf_expand_singleton [OF B(1)] by (auto simp: wf_automaton_def simp del: length_expand_singleton)
    show "label E t < en_k E" using s that(2) B(2) label_letter(1) [OF L] unfolding letters_only_def by blast
  qed
  have fa: "fa < length (au_states ?B)" if "fa \<in> set (get_accept_states ?B)" for fa
    using that by (simp add: get_number_of_states_def)
  have init: "au_initial ?B < length (au_states ?B)" using initial_expand_singleton [OF B(1)] by simp
  have F: "V (VF q) = V' (VF q)" if "q < en_n E" for q using that by (intro eq) simp
  have X: "V (VX i q) = V' (VX i q)" if "q < en_n E" for q using that i by (intro eq) simp
  have step: "(V (VY u p s) \<and> V (VD p (label E t) q) \<longrightarrow> V (VY u q (t_to t)))
      = (V' (VY u p s) \<and> V' (VD p (label E t) q) \<longrightarrow> V' (VY u q (t_to t)))"
    if "s < length (au_states ?B)" "t \<in> set (transitions_of ?B s)" "p < en_n E" "q < en_n E" for s t p q
    using Y [OF that(3,1)] Y [OF that(4) tr(1) [OF that(1,2)]] tr(2) [OF that(1,2)] that(3,4)
      eq [of "VD p (label E t) q"] by simp
  have cons: "(V (VY u q fa) \<longrightarrow> V (VF q)) = (V' (VY u q fa) \<longrightarrow> V' (VF q))"
    if "q < en_n E" "fa \<in> set (get_accept_states ?B)" for q fa
    using Y [OF that(1) fa [OF that(2)]] F [OF that(1)] by simp
  have "(\<forall>s < length (au_states ?B). \<forall>t \<in> set (transitions_of ?B s). \<forall>p < en_n E. \<forall>q < en_n E.
         V (VY u p s) \<and> V (VD p (label E t) q) \<longrightarrow> V (VY u q (t_to t)))
      = (\<forall>s < length (au_states ?B). \<forall>t \<in> set (transitions_of ?B s). \<forall>p < en_n E. \<forall>q < en_n E.
         V' (VY u p s) \<and> V' (VD p (label E t) q) \<longrightarrow> V' (VY u q (t_to t)))"
    by (intro all_cong ball_cong refl) (rule step)
  moreover have "(\<exists>q < en_n E. V (VX i q) \<and> V (VF q)) = (\<exists>q < en_n E. V' (VX i q) \<and> V' (VF q))"
    by (intro ex_cong) (simp add: X F)
  moreover have "(\<forall>q < en_n E. \<forall>fa \<in> set (get_accept_states ?B). V (VY u q fa) \<longrightarrow> V (VF q))
      = (\<forall>q < en_n E. \<forall>fa \<in> set (get_accept_states ?B). V' (VY u q fa) \<longrightarrow> V' (VF q))"
    by (intro all_cong ball_cong refl) (rule cons)
  ultimately show ?thesis unfolding uni_ok_def using Y [OF n init] by (simp only:)
qed

lemma ex_ok_cong:
  assumes L: "maps_ok (en_learner E)" and n: "1 < en_n E * ce_states (en_ex E ! e)" and e: "e < length (en_ex E)"
    and B: "wf_automaton (ce_a (en_ex E ! e))" "letters_only (alphabet E) (ce_a (en_ex E ! e))"
    and i: "i < pt_size (en_tree E)" and eq: "\<And>v. in_bounds E v \<Longrightarrow> V v = V' v"
  shows "ex_ok E V e (expand_singleton (ce_a (en_ex E ! e))) (l_max E (en_ex E ! e)) i \<longleftrightarrow>
    ex_ok E V' e (expand_singleton (ce_a (en_ex E ! e))) (l_max E (en_ex E ! e)) i"
proof -
  let ?B = "expand_singleton (ce_a (en_ex E ! e))" and ?lm = "l_max E (en_ex E ! e)"
  have pos: "0 < en_n E" "0 < ?lm" using n by (auto simp: l_max_def intro: Nat.gr0I)
  have Z: "V (VZ e p s l) = V' (VZ e p s l)" if "p < en_n E" "s < length (au_states ?B)" "l < ?lm" for p s l
    using that e by (intro eq) simp
  have tr: "t_to t < length (au_states ?B)" "label E t < en_k E"
    if "s < length (au_states ?B)" "t \<in> set (transitions_of ?B s)" for s t
  proof -
    have s: "state_of ?B s \<in> set (au_states ?B)" using that(1) by simp
    then show "t_to t < length (au_states ?B)"
      using that(2) wf_expand_singleton [OF B(1)] by (auto simp: wf_automaton_def simp del: length_expand_singleton)
    show "label E t < en_k E" using s that(2) B(2) label_letter(1) [OF L] unfolding letters_only_def by blast
  qed
  have fa: "fa < length (au_states ?B)" if "fa \<in> set (get_accept_states ?B)" for fa
    using that by (simp add: get_number_of_states_def)
  have init: "au_initial ?B < length (au_states ?B)" using initial_expand_singleton [OF B(1)] by simp
  have D: "V (VD p a q) = V' (VD p a q)" if "p < en_n E" "a < en_k E" "q < en_n E" for p a q
    using that by (intro eq) simp
  have F: "V (VF q) = V' (VF q)" if "q < en_n E" for q using that by (intro eq) simp
  have X: "V (VX i q) = V' (VX i q)" if "q < en_n E" for q using that i by (intro eq) simp
  have step: "(V (VZ e p s l) \<and> V (VD p (label E t) q) \<longrightarrow> V (VZ e q (t_to t) (l + 1)))
      = (V' (VZ e p s l) \<and> V' (VD p (label E t) q) \<longrightarrow> V' (VZ e q (t_to t) (l + 1)))"
    if "s < length (au_states ?B)" "t \<in> set (transitions_of ?B s)" "p < en_n E" "q < en_n E" "l < ?lm - 1" for s t p q l
    using Z [OF that(3,1), of l] Z [OF that(4) tr(1) [OF that(1,2)], of "l + 1"]
      D [OF that(3) tr(2) [OF that(1,2)] that(4)] that(5) by simp
  have rev: "(V (VZ e q s l) \<longrightarrow> reverse_step E V e ?B s q l) = (V' (VZ e q s l) \<longrightarrow> reverse_step E V' e ?B s q l)"
    if "s < length (au_states ?B)" "q < en_n E" "l \<in> {1..<?lm}" for s q l
  proof -
    have pred: "(V (VD p (label E t) q) \<and> V (VZ e p s2 (l - 1))) = (V' (VD p (label E t) q) \<and> V' (VZ e p s2 (l - 1)))"
      if s2: "s2 < length (au_states ?B)" "t \<in> set (transitions_of ?B s2)" "p < en_n E" for s2 t p
      using D [OF s2(3) tr(2) [OF s2(1,2)] \<open>q < en_n E\<close>] Z [OF s2(3,1), of "l - 1"] \<open>l \<in> {1..<?lm}\<close> by auto
    have inner: "(\<exists>p < en_n E. V (VD p (label E t) q) \<and> V (VZ e p s2 (l - 1)))
        = (\<exists>p < en_n E. V' (VD p (label E t) q) \<and> V' (VZ e p s2 (l - 1)))"
      if "s2 < length (au_states ?B)" "t \<in> set (transitions_of ?B s2)" for s2 t
      by (intro ex_cong) (rule pred [OF that])
    have "reverse_step E V e ?B s q l = reverse_step E V' e ?B s q l"
      unfolding reverse_step_def by (intro ex_cong bex_cong refl) (simp only: inner)
    moreover have "V (VZ e q s l) = V' (VZ e q s l)" using that by (intro Z) simp_all
    ultimately show ?thesis by simp
  qed
  have cons: "(V (VZ e q fa l) \<and> V (VF q)) = (V' (VZ e q fa l) \<and> V' (VF q))"
    if "q < en_n E" "fa \<in> set (get_accept_states ?B)" "l < ?lm" for q fa l
    using Z [OF that(1) fa [OF that(2)] that(3)] F [OF that(1)] by simp
  have "(\<forall>s < length (au_states ?B). \<forall>q < en_n E. s = au_initial ?B \<and> q = 0 \<or> \<not> V (VZ e q s 0))
      = (\<forall>s < length (au_states ?B). \<forall>q < en_n E. s = au_initial ?B \<and> q = 0 \<or> \<not> V' (VZ e q s 0))"
    by (intro all_cong) (simp add: Z pos(2))
  moreover have "(\<forall>s < length (au_states ?B).
         (\<forall>t \<in> set (transitions_of ?B s). \<forall>p < en_n E. \<forall>q < en_n E. \<forall>l < ?lm - 1.
            V (VZ e p s l) \<and> V (VD p (label E t) q) \<longrightarrow> V (VZ e q (t_to t) (l + 1)))
         \<and> (\<forall>q < en_n E. \<forall>l \<in> {1..<?lm}. V (VZ e q s l) \<longrightarrow> reverse_step E V e ?B s q l))
      = (\<forall>s < length (au_states ?B).
         (\<forall>t \<in> set (transitions_of ?B s). \<forall>p < en_n E. \<forall>q < en_n E. \<forall>l < ?lm - 1.
            V' (VZ e p s l) \<and> V' (VD p (label E t) q) \<longrightarrow> V' (VZ e q (t_to t) (l + 1)))
         \<and> (\<forall>q < en_n E. \<forall>l \<in> {1..<?lm}. V' (VZ e q s l) \<longrightarrow> reverse_step E V' e ?B s q l))"
    (is "(\<forall>s < _. ?P s \<and> ?Q s) = (\<forall>s < _. ?P' s \<and> ?Q' s)")
  proof (rule all_cong)
    fix s assume s: "s < length (au_states ?B)"
    have "?P s = ?P' s" by (intro all_cong ball_cong refl) (rule step [OF s])
    moreover have "?Q s = ?Q' s" by (intro all_cong ball_cong refl) (rule rev [OF s])
    ultimately show "(?P s \<and> ?Q s) = (?P' s \<and> ?Q' s)" by (simp only:)
  qed
  moreover have "(\<exists>q < en_n E. V (VX i q) \<and> V (VF q)) = (\<exists>q < en_n E. V' (VX i q) \<and> V' (VF q))"
    by (intro ex_cong) (simp add: X F)
  moreover have "(\<exists>q < en_n E. \<exists>fa \<in> set (get_accept_states ?B). \<exists>l < ?lm. V (VZ e q fa l) \<and> V (VF q))
      = (\<exists>q < en_n E. \<exists>fa \<in> set (get_accept_states ?B). \<exists>l < ?lm. V' (VZ e q fa l) \<and> V' (VF q))"
    by (intro ex_cong bex_cong refl) (rule cons)
  ultimately show ?thesis unfolding ex_ok_def using Z [OF pos(1) init pos(2)] by (simp only:)
qed

lemma encodes_cong:
  assumes L: "maps_ok (en_learner E)" "sample_ok (en_learner E)" and n: "0 < en_n E"
    and t: "tree_inv (en_tree E)" "pt_alphabet_size (en_tree E) = en_k E"
    and lm: "\<forall>c \<in> set (en_ex E). 1 < en_n E * ce_states c"
    and eq: "\<And>v. in_bounds E v \<Longrightarrow> V v = V' v" and V: "encodes E V"
  shows "encodes E V'"
proof -
  have B: "wf_automaton (ce_a c)" "letters_only (alphabet E) (ce_a c)"
    if "c \<in> set (en_uni E) \<union> set (en_ex E)" for c
    using that L(2) by (auto simp: sample_ok_def)
  note size = tree_invD(4) [OF t(1)]
  have D: "V (VD p a q) = V' (VD p a q)" if "p < en_n E" "a < en_k E" "q < en_n E" for p a q
    using that by (intro eq) simp
  have X: "V (VX 0 q) = V' (VX 0 q)" if "q < en_n E" for q
    using that size tree_invD(3) [OF t(1)] by (intro eq) simp
  have "(\<forall>q < en_n E. \<forall>q2 \<in> {q + 1..<en_n E}. \<not> (V' (VD p a q) \<and> V' (VD p a q2)))
      \<and> (\<exists>q < en_n E. V' (VD p a q))" if "p < en_n E" "a < en_k E" for p a
  proof -
    have "(\<forall>q < en_n E. \<forall>q2 \<in> {q + 1..<en_n E}. \<not> (V (VD p a q) \<and> V (VD p a q2)))
        = (\<forall>q < en_n E. \<forall>q2 \<in> {q + 1..<en_n E}. \<not> (V' (VD p a q) \<and> V' (VD p a q2)))"
      by (intro all_cong ball_cong refl) (simp add: D [OF that])
    moreover have "(\<exists>q < en_n E. V (VD p a q)) = (\<exists>q < en_n E. V' (VD p a q))"
      by (intro ex_cong) (simp add: D [OF that])
    ultimately show ?thesis using encodesD(1) [OF V] that by blast
  qed
  moreover have "V' (VX 0 0)" "\<forall>q \<in> {1..<en_n E}. \<not> V' (VX 0 q)"
    using encodesD(2,3) [OF V] X n by simp_all
  moreover have "node_ok E (en_tree E) V' i" if "i < length (pt_nodes (en_tree E))" for i
    using encodesD(4) [OF V] that node_ok_cong [where V = V and V' = V', OF t that, OF eq] by blast
  moreover have "uni_ok E V' u (expand_singleton (ce_a (en_uni E ! u))) i"
    if u: "u < length (en_uni E)" "i < length (pt_nodes (en_tree E))"
      "path_word (en_tree E) i = ce_u (en_uni E ! u)" for u i
  proof -
    have "uni_ok E V u (expand_singleton (ce_a (en_uni E ! u))) i" using encodesD(5) [OF V] u by blast
    moreover have "uni_ok E V u (expand_singleton (ce_a (en_uni E ! u))) i
        \<longleftrightarrow> uni_ok E V' u (expand_singleton (ce_a (en_uni E ! u))) i"
      by (rule uni_ok_cong [OF L(1) n u(1) B(1) B(2) _ eq]) (use u size in simp_all)
    ultimately show ?thesis by blast
  qed
  moreover have "ex_ok E V' e (expand_singleton (ce_a (en_ex E ! e))) (l_max E (en_ex E ! e)) i"
    if e: "e < length (en_ex E)" "i < length (pt_nodes (en_tree E))"
      "path_word (en_tree E) i = ce_u (en_ex E ! e)" for e i
  proof -
    have "ex_ok E V e (expand_singleton (ce_a (en_ex E ! e))) (l_max E (en_ex E ! e)) i"
      using encodesD(6) [OF V] e by blast
    moreover have "ex_ok E V e (expand_singleton (ce_a (en_ex E ! e))) (l_max E (en_ex E ! e)) i
        \<longleftrightarrow> ex_ok E V' e (expand_singleton (ce_a (en_ex E ! e))) (l_max E (en_ex E ! e)) i"
    proof (rule ex_ok_cong [OF L(1) _ e(1) B(1) B(2) _ eq])
      show "1 < en_n E * ce_states (en_ex E ! e)" using lm e(1) nth_mem by blast
    qed (use e size in simp_all)
    ultimately show ?thesis by blast
  qed
  ultimately show ?thesis unfolding encodes_def by blast
qed

text \<open>An assignment for given truth values of the variables, by their numbers.\<close>

definition assignment :: "encoding \<Rightarrow> (svar \<Rightarrow> bool) \<Rightarrow> var_name \<Rightarrow> bool" where
  "assignment E V x \<longleftrightarrow> (\<exists>v. in_bounds E v \<and> x = VarID (var_id E v) \<and> V v)"

lemma truth_assignment:
  assumes "\<not> ln_debug (en_learner E)" "in_bounds E v"
  shows "truth E (assignment E V) v = V v"
  using assms var_id_inject [OF assms(2)] by (auto simp: bool_const_def assignment_def)

lemma encodes_complete:
  assumes L: "maps_ok (en_learner E)" "sample_ok (en_learner E)" "\<not> ln_debug (en_learner E)"
    and t: "tree_inv (en_tree E)" "pt_map (en_tree E) = ln_map (en_learner E)"
      "tree_map (en_tree E) = sample_map (ln_sample (en_learner E))"
      "pt_alphabet_size (en_tree E) = en_k E"
    and lm: "\<forall>c \<in> set (en_ex E). 1 < en_n E * ce_states c"
    and A: "complete_dfa (ln_alphabet (en_learner E)) (en_n E) A"
      "consistent (lang A) (ln_sample (en_learner E))"
      "short_witnesses (en_n E) A (ln_sample (en_learner E))"
  shows "encodes E (truth E (assignment E (run_val E A)))"
proof (rule encodes_cong [OF L(1,2) _ t(1,4) lm])
  show "0 < en_n E" using A(1) by (simp add: complete_dfa_def)
  show "encodes E (run_val E A)" by (rule encodes_run_val [OF L(1,2) t(1-3) A])
  show "run_val E A v = truth E (assignment E (run_val E A)) v" if "in_bounds E v" for v
    using truth_assignment [OF L(3) that] by simp
qed

text \<open>C8: Different variables get different numbers: the running number varID of the loops of
  constructSAT never gives two constants the same name (outside debug mode), so their truth values are
  independent of each other.\<close>
theorem variables_distinct:
  assumes "\<not> ln_debug (en_learner E)" "in_bounds E v" "in_bounds E v'"
  shows "bool_const E v = bool_const E v' \<longleftrightarrow> v = v'"
  using assms var_id_inject by (auto simp: bool_const_def)

theorem variables_distinct_witness:
  "bool_const \<lparr>en_learner = new_learner [97] False, en_n = 2, en_tree = new_prefix_tree 1 Map.empty\<rparr> (VD 1 0 1)
    \<noteq> bool_const \<lparr>en_learner = new_learner [97] False, en_n = 2, en_tree = new_prefix_tree 1 Map.empty\<rparr> (VX 0 1)"
  using variables_distinct [of "\<lparr>en_learner = new_learner [97] False, en_n = 2,
      en_tree = new_prefix_tree 1 Map.empty\<rparr>" "VD 1 0 1" "VX 0 1"]
  by (simp add: new_learner_def new_prefix_tree_def)

end
