(* ===== verification/Learner.thy ===== *)
theory Learner
  imports Learner_Complete
begin

text \<open>
  The learner (\<open>learner/Learner.java\<close>): \<open>conjecture\<close> looks for the least number of states, from the
  current one on, for which the encoding of the sample has a model, and returns the automaton of the
  model. Z3's \<open>Solver\<close> is a parameter: \<open>check\<close> and \<open>getModel\<close> together give a model of the
  asserted formulas or none.
\<close>

subsection \<open>\<open>conjecture\<close>\<close>

type_synonym solver = "bexpr list \<Rightarrow> (var_name \<Rightarrow> bool) option"

text \<open>What the solver promises.\<close>

definition solver_ok :: "solver \<Rightarrow> bool" where
  "solver_ok solve \<longleftrightarrow>
    (\<forall>cs. case solve cs of Some I \<Rightarrow> models I cs | None \<Rightarrow> \<not> (\<exists>I. models I cs))"

definition preserves_lang :: "(automaton \<Rightarrow> automaton) \<Rightarrow> bool" where
  "preserves_lang minimize \<longleftrightarrow> (\<forall>A. lang (minimize A) = lang A)"

text \<open>The loop of \<open>conjecture\<close>: \<open>None\<close> if it does not end, \<open>Some None\<close> for an exception.\<close>

partial_function (option) conjecture_loop ::
  "solver \<Rightarrow> learner \<Rightarrow> nat \<Rightarrow> (nat \<times> (var_name \<Rightarrow> bool)) option option" where
  "conjecture_loop solve L n =
    (case construct_sat L n of
       None \<Rightarrow> Some None
     | Some cs \<Rightarrow>
         (case solve cs of
            Some I \<Rightarrow> Some (Some (n, I))
          | None \<Rightarrow> conjecture_loop solve L (n + 1)))"

declare conjecture_loop.simps [code]

definition conjecture ::
  "solver \<Rightarrow> (automaton \<Rightarrow> automaton) \<Rightarrow> learner \<Rightarrow> (learner \<times> automaton) option option" where
  "conjecture solve minimize L =
    map_option (map_option (\<lambda>(n, I).
        (L\<lparr>ln_n := n\<rparr>,
         translate_model minimize \<lparr>en_learner = L, en_n = n, en_tree = the (sample_tree L)\<rparr> I)))
      (conjecture_loop solve L (ln_n L - 1 + 1))"

subsection \<open>What is returned\<close>

lemma construct_sat_encodes:
  assumes L: "maps_ok L" "sample_ok L" and cs: "construct_sat L n = Some cs"
  obtains t where "sample_tree L = Some t" "tree_inv t" "tree_map t = sample_map (ln_sample L)"
    "pt_map t = ln_map L" "pt_alphabet_size t = alphabet_size L"
    "\<forall>c \<in> set (sa_ex (ln_sample L)). 1 < n * ce_states c"
    "\<And>I. models I cs \<longleftrightarrow> encodes \<lparr>en_learner = L, en_n = n, en_tree = t\<rparr>
        (truth \<lparr>en_learner = L, en_n = n, en_tree = t\<rparr> I)"
proof -
  have n: "\<forall>c \<in> set (sa_ex (ln_sample L)). 1 < n * ce_states c"
    using construct_sat_None [of _ L n] cs by (auto simp: not_le [symmetric])
  show thesis
    by (rule construct_sat_Some [OF L n]) (use that n cs in auto)
qed

definition loop_result :: "solver \<Rightarrow> learner \<Rightarrow> nat \<Rightarrow> (nat \<times> (var_name \<Rightarrow> bool)) option \<Rightarrow> bool" where
  "loop_result solve L n x \<longleftrightarrow>
    (\<exists>m \<ge> n. (construct_sat L m = None \<and> x = None
        \<or> (\<exists>cs I. construct_sat L m = Some cs \<and> solve cs = Some I \<and> x = Some (m, I)))
      \<and> (\<forall>j. n \<le> j \<longrightarrow> j < m \<longrightarrow> (\<exists>cs. construct_sat L j = Some cs \<and> solve cs = None)))"

lemma loop_result_Suc:
  assumes "loop_result solve L (n + 1) x" "construct_sat L n = Some cs" "solve cs = None"
  shows "loop_result solve L n x"
proof -
  obtain m where m: "m \<ge> n + 1"
    "construct_sat L m = None \<and> x = None
      \<or> (\<exists>cs I. construct_sat L m = Some cs \<and> solve cs = Some I \<and> x = Some (m, I))"
    "\<forall>j. n + 1 \<le> j \<longrightarrow> j < m \<longrightarrow> (\<exists>cs. construct_sat L j = Some cs \<and> solve cs = None)"
    using assms(1) unfolding loop_result_def by blast
  have "\<exists>cs. construct_sat L j = Some cs \<and> solve cs = None" if "n \<le> j" "j < m" for j
    using that m(3) assms(2,3) by (cases "j = n") auto
  then show ?thesis using m(1,2) unfolding loop_result_def by (intro exI [of _ m]) auto
qed

lemma conjecture_loop_result:
  assumes "conjecture_loop solve L n = Some x"
  shows "loop_result solve L n x"
proof (rule conjecture_loop.raw_induct [where P = loop_result, OF _ assms])
  fix loop :: "solver \<Rightarrow> learner \<Rightarrow> nat \<Rightarrow> (nat \<times> (var_name \<Rightarrow> bool)) option option"
  fix solve L n x
  assume IH: "\<And>solve L n x. loop solve L n = Some x \<Longrightarrow> loop_result solve L n x"
    and step: "(case construct_sat L n of None \<Rightarrow> Some None
      | Some cs \<Rightarrow> (case solve cs of Some I \<Rightarrow> Some (Some (n, I)) | None \<Rightarrow> loop solve L (n + 1))) = Some x"
  consider "construct_sat L n = None" | cs where "construct_sat L n = Some cs" "solve cs = None"
    | cs I where "construct_sat L n = Some cs" "solve cs = Some I"
    by (cases "construct_sat L n"; cases "solve (the (construct_sat L n))") auto
  then show "loop_result solve L n x"
  proof cases
    case 2
    then have "loop solve L (n + 1) = Some x" using step by simp
    then show ?thesis using IH loop_result_Suc 2 by blast
  qed (use step in \<open>auto simp: loop_result_def\<close>)
qed

lemma conjecture_result:
  assumes "conjecture solve minimize L = Some (Some (L', W))" "0 < ln_n L"
  obtains n I cs where "ln_n L \<le> n" "construct_sat L n = Some cs" "solve cs = Some I"
    "L' = L\<lparr>ln_n := n\<rparr>"
    "W = translate_model minimize \<lparr>en_learner = L, en_n = n, en_tree = the (sample_tree L)\<rparr> I"
    "\<And>j. ln_n L \<le> j \<Longrightarrow> j < n \<Longrightarrow> \<exists>cs. construct_sat L j = Some cs \<and> solve cs = None"
proof -
  have n0: "ln_n L - 1 + 1 = ln_n L" using assms(2) by simp
  obtain n I where r: "conjecture_loop solve L (ln_n L) = Some (Some (n, I))" "L' = L\<lparr>ln_n := n\<rparr>"
    "W = translate_model minimize \<lparr>en_learner = L, en_n = n, en_tree = the (sample_tree L)\<rparr> I"
    using assms(1) unfolding conjecture_def n0 by auto
  then show thesis using conjecture_loop_result [OF r(1)] that by (auto simp: loop_result_def)
qed

lemma solver_sound: "solver_ok solve \<Longrightarrow> solve cs = Some I \<Longrightarrow> models I cs"
  unfolding solver_ok_def by (metis option.simps(5))

lemma solver_complete: "solver_ok solve \<Longrightarrow> solve cs = None \<Longrightarrow> \<not> models I cs"
  unfolding solver_ok_def by (metis option.simps(4))

lemma translate_model_lang:
  "preserves_lang minimize \<Longrightarrow> lang (translate_model minimize E I) = lang (model_automaton E I)"
  by (simp add: translate_model_def preserves_lang_def)

subsection \<open>Consistent automata with more states\<close>

definition sink_state :: "jchar list \<Rightarrow> nat \<Rightarrow> state" where
  "sink_state al p = \<lparr>st_accept = False, st_transitions = map (\<lambda>c. char_transition c p) al\<rparr>"

definition pad_dfa :: "jchar list \<Rightarrow> nat \<Rightarrow> automaton \<Rightarrow> automaton" where
  "pad_dfa al m A = A\<lparr>au_states := au_states A @ map (sink_state al) [length (au_states A)..<m]\<rparr>"

lemma step_sink: "ch \<in> set al \<Longrightarrow> set (step_all (sink_state al p) ch) = {p}"
  by (force simp: step_all_def sink_state_def)

lemma pad_dfa_state:
  assumes "n = length (au_states A)" "n \<le> m"
  shows "length (au_states (pad_dfa al m A)) = m"
    "p < n \<Longrightarrow> state_of (pad_dfa al m A) p = state_of A p"
    "n \<le> p \<Longrightarrow> p < m \<Longrightarrow> state_of (pad_dfa al m A) p = sink_state al p"
  using assms by (simp_all add: pad_dfa_def nth_append)

lemma complete_pad_dfa:
  assumes A: "complete_dfa al n A" and m: "n \<le> m"
  shows "complete_dfa al m (pad_dfa al m A)"
proof -
  have n: "n = length (au_states A)" using A by (simp add: complete_dfa_def)
  have "\<exists>q < m. set (step_all (state_of (pad_dfa al m A) p) ch) = {q}" if p: "p < m" and ch: "ch \<in> set al" for p ch
  proof (cases "p < n")
    case True
    then obtain q where "q < n" "set (step_all (state_of A p) ch) = {q}"
      using A ch unfolding complete_dfa_def by blast
    then show ?thesis using m True pad_dfa_state(2) [OF n m True] by (metis order_less_le_trans)
  next
    case False
    then have "set (step_all (state_of (pad_dfa al m A) p) ch) = {p}"
      using pad_dfa_state(3) [OF n m _ p] step_sink [OF ch] by simp
    then show ?thesis using p by blast
  qed
  moreover have "au_singleton (pad_dfa al m A) = None" "au_initial (pad_dfa al m A) = 0" "0 < m"
    using A m by (simp_all add: complete_dfa_def pad_dfa_def)
  ultimately show ?thesis
    using pad_dfa_state(1) [OF n m] unfolding complete_dfa_def by blast
qed

lemma pad_dfa_run:
  assumes A: "complete_dfa al n A" and m: "n \<le> m"
  shows "set w \<subseteq> set al \<Longrightarrow> delta (pad_dfa al m A) w 0 = delta A w 0"
proof (induction w rule: rev_induct)
  case (snoc c w)
  have n: "n = length (au_states A)" using A by (simp add: complete_dfa_def)
  have "delta A w 0 = {dfa_state A w}" "dfa_state A w < n" using dfa_state [OF A] snoc.prems by simp_all
  then show ?case using snoc pad_dfa_state(2) [OF n m] by (simp add: delta_snoc)
qed simp

lemma pad_dfa_lang:
  assumes A: "complete_dfa al n A" and m: "n \<le> m" and w: "set w \<subseteq> set al"
  shows "w \<in> lang (pad_dfa al m A) \<longleftrightarrow> w \<in> lang A"
proof -
  have n: "n = length (au_states A)" using A by (simp add: complete_dfa_def)
  have "dfa_state (pad_dfa al m A) w = dfa_state A w"
    unfolding dfa_state_def pad_dfa_run [OF A m w] ..
  moreover have "dfa_state A w < n" using dfa_state [OF A w] by blast
  ultimately show ?thesis
    unfolding dfa_lang [OF A w] dfa_lang [OF complete_pad_dfa [OF A m] w]
    by (simp add: pad_dfa_state(2) [OF n m])
qed

lemma cex_lang_letters:
  assumes "sample_ok L" "c \<in> set (sa_uni (ln_sample L)) \<union> set (sa_ex (ln_sample L))" "w \<in> lang (ce_a c)"
  shows "set w \<subseteq> set (ln_alphabet L)"
proof -
  have "wf_automaton (ce_a c)" "letters_only (set (ln_alphabet L)) (ce_a c)"
    using assms(1,2) by (auto simp: sample_ok_def)
  moreover obtain q where "q \<in> delta (expand_singleton (ce_a c)) w (au_initial (expand_singleton (ce_a c)))"
    using assms(3) by (auto simp: lang_def Let_def)
  ultimately show ?thesis by (rule delta_letters)
qed

lemma consistent_cong:
  assumes L: "sample_ok L" and eq: "\<And>w. set w \<subseteq> set (ln_alphabet L) \<Longrightarrow> w \<in> W \<longleftrightarrow> w \<in> W'"
    and C: "consistent W (ln_sample L)"
  shows "consistent W' (ln_sample L)"
proof -
  have words: "w \<in> W \<longleftrightarrow> w \<in> W'" if "w \<in> sample_words (ln_sample L)" for w
  proof (rule eq)
    show "set w \<subseteq> set (ln_alphabet L)" using that L unfolding sample_ok_def by blast
  qed
  have langs: "w \<in> W \<longleftrightarrow> w \<in> W'"
    if "c \<in> set (sa_uni (ln_sample L)) \<union> set (sa_ex (ln_sample L))" "w \<in> lang (ce_a c)" for c w
    by (rule eq [OF cex_lang_letters [OF L that]])
  have "set (sa_pos (ln_sample L)) \<subseteq> W'" "set (sa_neg (ln_sample L)) \<inter> W' = {}"
    using C words by (auto simp: consistent_def sample_words_def)
  moreover have "lang (ce_a c) \<inter> W' \<noteq> {}" if "c \<in> set (sa_ex (ln_sample L))" "ce_u c \<in> W'" for c
  proof -
    have "ce_u c \<in> W" using words [of "ce_u c"] that by (auto simp: sample_words_def)
    then have "lang (ce_a c) \<inter> W \<noteq> {}" using C that(1) by (auto simp: consistent_def)
    then show ?thesis using langs [of c] that(1) by auto
  qed
  moreover have "lang (ce_a c) \<subseteq> W'" if "c \<in> set (sa_uni (ln_sample L))" "ce_u c \<in> W'" for c
  proof -
    have "ce_u c \<in> W" using words [of "ce_u c"] that by (auto simp: sample_words_def)
    then have "lang (ce_a c) \<subseteq> W" using C that(1) by (auto simp: consistent_def)
    then show ?thesis using langs [of c] that(1) by auto
  qed
  ultimately show ?thesis by (auto simp: consistent_def)
qed

subsection \<open>Short witnesses\<close>

lemma short_common_word:
  assumes A: "complete_dfa al n A" and B: "wf_automaton B" "letters_only (set al) B"
    and v: "v \<in> lang A" "v \<in> lang B"
  obtains w where "w \<in> lang A" "w \<in> lang B" "length w < n * get_number_of_states B"
proof -
  let ?B = "expand_singleton B"
  define w where "w = (ARG_MIN length w. w \<in> lang A \<and> w \<in> lang B)"
  have w: "w \<in> lang A \<and> w \<in> lang B"
    unfolding w_def by (rule arg_min_natI [where k = v]) (use v in simp)
  have least: "length w \<le> length u" if "u \<in> lang A" "u \<in> lang B" for u
    unfolding w_def by (rule arg_min_nat_le) (use that in simp)
  obtain fa where fa: "fa \<in> delta ?B w (au_initial ?B)" "accepting ?B fa"
    using w by (auto simp: lang_def Let_def)
  have al: "set w \<subseteq> set al" by (rule delta_letters [OF B fa(1)])
  have al_take: "set (take i w) \<subseteq> set al" and al_drop: "set (drop i w) \<subseteq> set al" for i
    using al set_take_subset [of i w] set_drop_subset [of i w] by blast+
  have "\<exists>s. s \<in> delta ?B (take i w) (au_initial ?B) \<and> fa \<in> delta ?B (drop i w) s" for i
    using fa(1) delta_append [of ?B "take i w" "drop i w" "au_initial ?B"] by auto
  then obtain st where st: "\<And>i. st i \<in> delta ?B (take i w) (au_initial ?B)"
    "\<And>i. fa \<in> delta ?B (drop i w) (st i)" by metis
  define g where "g i = (dfa_state A (take i w), st i)" for i
  have "g ` {..length w} \<subseteq> {..<n} \<times> {..<get_number_of_states B}"
    using dfa_state [OF A al_take] delta_less [OF B(1) st(1)] by (auto simp: g_def)
  then have card: "card (g ` {..length w}) \<le> n * get_number_of_states B"
    using card_mono [of "{..<n} \<times> {..<get_number_of_states B}"] by (simp add: card_cartesian_product)
  have "inj_on g {..length w}"
  proof (rule ccontr)
    assume "\<not> inj_on g {..length w}"
    then obtain i j where ij: "i < j" "j \<le> length w" "g i = g j"
      unfolding inj_on_def by (metis atMost_iff linorder_neqE_nat)
    let ?u = "take i w @ drop j w"
    have "fa \<in> delta ?B ?u (au_initial ?B)"
      using st(1) [of i] st(2) [of j] ij(3) by (auto simp: delta_append g_def)
    then have "?u \<in> lang B" using fa(2) by (auto simp: lang_def Let_def)
    moreover have u: "set ?u \<subseteq> set al" using al_take al_drop by auto
    have "delta A ?u 0 = delta A (take j w @ drop j w) 0"
      unfolding delta_append using dfa_state [OF A al_take] ij(3) by (simp add: g_def)
    then have "dfa_state A ?u = dfa_state A w" by (simp add: dfa_state_def)
    then have "?u \<in> lang A" using dfa_lang [OF A u] dfa_lang [OF A al] w by simp
    ultimately have "length w \<le> length ?u" by (intro least)
    then show False using ij(1,2) by simp
  qed
  then have "Suc (length w) \<le> n * get_number_of_states B" using card by (simp add: card_image)
  then show thesis using that [of w] w by simp
qed

lemma short_witnesses_pad:
  assumes L: "sample_ok L" and A: "complete_dfa (ln_alphabet L) k A" and m: "k < m"
    and C: "consistent (lang A) (ln_sample L)"
  shows "short_witnesses m (pad_dfa (ln_alphabet L) m A) (ln_sample L)"
  unfolding short_witnesses_def
proof (intro ballI impI)
  let ?P = "pad_dfa (ln_alphabet L) m A"
  fix c assume c: "c \<in> set (sa_ex (ln_sample L))" and u: "ce_u c \<in> lang ?P"
  have B: "wf_automaton (ce_a c)" "letters_only (set (ln_alphabet L)) (ce_a c)"
    using L c by (auto simp: sample_ok_def)
  have same: "w \<in> lang ?P \<longleftrightarrow> w \<in> lang A" if "set w \<subseteq> set (ln_alphabet L)" for w
    using pad_dfa_lang [OF A less_imp_le [OF m] that] .
  have "ce_u c \<in> sample_words (ln_sample L)" using c by (auto simp: sample_words_def)
  then have "ce_u c \<in> lang A" using same u L by (auto simp: sample_ok_def)
  then obtain v where "v \<in> lang A" "v \<in> lang (ce_a c)"
    using C c unfolding consistent_def by blast
  then obtain w where w: "w \<in> lang A" "w \<in> lang (ce_a c)" "length w < k * ce_states c"
    by (rule short_common_word [OF A B])
  have "set w \<subseteq> set (ln_alphabet L)" using cex_lang_letters [OF L _ w(2)] c by blast
  then have "w \<in> lang ?P" using same w(1) by blast
  moreover have "0 < ce_states c" using initial_expand_singleton [OF B(1)] by simp
  then have "k * ce_states c < m * ce_states c" using m by simp
  then have "length w < m * ce_states c - 1" using w(3) by linarith
  ultimately show "\<exists>v \<in> lang (ce_a c) \<inter> lang ?P. length v < m * ce_states c - 1" using w(2) by blast
qed

subsection \<open>A solver by enumeration\<close>

text \<open>All assignments of the constants that occur: a solver that keeps the promise.\<close>

primrec constants :: "bexpr \<Rightarrow> var_name list" where
  "constants BTrue = []"
| "constants BFalse = []"
| "constants (BConst v) = [v]"
| "constants (BNot e) = constants e"
| "constants (BAnd e f) = constants e @ constants f"
| "constants (BOr e f) = constants e @ constants f"
| "constants (BImplies e f) = constants e @ constants f"

definition enumerate_models :: solver where
  "enumerate_models cs =
    find (\<lambda>I. models I cs)
      (map (\<lambda>vs v. v \<in> set vs) (subseqs (remdups (concat (map constants cs)))))"

lemma beval_cong: "\<forall>v \<in> set (constants e). I v = J v \<Longrightarrow> beval I e = beval J e"
  by (induction e) auto

lemma solver_ok_enumerate_models: "solver_ok enumerate_models"
proof -
  have some: "models I cs" if "enumerate_models cs = Some I" for I cs
    using that unfolding enumerate_models_def find_Some_iff by auto
  have none: "\<not> models I cs" if "enumerate_models cs = None" for I cs
  proof
    assume I: "models I cs"
    let ?vs = "remdups (concat (map constants cs))"
    have "{v \<in> set ?vs. I v} \<in> set ` set (subseqs ?vs)" unfolding subseqs_powset by blast
    then obtain vs where vs: "vs \<in> set (subseqs ?vs)" "set vs = {v \<in> set ?vs. I v}" by auto
    have "models (\<lambda>v. v \<in> set vs) cs"
      unfolding models_def
    proof
      fix c assume c: "c \<in> set cs"
      then have "beval (\<lambda>v. v \<in> set vs) c = beval I c" using vs(2) by (intro beval_cong) auto
      then show "beval (\<lambda>v. v \<in> set vs) c" using I c by (simp add: models_def)
    qed
    then show False using that vs(1) unfolding enumerate_models_def find_None_iff by auto
  qed
  show ?thesis using some none by (simp add: solver_ok_def split: option.split)
qed

subsection \<open>\<open>conjecture\<close> succeeds\<close>

lemma construct_sat_satisfiable:
  assumes L: "maps_ok L" "sample_ok L" "\<not> ln_debug L"
    and n: "\<forall>c \<in> set (sa_ex (ln_sample L)). 1 < n * ce_states c"
    and A: "complete_dfa (ln_alphabet L) n A" "consistent (lang A) (ln_sample L)"
      "short_witnesses n A (ln_sample L)"
  obtains cs I where "construct_sat L n = Some cs" "models I cs"
proof -
  obtain t cs where t: "tree_inv t" "tree_map t = sample_map (ln_sample L)" "pt_map t = ln_map L"
    "pt_alphabet_size t = alphabet_size L" "construct_sat L n = Some cs"
    "\<And>I. models I cs \<longleftrightarrow> encodes \<lparr>en_learner = L, en_n = n, en_tree = t\<rparr>
        (truth \<lparr>en_learner = L, en_n = n, en_tree = t\<rparr> I)"
    by (rule construct_sat_Some [OF L(1,2) n]) blast
  let ?E = "\<lparr>en_learner = L, en_n = n, en_tree = t\<rparr>"
  have "encodes ?E (truth ?E (assignment ?E (run_val ?E A)))"
    by (rule encodes_complete) (use L t n A in simp_all)
  then show thesis using that t(5,6) by blast
qed

lemma conjecture_loop_returns:
  assumes solve: "solver_ok solve"
    and some: "\<And>j. n \<le> j \<Longrightarrow> construct_sat L j \<noteq> None"
    and m: "construct_sat L m = Some cs" "models J cs"
  shows "n \<le> m \<Longrightarrow> \<exists>j I. conjecture_loop solve L n = Some (Some (j, I)) \<and> n \<le> j \<and> j \<le> m"
  using some
proof (induction "m - n" arbitrary: n)
  case 0
  then have "n = m" by simp
  then obtain I where "solve cs = Some I" using solver_complete [OF solve, of cs J] m(2) by (cases "solve cs") auto
  then show ?case using m(1) \<open>n = m\<close> by (subst conjecture_loop.simps) simp
next
  case (Suc d)
  obtain cs' where cs': "construct_sat L n = Some cs'" using Suc.prems(2) [of n] by auto
  show ?case
  proof (cases "solve cs'")
    case (Some I)
    then show ?thesis using cs' Suc.prems(1) by (subst conjecture_loop.simps) simp
  next
    case None
    have "\<exists>j I. conjecture_loop solve L (n + 1) = Some (Some (j, I)) \<and> n + 1 \<le> j \<and> j \<le> m"
      using Suc.hyps(2) Suc.prems(2) by (intro Suc.hyps(1)) auto
    then obtain j I where "conjecture_loop solve L (n + 1) = Some (Some (j, I))" "n + 1 \<le> j" "j \<le> m"
      by blast
    then show ?thesis using cs' None by (subst conjecture_loop.simps) auto
  qed
qed

lemma more_states_satisfiable:
  assumes L: "maps_ok L" "sample_ok L" "\<not> ln_debug L"
    and n: "\<forall>c \<in> set (sa_ex (ln_sample L)). 1 < m * ce_states c"
    and A: "complete_dfa (ln_alphabet L) k A" "consistent (lang A) (ln_sample L)" and m: "k < m"
  obtains cs I where "construct_sat L m = Some cs" "models I cs"
proof (rule construct_sat_satisfiable [OF L n])
  let ?P = "pad_dfa (ln_alphabet L) m A"
  show "complete_dfa (ln_alphabet L) m ?P" using complete_pad_dfa [OF A(1)] m by simp
  show "consistent (lang ?P) (ln_sample L)"
    by (rule consistent_cong [OF L(2) _ A(2)]) (use pad_dfa_lang [OF A(1)] m in simp)
  show "short_witnesses m ?P (ln_sample L)" by (rule short_witnesses_pad [OF L(2) A(1) m A(2)])
qed

lemma conjecture_lang:
  assumes "solver_ok solve" "preserves_lang minimize" "maps_ok L" "sample_ok L"
    and cs: "construct_sat L n = Some cs" "models I cs" and n: "0 < n"
    and "set (sa_pos (ln_sample L)) \<inter> set (sa_neg (ln_sample L)) = {}"
  shows "consistent (lang (translate_model minimize
      \<lparr>en_learner = L, en_n = n, en_tree = the (sample_tree L)\<rparr> I)) (ln_sample L)"
proof -
  obtain t where t: "sample_tree L = Some t" "tree_inv t" "tree_map t = sample_map (ln_sample L)"
    "pt_map t = ln_map L"
    and enc: "\<And>I. models I cs \<longleftrightarrow> encodes \<lparr>en_learner = L, en_n = n, en_tree = t\<rparr>
        (truth \<lparr>en_learner = L, en_n = n, en_tree = t\<rparr> I)"
    by (rule construct_sat_encodes [OF assms(3,4) cs(1)]) blast
  let ?E = "\<lparr>en_learner = L, en_n = n, en_tree = t\<rparr>"
  have "consistent (lang (model_automaton ?E I)) (ln_sample (en_learner ?E))"
    by (rule encodes_sound) (use assms t enc [of I] in simp_all)
  then show ?thesis by (simp add: translate_model_lang [OF assms(2)] t(1))
qed

subsection \<open>Examples\<close>

definition loop_dfa :: automaton where
  "loop_dfa =
    \<lparr>au_initial = 0, au_states = [\<lparr>st_accept = True, st_transitions = [char_transition 97 0]\<rparr>],
     au_deterministic = True, au_singleton = None\<rparr>"

definition two_state_dfa :: automaton where
  "two_state_dfa =
    \<lparr>au_initial = 0,
     au_states = [\<lparr>st_accept = False, st_transitions = [char_transition 97 1]\<rparr>,
       \<lparr>st_accept = True, st_transitions = [char_transition 97 1]\<rparr>],
     au_deterministic = True, au_singleton = None\<rparr>"

text \<open>The words of even length, and one existential counter-example: if the empty word is accepted,
  the word \<open>aa\<close> has to be.\<close>

definition even_dfa :: automaton where
  "even_dfa =
    \<lparr>au_initial = 0,
     au_states = [\<lparr>st_accept = True, st_transitions = [char_transition 97 1]\<rparr>,
       \<lparr>st_accept = False, st_transitions = [char_transition 97 0]\<rparr>],
     au_deterministic = True, au_singleton = None\<rparr>"

definition even_learner :: learner where
  "even_learner =
    (new_learner [97] False)\<lparr>ln_sample := add_ex (=) [] (make_string [97, 97]) (add_pos [] new_sample)\<rparr>"

text \<open>A solver that keeps its promise and prefers the run of \<open>even_dfa\<close> when it is a model.\<close>

definition even_model :: "var_name \<Rightarrow> bool" where
  "even_model v = (v \<in> set (map VarID [0, 3, 4, 6, 8, 20, 29]))"

definition even_solver :: solver where
  "even_solver cs = (if models even_model cs then Some even_model else enumerate_models cs)"

definition small_learner :: learner where
  "small_learner = (new_learner [97] False)\<lparr>ln_sample :=
     add_ex (=) [97] (make_string [97]) (add_neg [] (add_pos [97] new_sample))\<rparr>"

lemma small_learner_sample:
  "ln_sample small_learner = \<lparr>sa_pos = [[97]], sa_neg = [[]],
    sa_ex = [\<lparr>ce_u = [97], ce_a = make_string [97]\<rparr>], sa_uni = [], sa_size = 3\<rparr>"
  by (simp add: small_learner_def new_sample_def add_pos_def add_neg_def add_ex_def)

lemma even_learner_sample:
  "ln_sample even_learner = \<lparr>sa_pos = [[]], sa_neg = [],
    sa_ex = [\<lparr>ce_u = [], ce_a = make_string [97, 97]\<rparr>], sa_uni = [], sa_size = 2\<rparr>"
  by (simp add: even_learner_def new_sample_def add_pos_def add_ex_def)

lemma solver_ok_even_solver: "solver_ok even_solver"
  using solver_ok_enumerate_models by (auto simp: solver_ok_def even_solver_def)

lemma delta_even_dfa:
  "p < 2 \<Longrightarrow> delta even_dfa w p = (if set w \<subseteq> {97} then {(p + length w) mod 2} else {})"
proof (induction w arbitrary: p)
  case (Cons c w)
  have "step_all (state_of even_dfa p) c = (if c = 97 then [(p + 1) mod 2] else [])"
    using Cons.prems by (auto simp: even_dfa_def step_all_def char_transition_def matches_def less_Suc_eq numeral_2_eq_2)
  then show ?case using Cons.IH [of "(p + 1) mod 2"] by (simp add: mod_simps)
qed simp

lemma lang_even_dfa: "lang even_dfa = {w. set w \<subseteq> {97} \<and> even (length w)}"
proof -
  have e: "expand_singleton even_dfa = even_dfa" "au_initial even_dfa = 0"
    "accepting even_dfa 0" "\<not> accepting even_dfa (Suc 0)"
    by (simp_all add: even_dfa_def expand_singleton_def)
  have "accepting even_dfa (length w mod 2) \<longleftrightarrow> even (length w)" for w :: jstring
    by (cases "even (length w)") (simp_all add: e even_iff_mod_2_eq_zero odd_iff_mod_2_eq_one)
  then show ?thesis by (auto simp: lang_def e delta_even_dfa split: if_splits)
qed

text \<open>An automaton with one state that accepts \<open>aa\<close> accepts \<open>a\<close>.\<close>

lemma one_state_lang:
  assumes A: "wf_automaton A" "get_number_of_states A = 1" and w: "[c, c] \<in> lang A"
  shows "[c] \<in> lang A"
proof -
  let ?A = "expand_singleton A"
  have i: "au_initial ?A = 0" using initial_expand_singleton [OF A(1)] A(2) by simp
  obtain q where q: "q \<in> delta ?A [c, c] 0" "accepting ?A q" using w i by (auto simp: lang_def Let_def)
  then obtain s where s: "s \<in> set (step_all (state_of ?A 0) c)" by auto
  have "s \<in> delta ?A [c] (au_initial ?A)" "q \<in> delta ?A [c, c] (au_initial ?A)" using s q i by auto
  then have "s = 0" "q = 0" using delta_less [OF A(1)] A(2) by (metis less_one)+
  then show ?thesis using s q(2) i by (auto simp: lang_def Let_def)
qed

lemma example_learner:
  assumes "L = (new_learner [97] False)\<lparr>ln_sample := s\<rparr>"
    and "sample_words s \<subseteq> {[], [97]}" "\<forall>c \<in> set (sa_uni s) \<union> set (sa_ex s). ce_a c = make_string [97]"
  shows "maps_ok L" "sample_ok L" "\<not> ln_debug L" "ln_n L = 1"
    "\<forall>c \<in> set (sa_ex (ln_sample L)). 1 < ln_n L * ce_states c"
proof -
  have al: "ln_alphabet L = [97]" by (simp add: assms(1) new_learner_def)
  have "maps_ok (new_learner [97] False)" by (rule maps_ok_new) simp
  then show "maps_ok L" by (simp add: assms(1) maps_ok_def)
  have "letters_only {97} (make_string [97])"
    by (simp add: letters_only_def expand_singleton_def make_string_def string_states_def)
  then show "sample_ok L" using assms(2,3) unfolding sample_ok_def al by (auto simp: assms(1))
  show "\<not> ln_debug L" "ln_n L = 1" by (simp_all add: assms(1) new_learner_def)
  then show "\<forall>c \<in> set (sa_ex (ln_sample L)). 1 < ln_n L * ce_states c"
    using assms(3) by (simp add: assms(1) make_string_def get_number_of_states_def)
qed

lemma small_learner_ok:
  "maps_ok small_learner" "sample_ok small_learner" "\<not> ln_debug small_learner" "ln_n small_learner = 1"
  "\<forall>c \<in> set (sa_ex (ln_sample small_learner)). 1 < ln_n small_learner * ce_states c"
  "set (sa_pos (ln_sample small_learner)) \<inter> set (sa_neg (ln_sample small_learner)) = {}"
proof -
  have d: "small_learner = (new_learner [97] False)\<lparr>ln_sample := ln_sample small_learner\<rparr>"
    by (simp add: small_learner_def)
  have w: "sample_words (ln_sample small_learner) \<subseteq> {[], [97]}"
    by (simp add: small_learner_sample sample_words_def)
  have c: "\<forall>c \<in> set (sa_uni (ln_sample small_learner)) \<union> set (sa_ex (ln_sample small_learner)).
      ce_a c = make_string [97]" by (simp add: small_learner_sample)
  note ok = example_learner [OF d w c]
  show "maps_ok small_learner" "sample_ok small_learner" "\<not> ln_debug small_learner" "ln_n small_learner = 1"
    "\<forall>c \<in> set (sa_ex (ln_sample small_learner)). 1 < ln_n small_learner * ce_states c"
    by (fact ok)+
  show "set (sa_pos (ln_sample small_learner)) \<inter> set (sa_neg (ln_sample small_learner)) = {}"
    by (simp add: small_learner_sample)
qed

lemma small_learner_dfa:
  "complete_dfa (ln_alphabet small_learner) 2 two_state_dfa"
  "consistent (lang two_state_dfa) (ln_sample small_learner)"
proof -
  show "complete_dfa (ln_alphabet small_learner) 2 two_state_dfa"
    by code_simp
  show "consistent (lang two_state_dfa) (ln_sample small_learner)"
  proof -
    have "[97] \<in> lang two_state_dfa" "[] \<notin> lang two_state_dfa"
      by (simp_all add: lang_def two_state_dfa_def step_all_def)
    then show ?thesis by (simp add: consistent_def small_learner_sample)
  qed
qed

lemma preserves_lang_id: "preserves_lang id"
  by (simp add: preserves_lang_def)

lemma even_learner_one: "\<exists>cs. construct_sat even_learner 1 = Some cs \<and> (\<forall>I. \<not> models I cs)"
proof -
  have "construct_sat even_learner 1 = Some
     [BConst (VarID 3), BNot (BConst (VarID 5)), BNot (BConst (VarID 7)),
      BImplies (BAnd (BConst (VarID 3)) (BConst (VarID 1))) (BConst (VarID 6)),
      BNot (BConst (VarID 4)),
      BImplies (BAnd (BConst (VarID 5)) (BConst (VarID 1))) (BConst (VarID 8)),
      BImplies (BConst (VarID 6)) (BOr BFalse (BAnd (BConst (VarID 1)) (BConst (VarID 3)))),
      BImplies (BConst (VarID 8)) (BOr BFalse (BAnd (BConst (VarID 1)) (BConst (VarID 5)))),
      BImplies (BOr BFalse (BAnd (BConst (VarID 2)) (BConst (VarID 0))))
        (BOr (BOr BFalse (BAnd (BConst (VarID 7)) (BConst (VarID 0))))
          (BAnd (BConst (VarID 8)) (BConst (VarID 0)))),
      BOr BFalse (BConst (VarID 1)), BConst (VarID 2),
      BImplies (BConst (VarID 2)) (BConst (VarID 0))]"
    by code_simp
  then show ?thesis by auto
qed

lemma conjecture_ends:
  assumes "solver_ok solve" "preserves_lang minimize"
    and "maps_ok L" "sample_ok L" "\<not> ln_debug L" "0 < ln_n L"
    and "set (sa_pos (ln_sample L)) \<inter> set (sa_neg (ln_sample L)) = {}"
    and "\<forall>c \<in> set (sa_ex (ln_sample L)). 1 < ln_n L * ce_states c"
    and "complete_dfa (ln_alphabet L) k A" "consistent (lang A) (ln_sample L)"
  shows "\<exists>n W. conjecture solve minimize L = Some (Some (L\<lparr>ln_n := n\<rparr>, W))
    \<and> ln_n L \<le> n \<and> n \<le> max (ln_n L) (k + 1) \<and> consistent (lang W) (ln_sample L)"
proof -
  let ?m = "max (ln_n L) (k + 1)"
  have lm: "\<forall>c \<in> set (sa_ex (ln_sample L)). 1 < j * ce_states c" if "ln_n L \<le> j" for j
    using assms(8) that by (meson le_less_trans mult_le_mono1 not_less)
  have some: "construct_sat L j \<noteq> None" if "ln_n L \<le> j" for j
    using construct_sat_Some [OF assms(3,4) lm [OF that]] by (metis option.distinct(1))
  have k: "k < ?m" by simp
  obtain cs J where m: "construct_sat L ?m = Some cs" "models J cs"
    by (rule more_states_satisfiable [OF assms(3-5) lm [OF max.cobounded1] assms(9,10) k])
  obtain n I where r: "conjecture_loop solve L (ln_n L) = Some (Some (n, I))" "ln_n L \<le> n" "n \<le> ?m"
    using conjecture_loop_returns [OF assms(1) some m max.cobounded1] by blast
  obtain cs' where cs': "construct_sat L n = Some cs'" "solve cs' = Some I"
    using conjecture_loop_result [OF r(1)] by (auto simp: loop_result_def)
  have n0: "ln_n L - 1 + 1 = ln_n L" "0 < n" using assms(6) r(2) by simp_all
  have "consistent (lang (translate_model minimize
      \<lparr>en_learner = L, en_n = n, en_tree = the (sample_tree L)\<rparr> I)) (ln_sample L)"
    by (rule conjecture_lang [OF assms(1-4) cs'(1) solver_sound [OF assms(1) cs'(2)] n0(2) assms(7)])
  then show ?thesis using r(2,3) unfolding conjecture_def n0(1) r(1) by auto
qed

subsection \<open>Properties of the learner\<close>

text \<open>C1: Outside debug mode, take a learner whose maps number its alphabet, whose sample has words over
  the alphabet, none both positive and negative, and counter-example automata with single letters of
  the alphabet on their transitions, and whose first number of states times the number of states is
  above 1 for each existential counter-example. If a complete automaton with k states is consistent
  with this sample, conjecture ends, with any solver that gives a model exactly when there is one and
  any language-preserving \<open>minimize\<close>. It stops at a number of states from the first one tried up to k + 1
  (or at the first one, when that is larger), and its automaton is consistent: it accepts the positive
  words, rejects the negative ones and keeps every implication.\<close>
theorem conjecture_returns:
  assumes "solver_ok solve" "preserves_lang minimize"
    and "maps_ok L" "sample_ok L" "\<not> ln_debug L" "0 < ln_n L"
    and "set (sa_pos (ln_sample L)) \<inter> set (sa_neg (ln_sample L)) = {}"
    and "\<forall>c \<in> set (sa_ex (ln_sample L)). 1 < ln_n L * ce_states c"
    and "complete_dfa (ln_alphabet L) k A" "consistent (lang A) (ln_sample L)"
  shows "\<exists>n W. conjecture solve minimize L = Some (Some (L\<lparr>ln_n := n\<rparr>, W))
    \<and> ln_n L \<le> n \<and> n \<le> max (ln_n L) (k + 1) \<and> consistent (lang W) (ln_sample L)"
  by (rule conjecture_ends [OF assms])

theorem conjecture_returns_witness:
  "\<exists>n W. conjecture enumerate_models id small_learner = Some (Some (small_learner\<lparr>ln_n := n\<rparr>, W))
    \<and> ln_n small_learner \<le> n \<and> n \<le> max (ln_n small_learner) (2 + 1)
    \<and> consistent (lang W) (ln_sample small_learner)"
  using small_learner_ok small_learner_dfa
  by (intro conjecture_returns [OF solver_ok_enumerate_models preserves_lang_id]) simp_all

lemma conjecture_least:
  assumes "solver_ok solve" "maps_ok L" "sample_ok L" "\<not> ln_debug L"
    and cs: "construct_sat L j = Some cs" "solve cs = None"
    and A: "complete_dfa (ln_alphabet L) j A" "consistent (lang A) (ln_sample L)"
  shows "\<not> short_witnesses j A (ln_sample L)"
proof
  assume S: "short_witnesses j A (ln_sample L)"
  have "\<forall>c \<in> set (sa_ex (ln_sample L)). 1 < j * ce_states c"
    using construct_sat_None [of _ L j] cs(1) by (auto simp: not_le [symmetric])
  then obtain cs' I where "construct_sat L j = Some cs'" "models I cs'"
    by (rule construct_sat_satisfiable [OF assms(2-4) _ A S])
  then show False using cs solver_complete [OF assms(1) cs(2)] by simp
qed

text \<open>C2: Outside debug mode, for a sample with words over the alphabet, none both positive and
  negative, and counter-example automata with single letters of the alphabet on their transitions:
  what \<open>conjecture\<close> returns, when it returns an automaton, is consistent with the sample. Of the numbers
  of states tried before the last one, from the first on, none has a consistent complete automaton whose
  witnesses of existential counter-examples are short enough for the encoding (fewer than n * m - 1
  letters). So, without existential counter-examples, no number from the first on and below the last
  one is enough for a consistent automaton.\<close>
theorem conjecture_minimal:
  assumes "solver_ok solve" "preserves_lang minimize"
    and "maps_ok L" "sample_ok L" "\<not> ln_debug L" "0 < ln_n L"
    and "set (sa_pos (ln_sample L)) \<inter> set (sa_neg (ln_sample L)) = {}"
    and "conjecture solve minimize L = Some (Some (L', W))"
  shows "consistent (lang W) (ln_sample L) \<and> L' = L\<lparr>ln_n := ln_n L'\<rparr> \<and> ln_n L \<le> ln_n L'
    \<and> (\<forall>j A. ln_n L \<le> j \<longrightarrow> j < ln_n L' \<longrightarrow> complete_dfa (ln_alphabet L) j A \<longrightarrow>
         consistent (lang A) (ln_sample L) \<longrightarrow> \<not> short_witnesses j A (ln_sample L))"
proof -
  obtain n I cs where r: "ln_n L \<le> n" "construct_sat L n = Some cs" "solve cs = Some I"
    "L' = L\<lparr>ln_n := n\<rparr>"
    "W = translate_model minimize \<lparr>en_learner = L, en_n = n, en_tree = the (sample_tree L)\<rparr> I"
    "\<And>j. ln_n L \<le> j \<Longrightarrow> j < n \<Longrightarrow> \<exists>cs. construct_sat L j = Some cs \<and> solve cs = None"
    using conjecture_result [OF assms(8,6)] by metis
  have "consistent (lang W) (ln_sample L)"
    unfolding r(5)
    by (rule conjecture_lang [OF assms(1-4) r(2) solver_sound [OF assms(1) r(3)] _ assms(7)])
      (use r(1) assms(6) in simp)
  moreover have "\<not> short_witnesses j A (ln_sample L)"
    if "ln_n L \<le> j" "j < n" "complete_dfa (ln_alphabet L) j A" "consistent (lang A) (ln_sample L)" for j A
    using r(6) [OF that(1,2)] conjecture_least [OF assms(1,3-5) _ _ that(3,4)] by blast
  ultimately show ?thesis using r(1,4) by simp
qed

theorem conjecture_minimal_witness:
  "\<exists>L' W. conjecture enumerate_models id small_learner = Some (Some (L', W))
    \<and> consistent (lang W) (ln_sample small_learner) \<and> ln_n small_learner \<le> ln_n L'"
proof -
  note L = small_learner_ok
  have n: "0 < ln_n small_learner" by (simp add: L(4))
  obtain n W where r: "conjecture enumerate_models id small_learner = Some (Some (small_learner\<lparr>ln_n := n\<rparr>, W))"
    using conjecture_ends [OF solver_ok_enumerate_models preserves_lang_id L(1-3) n L(6,5) small_learner_dfa]
    by blast
  show ?thesis
    using conjecture_minimal [OF solver_ok_enumerate_models preserves_lang_id L(1-3) n L(6) r] r by blast
qed

text \<open>C3: The \<open>z\<close> variables stand for words of length at most n * m - 2, one less than a shortest
  common word of two automata with n and m states can have. So the encoding for one state has no model
  for a sample that an automaton with one state is consistent with, and conjecture goes on to two
  states. A solver that keeps its promise may then answer with the words of even length: whatever
  \<open>minimize\<close> does to the automaton, no automaton with one state has that language, and conjecture has not
  returned a smallest consistent automaton.\<close>
theorem existential_length_bound:
  assumes "preserves_lang minimize"
  shows "complete_dfa (ln_alphabet even_learner) 1 loop_dfa
    \<and> consistent (lang loop_dfa) (ln_sample even_learner)
    \<and> (\<exists>cs. construct_sat even_learner 1 = Some cs \<and> \<not> (\<exists>I. models I cs))
    \<and> solver_ok even_solver
    \<and> (\<exists>W. conjecture even_solver minimize even_learner = Some (Some (even_learner\<lparr>ln_n := 2\<rparr>, W))
        \<and> lang W = {w. set w \<subseteq> {97} \<and> even (length w)}
        \<and> \<not> (\<exists>A. wf_automaton A \<and> get_number_of_states A = 1 \<and> lang A = lang W))"
proof -
  have dfa: "complete_dfa (ln_alphabet even_learner) 1 loop_dfa" by code_simp
  have "[97, 97] \<in> lang loop_dfa" "[] \<in> lang loop_dfa"
    by (simp_all add: lang_def loop_dfa_def step_all_def)
  then have cons: "consistent (lang loop_dfa) (ln_sample even_learner)"
    by (simp add: consistent_def even_learner_sample)
  obtain cs where one: "construct_sat even_learner 1 = Some cs" "\<And>I. \<not> models I cs"
    using even_learner_one by blast
  have two: "map_option (models even_model) (construct_sat even_learner 2) = Some True" by code_simp
  then obtain ds where two: "construct_sat even_learner 2 = Some ds" "models even_model ds" by auto
  have "even_solver cs = None"
    using one(2) solver_sound [OF solver_ok_even_solver, of cs] by (cases "even_solver cs") auto
  moreover have "even_solver ds = Some even_model" using two(2) by (simp add: even_solver_def)
  ultimately have loop: "conjecture_loop even_solver even_learner 1 = Some (Some (2, even_model))"
    using one(1) two(1) conjecture_loop.simps [of even_solver even_learner 1]
      conjecture_loop.simps [of even_solver even_learner 2] by (simp add: numeral_2_eq_2)
  define E where "E = \<lparr>en_learner = even_learner, en_n = 2, en_tree = the (sample_tree even_learner)\<rparr>"
  let ?W = "translate_model minimize E even_model"
  have "model_automaton E even_model = even_dfa" unfolding E_def by code_simp
  then have W: "lang ?W = {w. set w \<subseteq> {97} \<and> even (length w)}"
    by (simp add: translate_model_lang [OF assms] lang_even_dfa)
  then have "[97, 97] \<in> lang ?W" "[97] \<notin> lang ?W" by simp_all
  then have "\<not> (\<exists>A. wf_automaton A \<and> get_number_of_states A = 1 \<and> lang A = lang ?W)"
    using one_state_lang by metis
  moreover have "ln_n even_learner - 1 + 1 = 1" by (simp add: even_learner_def new_learner_def)
  then have "conjecture even_solver minimize even_learner = Some (Some (even_learner\<lparr>ln_n := 2\<rparr>, ?W))"
    unfolding conjecture_def using loop by (simp add: E_def)
  ultimately show ?thesis using dfa cons one W solver_ok_even_solver by blast
qed

theorem existential_length_bound_witness:
  "\<exists>W. conjecture even_solver id even_learner = Some (Some (even_learner\<lparr>ln_n := 2\<rparr>, W))
    \<and> \<not> (\<exists>A. wf_automaton A \<and> get_number_of_states A = 1 \<and> lang A = lang W)"
  using existential_length_bound [OF preserves_lang_id] by blast

text \<open>C4: A counter-example whose automaton has one state makes constructSAT for one state raise an
  exception: the array of the \<open>z\<close> variables has no element for the empty word. So conjecture fails when
  the first existential counter-example (of a vertex without successors, say) has such an automaton.\<close>
theorem construct_sat_raises:
  assumes "c \<in> set (sa_ex (ln_sample L))" "ce_states c = 1" "ln_n L = 1"
  shows "conjecture solve minimize L = Some None"
  using construct_sat_None [OF assms(1), of 1] assms(2,3)
  by (simp add: conjecture_def) (subst conjecture_loop.simps, simp)

theorem construct_sat_raises_witness:
  "conjecture enumerate_models id
    ((new_learner [97] False)\<lparr>ln_sample := add_ex (=) [] new_automaton new_sample\<rparr>) = Some None"
  by (rule construct_sat_raises [where c = "\<lparr>ce_u = [], ce_a = new_automaton\<rparr>"])
    (simp_all add: add_ex_def new_sample_def new_automaton_def get_number_of_states_def new_learner_def)

subsection \<open>Debug mode\<close>

lemma debug_unsatisfiable:
  assumes L: "maps_ok L" "sample_ok L" "ln_debug L"
    and ex: "e1 < length (sa_ex (ln_sample L))" "e2 < length (sa_ex (ln_sample L))"
    and initial: "au_initial (expand_singleton (ce_a (sa_ex (ln_sample L) ! e1))) = i1"
      "au_initial (expand_singleton (ce_a (sa_ex (ln_sample L) ! e2))) \<noteq> i1"
      "i1 < ce_states (sa_ex (ln_sample L) ! e2)"
    and n: "0 < n" and cs: "construct_sat L n = Some cs"
  shows "\<not> models I cs"
proof
  assume I: "models I cs"
  obtain t where t: "tree_inv t" "tree_map t = sample_map (ln_sample L)" "pt_map t = ln_map L"
    and enc: "\<And>I. models I cs \<longleftrightarrow> encodes \<lparr>en_learner = L, en_n = n, en_tree = t\<rparr>
        (truth \<lparr>en_learner = L, en_n = n, en_tree = t\<rparr> I)"
    by (rule construct_sat_encodes [OF L(1,2) cs]) blast
  let ?E = "\<lparr>en_learner = L, en_n = n, en_tree = t\<rparr>"
  let ?V = "truth ?E I"
  have V: "encodes ?E ?V" using enc I by blast
  have node: "\<exists>i < length (pt_nodes t). path_word t i = ce_u c" if "c \<in> set (sa_ex (ln_sample L))" for c
  proof -
    have "tree_map t (ce_u c) \<noteq> None" using that by (auto simp: t(2) sample_map_def sample_words_def)
    then show ?thesis using stored_iff [OF t(1)] by (simp add: stored_def)
  qed
  have ok: "\<exists>i. ex_ok ?E ?V e (expand_singleton (ce_a (sa_ex (ln_sample L) ! e)))
      (l_max ?E (sa_ex (ln_sample L) ! e)) i" if e: "e < length (sa_ex (ln_sample L))" for e
  proof -
    obtain i where "i < length (pt_nodes t)" "path_word t i = ce_u (sa_ex (ln_sample L) ! e)"
      using node [OF nth_mem [OF e]] by blast
    then show ?thesis using encodesD(6) [OF V] e by auto
  qed
  have "?V (VZ e1 0 i1 0)" using ok [OF ex(1)] initial(1) unfolding ex_ok_def by blast
  moreover have "?V (VZ e1 0 i1 0) = ?V (VZ e2 0 i1 0)" by (simp add: bool_const_def L(3))
  moreover have "\<not> ?V (VZ e2 0 i1 0)"
  proof -
    have "\<forall>s < length (au_states (expand_singleton (ce_a (sa_ex (ln_sample L) ! e2)))). \<forall>q < en_n ?E.
        s = au_initial (expand_singleton (ce_a (sa_ex (ln_sample L) ! e2))) \<and> q = 0 \<or> \<not> ?V (VZ e2 q s 0)"
      using ok [OF ex(2)] unfolding ex_ok_def by blast
    then have "i1 = au_initial (expand_singleton (ce_a (sa_ex (ln_sample L) ! e2))) \<or> \<not> ?V (VZ e2 0 i1 0)"
      using initial(3) n by (metis encoding.select_convs(2) length_expand_singleton)
    then show ?thesis using initial(2) by metis
  qed
  ultimately show False by blast
qed

text \<open>C5: In debug mode the \<open>y\<close> and \<open>z\<close> constants are named without the number of the counter-example,
  so that two counter-examples share them. If two existential counter-examples have initial states with
  different numbers, the formulas contradict each other for every number of states and conjecture never
  ends, whatever the sample.\<close>
theorem debug_mode_diverges:
  assumes "solver_ok solve" "maps_ok L" "sample_ok L" "ln_debug L" "0 < ln_n L"
    and "\<forall>c \<in> set (sa_ex (ln_sample L)). 1 < ln_n L * ce_states c"
    and "e1 < length (sa_ex (ln_sample L))" "e2 < length (sa_ex (ln_sample L))"
    and "au_initial (expand_singleton (ce_a (sa_ex (ln_sample L) ! e1))) = i1"
    and "au_initial (expand_singleton (ce_a (sa_ex (ln_sample L) ! e2))) \<noteq> i1"
    and "i1 < ce_states (sa_ex (ln_sample L) ! e2)"
  shows "conjecture solve minimize L = None"
proof -
  have some: "construct_sat L j \<noteq> None" if "ln_n L \<le> j" for j
  proof -
    have lm: "\<forall>c \<in> set (sa_ex (ln_sample L)). 1 < j * ce_states c"
      using assms(6) that by (meson le_less_trans mult_le_mono1 not_less)
    show ?thesis using construct_sat_Some [OF assms(2,3) lm] by (metis option.distinct(1))
  qed
  have unsat: "\<not> models I cs" if "ln_n L \<le> j" "construct_sat L j = Some cs" for j cs I
    using debug_unsatisfiable [OF assms(2-4,7-11) _ that(2)] that(1) assms(5) by simp
  have "conjecture_loop solve L (ln_n L) = None"
  proof (rule ccontr)
    assume "conjecture_loop solve L (ln_n L) \<noteq> None"
    then obtain x where "conjecture_loop solve L (ln_n L) = Some x" by blast
    then have "loop_result solve L (ln_n L) x" by (rule conjecture_loop_result)
    then obtain m where m: "ln_n L \<le> m" "construct_sat L m = None \<or>
        (\<exists>cs I. construct_sat L m = Some cs \<and> solve cs = Some I)"
      unfolding loop_result_def by blast
    then show False using some [OF m(1)] unsat [OF m(1)] solver_sound [OF assms(1)] by blast
  qed
  moreover have "ln_n L - 1 + 1 = ln_n L" using assms(5) by simp
  ultimately show ?thesis by (simp only: conjecture_def option.map)
qed

text \<open>The same language twice; the states of the second automaton are numbered the other way round.\<close>

definition reversed_word_automaton :: automaton where
  "reversed_word_automaton =
    \<lparr>au_initial = 1,
     au_states = [\<lparr>st_accept = True, st_transitions = []\<rparr>,
       \<lparr>st_accept = False, st_transitions = [char_transition 97 0]\<rparr>],
     au_deterministic = True, au_singleton = None\<rparr>"

definition debug_learner :: learner where
  "debug_learner = (new_learner [97] True)\<lparr>ln_sample :=
     add_ex (=) [97] reversed_word_automaton (add_ex (=) [] (make_string [97]) new_sample)\<rparr>"

theorem debug_mode_diverges_witness:
  "conjecture enumerate_models id debug_learner = None
    \<and> complete_dfa (ln_alphabet debug_learner) 1 loop_dfa
    \<and> consistent (lang loop_dfa) (ln_sample debug_learner)"
proof (intro conjI)
  have s: "ln_sample debug_learner = \<lparr>sa_pos = [], sa_neg = [],
      sa_ex = [\<lparr>ce_u = [], ce_a = make_string [97]\<rparr>, \<lparr>ce_u = [97], ce_a = reversed_word_automaton\<rparr>],
      sa_uni = [], sa_size = 2\<rparr>"
    by (simp add: debug_learner_def new_sample_def add_ex_def ce_equals_def)
  have al: "ln_alphabet debug_learner = [97]" by (simp add: debug_learner_def new_learner_def)
  show "complete_dfa (ln_alphabet debug_learner) 1 loop_dfa" by code_simp
  have "[97] \<in> lang loop_dfa" "[] \<in> lang loop_dfa" "[97] \<in> lang reversed_word_automaton"
    by (simp_all add: lang_def loop_dfa_def reversed_word_automaton_def step_all_def)
  then show "consistent (lang loop_dfa) (ln_sample debug_learner)"
    by (auto simp: consistent_def s)
  have "maps_ok (new_learner [97] True)" by (rule maps_ok_new) simp
  then have maps: "maps_ok debug_learner" by (simp add: debug_learner_def maps_ok_def)
  have "letters_only {97} (make_string [97])" "letters_only {97} reversed_word_automaton"
    "wf_automaton reversed_word_automaton"
    by (simp_all add: letters_only_def expand_singleton_def make_string_def string_states_def
        reversed_word_automaton_def wf_automaton_def)
  then have ok: "sample_ok debug_learner"
    by (simp add: sample_ok_def s al sample_words_def)
  have debug: "ln_debug debug_learner" "ln_n debug_learner = 1"
    by (simp_all add: debug_learner_def new_learner_def)
  show "conjecture enumerate_models id debug_learner = None"
    by (rule debug_mode_diverges [where ?e1.0 = 0 and ?e2.0 = 1 and ?i1.0 = 0,
          OF solver_ok_enumerate_models maps ok debug(1)])
      (simp_all add: debug(2) s make_string_def get_number_of_states_def expand_singleton_def
        reversed_word_automaton_def)
qed

subsection \<open>Intervals of characters\<close>

definition range_automaton :: automaton where
  "range_automaton =
    \<lparr>au_initial = 0,
     au_states = [\<lparr>st_accept = False, st_transitions = [range_transition 97 98 1]\<rparr>,
       \<lparr>st_accept = True, st_transitions = []\<rparr>],
     au_deterministic = True, au_singleton = None\<rparr>"

definition range_learner :: learner where
  "range_learner = (new_learner [97, 98] False)\<lparr>ln_sample :=
     add_uni (=) [] range_automaton (add_neg [98] (add_pos [] new_sample))\<rparr>"

text \<open>The sample in which the transitions of the counter-examples are cut to their least characters.\<close>

definition cut_transition :: "transition \<Rightarrow> transition" where
  "cut_transition t = t\<lparr>t_max := t_min t\<rparr>"

definition cut_state :: "state \<Rightarrow> state" where
  "cut_state s = s\<lparr>st_transitions := map cut_transition (st_transitions s)\<rparr>"

definition cut_automaton :: "automaton \<Rightarrow> automaton" where
  "cut_automaton A = A\<lparr>au_states := map cut_state (au_states A)\<rparr>"

definition cut_counter_example :: "counter_example \<Rightarrow> counter_example" where
  "cut_counter_example c = c\<lparr>ce_a := cut_automaton (ce_a c)\<rparr>"

definition cut_sample :: "sample \<Rightarrow> sample" where
  "cut_sample s = s\<lparr>sa_uni := map cut_counter_example (sa_uni s), sa_ex := map cut_counter_example (sa_ex s)\<rparr>"

definition cut_learner :: "learner \<Rightarrow> learner" where
  "cut_learner L = L\<lparr>ln_sample := cut_sample (ln_sample L)\<rparr>"

definition cut_encoding :: "encoding \<Rightarrow> encoding" where
  "cut_encoding E = E\<lparr>en_learner := cut_learner (en_learner E)\<rparr>"

lemmas cut_defs = cut_transition_def cut_state_def cut_automaton_def cut_counter_example_def
  cut_sample_def cut_learner_def cut_encoding_def

lemma cut_simps [simp]:
  "t_to (cut_transition t) = t_to t" "t_min (cut_transition t) = t_min t"
  "st_accept (cut_state s) = st_accept s"
  "st_transitions (cut_state s) = map cut_transition (st_transitions s)"
  "au_initial (cut_automaton A) = au_initial A" "au_singleton (cut_automaton A) = au_singleton A"
  "au_states (cut_automaton A) = map cut_state (au_states A)"
  "ce_u (cut_counter_example c) = ce_u c" "ce_a (cut_counter_example c) = cut_automaton (ce_a c)"
  "ln_n (cut_learner L) = ln_n L" "ln_alphabet (cut_learner L) = ln_alphabet L"
  "ln_map (cut_learner L) = ln_map L" "ln_inverted_map (cut_learner L) = ln_inverted_map L"
  "ln_debug (cut_learner L) = ln_debug L" "ln_sample (cut_learner L) = cut_sample (ln_sample L)"
  "sa_pos (cut_sample x) = sa_pos x" "sa_neg (cut_sample x) = sa_neg x"
  "sa_uni (cut_sample x) = map cut_counter_example (sa_uni x)"
  "sa_ex (cut_sample x) = map cut_counter_example (sa_ex x)"
  "en_n (cut_encoding E) = en_n E" "en_tree (cut_encoding E) = en_tree E"
  "en_learner (cut_encoding E) = cut_learner (en_learner E)"
  by (simp_all add: cut_defs)

lemma cut_string_states: "map cut_state (string_states s) = string_states s"
  by (simp add: string_states_def cut_state_def cut_transition_def char_transition_def)

lemma cut_expand_singleton [simp]:
  "expand_singleton (cut_automaton A) = cut_automaton (expand_singleton A)"
  "get_number_of_states (cut_automaton A) = get_number_of_states A"
  by (simp_all add: expand_singleton_def get_number_of_states_def cut_automaton_def cut_string_states
      split: option.split)

lemma cut_get_accept_states [simp]: "get_accept_states (cut_automaton A) = get_accept_states A"
  by (auto simp: get_accept_states_def Let_def intro!: filter_cong)

lemma cut_bases:
  "l_max (cut_encoding E) (cut_counter_example c) = l_max E c" "x_base (cut_encoding E) = x_base E"
  "y_base (cut_encoding E) u = y_base E u"
  by (simp_all add: l_max_def x_base_def y_base_def take_map comp_def)

lemma cut_z_base: "z_base (cut_encoding E) e = z_base E e"
  by (simp add: z_base_def cut_bases take_map comp_def)

text \<open>The counter-examples that the \<open>y\<close> and \<open>z\<close> variables of a formula belong to.\<close>

fun declared :: "encoding \<Rightarrow> svar \<Rightarrow> bool" where
  "declared E (VY u p p2) = (u < length (en_uni E))"
| "declared E (VZ e p p2 l) = (e < length (en_ex E))"
| "declared E v = True"

lemma cut_bool_const: "declared E v \<Longrightarrow> bool_const (cut_encoding E) v = bool_const E v"
  by (cases v) (simp_all add: bool_const_def cut_bases cut_z_base)

lemma cut_label [simp]: "label (cut_encoding E) (cut_transition t) = label E t"
  by (simp add: label_def)

lemma cut_labels_known [simp]: "labels_known (cut_learner L) (cut_automaton A) = labels_known L A"
  by (simp add: labels_known_def list_all_iff)

lemma cut_accept_ante [simp]: "accept_ante (cut_encoding E) i = accept_ante E i"
  by (simp add: accept_ante_def cut_bool_const)

lemma cut_uni_constraints:
  assumes "u < length (en_uni E)"
  shows "uni_constraints (cut_encoding E) u (cut_counter_example c) t = uni_constraints E u c t"
proof -
  let ?A = "expand_singleton (ce_a c)"
  have v: "bool_const (cut_encoding E) (VY u p s) = bool_const E (VY u p s)"
    "bool_const (cut_encoding E) (VD p a q) = bool_const E (VD p a q)"
    "bool_const (cut_encoding E) (VF q) = bool_const E (VF q)" for p s a q
    using assms by (simp_all add: cut_bool_const)
  have "uni_transitions (cut_encoding E) u (cut_automaton ?A) = uni_transitions E u ?A"
    unfolding uni_transitions_def
    by (rule arg_cong [where f = concat]) (auto simp: v comp_def intro!: map_cong)
  moreover have "accept_uni_cons (cut_encoding E) u (cut_automaton ?A) = accept_uni_cons E u ?A"
    by (simp add: accept_uni_cons_def v)
  ultimately show ?thesis by (simp add: uni_constraints_def Let_def v cong del: if_weak_cong)
qed

lemma cut_uni_loop:
  "u + length cs \<le> length (en_uni E) \<Longrightarrow>
    uni_loop (cut_encoding E) u (map cut_counter_example cs) t = uni_loop E u cs t"
proof (induction cs arbitrary: u t)
  case (Cons c cs)
  then have "uni_loop (cut_encoding E) (Suc u) (map cut_counter_example cs) t' = uni_loop E (Suc u) cs t'" for t'
    by simp
  with Cons.prems show ?case by (simp add: cut_uni_constraints)
qed simp

lemma cut_reverse_transition:
  assumes "e < length (en_ex E)"
  shows "reverse_transition (cut_encoding E) e (cut_automaton A) s q l = reverse_transition E e A s q l"
  unfolding reverse_transition_def
  by (rule foldl_cong)
    (simp_all add: foldl_map cut_bool_const assms case_prod_unfold cong del: if_weak_cong)

lemma cut_ex_constraints:
  assumes "e < length (en_ex E)"
  shows "ex_constraints (cut_encoding E) e (cut_counter_example c) t = ex_constraints E e c t"
proof -
  let ?A = "expand_singleton (ce_a c)"
  have v: "bool_const (cut_encoding E) (VZ e p s l) = bool_const E (VZ e p s l)"
    "bool_const (cut_encoding E) (VD p a q) = bool_const E (VD p a q)"
    "bool_const (cut_encoding E) (VF q) = bool_const E (VF q)" for p s a q l
    using assms by (simp_all add: cut_bool_const)
  have t: "ex_transitions (cut_encoding E) e (cut_automaton ?A) lm s = ex_transitions E e ?A lm s"
    if "s < ce_states c" for s lm
    using that by (simp add: ex_transitions_def v comp_def)
  have m: "map (\<lambda>s. ex_transitions (cut_encoding E) e (cut_automaton ?A) lm s @ ex_reverse E e ?A lm s)
      [0..<ce_states c] = map (\<lambda>s. ex_transitions E e ?A lm s @ ex_reverse E e ?A lm s) [0..<ce_states c]" for lm
    by (rule map_cong) (simp_all add: t)
  have "ex_initial (cut_encoding E) e (cut_automaton ?A) = ex_initial E e ?A"
    by (simp add: ex_initial_def v cong del: if_weak_cong)
  moreover have "ex_reverse (cut_encoding E) e (cut_automaton ?A) lm s = ex_reverse E e ?A lm s" for lm s
    by (simp add: ex_reverse_def cut_reverse_transition [OF assms] v case_prod_unfold cong del: if_weak_cong)
  moreover have "accept_ex_cons (cut_encoding E) e (cut_automaton ?A) lm = accept_ex_cons E e ?A lm" for lm
    by (simp add: accept_ex_cons_def v)
  ultimately show ?thesis
    by (simp add: ex_constraints_def z_declared_def cut_bases Let_def m cong del: if_weak_cong)
qed

lemma cut_ex_loop:
  "e + length cs \<le> length (en_ex E) \<Longrightarrow>
    ex_loop (cut_encoding E) e (map cut_counter_example cs) t = ex_loop E e cs t"
proof (induction cs arbitrary: e t)
  case (Cons c cs)
  then have "ex_loop (cut_encoding E) (Suc e) (map cut_counter_example cs) t' = ex_loop E (Suc e) cs t'" for t'
    by simp
  with Cons.prems show ?case by (simp add: cut_ex_constraints)
qed simp

lemma cut_node_constraints: "node_constraints (cut_encoding E) t i = node_constraints E t i"
  by (simp add: node_constraints_def Let_def cut_bool_const cong del: if_weak_cong option.case_cong_weak)

lemma prefix_loop_cong:
  assumes "prefix_loop E t nodes = Some cs" and c: "\<And>i. node_constraints E' t i = node_constraints E t i"
  shows "prefix_loop E' t nodes = Some cs"
proof -
  define P where "P E t nodes cs \<longleftrightarrow> ((\<forall>i. node_constraints E' t i = node_constraints E t i) \<longrightarrow>
    prefix_loop E' t nodes = Some cs)" for E t nodes cs
  have "P E t nodes cs"
  proof (rule prefix_loop.raw_induct [where P = P, OF _ assms(1)])
    fix f E t nodes cs
    assume IH: "\<And>E t nodes cs. f E t nodes = Some cs \<Longrightarrow> P E t nodes cs"
      and step: "(case nodes of [] \<Rightarrow> Some [] | node # rest \<Rightarrow>
        f E t (rest @ child_nodes t node) \<bind> (\<lambda>cs. Some (node_constraints E t node @ cs))) = Some cs"
    show "P E t nodes cs"
    proof (cases nodes)
      case Nil
      then show ?thesis using step by (simp add: P_def prefix_loop.simps)
    next
      case (Cons i rest)
      then obtain ds where ds: "f E t (rest @ child_nodes t i) = Some ds" "cs = node_constraints E t i @ ds"
        using step by (auto split: bind_splits)
      then show ?thesis
        using IH [OF ds(1)] unfolding P_def Cons by (subst prefix_loop.simps) simp
    qed
  qed
  then show ?thesis using c by (simp add: P_def)
qed

lemma cut_prefix_loop: "prefix_loop (cut_encoding E) t nodes = prefix_loop E t nodes"
proof (cases "prefix_loop E t nodes")
  case None
  have "prefix_loop (cut_encoding E) t nodes \<noteq> Some cs" for cs
    using prefix_loop_cong [of "cut_encoding E" t nodes cs E] None by (auto simp: cut_node_constraints)
  then show ?thesis using None by (cases "prefix_loop (cut_encoding E) t nodes") auto
next
  case (Some cs)
  then show ?thesis
    using prefix_loop_cong [OF Some, of "cut_encoding E"] by (simp add: cut_node_constraints)
qed

lemma cut_sample_tree: "sample_tree (cut_learner L) = sample_tree L"
  by (simp add: sample_tree_def Let_def comp_def)

lemma cut_construct_sat: "construct_sat (cut_learner L) n = construct_sat L n"
proof -
  have E: "\<lparr>en_learner = cut_learner L, en_n = n, en_tree = t\<rparr>
      = cut_encoding \<lparr>en_learner = L, en_n = n, en_tree = t\<rparr>" for t
    by (simp add: cut_encoding_def)
  have "d_constraints (cut_encoding E) = d_constraints E"
    "initial_constraints (cut_encoding E) t = initial_constraints E t" for E t
    by (simp_all add: d_constraints_def initial_constraints_def Let_def cut_bool_const)
  then show ?thesis
    by (simp add: construct_sat_def cut_sample_tree E cut_uni_loop cut_ex_loop cut_prefix_loop Let_def)
qed

lemma conjecture_loop_cong:
  assumes "conjecture_loop solve L n = Some x" and c: "\<And>m. construct_sat L' m = construct_sat L m"
  shows "conjecture_loop solve L' n = Some x"
proof -
  have "loop_result solve L n x" by (rule conjecture_loop_result [OF assms(1)])
  then obtain m where m: "m \<ge> n" "construct_sat L m = None \<and> x = None
      \<or> (\<exists>cs I. construct_sat L m = Some cs \<and> solve cs = Some I \<and> x = Some (m, I))"
    "\<forall>j. n \<le> j \<longrightarrow> j < m \<longrightarrow> (\<exists>cs. construct_sat L j = Some cs \<and> solve cs = None)"
    unfolding loop_result_def by blast
  show ?thesis using m
  proof (induction "m - n" arbitrary: n)
    case 0
    then show ?case by (subst conjecture_loop.simps) (auto simp: c)
  next
    case (Suc d)
    then obtain cs where "construct_sat L n = Some cs" "solve cs = None" by (metis diff_is_0_eq nat.simps(3) not_le order_refl)
    moreover have "conjecture_loop solve L' (n + 1) = Some x" using Suc.hyps(2) Suc.prems by (intro Suc.hyps(1)) auto
    ultimately show ?case by (subst conjecture_loop.simps) (simp add: c)
  qed
qed

lemma cut_conjecture_loop: "conjecture_loop solve (cut_learner L) n = conjecture_loop solve L n"
proof (cases "conjecture_loop solve L n")
  case None
  have "conjecture_loop solve (cut_learner L) n \<noteq> Some x" for x
    using conjecture_loop_cong [of solve "cut_learner L" n x L] None by (auto simp: cut_construct_sat)
  then show ?thesis using None by (cases "conjecture_loop solve (cut_learner L) n") auto
next
  case (Some x)
  then show ?thesis using conjecture_loop_cong [OF Some, of "cut_learner L"] by (simp add: cut_construct_sat)
qed

lemma cut_translate_model: "translate_model minimize (cut_encoding E) I = translate_model minimize E I"
proof -
  have "model_state (cut_encoding E) I p = model_state E I p" for p
    by (simp add: model_state_def cut_bool_const cong del: if_weak_cong)
  then have "model_state (cut_encoding E) I = model_state E I" by (rule ext)
  then have "model_automaton (cut_encoding E) I = model_automaton E I" by (simp add: model_automaton_def)
  then show ?thesis by (simp add: translate_model_def)
qed

lemma cut_conjecture:
  "conjecture solve minimize L = map_option (map_option (\<lambda>(L', W). (L\<lparr>ln_n := ln_n L'\<rparr>, W)))
    (conjecture solve minimize (cut_learner L))"
proof -
  have m: "translate_model minimize \<lparr>en_learner = cut_learner L, en_n = n, en_tree = the (sample_tree L)\<rparr> I
      = translate_model minimize \<lparr>en_learner = L, en_n = n, en_tree = the (sample_tree L)\<rparr> I" for n I
    using cut_translate_model [of minimize "\<lparr>en_learner = L, en_n = n, en_tree = the (sample_tree L)\<rparr>" I]
    by (simp add: cut_encoding_def)
  show ?thesis
    by (simp add: conjecture_def cut_conjecture_loop cut_sample_tree m option.map_comp comp_def
        case_prod_unfold)
qed

lemma conjecture_consistent:
  assumes "solver_ok solve" "preserves_lang minimize" "maps_ok L" "sample_ok L" "0 < ln_n L"
    and "set (sa_pos (ln_sample L)) \<inter> set (sa_neg (ln_sample L)) = {}"
    and "conjecture solve minimize L = Some (Some (L', W))"
  shows "consistent (lang W) (ln_sample L)"
proof -
  obtain n I cs where r: "ln_n L \<le> n" "construct_sat L n = Some cs" "solve cs = Some I"
    "W = translate_model minimize \<lparr>en_learner = L, en_n = n, en_tree = the (sample_tree L)\<rparr> I"
    using conjecture_result [OF assms(7,5)] by metis
  show ?thesis
    unfolding r(4)
    by (rule conjecture_lang [OF assms(1-4) r(2) solver_sound [OF assms(1) r(3)] _ assms(6)])
      (use r(1) assms(5) in simp)
qed

text \<open>C6: constructSAT reads of each transition of a counter-example only the least character: its
  formulas for a sample and for the sample in which all intervals are cut to their least characters are
  the same, for every number of states, and conjecture returns the same automaton for both. So, when the
  cut sample is as the encoding expects, the result is consistent with the cut sample. The automata that
  image returns are reduced, with adjacent characters joined to intervals: the example is a sample that
  no set of words is consistent with (the empty word is positive and implies all of \<open>a-b\<close>, of which
  \<open>b\<close> is negative), and yet conjecture returns an automaton.\<close>
theorem intervals_are_cut:
  assumes "solver_ok solve" "preserves_lang minimize"
    and "maps_ok L" "sample_ok (cut_learner L)" "0 < ln_n L"
    and "set (sa_pos (ln_sample L)) \<inter> set (sa_neg (ln_sample L)) = {}"
  shows "construct_sat L n = construct_sat (cut_learner L) n
    \<and> conjecture solve minimize L = map_option (map_option (\<lambda>(L', W). (L\<lparr>ln_n := ln_n L'\<rparr>, W)))
        (conjecture solve minimize (cut_learner L))
    \<and> (\<forall>L' W. conjecture solve minimize L = Some (Some (L', W)) \<longrightarrow>
        consistent (lang W) (ln_sample (cut_learner L)))"
proof (intro conjI allI impI)
  show "construct_sat L n = construct_sat (cut_learner L) n" by (simp add: cut_construct_sat)
  show "conjecture solve minimize L = map_option (map_option (\<lambda>(L', W). (L\<lparr>ln_n := ln_n L'\<rparr>, W)))
        (conjecture solve minimize (cut_learner L))" by (rule cut_conjecture)
  fix L' W assume "conjecture solve minimize L = Some (Some (L', W))"
  then obtain L'' where "conjecture solve minimize (cut_learner L) = Some (Some (L'', W))"
    by (subst (asm) cut_conjecture) auto
  moreover have "maps_ok (cut_learner L)" using assms(3) by (simp add: maps_ok_def)
  ultimately show "consistent (lang W) (ln_sample (cut_learner L))"
    using assms conjecture_consistent [of solve minimize "cut_learner L"] by simp
qed

theorem intervals_are_cut_witness:
  "\<not> (\<exists>W. consistent W (ln_sample range_learner))
    \<and> (\<exists>L' W. conjecture enumerate_models id (range_learner\<lparr>ln_n := 2\<rparr>) = Some (Some (L', W))
        \<and> consistent (lang W) (ln_sample (cut_learner range_learner)))"
proof
  have s: "ln_sample range_learner = \<lparr>sa_pos = [[]], sa_neg = [[98]], sa_ex = [],
      sa_uni = [\<lparr>ce_u = [], ce_a = range_automaton\<rparr>], sa_size = 3\<rparr>"
    by (simp add: range_learner_def new_sample_def add_pos_def add_neg_def add_uni_def)
  have "[98] \<in> lang range_automaton"
    by (simp add: lang_def range_automaton_def step_all_def matches_def range_transition_def)
  then show "\<not> (\<exists>W. consistent W (ln_sample range_learner))"
    by (auto simp: consistent_def s)
  let ?L = "range_learner\<lparr>ln_n := 2\<rparr>"
  let ?I = "\<lambda>v. v \<in> set (map VarID [0, 2, 5, 7, 9, 10, 13, 14, 15])"
  have "map_option (models ?I) (construct_sat ?L 2) = Some True" by code_simp
  then obtain cs where cs: "construct_sat ?L 2 = Some cs" "models ?I cs" by auto
  obtain I where "enumerate_models cs = Some I"
    using solver_complete [OF solver_ok_enumerate_models, of cs ?I] cs(2) by blast
  then have "conjecture_loop enumerate_models ?L 2 = Some (Some (2, I))"
    using cs(1) by (subst conjecture_loop.simps) simp
  then obtain L' W where r: "conjecture enumerate_models id ?L = Some (Some (L', W))"
    by (simp add: conjecture_def numeral_2_eq_2)
  have "maps_ok (new_learner [97, 98] False)" by (rule maps_ok_new) simp
  then have maps: "maps_ok ?L" by (simp add: range_learner_def maps_ok_def)
  have al: "ln_alphabet range_learner = [97, 98]" by (simp add: range_learner_def new_learner_def)
  have "wf_automaton (cut_automaton range_automaton)" "letters_only {97, 98} (cut_automaton range_automaton)"
    by (simp_all add: wf_automaton_def letters_only_def range_automaton_def expand_singleton_def
        range_transition_def cut_defs)
  then have ok: "sample_ok (cut_learner ?L)" by (simp add: sample_ok_def s al sample_words_def)
  have "consistent (lang W) (ln_sample (cut_learner ?L))"
    using intervals_are_cut [OF solver_ok_enumerate_models preserves_lang_id maps ok] r by (simp add: s)
  then show "\<exists>L' W. conjecture enumerate_models id ?L = Some (Some (L', W))
      \<and> consistent (lang W) (ln_sample (cut_learner range_learner))" using r by auto
qed

subsection \<open>The automaton that is returned\<close>

lemma model_automaton_well_formed:
  assumes V: "encodes E (truth E I)" and L: "maps_ok (en_learner E)" and n: "0 < en_n E"
  shows "complete_dfa (ln_alphabet (en_learner E)) (en_n E) (model_automaton E I)"
    "wf_automaton (model_automaton E I)" "flag_ok (model_automaton E I)"
proof -
  let ?A = "model_automaton E I"
  have sel: "au_singleton ?A = None" "au_initial ?A = 0" "length (au_states ?A) = en_n E"
    by (simp_all add: model_automaton_def)
  note step = model_automaton_step [OF V L]
  show "complete_dfa (ln_alphabet (en_learner E)) (en_n E) ?A"
    unfolding complete_dfa_def using sel n step encodes_next(1) [OF V L] by auto
  have to: "t_to t < en_n E" if t: "t \<in> set (transitions_of ?A p)" and p: "p < en_n E" for t p
  proof -
    have "state_of ?A p = model_state E I p" using p by (simp add: model_automaton_def)
    then show ?thesis using t by (auto simp: model_state_def)
  qed
  show "wf_automaton ?A"
    unfolding wf_automaton_def
  proof (intro impI conjI ballI)
    show "au_initial ?A < length (au_states ?A)" using sel n by simp
    fix s t assume "s \<in> set (au_states ?A)" "t \<in> set (st_transitions s)"
    then show "t_to t < length (au_states ?A)"
      using to sel(3) unfolding in_set_conv_nth [of s] by metis
  qed
  have "deterministic_state (state_of ?A p)" if p: "p < en_n E" for p
    unfolding deterministic_state_def
  proof (intro ballI allI impI)
    fix t u c
    assume t: "t \<in> set (transitions_of ?A p)" "matches t c" and u: "u \<in> set (transitions_of ?A p)" "matches u c"
    have "t_to t \<in> set (step_all (state_of ?A p) c)" "t_to u \<in> set (step_all (state_of ?A p) c)"
      using t u unfolding set_step_all by blast+
    then show "t_to t = t_to u" using step [OF p, of c] by (auto split: if_splits)
  qed
  then have "\<forall>s \<in> set (au_states ?A). deterministic_state s"
    using sel(3) by (metis in_set_conv_nth)
  then show "flag_ok ?A" by (simp add: flag_ok_def)
qed

text \<open>C7: The automaton that translateModel builds from a model of the formulas is what the operations
  on automata expect of it: its transitions stay inside its n states, every state has exactly one successor
  for every character of the alphabet, the flag deterministic that the constructor sets is true of it, and
  so its runs decide its language.\<close>
theorem model_automaton_type:
  assumes "maps_ok L" "sample_ok L" "0 < n" "construct_sat L n = Some cs" "models I cs"
    and "A = model_automaton \<lparr>en_learner = L, en_n = n, en_tree = the (sample_tree L)\<rparr> I"
  shows "wf_automaton A \<and> complete_dfa (ln_alphabet L) n A \<and> flag_ok A \<and> (\<forall>w. run A w = (w \<in> lang A))"
proof -
  obtain t where t: "sample_tree L = Some t"
    and enc: "\<And>I. models I cs \<longleftrightarrow> encodes \<lparr>en_learner = L, en_n = n, en_tree = t\<rparr>
        (truth \<lparr>en_learner = L, en_n = n, en_tree = t\<rparr> I)"
    by (rule construct_sat_encodes [OF assms(1,2,4)]) blast
  let ?E = "\<lparr>en_learner = L, en_n = n, en_tree = t\<rparr>"
  have "encodes ?E (truth ?E I)" using enc assms(5) by blast
  then have "complete_dfa (ln_alphabet L) n A" "wf_automaton A" "flag_ok A"
    using model_automaton_well_formed [of ?E I] assms(1,3,6) t by simp_all
  then show ?thesis using run_iff_lang by blast
qed

theorem model_automaton_type_witness:
  "\<exists>cs. construct_sat (new_learner [97] False) 1 = Some cs
    \<and> wf_automaton (model_automaton \<lparr>en_learner = new_learner [97] False, en_n = 1,
        en_tree = the (sample_tree (new_learner [97] False))\<rparr> (\<lambda>_. True))"
proof -
  have cs: "construct_sat (new_learner [97] False) 1 =
      Some [BOr BFalse (BConst (VarID 1)), BConst (VarID 2)]" by code_simp
  have "maps_ok (new_learner [97] False)" by (rule maps_ok_new) simp
  moreover have "sample_ok (new_learner [97] False)"
    by (simp add: sample_ok_def new_learner_def new_sample_def sample_words_def)
  ultimately show ?thesis
    using model_automaton_type [OF _ _ _ cs, of "\<lambda>_. True"] cs by simp
qed

end
