(* ===== verification/Spec2Isabelle.thy ===== *)
theory Spec2Isabelle
  imports Blaster_Shift Blaster_Cases Mpn Var_Queue Union_Find Psort_Card Finite_Arena Learner
begin

text \<open>
  A verification library for the programs of this repository, which solve safety games: the
  attractor computation for finite games (\<open>code/finite_case\<close>), the learner for infinite games
  (\<open>code/infinite_case/src\<close>) and the parts of the bundled Z3 (\<open>code/infinite_case/lib/z3-master/src\<close>)
  that the learner's constraints run through: formulas, rewriting, bit blasting, and the arithmetic
  and data structures below them. Definitions carry the names of the source.

  \<^bold>\<open>Finite games\<close> (theory \<open>Finite_Arena\<close>, \<open>finite_arena.py\<close>). An arena is a record of predecessor
  lists and owners; \<open>attractor\<close> is the loop of the class with its out-degree counters, every list
  access checked (\<open>None\<close> is an \<open>IndexError\<close>). It fails exactly on indices out of range and marks at
  least the attractor; it is exact under the condition of \<open>attractor_exact\<close>, and marks too much
  otherwise (\<open>attractor_overcounts\<close>).

  \<^bold>\<open>Infinite games.\<close> \<open>Automaton\<close> models the classes \<open>Automaton\<close>, \<open>State\<close>, \<open>Transition\<close> of the package
  \<open>transducer\<close> as records, runs and languages; states are numbered as by \<open>setStateNumbers\<close>.
  \<open>Prefix_Tree\<close> models \<open>Sample\<close>, \<open>CounterExample\<close>, \<open>Node\<close> and \<open>PrefixTree\<close>: the node objects live in a
  list, and \<open>tree_map\<close> abstracts a tree to the map from its words to their acceptance, which every
  operation updates as specified. \<open>Learner_Sat\<close> is \<open>constructSAT\<close> and \<open>translateModel\<close> of
  \<open>Learner.java\<close>: the formulas asserted for a sample and a number of states, with the numbering of
  their constants. \<open>Learner_Encoding\<close> (soundness) and \<open>Learner_Complete\<close> (completeness) say what the
  formulas mean, \<open>Learner\<close> is \<open>conjecture\<close>: what it returns and when it returns, outside debug mode and for
  samples whose counter-example automata have single letters on their transitions; when it raises an
  exception or never ends; where it departs from the least consistent automaton; and what it does with
  intervals of characters, of which it reads the least one. Z3's \<open>Solver\<close> is a parameter \<open>solve\<close> with the
  promise \<open>solver_ok\<close> of a complete solver, which \<open>enumerate_models\<close> keeps; \<open>minimize\<close> is a parameter that
  keeps the language; both are instantiated in the witnesses.

  \<^bold>\<open>Formulas and rewriting.\<close> \<open>Ast\<close> has the expressions of \<open>ast.h\<close> with sorts, evaluation and the relation
  \<open>refines\<close> (same sort, same value under every interpretation). \<open>Bool_Eq\<close>, \<open>Bool_Local_Ctx\<close> and
  \<open>Bool_Rewriter\<close> are \<open>bool_rewriter.{h,cpp}\<close>: every rewriting operation refines the application it is
  called for (\<open>mk_app_sound\<close>). The fuel of the local context simplifier is one more than the total weight
  of the arguments; \<open>local_ctx_rounds_end\<close> shows that it is enough.

  \<^bold>\<open>Bit blasting.\<close> \<open>Blaster_Cfg\<close> has the interface between the blaster template and its gates, a record
  and a locale with the laws of the gates, and the interpretations for the two configuration classes.
  \<open>Blaster_Arith\<close> (numerals, adders, multipliers), \<open>Blaster_Div\<close> (division), \<open>Blaster_Shift\<close> (shifts,
  rotations, comparisons, signed overflow) and \<open>Blaster_Cases\<close> (the signed operations by cases) are
  \<open>bit_blaster_tpl_def.h\<close>: each circuit computes the operation of the theory of bit vectors on the values
  of its bits, on every route through the special cases.

  \<^bold>\<open>Cardinality constraints.\<close> The theories \<open>Psort_\<close> are the template \<open>psort_nw\<close> of
  \<open>sorting_network.h\<close> with the literals of \<open>pb2bv_rewriter.cpp\<close>. The state is the list of lemmas and the
  number of the next constant (\<open>Psort_Base\<close>); \<open>Psort_Network\<close> has the sorting and merging networks with the
  estimates that choose between them. \<open>Psort_Correct\<close> and \<open>Psort_Sort\<close> prove them against \<open>computes\<close>: the
  outputs stand for the number of true inputs in the directions that the mode promises, and every
  interpretation extends to the new constants. \<open>Psort_Gates\<close> (unary and binary addition), \<open>Psort_One\<close> and
  \<open>Psort_Exactly\<close> (at most and exactly one) are the other encodings, and \<open>Psort_Card\<close> has \<open>ge\<close>, \<open>le\<close> and
  \<open>eq\<close>, proved against \<open>reifies\<close>: the literal stands for the constraint. The member \<open>m_t\<close> is an argument.
  Numbers of literals are natural numbers (the estimates are words); a read outside of a vector is \<open>None\<close>.

  \<^bold>\<open>Arithmetic and data structures.\<close> \<open>Word_Lists\<close> has lists of 32-bit words as numbers, \<open>Bit_Util\<close> is
  \<open>bit_util.cpp\<close>, \<open>Mpn\<close> is \<open>mpn.cpp\<close> (Knuth's division included, with its failures as values: writes past
  an array, \<open>UNREACHABLE\<close> and the endless normalization of a zero top digit); words keep their width. \<open>Heap\<close> is
  \<open>heap.h\<close>, a refinement of a finite set with its least element, \<open>Var_Queue\<close> the decision queue on it with
  the activity functions of \<open>sat_solver.cpp\<close> as a step relation: its flag tells whether each change of an
  activity was reported to the queue as it is, which the code does not always do; the tables of the queue are
  consistent in any case, the order is right under the flag. And \<open>Union_Find\<close> is \<open>union_find.h\<close> with
  the trail stack of \<open>trail.h\<close>: a refinement of a stack of partitions, and a locale with the contract that
  both union-find classes keep.

  \<open>Prelude\<close> holds the shared collections, \<open>std::sort\<close> and the values of lists of bits.

  \<^bold>\<open>Termination.\<close> Recursive functions have measures. Loops that need not end are partial functions or
  \<open>while_option\<close>: \<open>find_le\<close>, \<open>anti_explore\<close>, \<open>decide\<close>, \<open>norm_shift\<close>, \<open>get_word\<close>, \<open>prefix_loop\<close>, \<open>conjecture\<close>, \<open>uf_find\<close>, \<open>dissolve\<close>. For each a
  theorem says when it returns.

  \<^bold>\<open>Not modelled.\<close> Printing, tracing and statistics, which do not influence results. Resource limits and
  cancellation (\<open>checkpoint\<close>), which only abort. Reference counts and memory regions. Of
  \<open>psort_nw\<close> the weighted constraints, and of \<open>pb2bv_rewriter.cpp\<close> all but the literals. The template
  rewriter that applies the rewriter to whole terms and the other subsystems of Z3 (SMT core, SAT search, theories, bindings), which are each larger than this
  library. The floating point factor of anti-exploration is a parameter without hypotheses. Compiler builtins for counting zeros are described by the portable branch of the source. Of
  the copied package \<open>dk.brics.automaton\<close> the Boolean operations, minimisation and regular expressions, and
  with them \<open>Teacher\<close>, \<open>SafetyProblem\<close> and the transducers. In the learner the \<open>int\<close> counters
  \<open>varID\<close> and \<open>l_max\<close> are natural numbers: they overflow only for encodings of more than \<open>2 ^ 31\<close>
  constants.
\<close>

end
